(* ===== verification/Prelude.thy ===== *)
theory Prelude
  imports Main "HOL-Library.Word"
begin

text \<open>
  Shared vocabulary of the development: names for the machine's index types, the results of
  fallible operations, the bounds of the machine integers the interpreter computes in, and the
  generic facts on lists, options and saturating arithmetic that the component theories share.
\<close>

section \<open>Types shared by the components\<close>

type_synonym region_id = nat
type_synonym pool_id = nat
type_synonym cell_id = nat
type_synonym alloc_id = nat
type_synonym tag_id = nat
type_synonym task_id = nat

text \<open>A Unicode scalar value, a 32-bit generation counter, and a byte span of a source file.\<close>

type_synonym scalar = nat
type_synonym generation = "32 word"

record span =
  span_start :: nat
  span_end :: nat

named_theorems wf_intros \<open>introduction facts for the components' well-formedness invariants\<close>
named_theorems frame_simps \<open>what an operation leaves unchanged\<close>

section \<open>Bounded arithmetic\<close>

text \<open>\<open>2 ^ 64 - 1\<close>, written out.\<close>

abbreviation u64_max :: nat where "u64_max \<equiv> 18446744073709551615"
abbreviation i128_min :: int where "i128_min \<equiv> - (2 ^ 127)"
abbreviation i128_max :: int where "i128_max \<equiv> 2 ^ 127 - 1"

text \<open>Rust's \<open>saturating_add\<close> and \<open>saturating_mul\<close> on \<open>u64\<close>, and the checked reading of an
  \<open>i128\<close> result: \<open>None\<close> where the mathematical value does not fit.\<close>

definition sat_add :: "nat \<Rightarrow> nat \<Rightarrow> nat" where
  "sat_add a b = min (a + b) u64_max"

definition sat_mul :: "nat \<Rightarrow> nat \<Rightarrow> nat" where
  "sat_mul a b = min (a * b) u64_max"

definition in_i128 :: "int \<Rightarrow> bool" where
  "in_i128 x \<longleftrightarrow> i128_min \<le> x \<and> x \<le> i128_max"

definition fit_i128 :: "int \<Rightarrow> int option" where
  "fit_i128 x = (if in_i128 x then Some x else None)"

lemma sat_add_mono: "a \<le> u64_max \<Longrightarrow> a \<le> sat_add a b"
  by (simp add: sat_add_def)

lemma sat_add_bound [simp]: "sat_add a b \<le> u64_max"
  by (simp add: sat_add_def)

lemma sat_add_0 [simp]: "a \<le> u64_max \<Longrightarrow> sat_add a 0 = a"
  by (simp add: sat_add_def)

lemma sat_mul_bound [simp]: "sat_mul a b \<le> u64_max"
  by (simp add: sat_mul_def)

section \<open>Lists used as indexed stores\<close>

text \<open>\<open>Vec::get\<close>: \<open>None\<close> out of range. \<open>modify_at\<close> is the in-place update of one element through
  \<open>get_mut\<close>, which does nothing out of range.\<close>

definition get_at :: "'a list \<Rightarrow> nat \<Rightarrow> 'a option" where
  "get_at xs i = (if i < length xs then Some (xs ! i) else None)"

definition modify_at :: "nat \<Rightarrow> ('a \<Rightarrow> 'a) \<Rightarrow> 'a list \<Rightarrow> 'a list" where
  "modify_at i f xs = (if i < length xs then xs[i := f (xs ! i)] else xs)"

lemma get_at_Some_iff [simp]: "get_at xs i = Some x \<longleftrightarrow> i < length xs \<and> xs ! i = x"
  by (auto simp: get_at_def)

lemma get_at_None_iff [simp]: "get_at xs i = None \<longleftrightarrow> length xs \<le> i"
  by (auto simp: get_at_def)

lemma length_modify_at [simp]: "length (modify_at i f xs) = length xs"
  by (simp add: modify_at_def)

lemma nth_modify_at:
  "j < length xs \<Longrightarrow> modify_at i f xs ! j = (if j = i then f (xs ! j) else xs ! j)"
  by (auto simp: modify_at_def nth_list_update)

lemma modify_at_same [simp]: "i < length xs \<Longrightarrow> modify_at i f xs ! i = f (xs ! i)"
  by (simp add: nth_modify_at)

lemma modify_at_other [simp]: "j \<noteq> i \<Longrightarrow> modify_at i f xs ! j = xs ! j"
  by (simp add: modify_at_def)

lemma modify_at_out [simp]: "length xs \<le> i \<Longrightarrow> modify_at i f xs = xs"
  by (simp add: modify_at_def)

lemma map_modify_at_id:
  "(\<And>x. g (f x) = g x) \<Longrightarrow> map g (modify_at i f xs) = map g xs"
  by (rule nth_equalityI) (auto simp: nth_modify_at)

lemma get_at_lt [simp]: "i < length xs \<Longrightarrow> get_at xs i = Some (xs ! i)"
  by (simp add: get_at_def)

lemma get_at_ge [simp]: "length xs \<le> i \<Longrightarrow> get_at xs i = None"
  by (simp add: get_at_def)

lemma get_at_modify_at:
  "get_at (modify_at i f xs) j = (if j = i then map_option f (get_at xs i) else get_at xs j)"
  by (auto simp: get_at_def nth_modify_at)

lemma get_at_append1:
  "get_at (xs @ [x]) j = (if j = length xs then Some x else get_at xs j)"
  by (auto simp: get_at_def nth_append)

text \<open>\<open>iter().position(p)\<close>: the first index whose element satisfies \<open>p\<close>.\<close>

fun position :: "('a \<Rightarrow> bool) \<Rightarrow> 'a list \<Rightarrow> nat option" where
  "position p [] = None"
| "position p (x # xs) = (if p x then Some 0 else map_option Suc (position p xs))"

lemma position_Some:
  "position p xs = Some i \<Longrightarrow> i < length xs \<and> p (xs ! i) \<and> (\<forall>j < i. \<not> p (xs ! j))"
proof (induction xs arbitrary: i)
  case Nil
  then show ?case by simp
next
  case (Cons x xs)
  then show ?case
    by (cases i) (auto split: if_splits simp: less_Suc_eq_0_disj)
qed

lemma position_None_iff: "position p xs = None \<longleftrightarrow> (\<forall>x \<in> set xs. \<not> p x)"
  by (induction xs) auto

lemma find_None_iff_all: "find p xs = None \<longleftrightarrow> (\<forall>x \<in> set xs. \<not> p x)"
  by (auto simp: find_None_iff)

lemma find_SomeD: "find p xs = Some x \<Longrightarrow> x \<in> set xs \<and> p x"
  by (auto simp: find_Some_iff)

section \<open>Runs of guarded operations\<close>

text \<open>A sequence of operations all of whose guards hold when they are reached, and the one argument that
  is made about it: what every guarded operation keeps, the run keeps.\<close>

fun guarded_run :: "('o \<Rightarrow> 's \<Rightarrow> 's) \<Rightarrow> ('o \<Rightarrow> 's \<Rightarrow> bool) \<Rightarrow> 'o list \<Rightarrow> 's \<Rightarrow> bool" where
  "guarded_run act guard [] s = True"
| "guarded_run act guard (x # xs) s = (guard x s \<and> guarded_run act guard xs (act x s))"

locale guarded_machine =
  fixes act :: "'o \<Rightarrow> 's \<Rightarrow> 's"
    and guard :: "'o \<Rightarrow> 's \<Rightarrow> bool"
    and inv :: "'s \<Rightarrow> bool"
  assumes step: "inv s \<Longrightarrow> guard x s \<Longrightarrow> inv (act x s)"
begin

lemma run: "inv s \<Longrightarrow> guarded_run act guard xs s \<Longrightarrow> inv (fold act xs s)"
  by (induction xs arbitrary: s) (auto intro: step)

end

end
