(* ===== verification/Vocab.thy ===== *)
theory Vocab
  imports Prelude
begin

text \<open>
  The closed vocabularies of the differential protocol: the fourteen trap kinds of
  \<open>src/src/trap.rs\<close>, the phase ladder of \<open>src/src/phase.rs\<close> and the clause anchors of
  \<open>src/src/anchor.rs\<close>. A closed vocabulary is a list of members with a spelling each; the locale
  states what every such vocabulary promises and both enumerations interpret it.
\<close>

section \<open>What a closed vocabulary promises\<close>

text \<open>\<open>all_kinds\<close> is the \<open>ALL\<close> array, \<open>as_str\<close> the spelling on the wire.\<close>

locale closed_vocabulary =
  fixes all_kinds :: "'k list"
    and as_str :: "'k \<Rightarrow> string"
    and parse_kind :: "string \<Rightarrow> 'k option"
  assumes complete: "k \<in> set all_kinds"
    and distinct_spelling: "distinct (map as_str all_kinds)"
    and parse_find: "parse_kind s = find (\<lambda>k. as_str k = s) all_kinds"
begin

lemma as_str_inj: "as_str k = as_str k' \<longleftrightarrow> k = k'"
  using complete distinct_spelling by (auto simp: distinct_map inj_on_def)

lemma parse_iff: "parse_kind s = Some k \<longleftrightarrow> s = as_str k"
proof
  assume "parse_kind s = Some k"
  then show "s = as_str k" by (auto simp: parse_find dest: find_SomeD)
next
  assume s: "s = as_str k"
  have "find (\<lambda>k'. as_str k' = s) all_kinds \<noteq> None"
    using complete [of k] s by (auto simp: find_None_iff_all)
  then obtain k' where k': "find (\<lambda>k'. as_str k' = s) all_kinds = Some k'" by blast
  then have "as_str k' = s" by (auto dest: find_SomeD)
  with s k' show "parse_kind s = Some k" by (simp add: parse_find as_str_inj)
qed

lemma parse_closed: "parse_kind s = None \<longleftrightarrow> s \<notin> range as_str"
proof (cases "parse_kind s")
  case None
  then have "s \<noteq> as_str k" for k by (metis option.discI parse_iff)
  with None show ?thesis by blast
next
  case (Some k)
  then show ?thesis by (auto simp: parse_iff)
qed

end

section \<open>Trap kinds\<close>

datatype trap_kind =
    Overflow | DivZero | Bounds | UseAfterMove | Exclusivity | RegionFault | StaleHandle
  | AllocContract | TrapAssert | TrapRace | TrapUb | Deadlock | StackOverflow | ArgumentUtf8

definition trap_ALL :: "trap_kind list" where
  "trap_ALL = [Overflow, DivZero, Bounds, UseAfterMove, Exclusivity, RegionFault, StaleHandle,
     AllocContract, TrapAssert, TrapRace, TrapUb, Deadlock, StackOverflow, ArgumentUtf8]"

fun trap_as_str :: "trap_kind \<Rightarrow> string" where
  "trap_as_str Overflow = ''overflow''"
| "trap_as_str DivZero = ''div-zero''"
| "trap_as_str Bounds = ''bounds''"
| "trap_as_str UseAfterMove = ''use-after-move''"
| "trap_as_str Exclusivity = ''exclusivity''"
| "trap_as_str RegionFault = ''region-fault''"
| "trap_as_str StaleHandle = ''stale-handle''"
| "trap_as_str AllocContract = ''alloc-contract''"
| "trap_as_str TrapAssert = ''assert''"
| "trap_as_str TrapRace = ''race''"
| "trap_as_str TrapUb = ''ub''"
| "trap_as_str Deadlock = ''deadlock''"
| "trap_as_str StackOverflow = ''stack-overflow''"
| "trap_as_str ArgumentUtf8 = ''argument-utf8''"

definition trap_parse :: "string \<Rightarrow> trap_kind option" where
  "trap_parse s = find (\<lambda>k. trap_as_str k = s) trap_ALL"

text \<open>\<open>FromStr\<close>: the parse, with the offending text as the error.\<close>

definition trap_from_str :: "string \<Rightarrow> string + trap_kind" where
  "trap_from_str s = (case trap_parse s of None \<Rightarrow> Inl s | Some k \<Rightarrow> Inr k)"

interpretation trap_vocab: closed_vocabulary trap_ALL trap_as_str trap_parse
proof unfold_locales
  fix k show "k \<in> set trap_ALL" by (cases k) (simp_all add: trap_ALL_def)
next
  show "distinct (map trap_as_str trap_ALL)" by (simp add: trap_ALL_def)
qed (simp add: trap_parse_def)

section \<open>The phase ladder\<close>

datatype phase = PhNone | PhLex | PhParse | PhResolve | PhTypecheck | PhMem | PhWir | PhRun

definition phase_LADDER :: "phase list" where
  "phase_LADDER = [PhNone, PhLex, PhParse, PhResolve, PhTypecheck, PhMem, PhWir, PhRun]"

fun phase_as_str :: "phase \<Rightarrow> string" where
  "phase_as_str PhNone = ''none''"
| "phase_as_str PhLex = ''lex''"
| "phase_as_str PhParse = ''parse''"
| "phase_as_str PhResolve = ''resolve''"
| "phase_as_str PhTypecheck = ''typecheck''"
| "phase_as_str PhMem = ''mem''"
| "phase_as_str PhWir = ''wir''"
| "phase_as_str PhRun = ''run''"

definition phase_parse :: "string \<Rightarrow> phase option" where
  "phase_parse s = find (\<lambda>p. phase_as_str p = s) phase_LADDER"

definition phase_from_str :: "string \<Rightarrow> string + phase" where
  "phase_from_str s = (case phase_parse s of None \<Rightarrow> Inl s | Some p \<Rightarrow> Inr p)"

interpretation phase_vocab: closed_vocabulary phase_LADDER phase_as_str phase_parse
proof unfold_locales
  fix p show "p \<in> set phase_LADDER" by (cases p) (simp_all add: phase_LADDER_def)
next
  show "distinct (map phase_as_str phase_LADDER)" by (simp add: phase_LADDER_def)
qed (simp add: phase_parse_def)

text \<open>The ladder is ordered: \<open>derive(PartialOrd, Ord)\<close> on the enum is the order of declaration.\<close>

fun phase_rank :: "phase \<Rightarrow> nat" where
  "phase_rank PhNone = 0"
| "phase_rank PhLex = 1"
| "phase_rank PhParse = 2"
| "phase_rank PhResolve = 3"
| "phase_rank PhTypecheck = 4"
| "phase_rank PhMem = 5"
| "phase_rank PhWir = 6"
| "phase_rank PhRun = 7"

lemma phase_rank_inj: "phase_rank p = phase_rank q \<longleftrightarrow> p = q"
  by (cases p; cases q) simp_all

instantiation phase :: linorder
begin

definition less_eq_phase :: "phase \<Rightarrow> phase \<Rightarrow> bool" where
  "less_eq_phase p q \<longleftrightarrow> phase_rank p \<le> phase_rank q"

definition less_phase :: "phase \<Rightarrow> phase \<Rightarrow> bool" where
  "less_phase p q \<longleftrightarrow> phase_rank p < phase_rank q"

instance
  by standard (auto simp: less_eq_phase_def less_phase_def phase_rank_inj)

end

section \<open>Clause anchors\<close>

definition REGISTERED_NAMESPACES :: "string list" where
  "REGISTERED_NAMESPACES = [''gram'', ''mem'', ''conc'', ''abi'', ''conf'', ''proto'', ''diag'',
     ''ct'', ''type'', ''pkg'', ''os'', ''sched'', ''exec'']"

definition RESERVED_NAMESPACES :: "string list" where
  "RESERVED_NAMESPACES = [''str'', ''err'', ''task'', ''proc'', ''sync'', ''generics'', ''arith'',
     ''ffi'', ''unsafe'', ''comptime'', ''perf'', ''mod'', ''std'', ''ty'', ''test'', ''repl'']"

datatype namespace = NsRegistered | NsReserved

datatype anchor_error =
    AnchorEmpty
  | EmptySegment string
  | BadCharacter string char
  | UnknownNamespace string string

text \<open>\<open>str::split('.')\<close>: the pieces between the separators, an empty text being one empty piece.\<close>

fun split_on :: "char \<Rightarrow> string \<Rightarrow> string list" where
  "split_on d [] = [[]]"
| "split_on d (c # cs) =
     (if c = d then [] # split_on d cs
      else case split_on d cs of [] \<Rightarrow> [[c]] | p # ps \<Rightarrow> (c # p) # ps)"

definition ascii_lower :: "char \<Rightarrow> bool" where
  "ascii_lower c \<longleftrightarrow> of_char c \<ge> (97::nat) \<and> of_char c \<le> (122::nat)"

definition ascii_digit :: "char \<Rightarrow> bool" where
  "ascii_digit c \<longleftrightarrow> of_char c \<ge> (48::nat) \<and> of_char c \<le> (57::nat)"

definition anchor_char :: "char \<Rightarrow> bool" where
  "anchor_char c \<longleftrightarrow>
     ascii_lower c \<or> ascii_digit c \<or> c = CHR ''-'' \<or> c = CHR ''_'' \<or> c = CHR ''.''"

definition classify :: "string \<Rightarrow> anchor_error + namespace" where
  "classify anchor =
     (if anchor = [] then Inl AnchorEmpty
      else case find (\<lambda>c. \<not> anchor_char c) anchor of
        Some ch \<Rightarrow> Inl (BadCharacter anchor ch)
      | None \<Rightarrow>
          if [] \<in> set (split_on (CHR ''.'') anchor) then Inl (EmptySegment anchor)
          else let ns = hd (split_on (CHR ''.'') anchor) in
            if ns \<in> set REGISTERED_NAMESPACES then Inr NsRegistered
            else if ns \<in> set RESERVED_NAMESPACES then Inr NsReserved
            else Inl (UnknownNamespace anchor ns))"

lemma split_on_nonempty [simp]: "split_on d cs \<noteq> []"
  by (induction cs) (auto split: list.splits)

lemma split_on_join: "concat (map (\<lambda>p. p @ [d]) (split_on d cs)) = cs @ [d]"
  by (induction cs) (auto split: list.splits)

lemma split_on_no_sep: "p \<in> set (split_on d cs) \<Longrightarrow> d \<notin> set p"
proof (induction cs arbitrary: p)
  case Nil
  then show ?case by simp
next
  case (Cons c cs)
  then show ?case by (cases "split_on d cs") (auto split: if_splits)
qed

lemma namespaces_disjoint: "set REGISTERED_NAMESPACES \<inter> set RESERVED_NAMESPACES = {}"
  by (simp add: REGISTERED_NAMESPACES_def RESERVED_NAMESPACES_def)

end
