(* ===== verification/Arith.thy ===== *)
theory Arith
  imports Vocab
begin

unbundle bit_operations_syntax

text \<open>
  Integer types and integer arithmetic: \<open>IntTy\<close> of \<open>src/src/eval/value.rs\<close> (named types, ranges,
  \<open>reduce\<close>) and the integer half of \<open>Machine::binary\<close> of \<open>src/src/eval/mod.rs\<close> with \<open>checked\<close> and
  the two shift helpers. Values are computed in \<open>i128\<close>: every step that can leave \<open>i128\<close> is written
  with its Rust reading (\<open>checked_\<close>, \<open>wrapping_\<close>). The specification \<open>math_op\<close>/\<open>fit_mode\<close> is over
  the unbounded integers; the main theorem says that going through \<open>i128\<close> is unobservable for the
  types of at most 64 bits.
\<close>

section \<open>Integer types\<close>

datatype arith_mode = Checked | Wrapping | Saturating

record int_ty =
  it_bits :: nat
  it_signed :: bool
  it_mode :: arith_mode
  it_literal :: bool

definition ty_I32 :: int_ty where
  "ty_I32 = \<lparr>it_bits = 32, it_signed = True, it_mode = Checked, it_literal = False\<rparr>"

definition ty_INT :: int_ty where
  "ty_INT = \<lparr>it_bits = 64, it_signed = True, it_mode = Checked, it_literal = False\<rparr>"

definition ty_LITERAL :: int_ty where
  "ty_LITERAL = ty_I32\<lparr>it_literal := True\<rparr>"

definition ty_LITERAL_WIDE :: int_ty where
  "ty_LITERAL_WIDE = \<lparr>it_bits = 128, it_signed = True, it_mode = Checked, it_literal = True\<rparr>"

definition int_base :: "nat \<Rightarrow> bool \<Rightarrow> int_ty" where
  "int_base bits sg = \<lparr>it_bits = bits, it_signed = sg, it_mode = Checked, it_literal = False\<rparr>"

definition int_named :: "string \<Rightarrow> int_ty option" where
  "int_named name =
     (if name = ''i8'' then Some (int_base 8 True)
      else if name = ''i16'' then Some (int_base 16 True)
      else if name = ''i32'' then Some (int_base 32 True)
      else if name = ''i64'' then Some (int_base 64 True)
      else if name = ''i128'' then Some (int_base 128 True)
      else if name = ''u8'' then Some (int_base 8 False)
      else if name = ''u16'' then Some (int_base 16 False)
      else if name = ''u32'' then Some (int_base 32 False)
      else if name = ''u64'' then Some (int_base 64 False)
      else if name = ''u128'' then Some (int_base 128 False)
      else if name = ''int'' then Some ty_INT
      else if name = ''uint'' then Some (int_base 64 False)
      else None)"

definition with_mode :: "int_ty \<Rightarrow> arith_mode \<Rightarrow> int_ty" where
  "with_mode ty m = ty\<lparr>it_mode := m\<rparr>"

definition int_range :: "int_ty \<Rightarrow> int \<times> int" where
  "int_range ty =
     (if it_bits ty \<ge> 128 then (if it_signed ty then (i128_min, i128_max) else (0, i128_max))
      else if it_signed ty then (- (2 ^ (it_bits ty - 1)), 2 ^ (it_bits ty - 1) - 1)
      else (0, 2 ^ it_bits ty - 1))"

definition holds :: "int_ty \<Rightarrow> int \<Rightarrow> bool" where
  "holds ty v = (let (lo, hi) = int_range ty in v \<ge> lo \<and> v \<le> hi)"

definition reduce :: "int_ty \<Rightarrow> int \<Rightarrow> int option" where
  "reduce ty v =
     (if holds ty v then Some v
      else let (lo, hi) = int_range ty in
        case it_mode ty of
          Checked \<Rightarrow> None
        | Saturating \<Rightarrow> Some (if v < lo then lo else hi)
        | Wrapping \<Rightarrow>
            if it_bits ty \<ge> 128 then Some v
            else let m = 2 ^ it_bits ty; w = v mod m in
              Some (if it_signed ty \<and> w > hi then w - m else w))"

section \<open>Operations in i128\<close>

definition wrap_i128 :: "int \<Rightarrow> int" where
  "wrap_i128 x = (x + 2 ^ 127) mod 2 ^ 128 - 2 ^ 127"

text \<open>Rust's \<open>/\<close> and \<open>%\<close> truncate towards zero.\<close>

definition quot_trunc :: "int \<Rightarrow> int \<Rightarrow> int" where
  "quot_trunc a b = sgn a * sgn b * (\<bar>a\<bar> div \<bar>b\<bar>)"

definition rem_trunc :: "int \<Rightarrow> int \<Rightarrow> int" where
  "rem_trunc a b = a - b * quot_trunc a b"

definition checked_div_i128 :: "int \<Rightarrow> int \<Rightarrow> int option" where
  "checked_div_i128 a b = (if b = 0 \<or> (a = i128_min \<and> b = -1) then None else Some (quot_trunc a b))"

definition checked_rem_i128 :: "int \<Rightarrow> int \<Rightarrow> int option" where
  "checked_rem_i128 a b = (if b = 0 \<or> (a = i128_min \<and> b = -1) then None else Some (rem_trunc a b))"

definition checked_shl_i128 :: "int \<Rightarrow> nat \<Rightarrow> int option" where
  "checked_shl_i128 a s = (if s < 128 then Some (wrap_i128 (a * 2 ^ s)) else None)"

definition checked_shr_i128 :: "int \<Rightarrow> nat \<Rightarrow> int option" where
  "checked_shr_i128 a s = (if s < 128 then Some (a div 2 ^ s) else None)"

definition u32_try_from :: "int \<Rightarrow> nat option" where
  "u32_try_from n = (if 0 \<le> n \<and> n < 2 ^ 32 then Some (nat n) else None)"

definition shift_value_left :: "int \<Rightarrow> int \<Rightarrow> int option" where
  "shift_value_left x n =
     (if n < 0 then None
      else if x = 0 then Some 0
      else case u32_try_from n of
        None \<Rightarrow> None
      | Some k \<Rightarrow>
          if k < 128 then
            let shifted = wrap_i128 (x * 2 ^ k) in
            if shifted div 2 ^ k = x then Some shifted else None
          else None)"

definition shift_value_right :: "int \<Rightarrow> int \<Rightarrow> int option" where
  "shift_value_right x n =
     (if n < 0 then None
      else Some (case u32_try_from n of
        Some k \<Rightarrow> if k < 128 then x div 2 ^ k else if x < 0 then -1 else 0
      | None \<Rightarrow> if x < 0 then -1 else 0))"

section \<open>The binary operators on two integers\<close>

datatype bin_op = Add | Sub | Mul | Div | Rem | BitAnd | BitOr | BitXor | Shl | Shr
  | Lt | Le | Gt | Ge | Cmp

datatype int_result = ResInt int int_ty | ResBool bool

definition operand_ty :: "int_ty \<Rightarrow> int_ty \<Rightarrow> int_ty" where
  "operand_ty ta tb =
     (if it_literal ta \<and> \<not> it_literal tb then tb
      else if it_literal ta \<and> it_literal tb then ty_LITERAL_WIDE
      else ta)"

definition checked :: "int_ty \<Rightarrow> int option \<Rightarrow> trap_kind + int_result" where
  "checked ty computed =
     (case computed of
        None \<Rightarrow> Inl Overflow
      | Some raw \<Rightarrow> (case reduce ty raw of None \<Rightarrow> Inl Overflow | Some v \<Rightarrow> Inr (ResInt v ty)))"

definition shift_count :: "int_ty \<Rightarrow> int \<Rightarrow> nat option" where
  "shift_count ty b = u32_try_from (if it_mode ty = Wrapping then b mod int (it_bits ty) else b)"

definition compute :: "int_ty \<Rightarrow> bin_op \<Rightarrow> int \<Rightarrow> int \<Rightarrow> int option" where
  "compute ty op a b =
     (case op of
        Add \<Rightarrow> fit_i128 (a + b)
      | Sub \<Rightarrow> fit_i128 (a - b)
      | Mul \<Rightarrow>
          (case fit_i128 (a * b) of
             Some r \<Rightarrow> Some r
           | None \<Rightarrow>
               (case it_mode ty of
                  Wrapping \<Rightarrow> Some (wrap_i128 (a * b))
                | Saturating \<Rightarrow> Some (if (a < 0) = (b < 0) then i128_max else i128_min)
                | Checked \<Rightarrow> None))
      | Div \<Rightarrow> checked_div_i128 a b
      | Rem \<Rightarrow> checked_rem_i128 a b
      | BitAnd \<Rightarrow> Some (a AND b)
      | BitOr \<Rightarrow> Some (a OR b)
      | BitXor \<Rightarrow> Some (a XOR b)
      | Shl \<Rightarrow>
          (if it_mode ty = Wrapping
           then Option.bind (shift_count ty b) (checked_shl_i128 a)
           else case shift_value_left a b of
             Some r \<Rightarrow> Some r
           | None \<Rightarrow>
               if it_mode ty = Saturating \<and> b \<ge> 0
               then Some (if a < 0 then i128_min else i128_max) else None)
      | Shr \<Rightarrow>
          (if it_mode ty = Wrapping
           then Option.bind (shift_count ty b) (checked_shr_i128 a)
           else shift_value_right a b)
      | _ \<Rightarrow> None)"

definition int_binary :: "int_ty \<Rightarrow> int_ty \<Rightarrow> bin_op \<Rightarrow> int \<Rightarrow> int \<Rightarrow> trap_kind + int_result" where
  "int_binary ta tb op a b =
     (let ty = operand_ty ta tb in
      case op of
        Lt \<Rightarrow> Inr (ResBool (a < b))
      | Le \<Rightarrow> Inr (ResBool (a \<le> b))
      | Gt \<Rightarrow> Inr (ResBool (a > b))
      | Ge \<Rightarrow> Inr (ResBool (a \<ge> b))
      | Cmp \<Rightarrow> Inr (ResInt (sgn (a - b)) ty_LITERAL)
      | _ \<Rightarrow>
          if (op = Div \<or> op = Rem) \<and> b = 0 then Inl DivZero
          else checked ty (compute ty op a b))"

section \<open>The specification: unbounded integers, then the type's mode\<close>

definition arith_op :: "bin_op \<Rightarrow> bool" where
  "arith_op op \<longleftrightarrow> op \<notin> {Lt, Le, Gt, Ge, Cmp}"

text \<open>The mathematical result; a shift on a wrapping type masks its count to the type's width, and
  on any other type a negative count has no result.\<close>

definition math_op :: "int_ty \<Rightarrow> bin_op \<Rightarrow> int \<Rightarrow> int \<Rightarrow> int option" where
  "math_op ty op a b =
     (let n = (if it_mode ty = Wrapping then b mod int (it_bits ty) else b) in
      case op of
        Add \<Rightarrow> Some (a + b)
      | Sub \<Rightarrow> Some (a - b)
      | Mul \<Rightarrow> Some (a * b)
      | Div \<Rightarrow> Some (quot_trunc a b)
      | Rem \<Rightarrow> Some (rem_trunc a b)
      | BitAnd \<Rightarrow> Some (a AND b)
      | BitOr \<Rightarrow> Some (a OR b)
      | BitXor \<Rightarrow> Some (a XOR b)
      | Shl \<Rightarrow> if n < 0 then None else Some (a * 2 ^ nat n)
      | Shr \<Rightarrow> if n < 0 then None else Some (a div 2 ^ nat n)
      | _ \<Rightarrow> None)"

text \<open>How a mathematical result meets a type: a checked type refuses what it does not hold, a
  saturating one clamps, a wrapping one takes the representative congruent modulo \<open>2 ^ bits\<close>.\<close>

definition fit_mode :: "int_ty \<Rightarrow> int \<Rightarrow> int option" where
  "fit_mode ty r =
     (let (lo, hi) = int_range ty in
      case it_mode ty of
        Checked \<Rightarrow> if lo \<le> r \<and> r \<le> hi then Some r else None
      | Saturating \<Rightarrow> Some (max lo (min hi r))
      | Wrapping \<Rightarrow> Some (lo + (r - lo) mod 2 ^ it_bits ty))"

definition machine_width :: "int_ty \<Rightarrow> bool" where
  "machine_width ty \<longleftrightarrow> it_bits ty \<in> {8, 16, 32, 64}"

section \<open>Facts about ranges and modes\<close>

lemma machine_width_cases:
  assumes "machine_width ty"
  obtains "it_bits ty = 8" | "it_bits ty = 16" | "it_bits ty = 32" | "it_bits ty = 64"
  using assms by (auto simp: machine_width_def)

lemma machine_range:
  assumes "machine_width ty" and "int_range ty = (lo, hi)"
  shows "hi = lo + 2 ^ it_bits ty - 1" and "- (2 ^ 63) \<le> lo" and "lo \<le> 0" and "127 \<le> hi"
    and "hi \<le> 2 ^ 64 - 1"
  using assms by (auto simp: machine_width_def int_range_def split: if_splits)

lemma holds_range: "int_range ty = (lo, hi) \<Longrightarrow> holds ty v \<longleftrightarrow> lo \<le> v \<and> v \<le> hi"
  by (simp add: holds_def)

lemma wrap_window:
  fixes lo m r :: int
  assumes "0 < m" shows "lo \<le> lo + (r - lo) mod m" and "lo + (r - lo) mod m < lo + m"
  using assms by simp_all

lemma wrap_window_id:
  fixes lo m r :: int
  assumes "lo \<le> r" and "r < lo + m" shows "lo + (r - lo) mod m = r"
  using assms by simp

lemma wrap_signed:
  fixes h v :: int
  assumes "0 < h"
  shows "(if v mod (2 * h) > h - 1 then v mod (2 * h) - 2 * h else v mod (2 * h))
           = - h + (v + h) mod (2 * h)"
proof -
  let ?w = "v mod (2 * h)"
  have w: "0 \<le> ?w" "?w < 2 * h" using assms by simp_all
  have "(v + h) mod (2 * h) = (?w + h) mod (2 * h)" by (simp add: mod_add_left_eq)
  also have "\<dots> = (if ?w > h - 1 then ?w - h else ?w + h)"
  proof (cases "?w > h - 1")
    case True
    have eq: "?w + h = (?w - h) + 2 * h" by simp
    have "(?w + h) mod (2 * h) = (?w - h) mod (2 * h)" unfolding eq by (rule mod_add_self2)
    also have "\<dots> = ?w - h" using True w by (intro mod_pos_pos_trivial) simp_all
    finally show ?thesis using True by simp
  next
    case False
    then show ?thesis using w by (simp add: mod_pos_pos_trivial)
  qed
  finally show ?thesis by simp
qed

lemma reduce_fit:
  assumes "machine_width ty"
  shows "reduce ty v = fit_mode ty v"
proof (cases "it_mode ty")
  case Checked
  then show ?thesis by (auto simp: reduce_def fit_mode_def holds_def split: prod.splits)
next
  case Saturating
  obtain lo hi where r: "int_range ty = (lo, hi)" by fastforce
  have "lo \<le> hi" using machine_range [OF assms r] by simp
  with Saturating r show ?thesis by (auto simp: reduce_def fit_mode_def holds_def)
next
  case Wrapping
  obtain lo hi where r: "int_range ty = (lo, hi)" by fastforce
  note mr = machine_range [OF assms r]
  show ?thesis
  proof (cases "holds ty v")
    case True
    then show ?thesis using Wrapping r mr(1)
      by (simp add: reduce_def fit_mode_def holds_def wrap_window_id)
  next
    case False
    have lt: "it_bits ty < 128" using assms by (auto simp: machine_width_def)
    show ?thesis
    proof (cases "it_signed ty")
      case signed: True
      define h :: int where "h = 2 ^ (it_bits ty - 1)"
      have h: "2 ^ it_bits ty = 2 * h" "lo = - h" "hi = h - 1" "0 < h"
        using assms r lt signed by (auto simp: machine_width_def int_range_def h_def)
      show ?thesis using False Wrapping lt signed r wrap_signed [OF h(4), of v]
        by (simp add: reduce_def fit_mode_def h Let_def)
    next
      case unsigned: False
      then have "lo = 0" using r lt by (auto simp: int_range_def)
      then show ?thesis using False Wrapping lt unsigned r
        by (simp add: reduce_def fit_mode_def Let_def)
    qed
  qed
qed

lemma fit_mode_cong:
  assumes "it_mode ty = Wrapping" and "r mod 2 ^ it_bits ty = s mod 2 ^ it_bits ty"
  shows "fit_mode ty r = fit_mode ty s"
proof -
  have "(r - l) mod 2 ^ it_bits ty = (s - l) mod 2 ^ it_bits ty" for l
    using assms(2) by (rule mod_diff_cong) simp
  then show ?thesis by (simp add: fit_mode_def assms(1) split: prod.splits)
qed

lemma wrap_i128_mod:
  assumes "k \<le> 128" shows "wrap_i128 x mod 2 ^ k = x mod 2 ^ k"
proof -
  have d: "(2::int) ^ k dvd 2 ^ 128" using assms by (rule le_imp_power_dvd)
  have "wrap_i128 x mod 2 ^ k = ((x + 2 ^ 127) mod 2 ^ 128 - 2 ^ 127) mod 2 ^ k"
    by (simp add: wrap_i128_def)
  also have "\<dots> = ((x + 2 ^ 127) mod 2 ^ 128 mod 2 ^ k - 2 ^ 127) mod 2 ^ k"
    by (simp only: mod_diff_left_eq)
  also have "\<dots> = ((x + 2 ^ 127) mod 2 ^ k - 2 ^ 127) mod 2 ^ k"
    using d by (simp only: mod_mod_cancel)
  also have "\<dots> = x mod 2 ^ k" by (simp only: mod_diff_left_eq) simp
  finally show ?thesis .
qed

lemma wrap_i128_id: "in_i128 x \<Longrightarrow> wrap_i128 x = x"
  by (simp add: wrap_i128_def in_i128_def)

lemma wrap_i128_in: "in_i128 (wrap_i128 x)"
proof -
  have "0 \<le> (x + 2 ^ 127) mod 2 ^ 128" "(x + 2 ^ 127) mod 2 ^ 128 < 2 ^ 128" by simp_all
  then show ?thesis unfolding wrap_i128_def in_i128_def by (intro conjI) simp_all
qed

section \<open>Going through i128 is unobservable\<close>

lemma machine_holds:
  assumes "machine_width ty" and "holds ty a"
  shows "- (2 ^ 63) \<le> a" and "a < 2 ^ 64"
proof -
  obtain lo hi where r: "int_range ty = (lo, hi)" by fastforce
  show "- (2 ^ 63) \<le> a" "a < 2 ^ 64"
    using assms(2) machine_range [OF assms(1) r] r by (auto simp: holds_def)
qed

lemma quot_trunc_abs: "\<bar>quot_trunc a b\<bar> \<le> \<bar>a\<bar>"
proof (cases "a = 0 \<or> b = 0")
  case True
  then show ?thesis by (auto simp: quot_trunc_def)
next
  case False
  have "\<bar>a\<bar> div \<bar>b\<bar> \<le> \<bar>a\<bar>" using False by (intro zdiv_mono2 [of _ 1, simplified]) auto
  moreover have "0 \<le> \<bar>a\<bar> div \<bar>b\<bar>" using False by (simp add: pos_imp_zdiv_nonneg_iff)
  ultimately show ?thesis using False by (auto simp: quot_trunc_def abs_mult abs_sgn_eq)
qed

text \<open>What \<open>compute\<close> hands to \<open>checked\<close> is, for the type's mode, as good as the mathematical
  result.\<close>

definition computes :: "int_ty \<Rightarrow> int option \<Rightarrow> int option \<Rightarrow> bool" where
  "computes ty c m \<longleftrightarrow> Option.bind c (fit_mode ty) = Option.bind m (fit_mode ty)"

lemma computes_refl [intro]: "c = m \<Longrightarrow> computes ty c m"
  by (simp add: computes_def)

lemma fit_mode_out:
  assumes "machine_width ty" and "\<not> in_i128 r"
  shows "it_mode ty = Checked \<Longrightarrow> fit_mode ty r = None"
    and "it_mode ty = Saturating \<Longrightarrow> fit_mode ty r = fit_mode ty (if r < 0 then i128_min else i128_max)"
proof -
  obtain lo hi where rg: "int_range ty = (lo, hi)" by fastforce
  note mr = machine_range [OF assms(1) rg]
  have out: "r < i128_min \<or> i128_max < r" using assms(2) by (auto simp: in_i128_def)
  show "it_mode ty = Checked \<Longrightarrow> fit_mode ty r = None"
    using out mr rg by (auto simp: fit_mode_def)
  show "it_mode ty = Saturating \<Longrightarrow> fit_mode ty r = fit_mode ty (if r < 0 then i128_min else i128_max)"
    using out mr rg by (auto simp: fit_mode_def max_def min_def)
qed

lemma computes_fit:
  assumes "in_i128 r"
  shows "computes ty (fit_i128 r) (Some r)"
  using assms by (simp add: computes_def fit_i128_def)

lemma computes_mul:
  assumes "machine_width ty"
  shows "computes ty (compute ty Mul a b) (Some (a * b))"
proof (cases "in_i128 (a * b)")
  case True
  then show ?thesis by (simp add: compute_def computes_def fit_i128_def)
next
  case False
  have k: "it_bits ty \<le> 128" using assms by (auto simp: machine_width_def)
  have sg: "a * b < 0 \<longleftrightarrow> (a < 0) \<noteq> (b < 0)"
  proof -
    have "a \<noteq> 0 \<and> b \<noteq> 0" using False by (auto simp: in_i128_def)
    then show ?thesis by (auto simp: mult_less_0_iff)
  qed
  show ?thesis
    using False fit_mode_out [OF assms False] sg
      fit_mode_cong [of ty "wrap_i128 (a * b)" "a * b"] wrap_i128_mod [OF k, of "a * b"]
    by (cases "it_mode ty") (auto simp: compute_def computes_def fit_i128_def)
qed

lemma shl_exceeds:
  fixes x :: int
  assumes "x \<noteq> 0" and "128 \<le> n"
  shows "\<not> in_i128 (x * 2 ^ n)"
proof -
  have p: "(2::int) ^ 128 \<le> 2 ^ n" using assms(2) by (rule power_increasing) simp
  have "1 \<le> \<bar>x\<bar>" using assms(1) by simp
  then have "1 * 2 ^ 128 \<le> \<bar>x\<bar> * 2 ^ n" using p by (intro mult_mono) simp_all
  then have "2 ^ 128 \<le> \<bar>x * 2 ^ n\<bar>" by (simp add: abs_mult)
  then show ?thesis by (auto simp: in_i128_def)
qed

lemma shift_value_left_spec:
  "shift_value_left x n = (if n < 0 then None else fit_i128 (x * 2 ^ nat n))"
proof (cases "n < 0 \<or> x = 0")
  case True
  then show ?thesis by (auto simp: shift_value_left_def fit_i128_def in_i128_def)
next
  case False
  then have n: "0 \<le> n" and x: "x \<noteq> 0" by auto
  show ?thesis
  proof (cases "n < 128")
    case True
    let ?p = "x * 2 ^ nat n"
    have u: "u32_try_from n = Some (nat n)" using n True by (simp add: u32_try_from_def)
    have "wrap_i128 ?p div 2 ^ nat n = x \<longleftrightarrow> in_i128 ?p"
    proof
      assume "in_i128 ?p"
      then show "wrap_i128 ?p div 2 ^ nat n = x" by (simp add: wrap_i128_id)
    next
      assume d: "wrap_i128 ?p div 2 ^ nat n = x"
      have "wrap_i128 ?p mod 2 ^ nat n = 0"
        using True n by (subst wrap_i128_mod) auto
      then have "wrap_i128 ?p = ?p"
        using d div_mult_mod_eq [of "wrap_i128 ?p" "2 ^ nat n"] by simp
      then show "in_i128 ?p" using wrap_i128_in [of ?p] by simp
    qed
    then show ?thesis using n x True u
      by (auto simp: shift_value_left_def fit_i128_def Let_def wrap_i128_id)
  next
    case False
    then have "\<not> in_i128 (x * 2 ^ nat n)" using x by (intro shl_exceeds) simp_all
    then show ?thesis using n x False
      by (auto simp: shift_value_left_def fit_i128_def u32_try_from_def)
  qed
qed

lemma shift_value_right_spec:
  assumes "in_i128 x"
  shows "shift_value_right x n = (if n < 0 then None else Some (x div 2 ^ nat n))"
proof (cases "n < 128")
  case True
  then show ?thesis by (auto simp: shift_value_right_def u32_try_from_def)
next
  case False
  then have "(2::int) ^ 128 \<le> 2 ^ nat n" by (intro power_increasing) simp_all
  with assms have b: "\<bar>x\<bar> < 2 ^ nat n" by (auto simp: in_i128_def)
  have "x div 2 ^ nat n = (if x < 0 then -1 else 0)"
  proof (cases "x < 0")
    case True
    then have "(x + 2 ^ nat n) div 2 ^ nat n = 0" using b by (intro div_pos_pos_trivial) auto
    then show ?thesis using True by (simp add: div_add_self2)
  next
    case f: False
    then show ?thesis using b by (simp add: div_pos_pos_trivial)
  qed
  with False show ?thesis by (auto simp: shift_value_right_def u32_try_from_def)
qed

lemma computes_shl:
  assumes w: "machine_width ty"
  shows "computes ty (compute ty Shl a b) (math_op ty Shl a b)"
proof (cases "it_mode ty = Wrapping")
  case True
  let ?n = "b mod int (it_bits ty)"
  have bits: "0 < int (it_bits ty)" "int (it_bits ty) \<le> 64" "it_bits ty \<le> 128"
    using w by (auto simp: machine_width_def)
  then have n: "0 \<le> ?n" "?n < 64"
    using pos_mod_bound [OF bits(1), of b] by (simp, linarith)
  then have sc: "shift_count ty b = Some (nat ?n)"
    using True by (simp add: shift_count_def u32_try_from_def)
  have c: "compute ty Shl a b = Some (wrap_i128 (a * 2 ^ nat ?n))"
    using True sc n by (simp add: compute_def checked_shl_i128_def)
  have "fit_mode ty (wrap_i128 (a * 2 ^ nat ?n)) = fit_mode ty (a * 2 ^ nat ?n)"
    using True bits by (intro fit_mode_cong wrap_i128_mod) simp_all
  with c True n show ?thesis by (simp add: computes_def math_op_def)
next
  case False
  show ?thesis
  proof (cases "b < 0")
    case True
    with False show ?thesis
      by (intro computes_refl) (auto simp: compute_def math_op_def shift_value_left_spec)
  next
    case b: False
    show ?thesis
    proof (cases "in_i128 (a * 2 ^ nat b)")
      case True
      with False b show ?thesis
        by (intro computes_refl)
          (simp add: compute_def math_op_def shift_value_left_spec fit_i128_def)
    next
      case out: False
      have sg: "a * 2 ^ nat b < 0 \<longleftrightarrow> a < 0" by (simp add: mult_less_0_iff)
      show ?thesis using False b out fit_mode_out [OF w out] sg
        by (cases "it_mode ty")
          (auto simp: compute_def computes_def math_op_def shift_value_left_spec fit_i128_def)
    qed
  qed
qed

lemma computes_shr:
  assumes w: "machine_width ty" and a: "in_i128 a"
  shows "computes ty (compute ty Shr a b) (math_op ty Shr a b)"
proof (cases "it_mode ty = Wrapping")
  case True
  let ?n = "b mod int (it_bits ty)"
  have bits: "0 < int (it_bits ty)" "int (it_bits ty) \<le> 64" using w by (auto simp: machine_width_def)
  then have n: "0 \<le> ?n" "?n < 64"
    using pos_mod_bound [OF bits(1), of b] by (simp, linarith)
  then have sc: "shift_count ty b = Some (nat ?n)"
    using True by (simp add: shift_count_def u32_try_from_def)
  show ?thesis using True sc n
    by (intro computes_refl) (simp add: compute_def checked_shr_i128_def math_op_def)
next
  case False
  then show ?thesis
    by (intro computes_refl) (auto simp: compute_def math_op_def shift_value_right_spec [OF a])
qed

lemma computes_arith:
  assumes w: "machine_width ty" and a: "holds ty a" and b: "holds ty b"
    and op: "arith_op op" and nz: "op \<in> {Div, Rem} \<Longrightarrow> b \<noteq> 0"
  shows "computes ty (compute ty op a b) (math_op ty op a b)"
proof -
  note ab = machine_holds [OF w a] machine_holds [OF w b]
  have sum: "in_i128 (a + b)" "in_i128 (a - b)" and ia: "in_i128 a"
    using ab by (auto simp: in_i128_def)
  have na: "a \<noteq> i128_min" using ab by simp
  show ?thesis
  proof (cases op)
    case Add then show ?thesis using sum by (auto simp: compute_def math_op_def fit_i128_def)
  next
    case Sub then show ?thesis using sum by (auto simp: compute_def math_op_def fit_i128_def)
  next
    case Mul then show ?thesis using computes_mul [OF w, of a b] by (simp add: math_op_def)
  next
    case Div then show ?thesis using nz na by (auto simp: compute_def math_op_def checked_div_i128_def)
  next
    case Rem then show ?thesis using nz na by (auto simp: compute_def math_op_def checked_rem_i128_def)
  next
    case Shl then show ?thesis using computes_shl [OF w] by simp
  next
    case Shr then show ?thesis using computes_shr [OF w ia] by simp
  qed (use op in \<open>auto simp: arith_op_def compute_def math_op_def\<close>)
qed

lemma checked_bind:
  assumes "machine_width ty"
  shows "checked ty c = (case Option.bind c (fit_mode ty) of None \<Rightarrow> Inl Overflow | Some v \<Rightarrow> Inr (ResInt v ty))"
  by (cases c) (simp_all add: checked_def reduce_fit [OF assms])

section \<open>Properties\<close>



text \<open>whatever an arithmetic operator returns, it returns at the operands' type, and the value is
  one that type holds.\<close>

theorem int_binary_holds:
  assumes "machine_width (operand_ty ta tb)" and "arith_op op"
    and "int_binary ta tb op a b = Inr r"
  shows "\<exists>v. r = ResInt v (operand_ty ta tb) \<and> holds (operand_ty ta tb) v"
proof -
  let ?ty = "operand_ty ta tb"
  obtain lo hi where rg: "int_range ?ty = (lo, hi)" by fastforce
  note mr = machine_range [OF assms(1) rg]
  from assms(2,3) have "checked ?ty (compute ?ty op a b) = Inr r"
    by (cases op) (auto simp: int_binary_def arith_op_def Let_def split: if_splits)
  then obtain x v where "fit_mode ?ty x = Some v" and r: "r = ResInt v ?ty"
    by (auto simp: checked_def reduce_fit [OF assms(1)] split: option.splits)
  then have "lo \<le> v \<and> v \<le> hi"
    using rg mr wrap_window [of "2 ^ it_bits ?ty" lo x]
    by (auto simp: fit_mode_def split: arith_mode.splits if_splits)
  with r rg show ?thesis by (simp add: holds_def)
qed

theorem int_binary_holds_witness:
  "\<exists>v. ResInt (-1) ty_INT = ResInt v ty_INT \<and> holds ty_INT v"
  using int_binary_holds [of ty_INT ty_INT Sub 1 2 "ResInt (-1) ty_INT"]
  by (simp add: operand_ty_def ty_INT_def machine_width_def holds_def int_range_def arith_op_def
      int_binary_def checked_def compute_def fit_i128_def in_i128_def reduce_def)

text \<open>The exception to the range promise. \<open>reduce\<close> leaves a wrapping 128-bit result as it is, so
  \<open>wrapping[u128]\<close> subtraction below zero yields a value the type does not hold.\<close>

theorem reduce_wrapping_128_escapes:
  "int_binary (with_mode (int_base 128 False) Wrapping) (with_mode (int_base 128 False) Wrapping) Sub 0 1
     = Inr (ResInt (-1) (with_mode (int_base 128 False) Wrapping))
   \<and> \<not> holds (with_mode (int_base 128 False) Wrapping) (-1)"
  by (simp add: int_binary_def operand_ty_def with_mode_def int_base_def checked_def compute_def
      fit_i128_def in_i128_def reduce_def holds_def int_range_def)

end
