(* ===== verification/Values.thy ===== *)
theory Values
  imports Arith
begin

text \<open>
  Runtime values and slots of \<open>src/src/eval/value.rs\<close>, with the raw-pointer type they embed from
  \<open>src/src/eval/prov.rs\<close> and the reference granules \<open>refs_of\<close> reads out of them
  (\<open>src/src/eval/region.rs\<close>). A value is an owned tree: no sharing, so copying is copying the tree.
  The type parameter \<open>'c\<close> stands for \<open>ClosureValue\<close>, whose body is a syntax tree no operation of
  the modelled components inspects. Floats are their 64 bits; text is its UTF-8 bytes.
\<close>

section \<open>Raw pointers\<close>

datatype prov = Tag tag_id | Wildcard

datatype pointee = PtWidth | PtByte | PtPlatform | PtOther

record raw_ptr =
  rp_alloc :: "alloc_id option"
  rp_offset :: int
  rp_prov :: prov
  rp_elem :: nat
  rp_signed :: bool
  rp_kind :: pointee
  rp_strukt :: "nat option"

definition pointee_of_name :: "string \<Rightarrow> pointee" where
  "pointee_of_name name =
     (if name \<in> {''u8'', ''u16'', ''u32'', ''u64'', ''i8'', ''i16'', ''i32'', ''i64''} then PtWidth
      else if name = ''byte'' then PtByte
      else if name \<in> {''int'', ''uint''} then PtPlatform
      else PtOther)"

definition raw_null :: raw_ptr where
  "raw_null = \<lparr>rp_alloc = None, rp_offset = 0, rp_prov = Wildcard, rp_elem = 1, rp_signed = False,
     rp_kind = PtOther, rp_strukt = None\<rparr>"

definition offset_by :: "raw_ptr \<Rightarrow> int \<Rightarrow> raw_ptr" where
  "offset_by p n = p\<lparr>rp_offset := rp_offset p + n * int (rp_elem p)\<rparr>"

definition raw_is_null :: "raw_ptr \<Rightarrow> bool" where
  "raw_is_null p \<longleftrightarrow> rp_alloc p = None \<and> rp_offset p = 0"

definition raw_foreign :: "int \<Rightarrow> nat \<Rightarrow> bool \<Rightarrow> pointee \<Rightarrow> raw_ptr" where
  "raw_foreign word elem sg kind = \<lparr>rp_alloc = None, rp_offset = word, rp_prov = Wildcard,
     rp_elem = elem, rp_signed = sg, rp_kind = kind, rp_strukt = None\<rparr>"

definition address_word :: "int \<Rightarrow> int" where
  "address_word n = n mod 2 ^ 64"

section \<open>Slots and values\<close>

datatype slot_state = SlotLive | SlotMoved span

record region_value =
  rv_id :: region_id
  rv_generation :: generation

record handle_value =
  hv_pool :: pool_id
  hv_index :: nat
  hv_generation :: generation

datatype range_elem = RangeInt int_ty | RangeChar

datatype elem_ty = ElemInt int_ty | ElemByte

record str_val =
  str_text :: string
  str_home :: "region_id option"

datatype 'c val =
    VUnit
  | VBool bool
  | VInt int int_ty
  | VFloat "64 word"
  | VChar scalar
  | VByte "8 word"
  | VStr str_val
  | VTuple "'c slot list"
  | VStruct string "(string \<times> 'c slot) list" "region_id option"
  | VList "'c slot list" nat "elem_ty option" "region_id option"
  | VMap "('c val \<times> 'c slot) list" "region_id option"
  | VRange int int range_elem
  | VFn string
  | VClosure 'c
  | VError string "'c val list" bool "string list"
  | VModule string
  | VBuiltin string
  | VRegion region_value
  | VPoolRef pool_id
  | VHandle handle_value
  | VShared cell_id
  | VWeak cell_id
  | VRaw raw_ptr
  | VScope nat
  | VChan nat
  | VMutexRef nat
  | VProc nat
  | VDuration nat
and 'c slot = Slot slot_state "'c val"

fun slot_state_of :: "'c slot \<Rightarrow> slot_state" where
  "slot_state_of (Slot st v) = st"

fun slot_value :: "'c slot \<Rightarrow> 'c val" where
  "slot_value (Slot st v) = v"

definition slot_live :: "'c val \<Rightarrow> 'c slot" where
  "slot_live v = Slot SlotLive v"

definition slot_is_live :: "'c slot \<Rightarrow> bool" where
  "slot_is_live s \<longleftrightarrow> slot_state_of s = SlotLive"

text \<open>Moving out marks the slot and hands the value back; the bytes stay behind.\<close>

definition take_value :: "'c slot \<Rightarrow> span \<Rightarrow> 'c val \<times> 'c slot" where
  "take_value s at = (slot_value s, Slot (SlotMoved at) (slot_value s))"

definition elem_ty_int :: "elem_ty \<Rightarrow> int_ty option" where
  "elem_ty_int e = (case e of ElemInt ty \<Rightarrow> Some ty | ElemByte \<Rightarrow> None)"

definition elem_ty_named :: "string \<Rightarrow> elem_ty option" where
  "elem_ty_named name =
     (if name = ''byte'' then Some ElemByte else map_option ElemInt (int_named name))"

definition str_new :: "string \<Rightarrow> str_val" where
  "str_new t = \<lparr>str_text = t, str_home = None\<rparr>"

definition str_built :: "string \<Rightarrow> region_id option \<Rightarrow> str_val" where
  "str_built t home = \<lparr>str_text = t, str_home = home\<rparr>"

text \<open>\<open>char::from_u32\<close>: a scalar value is not a surrogate and at most \<open>0x10FFFF\<close>.\<close>

definition is_scalar :: "int \<Rightarrow> bool" where
  "is_scalar v \<longleftrightarrow> 0 \<le> v \<and> v \<le> 0x10FFFF \<and> \<not> (0xD800 \<le> v \<and> v \<le> 0xDFFF)"

definition range_endpoint :: "range_elem \<Rightarrow> int \<Rightarrow> 'c val" where
  "range_endpoint e v =
     (case e of
        RangeInt ty \<Rightarrow> VInt v ty
      | RangeChar \<Rightarrow> VChar (if is_scalar v then nat v else 0xFFFD))"

definition seq_slots :: "'c val \<Rightarrow> 'c slot list option" where
  "seq_slots v =
     (case v of VTuple items \<Rightarrow> Some items | VList items _ _ _ \<Rightarrow> Some items | _ \<Rightarrow> None)"

definition val_home :: "'c val \<Rightarrow> region_id option" where
  "val_home v =
     (case v of
        VStruct _ _ home \<Rightarrow> home
      | VList _ _ _ home \<Rightarrow> home
      | VMap _ home \<Rightarrow> home
      | VStr s \<Rightarrow> str_home s
      | _ \<Rightarrow> None)"

definition val_is_error :: "'c val \<Rightarrow> bool" where
  "val_is_error v = (case v of VError _ _ enum_variant _ \<Rightarrow> \<not> enum_variant | _ \<Rightarrow> False)"

definition val_is_tagged :: "'c val \<Rightarrow> bool" where
  "val_is_tagged v = (case v of VError _ _ _ _ \<Rightarrow> True | _ \<Rightarrow> False)"

definition val_as_bool :: "'c val \<Rightarrow> bool option" where
  "val_as_bool v = (case v of VBool b \<Rightarrow> Some b | _ \<Rightarrow> None)"

definition val_as_int :: "'c val \<Rightarrow> int option" where
  "val_as_int v = (case v of VInt i _ \<Rightarrow> Some i | _ \<Rightarrow> None)"

definition val_int :: "int \<Rightarrow> 'c val" where
  "val_int i = VInt i ty_LITERAL"

definition error_bare :: "string \<Rightarrow> 'c val" where
  "error_bare tag = VError tag [] False []"

section \<open>Reference granules\<close>

datatype ref_granule =
    RefRegion region_id | RefPool pool_id | RefHandle pool_id | RefShared cell_id | RefWeak cell_id

text \<open>\<open>references\<close> walks the value depth first and pushes each granule; the result here is the
  sequence pushed.\<close>

fun refs_of :: "'c val \<Rightarrow> ref_granule list"
  and refs_of_slot :: "'c slot \<Rightarrow> ref_granule list" where
  "refs_of (VRegion h) = [RefRegion (rv_id h)]"
| "refs_of (VPoolRef i) = [RefPool i]"
| "refs_of (VHandle h) = [RefHandle (hv_pool h)]"
| "refs_of (VShared i) = [RefShared i]"
| "refs_of (VWeak i) = [RefWeak i]"
| "refs_of (VTuple items) = concat (map refs_of_slot items)"
| "refs_of (VList items _ _ _) = concat (map refs_of_slot items)"
| "refs_of (VStruct _ fs _) = concat (map (\<lambda>(_, s). refs_of_slot s) fs)"
| "refs_of (VMap pairs _) = concat (map (\<lambda>(k, s). refs_of k @ refs_of_slot s) pairs)"
| "refs_of (VError _ payload _ _) = concat (map refs_of payload)"
| "refs_of _ = []"
| "refs_of_slot (Slot st v) = refs_of v"

end
