(* ===== verification/Places.thy ===== *)
theory Places
  imports Values "HOL-Library.Sublist"
begin

text \<open>
  Places, paths and dynamic exclusivity: \<open>src/src/eval/place.rs\<close>. A path is a base binding of a frame
  and a list of projections; two paths conflict when one may be a prefix of the other. The access set
  is the stack of accesses held open by calls, borrows and loops; the machine asks it for a conflict
  before every access, and its answer is the whole exclusivity discipline.
\<close>

section \<open>Map keys, projections, paths\<close>

datatype map_key = KeyStr string | KeyInt int | KeyChar scalar | KeyBool bool

definition map_key_of :: "'c val \<Rightarrow> map_key option" where
  "map_key_of v =
     (case v of
        VStr s \<Rightarrow> Some (KeyStr (str_text s))
      | VInt i _ \<Rightarrow> Some (KeyInt i)
      | VChar c \<Rightarrow> Some (KeyChar c)
      | VBool b \<Rightarrow> Some (KeyBool b)
      | _ \<Rightarrow> None)"

definition map_key_to_value :: "map_key \<Rightarrow> 'c val" where
  "map_key_to_value k =
     (case k of
        KeyStr s \<Rightarrow> VStr (str_new s)
      | KeyInt i \<Rightarrow> VInt i ty_INT
      | KeyChar c \<Rightarrow> VChar c
      | KeyBool b \<Rightarrow> VBool b)"

definition map_key_names :: "map_key \<Rightarrow> 'c val \<Rightarrow> bool" where
  "map_key_names k v \<longleftrightarrow> map_key_of v = Some k"

datatype proj = Field string | Index int | Key map_key | UnknownIndex

fun may_equal :: "proj \<Rightarrow> proj \<Rightarrow> bool" where
  "may_equal (Field a) (Field b) = (a = b)"
| "may_equal (Index a) (Index b) = (a = b)"
| "may_equal (Key a) (Key b) = (a = b)"
| "may_equal UnknownIndex (Index _) = True"
| "may_equal UnknownIndex (Key _) = True"
| "may_equal UnknownIndex UnknownIndex = True"
| "may_equal (Index _) UnknownIndex = True"
| "may_equal (Key _) UnknownIndex = True"
| "may_equal _ _ = False"

record path =
  pa_frame :: nat
  pa_base :: string
  pa_projections :: "proj list"

definition path_local :: "nat \<Rightarrow> string \<Rightarrow> path" where
  "path_local frame base = \<lparr>pa_frame = frame, pa_base = base, pa_projections = []\<rparr>"

definition path_project :: "path \<Rightarrow> proj \<Rightarrow> path" where
  "path_project p step = p\<lparr>pa_projections := pa_projections p @ [step]\<rparr>"

text \<open>The loop over the shared length, stopping at the first divergence.\<close>

fun projections_agree :: "proj list \<Rightarrow> proj list \<Rightarrow> bool" where
  "projections_agree (p # ps) (q # qs) = (may_equal p q \<and> projections_agree ps qs)"
| "projections_agree _ _ = True"

definition conflicts_with :: "path \<Rightarrow> path \<Rightarrow> bool" where
  "conflicts_with p q \<longleftrightarrow>
     (if pa_frame p \<noteq> pa_frame q \<or> pa_base p \<noteq> pa_base q then False
      else projections_agree (pa_projections p) (pa_projections q))"

section \<open>Held accesses\<close>

datatype access = Shared | Exclusive

datatype held_why = WhyCall | WhyPending nat | WhyBorrow | WhyIteration

record held =
  h_path :: path
  h_access :: access
  h_span :: span
  h_why :: held_why

datatype reach = ReachAccess | ReachLend nat | ReachBorrow

record access_set =
  as_held :: "held list"
  as_next_call :: nat

definition access_set_new :: access_set where
  "access_set_new = \<lparr>as_held = [], as_next_call = 0\<rparr>"

definition meets :: "held \<Rightarrow> path \<Rightarrow> access \<Rightarrow> reach \<Rightarrow> bool" where
  "meets h p a r =
     (if \<not> ((h_access h = Exclusive \<or> a = Exclusive) \<and> conflicts_with (h_path h) p) then False
      else case h_why h of
        WhyPending call \<Rightarrow>
          a = Exclusive \<or>
          (case r of ReachAccess \<Rightarrow> False | ReachLend lent_to \<Rightarrow> lent_to = call | ReachBorrow \<Rightarrow> True)
      | _ \<Rightarrow> True)"

definition conflict_as :: "access_set \<Rightarrow> path \<Rightarrow> access \<Rightarrow> reach \<Rightarrow> held option" where
  "conflict_as s p a r = find (\<lambda>h. meets h p a r) (as_held s)"

definition conflict :: "access_set \<Rightarrow> path \<Rightarrow> access \<Rightarrow> held option" where
  "conflict s p a = conflict_as s p a ReachAccess"

definition open_call :: "access_set \<Rightarrow> nat \<times> access_set" where
  "open_call s = (let n = as_next_call s + 1 in (n, s\<lparr>as_next_call := n\<rparr>))"

definition enter_call :: "access_set \<Rightarrow> nat \<Rightarrow> access_set" where
  "enter_call s call = s\<lparr>as_held :=
     map (\<lambda>h. if h_why h = WhyPending call then h\<lparr>h_why := WhyCall\<rparr> else h) (as_held s)\<rparr>"

fun only_below :: "held list \<Rightarrow> path \<Rightarrow> access \<Rightarrow> bool \<Rightarrow> bool" where
  "only_below [] p a any = any"
| "only_below (h # hs) p a any =
     (if meets h p a ReachAccess then
        if length (pa_projections (h_path h)) \<le> length (pa_projections p) then False
        else only_below hs p a True
      else only_below hs p a any)"

definition conflicts_only_below :: "access_set \<Rightarrow> path \<Rightarrow> access \<Rightarrow> bool" where
  "conflicts_only_below s p a = only_below (as_held s) p a False"

definition disjoint_sibling :: "access_set \<Rightarrow> path \<Rightarrow> held option" where
  "disjoint_sibling s p =
     find (\<lambda>h. pa_frame (h_path h) = pa_frame p \<and> pa_base (h_path h) = pa_base p \<and>
                \<not> conflicts_with (h_path h) p) (as_held s)"

definition push_held :: "access_set \<Rightarrow> held \<Rightarrow> access_set" where
  "push_held s h = s\<lparr>as_held := as_held s @ [h]\<rparr>"

definition withdraw :: "access_set \<Rightarrow> nat \<Rightarrow> path \<Rightarrow> access_set" where
  "withdraw s call p =
     (case position (\<lambda>h. h_why h = WhyPending call \<and> h_path h = p) (as_held s) of
        None \<Rightarrow> s
      | Some i \<Rightarrow> s\<lparr>as_held := take i (as_held s) @ drop (Suc i) (as_held s)\<rparr>)"

definition release_held :: "access_set \<Rightarrow> nat \<Rightarrow> access_set" where
  "release_held s count = s\<lparr>as_held := take (length (as_held s) - count) (as_held s)\<rparr>"

definition release_frame :: "access_set \<Rightarrow> nat \<Rightarrow> access_set" where
  "release_frame s frame = s\<lparr>as_held := filter (\<lambda>h. pa_frame (h_path h) < frame) (as_held s)\<rparr>"

section \<open>The conflict relation\<close>

lemma may_equal_sym: "may_equal p q = may_equal q p"
  by (cases p; cases q) auto

lemma may_equal_refl [simp]: "may_equal p p"
  by (cases p) auto

lemma projections_agree_sym: "projections_agree ps qs = projections_agree qs ps"
  by (induction ps qs rule: projections_agree.induct) (auto simp: may_equal_sym)

lemma projections_agree_prefix: "projections_agree ps (ps @ qs)"
  by (induction ps) auto

lemma conflicts_with_sym: "conflicts_with p q = conflicts_with q p"
  by (metis conflicts_with_def projections_agree_sym)

lemma conflicts_with_iff:
  "conflicts_with p q \<longleftrightarrow> pa_frame p = pa_frame q \<and> pa_base p = pa_base q \<and>
     projections_agree (pa_projections p) (pa_projections q)"
  by (auto simp: conflicts_with_def)

definition known_path :: "path \<Rightarrow> bool" where
  "known_path p \<longleftrightarrow> UnknownIndex \<notin> set (pa_projections p)"

lemma may_equal_known: "p \<noteq> UnknownIndex \<Longrightarrow> q \<noteq> UnknownIndex \<Longrightarrow> may_equal p q \<longleftrightarrow> p = q"
  by (cases p; cases q) auto

lemma projections_agree_known:
  "UnknownIndex \<notin> set ps \<Longrightarrow> UnknownIndex \<notin> set qs \<Longrightarrow>
     projections_agree ps qs \<longleftrightarrow> prefix ps qs \<or> prefix qs ps"
  by (induction ps qs rule: projections_agree.induct) (auto simp: may_equal_known)

text \<open>What an unknown index stands for: any index or key of the same container.\<close>

fun concretises :: "proj \<Rightarrow> proj \<Rightarrow> bool" where
  "concretises UnknownIndex (Index _) = True"
| "concretises UnknownIndex (Key _) = True"
| "concretises p q = (p = q)"

lemma may_equal_concretises:
  "concretises p p' \<Longrightarrow> concretises q q' \<Longrightarrow> may_equal p' q' \<Longrightarrow> may_equal p q"
  by (cases p; cases p'; cases q; cases q') auto

lemma projections_agree_concretises:
  "list_all2 concretises ps ps' \<Longrightarrow> list_all2 concretises qs qs' \<Longrightarrow>
     projections_agree ps' qs' \<Longrightarrow> projections_agree ps qs"
proof (induction ps qs arbitrary: ps' qs' rule: projections_agree.induct)
  case (1 p ps q qs)
  then show ?case by (auto simp: list_all2_Cons1 dest: may_equal_concretises)
qed auto

section \<open>What a set of held accesses excludes\<close>

abbreviation pending :: "held \<Rightarrow> bool" where
  "pending h \<equiv> h_why h \<in> range WhyPending"

definition clash :: "held \<Rightarrow> path \<Rightarrow> access \<Rightarrow> bool" where
  "clash h p a \<longleftrightarrow> (h_access h = Exclusive \<or> a = Exclusive) \<and> conflicts_with (h_path h) p"

lemma meets_clash: "meets h p a r \<Longrightarrow> clash h p a"
  by (simp add: meets_def clash_def split: if_splits)

lemma meets_effective: "\<not> pending h \<Longrightarrow> meets h p a r \<longleftrightarrow> clash h p a"
  by (cases "h_why h") (auto simp: meets_def clash_def)

lemma meets_shared: "meets h p Shared ReachAccess \<longleftrightarrow> \<not> pending h \<and> clash h p Shared"
  by (cases "h_why h") (auto simp: meets_def clash_def)

lemma meets_exclusive: "meets h p Exclusive r \<longleftrightarrow> clash h p Exclusive"
  by (cases "h_why h") (auto simp: meets_def clash_def)

text \<open>Two held accesses that have both taken effect and whose places overlap are both reads.\<close>

definition exclusivity :: "access_set \<Rightarrow> bool" where
  "exclusivity s \<longleftrightarrow> sorted_wrt (\<lambda>g h. \<not> pending g \<and> \<not> pending h \<longrightarrow>
      \<not> clash g (h_path h) (h_access h)) (as_held s)"

text \<open>How the machine uses the set: an access is pushed only after \<open>conflict_as\<close> answered \<open>None\<close>; a
  call is entered once the accesses its nested arguments took have been released, so that its claims
  overlap nothing in effect.\<close>

definition claims_clear :: "access_set \<Rightarrow> nat \<Rightarrow> bool" where
  "claims_clear s call \<longleftrightarrow> sorted_wrt (\<lambda>g h.
      (h_why g = WhyPending call \<or> \<not> pending g) \<and> (h_why h = WhyPending call \<or> \<not> pending h) \<longrightarrow>
      \<not> clash g (h_path h) (h_access h)) (as_held s)"

inductive acc_step :: "access_set \<Rightarrow> access_set \<Rightarrow> bool" where
  acc_push: "conflict_as s (h_path h) (h_access h) r = None \<Longrightarrow> acc_step s (push_held s h)"
| acc_release: "acc_step s (release_held s n)"
| acc_release_frame: "acc_step s (release_frame s f)"
| acc_withdraw: "acc_step s (withdraw s call p)"
| acc_open: "acc_step s (snd (open_call s))"
| acc_enter: "claims_clear s call \<Longrightarrow> acc_step s (enter_call s call)"

inductive acc_reachable :: "access_set \<Rightarrow> bool" where
  acc_start: "acc_reachable access_set_new"
| acc_next: "acc_reachable s \<Longrightarrow> acc_step s t \<Longrightarrow> acc_reachable t"

lemma sorted_wrt_take: "sorted_wrt P xs \<Longrightarrow> sorted_wrt P (take n xs)"
  by (metis append_take_drop_id sorted_wrt_append)

lemma sorted_wrt_filter_list: "sorted_wrt P xs \<Longrightarrow> sorted_wrt P (filter Q xs)"
  by (induction xs) auto

lemma sorted_wrt_remove: "sorted_wrt P xs \<Longrightarrow> sorted_wrt P (take i xs @ drop (Suc i) xs)"
proof (induction xs arbitrary: i)
  case Nil
  then show ?case by simp
next
  case (Cons x xs)
  then show ?case by (cases i) (auto dest: in_set_takeD in_set_dropD)
qed

lemma clash_upd_why [simp]: "clash (h\<lparr>h_why := w\<rparr>) p a = clash h p a"
  by (simp add: clash_def)

lemma exclusivity_step:
  assumes "acc_step s t" and "exclusivity s"
  shows "exclusivity t"
  using assms
proof (induction rule: acc_step.induct)
  case (acc_push s h r)
  then have "\<not> clash g (h_path h) (h_access h)" if "g \<in> set (as_held s)" "\<not> pending g" for g
    using that by (auto simp: conflict_as_def find_None_iff_all meets_effective)
  then show ?case using acc_push.prems
    by (auto simp: exclusivity_def push_held_def sorted_wrt_append)
next
  case (acc_enter s call)
  then show ?case
    by (auto simp: exclusivity_def claims_clear_def enter_call_def sorted_wrt_map
        elim!: sorted_wrt_mono_rel [rotated])
qed (auto simp: exclusivity_def release_held_def release_frame_def withdraw_def open_call_def
    Let_def sorted_wrt_take sorted_wrt_filter_list sorted_wrt_remove split: option.splits)

lemma exclusivity_reachable: "acc_reachable s \<Longrightarrow> exclusivity s"
proof (induction rule: acc_reachable.induct)
  case acc_start
  show ?case by (simp add: exclusivity_def access_set_new_def)
next
  case (acc_next s t)
  then show ?case by (blast intro: exclusivity_step)
qed

lemma map_enter_find:
  "find (\<lambda>h. meets h q Shared ReachAccess)
     (map (\<lambda>h. if h_why h = WhyPending call then h\<lparr>h_why := WhyCall\<rparr> else h) hs)
   = map_option (\<lambda>h. if h_why h = WhyPending call then h\<lparr>h_why := WhyCall\<rparr> else h)
       (find (\<lambda>h. (h_why h = WhyPending call \<or> \<not> pending h) \<and> clash h q Shared) hs)"
  by (induction hs) (auto simp: meets_shared)

section \<open>Properties\<close>

text \<open>On paths whose indices are all known, two paths conflict exactly when they have the same
  base in the same frame and one is a prefix of the other: the disjointness clause, verbatim.\<close>

theorem conflicts_iff_prefix:
  assumes "known_path p" and "known_path q"
  shows "conflicts_with p q \<longleftrightarrow> pa_frame p = pa_frame q \<and> pa_base p = pa_base q \<and>
     (prefix (pa_projections p) (pa_projections q) \<or> prefix (pa_projections q) (pa_projections p))"
  using assms by (simp add: conflicts_with_iff known_path_def projections_agree_known)

theorem conflicts_iff_prefix_witness:
  "conflicts_with (path_local 0 ''a'') (path_project (path_local 0 ''a'') (Field ''x''))"
  using conflicts_iff_prefix [of "path_local 0 ''a''" "path_project (path_local 0 ''a'') (Field ''x'')"]
  by (simp add: known_path_def path_local_def path_project_def)

text \<open>An index the machine could not evaluate never hides a conflict: if some choice of indices
  or keys for the unknown steps makes two paths overlap, the paths with the unknown steps conflict.\<close>

theorem unknown_index_conservative:
  assumes "list_all2 concretises (pa_projections p) (pa_projections p')"
    and "list_all2 concretises (pa_projections q) (pa_projections q')"
    and "pa_frame p = pa_frame p'" and "pa_base p = pa_base p'"
    and "pa_frame q = pa_frame q'" and "pa_base q = pa_base q'"
    and "conflicts_with p' q'"
  shows "conflicts_with p q"
  using assms by (auto simp: conflicts_with_iff intro: projections_agree_concretises)

theorem unknown_index_conservative_witness:
  "conflicts_with (path_project (path_local 0 ''xs'') UnknownIndex)
     (path_project (path_local 0 ''xs'') (Index 3))"
  by (rule unknown_index_conservative [of _ "path_project (path_local 0 ''xs'') (Index 3)"
        _ "path_project (path_local 0 ''xs'') (Index 3)"])
    (simp_all add: path_project_def path_local_def conflicts_with_def)


definition ex_read :: held where
  "ex_read = \<lparr>h_path = path_local 0 ''a'', h_access = Shared,
     h_span = \<lparr>span_start = 0, span_end = 1\<rparr>, h_why = WhyCall\<rparr>"


text \<open>A pending \<open>mut\<close> claim is invisible to a read until its call is entered: a shared access
  meets only exclusive accesses in effect, and once \<open>enter_call\<close> has run it meets the claims of that
  call too, in the same order.\<close>

theorem claims_take_effect_at_entry:
  "conflict s q Shared =
     find (\<lambda>h. \<not> pending h \<and> h_access h = Exclusive \<and> conflicts_with (h_path h) q) (as_held s) \<and>
   conflict (enter_call s call) q Shared =
     map_option (\<lambda>h. if h_why h = WhyPending call then h\<lparr>h_why := WhyCall\<rparr> else h)
       (find (\<lambda>h. h_why h \<in> {WhyPending call, WhyCall, WhyBorrow, WhyIteration} \<and> h_access h = Exclusive \<and>
                  conflicts_with (h_path h) q) (as_held s))"
proof (intro conjI)
  have c: "clash h q Shared \<longleftrightarrow> h_access h = Exclusive \<and> conflicts_with (h_path h) q" for h
    by (auto simp: clash_def)
  have e: "h_why h \<in> {WhyPending call, WhyCall, WhyBorrow, WhyIteration} \<longleftrightarrow>
      h_why h = WhyPending call \<or> \<not> pending h" for h
    by (cases "h_why h") auto
  show "conflict s q Shared =
     find (\<lambda>h. \<not> pending h \<and> h_access h = Exclusive \<and> conflicts_with (h_path h) q) (as_held s)"
    by (simp add: conflict_def conflict_as_def meets_shared c)
  show "conflict (enter_call s call) q Shared =
     map_option (\<lambda>h. if h_why h = WhyPending call then h\<lparr>h_why := WhyCall\<rparr> else h)
       (find (\<lambda>h. h_why h \<in> {WhyPending call, WhyCall, WhyBorrow, WhyIteration} \<and> h_access h = Exclusive \<and>
                  conflicts_with (h_path h) q) (as_held s))"
    using map_enter_find [of q call "as_held s"] e
    by (simp add: conflict_def conflict_as_def enter_call_def c e del: insert_iff)
qed

end
