(* ===== verification/Ledger.thy ===== *)
theory Ledger
  imports Prelude
begin

text \<open>
  The byte ledger's shadow-memory geometry: module \<open>ledger\<close> of \<open>src/src/eval/region.rs\<close>. Amounts are
  \<open>u64\<close>, read as naturals below \<open>2 ^ 64\<close> with the source's saturating additions and products.
\<close>

definition GRAIN :: nat where "GRAIN = 16"
definition SLOT_BYTES :: nat where "SLOT_BYTES = 16"
definition BYTE_SLOT_BYTES :: nat where "BYTE_SLOT_BYTES = 1"
definition HEADER_BYTES :: nat where "HEADER_BYTES = 32"

definition div_ceil :: "nat \<Rightarrow> nat \<Rightarrow> nat" where
  "div_ceil a b = a div b + (if a mod b > 0 then 1 else 0)"

definition round_to_grain :: "nat \<Rightarrow> nat" where
  "round_to_grain bytes = sat_mul (div_ceil bytes GRAIN) GRAIN"

text \<open>\<open>u64::next_power_of_two\<close>: the least power of two at or above \<open>n\<close>.\<close>

fun pow2_from :: "nat \<Rightarrow> nat \<Rightarrow> nat \<Rightarrow> nat" where
  "pow2_from 0 p n = p"
| "pow2_from (Suc k) p n = (if n \<le> p then p else pow2_from k (2 * p) n)"

definition next_power_of_two :: "nat \<Rightarrow> nat" where
  "next_power_of_two n = pow2_from 64 1 n"

definition slot_capacity :: "nat \<Rightarrow> nat" where
  "slot_capacity len = (if len = 0 then 0 else next_power_of_two (max len 4))"

definition alloc_bytes :: "nat \<Rightarrow> nat" where
  "alloc_bytes slots = round_to_grain (sat_add HEADER_BYTES (sat_mul SLOT_BYTES slots))"

definition container_bytes :: "nat \<Rightarrow> nat" where
  "container_bytes len = alloc_bytes (slot_capacity len)"

definition byte_buffer_bytes :: "nat \<Rightarrow> nat" where
  "byte_buffer_bytes len = round_to_grain (sat_add HEADER_BYTES (sat_mul BYTE_SLOT_BYTES len))"

definition str_bytes :: "nat \<Rightarrow> nat" where
  "str_bytes len = round_to_grain (sat_add HEADER_BYTES len)"

definition growth_bytes_strided :: "nat \<Rightarrow> nat \<Rightarrow> nat \<Rightarrow> nat" where
  "growth_bytes_strided old_len new_len stride =
     (let grown = slot_capacity new_len in
      if grown > slot_capacity old_len then round_to_grain (sat_mul stride grown) else 0)"

definition growth_bytes :: "nat \<Rightarrow> nat \<Rightarrow> nat" where
  "growth_bytes old_len new_len = growth_bytes_strided old_len new_len SLOT_BYTES"

section \<open>Rounding and capacities\<close>

lemma div_ceil_16_bounds: "a \<le> div_ceil a 16 * 16" "div_ceil a 16 * 16 < a + 16"
proof -
  define q r where "q = a div 16" and "r = a mod 16"
  have a: "a = q * 16 + r" and r: "r < 16" by (simp_all add: q_def r_def)
  have d: "div_ceil a 16 = q + (if r > 0 then 1 else 0)" by (simp add: div_ceil_def q_def r_def)
  show "a \<le> div_ceil a 16 * 16" "div_ceil a 16 * 16 < a + 16"
    unfolding d using r by (subst a, simp)+
qed

lemma round_to_grain_ge: "bytes \<le> u64_max \<Longrightarrow> bytes \<le> round_to_grain bytes"
  using div_ceil_16_bounds(1) [of bytes] by (simp add: round_to_grain_def GRAIN_def sat_mul_def)

lemma round_to_grain_lt: "round_to_grain bytes < bytes + 16"
  using div_ceil_16_bounds(2) [of bytes]
  by (simp add: round_to_grain_def GRAIN_def sat_mul_def min_less_iff_disj)

lemma pow2_from_ge: "n \<le> p * 2 ^ k \<Longrightarrow> n \<le> pow2_from k p n"
  by (induction k p n rule: pow2_from.induct) (auto simp: ac_simps)

lemma pow2_from_least:
  "p = 2 ^ i \<Longrightarrow> \<exists>j \<ge> i. pow2_from k p n = 2 ^ j \<and> (j = i \<or> 2 ^ (j - 1) < n)"
proof (induction k p n arbitrary: i rule: pow2_from.induct)
  case (1 p n)
  then show ?case by auto
next
  case (2 k p n)
  show ?case
  proof (cases "n \<le> p")
    case True
    with 2 show ?thesis by auto
  next
    case False
    with 2 obtain j where "j \<ge> Suc i" "pow2_from k (2 * p) n = 2 ^ j" "j = Suc i \<or> 2 ^ (j - 1) < n"
      by (metis power_Suc)
    with False 2(2) show ?thesis by (intro exI [of _ j]) auto
  qed
qed

lemma next_power_of_two_ge: "n \<le> 2 ^ 64 \<Longrightarrow> n \<le> next_power_of_two n"
  unfolding next_power_of_two_def by (rule pow2_from_ge) simp

lemma next_power_of_two_lt: "2 \<le> n \<Longrightarrow> next_power_of_two n < 2 * n"
proof -
  assume n: "2 \<le> n"
  obtain j where j: "next_power_of_two n = 2 ^ j" "j = 0 \<or> 2 ^ (j - 1) < n"
    using pow2_from_least [of 1 0 64 n] by (auto simp: next_power_of_two_def)
  then show ?thesis using n by (cases j) auto
qed

lemma pow2_from_base: "p \<le> pow2_from k p n"
proof (induction k arbitrary: p)
  case 0
  then show ?case by simp
next
  case (Suc k)
  from Suc [of "2 * p"] show ?case by simp
qed

lemma pow2_from_mono: "m \<le> n \<Longrightarrow> pow2_from k p m \<le> pow2_from k p n"
proof (induction k arbitrary: p)
  case 0
  then show ?case by simp
next
  case (Suc k)
  have "p \<le> pow2_from k (2 * p) n" using pow2_from_base [of "2 * p" k n] by simp
  with Suc show ?case by auto
qed

lemma slot_capacity_mono: "m \<le> n \<Longrightarrow> slot_capacity m \<le> slot_capacity n"
  by (auto simp: slot_capacity_def next_power_of_two_def intro!: pow2_from_mono)

lemma slot_capacity_ge: "n \<le> 2 ^ 64 \<Longrightarrow> n \<le> slot_capacity n"
  using next_power_of_two_ge [of "max n 4"] by (simp add: slot_capacity_def)

section \<open>Growing one element at a time\<close>

text \<open>The total a list pushed from empty to \<open>n\<close> elements has charged for its growth.\<close>

fun push_history :: "nat \<Rightarrow> nat \<Rightarrow> nat" where
  "push_history stride 0 = 0"
| "push_history stride (Suc n) = push_history stride n + growth_bytes_strided n (Suc n) stride"

lemma slot_capacity_pow2: "0 < n \<Longrightarrow> \<exists>j. slot_capacity n = 2 ^ j \<and> (j = 2 \<or> 2 < j)"
proof -
  assume "0 < n"
  obtain j where j: "next_power_of_two (max n 4) = 2 ^ j"
    using pow2_from_least [of 1 0 64 "max n 4"] by (auto simp: next_power_of_two_def)
  have "pow2_from 64 1 4 \<le> pow2_from 64 1 (max n 4)" by (rule pow2_from_mono) simp
  moreover have "pow2_from 64 1 4 = 4" by (simp add: numeral_eq_Suc)
  ultimately have "(2::nat) ^ 2 \<le> 2 ^ j" using j by (simp add: next_power_of_two_def)
  then have "2 \<le> j" using power_le_imp_le_exp [of 2 2 j] by simp
  with j \<open>0 < n\<close> show ?thesis by (auto simp: slot_capacity_def)
qed

lemma slot_capacity_step:
  assumes "slot_capacity (Suc n) > slot_capacity n"
  shows "2 * slot_capacity n \<le> slot_capacity (Suc n)"
proof (cases n)
  case 0
  then show ?thesis by (simp add: slot_capacity_def)
next
  case (Suc m)
  obtain i j where "slot_capacity n = 2 ^ i" "slot_capacity (Suc n) = 2 ^ j"
    using slot_capacity_pow2 [of n] slot_capacity_pow2 [of "Suc n"] Suc by auto
  with assms have "Suc i \<le> j" by simp
  then have "(2::nat) ^ Suc i \<le> 2 ^ j" by (rule power_increasing) simp
  then show ?thesis using \<open>slot_capacity n = 2 ^ i\<close> \<open>slot_capacity (Suc n) = 2 ^ j\<close> by simp
qed

lemma growth_strided_le: "growth_bytes_strided m n 16 \<le> 16 * slot_capacity n"
proof (cases "16 * slot_capacity n \<le> u64_max")
  case True
  then have "sat_mul 16 (slot_capacity n) = 16 * slot_capacity n" by (simp add: sat_mul_def)
  then show ?thesis
    by (simp add: growth_bytes_strided_def round_to_grain_def GRAIN_def div_ceil_def Let_def sat_mul_def)
next
  case False
  have "growth_bytes_strided m n 16 \<le> u64_max"
    by (simp add: growth_bytes_strided_def round_to_grain_def Let_def)
  with False show ?thesis by simp
qed

lemma push_history_le: "push_history 16 n \<le> 2 * (16 * slot_capacity n)"
proof (induction n)
  case 0
  then show ?case by simp
next
  case (Suc n)
  show ?case
  proof (cases "slot_capacity (Suc n) > slot_capacity n")
    case True
    have "push_history 16 (Suc n) \<le> 2 * (16 * slot_capacity n) + 16 * slot_capacity (Suc n)"
      using Suc growth_strided_le [of n "Suc n"] by simp
    also have "\<dots> \<le> 2 * (16 * slot_capacity (Suc n))" using slot_capacity_step [OF True] by simp
    finally show ?thesis .
  next
    case False
    then have "slot_capacity (Suc n) = slot_capacity n"
      using slot_capacity_mono [of n "Suc n"] by simp
    with Suc show ?thesis by (simp add: growth_bytes_strided_def Let_def)
  qed
qed

section \<open>Properties\<close>

text \<open>The doubling policy keeps a growing list's ledger linear: pushing \<open>n\<close> elements one at a
  time charges, abandoned buffers included, less than 64 bytes per element beyond the fixed first
  buffer.\<close>

theorem push_history_linear:
  "push_history SLOT_BYTES n \<le> 64 * max n 4"
proof (cases "n = 0")
  case True
  then show ?thesis by simp
next
  case False
  have "slot_capacity n < 2 * max n 4"
    using False next_power_of_two_lt [of "max n 4"] by (simp add: slot_capacity_def)
  then show ?thesis using push_history_le [of n] by (simp add: SLOT_BYTES_def)
qed

text \<open>A list never holds more elements than the capacity it was charged for, and a growth charges
  nothing exactly when the new length still fits the capacity step reached before.\<close>

theorem growth_zero_iff_fits:
  assumes "m \<le> n" and "n \<le> 2 ^ 60"
  shows "n \<le> slot_capacity n \<and> (growth_bytes m n = 0 \<longleftrightarrow> slot_capacity n = slot_capacity m)"
proof -
  have le: "slot_capacity m \<le> slot_capacity n" using assms(1) by (rule slot_capacity_mono)
  have "growth_bytes m n = 0 \<longleftrightarrow> \<not> slot_capacity n > slot_capacity m"
    by (auto simp: growth_bytes_def growth_bytes_strided_def round_to_grain_def sat_mul_def
        GRAIN_def SLOT_BYTES_def div_ceil_def Let_def min_def split: if_splits)
  moreover have "n \<le> slot_capacity n" using assms(2) by (intro slot_capacity_ge) simp
  ultimately show ?thesis using le by auto
qed

theorem growth_zero_iff_fits_witness:
  "5 \<le> slot_capacity 5 \<and> (growth_bytes 4 5 = 0 \<longleftrightarrow> slot_capacity 5 = slot_capacity 4)"
  using growth_zero_iff_fits [of 4 5] by simp

end
