(* ===== verification/Regions.thy ===== *)
theory Regions
  imports Values Ledger
begin

text \<open>
  The dynamic region store of \<open>src/src/eval/region.rs\<close>: the region forest, the scope stack of open
  regions, the byte ledger with its caps, the edge table for stored references, and the store's
  records of pools and cells (whose operations are in the theory Pools). Every operation is a state
  transformer on \<open>store\<close>. The rendered messages of the source's errors are kept as the data they
  render. Identifiers are indices into the store's vectors, as in the source.
\<close>

section \<open>State\<close>

datatype region_state = RegOpen | RegSuspended | RegFrozen | RegFreed

datatype strategy = Arena | Rc | PoolOf string

datatype task_claim = InChannel | OfTask task_id

record region =
  rg_id :: region_id
  rg_name :: "string option"
  rg_state :: region_state
  rg_strategy :: strategy
  rg_parent :: "region_id option"
  rg_generation :: generation
  rg_allocations :: nat
  rg_bytes :: nat
  rg_cap :: "nat option"
  rg_cap_span :: "span option"
  rg_depth :: nat
  rg_claim :: "task_claim option"
  rg_span :: span

record cap_breach =
  cb_region :: region_id
  cb_cap :: nat
  cb_charged :: nat
  cb_bytes :: nat

datatype slot_life = SlotReserved | SlotAlive | SlotFree

record 'c pool_slot =
  ps_generation :: generation
  ps_life :: slot_life
  ps_value :: "'c val"

record 'c pool =
  po_id :: pool_id
  po_region :: region_id
  po_elem :: string
  po_slots :: "'c pool_slot list"

record 'c cell =
  ce_strong :: "32 word"
  ce_weak :: "32 word"
  ce_value :: "'c val"
  ce_edges :: "cell_id list"
  ce_dead :: bool
  ce_span :: span

record 'c store =
  st_regions :: "region list"
  st_pools :: "'c pool list"
  st_cells :: "'c cell list"
  st_open :: "region_id list"
  st_teeth :: bool

datatype enter_error =
    NoSuchRegion region_id | EnterFreed region_id | EnterFrozen region_id
  | NotDisjoint region_id region_id

datatype freeze_error = FreezeFreed region_id | FreezeOpen region_id | FreezeOwnsOpen region_id region_id

datatype edge_reason =
    NoPool pool_id | HasOwner region_id region_id | CrossRegion region_id region_id

datatype edge = EdgeIntra | EdgeIso region_id | EdgeImm | EdgeTier2 | EdgeIllegal edge_reason

text \<open>The rendered verdicts of \<open>assert_forest\<close>; \<open>IndexPanic\<close> is its unchecked \<open>self.regions[current]\<close>.\<close>

datatype forest_error =
    DanglingParent region_id | OwnAncestor region_id | EndlessChain region_id | IndexPanic region_id

section \<open>Creating and reading regions\<close>

definition create :: "'c store \<Rightarrow> string option \<Rightarrow> strategy \<Rightarrow> (nat \<times> span) option \<Rightarrow> span
    \<Rightarrow> region_id \<times> 'c store" where
  "create s name strat cap sp =
     (let i = length (st_regions s) in
      (i, s\<lparr>st_regions := st_regions s @ [\<lparr>rg_id = i, rg_name = name, rg_state = RegSuspended,
         rg_strategy = strat, rg_parent = None, rg_generation = 0, rg_allocations = 0, rg_bytes = 0,
         rg_cap = map_option fst cap, rg_cap_span = map_option snd cap, rg_depth = 0,
         rg_claim = None, rg_span = sp\<rparr>]\<rparr>))"

definition store_default :: "'c store" where
  "store_default = \<lparr>st_regions = [], st_pools = [], st_cells = [], st_open = [], st_teeth = False\<rparr>"

definition root_region :: region_id where "root_region = 0"

definition store_new :: "'c store" where
  "store_new =
     (let (root, s) = create store_default (Some ''program'') Arena None \<lparr>span_start = 0, span_end = 0\<rparr>
      in s\<lparr>st_open := st_open s @ [root],
           st_regions := modify_at root (\<lambda>r. r\<lparr>rg_state := RegOpen, rg_depth := 1\<rparr>) (st_regions s)\<rparr>)"

definition region_of :: "'c store \<Rightarrow> region_id \<Rightarrow> region option" where
  "region_of s i = get_at (st_regions s) i"

definition state_of :: "'c store \<Rightarrow> region_id \<Rightarrow> region_state option" where
  "state_of s i = map_option rg_state (region_of s i)"

definition generation_of :: "'c store \<Rightarrow> region_id \<Rightarrow> generation" where
  "generation_of s i = (case region_of s i of None \<Rightarrow> 0 | Some r \<Rightarrow> rg_generation r)"

definition current :: "'c store \<Rightarrow> region_id" where
  "current s = (if st_open s = [] then root_region else last (st_open s))"

definition parent_of :: "region list \<Rightarrow> region_id \<Rightarrow> region_id option" where
  "parent_of rs i = Option.bind (get_at rs i) rg_parent"

text \<open>The walk up the parent edges, stopped after as many steps as there are regions.\<close>

fun ancestor_walk :: "region list \<Rightarrow> region_id \<Rightarrow> nat \<Rightarrow> region_id option \<Rightarrow> bool" where
  "ancestor_walk rs a fuel None = False"
| "ancestor_walk rs a 0 (Some cur) = (cur = a)"
| "ancestor_walk rs a (Suc fuel) (Some cur) =
     (cur = a \<or> ancestor_walk rs a fuel (parent_of rs cur))"

definition is_ancestor :: "'c store \<Rightarrow> region_id \<Rightarrow> region_id \<Rightarrow> bool" where
  "is_ancestor s a i = ancestor_walk (st_regions s) a (length (st_regions s)) (Some i)"

text \<open>One round of the worklist: every region whose parent is \<open>p\<close> and that is not listed yet.\<close>

fun push_children :: "region list \<Rightarrow> region_id \<Rightarrow> region_id list \<Rightarrow> region_id list" where
  "push_children [] p out = out"
| "push_children (r # rs) p out =
     push_children rs p (if rg_parent r = Some p \<and> rg_id r \<notin> set out then out @ [rg_id r] else out)"

text \<open>The worklist loop; \<open>fuel\<close> rounds, one per listed region. A list without repetitions over the
  start and the store's regions has at most \<open>length regions + 1\<close> elements, so that is enough.\<close>

fun descend :: "nat \<Rightarrow> region list \<Rightarrow> nat \<Rightarrow> region_id list \<Rightarrow> region_id list" where
  "descend 0 rs at out = out"
| "descend (Suc fuel) rs at out =
     (if at < length out then descend fuel rs (Suc at) (push_children rs (out ! at) out) else out)"

definition descendants :: "'c store \<Rightarrow> region_id \<Rightarrow> region_id list" where
  "descendants s i = descend (Suc (length (st_regions s))) (st_regions s) 0 [i]"

section \<open>The ledger\<close>

definition admits :: "region \<Rightarrow> nat \<Rightarrow> cap_breach + nat" where
  "admits r bytes =
     (let tot = sat_add (rg_bytes r) bytes in
      case rg_cap r of
        Some cap \<Rightarrow>
          if tot > cap
          then Inl \<lparr>cb_region = rg_id r, cb_cap = cap, cb_charged = rg_bytes r, cb_bytes = bytes\<rparr>
          else Inr tot
      | None \<Rightarrow> Inr tot)"

definition charge_into :: "'c store \<Rightarrow> region_id \<Rightarrow> nat \<Rightarrow> cap_breach + 'c store" where
  "charge_into s i bytes =
     (case region_of s i of
        None \<Rightarrow> Inr s
      | Some r \<Rightarrow>
          (case admits r bytes of
             Inl e \<Rightarrow> Inl e
           | Inr tot \<Rightarrow> Inr (s\<lparr>st_regions := modify_at i
               (\<lambda>r. r\<lparr>rg_allocations := rg_allocations r + 1, rg_bytes := tot\<rparr>) (st_regions s)\<rparr>)))"

definition charge :: "'c store \<Rightarrow> nat \<Rightarrow> cap_breach + region_id \<times> 'c store" where
  "charge s bytes =
     (case charge_into s (current s) bytes of Inl e \<Rightarrow> Inl e | Inr s' \<Rightarrow> Inr (current s, s'))"

definition charge_growth :: "'c store \<Rightarrow> region_id \<Rightarrow> nat \<Rightarrow> cap_breach + 'c store" where
  "charge_growth s i bytes =
     (if bytes = 0 then Inr s
      else case region_of s i of
        None \<Rightarrow> Inr s
      | Some r \<Rightarrow>
          (case admits r bytes of
             Inl e \<Rightarrow> Inl e
           | Inr tot \<Rightarrow>
               Inr (s\<lparr>st_regions := modify_at i (\<lambda>r. r\<lparr>rg_bytes := tot\<rparr>) (st_regions s)\<rparr>)))"

definition bytes_of :: "'c store \<Rightarrow> region_id \<Rightarrow> nat" where
  "bytes_of s i = (case region_of s i of None \<Rightarrow> 0 | Some r \<Rightarrow> rg_bytes r)"

definition live_bytes :: "'c store \<Rightarrow> nat" where
  "live_bytes s = fold (\<lambda>r acc. sat_add acc (rg_bytes r))
     (filter (\<lambda>r. rg_id r \<noteq> root_region \<and> rg_state r \<noteq> RegFreed) (st_regions s)) 0"

section \<open>Opening, closing, freeing, freezing\<close>

definition claim :: "'c store \<Rightarrow> region_id \<Rightarrow> task_claim option \<Rightarrow> 'c store" where
  "claim s i c = s\<lparr>st_regions :=
     fold (\<lambda>t. modify_at t (\<lambda>r. r\<lparr>rg_claim := c\<rparr>)) (descendants s i) (st_regions s)\<rparr>"

definition claim_of :: "'c store \<Rightarrow> region_id \<Rightarrow> task_claim option" where
  "claim_of s i = Option.bind (region_of s i) rg_claim"

definition force_open :: "'c store \<Rightarrow> region_id \<Rightarrow> 'c store" where
  "force_open s i = s\<lparr>st_regions :=
     modify_at i (\<lambda>r. r\<lparr>rg_state := RegOpen, rg_depth := rg_depth r + 1\<rparr>) (st_regions s)\<rparr>"

definition swap_open :: "'c store \<Rightarrow> region_id list \<Rightarrow> region_id list \<times> 'c store" where
  "swap_open s stack = (st_open s, s\<lparr>st_open := stack\<rparr>)"

definition enter :: "'c store \<Rightarrow> region_id \<Rightarrow> enter_error + 'c store" where
  "enter s i =
     (case region_of s i of
        None \<Rightarrow> Inl (NoSuchRegion i)
      | Some r \<Rightarrow>
          (case rg_state r of
             RegFreed \<Rightarrow> Inl (EnterFreed i)
           | RegFrozen \<Rightarrow> Inl (EnterFrozen i)
           | _ \<Rightarrow>
               (case (if rg_depth r = 0
                      then find (\<lambda>other. is_ancestor s other i \<or> is_ancestor s i other) (st_open s)
                      else None) of
                  Some other \<Rightarrow> Inl (NotDisjoint i other)
                | None \<Rightarrow> Inr (s\<lparr>st_regions := modify_at i
                    (\<lambda>r. r\<lparr>rg_state := RegOpen, rg_depth := rg_depth r + 1\<rparr>) (st_regions s),
                    st_open := st_open s @ [i]\<rparr>))))"

text \<open>\<open>rposition\<close> and \<open>remove\<close>: the last occurrence goes.\<close>

definition remove_last :: "'a \<Rightarrow> 'a list \<Rightarrow> 'a list" where
  "remove_last x xs = rev (remove1 x (rev xs))"

definition leave :: "'c store \<Rightarrow> region_id \<Rightarrow> 'c store" where
  "leave s i = s\<lparr>st_open := remove_last i (st_open s),
     st_regions := modify_at i
       (\<lambda>r. let d = rg_depth r - 1 in
          r\<lparr>rg_depth := d,
            rg_state := (if d = 0 \<and> rg_state r = RegOpen then RegSuspended else rg_state r)\<rparr>)
       (st_regions s)\<rparr>"

text \<open>The loop of \<open>free\<close> over the descendants: what it frees, and the regions after it.\<close>

fun free_regions :: "region_id list \<Rightarrow> region list \<Rightarrow> region_id list \<times> region list" where
  "free_regions [] rs = ([], rs)"
| "free_regions (t # ts) rs =
     (case get_at rs t of
        None \<Rightarrow> free_regions ts rs
      | Some r \<Rightarrow>
          if rg_state r = RegFreed \<or> rg_state r = RegFrozen then free_regions ts rs
          else let (freed, rs') = free_regions ts (rs[t := r\<lparr>rg_state := RegFreed,
                     rg_generation := rg_generation r + 1, rg_depth := 0\<rparr>])
               in (t # freed, rs'))"

definition free_slot :: "'c pool_slot \<Rightarrow> 'c pool_slot" where
  "free_slot sl = sl\<lparr>ps_life := SlotFree, ps_generation := ps_generation sl + 1, ps_value := VUnit\<rparr>"

definition free :: "'c store \<Rightarrow> region_id \<Rightarrow> region_id list \<times> 'c store" where
  "free s i =
     (let (freed, rs) = free_regions (descendants s i) (st_regions s) in
      (freed, s\<lparr>st_teeth := True, st_regions := rs,
         st_open := filter (\<lambda>k. k \<notin> set freed) (st_open s),
         st_pools := map (\<lambda>p. if po_region p \<in> set freed
            then p\<lparr>po_slots := map free_slot (po_slots p)\<rparr> else p) (st_pools s)\<rparr>))"

fun freeze_regions :: "region_id list \<Rightarrow> region list \<Rightarrow> region_id list \<times> region list" where
  "freeze_regions [] rs = ([], rs)"
| "freeze_regions (t # ts) rs =
     (case get_at rs t of
        None \<Rightarrow> freeze_regions ts rs
      | Some r \<Rightarrow>
          if rg_state r = RegFrozen then freeze_regions ts rs
          else let (frozen, rs') = freeze_regions ts (rs[t := r\<lparr>rg_state := RegFrozen, rg_claim := None\<rparr>])
               in (t # frozen, rs'))"

text \<open>The store is returned in both cases: the flag is set before the checks.\<close>

definition freeze :: "'c store \<Rightarrow> region_id \<Rightarrow> (freeze_error + region_id list) \<times> 'c store" where
  "freeze s i =
     (let s1 = s\<lparr>st_teeth := True\<rparr> in
      if state_of s1 i = Some RegFreed then (Inl (FreezeFreed i), s1)
      else let family = descendants s1 i in
        case find (\<lambda>t. case region_of s1 t of None \<Rightarrow> False | Some r \<Rightarrow> rg_depth r > 0) family of
          Some open \<Rightarrow>
            (Inl (if open = i then FreezeOpen i else FreezeOwnsOpen i open), s1)
        | None \<Rightarrow>
            let (frozen, rs) = freeze_regions family (st_regions s1) in
            (Inr frozen, s1\<lparr>st_regions := rs\<rparr>))"

section \<open>The edge table\<close>

text \<open>The region a granule points into: nothing for a Tier-2 cell, a reason for an unknown pool.\<close>

definition edge_target :: "'c store \<Rightarrow> ref_granule \<Rightarrow> (edge + region_id)" where
  "edge_target s ref =
     (let via_pool = (\<lambda>i. case get_at (st_pools s) i of
          Some p \<Rightarrow> Inr (po_region p)
        | None \<Rightarrow> Inl (EdgeIllegal (NoPool i)))
      in case ref of
        RefShared _ \<Rightarrow> Inl EdgeTier2
      | RefWeak _ \<Rightarrow> Inl EdgeTier2
      | RefRegion i \<Rightarrow> Inr i
      | RefPool i \<Rightarrow> via_pool i
      | RefHandle i \<Rightarrow> via_pool i)"

definition classify_edge :: "'c store \<Rightarrow> region_id option \<Rightarrow> ref_granule \<Rightarrow> edge" where
  "classify_edge s into ref =
     (case edge_target s ref of
        Inl e \<Rightarrow> e
      | Inr target \<Rightarrow>
          if state_of s target = Some RegFrozen then EdgeImm
          else case into of
            None \<Rightarrow> EdgeIntra
          | Some source \<Rightarrow>
              if source = target then EdgeIntra
              else case ref of
                RefRegion child \<Rightarrow>
                  (case parent_of (st_regions s) child of
                     None \<Rightarrow> EdgeIso child
                   | Some owner \<Rightarrow>
                       if owner = source then EdgeIso child else EdgeIllegal (HasOwner child owner))
              | _ \<Rightarrow> EdgeIllegal (CrossRegion source target))"

definition adopt :: "'c store \<Rightarrow> region_id \<Rightarrow> region_id \<Rightarrow> 'c store" where
  "adopt s parent child = s\<lparr>st_regions :=
     modify_at child (\<lambda>r. r\<lparr>rg_parent := Some parent\<rparr>) (st_regions s)\<rparr>"

text \<open>The walk above one region: \<open>self\<close> met again, more steps than there are regions, or an index
  out of range.\<close>

fun chain_check :: "region list \<Rightarrow> region_id \<Rightarrow> nat \<Rightarrow> region_id option \<Rightarrow> forest_error option" where
  "chain_check rs self fuel None = None"
| "chain_check rs self 0 (Some cur) =
     Some (if cur = self then OwnAncestor self else EndlessChain self)"
| "chain_check rs self (Suc fuel) (Some cur) =
     (if cur = self then Some (OwnAncestor self)
      else case get_at rs cur of
        None \<Rightarrow> Some (IndexPanic self)
      | Some r \<Rightarrow> chain_check rs self fuel (rg_parent r))"

definition region_check :: "region list \<Rightarrow> region \<Rightarrow> forest_error option" where
  "region_check rs r =
     (case rg_parent r of
        None \<Rightarrow> None
      | Some p \<Rightarrow>
          if p \<ge> length rs then Some (DanglingParent (rg_id r))
          else chain_check rs (rg_id r) (length rs) (Some p))"

definition assert_forest :: "'c store \<Rightarrow> forest_error option" where
  "assert_forest s =
     (case find (\<lambda>r. region_check (st_regions s) r \<noteq> None) (st_regions s) of
        None \<Rightarrow> None
      | Some r \<Rightarrow> region_check (st_regions s) r)"

definition leaks :: "'c store \<Rightarrow> region_id list" where
  "leaks s = map rg_id (filter (\<lambda>r. rg_state r = RegOpen \<or> rg_state r = RegSuspended) (st_regions s))"

text \<open>\<open>Machine::assert_forest\<close>: the first broken verdict is recorded and stays.\<close>

definition record_forest :: "'c store \<Rightarrow> forest_error option \<Rightarrow> forest_error option" where
  "record_forest s verdict = (if verdict \<noteq> None then verdict else assert_forest s)"

text \<open>\<open>Machine::check_edges\<close>: every reference a stored value carries, in order; an owning edge is
  recorded when the destination is a region, an illegal one stops with a region fault. The state is
  the store with the recorded forest verdict.\<close>

fun check_edges :: "'c store \<Rightarrow> forest_error option \<Rightarrow> region_id option \<Rightarrow> ref_granule list
    \<Rightarrow> (trap_kind \<times> edge_reason) option \<times> 'c store \<times> forest_error option" where
  "check_edges s v into [] = (None, s, v)"
| "check_edges s v into (g # gs) =
     (case classify_edge s into g of
        EdgeIso child \<Rightarrow>
          (case into of
             Some parent \<Rightarrow>
               let s' = adopt s parent child in check_edges s' (record_forest s' v) into gs
           | None \<Rightarrow> check_edges s v into gs)
      | EdgeIllegal why \<Rightarrow> (Some (RegionFault, why), s, v)
      | _ \<Rightarrow> check_edges s v into gs)"

end
