(* ===== verification/Forest.thy ===== *)
theory Forest
  imports Regions
begin

text \<open>
  The region forest: what the parent edges of the store mean as a relation, the correctness of the
  three walks over it (\<open>is_ancestor\<close>, \<open>descendants\<close>, \<open>assert_forest\<close>), and which adoptions keep it a
  forest.
\<close>

section \<open>The parent relation\<close>

definition parent_rel :: "region list \<Rightarrow> (region_id \<times> region_id) set" where
  "parent_rel rs = {(i, p). parent_of rs i = Some p}"

definition forest_ok :: "region list \<Rightarrow> bool" where
  "forest_ok rs \<longleftrightarrow> (\<forall>(i, p) \<in> parent_rel rs. p < length rs) \<and> acyclic (parent_rel rs)"

definition ids_ok :: "region list \<Rightarrow> bool" where
  "ids_ok rs \<longleftrightarrow> (\<forall>i < length rs. rg_id (rs ! i) = i)"

abbreviation up :: "region list \<Rightarrow> region_id \<Rightarrow> region_id set" where
  "up rs i \<equiv> {x. (i, x) \<in> (parent_rel rs)\<^sup>*}"

lemma parent_rel_iff: "(i, p) \<in> parent_rel rs \<longleftrightarrow> i < length rs \<and> rg_parent (rs ! i) = Some p"
  by (auto simp: parent_rel_def parent_of_def bind_eq_Some_conv)

lemma parent_of_iff: "parent_of rs i = Some p \<longleftrightarrow> (i, p) \<in> parent_rel rs"
  by (simp add: parent_rel_def)

lemma parent_rel_det: "(i, p) \<in> parent_rel rs \<Longrightarrow> (i, q) \<in> parent_rel rs \<Longrightarrow> p = q"
  by (simp add: parent_rel_def)

lemma forest_range: "forest_ok rs \<Longrightarrow> (i, p) \<in> parent_rel rs \<Longrightarrow> p < length rs"
  by (auto simp: forest_ok_def)

lemma forest_acyclic: "forest_ok rs \<Longrightarrow> (i, i) \<notin> (parent_rel rs)\<^sup>+"
  by (simp add: forest_ok_def acyclic_def)

lemma up_subset: "forest_ok rs \<Longrightarrow> up rs i \<subseteq> insert i {..<length rs}"
proof
  fix x assume f: "forest_ok rs" and "x \<in> up rs i"
  then have "(i, x) \<in> (parent_rel rs)\<^sup>*" by simp
  then show "x \<in> insert i {..<length rs}"
    by (cases rule: rtranclE) (use forest_range [OF f] in auto)
qed

lemma up_finite: "forest_ok rs \<Longrightarrow> finite (up rs i)"
  by (rule finite_subset [OF up_subset]) simp_all

lemma up_card: "forest_ok rs \<Longrightarrow> card (up rs i) \<le> Suc (length rs)"
proof -
  assume f: "forest_ok rs"
  have "card (up rs i) \<le> card (insert i {..<length rs})"
    by (rule card_mono [OF _ up_subset [OF f]]) simp
  also have "\<dots> \<le> Suc (length rs)" by (simp add: card_insert_if)
  finally show ?thesis .
qed

lemma up_card_in: "forest_ok rs \<Longrightarrow> i < length rs \<Longrightarrow> card (up rs i) \<le> length rs"
proof -
  assume f: "forest_ok rs" and i: "i < length rs"
  have "up rs i \<subseteq> {..<length rs}" using up_subset [OF f, of i] i by auto
  from card_mono [OF _ this] show ?thesis by simp
qed

lemma up_step:
  assumes "forest_ok rs" and "(i, p) \<in> parent_rel rs"
  shows "card (up rs p) < card (up rs i)"
proof (rule psubset_card_mono [OF up_finite [OF assms(1)]])
  have "(p, i) \<notin> (parent_rel rs)\<^sup>*"
    using forest_acyclic [OF assms(1)] assms(2) by (meson rtrancl_into_trancl2)
  then show "up rs p \<subset> up rs i" using assms(2) by (auto intro: converse_rtrancl_into_rtrancl)
qed

section \<open>is_ancestor\<close>

lemma ancestor_walk_sound: "ancestor_walk rs a fuel (Some i) \<Longrightarrow> (i, a) \<in> (parent_rel rs)\<^sup>*"
proof (induction fuel arbitrary: i)
  case 0
  then show ?case by simp
next
  case (Suc fuel)
  show ?case
  proof (cases "i = a")
    case False
    with Suc.prems obtain p where "parent_of rs i = Some p" "ancestor_walk rs a fuel (Some p)"
      by (cases "parent_of rs i") auto
    with Suc.IH show ?thesis by (auto simp: parent_of_iff intro: converse_rtrancl_into_rtrancl)
  qed simp
qed

lemma ancestor_walk_complete:
  assumes "forest_ok rs"
  shows "(i, a) \<in> (parent_rel rs)\<^sup>* \<Longrightarrow> card (up rs i) \<le> Suc fuel \<Longrightarrow> ancestor_walk rs a fuel (Some i)"
proof (induction fuel arbitrary: i)
  case 0
  then have "card (up rs i) \<le> 1" by simp
  moreover have "{i, a} \<subseteq> up rs i" using 0 by auto
  ultimately have "card {i, a} \<le> 1" using up_finite [OF assms] card_mono order_trans by metis
  then show ?case by (cases "i = a") auto
next
  case (Suc fuel)
  show ?case
  proof (cases "i = a")
    case False
    with Suc.prems obtain p where p: "(i, p) \<in> parent_rel rs" "(p, a) \<in> (parent_rel rs)\<^sup>*"
      by (meson converse_rtranclE)
    from up_step [OF assms p(1)] Suc.prems have "card (up rs p) \<le> Suc fuel" by simp
    with p Suc.IH show ?thesis by (simp flip: parent_of_iff)
  qed simp
qed

lemma is_ancestor_iff:
  "forest_ok (st_regions s) \<Longrightarrow> is_ancestor s a i \<longleftrightarrow> (i, a) \<in> (parent_rel (st_regions s))\<^sup>*"
  unfolding is_ancestor_def
  by (blast intro: ancestor_walk_sound ancestor_walk_complete up_card)

section \<open>descendants\<close>

lemma push_children_props:
  assumes "distinct out"
  shows "distinct (push_children rs p out)"
    and "set (push_children rs p out) = set out \<union> {rg_id r | r. r \<in> set rs \<and> rg_parent r = Some p}"
    and "\<exists>new. push_children rs p out = out @ new"
proof -
  show "distinct (push_children rs p out)"
    using assms by (induction rs p out rule: push_children.induct) auto
  show "set (push_children rs p out) = set out \<union> {rg_id r | r. r \<in> set rs \<and> rg_parent r = Some p}"
    by (induction rs p out rule: push_children.induct) auto
  show "\<exists>new. push_children rs p out = out @ new"
  proof (induction rs p out rule: push_children.induct)
    case (2 r rs p out)
    then show ?case by (cases "rg_parent r = Some p \<and> rg_id r \<notin> set out") auto
  qed auto
qed

definition kids :: "region list \<Rightarrow> region_id \<Rightarrow> region_id set" where
  "kids rs p = {rg_id r | r. r \<in> set rs \<and> rg_parent r = Some p}"

lemma kids_iff: "ids_ok rs \<Longrightarrow> k \<in> kids rs p \<longleftrightarrow> (k, p) \<in> parent_rel rs"
proof -
  assume ids: "ids_ok rs"
  show ?thesis
  proof
    assume "k \<in> kids rs p"
    then show "(k, p) \<in> parent_rel rs"
      using ids by (auto simp: kids_def parent_rel_iff ids_ok_def in_set_conv_nth)
  next
    assume "(k, p) \<in> parent_rel rs"
    then have k: "k < length rs" "rg_parent (rs ! k) = Some p" by (simp_all add: parent_rel_iff)
    with ids have "rg_id (rs ! k) = k" by (simp add: ids_ok_def)
    with k show "k \<in> kids rs p" unfolding kids_def by (metis (mono_tags, lifting) mem_Collect_eq nth_mem)
  qed
qed

lemma descend_result:
  assumes "distinct out" and "set out \<subseteq> insert i (rg_id ` set rs)"
    and "\<forall>k < at. kids rs (out ! k) \<subseteq> set out" and "at \<le> length out"
    and "Suc (length rs) \<le> fuel + at"
    and "\<forall>x \<in> set out. (x, i) \<in> R\<^sup>*" and "\<And>k p. k \<in> kids rs p \<Longrightarrow> (k, p) \<in> R" and "i \<in> set out"
  shows "\<exists>res. descend fuel rs at out = res \<and> i \<in> set res \<and> distinct res \<and>
      (\<forall>x \<in> set res. (x, i) \<in> R\<^sup>*) \<and> (\<forall>x \<in> set res. kids rs x \<subseteq> set res)"
  using assms
proof (induction fuel arbitrary: at out)
  case 0
  have "length out \<le> Suc (length rs)"
  proof -
    have "length out = card (set out)" using 0(1) by (simp add: distinct_card)
    also have "\<dots> \<le> card (insert i (rg_id ` set rs))" by (rule card_mono) (use 0(2) in auto)
    also have "\<dots> \<le> Suc (card (rg_id ` set rs))" by (simp add: card_insert_if)
    also have "\<dots> \<le> Suc (length rs)"
      using card_image_le [of "set rs" rg_id] card_length [of rs] by simp
    finally show ?thesis .
  qed
  with 0(4,5) have at: "at = length out" by simp
  have "\<forall>x \<in> set out. kids rs x \<subseteq> set out"
    using 0(3) unfolding at by (metis in_set_conv_nth)
  with 0(1,6,8) show ?case by simp
next
  case (Suc fuel)
  show ?case
  proof (cases "at < length out")
    case False
    with Suc.prems(4) have at: "at = length out" by simp
    have "\<forall>x \<in> set out. kids rs x \<subseteq> set out"
      using Suc.prems(3) unfolding at by (metis in_set_conv_nth)
    with False Suc.prems(1,6,8) show ?thesis by simp
  next
    case True
    let ?out' = "push_children rs (out ! at) out"
    note pc = push_children_props [OF Suc.prems(1), of rs "out ! at"]
    obtain new where new: "?out' = out @ new" using pc(3) by blast
    have set': "set ?out' = set out \<union> kids rs (out ! at)" using pc(2) by (simp add: kids_def)
    have "\<exists>res. descend fuel rs (Suc at) ?out' = res \<and> i \<in> set res \<and> distinct res \<and>
      (\<forall>x \<in> set res. (x, i) \<in> R\<^sup>*) \<and> (\<forall>x \<in> set res. kids rs x \<subseteq> set res)"
    proof (rule Suc.IH)
      show "distinct ?out'" by (rule pc(1))
      show "set ?out' \<subseteq> insert i (rg_id ` set rs)"
        using Suc.prems(2) by (auto simp: set' kids_def)
      show "\<forall>k < Suc at. kids rs (?out' ! k) \<subseteq> set ?out'"
      proof (intro allI impI)
        fix k assume k: "k < Suc at"
        then have nth: "?out' ! k = out ! k" using True by (simp add: new nth_append)
        show "kids rs (?out' ! k) \<subseteq> set ?out'"
          unfolding nth using Suc.prems(3) k set' by (cases "k = at") (auto simp: less_Suc_eq)
      qed
      show "Suc at \<le> length ?out'" using True by (simp add: new)
      show "Suc (length rs) \<le> fuel + Suc at" using Suc.prems(5) by simp
      show "\<forall>x \<in> set ?out'. (x, i) \<in> R\<^sup>*"
      proof
        fix x assume "x \<in> set ?out'"
        then consider "x \<in> set out" | "(x, out ! at) \<in> R" using Suc.prems(7) by (auto simp: set')
        then show "(x, i) \<in> R\<^sup>*"
          using Suc.prems(6) True by cases (auto intro: converse_rtrancl_into_rtrancl)
      qed
    qed (use Suc.prems set' in auto)
    with True show ?thesis by simp
  qed
qed

lemma descendants_props:
  assumes "ids_ok (st_regions s)"
  shows "set (descendants s i) = {x. (x, i) \<in> (parent_rel (st_regions s))\<^sup>*}"
    and "distinct (descendants s i)"
proof -
  let ?R = "parent_rel (st_regions s)" and ?res = "descendants s i"
  have "\<exists>res. descend (Suc (length (st_regions s))) (st_regions s) 0 [i] = res \<and> i \<in> set res \<and>
      distinct res \<and> (\<forall>x \<in> set res. (x, i) \<in> ?R\<^sup>*) \<and>
      (\<forall>x \<in> set res. kids (st_regions s) x \<subseteq> set res)"
    by (rule descend_result) (simp_all add: kids_iff [OF assms])
  then have i: "i \<in> set ?res" and d: "distinct ?res" and snd: "\<forall>x \<in> set ?res. (x, i) \<in> ?R\<^sup>*"
    and cl: "\<forall>x \<in> set ?res. kids (st_regions s) x \<subseteq> set ?res"
    by (auto simp: descendants_def)
  show "distinct ?res" by (rule d)
  have "x \<in> set ?res" if "(x, i) \<in> ?R\<^sup>*" for x
    using that
  proof (induction rule: converse_rtrancl_induct)
    case base
    then show ?case by (rule i)
  next
    case (step y z)
    with cl show ?case by (auto simp flip: kids_iff [OF assms])
  qed
  with snd show "set ?res = {x. (x, i) \<in> ?R\<^sup>*}" by auto
qed

section \<open>assert_forest\<close>

lemma chain_check_rejects:
  "(cur, self) \<in> (parent_rel rs)\<^sup>* \<Longrightarrow> chain_check rs self fuel (Some cur) \<noteq> None"
proof (induction fuel arbitrary: cur)
  case 0
  then show ?case by simp
next
  case (Suc fuel)
  show ?case
  proof (cases "cur = self")
    case False
    with Suc.prems obtain p where "(cur, p) \<in> parent_rel rs" "(p, self) \<in> (parent_rel rs)\<^sup>*"
      by (meson converse_rtranclE)
    with Suc.IH False show ?thesis
      by (auto simp: parent_rel_iff get_at_def)
  qed simp
qed

lemma chain_check_accepts:
  assumes "forest_ok rs"
  shows "(self, cur) \<in> (parent_rel rs)\<^sup>+ \<Longrightarrow> cur < length rs \<Longrightarrow> card (up rs cur) \<le> fuel \<Longrightarrow>
     chain_check rs self fuel (Some cur) = None"
proof (induction fuel arbitrary: cur)
  case 0
  then show ?case using up_finite [OF assms, of cur] by auto
next
  case (Suc fuel)
  have "cur \<noteq> self" using Suc.prems(1) forest_acyclic [OF assms] by auto
  moreover have "chain_check rs self fuel (rg_parent (rs ! cur)) = None"
  proof (cases "rg_parent (rs ! cur)")
    case (Some p)
    with Suc.prems(2) have p: "(cur, p) \<in> parent_rel rs" by (simp add: parent_rel_iff)
    from Suc.prems(1) p have "(self, p) \<in> (parent_rel rs)\<^sup>+" by (rule trancl_into_trancl)
    moreover have "p < length rs" by (rule forest_range [OF assms p])
    moreover from up_step [OF assms p] Suc.prems(3) have "card (up rs p) \<le> fuel" by simp
    ultimately show ?thesis unfolding Some by (rule Suc.IH)
  qed simp
  ultimately show ?case using Suc.prems(2) by (simp add: get_at_def)
qed

lemma region_checks_iff:
  assumes "ids_ok rs"
  shows "(\<forall>r \<in> set rs. region_check rs r = None) \<longleftrightarrow> forest_ok rs"
proof
  assume ok: "\<forall>r \<in> set rs. region_check rs r = None"
  have range: "p < length rs" if "(i, p) \<in> parent_rel rs" for i p
  proof -
    from that have i: "i < length rs" "rg_parent (rs ! i) = Some p" by (simp_all add: parent_rel_iff)
    with ok have "region_check rs (rs ! i) = None" by simp
    with i show ?thesis by (simp add: region_check_def split: if_splits)
  qed
  have "(i, i) \<notin> (parent_rel rs)\<^sup>+" for i
  proof
    assume "(i, i) \<in> (parent_rel rs)\<^sup>+"
    then obtain p where p: "(i, p) \<in> parent_rel rs" "(p, i) \<in> (parent_rel rs)\<^sup>*" by (meson tranclD)
    then have i: "i < length rs" "rg_parent (rs ! i) = Some p" by (simp_all add: parent_rel_iff)
    then have "region_check rs (rs ! i) \<noteq> None"
      using chain_check_rejects [OF p(2)] assms by (auto simp: region_check_def ids_ok_def)
    with ok i show False by simp
  qed
  with range show "forest_ok rs" by (auto simp: forest_ok_def acyclic_def)
next
  assume f: "forest_ok rs"
  show "\<forall>r \<in> set rs. region_check rs r = None"
  proof
    fix r assume "r \<in> set rs"
    then obtain i where i: "i < length rs" "r = rs ! i" by (auto simp: in_set_conv_nth)
    show "region_check rs r = None"
    proof (cases "rg_parent r")
      case (Some p)
      with i have p: "(i, p) \<in> parent_rel rs" by (simp add: parent_rel_iff)
      then have "p < length rs" by (rule forest_range [OF f])
      with f p i assms Some show ?thesis
        by (auto simp: region_check_def ids_ok_def intro!: chain_check_accepts up_card_in)
    qed (simp add: region_check_def)
  qed
qed

lemma assert_forest_iff: "ids_ok (st_regions s) \<Longrightarrow> assert_forest s = None \<longleftrightarrow> forest_ok (st_regions s)"
proof -
  assume ids: "ids_ok (st_regions s)"
  have "assert_forest s = None \<longleftrightarrow> (\<forall>r \<in> set (st_regions s). region_check (st_regions s) r = None)"
    by (auto simp: assert_forest_def find_None_iff_all split: option.splits dest!: find_SomeD)
  with region_checks_iff [OF ids] show ?thesis by simp
qed

section \<open>Adoption\<close>

lemma parent_rel_adopt:
  "child < length (st_regions s) \<Longrightarrow>
     parent_rel (st_regions (adopt s parent child)) =
       {(i, p). (i, p) \<in> parent_rel (st_regions s) \<and> i \<noteq> child} \<union> {(child, parent)}"
  by (auto simp: parent_rel_iff adopt_def nth_modify_at split: if_splits)

lemma ids_adopt: "ids_ok (st_regions (adopt s p c)) = ids_ok (st_regions s)"
  by (auto simp: ids_ok_def adopt_def nth_modify_at)

lemma forest_adopt:
  assumes f: "forest_ok (st_regions s)" and child: "child < length (st_regions s)"
    and par: "parent < length (st_regions s)"
    and fresh: "parent_of (st_regions s) child \<in> {None, Some parent}"
  shows "forest_ok (st_regions (adopt s parent child)) \<longleftrightarrow> \<not> is_ancestor s child parent"
proof -
  let ?R = "parent_rel (st_regions s)"
  have R': "parent_rel (st_regions (adopt s parent child)) = insert (child, parent) ?R"
    using fresh parent_rel_adopt [OF child] by (auto simp: parent_of_iff) (auto simp: parent_rel_def)
  have "acyclic (insert (child, parent) ?R) \<longleftrightarrow> (parent, child) \<notin> ?R\<^sup>*"
    using f by (simp add: acyclic_insert forest_ok_def)
  moreover have "\<forall>(i, p) \<in> insert (child, parent) ?R. p < length (st_regions (adopt s parent child))"
    using f par by (auto simp: adopt_def forest_ok_def)
  ultimately show ?thesis by (auto simp: forest_ok_def R' is_ancestor_iff [OF f])
qed


section \<open>Properties\<close>

text \<open>Two regions for the witnesses: \<open>b\<close> owned by \<open>a\<close>, both suspended, below the program's root.\<close>

definition two_regions :: "nat store" where
  "two_regions =
     (let (a, s1) = create store_new None Arena None \<lparr>span_start = 0, span_end = 0\<rparr>;
          (b, s2) = create s1 None Rc None \<lparr>span_start = 0, span_end = 0\<rparr>
      in adopt s2 a b)"

lemma ids_create:
  "ids_ok (st_regions s) \<Longrightarrow> ids_ok (st_regions (snd (create s nm strat cap sp)))"
  by (auto simp: create_def ids_ok_def nth_append less_Suc_eq Let_def)

lemma two_regions_facts:
  "ids_ok (st_regions two_regions)" "assert_forest two_regions = None"
  "length (st_regions two_regions) = 3" "parent_of (st_regions two_regions) 1 = None"
  "parent_of (st_regions two_regions) 2 = Some 1" "is_ancestor two_regions 1 2"
  "state_of two_regions 1 = Some RegSuspended" "\<not> is_ancestor two_regions 1 0"
  by code_simp+

text \<open>C7: The three walks over the parent edges are exact. \<open>assert_forest\<close> accepts a store exactly
  when every parent exists and no region is its own ancestor (its step bound neither rejects a forest
  nor lets a cycle pass); \<open>descendants\<close> lists, without repetition, exactly the regions whose chain of
  owners reaches the start; and on a store that passes the assertion \<open>is_ancestor\<close> agrees with it.\<close>

theorem forest_walks_exact:
  assumes "ids_ok (st_regions s)"
  shows "(assert_forest s = None \<longleftrightarrow> forest_ok (st_regions s)) \<and>
     distinct (descendants s i) \<and>
     set (descendants s i) = {x. (x, i) \<in> (parent_rel (st_regions s))\<^sup>*} \<and>
     (assert_forest s = None \<longrightarrow> (\<forall>a. is_ancestor s a i \<longleftrightarrow> i \<in> set (descendants s a)))"
  using assert_forest_iff [OF assms] descendants_props [OF assms] is_ancestor_iff by blast

theorem forest_walks_exact_witness:
  "ids_ok (st_regions two_regions) \<and>
     (assert_forest two_regions = None \<longleftrightarrow> forest_ok (st_regions two_regions)) \<and>
     set (descendants two_regions 1) = {x. (x, 1) \<in> (parent_rel (st_regions two_regions))\<^sup>*}"
  using forest_walks_exact [OF two_regions_facts(1)] two_regions_facts(1) by blast

text \<open>An owning edge to a region that had no owner (or the same one) keeps the graph a forest if
  and only if the child is not the parent itself or one of its ancestors.\<close>

theorem adopt_keeps_forest_iff:
  assumes "ids_ok (st_regions s)" and "assert_forest s = None"
    and "child < length (st_regions s)" and "parent < length (st_regions s)"
    and "parent_of (st_regions s) child \<in> {None, Some parent}"
  shows "assert_forest (adopt s parent child) = None \<longleftrightarrow> \<not> is_ancestor s child parent"
  using forest_adopt [of s child parent] assms by (simp add: assert_forest_iff ids_adopt)

theorem adopt_keeps_forest_iff_witness:
  "assert_forest two_regions = None \<and> assert_forest (adopt two_regions 0 1) = None"
  using adopt_keeps_forest_iff [OF two_regions_facts(1,2), of 1 0] two_regions_facts by auto

text \<open>C30: The edge table does not look at ancestry: storing, inside a region, a reference to an ownerless
  region that (transitively) owns it is classified as a legal owning edge, and the store that results
  fails the forest assertion. The machine records the broken forest instead of refusing the edge.\<close>

theorem check_edges_ancestor_breaks_forest:
  assumes "ids_ok (st_regions s)" and "assert_forest s = None"
    and "parent < length (st_regions s)" and "parent \<noteq> child" and "is_ancestor s child parent"
    and "state_of s child = Some st" and "st \<noteq> RegFrozen"
    and "parent_of (st_regions s) child = None"
  shows "classify_edge s (Some parent) (RefRegion child) = EdgeIso child \<and>
     (\<exists>s' e. check_edges s None (Some parent) [RefRegion child] = (None, s', Some e) \<and>
        assert_forest s' = Some e)"
proof -
  have child: "child < length (st_regions s)"
    using assms(6) by (auto simp: state_of_def region_of_def)
  have "assert_forest (adopt s parent child) \<noteq> None"
    using forest_adopt [of s child parent] assms child by (simp add: assert_forest_iff ids_adopt)
  then obtain e where e: "assert_forest (adopt s parent child) = Some e" by auto
  have c: "classify_edge s (Some parent) (RefRegion child) = EdgeIso child"
    using assms by (simp add: classify_edge_def edge_target_def)
  with e show ?thesis by (simp add: record_forest_def Let_def)
qed

theorem check_edges_ancestor_breaks_forest_witness:
  "classify_edge two_regions (Some 2) (RefRegion 1) = EdgeIso 1"
  using check_edges_ancestor_breaks_forest [OF two_regions_facts(1,2), of 2 1 RegSuspended]
    two_regions_facts by simp

end
