(* ===== verification/Pools.thy ===== *)
theory Pools
  imports Forest
begin

text \<open>
  Pools, generational handles and \<open>shared\<close> cells: the operations of the second half of
  \<open>src/src/eval/region.rs\<close> (\<open>Store::new_pool\<close> to \<open>Store::live_cells\<close>). Slot generations and
  reference counts are \<open>u32\<close>; \<open>+= 1\<close> wraps, which is what the release profile computes.
\<close>

section \<open>Pools\<close>

definition new_pool :: "'c store \<Rightarrow> string \<Rightarrow> cap_breach + pool_id \<times> 'c store" where
  "new_pool s elem =
     (case charge s (container_bytes 0) of
        Inl e \<Rightarrow> Inl e
      | Inr (region, s') \<Rightarrow>
          let i = length (st_pools s') in
          Inr (i, s'\<lparr>st_pools := st_pools s' @
             [\<lparr>po_id = i, po_region = region, po_elem = elem, po_slots = []\<rparr>]\<rparr>))"

definition set_slots :: "'c store \<Rightarrow> pool_id \<Rightarrow> ('c pool_slot list \<Rightarrow> 'c pool_slot list) \<Rightarrow> 'c store" where
  "set_slots s p f = s\<lparr>st_pools := modify_at p (\<lambda>po. po\<lparr>po_slots := f (po_slots po)\<rparr>) (st_pools s)\<rparr>"

definition reserve :: "'c store \<Rightarrow> pool_id \<Rightarrow> (nat \<times> generation) option \<times> 'c store" where
  "reserve s p =
     (case get_at (st_pools s) p of
        None \<Rightarrow> (None, s)
      | Some po \<Rightarrow>
          (case position (\<lambda>sl. ps_life sl = SlotFree) (po_slots po) of
             Some i \<Rightarrow>
               (Some (i, ps_generation (po_slots po ! i)),
                set_slots s p (modify_at i (\<lambda>sl. sl\<lparr>ps_life := SlotReserved, ps_value := VUnit\<rparr>)))
           | None \<Rightarrow>
               (Some (length (po_slots po), 0),
                set_slots s p (\<lambda>sls. sls @
                  [\<lparr>ps_generation = 0, ps_life = SlotReserved, ps_value = VUnit\<rparr>]))))"

definition slot_at :: "'c store \<Rightarrow> pool_id \<Rightarrow> nat \<Rightarrow> 'c pool_slot option" where
  "slot_at s p i = Option.bind (get_at (st_pools s) p) (\<lambda>po. get_at (po_slots po) i)"

definition slot :: "'c store \<Rightarrow> pool_id \<Rightarrow> nat \<Rightarrow> generation \<Rightarrow> 'c pool_slot option" where
  "slot s p i g =
     (case slot_at s p i of
        None \<Rightarrow> None
      | Some sl \<Rightarrow> if ps_generation sl = g \<and> ps_life sl \<noteq> SlotFree then Some sl else None)"

definition init_slot :: "'c store \<Rightarrow> pool_id \<Rightarrow> nat \<Rightarrow> generation \<Rightarrow> 'c val \<Rightarrow> bool \<times> 'c store" where
  "init_slot s p i g v =
     (case slot_at s p i of
        None \<Rightarrow> (False, s)
      | Some sl \<Rightarrow>
          if ps_generation sl \<noteq> g \<or> ps_life sl = SlotFree then (False, s)
          else (True, set_slots s p (modify_at i (\<lambda>sl. sl\<lparr>ps_life := SlotAlive, ps_value := v\<rparr>))))"

definition remove_slot :: "'c store \<Rightarrow> pool_id \<Rightarrow> nat \<Rightarrow> generation \<Rightarrow> bool \<times> 'c store" where
  "remove_slot s p i g =
     (case slot_at s p i of
        None \<Rightarrow> (False, s)
      | Some sl \<Rightarrow>
          if ps_generation sl \<noteq> g \<or> ps_life sl = SlotFree then (False, s)
          else (True, set_slots s p (modify_at i free_slot)))"

definition pool_region :: "'c store \<Rightarrow> pool_id \<Rightarrow> region_id option" where
  "pool_region s p = map_option po_region (get_at (st_pools s) p)"

section \<open>Cells\<close>

definition new_cell :: "'c store \<Rightarrow> 'c val \<Rightarrow> span \<Rightarrow> cell_id \<times> 'c store" where
  "new_cell s v sp =
     (length (st_cells s), s\<lparr>st_cells := st_cells s @
        [\<lparr>ce_strong = 1, ce_weak = 0, ce_value = v, ce_edges = [], ce_dead = False, ce_span = sp\<rparr>]\<rparr>)"

definition set_cell :: "'c store \<Rightarrow> cell_id \<Rightarrow> ('c cell \<Rightarrow> 'c cell) \<Rightarrow> 'c store" where
  "set_cell s c f = s\<lparr>st_cells := modify_at c f (st_cells s)\<rparr>"

definition retain :: "'c store \<Rightarrow> cell_id \<Rightarrow> bool \<times> 'c store" where
  "retain s c =
     (case get_at (st_cells s) c of
        None \<Rightarrow> (False, s)
      | Some ce \<Rightarrow>
          if \<not> ce_dead ce then (True, set_cell s c (\<lambda>ce. ce\<lparr>ce_strong := ce_strong ce + 1\<rparr>))
          else (False, s))"

definition sat_pred :: "32 word \<Rightarrow> 32 word" where
  "sat_pred w = (if w = 0 then 0 else w - 1)"

definition release :: "'c store \<Rightarrow> cell_id \<Rightarrow> bool \<times> 'c store" where
  "release s c =
     (case get_at (st_cells s) c of
        None \<Rightarrow> (False, s)
      | Some ce \<Rightarrow>
          let n = sat_pred (ce_strong ce) in
          if n = 0 \<and> \<not> ce_dead ce
          then (True, set_cell s c
             (\<lambda>ce. ce\<lparr>ce_strong := n, ce_dead := True, ce_value := VUnit, ce_edges := []\<rparr>))
          else (False, set_cell s c (\<lambda>ce. ce\<lparr>ce_strong := n\<rparr>)))"

definition downgrade :: "'c store \<Rightarrow> cell_id \<Rightarrow> bool \<times> 'c store" where
  "downgrade s c =
     (case get_at (st_cells s) c of
        None \<Rightarrow> (False, s)
      | Some ce \<Rightarrow> (True, set_cell s c (\<lambda>ce. ce\<lparr>ce_weak := ce_weak ce + 1\<rparr>)))"

definition drop_weak :: "'c store \<Rightarrow> cell_id \<Rightarrow> 'c store" where
  "drop_weak s c = set_cell s c (\<lambda>ce. ce\<lparr>ce_weak := sat_pred (ce_weak ce)\<rparr>)"

definition upgrade :: "'c store \<Rightarrow> cell_id \<Rightarrow> bool \<times> 'c store" where
  "upgrade s c =
     (case get_at (st_cells s) c of
        None \<Rightarrow> (False, s)
      | Some ce \<Rightarrow>
          if \<not> ce_dead ce \<and> ce_strong ce > 0
          then (True, set_cell s c (\<lambda>ce. ce\<lparr>ce_strong := ce_strong ce + 1\<rparr>))
          else (False, s))"

text \<open>The scan of one cell's strong edges: \<open>None\<close> when the source cell is met.\<close>

fun scan_edges :: "cell_id \<Rightarrow> cell_id list \<Rightarrow> cell_id list \<Rightarrow> cell_id list option" where
  "scan_edges from [] seen = Some seen"
| "scan_edges from (e # es) seen =
     (if e = from then None
      else scan_edges from es (if e \<in> set seen then seen else seen @ [e]))"

text \<open>The worklist of \<open>would_cycle\<close>. A worklist without repetitions over the edge targets of the store
  is at most as long as \<open>1\<close> plus the number of edges, which is the fuel given.\<close>

fun cycle_walk :: "nat \<Rightarrow> 'c cell list \<Rightarrow> cell_id \<Rightarrow> nat \<Rightarrow> cell_id list \<Rightarrow> bool" where
  "cycle_walk 0 cs from at seen = False"
| "cycle_walk (Suc fuel) cs from at seen =
     (if at < length seen then
        case get_at cs (seen ! at) of
          None \<Rightarrow> cycle_walk fuel cs from (Suc at) seen
        | Some ce \<Rightarrow>
            (case scan_edges from (ce_edges ce) seen of
               None \<Rightarrow> True
             | Some seen' \<Rightarrow> cycle_walk fuel cs from (Suc at) seen')
      else False)"

definition edge_count :: "'c cell list \<Rightarrow> nat" where
  "edge_count cs = length (concat (map ce_edges cs))"

definition would_cycle :: "'c store \<Rightarrow> cell_id \<Rightarrow> cell_id \<Rightarrow> bool" where
  "would_cycle s from to =
     (from = to \<or> cycle_walk (Suc (Suc (edge_count (st_cells s)))) (st_cells s) from 0 [to])"

definition add_strong_edge :: "'c store \<Rightarrow> cell_id \<Rightarrow> cell_id \<Rightarrow> 'c store" where
  "add_strong_edge s from to =
     set_cell s from (\<lambda>ce. if to \<in> set (ce_edges ce) then ce else ce\<lparr>ce_edges := ce_edges ce @ [to]\<rparr>)"

definition live_cells :: "'c store \<Rightarrow> cell_id list" where
  "live_cells s =
     filter (\<lambda>c. \<not> ce_dead (st_cells s ! c) \<and> ce_strong (st_cells s ! c) > 0)
       [0..<length (st_cells s)]"


section \<open>Handles as a finite map\<close>

text \<open>The contract of generational handles: a pool names a partial map from handles to slot contents.
  The laws are what the evaluator's handle operations rely on.\<close>

type_synonym handle_id = "pool_id \<times> nat \<times> generation"

locale handle_table =
  fixes contents :: "'s \<Rightarrow> handle_id \<Rightarrow> (slot_life \<times> 'v) option"
    and mk :: "'s \<Rightarrow> pool_id \<Rightarrow> (nat \<times> generation) option \<times> 's"
    and fill :: "'s \<Rightarrow> pool_id \<Rightarrow> nat \<Rightarrow> generation \<Rightarrow> 'v \<Rightarrow> bool \<times> 's"
    and del :: "'s \<Rightarrow> pool_id \<Rightarrow> nat \<Rightarrow> generation \<Rightarrow> bool \<times> 's"
    and blank :: 'v
  assumes mk_new: "mk s p = (Some (i, g), s') \<Longrightarrow>
      contents s (p, i, g) = None \<and> contents s' = (contents s)((p, i, g) \<mapsto> (SlotReserved, blank))"
    and mk_none: "mk s p = (None, s') \<Longrightarrow> s' = s"
    and fill_iff: "fst (fill s p i g v) \<longleftrightarrow> contents s (p, i, g) \<noteq> None"
    and fill_new: "fst (fill s p i g v) \<Longrightarrow>
      contents (snd (fill s p i g v)) = (contents s)((p, i, g) \<mapsto> (SlotAlive, v))"
    and del_iff: "fst (del s p i g) \<longleftrightarrow> contents s (p, i, g) \<noteq> None"
    and del_new: "fst (del s p i g) \<Longrightarrow>
      contents (snd (del s p i g)) = (contents s)((p, i, g) := None)"
begin

lemma two_phase:
  "mk s p = (Some (i, g), s1) \<Longrightarrow>
     fst (fill s1 p i g v) \<and> contents (snd (fill s1 p i g v)) (p, i, g) = Some (SlotAlive, v)"
  using mk_new fill_iff fill_new by fastforce

lemma del_once: "fst (del s p i g) \<Longrightarrow> \<not> fst (del (snd (del s p i g)) p i g)"
  by (simp add: del_iff del_new)

lemma fill_after_del: "fst (del s p i g) \<Longrightarrow> \<not> fst (fill (snd (del s p i g)) p i g v)"
  by (simp add: fill_iff del_new)

lemma del_frame:
  "fst (del s p i g) \<Longrightarrow> h \<noteq> (p, i, g) \<Longrightarrow> contents (snd (del s p i g)) h = contents s h"
  by (simp add: del_new)

lemma mk_frame:
  "mk s p = (Some h, s') \<Longrightarrow> k \<noteq> (p, h) \<Longrightarrow> contents s' k = contents s k"
  using mk_new by (cases h) fastforce

end

definition handle_contents :: "'c store \<Rightarrow> handle_id \<Rightarrow> (slot_life \<times> 'c val) option" where
  "handle_contents s h =
     (case h of (p, i, g) \<Rightarrow> map_option (\<lambda>sl. (ps_life sl, ps_value sl)) (slot s p i g))"

lemma slot_at_set_slots:
  "slot_at (set_slots s p f) q j =
     (if q = p then Option.bind (get_at (st_pools s) p) (\<lambda>po. get_at (f (po_slots po)) j)
      else slot_at s q j)"
  unfolding slot_at_def set_slots_def
  by (cases "get_at (st_pools s) p") (auto simp: get_at_modify_at)

lemma slot_at_modify:
  "slot_at (set_slots s p (modify_at i f)) q j =
     (if q = p \<and> j = i then map_option f (slot_at s p i) else slot_at s q j)"
  unfolding slot_at_set_slots unfolding slot_at_def get_at_modify_at
  by (cases "get_at (st_pools s) p") auto

lemma slot_at_append:
  "get_at (st_pools s) p = Some po \<Longrightarrow>
   slot_at (set_slots s p (\<lambda>sls. sls @ [sl])) q j =
     (if q = p \<and> j = length (po_slots po) then Some sl else slot_at s q j)"
proof -
  assume po: "get_at (st_pools s) p = Some po"
  have "get_at (po_slots po @ [sl]) j = (if j = length (po_slots po) then Some sl else slot_at s p j)"
    unfolding slot_at_def po by (simp add: get_at_append1)
  then show ?thesis unfolding slot_at_set_slots po by simp
qed

lemma free_slot_simps [simp]:
  "ps_life (free_slot sl) = SlotFree" "ps_generation (free_slot sl) = ps_generation sl + 1"
  "ps_value (free_slot sl) = VUnit"
  by (simp_all add: free_slot_def)

lemma reserve_contents:
  assumes "reserve s p = (Some (i, g), s')"
  shows "handle_contents s (p, i, g) = None \<and>
     handle_contents s' = (handle_contents s)((p, i, g) \<mapsto> (SlotReserved, VUnit))"
proof -
  from assms obtain po where po: "get_at (st_pools s) p = Some po"
    by (auto simp: reserve_def split: option.splits)
  show ?thesis
  proof (cases "position (\<lambda>sl. ps_life sl = SlotFree) (po_slots po)")
    case None
    with assms po have eq: "i = length (po_slots po)" "g = 0"
      "s' = set_slots s p (\<lambda>sls. sls @
         [\<lparr>ps_generation = 0, ps_life = SlotReserved, ps_value = VUnit\<rparr>])"
      by (auto simp: reserve_def)
    have none: "slot_at s p i = None" unfolding slot_at_def po eq by simp
    show ?thesis
      using none by (auto simp: handle_contents_def slot_def slot_at_append [OF po] eq fun_eq_iff
          split: option.splits)
  next
    case (Some k)
    with assms po have eq: "i = k" "g = ps_generation (po_slots po ! k)"
      "s' = set_slots s p (modify_at k (\<lambda>sl. sl\<lparr>ps_life := SlotReserved, ps_value := VUnit\<rparr>))"
      by (auto simp: reserve_def)
    from position_Some [OF Some] po have at: "slot_at s p k = Some (po_slots po ! k)"
      and fr: "ps_life (po_slots po ! k) = SlotFree"
      by (auto simp: slot_at_def)
    show ?thesis
      using at fr by (auto simp: handle_contents_def slot_def slot_at_modify eq fun_eq_iff
          split: option.splits)
  qed
qed

lemma init_slot_contents:
  "fst (init_slot s p i g v) \<longleftrightarrow> handle_contents s (p, i, g) \<noteq> None"
  "fst (init_slot s p i g v) \<Longrightarrow>
     handle_contents (snd (init_slot s p i g v)) = (handle_contents s)((p, i, g) \<mapsto> (SlotAlive, v))"
  by (auto simp: init_slot_def handle_contents_def slot_def slot_at_modify fun_eq_iff
      split: option.splits if_splits)

lemma remove_slot_contents:
  "fst (remove_slot s p i g) \<longleftrightarrow> handle_contents s (p, i, g) \<noteq> None"
  "fst (remove_slot s p i g) \<Longrightarrow>
     handle_contents (snd (remove_slot s p i g)) = (handle_contents s)((p, i, g) := None)"
  by (auto simp: remove_slot_def handle_contents_def slot_def slot_at_modify fun_eq_iff
      split: option.splits if_splits)

lemma reserve_none: "reserve s p = (None, s') \<Longrightarrow> s' = s"
  by (auto simp: reserve_def split: option.splits)

interpretation handles: handle_table handle_contents reserve init_slot remove_slot VUnit
  by unfold_locales
    (erule reserve_contents reserve_none
      | rule init_slot_contents remove_slot_contents | assumption)+


section \<open>Freeing a region ends its handles\<close>

lemma slot_at_free:
  "slot_at (snd (free s r)) p i =
     (if pool_region s p \<in> Some ` set (fst (free s r)) then map_option free_slot (slot_at s p i)
      else slot_at s p i)"
proof (cases "get_at (st_pools s) p")
  case None
  then show ?thesis
    by (auto simp: slot_at_def free_def pool_region_def split: prod.splits)
next
  case (Some po)
  have m: "get_at (map f xs) p = map_option f (get_at xs p)" for f :: "'a pool \<Rightarrow> 'a pool" and xs
    by (simp add: get_at_def)
  have g: "get_at (map free_slot sls) i = map_option free_slot (get_at sls i)"
    for sls :: "'a pool_slot list"
    by (simp add: get_at_def)
  show ?thesis
    using Some by (auto simp: slot_at_def free_def pool_region_def m g split: prod.splits)
qed

lemma handle_contents_free:
  "handle_contents (snd (free s r)) (p, i, g) =
     (if pool_region s p \<in> Some ` set (fst (free s r)) then None else handle_contents s (p, i, g))"
  by (auto simp: handle_contents_def slot_def slot_at_free split: option.splits)

section \<open>Stale handles stay stale\<close>

text \<open>A counter of \<open>u32\<close> that every operation advances by a known number of ticks. A value that was
  passed comes back only after the counter has gone all the way round.\<close>

locale generation_clock =
  fixes act :: "'o \<Rightarrow> 's \<Rightarrow> 's"
    and gen :: "'s \<Rightarrow> generation option"
    and ticks :: "'o \<Rightarrow> 's \<Rightarrow> nat"
  assumes gen_act: "gen s = Some g \<Longrightarrow> gen (act x s) = Some (g + of_nat (ticks x s))"
begin

primrec run_ticks :: "'o list \<Rightarrow> 's \<Rightarrow> nat" where
  "run_ticks [] s = 0"
| "run_ticks (x # xs) s = ticks x s + run_ticks xs (act x s)"

lemma gen_run: "gen s = Some g \<Longrightarrow> gen (fold act xs s) = Some (g + of_nat (run_ticks xs s))"
  by (induction xs arbitrary: s g) (auto simp: gen_act add.assoc)

lemma never_back:
  assumes "gen s = Some (g + 1)" and "run_ticks xs s < 2 ^ 32 - 1"
  shows "gen (fold act xs s) \<noteq> Some g"
proof
  assume "gen (fold act xs s) = Some g"
  with gen_run [OF assms(1)] have "g + 1 + of_nat (run_ticks xs s) = g" by simp
  then have "(of_nat (Suc (run_ticks xs s)) :: generation) = 0" by (simp add: algebra_simps)
  then have "(2::nat) ^ 32 dvd Suc (run_ticks xs s)" unfolding word_of_nat_eq_0_iff by simp
  then have "2 ^ 32 \<le> Suc (run_ticks xs s)" by (rule dvd_imp_le) simp
  with assms(2) show False by simp
qed

end

text \<open>The operations that touch pools, as data.\<close>

datatype 'c pool_op =
    DoNewPool string | DoReserve pool_id | DoInit pool_id nat generation "'c val"
  | DoRemove pool_id nat generation | DoFree region_id

fun pool_act :: "'c pool_op \<Rightarrow> 'c store \<Rightarrow> 'c store" where
  "pool_act (DoNewPool e) s = (case new_pool s e of Inl _ \<Rightarrow> s | Inr (_, s') \<Rightarrow> s')"
| "pool_act (DoReserve p) s = snd (reserve s p)"
| "pool_act (DoInit p i g v) s = snd (init_slot s p i g v)"
| "pool_act (DoRemove p i g) s = snd (remove_slot s p i g)"
| "pool_act (DoFree r) s = snd (free s r)"

text \<open>How often an operation bumps the generation of slot \<open>i\<close> of pool \<open>p\<close>: a removal that succeeds and
  the free of the pool's region.\<close>

fun bumps :: "pool_id \<Rightarrow> nat \<Rightarrow> 'c pool_op \<Rightarrow> 'c store \<Rightarrow> nat" where
  "bumps p i (DoRemove q j g) s = (if q = p \<and> j = i \<and> fst (remove_slot s q j g) then 1 else 0)"
| "bumps p i (DoFree r) s = (if pool_region s p \<in> Some ` set (fst (free s r)) then 1 else 0)"
| "bumps p i _ s = 0"

definition slot_generation :: "pool_id \<Rightarrow> nat \<Rightarrow> 'c store \<Rightarrow> generation option" where
  "slot_generation p i s = map_option ps_generation (slot_at s p i)"

lemma charge_into_parts:
  "charge_into s r b = Inr s' \<Longrightarrow> st_pools s' = st_pools s \<and> st_cells s' = st_cells s \<and> st_open s' = st_open s"
  by (auto simp: charge_into_def split: option.splits sum.splits)

lemma new_pool_slots:
  "new_pool s e = Inr (q, s') \<Longrightarrow> slot_at s p i = Some sl \<Longrightarrow> slot_at s' p i = Some sl"
  by (auto simp: new_pool_def charge_def slot_at_def Let_def nth_append bind_eq_Some_conv
      split: sum.splits prod.splits dest!: charge_into_parts)

lemma slot_generation_act:
  assumes "slot_generation p i s = Some g"
  shows "slot_generation p i (pool_act x s) = Some (g + of_nat (bumps p i x s))"
proof -
  from assms obtain sl where sl: "slot_at s p i = Some sl" "ps_generation sl = g"
    by (auto simp: slot_generation_def)
  show ?thesis
  proof (cases x)
    case (DoNewPool e)
    with sl show ?thesis
      by (auto simp: slot_generation_def split: sum.splits dest: new_pool_slots)
  next
    case (DoReserve q)
    show ?thesis
    proof (cases "get_at (st_pools s) q")
      case None
      with sl DoReserve show ?thesis by (auto simp: reserve_def slot_generation_def)
    next
      case (Some po)
      have "\<not> (p = q \<and> i = length (po_slots po))"
        using sl(1) unfolding slot_at_def by (auto simp: Some)
      with sl DoReserve Some slot_at_append [OF Some] show ?thesis
        by (auto simp: reserve_def slot_generation_def slot_at_modify split: option.splits)
    qed
  next
    case (DoInit q j h v)
    with sl show ?thesis
      by (auto simp: init_slot_def slot_generation_def slot_at_modify split: option.splits)
  next
    case (DoRemove q j h)
    with sl show ?thesis
      by (auto simp: remove_slot_def slot_generation_def slot_at_modify split: option.splits)
  next
    case (DoFree r)
    with sl show ?thesis by (auto simp: slot_generation_def slot_at_free)
  qed
qed

interpretation slot_clock: generation_clock pool_act "slot_generation p i" "bumps p i" for p i
  by unfold_locales (rule slot_generation_act)


section \<open>Strong cycles\<close>

definition cell_edges :: "'c cell list \<Rightarrow> (cell_id \<times> cell_id) set" where
  "cell_edges cs = {(a, b). \<exists>ce. get_at cs a = Some ce \<and> b \<in> set (ce_edges ce)}"

lemma cell_edges_iff: "(a, b) \<in> cell_edges cs \<longleftrightarrow> a < length cs \<and> b \<in> set (ce_edges (cs ! a))"
  by (auto simp: cell_edges_def)

lemma scan_edges_None: "scan_edges from es seen = None \<longleftrightarrow> from \<in> set es"
  by (induction "from" es seen rule: scan_edges.induct) auto

lemma scan_edges_Some:
  assumes "scan_edges from es seen = Some seen'"
  shows "set seen' = set seen \<union> set es \<and> (distinct seen \<longrightarrow> distinct seen') \<and> (\<exists>new. seen' = seen @ new)"
  using assms by (induction "from" es seen rule: scan_edges.induct) (fastforce split: if_splits)+

lemma cycle_walk_sound:
  "cycle_walk fuel cs from at seen \<Longrightarrow> \<forall>x \<in> set seen. (to, x) \<in> (cell_edges cs)\<^sup>* \<Longrightarrow>
     (to, from) \<in> (cell_edges cs)\<^sup>*"
proof (induction fuel arbitrary: at seen)
  case 0
  then show ?case by simp
next
  case (Suc fuel)
  then have at: "at < length seen" by (simp split: if_splits)
  show ?case
  proof (cases "get_at cs (seen ! at)")
    case None
    with Suc at show ?thesis by simp
  next
    case (Some ce)
    from Suc.prems(2) at have r: "(to, seen ! at) \<in> (cell_edges cs)\<^sup>*" by simp
    have e: "(to, y) \<in> (cell_edges cs)\<^sup>*" if "y \<in> set (ce_edges ce)" for y
      using r that Some by (auto simp: cell_edges_def intro: rtrancl_into_rtrancl)
    show ?thesis
    proof (cases "scan_edges from (ce_edges ce) seen")
      case None
      with e show ?thesis by (simp add: scan_edges_None)
    next
      case (Some seen')
      from scan_edges_Some [OF this] Suc.prems(2) e
      have "\<forall>x \<in> set seen'. (to, x) \<in> (cell_edges cs)\<^sup>*" by auto
      with Suc.IH Suc.prems(1) at Some \<open>get_at cs (seen ! at) = Some ce\<close> show ?thesis by simp
    qed
  qed
qed

lemma cycle_walk_complete:
  assumes "\<not> cycle_walk fuel cs from at seen" and "distinct seen" and "from \<notin> set seen"
    and "set seen \<subseteq> insert to (set (concat (map ce_edges cs)))" and "at \<le> length seen"
    and "\<forall>k < at. \<forall>y. (seen ! k, y) \<in> cell_edges cs \<longrightarrow> y \<in> set seen"
    and "Suc (Suc (edge_count cs)) \<le> fuel + at"
  shows "\<exists>C. set seen \<subseteq> C \<and> from \<notin> C \<and> (\<forall>(x, y) \<in> cell_edges cs. x \<in> C \<longrightarrow> y \<in> C)"
  using assms
proof (induction fuel arbitrary: at seen)
  case 0
  have "length seen = card (set seen)" using 0(2) by (simp add: distinct_card)
  also have "\<dots> \<le> card (insert to (set (concat (map ce_edges cs))))" by (rule card_mono) (use 0(4) in auto)
  also have "\<dots> \<le> Suc (edge_count cs)"
    using card_length [of "concat (map ce_edges cs)"] by (simp add: edge_count_def card_insert_if del: set_concat)
  finally show ?case using 0(5,7) by simp
next
  case (Suc fuel)
  show ?case
  proof (cases "at < length seen")
    case False
    with Suc.prems(5) have at: "at = length seen" by simp
    have "\<forall>x \<in> set seen. \<forall>y. (x, y) \<in> cell_edges cs \<longrightarrow> y \<in> set seen"
      using Suc.prems(6) unfolding at by (metis in_set_conv_nth)
    with Suc.prems(3) show ?thesis by (intro exI [of _ "set seen"]) auto
  next
    case True
    have closed: "\<forall>k < Suc at. \<forall>y. (sn ! k, y) \<in> cell_edges cs \<longrightarrow> y \<in> set sn"
      if "\<exists>new. sn = seen @ new" and "\<forall>y. (seen ! at, y) \<in> cell_edges cs \<longrightarrow> y \<in> set sn" for sn
      using that Suc.prems(6) True by (fastforce simp: nth_append less_Suc_eq)
    show ?thesis
    proof (cases "get_at cs (seen ! at)")
      case None
      then have "\<not> cycle_walk fuel cs from (Suc at) seen" using Suc.prems(1) True by simp
      moreover have "\<forall>k < Suc at. \<forall>y. (seen ! k, y) \<in> cell_edges cs \<longrightarrow> y \<in> set seen"
        by (rule closed) (use None in \<open>auto simp: cell_edges_iff\<close>)
      ultimately show ?thesis using Suc.IH [of "Suc at" seen] Suc.prems True by simp
    next
      case (Some ce)
      with Suc.prems(1) True obtain sn where sn: "scan_edges from (ce_edges ce) seen = Some sn"
        "\<not> cycle_walk fuel cs from (Suc at) sn"
        by (auto split: option.splits)
      have ce: "seen ! at < length cs" "cs ! (seen ! at) = ce" using Some by simp_all
      note sp = scan_edges_Some [OF sn(1)]
      have nf: "from \<notin> set (ce_edges ce)" using sn(1) scan_edges_None [of "from" "ce_edges ce" seen] by simp
      have "\<exists>C. set sn \<subseteq> C \<and> from \<notin> C \<and> (\<forall>(x, y) \<in> cell_edges cs. x \<in> C \<longrightarrow> y \<in> C)"
      proof (rule Suc.IH [OF sn(2)])
        show "set sn \<subseteq> insert to (set (concat (map ce_edges cs)))"
          using sp Suc.prems(4) ce by (auto intro!: bexI [of _ ce])
        show "\<forall>k < Suc at. \<forall>y. (sn ! k, y) \<in> cell_edges cs \<longrightarrow> y \<in> set sn"
          by (rule closed) (use sp ce in \<open>auto simp: cell_edges_iff\<close>)
      qed (use sp nf Suc.prems True in auto)
      with sp show ?thesis by auto
    qed
  qed
qed

lemma would_cycle_reach: "would_cycle s from to \<longleftrightarrow> (to, from) \<in> (cell_edges (st_cells s))\<^sup>*"
proof
  assume "would_cycle s from to"
  then show "(to, from) \<in> (cell_edges (st_cells s))\<^sup>*"
    by (auto simp: would_cycle_def simp del: cycle_walk.simps intro: cycle_walk_sound)
next
  assume r: "(to, from) \<in> (cell_edges (st_cells s))\<^sup>*"
  show "would_cycle s from to"
  proof (rule ccontr)
    assume n: "\<not> would_cycle s from to"
    define fuel where "fuel = Suc (Suc (edge_count (st_cells s)))"
    from n have w: "\<not> cycle_walk fuel (st_cells s) from 0 [to]" and ne: "from \<noteq> to"
      unfolding would_cycle_def fuel_def by blast+
    have "\<exists>C. set [to] \<subseteq> C \<and> from \<notin> C \<and> (\<forall>(x, y) \<in> cell_edges (st_cells s). x \<in> C \<longrightarrow> y \<in> C)"
      by (rule cycle_walk_complete [OF w, where to = to]) (use ne in \<open>simp_all add: fuel_def\<close>)
    then obtain C where C: "to \<in> C" "from \<notin> C" "\<And>x y. (x, y) \<in> cell_edges (st_cells s) \<Longrightarrow> x \<in> C \<Longrightarrow> y \<in> C"
      by auto
    from r C(1) have "from \<in> C" by (induction rule: rtrancl_induct) (auto intro: C(3))
    with C(2) show False by simp
  qed
qed

lemma cell_edges_add:
  "from < length (st_cells s) \<Longrightarrow>
     cell_edges (st_cells (add_strong_edge s from to)) = insert (from, to) (cell_edges (st_cells s))"
  by (auto simp: cell_edges_iff add_strong_edge_def set_cell_def nth_modify_at split: if_splits)

lemma acyclic_add_strong_edge:
  "from < length (st_cells s) \<Longrightarrow> acyclic (cell_edges (st_cells s)) \<Longrightarrow>
     acyclic (cell_edges (st_cells (add_strong_edge s from to))) \<longleftrightarrow> \<not> would_cycle s from to"
  by (simp add: cell_edges_add acyclic_insert would_cycle_reach)


section \<open>Reference counts\<close>

text \<open>A cell is dead exactly when its strong count is zero, and a dead cell holds neither payload nor
  edges. The upper bound excludes the one count whose increment wraps.\<close>

definition cell_ok :: "'c cell \<Rightarrow> bool" where
  "cell_ok ce \<longleftrightarrow> (ce_dead ce \<longleftrightarrow> ce_strong ce = 0) \<and> (ce_dead ce \<longrightarrow> ce_value ce = VUnit \<and> ce_edges ce = [])"

definition cells_ok :: "'c store \<Rightarrow> bool" where
  "cells_ok s \<longleftrightarrow> (\<forall>c < length (st_cells s). cell_ok (st_cells s ! c))"

datatype 'c cell_op =
    DoNewCell "'c val" span | DoRetain cell_id | DoRelease cell_id | DoDowngrade cell_id
  | DoDropWeak cell_id | DoUpgrade cell_id | DoEdge cell_id cell_id

fun cell_act :: "'c cell_op \<Rightarrow> 'c store \<Rightarrow> 'c store" where
  "cell_act (DoNewCell v sp) s = snd (new_cell s v sp)"
| "cell_act (DoRetain c) s = snd (retain s c)"
| "cell_act (DoRelease c) s = snd (release s c)"
| "cell_act (DoDowngrade c) s = snd (downgrade s c)"
| "cell_act (DoDropWeak c) s = drop_weak s c"
| "cell_act (DoUpgrade c) s = snd (upgrade s c)"
| "cell_act (DoEdge c d) s = add_strong_edge s c d"

text \<open>What the evaluator's guards ensure before each call: a count below its maximum, and no new edge
  out of a dead cell.\<close>

fun cell_guard :: "'c cell_op \<Rightarrow> 'c store \<Rightarrow> bool" where
  "cell_guard (DoRetain c) s = (c < length (st_cells s) \<longrightarrow> ce_strong (st_cells s ! c) \<noteq> - 1)"
| "cell_guard (DoUpgrade c) s = (c < length (st_cells s) \<longrightarrow> ce_strong (st_cells s ! c) \<noteq> - 1)"
| "cell_guard (DoEdge c d) s = (c < length (st_cells s) \<longrightarrow> \<not> ce_dead (st_cells s ! c))"
| "cell_guard _ s = True"

lemma cells_ok_set_cell:
  "cells_ok s \<Longrightarrow> (c < length (st_cells s) \<Longrightarrow> cell_ok (st_cells s ! c) \<Longrightarrow> cell_ok (f (st_cells s ! c)))
   \<Longrightarrow> cells_ok (set_cell s c f)"
  by (simp add: cells_ok_def set_cell_def nth_modify_at)

lemma succ_nonzero: "(w :: 32 word) \<noteq> - 1 \<Longrightarrow> w + 1 \<noteq> 0"
  by (simp add: eq_neg_iff_add_eq_0)

lemma cells_ok_act: "cells_ok s \<Longrightarrow> cell_guard x s \<Longrightarrow> cells_ok (cell_act x s)"
proof (cases x)
  case (DoRetain c)
  assume "cells_ok s" "cell_guard x s"
  with DoRetain show ?thesis
    by (auto simp: retain_def cell_ok_def succ_nonzero intro!: cells_ok_set_cell split: option.splits)
next
  case (DoUpgrade c)
  assume "cells_ok s" "cell_guard x s"
  with DoUpgrade show ?thesis
    by (auto simp: upgrade_def cell_ok_def succ_nonzero intro!: cells_ok_set_cell split: option.splits)
next
  case (DoRelease c)
  assume "cells_ok s"
  with DoRelease show ?thesis
    by (auto simp: release_def cell_ok_def sat_pred_def Let_def intro!: cells_ok_set_cell
        split: option.splits)
next
  case (DoEdge c d)
  assume "cells_ok s" "cell_guard x s"
  with DoEdge show ?thesis
    by (auto simp: add_strong_edge_def cell_ok_def intro!: cells_ok_set_cell)
next
  case (DoNewCell v sp)
  assume "cells_ok s"
  with DoNewCell show ?thesis by (auto simp: new_cell_def cells_ok_def cell_ok_def nth_append)
qed (auto simp: downgrade_def drop_weak_def cell_ok_def intro!: cells_ok_set_cell split: option.splits)


section \<open>Properties\<close>

text \<open>C3: Pools implement a finite map from generational handles to slot contents. \<open>reserve\<close> hands out a
  handle that named nothing and makes it name reserved storage; \<open>init_slot\<close> and \<open>remove_slot\<close> succeed
  exactly on handles of the map and fill or remove that entry; \<open>free\<close> drops every handle of the pools
  of the freed regions; no operation touches any other handle.\<close>

theorem pools_refine_handle_map:
  "(case reserve s p of
      (None, s1) \<Rightarrow> s1 = s \<and> length (st_pools s) \<le> p
    | (Some h, s1) \<Rightarrow> handle_contents s (p, h) = None \<and>
        handle_contents s1 = (handle_contents s)((p, h) \<mapsto> (SlotReserved, VUnit))) \<and>
   (fst (init_slot s p i g v) \<longleftrightarrow> (p, i, g) \<in> dom (handle_contents s)) \<and>
   handle_contents (snd (init_slot s p i g v)) =
      (if (p, i, g) \<in> dom (handle_contents s)
       then (handle_contents s)((p, i, g) \<mapsto> (SlotAlive, v)) else handle_contents s) \<and>
   (fst (remove_slot s p i g) \<longleftrightarrow> (p, i, g) \<in> dom (handle_contents s)) \<and>
   handle_contents (snd (remove_slot s p i g)) = (handle_contents s)((p, i, g) := None) \<and>
   handle_contents (snd (free s r)) =
      handle_contents s |` {h. pool_region s (fst h) \<notin> Some ` set (fst (free s r))}"
proof (intro conjI)
  show "case reserve s p of
      (None, s1) \<Rightarrow> s1 = s \<and> length (st_pools s) \<le> p
    | (Some h, s1) \<Rightarrow> handle_contents s (p, h) = None \<and>
        handle_contents s1 = (handle_contents s)((p, h) \<mapsto> (SlotReserved, VUnit))"
  proof (cases "reserve s p")
    case (Pair r s1)
    show ?thesis
    proof (cases r)
      case None
      with Pair show ?thesis by (auto simp: reserve_def split: option.splits)
    next
      case (Some h)
      with Pair handles.mk_new [of s p "fst h" "snd h" s1] show ?thesis by simp
    qed
  qed
next
  show "fst (init_slot s p i g v) \<longleftrightarrow> (p, i, g) \<in> dom (handle_contents s)"
    and "fst (remove_slot s p i g) \<longleftrightarrow> (p, i, g) \<in> dom (handle_contents s)"
    by (auto simp: handles.fill_iff handles.del_iff)
  show "handle_contents (snd (init_slot s p i g v)) =
      (if (p, i, g) \<in> dom (handle_contents s)
       then (handle_contents s)((p, i, g) \<mapsto> (SlotAlive, v)) else handle_contents s)"
  proof (cases "fst (init_slot s p i g v)")
    case True
    with handles.fill_new [OF True] show ?thesis by (auto simp: handles.fill_iff)
  next
    case False
    then have "snd (init_slot s p i g v) = s" by (auto simp: init_slot_def split: option.splits)
    with False show ?thesis by (auto simp: handles.fill_iff)
  qed
  show "handle_contents (snd (remove_slot s p i g)) = (handle_contents s)((p, i, g) := None)"
  proof (cases "fst (remove_slot s p i g)")
    case True
    then show ?thesis by (rule handles.del_new)
  next
    case False
    then have "snd (remove_slot s p i g) = s" by (auto simp: remove_slot_def split: option.splits)
    with False show ?thesis
      by (cases "handle_contents s (p, i, g)") (auto simp: handles.del_iff fun_eq_iff)
  qed
  show "handle_contents (snd (free s r)) =
      handle_contents s |` {h. pool_region s (fst h) \<notin> Some ` set (fst (free s r))}"
    by (rule ext) (clarsimp simp: restrict_map_def handle_contents_free)
qed

text \<open>A removed handle stays stale. After a successful removal, whatever pool operations follow, the
  handle resolves to nothing as long as its slot was recycled fewer than \<open>2^32 - 1\<close> more times (the
  generation is a \<open>u32\<close>, and one full turn later the number comes back).\<close>

theorem removed_handle_stays_stale:
  assumes "fst (remove_slot s p i g)"
    and "slot_clock.run_ticks p i ops (snd (remove_slot s p i g)) < 2 ^ 32 - 1"
  shows "slot (fold pool_act ops (snd (remove_slot s p i g))) p i g = None"
proof -
  from assms(1) have "slot_generation p i (snd (remove_slot s p i g)) = Some (g + 1)"
    by (auto simp: remove_slot_def slot_generation_def slot_at_modify split: option.splits if_splits)
  from slot_clock.never_back [OF this assms(2)]
  show ?thesis by (auto simp: slot_def slot_generation_def split: option.splits)
qed

definition one_pool :: "nat store" where
  "one_pool = snd (reserve (store_new\<lparr>st_pools :=
     [\<lparr>po_id = 0, po_region = 0, po_elem = ''T'', po_slots = []\<rparr>]\<rparr>) 0)"

lemma one_pool_remove: "fst (remove_slot one_pool 0 0 0)"
  by code_simp

theorem removed_handle_stays_stale_witness:
  "slot (fold pool_act [DoReserve 0, DoInit 0 0 1 VUnit] (snd (remove_slot one_pool 0 0 0))) 0 0 0 = None"
proof (rule removed_handle_stays_stale [OF one_pool_remove])
  show "slot_clock.run_ticks 0 0 [DoReserve 0, DoInit 0 0 1 VUnit] (snd (remove_slot one_pool 0 0 0))
     < 2 ^ 32 - 1"
    by simp
qed

text \<open>\<open>would_cycle\<close> decides exactly whether the new strong edge closes a cycle: on a store whose
  strong edges are acyclic, adding the edge keeps them acyclic if and only if it answers no.\<close>

theorem would_cycle_exact:
  assumes "from < length (st_cells s)" and "acyclic (cell_edges (st_cells s))"
  shows "acyclic (cell_edges (st_cells (add_strong_edge s from to))) \<longleftrightarrow> \<not> would_cycle s from to"
  using assms by (rule acyclic_add_strong_edge)

definition two_cells :: "nat store" where
  "two_cells =
     (let (a, s1) = new_cell store_new VUnit \<lparr>span_start = 0, span_end = 0\<rparr>
      in snd (new_cell s1 VUnit \<lparr>span_start = 0, span_end = 0\<rparr>))"

theorem would_cycle_exact_witness:
  "acyclic (cell_edges (st_cells (add_strong_edge two_cells 0 1)))"
proof -
  have c: "cell_edges (st_cells two_cells) = {}"
    by (auto simp: cell_edges_iff two_cells_def new_cell_def nth_append less_Suc_eq
        store_new_def create_def store_default_def Let_def)
  have "0 < length (st_cells two_cells)" "\<not> would_cycle two_cells 0 1" by code_simp+
  with would_cycle_exact [of 0 two_cells 1] show ?thesis by (simp add: c acyclic_def)
qed

lemma sat_pred_zero: "sat_pred w = 0 \<longleftrightarrow> w = 0 \<or> w = 1"
  by (simp add: sat_pred_def)

interpretation cell_machine: guarded_machine cell_act cell_guard cells_ok
  by unfold_locales (rule cells_ok_act)

text \<open>C29: Reference counting: from a store without cells, after any sequence of cell operations in which
  no count overflows, a cell is dead exactly when its strong count is zero, then its payload and edges
  are gone; \<open>upgrade\<close> and \<open>retain\<close> succeed exactly on the live cells, and \<open>release\<close> reports the last
  owner exactly when one owner was left.\<close>

theorem cell_counts_sound:
  assumes "st_cells s0 = []" and "guarded_run cell_act cell_guard ops s0" and "c < length (st_cells s)"
    and "s = fold cell_act ops s0"
  shows "(c \<in> set (live_cells s) \<longleftrightarrow> ce_strong (st_cells s ! c) \<noteq> 0) \<and>
     (c \<notin> set (live_cells s) \<longrightarrow> ce_value (st_cells s ! c) = VUnit \<and> ce_edges (st_cells s ! c) = []) \<and>
     (fst (upgrade s c) \<longleftrightarrow> c \<in> set (live_cells s)) \<and>
     (fst (retain s c) \<longleftrightarrow> c \<in> set (live_cells s)) \<and>
     (fst (release s c) \<longleftrightarrow> ce_strong (st_cells s ! c) = 1)"
proof -
  have "cells_ok s0" using assms(1) by (simp add: cells_ok_def)
  from cell_machine.run [OF this assms(2)] assms(3,4) have ok: "cell_ok (st_cells s ! c)"
    by (simp add: cells_ok_def)
  have live: "c \<in> set (live_cells s) \<longleftrightarrow> ce_strong (st_cells s ! c) \<noteq> 0"
    using ok assms(3) by (auto simp: live_cells_def cell_ok_def word_gt_0)
  moreover have "ce_strong (st_cells s ! c) = 0 \<Longrightarrow>
      ce_value (st_cells s ! c) = VUnit \<and> ce_edges (st_cells s ! c) = []"
    using ok by (simp add: cell_ok_def)
  moreover have "fst (upgrade s c) \<longleftrightarrow> ce_strong (st_cells s ! c) \<noteq> 0"
    and "fst (retain s c) \<longleftrightarrow> ce_strong (st_cells s ! c) \<noteq> 0"
    using ok assms(3) by (simp_all add: upgrade_def retain_def cell_ok_def word_gt_0)
  moreover have "fst (release s c) \<longleftrightarrow> ce_strong (st_cells s ! c) = 1"
    using ok assms(3) by (cases "ce_dead (st_cells s ! c)")
      (simp_all add: release_def cell_ok_def sat_pred_zero Let_def)
  ultimately show ?thesis by blast
qed

theorem cell_counts_sound_witness:
  "fst (release (fold cell_act [DoNewCell (VUnit :: nat val) \<lparr>span_start = 0, span_end = 0\<rparr>, DoRetain 0, DoRelease 0] store_new) 0)"
proof -
  let ?ops = "[DoNewCell (VUnit :: nat val) \<lparr>span_start = 0, span_end = 0\<rparr>, DoRetain 0, DoRelease 0]"
  have "st_cells (store_new :: nat store) = []" "guarded_run cell_act cell_guard ?ops store_new"
    "0 < length (st_cells (fold cell_act ?ops store_new))"
    "ce_strong (st_cells (fold cell_act ?ops store_new) ! 0) = 1"
    by code_simp+
  with cell_counts_sound [of store_new ?ops 0] show ?thesis by simp
qed

end
