(* ===== verification/Lifecycle.thy ===== *)
theory Lifecycle
  imports Pools
begin

text \<open>
  The life cycle of regions: every operation of the store as one step, the invariants of all
  reachable stores, what \<open>free\<close> and \<open>freeze\<close> do to a whole subtree, the one-way lattice of region
  states, the caps, and the conditions under which the open set stays an antichain.
\<close>

section \<open>The operations of the store as data\<close>

datatype 'c store_op =
    SoCreate "string option" strategy "(nat \<times> span) option" span
  | SoEnter region_id | SoLeave region_id | SoFree region_id | SoFreeze region_id
  | SoCharge region_id nat | SoGrow region_id nat | SoClaim region_id "task_claim option"
  | SoForce region_id | SoSwap "region_id list" | SoEdge "region_id option" ref_granule
  | SoPool "'c pool_op" | SoCell "'c cell_op"

fun store_act :: "'c store_op \<Rightarrow> 'c store \<Rightarrow> 'c store" where
  "store_act (SoCreate nm strat cap sp) s = snd (create s nm strat cap sp)"
| "store_act (SoEnter i) s = (case enter s i of Inl _ \<Rightarrow> s | Inr s' \<Rightarrow> s')"
| "store_act (SoLeave i) s = leave s i"
| "store_act (SoFree i) s = snd (free s i)"
| "store_act (SoFreeze i) s = snd (freeze s i)"
| "store_act (SoCharge i b) s = (case charge_into s i b of Inl _ \<Rightarrow> s | Inr s' \<Rightarrow> s')"
| "store_act (SoGrow i b) s = (case charge_growth s i b of Inl _ \<Rightarrow> s | Inr s' \<Rightarrow> s')"
| "store_act (SoClaim i c) s = claim s i c"
| "store_act (SoForce i) s = force_open s i"
| "store_act (SoSwap st) s = snd (swap_open s st)"
| "store_act (SoEdge into g) s = fst (snd (check_edges s None into [g]))"
| "store_act (SoPool x) s = pool_act x s"
| "store_act (SoCell x) s = cell_act x s"

section \<open>Wholesale loops\<close>

definition freeable :: "region list \<Rightarrow> region_id \<Rightarrow> bool" where
  "freeable rs t \<longleftrightarrow> t < length rs \<and> rg_state (rs ! t) \<noteq> RegFreed \<and> rg_state (rs ! t) \<noteq> RegFrozen"

definition freed_region :: "region \<Rightarrow> region" where
  "freed_region r = r\<lparr>rg_state := RegFreed, rg_generation := rg_generation r + 1, rg_depth := 0\<rparr>"

definition frozen_region :: "region \<Rightarrow> region" where
  "frozen_region r = (if rg_state r = RegFrozen then r else r\<lparr>rg_state := RegFrozen, rg_claim := None\<rparr>)"

lemma free_regions_result:
  "distinct ts \<Longrightarrow> free_regions ts rs = (fr, rs') \<Longrightarrow>
     fr = filter (freeable rs) ts \<and> length rs' = length rs \<and>
     (\<forall>j < length rs. rs' ! j = (if j \<in> set fr then freed_region (rs ! j) else rs ! j))"
proof (induction ts arbitrary: rs fr rs')
  case Nil
  then show ?case by simp
next
  case (Cons t ts)
  show ?case
  proof (cases "freeable rs t")
    case False
    with Cons.prems have "free_regions ts rs = (fr, rs')"
      by (auto simp: freeable_def not_less split: if_splits option.splits)
    with Cons False show ?thesis by auto
  next
    case True
    then have t: "t < length rs" by (simp add: freeable_def)
    let ?rs1 = "rs[t := freed_region (rs ! t)]"
    from True Cons.prems(2) obtain fr1 where fr: "fr = t # fr1" "free_regions ts ?rs1 = (fr1, rs')"
      by (auto simp: freeable_def freed_region_def Let_def split: prod.splits)
    from Cons.IH [OF _ fr(2)] Cons.prems(1) have
      ih: "fr1 = filter (freeable ?rs1) ts" "length rs' = length rs"
        "\<forall>j < length rs. rs' ! j = (if j \<in> set fr1 then freed_region (?rs1 ! j) else ?rs1 ! j)"
      by auto
    have "filter (freeable ?rs1) ts = filter (freeable rs) ts"
      using Cons.prems(1) t by (intro filter_cong) (auto simp: freeable_def nth_list_update)
    with ih(1) have f1: "fr1 = filter (freeable rs) ts" by simp
    with Cons.prems(1) have "t \<notin> set fr1" by simp
    with ih(2,3) t f1 True show ?thesis by (auto simp: fr(1) nth_list_update)
  qed
qed

lemma freeze_regions_result:
  "distinct ts \<Longrightarrow> freeze_regions ts rs = (fz, rs') \<Longrightarrow>
     fz = filter (\<lambda>t. t < length rs \<and> rg_state (rs ! t) \<noteq> RegFrozen) ts \<and> length rs' = length rs \<and>
     (\<forall>j < length rs. rs' ! j = (if j \<in> set ts then frozen_region (rs ! j) else rs ! j))"
proof (induction ts arbitrary: rs fz rs')
  case Nil
  then show ?case by simp
next
  case (Cons t ts)
  show ?case
  proof (cases "t < length rs \<and> rg_state (rs ! t) \<noteq> RegFrozen")
    case False
    with Cons.prems have "freeze_regions ts rs = (fz, rs')"
      by (auto simp: not_less split: if_splits option.splits)
    with Cons False show ?thesis by (auto simp: frozen_region_def)
  next
    case True
    let ?rs1 = "rs[t := frozen_region (rs ! t)]"
    from True Cons.prems(2) obtain fz1 where fz: "fz = t # fz1" "freeze_regions ts ?rs1 = (fz1, rs')"
      by (auto simp: frozen_region_def Let_def split: prod.splits)
    from Cons.IH [OF _ fz(2)] Cons.prems(1) have
      ih: "fz1 = filter (\<lambda>t. t < length ?rs1 \<and> rg_state (?rs1 ! t) \<noteq> RegFrozen) ts"
        "length rs' = length rs"
        "\<forall>j < length rs. rs' ! j = (if j \<in> set ts then frozen_region (?rs1 ! j) else ?rs1 ! j)"
      by auto
    have "fz1 = filter (\<lambda>t. t < length rs \<and> rg_state (rs ! t) \<noteq> RegFrozen) ts"
      unfolding ih(1) using Cons.prems(1) True by (intro filter_cong) (auto simp: nth_list_update)
    with ih(2,3) True Cons.prems(1) show ?thesis by (auto simp: fz(1) nth_list_update)
  qed
qed

lemma free_parts:
  assumes "ids_ok (st_regions s)" and "free s i = (fr, s')"
  shows "fr = filter (freeable (st_regions s)) (descendants s i)"
    and "length (st_regions s') = length (st_regions s)"
    and "\<forall>j < length (st_regions s). st_regions s' ! j =
      (if j \<in> set fr then freed_region (st_regions s ! j) else st_regions s ! j)"
    and "st_open s' = filter (\<lambda>k. k \<notin> set fr) (st_open s)" and "st_teeth s'"
    and "st_cells s' = st_cells s"
  using free_regions_result [OF descendants_props(2) [OF assms(1), of i]] assms(2)
  by (auto simp: free_def split: prod.splits)

lemma freeze_parts:
  assumes "ids_ok (st_regions s)" and "freeze s i = (Inr fz, s')"
  shows "length (st_regions s') = length (st_regions s)"
    and "\<forall>j < length (st_regions s). st_regions s' ! j =
      (if j \<in> set (descendants s i) then frozen_region (st_regions s ! j) else st_regions s ! j)"
    and "st_open s' = st_open s" and "st_pools s' = st_pools s"
    and "\<forall>j < length (st_regions s). j \<in> set (descendants s i) \<longrightarrow> rg_depth (st_regions s ! j) = 0"
    and "state_of s i \<noteq> Some RegFreed"
proof -
  have d: "descendants (s\<lparr>st_teeth := True\<rparr>) i = descendants s i" by (simp add: descendants_def)
  have st: "state_of (s\<lparr>st_teeth := True\<rparr>) i = state_of s i" by (simp add: state_of_def region_of_def)
  from assms(2) obtain rs where rs: "freeze_regions (descendants s i) (st_regions s) = (fz, rs)"
    "s' = s\<lparr>st_teeth := True, st_regions := rs\<rparr>" "state_of s i \<noteq> Some RegFreed"
    and none: "find (\<lambda>t. case region_of (s\<lparr>st_teeth := True\<rparr>) t of None \<Rightarrow> False | Some r \<Rightarrow> rg_depth r > 0)
       (descendants s i) = None"
    by (auto simp: freeze_def Let_def d st split: if_splits option.splits prod.splits)
  note res = freeze_regions_result [OF descendants_props(2) [OF assms(1), of i] rs(1)]
  show "length (st_regions s') = length (st_regions s)"
    "\<forall>j < length (st_regions s). st_regions s' ! j =
      (if j \<in> set (descendants s i) then frozen_region (st_regions s ! j) else st_regions s ! j)"
    "st_open s' = st_open s" "st_pools s' = st_pools s" "state_of s i \<noteq> Some RegFreed"
    using res rs by simp_all
  show "\<forall>j < length (st_regions s). j \<in> set (descendants s i) \<longrightarrow> rg_depth (st_regions s ! j) = 0"
    using none by (fastforce simp: find_None_iff_all region_of_def)
qed

text \<open>The walk down reads only identifiers and parents.\<close>

lemma push_children_map:
  "(\<And>r. rg_id (f r) = rg_id r \<and> rg_parent (f r) = rg_parent r) \<Longrightarrow>
     push_children (map f rs) p out = push_children rs p out"
  by (induction rs p out rule: push_children.induct) auto

lemma descend_map:
  "(\<And>r. rg_id (f r) = rg_id r \<and> rg_parent (f r) = rg_parent r) \<Longrightarrow>
     descend fuel (map f rs) at out = descend fuel rs at out"
  by (induction fuel rs at out rule: descend.induct) (auto simp: push_children_map)

lemma freeze_error_parts: "freeze s i = (Inl e, s') \<Longrightarrow> s' = s\<lparr>st_teeth := True\<rparr>"
  by (auto simp: freeze_def Let_def split: if_splits option.splits prod.splits)


section \<open>What one operation does to one region\<close>

text \<open>Every operation changes a region only through one of these moves; the invariants below are checked
  on the moves instead of on the operations.\<close>

inductive region_move :: "region \<Rightarrow> region \<Rightarrow> bool" where
  mv_same: "region_move r r"
| mv_open: "region_move r (r\<lparr>rg_state := RegOpen, rg_depth := rg_depth r + 1\<rparr>)"
    if "rg_state r = RegOpen \<or> rg_state r = RegSuspended"
| mv_leave: "region_move r (r\<lparr>rg_depth := rg_depth r - 1,
      rg_state := (if rg_depth r - 1 = 0 \<and> rg_state r = RegOpen then RegSuspended else rg_state r)\<rparr>)"
| mv_free: "region_move r (freed_region r)" if "rg_state r \<noteq> RegFreed" "rg_state r \<noteq> RegFrozen"
| mv_freeze: "region_move r (frozen_region r)" if "rg_depth r = 0"
| mv_charge: "region_move r (r\<lparr>rg_allocations := rg_allocations r + k, rg_bytes := tot\<rparr>)"
    if "admits r b = Inr tot"
| mv_claim: "region_move r (r\<lparr>rg_claim := c\<rparr>)"
| mv_adopt: "region_move r (r\<lparr>rg_parent := Some p\<rparr>)"

lemma nth_fold_modify:
  assumes "j < length rs"
  shows "fold (\<lambda>t. modify_at t f) ts rs ! j = (f ^^ count_list ts j) (rs ! j) \<and>
     length (fold (\<lambda>t. modify_at t f) ts rs) = length rs"
  using assms
proof (induction ts arbitrary: rs)
  case (Cons t ts)
  from Cons.IH [of "modify_at t f rs"] Cons.prems show ?case
    by (auto simp: nth_modify_at funpow_swap1)
qed simp

lemma claim_move:
  "j < length (st_regions s) \<Longrightarrow> region_move (st_regions s ! j) (st_regions (claim s i c) ! j)"
proof -
  assume j: "j < length (st_regions s)"
  have pw: "((\<lambda>r. r\<lparr>rg_claim := c\<rparr>) ^^ n) r = (if n = 0 then r else r\<lparr>rg_claim := c\<rparr>)" for n and r :: region
    by (induction n) auto
  show ?thesis
    using nth_fold_modify [OF j] by (auto simp: claim_def pw intro: mv_same mv_claim)
qed

lemma charge_into_move:
  "charge_into s i b = Inr s' \<Longrightarrow> j < length (st_regions s) \<Longrightarrow>
     region_move (st_regions s ! j) (st_regions s' ! j) \<and> length (st_regions s') = length (st_regions s)"
  by (cases "j = i")
    (auto simp: charge_into_def region_of_def nth_modify_at split: option.splits sum.splits
      intro: mv_same mv_charge [where k = "Suc 0", simplified])

lemma charge_growth_move:
  "charge_growth s i b = Inr s' \<Longrightarrow> j < length (st_regions s) \<Longrightarrow>
     region_move (st_regions s ! j) (st_regions s' ! j) \<and> length (st_regions s') = length (st_regions s)"
  by (cases "j = i")
    (auto simp: charge_growth_def region_of_def nth_modify_at split: option.splits sum.splits if_splits
      intro: mv_same mv_charge [where k = 0, simplified])

lemma edge_parts:
  "fst (snd (check_edges s v into [g])) = s \<or>
   (\<exists>p c. into = Some p \<and> g = RefRegion c \<and> classify_edge s into g = EdgeIso c \<and>
      check_edges s v into [g] = (None, adopt s p c, record_forest (adopt s p c) v))"
proof (cases "classify_edge s into g")
  case (EdgeIso c)
  then have "g = RefRegion c"
    by (auto simp: classify_edge_def edge_target_def Let_def split: option.splits ref_granule.splits
        if_splits sum.splits)
  with EdgeIso show ?thesis by (cases into) (auto simp: Let_def)
qed auto

lemma pool_act_regions:
  "j < length (st_regions s) \<Longrightarrow> ids_ok (st_regions s) \<Longrightarrow>
     region_move (st_regions s ! j) (st_regions (pool_act x s) ! j) \<and>
     length (st_regions (pool_act x s)) = length (st_regions s)"
proof (cases x)
  case (DoNewPool e)
  assume "j < length (st_regions s)"
  with DoNewPool show ?thesis
    by (auto simp: new_pool_def charge_def Let_def split: sum.splits dest: charge_into_move intro: mv_same)
next
  case (DoFree r)
  assume j: "j < length (st_regions s)" and ids: "ids_ok (st_regions s)"
  obtain fr s' where f: "free s r = (fr, s')" by (cases "free s r")
  from free_parts [OF ids f] j DoFree f show ?thesis
    by (auto simp: freeable_def intro: mv_same mv_free)
qed (auto simp: reserve_def init_slot_def remove_slot_def set_slots_def
    split: option.splits prod.splits intro: mv_same)

lemma cell_act_regions: "st_regions (cell_act x s) = st_regions s"
  by (cases x) (auto simp: new_cell_def retain_def release_def downgrade_def drop_weak_def upgrade_def
      add_strong_edge_def set_cell_def Let_def split: option.splits)

lemma enter_result:
  "enter s i = Inr s' \<Longrightarrow> i < length (st_regions s) \<and>
     (rg_state (st_regions s ! i) = RegOpen \<or> rg_state (st_regions s ! i) = RegSuspended) \<and>
     (rg_depth (st_regions s ! i) \<noteq> 0 \<or>
       (\<forall>k \<in> set (st_open s). \<not> is_ancestor s k i \<and> \<not> is_ancestor s i k)) \<and>
     s' = s\<lparr>st_regions := modify_at i
        (\<lambda>r. r\<lparr>rg_state := RegOpen, rg_depth := rg_depth r + 1\<rparr>) (st_regions s),
        st_open := st_open s @ [i]\<rparr>"
  by (auto simp: enter_def region_of_def find_None_iff_all split: option.splits region_state.splits if_splits)

lemma store_act_moves:
  assumes "ids_ok (st_regions s)" and "j < length (st_regions s)"
    and "\<And>i. x = SoForce i \<Longrightarrow> rg_state (st_regions s ! i) = RegOpen \<or> rg_state (st_regions s ! i) = RegSuspended"
  shows "region_move (st_regions s ! j) (st_regions (store_act x s) ! j)"
proof (cases x)
  case (SoCreate nm strat cap sp)
  with assms(2) show ?thesis by (auto simp: create_def Let_def nth_append intro: mv_same)
next
  case (SoEnter i)
  show ?thesis
  proof (cases "enter s i")
    case (Inl e)
    with SoEnter show ?thesis by (simp add: mv_same)
  next
    case (Inr s')
    with enter_result [OF Inr] SoEnter assms(2) show ?thesis
      by (cases "j = i") (simp_all add: nth_modify_at mv_same mv_open [simplified])
  qed
next
  case (SoLeave i)
  with assms(2) mv_leave [of "st_regions s ! i"] show ?thesis
    by (cases "j = i") (simp_all add: leave_def nth_modify_at Let_def mv_same)
next
  case (SoFree i)
  with pool_act_regions [OF assms(2,1), of "DoFree i"] show ?thesis by simp
next
  case (SoFreeze i)
  show ?thesis
  proof (cases "freeze s i")
    case (Pair res s')
    show ?thesis
    proof (cases res)
      case (Inl e)
      with Pair SoFreeze freeze_error_parts [of s i e s'] show ?thesis by (auto intro: mv_same)
    next
      case (Inr fz)
      with Pair freeze_parts [OF assms(1), of i fz s'] SoFreeze assms(2) show ?thesis
        by (auto intro: mv_same mv_freeze)
    qed
  qed
next
  case (SoCharge i b)
  with charge_into_move [of s i b _ j] assms(2) show ?thesis by (auto split: sum.splits intro: mv_same)
next
  case (SoGrow i b)
  with charge_growth_move [of s i b _ j] assms(2) show ?thesis by (auto split: sum.splits intro: mv_same)
next
  case (SoClaim i c)
  with claim_move [OF assms(2)] show ?thesis by simp
next
  case (SoForce i)
  with assms mv_open [of "st_regions s ! i"] show ?thesis
    by (cases "j = i") (simp_all add: force_open_def nth_modify_at mv_same)
next
  case (SoSwap st)
  then show ?thesis by (simp add: swap_open_def mv_same)
next
  case (SoEdge into g)
  with edge_parts [of s None into g] assms(2) show ?thesis
    by (auto simp: adopt_def nth_modify_at simp del: check_edges.simps intro: mv_same mv_adopt)
next
  case (SoPool y)
  with pool_act_regions [OF assms(2,1)] show ?thesis by simp
next
  case (SoCell y)
  then show ?thesis by (simp add: cell_act_regions mv_same)
qed


section \<open>Invariants of every reachable store\<close>

text \<open>What holds of every region: open exactly while some scope holds it, within its cap and within
  \<open>u64\<close>, and with the generation of its life: 0 until it is freed, 1 afterwards.\<close>

fun within_cap :: "nat option \<Rightarrow> nat \<Rightarrow> bool" where
  "within_cap None b = True"
| "within_cap (Some c) b = (b \<le> c)"

lemma within_cap_0 [simp]: "within_cap c 0"
  by (cases c) simp_all

definition region_wf :: "region \<Rightarrow> bool" where
  "region_wf r \<longleftrightarrow> (rg_state r = RegOpen \<longleftrightarrow> rg_depth r > 0) \<and>
     within_cap (rg_cap r) (rg_bytes r) \<and> rg_bytes r \<le> u64_max \<and>
     (rg_state r = RegOpen \<or> rg_state r = RegSuspended \<longrightarrow> rg_generation r = 0) \<and>
     (rg_state r = RegFreed \<longrightarrow> rg_generation r = 1) \<and> rg_generation r \<in> {0, 1}"

lemma admits_result:
  "admits r b = Inr tot \<Longrightarrow> tot = sat_add (rg_bytes r) b \<and> within_cap (rg_cap r) tot"
  by (auto simp: admits_def Let_def split: option.splits if_splits)

lemma region_wf_move: "region_move r r' \<Longrightarrow> region_wf r \<Longrightarrow> region_wf r'"
proof (induction rule: region_move.induct)
  case (mv_charge r b tot k)
  with admits_result [OF mv_charge(1)] show ?case
    by (auto simp: region_wf_def sat_add_def)
next
  case (mv_free r)
  then show ?case by (cases "rg_state r") (auto simp: region_wf_def freed_region_def)
qed (auto simp: region_wf_def freed_region_def frozen_region_def)

lemma move_ids: "region_move r r' \<Longrightarrow> rg_id r' = rg_id r"
  by (induction rule: region_move.induct) (auto simp: freed_region_def frozen_region_def)

text \<open>The order of the life cycle.\<close>

fun life_rank :: "region_state \<Rightarrow> nat" where
  "life_rank RegOpen = 0" | "life_rank RegSuspended = 0" | "life_rank RegFreed = 1" | "life_rank RegFrozen = 2"

lemma life_rank_bounds [simp]: "life_rank x \<le> 2" "x \<noteq> RegFrozen \<Longrightarrow> life_rank x \<le> Suc 0"
  by (cases x; simp)+

lemma move_one_way:
  "region_move r r' \<Longrightarrow> rg_bytes r \<le> u64_max \<Longrightarrow> life_rank (rg_state r) \<le> life_rank (rg_state r') \<and> rg_bytes r \<le> rg_bytes r' \<and>
     rg_generation r' = rg_generation r + (if rg_state r \<noteq> RegFreed \<and> rg_state r' = RegFreed then 1 else 0)"
proof (induction rule: region_move.induct)
  case (mv_charge r b tot k)
  with admits_result [OF mv_charge(1)] show ?case by (auto simp: sat_add_def)
qed (auto simp: freed_region_def frozen_region_def)

text \<open>What the machine ensures: a region is forced open only right after its creation.\<close>

fun store_guard :: "'c store_op \<Rightarrow> 'c store \<Rightarrow> bool" where
  "store_guard (SoForce i) s \<longleftrightarrow>
     i < length (st_regions s) \<longrightarrow> rg_state (st_regions s ! i) = RegOpen \<or> rg_state (st_regions s ! i) = RegSuspended"
| "store_guard _ s \<longleftrightarrow> True"

definition store_wf :: "'c store \<Rightarrow> bool" where
  "store_wf s \<longleftrightarrow> ids_ok (st_regions s) \<and> (\<forall>i < length (st_regions s). region_wf (st_regions s ! i))"

lemma store_act_length:
  assumes "ids_ok (st_regions s)"
  shows "length (st_regions (store_act x s)) =
     length (st_regions s) + (case x of SoCreate _ _ _ _ \<Rightarrow> 1 | _ \<Rightarrow> 0)"
proof (cases x)
  case (SoFree i)
  then show ?thesis using free_parts(2) [OF assms, of i] by (cases "free s i") simp
next
  case (SoFreeze i)
  obtain res s' where f: "freeze s i = (res, s')" by (cases "freeze s i")
  show ?thesis
  proof (cases res)
    case (Inl e)
    with f SoFreeze freeze_error_parts [of s i e s'] show ?thesis by simp
  next
    case (Inr fz)
    with f SoFreeze freeze_parts(1) [OF assms, of i fz s'] show ?thesis by simp
  qed
next
  case (SoClaim i c)
  have "length (fold (\<lambda>t. modify_at t f) ts rs) = length rs" for f ts and rs :: "region list"
    by (induction ts arbitrary: rs) auto
  with SoClaim show ?thesis by (simp add: claim_def)
next
  case (SoEdge into g)
  with edge_parts [of s None into g] show ?thesis by (auto simp: adopt_def simp del: check_edges.simps)
next
  case (SoPool y)
  show ?thesis
  proof (cases y)
    case (DoFree r)
    with SoPool show ?thesis using free_parts(2) [OF assms, of r] by (cases "free s r") simp
  next
    case (DoNewPool e)
    with SoPool show ?thesis
      by (auto simp: new_pool_def charge_def charge_into_def Let_def split: sum.splits option.splits)
  qed (use SoPool in \<open>auto simp: reserve_def init_slot_def remove_slot_def set_slots_def
      split: option.splits prod.splits\<close>)
next
  case (SoCell y)
  then show ?thesis by (simp add: cell_act_regions)
qed (auto simp: create_def Let_def leave_def force_open_def swap_open_def charge_into_def
    charge_growth_def split: sum.splits option.splits if_splits dest: enter_result)

lemma store_act_wf: "store_wf s \<Longrightarrow> store_guard x s \<Longrightarrow> store_wf (store_act x s)"
proof -
  assume wf: "store_wf s" and g: "store_guard x s"
  then have ids: "ids_ok (st_regions s)" by (simp add: store_wf_def)
  show ?thesis
  proof (cases "\<exists>nm strat cap sp. x = SoCreate nm strat cap sp")
    case True
    then obtain nm strat cap sp where x: "x = SoCreate nm strat cap sp" by blast
    with wf ids_create [OF ids] show ?thesis
      by (auto simp: store_wf_def create_def Let_def nth_append less_Suc_eq region_wf_def
          split: option.splits)
  next
    case False
    then have len: "length (st_regions (store_act x s)) = length (st_regions s)"
      using store_act_length [OF ids, of x] by (cases x) auto
    have mv: "region_move (st_regions s ! j) (st_regions (store_act x s) ! j)" if "j < length (st_regions s)" for j
    proof (cases "\<exists>i. x = SoForce i \<and> length (st_regions s) \<le> i")
      case True
      then show ?thesis by (auto simp: force_open_def intro: mv_same)
    next
      case False
      with store_act_moves [OF ids that, of x] g show ?thesis by (cases x) auto
    qed
    from wf move_ids [OF mv] region_wf_move [OF mv] show ?thesis
      by (simp add: store_wf_def ids_ok_def len)
  qed
qed

interpretation store_machine: guarded_machine store_act store_guard store_wf
  by unfold_locales (rule store_act_wf)

lemma store_new_wf: "store_wf store_new"
  by (simp add: store_wf_def store_new_def create_def store_default_def Let_def ids_ok_def region_wf_def
      modify_at_def root_region_def)


lemma store_act_one_way:
  assumes "store_wf s" and "store_guard x s" and "i < length (st_regions s)"
  shows "life_rank (rg_state (st_regions s ! i)) \<le> life_rank (rg_state (st_regions (store_act x s) ! i)) \<and>
     rg_bytes (st_regions s ! i) \<le> rg_bytes (st_regions (store_act x s) ! i)"
proof (cases "\<exists>k. x = SoForce k \<and> length (st_regions s) \<le> k")
  case True
  then show ?thesis by (auto simp: force_open_def)
next
  case False
  with assms have "region_move (st_regions s ! i) (st_regions (store_act x s) ! i)"
    by (intro store_act_moves) (auto simp: store_wf_def)
  moreover have "rg_bytes (st_regions s ! i) \<le> u64_max"
    using assms(1,3) by (simp add: store_wf_def region_wf_def)
  ultimately show ?thesis using move_one_way by blast
qed

lemma store_run_one_way:
  assumes "store_wf s" and "guarded_run store_act store_guard ops s" and "i < length (st_regions s)"
  shows "i < length (st_regions (fold store_act ops s)) \<and>
     life_rank (rg_state (st_regions s ! i)) \<le> life_rank (rg_state (st_regions (fold store_act ops s) ! i)) \<and>
     rg_bytes (st_regions s ! i) \<le> rg_bytes (st_regions (fold store_act ops s) ! i)"
  using assms
proof (induction ops arbitrary: s)
  case Nil
  then show ?case by simp
next
  case (Cons x ops)
  then have g: "store_guard x s" and r: "guarded_run store_act store_guard ops (store_act x s)" by simp_all
  have wf: "store_wf (store_act x s)" by (rule store_act_wf [OF Cons.prems(1) g])
  have "i < length (st_regions (store_act x s))"
    using store_act_length [of s x] Cons.prems(1,3) by (simp add: store_wf_def)
  from Cons.IH [OF wf r this] store_act_one_way [OF Cons.prems(1) g Cons.prems(3)] show ?case by auto
qed

section \<open>The open set\<close>

text \<open>One task's scopes: the stack holds every region as often as its depth says, and no open region is
  an ancestor of another.\<close>

definition stack_ok :: "'c store \<Rightarrow> bool" where
  "stack_ok s \<longleftrightarrow> (\<forall>i \<in> set (st_open s). i < length (st_regions s)) \<and>
     (\<forall>i < length (st_regions s). count_list (st_open s) i = rg_depth (st_regions s ! i))"

definition antichain :: "'c store \<Rightarrow> bool" where
  "antichain s \<longleftrightarrow> (\<forall>i \<in> set (st_open s). \<forall>j \<in> set (st_open s). i \<noteq> j \<longrightarrow> \<not> is_ancestor s i j)"

definition scope_inv :: "'c store \<Rightarrow> bool" where
  "scope_inv s \<longleftrightarrow> store_wf s \<and> stack_ok s \<and> forest_ok (st_regions s) \<and> antichain s"

text \<open>The operations of one task, with the two conditions on owning edges that the edge table itself does
  not check: no cycle, and the child transferred as a closed subtree.\<close>

fun scope_guard :: "'c store_op \<Rightarrow> 'c store \<Rightarrow> bool" where
  "scope_guard (SoForce i) s = False"
| "scope_guard (SoSwap st) s = False"
| "scope_guard (SoEdge into g) s =
     (case (into, g) of
        (Some p, RefRegion c) \<Rightarrow> p < length (st_regions s) \<and> c < length (st_regions s) \<and>
           \<not> is_ancestor s c p \<and>
           (\<forall>t \<in> set (descendants s c). t < length (st_regions s) \<longrightarrow> rg_depth (st_regions s ! t) = 0)
      | _ \<Rightarrow> True)"
| "scope_guard _ s = True"

lemma count_remove_last: "count_list (remove_last x xs) y = count_list xs y - (if x = y then 1 else 0)"
proof -
  have rem: "count_list (remove1 x ys) y = count_list ys y - (if x = y then 1 else 0)" for ys
  proof (induction ys)
    case (Cons z zs)
    then show ?case by (cases "y \<in> set zs") (auto simp: count_list_0_iff)
  qed simp
  have rev: "count_list (rev ys) y = count_list ys y" for ys by (induction ys) auto
  show ?thesis by (simp add: remove_last_def rem rev)
qed

lemma set_remove_last: "set (remove_last x xs) \<subseteq> set xs"
  unfolding remove_last_def using set_remove1_subset [of x "rev xs"] by simp

lemma count_filter_out: "count_list (filter P xs) y = (if P y then count_list xs y else 0)"
  by (induction xs) auto

lemma stack_ok_mem: "stack_ok s \<Longrightarrow> i < length (st_regions s) \<Longrightarrow>
   i \<in> set (st_open s) \<longleftrightarrow> rg_depth (st_regions s ! i) > 0"
  using count_list_0_iff [of "st_open s" i] by (auto simp: stack_ok_def)

text \<open>The parent edges decide ancestry; an operation that keeps them keeps \<open>is_ancestor\<close>.\<close>

lemma ancestor_cong:
  assumes "length (st_regions s') = length (st_regions s)"
    and "\<And>i. i < length (st_regions s) \<Longrightarrow> rg_parent (st_regions s' ! i) = rg_parent (st_regions s ! i)"
  shows "is_ancestor s' = is_ancestor s" and "parent_rel (st_regions s') = parent_rel (st_regions s)"
proof -
  have p: "parent_of (st_regions s') = parent_of (st_regions s)"
    by (rule ext) (use assms in \<open>auto simp: parent_of_def get_at_def\<close>)
  have "ancestor_walk (st_regions s') a n c = ancestor_walk (st_regions s) a n c" for a n c
    by (induction "st_regions s" a n c rule: ancestor_walk.induct) (simp_all add: p)
  then show "is_ancestor s' = is_ancestor s" using assms(1) by (intro ext) (simp add: is_ancestor_def)
  show "parent_rel (st_regions s') = parent_rel (st_regions s)" by (simp add: parent_rel_def p)
qed


lemma scope_frame:
  assumes "forest_ok (st_regions s)" and "antichain s"
    and "length (st_regions s') = length (st_regions s)"
    and "\<And>i. i < length (st_regions s) \<Longrightarrow> rg_parent (st_regions s' ! i) = rg_parent (st_regions s ! i)"
    and "set (st_open s') \<subseteq> set (st_open s)"
  shows "forest_ok (st_regions s') \<and> antichain s'"
proof
  show "forest_ok (st_regions s')"
    using ancestor_cong(2) [OF assms(3,4)] assms(1,3) by (simp add: forest_ok_def)
  show "antichain s'"
    using assms(2,5) ancestor_cong(1) [OF assms(3,4)] by (simp add: antichain_def subset_iff)
qed

lemma scope_same:
  assumes "scope_inv s" and "length (st_regions s') = length (st_regions s)" and "st_open s' = st_open s"
    and "\<And>i. i < length (st_regions s) \<Longrightarrow> rg_parent (st_regions s' ! i) = rg_parent (st_regions s ! i)
       \<and> rg_depth (st_regions s' ! i) = rg_depth (st_regions s ! i)"
  shows "stack_ok s' \<and> forest_ok (st_regions s') \<and> antichain s'"
proof -
  have "forest_ok (st_regions s') \<and> antichain s'"
    by (rule scope_frame [of s]) (use assms in \<open>auto simp: scope_inv_def\<close>)
  moreover have "stack_ok s'" using assms by (auto simp: scope_inv_def stack_ok_def)
  ultimately show ?thesis by simp
qed

lemma scope_create:
  assumes "scope_inv s"
  shows "stack_ok (snd (create s nm strat cap sp)) \<and>
     forest_ok (st_regions (snd (create s nm strat cap sp))) \<and> antichain (snd (create s nm strat cap sp))"
proof -
  let ?s = "snd (create s nm strat cap sp)"
  have R: "parent_rel (st_regions ?s) = parent_rel (st_regions s)"
    by (auto simp: parent_rel_iff create_def Let_def nth_append split: if_splits)
  have f: "forest_ok (st_regions s)" using assms by (simp add: scope_inv_def)
  then have f': "forest_ok (st_regions ?s)"
    unfolding forest_ok_def R by (auto simp: create_def Let_def less_Suc_eq)
  have new: "length (st_regions s) \<notin> set (st_open s)"
    using assms by (auto simp: scope_inv_def stack_ok_def)
  have "stack_ok ?s"
    using assms new by (auto simp: scope_inv_def stack_ok_def create_def Let_def nth_append less_Suc_eq
        count_list_0_iff)
  moreover have "antichain ?s"
    using assms is_ancestor_iff [OF f] is_ancestor_iff [OF f']
    by (simp add: scope_inv_def antichain_def R) (simp add: create_def Let_def)
  ultimately show ?thesis using f' by simp
qed

lemma scope_enter:
  assumes "scope_inv s" and "enter s i = Inr s'"
  shows "stack_ok s' \<and> forest_ok (st_regions s') \<and> antichain s'"
proof -
  note e = enter_result [OF assms(2)]
  have i: "i < length (st_regions s)" using e by simp
  have len: "length (st_regions s') = length (st_regions s)" using e by simp
  have par: "rg_parent (st_regions s' ! j) = rg_parent (st_regions s ! j)" if "j < length (st_regions s)" for j
    using e that by (auto simp: nth_modify_at)
  have op: "st_open s' = st_open s @ [i]" using e by simp
  have anc: "is_ancestor s' a b = is_ancestor s a b" for a b
    using ancestor_cong(1) [of s' s] len par by simp
  have st: "stack_ok s" and ac: "antichain s" using assms(1) by (simp_all add: scope_inv_def)
  have "stack_ok s'" using st e by (auto simp: stack_ok_def nth_modify_at)
  moreover have "forest_ok (st_regions s')"
    using assms(1) ancestor_cong [OF len par] len by (auto simp: scope_inv_def forest_ok_def)
  moreover have "antichain s'"
  proof (cases "rg_depth (st_regions s ! i) = 0")
    case True
    with e have "\<forall>k \<in> set (st_open s). \<not> is_ancestor s k i \<and> \<not> is_ancestor s i k" by blast
    with ac show ?thesis by (auto simp: antichain_def op anc)
  next
    case False
    then have "i \<in> set (st_open s)" using stack_ok_mem [OF st i] by simp
    then show ?thesis using ac by (auto simp: antichain_def op anc)
  qed
  ultimately show ?thesis by simp
qed

lemma scope_leave:
  assumes "scope_inv s"
  shows "stack_ok (leave s i) \<and> forest_ok (st_regions (leave s i)) \<and> antichain (leave s i)"
proof -
  have st: "stack_ok s" using assms by (simp add: scope_inv_def)
  have "forest_ok (st_regions (leave s i)) \<and> antichain (leave s i)"
    by (rule scope_frame [of s])
      (use assms set_remove_last [of i "st_open s"] in \<open>auto simp: scope_inv_def leave_def nth_modify_at Let_def\<close>)
  moreover have "stack_ok (leave s i)"
    using st set_remove_last [of i "st_open s"]
    by (auto simp: stack_ok_def leave_def nth_modify_at Let_def count_remove_last)
  ultimately show ?thesis by simp
qed

lemma scope_free:
  assumes "scope_inv s"
  shows "stack_ok (snd (free s i)) \<and> forest_ok (st_regions (snd (free s i))) \<and> antichain (snd (free s i))"
proof -
  obtain fr s' where f: "free s i = (fr, s')" by (cases "free s i")
  have ids: "ids_ok (st_regions s)" and st: "stack_ok s" using assms by (simp_all add: scope_inv_def store_wf_def)
  note p = free_parts [OF ids f]
  have "forest_ok (st_regions s') \<and> antichain s'"
    by (rule scope_frame [of s]) (use assms p in \<open>auto simp: scope_inv_def freed_region_def\<close>)
  moreover have "stack_ok s'"
    using st p(2,3,4) by (auto simp: stack_ok_def count_filter_out freed_region_def)
  ultimately show ?thesis using f by simp
qed

lemma scope_freeze:
  assumes "scope_inv s"
  shows "stack_ok (snd (freeze s i)) \<and> forest_ok (st_regions (snd (freeze s i))) \<and> antichain (snd (freeze s i))"
proof -
  obtain res s' where f: "freeze s i = (res, s')" by (cases "freeze s i")
  have ids: "ids_ok (st_regions s)" using assms by (simp add: scope_inv_def store_wf_def)
  have "length (st_regions s') = length (st_regions s) \<and> st_open s' = st_open s \<and>
     (\<forall>j < length (st_regions s). rg_parent (st_regions s' ! j) = rg_parent (st_regions s ! j) \<and>
        rg_depth (st_regions s' ! j) = rg_depth (st_regions s ! j))"
  proof (cases res)
    case (Inl e)
    with f freeze_error_parts [of s i e s'] show ?thesis by simp
  next
    case (Inr fz)
    from freeze_parts [OF ids f [unfolded Inr]] show ?thesis by (auto simp: frozen_region_def)
  qed
  then have "stack_ok s' \<and> forest_ok (st_regions s') \<and> antichain s'"
    using scope_same [OF assms, of s'] by blast
  with f show ?thesis by simp
qed

lemma edge_iso_parent:
  "classify_edge s (Some p) (RefRegion c) = EdgeIso c \<Longrightarrow> parent_of (st_regions s) c \<in> {None, Some p}"
  by (auto simp: classify_edge_def edge_target_def split: option.splits if_splits)

lemma scope_adopt:
  assumes "scope_inv s" and "classify_edge s (Some p) (RefRegion c) = EdgeIso c"
    and "scope_guard (SoEdge (Some p) (RefRegion c)) s"
  shows "stack_ok (adopt s p c) \<and> forest_ok (st_regions (adopt s p c)) \<and> antichain (adopt s p c)"
proof -
  let ?R = "parent_rel (st_regions s)" and ?s = "adopt s p c"
  have f: "forest_ok (st_regions s)" and ids: "ids_ok (st_regions s)" and st: "stack_ok s"
    and ac: "antichain s" using assms(1) by (simp_all add: scope_inv_def store_wf_def)
  from assms(3) have p: "p < length (st_regions s)" and c: "c < length (st_regions s)"
    and na: "\<not> is_ancestor s c p"
    and closed: "\<And>t. t \<in> set (descendants s c) \<Longrightarrow> t < length (st_regions s) \<Longrightarrow> rg_depth (st_regions s ! t) = 0"
    by auto
  have par: "parent_of (st_regions s) c \<in> {None, Some p}" by (rule edge_iso_parent [OF assms(2)])
  have f': "forest_ok (st_regions ?s)" using forest_adopt [OF f c p par] na by simp
  have R': "parent_rel (st_regions ?s) = insert (c, p) ?R"
    using par parent_rel_adopt [OF c, of p] by (auto simp: parent_of_iff) (auto simp: parent_rel_def)
  have "antichain ?s"
    unfolding antichain_def is_ancestor_iff [OF f'] R' rtrancl_insert
  proof (intro ballI impI notI)
    fix i j assume ij: "i \<in> set (st_open ?s)" "j \<in> set (st_open ?s)" "i \<noteq> j"
      and r: "(j, i) \<in> ?R\<^sup>* \<union> {(x, y). (x, c) \<in> ?R\<^sup>* \<and> (p, y) \<in> ?R\<^sup>*}"
    have op: "st_open ?s = st_open s" by (simp add: adopt_def)
    from ij ac have "(j, i) \<notin> ?R\<^sup>*" by (auto simp: antichain_def op is_ancestor_iff [OF f])
    with r have "j \<in> set (descendants s c)" by (simp add: descendants_props(1) [OF ids])
    moreover from ij st have "j < length (st_regions s)" by (simp add: op stack_ok_def)
    ultimately show False using closed stack_ok_mem [OF st] ij by (simp add: op)
  qed
  moreover have "stack_ok ?s" using st by (auto simp: stack_ok_def adopt_def nth_modify_at)
  ultimately show ?thesis using f' by simp
qed


lemma scope_charge:
  "scope_inv s \<Longrightarrow> charge_into s i b = Inr s' \<Longrightarrow> stack_ok s' \<and> forest_ok (st_regions s') \<and> antichain s'"
  by (erule scope_same)
    (auto simp: charge_into_def nth_modify_at split: option.splits sum.splits)

lemma scope_growth:
  "scope_inv s \<Longrightarrow> charge_growth s i b = Inr s' \<Longrightarrow> stack_ok s' \<and> forest_ok (st_regions s') \<and> antichain s'"
  by (erule scope_same)
    (auto simp: charge_growth_def nth_modify_at split: option.splits sum.splits if_splits)

lemma scope_claim:
  assumes "scope_inv s"
  shows "stack_ok (claim s i c) \<and> forest_ok (st_regions (claim s i c)) \<and> antichain (claim s i c)"
proof (rule scope_same [OF assms])
  have pw: "((\<lambda>r. r\<lparr>rg_claim := c\<rparr>) ^^ n) r = (if n = 0 then r else r\<lparr>rg_claim := c\<rparr>)" for n and r :: region
    by (induction n) auto
  have len: "length (fold (\<lambda>t. modify_at t f) ts rs) = length rs" for f ts and rs :: "region list"
    by (induction ts arbitrary: rs) auto
  show "length (st_regions (claim s i c)) = length (st_regions s)" "st_open (claim s i c) = st_open s"
    by (simp_all add: claim_def len)
  show "rg_parent (st_regions (claim s i c) ! j) = rg_parent (st_regions s ! j) \<and>
     rg_depth (st_regions (claim s i c) ! j) = rg_depth (st_regions s ! j)" if "j < length (st_regions s)" for j
    using nth_fold_modify [OF that] by (simp add: claim_def pw)
qed

lemma scope_pool:
  assumes "scope_inv s"
  shows "stack_ok (pool_act x s) \<and> forest_ok (st_regions (pool_act x s)) \<and> antichain (pool_act x s)"
proof (cases x)
  case (DoFree r)
  with scope_free [OF assms] show ?thesis by simp
next
  case (DoNewPool e)
  show ?thesis
  proof (cases "charge_into s (current s) (container_bytes 0)")
    case (Inl b)
    with DoNewPool assms show ?thesis by (simp add: new_pool_def charge_def scope_inv_def)
  next
    case (Inr s1)
    with DoNewPool have "pool_act x s = s1\<lparr>st_pools := st_pools s1 @ [\<lparr>po_id = length (st_pools s1),
        po_region = current s, po_elem = e, po_slots = []\<rparr>]\<rparr>"
      by (simp add: new_pool_def charge_def Let_def)
    with scope_charge [OF assms Inr] show ?thesis
      by (simp add: stack_ok_def antichain_def is_ancestor_def)
  qed
qed (rule scope_same [OF assms];
    auto simp: reserve_def init_slot_def remove_slot_def set_slots_def split: option.splits prod.splits)+

lemma scope_cell:
  "scope_inv s \<Longrightarrow> stack_ok (cell_act x s) \<and> forest_ok (st_regions (cell_act x s)) \<and> antichain (cell_act x s)"
proof -
  assume inv: "scope_inv s"
  have "st_open (cell_act x s) = st_open s"
    by (cases x) (auto simp: new_cell_def retain_def release_def downgrade_def drop_weak_def upgrade_def
        add_strong_edge_def set_cell_def Let_def split: option.splits)
  from scope_same [OF inv _ this] show ?thesis by (simp add: cell_act_regions)
qed

lemma scope_act: "scope_inv s \<Longrightarrow> scope_guard x s \<Longrightarrow> scope_inv (store_act x s)"
proof -
  assume inv: "scope_inv s" and g: "scope_guard x s"
  then have "store_guard x s" by (cases x) auto
  with inv have wf: "store_wf (store_act x s)" by (simp add: scope_inv_def store_act_wf)
  have same: "stack_ok s \<and> forest_ok (st_regions s) \<and> antichain s" using inv by (simp add: scope_inv_def)
  have "stack_ok (store_act x s) \<and> forest_ok (st_regions (store_act x s)) \<and> antichain (store_act x s)"
  proof (cases x)
    case (SoEdge into e)
    from edge_parts [of s None into e] show ?thesis
    proof
      assume "fst (snd (check_edges s None into [e])) = s"
      with same SoEdge show ?thesis by simp
    next
      assume "\<exists>p c. into = Some p \<and> e = RefRegion c \<and> classify_edge s into e = EdgeIso c \<and>
        check_edges s None into [e] = (None, adopt s p c, record_forest (adopt s p c) None)"
      with scope_adopt [OF inv] g SoEdge show ?thesis by (auto simp del: check_edges.simps scope_guard.simps)
    qed
  next
    case (SoEnter i)
    with same scope_enter [OF inv] show ?thesis by (auto split: sum.splits)
  next
    case (SoCharge i b)
    with same scope_charge [OF inv] show ?thesis by (auto split: sum.splits)
  next
    case (SoGrow i b)
    with same scope_growth [OF inv] show ?thesis by (auto split: sum.splits)
  qed (use g in \<open>simp_all add: scope_create [OF inv] scope_leave [OF inv] scope_free [OF inv]
      scope_freeze [OF inv] scope_claim [OF inv] scope_pool [OF inv] scope_cell [OF inv]\<close>)
  with wf show ?thesis by (simp add: scope_inv_def)
qed

interpretation scope_machine: guarded_machine store_act scope_guard scope_inv
  by unfold_locales (rule scope_act)

lemma store_new_scope: "scope_inv (store_new :: 'c store)"
proof -
  have "parent_rel (st_regions (store_new :: 'c store)) = {}"
    by (auto simp: parent_rel_iff store_new_def create_def store_default_def Let_def modify_at_def)
  moreover have "stack_ok (store_new :: 'c store)" "antichain (store_new :: 'c store)"
    by (simp_all add: stack_ok_def antichain_def store_new_def create_def store_default_def Let_def
        modify_at_def)
  ultimately show ?thesis by (simp add: scope_inv_def store_new_wf forest_ok_def acyclic_def)
qed

section \<open>Properties\<close>


definition zero_span :: span where "zero_span = \<lparr>span_start = 0, span_end = 0\<rparr>"

definition demo_ops :: "nat store_op list" where
  "demo_ops = [SoCreate None Arena None zero_span, SoCreate None Rc None zero_span,
     SoEdge (Some 1) (RefRegion 2), SoEnter 1, SoEnter 2, SoEnter 1, SoLeave 1]"



text \<open>C26: In every reachable store, on every region: its charged bytes never exceed its cap, it is Open
  exactly while some scope holds it, and its generation is 1 once it was freed and 0 before.\<close>

theorem region_invariants_reachable:
  assumes "guarded_run store_act store_guard ops store_new" and "s = fold store_act ops store_new"
    and "i < length (st_regions s)" and "r = st_regions s ! i"
  shows "within_cap (rg_cap r) (rg_bytes r) \<and> rg_bytes r \<le> u64_max \<and>
     (rg_state r = RegOpen \<longleftrightarrow> rg_depth r > 0) \<and> (rg_state r = RegFreed \<longrightarrow> rg_generation r = 1) \<and>
     (rg_state r \<in> {RegOpen, RegSuspended} \<longrightarrow> rg_generation r = 0)"
proof -
  have "store_wf s" using store_machine.run [OF store_new_wf assms(1)] assms(2) by simp
  with assms(3,4) show ?thesis by (auto simp: store_wf_def region_wf_def)
qed

theorem region_invariants_reachable_witness:
  "rg_generation (st_regions (fold store_act (demo_ops @ [SoFree 1]) store_new) ! 2) = 1"
proof -
  have g: "guarded_run store_act store_guard (demo_ops @ [SoFree 1]) store_new" by code_simp
  have "2 < length (st_regions (fold store_act (demo_ops @ [SoFree 1]) store_new))"
    "rg_state (st_regions (fold store_act (demo_ops @ [SoFree 1]) store_new) ! 2) = RegFreed"
    by code_simp+
  with region_invariants_reachable [OF g refl _ refl] show ?thesis by blast
qed

text \<open>Region life goes one way. Along any run from a reachable store a region's state only moves
  Open/Suspended, then Freed, then Frozen, and its ledger never shrinks.\<close>

theorem region_life_one_way:
  assumes "guarded_run store_act store_guard ops store_new" and "s = fold store_act ops store_new"
    and "guarded_run store_act store_guard later s" and "i < length (st_regions s)"
  shows "life_rank (rg_state (st_regions s ! i)) \<le>
       life_rank (rg_state (st_regions (fold store_act later s) ! i)) \<and>
     bytes_of s i \<le> bytes_of (fold store_act later s) i"
proof -
  have "store_wf s" using store_machine.run [OF store_new_wf assms(1)] assms(2) by simp
  from store_run_one_way [OF this assms(3,4)] assms(4) show ?thesis
    by (simp add: bytes_of_def region_of_def)
qed

theorem region_life_one_way_witness:
  "rg_state (st_regions (fold store_act [SoFree 1, SoEnter 1, SoEnter 2] (fold store_act demo_ops store_new)) ! 2)
     \<notin> {RegOpen, RegSuspended}"
proof -
  let ?s = "fold store_act demo_ops store_new" and ?m = "[SoEnter 1, SoEnter 2] :: nat store_op list"
  have g: "guarded_run store_act store_guard (demo_ops @ [SoFree 1]) store_new"
    "guarded_run store_act store_guard ?m (fold store_act (demo_ops @ [SoFree 1]) store_new)"
    "2 < length (st_regions (fold store_act (demo_ops @ [SoFree 1]) store_new))"
    "life_rank (rg_state (st_regions (fold store_act (demo_ops @ [SoFree 1]) store_new) ! 2)) = 1"
    by code_simp+
  from region_life_one_way [OF g(1) refl g(2,3)] g(4) show ?thesis by auto
qed

text \<open>C25: \<open>free\<close> is wholesale and idempotent. It frees exactly the members of the owned subtree that are
  neither freed nor frozen, once each; afterwards every existing member is Freed or Frozen and off the
  scope stack, no other region changed, and a second \<open>free\<close> of the same region does nothing.\<close>

theorem free_wholesale:
  assumes "ids_ok (st_regions s)" and "free s i = (fr, s')"
  shows "distinct fr \<and>
     set fr = {t \<in> set (descendants s i). t < length (st_regions s) \<and>
        state_of s t \<notin> {Some RegFreed, Some RegFrozen}} \<and>
     (\<forall>t \<in> set (descendants s i). t < length (st_regions s) \<longrightarrow>
        state_of s' t \<in> {Some RegFreed, Some RegFrozen}) \<and>
     set (st_open s') = set (st_open s) - set fr \<and>
     (\<forall>t. t \<notin> set fr \<longrightarrow> region_of s' t = region_of s t) \<and>
     free s' i = ([], s')"
proof -
  note p = free_parts [OF assms]
  have ids': "ids_ok (st_regions s')" using assms(1) p(2,3) by (auto simp: ids_ok_def freed_region_def)
  have st: "state_of s t = map_option rg_state (get_at (st_regions s) t)" for s :: "'a store" and t
    by (simp add: state_of_def region_of_def)
  have anc: "descendants s' i = descendants s i"
  proof -
    let ?f = "\<lambda>r. if rg_id r \<in> set fr then freed_region r else r"
    have "st_regions s' = map ?f (st_regions s)"
      by (rule nth_equalityI) (use p(2,3) assms(1) in \<open>auto simp: ids_ok_def\<close>)
    then show ?thesis
      unfolding descendants_def by (simp only: length_map, intro descend_map) (simp add: freed_region_def)
  qed
  have none: "filter (freeable (st_regions s')) (descendants s i) = []"
    using p(1,2,3) by (auto simp: filter_empty_conv freeable_def freed_region_def split: if_splits)
  have again: "free s' i = ([], s')"
  proof -
    obtain fr2 s2 where f2: "free s' i = (fr2, s2)" by (cases "free s' i")
    obtain rs where rs: "free_regions (descendants s' i) (st_regions s') = (fr2, rs)"
      using f2 by (auto simp: free_def split: prod.splits)
    note q = free_parts [OF ids' f2]
    have "fr2 = []" using q(1) none anc by simp
    moreover have "rs = st_regions s'"
      using q(2,3) f2 rs \<open>fr2 = []\<close> by (intro nth_equalityI) (auto simp: free_def)
    ultimately show ?thesis using rs p(5) by (simp add: free_def)
  qed
  show ?thesis
    using p descendants_props(2) [OF assms(1), of i] again
    by (auto simp: st region_of_def get_at_def freeable_def freed_region_def)
qed

theorem free_wholesale_witness:
  "fst (free two_regions 1) = [1, 2] \<and> free (snd (free two_regions 1)) 1 = ([], snd (free two_regions 1))"
proof -
  have "fst (free two_regions 1) = [1, 2]" by code_simp
  with free_wholesale [OF two_regions_facts(1), of 1 "fst (free two_regions 1)" "snd (free two_regions 1)"]
  show ?thesis by simp
qed


text \<open>\<open>freeze\<close> succeeds exactly when the region was not freed and no member of its subtree is held by
  a scope; then the whole subtree is Frozen, nothing else changed and no later \<open>enter\<close> succeeds on it.
  When it is refused, no region changed.\<close>

theorem freeze_closed_subtree:
  assumes "ids_ok (st_regions s)" and "freeze s i = (res, s')"
  shows "((\<exists>fz. res = Inr fz) \<longleftrightarrow> state_of s i \<noteq> Some RegFreed \<and>
        (\<forall>t \<in> set (descendants s i). t < length (st_regions s) \<longrightarrow> rg_depth (st_regions s ! t) = 0)) \<and>
     (\<forall>e. res = Inl e \<longrightarrow> st_regions s' = st_regions s) \<and>
     (\<forall>fz t. res = Inr fz \<and> t < length (st_regions s) \<longrightarrow>
        (if t \<in> set (descendants s i) then state_of s' t = Some RegFrozen \<and> enter s' t = Inl (EnterFrozen t)
         else region_of s' t = region_of s t))"
proof (cases res)
  case (Inr fz)
  note p = freeze_parts [OF assms(1) assms(2) [unfolded Inr]]
  have "state_of s' t = Some RegFrozen \<and> enter s' t = Inl (EnterFrozen t)"
    if "t < length (st_regions s)" "t \<in> set (descendants s i)" for t
    using p(1,2) that by (simp add: state_of_def region_of_def enter_def frozen_region_def)
  moreover have "region_of s' t = region_of s t"
    if "t < length (st_regions s)" "t \<notin> set (descendants s i)" for t
    using p(1,2) that by (simp add: region_of_def)
  ultimately show ?thesis using p(5,6) Inr by auto
next
  case (Inl e)
  have d: "descendants (s\<lparr>st_teeth := True\<rparr>) i = descendants s i" by (simp add: descendants_def)
  from assms(2) Inl have "state_of s i = Some RegFreed \<or>
     find (\<lambda>t. case region_of (s\<lparr>st_teeth := True\<rparr>) t of None \<Rightarrow> False | Some r \<Rightarrow> rg_depth r > 0)
       (descendants s i) \<noteq> None"
    by (auto simp: freeze_def Let_def d state_of_def region_of_def split: if_splits option.splits prod.splits)
  then have "\<not> (state_of s i \<noteq> Some RegFreed \<and>
      (\<forall>t \<in> set (descendants s i). t < length (st_regions s) \<longrightarrow> rg_depth (st_regions s ! t) = 0))"
    by (auto simp: region_of_def dest!: find_SomeD split: option.splits)
  with Inl freeze_error_parts [OF assms(2) [unfolded Inl]] show ?thesis by simp
qed

theorem freeze_closed_subtree_witness:
  "fst (freeze two_regions 1) = Inr [1, 2] \<and> state_of (snd (freeze two_regions 1)) 2 = Some RegFrozen"
proof -
  have f: "freeze two_regions 1 = (Inr [1, 2], snd (freeze two_regions 1))" by code_simp
  have "2 < length (st_regions two_regions)" "2 \<in> set (descendants two_regions 1)" by code_simp+
  with freeze_closed_subtree [OF two_regions_facts(1) f] f show ?thesis by (metis fst_conv)
qed



text \<open>The cap is exact and charges are attributed to one region. \<open>charge_into\<close> refuses exactly when
  the region exists, has a cap and the saturated sum exceeds it, and then reports that region, its cap
  and the amounts; otherwise the ledger of that region alone grows, by exactly the bytes asked for
  unless \<open>u64\<close> saturates, and everything else is as before.\<close>

theorem charge_into_exact:
  "case charge_into s i b of
     Inl e \<Rightarrow> (\<exists>r c. region_of s i = Some r \<and> rg_cap r = Some c \<and> sat_add (rg_bytes r) b > c \<and>
        e = \<lparr>cb_region = rg_id r, cb_cap = c, cb_charged = rg_bytes r, cb_bytes = b\<rparr>)
   | Inr s' \<Rightarrow> (\<forall>r. region_of s i = Some r \<longrightarrow> within_cap (rg_cap r) (sat_add (rg_bytes r) b) \<and>
        bytes_of s' i = sat_add (bytes_of s i) b) \<and>
        (\<forall>k. k \<noteq> i \<longrightarrow> region_of s' k = region_of s k) \<and> st_open s' = st_open s \<and>
        (\<forall>k. state_of s' k = state_of s k)"
proof (cases "get_at (st_regions s) i")
  case None
  then show ?thesis by (simp add: charge_into_def region_of_def)
next
  case (Some r)
  show ?thesis
  proof (cases "admits r b")
    case (Inl e)
    with Some show ?thesis
      by (auto simp: charge_into_def region_of_def admits_def Let_def split: option.splits if_splits)
  next
    case (Inr tot)
    with admits_result [OF Inr] Some show ?thesis
      by (auto simp: charge_into_def region_of_def bytes_of_def state_of_def get_at_modify_at
          simp del: get_at_Some_iff)
  qed
qed

theorem charge_into_exact_witness:
  "charge_into (snd (create store_new None Arena (Some (10, zero_span)) zero_span) :: nat store) 1 16 =
     Inl \<lparr>cb_region = 1, cb_cap = 10, cb_charged = 0, cb_bytes = 16\<rparr>"
proof -
  let ?s = "snd (create store_new None Arena (Some (10, zero_span)) zero_span) :: nat store"
  have r: "region_of ?s 1 = Some (st_regions ?s ! 1)" "rg_cap (st_regions ?s ! 1) = Some 10"
    "rg_bytes (st_regions ?s ! 1) = 0" "rg_id (st_regions ?s ! 1) = 1"
    by code_simp+
  have "sat_add 0 16 = 16" by (simp add: sat_add_def)
  with charge_into_exact [of ?s 1 16] r show ?thesis by (auto split: sum.splits)
qed

lemma modify_at_undo:
  "g (f (xs ! i)) = xs ! i \<Longrightarrow> i < length xs \<Longrightarrow> modify_at i g (modify_at i f xs) = xs"
  by (simp add: modify_at_def)

text \<open>\<open>enter\<close> succeeds exactly on an existing Open or Suspended region that is already open or
  disjoint from every open one; it pushes the region, and leaving at once restores the store.\<close>

theorem enter_leave_roundtrip:
  assumes "store_wf s"
  shows "((\<exists>s'. enter s i = Inr s') \<longleftrightarrow>
       state_of s i \<in> {Some RegOpen, Some RegSuspended} \<and>
       (state_of s i = Some RegOpen \<or>
        (\<forall>k \<in> set (st_open s). \<not> is_ancestor s k i \<and> \<not> is_ancestor s i k))) \<and>
     (\<forall>s'. enter s i = Inr s' \<longrightarrow>
        st_open s' = st_open s @ [i] \<and> state_of s' i = Some RegOpen \<and> leave s' i = s)"
proof (intro conjI allI impI)
  have wf: "rg_state (st_regions s ! i) = RegOpen \<longleftrightarrow> rg_depth (st_regions s ! i) > 0"
    if "i < length (st_regions s)"
    using assms that by (simp add: store_wf_def region_wf_def)
  show "(\<exists>s'. enter s i = Inr s') \<longleftrightarrow> state_of s i \<in> {Some RegOpen, Some RegSuspended} \<and>
       (state_of s i = Some RegOpen \<or>
        (\<forall>k \<in> set (st_open s). \<not> is_ancestor s k i \<and> \<not> is_ancestor s i k))"
    using wf by (cases "i < length (st_regions s)")
      (auto simp: enter_def state_of_def region_of_def find_None_iff_all
        split: region_state.splits option.splits dest!: find_SomeD)
  fix s' assume en: "enter s i = Inr s'"
  note e = enter_result [OF en]
  then have i: "i < length (st_regions s)" by simp
  show "st_open s' = st_open s @ [i]" "state_of s' i = Some RegOpen"
    using e by (simp_all add: state_of_def region_of_def)
  let ?up = "\<lambda>r. r\<lparr>rg_state := RegOpen, rg_depth := rg_depth r + 1\<rparr>"
  let ?down = "\<lambda>r. let d = rg_depth r - 1 in r\<lparr>rg_depth := d,
      rg_state := (if d = 0 \<and> rg_state r = RegOpen then RegSuspended else rg_state r)\<rparr>"
  have ud: "?down (?up r) = r"
    if "rg_state r = RegOpen \<or> rg_state r = RegSuspended" "rg_state r = RegOpen \<longleftrightarrow> rg_depth r > 0" for r :: region
    using that by (cases r) auto
  have "?down (?up (st_regions s ! i)) = st_regions s ! i"
    by (rule ud) (use e wf [OF i] in blast)+
  then have "modify_at i ?down (modify_at i ?up (st_regions s)) = st_regions s"
    using i by (rule modify_at_undo)
  moreover have "remove_last i (st_open s @ [i]) = st_open s" by (simp add: remove_last_def)
  moreover have "s' = s\<lparr>st_regions := modify_at i ?up (st_regions s), st_open := st_open s @ [i]\<rparr>"
    using e by blast
  ultimately show "leave s' i = s" unfolding leave_def by simp
qed

theorem enter_leave_roundtrip_witness:
  "(\<exists>s'. enter (store_new :: nat store) 0 = Inr s') \<and> state_of (store_new :: nat store) 0 = Some RegOpen"
proof -
  have "state_of (store_new :: nat store) 0 = Some RegOpen" by code_simp
  with enter_leave_roundtrip [of "store_new :: nat store" 0] store_new_wf show ?thesis by auto
qed

end
