(* ===== verification/Provenance.thy ===== *)
theory Provenance
  imports Values "HOL-Library.AList"
begin

text \<open>
  The provenance machine of \<open>src/src/eval/prov.rs\<close>: allocations with their trees of tags, a
  permission per byte and tag, the access check and the operations that change the trees. Labels,
  trace notes and the rendered borrow tree of a finding are diagnostics and not modelled. Indexing
  that the source does unchecked (\<open>self.tags[tag]\<close>) is \<open>!\<close>; the invariant \<open>prov_wf\<close> of the theory
  ProvInvariant keeps every such index in range. The place map is an association list: its order is
  visible only in the order of \<open>dirty\<close>, which \<open>prune\<close> sorts.
\<close>

section \<open>The closed enumeration of undefined behaviour\<close>

datatype ub_row = P1 | P2 | P3 | P4 | P5 | P6 | L1 | L2 | L3 | L4 | T1 | T2 | C1

definition ub_ALL :: "ub_row list" where
  "ub_ALL = [P1, P2, P3, P4, P5, P6, L1, L2, L3, L4, T1, T2, C1]"

fun ub_id :: "ub_row \<Rightarrow> string" where
  "ub_id P1 = ''P1''" | "ub_id P2 = ''P2''" | "ub_id P3 = ''P3''" | "ub_id P4 = ''P4''"
| "ub_id P5 = ''P5''" | "ub_id P6 = ''P6''" | "ub_id L1 = ''L1''" | "ub_id L2 = ''L2''"
| "ub_id L3 = ''L3''" | "ub_id L4 = ''L4''" | "ub_id T1 = ''T1''" | "ub_id T2 = ''T2''"
| "ub_id C1 = ''C1''"

definition ub_clause :: "ub_row \<Rightarrow> string" where
  "ub_clause r =
     (case r of
        P1 \<Rightarrow> ''mem.prov.state'' | P2 \<Rightarrow> ''mem.prov.state''
      | P4 \<Rightarrow> ''mem.prov.region''
      | P5 \<Rightarrow> ''mem.unsafe.raw.2''
      | P6 \<Rightarrow> ''mem.unsafe.door''
      | L2 \<Rightarrow> ''mem.unsafe.raw.1''
      | L3 \<Rightarrow> ''mem.unsafe.volatile''
      | L4 \<Rightarrow> ''mem.unsafe.raw.4''
      | C1 \<Rightarrow> ''conc.mm.race.3''
      | _ \<Rightarrow> ''mem.ub'')"

text \<open>The reasons of the unreachable rows are prose.\<close>

datatype coverage = Detected | DeferredConcurrency | Unreachable

definition ub_coverage :: "ub_row \<Rightarrow> coverage" where
  "ub_coverage r = (case r of T1 \<Rightarrow> Unreachable | T2 \<Rightarrow> Unreachable | C1 \<Rightarrow> DeferredConcurrency | _ \<Rightarrow> Detected)"

record ub_finding =
  uf_row :: ub_row
  uf_span :: span
  uf_tag_span :: "span option"

section \<open>State\<close>

datatype perm = Reserved | Active | Frozen | Disabled

datatype origin = HostC | PlaceOrigin

record alloc =
  al_id :: alloc_id
  al_size :: nat
  al_bytes :: "8 word list"
  al_init :: "bool list"
  al_live :: bool
  al_origin :: origin
  al_owner :: "region_id option"
  al_root :: tag_id
  al_tags :: "tag_id list"
  al_exposed :: "tag_id list"
  al_span :: span

record tag =
  tg_id :: tag_id
  tg_alloc :: alloc_id
  tg_parent :: "tag_id option"
  tg_perms :: "perm list"
  tg_protected :: bool
  tg_span :: span

record assumption =
  as_ranges :: "(alloc_id option \<times> int \<times> int) list"
  as_span :: span

datatype access_kind = Read | Write

datatype retag_kind = MutableTag | SharedTag

fun retag_perm :: "retag_kind \<Rightarrow> perm" where
  "retag_perm MutableTag = Reserved"
| "retag_perm SharedTag = Frozen"

record provenance =
  pv_allocs :: "alloc list"
  pv_tags :: "tag list"
  pv_places :: "(string \<times> alloc_id \<times> tag_id) list"
  pv_assumptions :: "assumption list"
  pv_region_dead :: "region_id list"
  pv_dirty :: "alloc_id list"

definition prov_new :: provenance where
  "prov_new = \<lparr>pv_allocs = [], pv_tags = [], pv_places = [], pv_assumptions = [],
     pv_region_dead = [], pv_dirty = []\<rparr>"

definition mark_dirty :: "provenance \<Rightarrow> alloc_id \<Rightarrow> provenance" where
  "mark_dirty p a =
     (if pv_dirty p \<noteq> [] \<and> last (pv_dirty p) = a then p else p\<lparr>pv_dirty := pv_dirty p @ [a]\<rparr>)"

definition set_alloc :: "alloc_id \<Rightarrow> (alloc \<Rightarrow> alloc) \<Rightarrow> provenance \<Rightarrow> provenance" where
  "set_alloc a f p = p\<lparr>pv_allocs := modify_at a f (pv_allocs p)\<rparr>"

definition set_tag :: "tag_id \<Rightarrow> (tag \<Rightarrow> tag) \<Rightarrow> provenance \<Rightarrow> provenance" where
  "set_tag t f p = p\<lparr>pv_tags := modify_at t f (pv_tags p)\<rparr>"

definition live_host_allocs :: "provenance \<Rightarrow> alloc_id list" where
  "live_host_allocs p = map al_id (filter (\<lambda>a. al_live a \<and> al_origin a = HostC) (pv_allocs p))"

section \<open>Creation\<close>

definition new_alloc :: "provenance \<Rightarrow> nat \<Rightarrow> origin \<Rightarrow> region_id option \<Rightarrow> span \<Rightarrow> perm
    \<Rightarrow> alloc_id \<times> provenance" where
  "new_alloc p sz orig owner sp root_perm =
     (let i = length (pv_allocs p); root = length (pv_tags p) in
      (i, p\<lparr>pv_tags := pv_tags p @ [\<lparr>tg_id = root, tg_alloc = i, tg_parent = None,
             tg_perms = replicate sz root_perm, tg_protected = False, tg_span = sp\<rparr>],
           pv_allocs := pv_allocs p @ [\<lparr>al_id = i, al_size = sz, al_bytes = replicate sz 0,
             al_init = replicate sz False, al_live = True, al_origin = orig, al_owner = owner,
             al_root = root, al_tags = [root], al_exposed = [], al_span = sp\<rparr>]\<rparr>))"

definition tag_ptr :: "alloc_id \<Rightarrow> tag_id \<Rightarrow> raw_ptr" where
  "tag_ptr a t = \<lparr>rp_alloc = Some a, rp_offset = 0, rp_prov = Tag t, rp_elem = 1, rp_signed = False,
     rp_kind = PtOther, rp_strukt = None\<rparr>"

definition host_alloc :: "provenance \<Rightarrow> nat \<Rightarrow> region_id \<Rightarrow> span \<Rightarrow> raw_ptr \<times> provenance" where
  "host_alloc p sz owner sp =
     (let (i, p1) = new_alloc p sz HostC (Some owner) sp Active;
          root = al_root (pv_allocs p1 ! i)
      in (tag_ptr i root, set_alloc i (\<lambda>a. a\<lparr>al_exposed := al_exposed a @ [root]\<rparr>) p1))"

text \<open>Every permission of every listed tag, rewritten.\<close>

definition map_perms :: "(perm \<Rightarrow> perm) \<Rightarrow> tag_id list \<Rightarrow> provenance \<Rightarrow> provenance" where
  "map_perms f ts p = fold (\<lambda>t. set_tag t (\<lambda>e. e\<lparr>tg_perms := map f (tg_perms e)\<rparr>)) ts p"

definition host_free :: "provenance \<Rightarrow> raw_ptr \<Rightarrow> bool \<times> provenance" where
  "host_free p ptr =
     (case rp_alloc ptr of
        None \<Rightarrow> (False, p)
      | Some i \<Rightarrow>
          (case get_at (pv_allocs p) i of
             None \<Rightarrow> (False, p)
           | Some a \<Rightarrow>
               if \<not> al_live a \<or> al_origin a \<noteq> HostC \<or> rp_offset ptr \<noteq> 0 then (False, p)
               else (True, map_perms (\<lambda>_. Disabled) (al_tags a)
                            (set_alloc i (\<lambda>a. a\<lparr>al_live := False\<rparr>) p))))"

section \<open>Places\<close>

definition place :: "provenance \<Rightarrow> string \<Rightarrow> (alloc_id \<times> tag_id) option" where
  "place p key = map_of (pv_places p) key"

definition put_place :: "string \<Rightarrow> alloc_id \<times> tag_id \<Rightarrow> provenance \<Rightarrow> provenance" where
  "put_place key e p = p\<lparr>pv_places := AList.update key e (pv_places p)\<rparr>"

definition place_alloc :: "provenance \<Rightarrow> string \<Rightarrow> region_id option \<Rightarrow> span
    \<Rightarrow> (alloc_id \<times> tag_id) \<times> provenance" where
  "place_alloc p key owner sp =
     (case place p key of
        Some found \<Rightarrow> (found, p)
      | None \<Rightarrow>
          let (i, p1) = new_alloc p 1 PlaceOrigin owner sp Active;
              p2 = set_alloc i (\<lambda>a. a\<lparr>al_init := map (\<lambda>_. True) (al_init a)\<rparr>) p1;
              e = (i, al_root (pv_allocs p2 ! i))
          in (e, put_place key e p2))"

definition displaced :: "(alloc_id \<times> tag_id) option \<Rightarrow> provenance \<Rightarrow> provenance" where
  "displaced was p = (case was of None \<Rightarrow> p | Some (a, _) \<Rightarrow> mark_dirty p a)"

definition bind_place :: "provenance \<Rightarrow> string \<Rightarrow> alloc_id \<Rightarrow> tag_id \<Rightarrow> provenance" where
  "bind_place p key a t = displaced (place p key) (put_place key (a, t) p)"

definition rebind_place :: "provenance \<Rightarrow> string \<Rightarrow> alloc_id \<Rightarrow> tag_id
    \<Rightarrow> (alloc_id \<times> tag_id) option \<times> provenance" where
  "rebind_place p key a t = (place p key, displaced (place p key) (put_place key (a, t) p))"

definition restore_place :: "provenance \<Rightarrow> string \<Rightarrow> (alloc_id \<times> tag_id) option \<Rightarrow> provenance" where
  "restore_place p key previous =
     displaced (place p key)
       (case previous of
          Some e \<Rightarrow> put_place key e p
        | None \<Rightarrow> p\<lparr>pv_places := AList.delete key (pv_places p)\<rparr>)"

text \<open>\<open>str::parse::<usize>\<close> on 64 bits: an optional plus sign, digits, and no overflow.\<close>

fun digits_value :: "nat \<Rightarrow> string \<Rightarrow> nat option" where
  "digits_value acc [] = Some acc"
| "digits_value acc (c # cs) =
     (let d = of_char c :: nat in
      if 48 \<le> d \<and> d \<le> 57 then
        let acc' = acc * 10 + (d - 48) in
        if acc' \<le> u64_max then digits_value acc' cs else None
      else None)"

definition parse_usize :: "string \<Rightarrow> nat option" where
  "parse_usize s =
     (let ds = (case s of c # cs \<Rightarrow> if c = CHR ''+'' then cs else s | [] \<Rightarrow> s) in
      if ds = [] then None else digits_value 0 ds)"

text \<open>\<open>strip_prefix\<close> and \<open>split_once\<close> on the first colon.\<close>

fun strip_prefix :: "string \<Rightarrow> string \<Rightarrow> string option" where
  "strip_prefix [] s = Some s"
| "strip_prefix (c # cs) [] = None"
| "strip_prefix (c # cs) (d # ds) = (if c = d then strip_prefix cs ds else None)"

fun before_colon :: "string \<Rightarrow> string option" where
  "before_colon [] = None"
| "before_colon (c # cs) = (if c = CHR '':'' then Some [] else map_option (Cons c) (before_colon cs))"

text \<open>The decimal rendering of an index in a key.\<close>

fun show_nat :: "nat \<Rightarrow> string" where
  "show_nat n = (if n < 10 then [char_of (48 + n)] else show_nat (n div 10) @ [char_of (48 + n mod 10)])"

declare show_nat.simps [simp del]

definition frame_of_key :: "nat \<Rightarrow> string \<Rightarrow> nat option" where
  "frame_of_key task key =
     Option.bind (strip_prefix (''t'' @ show_nat task @ '':'') key)
       (\<lambda>rest. Option.bind (before_colon rest) parse_usize)"

text \<open>The \<open>retain\<close> of \<open>drop_frame\<close>: the kept bindings, and the dirty list with the dropped ones.\<close>

fun retain_places :: "(string \<Rightarrow> bool) \<Rightarrow> (string \<times> alloc_id \<times> tag_id) list \<Rightarrow> alloc_id list
    \<Rightarrow> (string \<times> alloc_id \<times> tag_id) list \<times> alloc_id list" where
  "retain_places keep [] dirty = ([], dirty)"
| "retain_places keep ((k, a, t) # es) dirty =
     (if keep k then let (kept, d) = retain_places keep es dirty in ((k, a, t) # kept, d)
      else retain_places keep es
        (if dirty \<noteq> [] \<and> last dirty = a then dirty else dirty @ [a]))"

definition drop_frame :: "provenance \<Rightarrow> nat \<Rightarrow> nat \<Rightarrow> provenance" where
  "drop_frame p task frame =
     (let (kept, d) = retain_places
          (\<lambda>k. case frame_of_key task k of None \<Rightarrow> True | Some f \<Rightarrow> f < frame) (pv_places p) (pv_dirty p)
      in p\<lparr>pv_places := kept, pv_dirty := d\<rparr>)"


text \<open>\<open>prune\<close>: one round keeps the root, the protected, the parents, the bound and the exposed tags; the
  rounds stop when nothing falls off.\<close>

definition keep_tag :: "provenance \<Rightarrow> tag_id list \<Rightarrow> alloc \<Rightarrow> tag_id list \<Rightarrow> tag_id \<Rightarrow> bool" where
  "keep_tag p bound a ts t \<longleftrightarrow>
     t = al_root a \<or> tg_protected (pv_tags p ! t) \<or>
     Some t \<in> (\<lambda>u. tg_parent (pv_tags p ! u)) ` set ts \<or>
     t \<in> set bound \<or> t \<in> set (al_exposed a)"

function prune_tags :: "provenance \<Rightarrow> tag_id list \<Rightarrow> alloc \<Rightarrow> tag_id list \<Rightarrow> tag_id list" where
  "prune_tags p bound a ts =
     (let kept = filter (keep_tag p bound a ts) ts in
      if length kept = length ts then ts else prune_tags p bound a kept)"
  by pat_completeness auto

termination prune_tags
proof (relation "measure (\<lambda>(_, _, _, ts). length ts)")
  fix p bound a and ts kept :: "tag_id list"
  assume k: "kept = filter (keep_tag p bound a ts) ts" and ne: "length kept \<noteq> length ts"
  have "length kept \<le> length ts" unfolding k by (rule length_filter_le)
  with ne have "length kept < length ts" by simp
  then show "((p, bound, a, kept), (p, bound, a, ts)) \<in> measure (\<lambda>(_, _, _, ts). length ts)" by simp
qed simp

declare prune_tags.simps [simp del]

definition prune :: "provenance \<Rightarrow> provenance" where
  "prune p =
     (if pv_dirty p = [] then p
      else let bound = map (\<lambda>(_, _, t). t) (pv_places p) in
        (fold (\<lambda>i q. set_alloc i (\<lambda>a. a\<lparr>al_tags := prune_tags q bound a (al_tags a)\<rparr>) q)
           (sort (remdups (pv_dirty p))) p)\<lparr>pv_dirty := []\<rparr>)"

section \<open>Retagging, exposure and regions\<close>

definition retag :: "provenance \<Rightarrow> alloc_id \<Rightarrow> tag_id \<Rightarrow> retag_kind \<Rightarrow> bool \<Rightarrow> span
    \<Rightarrow> tag_id \<times> provenance" where
  "retag p a parent kind prot sp =
     (let i = length (pv_tags p); sz = al_size (pv_allocs p ! a);
          p1 = p\<lparr>pv_tags := pv_tags p @ [\<lparr>tg_id = i, tg_alloc = a, tg_parent = Some parent,
             tg_perms = replicate sz (retag_perm kind), tg_protected = prot, tg_span = sp\<rparr>]\<rparr>
      in (i, mark_dirty (set_alloc a (\<lambda>e. e\<lparr>al_tags := al_tags e @ [i]\<rparr>) p1) a))"

definition retag_place :: "provenance \<Rightarrow> string \<Rightarrow> retag_kind \<Rightarrow> bool \<Rightarrow> span
    \<Rightarrow> (alloc_id \<times> tag_id) \<times> provenance" where
  "retag_place p key kind prot sp =
     (let ((a, parent), p1) = place_alloc p key None sp;
          (child, p2) = retag p1 a parent kind prot sp
      in ((a, child), p2))"

definition unprotect :: "provenance \<Rightarrow> tag_id \<Rightarrow> provenance" where
  "unprotect p t =
     (case get_at (pv_tags p) t of
        None \<Rightarrow> p
      | Some e \<Rightarrow>
          if \<not> tg_protected e then p
          else mark_dirty (set_tag t (\<lambda>e. e\<lparr>tg_protected := False\<rparr>) p) (tg_alloc e))"

definition expose :: "provenance \<Rightarrow> raw_ptr \<Rightarrow> provenance" where
  "expose p ptr =
     (case (rp_alloc ptr, rp_prov ptr) of
        (Some a, Tag t) \<Rightarrow>
          set_alloc a (\<lambda>e. if t \<in> set (al_exposed e) then e
                           else e\<lparr>al_exposed := al_exposed e @ [t]\<rparr>) p
      | _ \<Rightarrow> p)"

definition is_exposed :: "provenance \<Rightarrow> alloc_id \<Rightarrow> tag_id \<Rightarrow> bool" where
  "is_exposed p a t = (case get_at (pv_allocs p) a of None \<Rightarrow> False | Some e \<Rightarrow> t \<in> set (al_exposed e))"

definition owned_by :: "region_id list \<Rightarrow> alloc \<Rightarrow> bool" where
  "owned_by regions a = (case al_owner a of None \<Rightarrow> False | Some r \<Rightarrow> r \<in> set regions)"

definition owned_tags :: "provenance \<Rightarrow> region_id list \<Rightarrow> tag_id list list" where
  "owned_tags p regions = map al_tags (filter (owned_by regions) (pv_allocs p))"

definition region_freed :: "provenance \<Rightarrow> region_id list \<Rightarrow> provenance" where
  "region_freed p regions =
     fold (map_perms (\<lambda>_. Disabled)) (owned_tags p regions)
       (p\<lparr>pv_region_dead := fold (\<lambda>r ds. if r \<in> set ds then ds else ds @ [r]) regions (pv_region_dead p)\<rparr>)"

definition freeze_perm :: "perm \<Rightarrow> perm" where
  "freeze_perm q = (if q \<noteq> Disabled then Frozen else q)"

definition region_frozen :: "provenance \<Rightarrow> region_id list \<Rightarrow> provenance" where
  "region_frozen p regions = fold (map_perms freeze_perm) (owned_tags p regions) p"

section \<open>assume noalias\<close>

definition ptr_range :: "raw_ptr \<Rightarrow> alloc_id option \<times> int \<times> int" where
  "ptr_range q = (rp_alloc q, rp_offset q, rp_offset q + int (rp_elem q))"

fun overlaps :: "alloc_id option \<times> int \<times> int \<Rightarrow> alloc_id option \<times> int \<times> int \<Rightarrow> bool" where
  "overlaps (a, lo, hi) (b, lo', hi') \<longleftrightarrow> a \<noteq> None \<and> a = b \<and> lo < hi' \<and> lo' < hi"

text \<open>The nested loop over pairs, outer index first; the first element of an overlapping pair.\<close>

fun first_overlap :: "(alloc_id option \<times> int \<times> int) list \<Rightarrow> (alloc_id option \<times> int \<times> int) option" where
  "first_overlap [] = None"
| "first_overlap (a # rest) = (if \<exists>b \<in> set rest. overlaps a b then Some a else first_overlap rest)"

definition assume_noalias :: "provenance \<Rightarrow> raw_ptr list \<Rightarrow> span \<Rightarrow> ub_finding option \<times> provenance" where
  "assume_noalias p ptrs sp =
     (let ranges = map ptr_range ptrs in
      case first_overlap ranges of
        Some (a, _, _) \<Rightarrow>
          (Some \<lparr>uf_row = P5, uf_span = sp,
             uf_tag_span = Option.bind a (\<lambda>i. map_option al_span (get_at (pv_allocs p) i))\<rparr>, p)
      | None \<Rightarrow>
          (None, p\<lparr>pv_assumptions := pv_assumptions p @ [\<lparr>as_ranges = ranges, as_span = sp\<rparr>]\<rparr>))"

section \<open>The access check\<close>

text \<open>The walk from the accessing tag to the root, stopped after as many steps as there are tags.\<close>

fun child_walk :: "tag list \<Rightarrow> tag_id \<Rightarrow> nat \<Rightarrow> tag_id option \<Rightarrow> bool" where
  "child_walk tags node fuel None = False"
| "child_walk tags node 0 (Some cur) = (cur = node)"
| "child_walk tags node (Suc fuel) (Some cur) =
     (cur = node \<or> child_walk tags node fuel (tg_parent (tags ! cur)))"

definition is_child_access :: "provenance \<Rightarrow> tag_id \<Rightarrow> tag_id \<Rightarrow> bool" where
  "is_child_access p node through = child_walk (pv_tags p) node (length (pv_tags p)) (Some through)"

text \<open>The transition table: a permission, child or foreign, the kind of access and the protector, to the
  violated row or the next permission (\<open>None\<close>: it stays).\<close>

fun transition :: "perm \<Rightarrow> bool \<Rightarrow> access_kind \<Rightarrow> bool \<Rightarrow> ub_row + perm option" where
  "transition Reserved True Read prot = Inr None"
| "transition Reserved True Write prot = Inr (Some Active)"
| "transition Active True k prot = Inr None"
| "transition Frozen True Read prot = Inr None"
| "transition Frozen True Write prot = Inl P2"
| "transition Disabled True k prot = Inl P1"
| "transition Reserved False Read prot = Inr None"
| "transition Active False Read prot = Inr (Some Frozen)"
| "transition Frozen False Read prot = Inr None"
| "transition Disabled False Read prot = Inr None"
| "transition Disabled False Write prot = Inr None"
| "transition Reserved False Write prot = (if prot then Inl P1 else Inr (Some Disabled))"
| "transition Active False Write prot = (if prot then Inl P1 else Inr (Some Disabled))"
| "transition Frozen False Write prot = (if prot then Inl P1 else Inr (Some Disabled))"

definition plan_cell :: "provenance \<Rightarrow> tag_id \<Rightarrow> access_kind \<Rightarrow> span \<Rightarrow> tag_id \<times> nat
    \<Rightarrow> ub_finding + (tag_id \<times> nat \<times> perm) option" where
  "plan_cell p through kind sp = (\<lambda>(node, off).
     (let e = pv_tags p ! node in
      case transition (tg_perms e ! off) (is_child_access p node through) kind (tg_protected e) of
        Inl row \<Rightarrow> Inl \<lparr>uf_row = row, uf_span = sp, uf_tag_span = map_option tg_span (get_at (pv_tags p) node)\<rparr>
      | Inr next \<Rightarrow> Inr (map_option (\<lambda>q. (node, off, q)) next)))"

text \<open>A loop with an early return on the first error, collecting what is produced.\<close>

fun collect :: "('a \<Rightarrow> 'e + 'b option) \<Rightarrow> 'a list \<Rightarrow> 'e + 'b list" where
  "collect f [] = Inr []"
| "collect f (x # xs) =
     (case f x of
        Inl e \<Rightarrow> Inl e
      | Inr y \<Rightarrow>
          (case collect f xs of
             Inl e \<Rightarrow> Inl e
           | Inr ys \<Rightarrow> Inr (case y of None \<Rightarrow> ys | Some b \<Rightarrow> b # ys)))"

definition cells :: "tag_id list \<Rightarrow> nat \<Rightarrow> nat \<Rightarrow> (tag_id \<times> nat) list" where
  "cells ts lo hi = concat (map (\<lambda>t. map (Pair t) [lo..<hi]) ts)"

definition plan :: "provenance \<Rightarrow> alloc_id \<Rightarrow> tag_id \<Rightarrow> nat \<Rightarrow> nat \<Rightarrow> access_kind \<Rightarrow> span
    \<Rightarrow> ub_finding + (tag_id \<times> nat \<times> perm) list" where
  "plan p a through lo hi kind sp =
     collect (plan_cell p through kind sp) (cells (al_tags (pv_allocs p ! a)) lo hi)"

definition commit :: "(tag_id \<times> nat \<times> perm) list \<Rightarrow> provenance \<Rightarrow> provenance" where
  "commit pl p = fold (\<lambda>(t, off, q). set_tag t (\<lambda>e. e\<lparr>tg_perms := (tg_perms e)[off := q]\<rparr>)) pl p"

text \<open>The angelic choice: the first exposed tag whose plan succeeds, or the first finding.\<close>

fun angelic :: "(tag_id \<Rightarrow> ub_finding + 'b) \<Rightarrow> tag_id list \<Rightarrow> ub_finding option \<Rightarrow> ub_finding option + 'b" where
  "angelic f [] first = Inl first"
| "angelic f (c # cs) first =
     (case f c of
        Inr pl \<Rightarrow> Inr pl
      | Inl e \<Rightarrow> angelic f cs (case first of None \<Rightarrow> Some e | Some e0 \<Rightarrow> Some e0))"

definition resolve :: "provenance \<Rightarrow> alloc_id \<Rightarrow> prov \<Rightarrow> nat \<Rightarrow> nat \<Rightarrow> access_kind \<Rightarrow> span
    \<Rightarrow> ub_finding + (tag_id \<times> nat \<times> perm) list" where
  "resolve p a pr lo hi kind sp =
     (let e = pv_allocs p ! a; at_alloc = (\<lambda>row. \<lparr>uf_row = row, uf_span = sp, uf_tag_span = Some (al_span e)\<rparr>) in
      case pr of
        Tag t \<Rightarrow> plan p a t lo hi kind sp
      | Wildcard \<Rightarrow>
          if \<not> al_live e then Inl (at_alloc L2)
          else (case angelic (\<lambda>c. plan p a c lo hi kind sp) (al_exposed e) None of
                  Inr pl \<Rightarrow> Inr pl
                | Inl (Some f) \<Rightarrow> Inl f
                | Inl None \<Rightarrow> Inl (at_alloc P1)))"

definition init_all :: "nat \<Rightarrow> nat \<Rightarrow> bool list \<Rightarrow> bool list" where
  "init_all lo hi xs = fold (\<lambda>off xs. xs[off := True]) [lo..<hi] xs"

definition mem_access :: "provenance \<Rightarrow> raw_ptr \<Rightarrow> nat \<Rightarrow> access_kind \<Rightarrow> span \<Rightarrow> ub_finding option \<times> provenance" where
  "mem_access p ptr len kind sp =
     (case Option.bind (rp_alloc ptr) (\<lambda>a. map_option (Pair a) (get_at (pv_allocs p) a)) of
        None \<Rightarrow> (Some \<lparr>uf_row = L2, uf_span = sp, uf_tag_span = None\<rparr>, p)
      | Some (a, e) \<Rightarrow>
          let at_alloc = (\<lambda>row. \<lparr>uf_row = row, uf_span = sp, uf_tag_span = Some (al_span e)\<rparr>) in
          if rp_offset ptr < 0 \<or> rp_offset ptr + int len > int (al_size e) then (Some (at_alloc P3), p)
          else let lo = nat (rp_offset ptr); hi = lo + len in
            if owned_by (pv_region_dead p) e then (Some (at_alloc P4), p)
            else (case resolve p a (rp_prov ptr) lo hi kind sp of
                    Inl f \<Rightarrow> (Some f, p)
                  | Inr pl \<Rightarrow>
                      let p1 = commit pl p in
                      case kind of
                        Read \<Rightarrow>
                          (case find (\<lambda>off. \<not> al_init e ! off) [lo..<hi] of
                             Some _ \<Rightarrow> (Some (at_alloc L1), p1)
                           | None \<Rightarrow> (None, p1))
                      | Write \<Rightarrow> (None, set_alloc a (\<lambda>e. e\<lparr>al_init := init_all lo hi (al_init e)\<rparr>) p1)))"

definition access_place :: "provenance \<Rightarrow> string \<Rightarrow> access_kind \<Rightarrow> span \<Rightarrow> ub_finding option \<times> provenance" where
  "access_place p key kind sp =
     (case place p key of None \<Rightarrow> (None, p) | Some (a, t) \<Rightarrow> mem_access p (tag_ptr a t) 1 kind sp)"

section \<open>Addresses and bytes\<close>

definition STRIDE :: int where "STRIDE = 65536"

definition address_of :: "raw_ptr \<Rightarrow> int" where
  "address_of ptr =
     (case rp_alloc ptr of None \<Rightarrow> rp_offset ptr | Some a \<Rightarrow> (int a + 1) * STRIDE + rp_offset ptr)"

definition resolve_address :: "provenance \<Rightarrow> int \<Rightarrow> (alloc_id \<times> int) option" where
  "resolve_address p addr =
     (if addr \<le> 0 \<or> addr div STRIDE - 1 < 0 then None
      else let a = nat (addr div STRIDE - 1); off = addr mod STRIDE in
        case get_at (pv_allocs p) a of
          None \<Rightarrow> None
        | Some e \<Rightarrow> if off > int (al_size e) then None else Some (a, off))"

text \<open>Little-endian, for accesses of at most sixteen bytes (the width of the accumulator).\<close>

definition load :: "provenance \<Rightarrow> raw_ptr \<Rightarrow> nat \<Rightarrow> int" where
  "load p ptr len =
     (case Option.bind (rp_alloc ptr) (get_at (pv_allocs p)) of
        None \<Rightarrow> 0
      | Some e \<Rightarrow>
          let lo = nat (max 0 (rp_offset ptr));
              byte = (\<lambda>off. case get_at (al_bytes e) off of None \<Rightarrow> 0 | Some b \<Rightarrow> uint b);
              v = wrap_i128 (\<Sum>i \<leftarrow> [0..<len]. byte (lo + i) * 256 ^ i)
          in if rp_signed ptr \<and> 8 * len < 128 \<and> odd (v div 2 ^ (8 * len - 1)) then v - 2 ^ (8 * len) else v)"

definition init_range :: "provenance \<Rightarrow> raw_ptr \<Rightarrow> nat \<Rightarrow> provenance" where
  "init_range p ptr len =
     (case rp_alloc ptr of
        None \<Rightarrow> p
      | Some a \<Rightarrow>
          let lo = nat (max 0 (rp_offset ptr)) in
          set_alloc a (\<lambda>e. e\<lparr>al_init := init_all lo (min (lo + len) (length (al_init e))) (al_init e)\<rparr>) p)"

definition write_bytes :: "nat \<Rightarrow> nat \<Rightarrow> int \<Rightarrow> 8 word list \<Rightarrow> 8 word list" where
  "write_bytes lo len v bytes =
     fold (\<lambda>i bs. bs[lo + i := word_of_int (v div 256 ^ i)]) [0..<len] bytes"

definition store_bytes :: "provenance \<Rightarrow> raw_ptr \<Rightarrow> nat \<Rightarrow> int \<Rightarrow> provenance" where
  "store_bytes p ptr len v =
     (case rp_alloc ptr of
        None \<Rightarrow> p
      | Some a \<Rightarrow>
          let lo = nat (max 0 (rp_offset ptr)) in
          set_alloc a (\<lambda>e. e\<lparr>al_bytes := write_bytes lo len v (al_bytes e)\<rparr>) p)"

end
