(* ===== verification/ProvAccess.thy ===== *)
theory ProvAccess
  imports Provenance
begin

text \<open>
  The access check of the provenance machine: the transition table as an allowed/next pair, the exact
  condition under which an access succeeds and its exact effect on every permission of the tree.
\<close>

section \<open>Reading the state\<close>

definition perm_at :: "provenance \<Rightarrow> tag_id \<Rightarrow> nat \<Rightarrow> perm" where
  "perm_at p t off = tg_perms (pv_tags p ! t) ! off"

definition tags_of :: "provenance \<Rightarrow> alloc_id \<Rightarrow> tag_id list" where
  "tags_of p a = al_tags (pv_allocs p ! a)"

lemma set_alloc_simps [simp]:
  "pv_tags (set_alloc a f p) = pv_tags p" "pv_allocs (set_alloc a f p) = modify_at a f (pv_allocs p)"
  "pv_places (set_alloc a f p) = pv_places p" "pv_region_dead (set_alloc a f p) = pv_region_dead p"
  "pv_dirty (set_alloc a f p) = pv_dirty p" "pv_assumptions (set_alloc a f p) = pv_assumptions p"
  by (simp_all add: set_alloc_def)

lemma set_tag_simps [simp]:
  "pv_allocs (set_tag t f p) = pv_allocs p" "pv_tags (set_tag t f p) = modify_at t f (pv_tags p)"
  "pv_places (set_tag t f p) = pv_places p" "pv_region_dead (set_tag t f p) = pv_region_dead p"
  "pv_dirty (set_tag t f p) = pv_dirty p" "pv_assumptions (set_tag t f p) = pv_assumptions p"
  by (simp_all add: set_tag_def)

section \<open>The transition table\<close>

text \<open>Child accesses need a permission that is not Disabled, child writes one that is not Frozen either;
  a foreign write needs the tag to be dead already or unprotected.\<close>

definition allowed :: "perm \<Rightarrow> bool \<Rightarrow> access_kind \<Rightarrow> bool \<Rightarrow> bool" where
  "allowed q child kind prot \<longleftrightarrow>
     (if child then q \<noteq> Disabled \<and> (kind = Write \<longrightarrow> q \<noteq> Frozen)
      else kind = Write \<longrightarrow> q = Disabled \<or> \<not> prot)"

definition next_perm :: "perm \<Rightarrow> bool \<Rightarrow> access_kind \<Rightarrow> perm" where
  "next_perm q child kind =
     (case kind of
        Read \<Rightarrow> if \<not> child \<and> q = Active then Frozen else q
      | Write \<Rightarrow> if child then Active else Disabled)"

lemma transition_cases:
  "case transition q child kind prot of
     Inl row \<Rightarrow> \<not> allowed q child kind prot \<and>
       row = (if child \<and> q = Frozen then P2 else P1)
   | Inr n \<Rightarrow> allowed q child kind prot \<and> (case n of None \<Rightarrow> q | Some q' \<Rightarrow> q') = next_perm q child kind"
  by (cases q; cases child; cases kind) (auto simp: allowed_def next_perm_def)

section \<open>Ancestry in a tree of tags\<close>

text \<open>Parents are older than their children, which is what makes the walk end at the root.\<close>

definition older_parents :: "tag list \<Rightarrow> bool" where
  "older_parents ts \<longleftrightarrow> (\<forall>t < length ts. \<forall>q. tg_parent (ts ! t) = Some q \<longrightarrow> q < t)"

definition tag_parent :: "tag list \<Rightarrow> (tag_id \<times> tag_id) set" where
  "tag_parent ts = {(t, q). t < length ts \<and> tg_parent (ts ! t) = Some q}"

lemma child_walk_sound:
  "child_walk ts node fuel (Some t) \<Longrightarrow> older_parents ts \<Longrightarrow> t < length ts \<Longrightarrow> (t, node) \<in> (tag_parent ts)\<^sup>*"
proof (induction fuel arbitrary: t)
  case 0
  then show ?case by simp
next
  case (Suc fuel)
  show ?case
  proof (cases "t = node")
    case False
    with Suc.prems obtain q where q: "tg_parent (ts ! t) = Some q" "child_walk ts node fuel (Some q)"
      by (cases "tg_parent (ts ! t)") auto
    with Suc.prems have "q < length ts" by (fastforce simp: older_parents_def)
    with q Suc show ?thesis by (auto simp: tag_parent_def intro: converse_rtrancl_into_rtrancl)
  qed simp
qed

lemma child_walk_complete:
  "(t, node) \<in> (tag_parent ts)\<^sup>* \<Longrightarrow> older_parents ts \<Longrightarrow> t < length ts \<Longrightarrow> t \<le> fuel \<Longrightarrow>
     child_walk ts node fuel (Some t)"
proof (induction fuel arbitrary: t)
  case 0
  then have "tg_parent (ts ! t) = None"
    by (cases "tg_parent (ts ! t)") (auto simp: older_parents_def)
  with 0 have "t = node" by (auto elim: converse_rtranclE simp: tag_parent_def)
  then show ?case by simp
next
  case (Suc fuel)
  show ?case
  proof (cases "t = node")
    case False
    with Suc.prems(1) obtain q where q: "(t, q) \<in> tag_parent ts" "(q, node) \<in> (tag_parent ts)\<^sup>*"
      by (meson converse_rtranclE)
    then have "tg_parent (ts ! t) = Some q" "q < t"
      using Suc.prems(2) by (auto simp: tag_parent_def older_parents_def)
    with q Suc show ?thesis by simp
  qed simp
qed

lemma is_child_access_iff:
  "older_parents (pv_tags p) \<Longrightarrow> t < length (pv_tags p) \<Longrightarrow>
     is_child_access p node t \<longleftrightarrow> (t, node) \<in> (tag_parent (pv_tags p))\<^sup>*"
  unfolding is_child_access_def by (blast intro: child_walk_sound child_walk_complete less_imp_le)

section \<open>The plan\<close>

lemma collect_all:
  "\<forall>x \<in> set xs. \<exists>y. f x = Inr y \<Longrightarrow>
     collect f xs = Inr (List.map_filter (\<lambda>x. case f x of Inr y \<Rightarrow> y | Inl _ \<Rightarrow> None) xs)"
  by (induction xs) (auto simp: List.map_filter_simps split: option.splits)

lemma collect_ok: "collect f xs = Inr ys \<Longrightarrow> \<forall>x \<in> set xs. \<exists>y. f x = Inr y"
  by (induction xs arbitrary: ys) (auto split: sum.splits)

lemma collect_Inr:
  "collect f xs = Inr ys \<longleftrightarrow>
     (\<forall>x \<in> set xs. \<exists>y. f x = Inr y) \<and> ys = List.map_filter (\<lambda>x. case f x of Inr y \<Rightarrow> y | Inl _ \<Rightarrow> None) xs"
  using collect_all [of xs f] collect_ok [of f xs ys] by auto

lemma collect_Inl: "collect f xs = Inl e \<Longrightarrow> \<exists>x \<in> set xs. f x = Inl e"
  by (induction xs) (auto split: sum.splits)

lemma collect_filter:
  assumes "\<And>x. x \<in> set xs \<Longrightarrow> \<not> P x \<Longrightarrow> \<exists>y. f x = Inr y"
  shows "case collect f xs of
     Inl e \<Rightarrow> collect f (filter P xs) = Inl e
   | Inr ys \<Rightarrow> \<exists>zs. collect f (filter P xs) = Inr zs"
  using assms
proof (induction xs)
  case Nil
  then show ?case by simp
next
  case (Cons x xs)
  have ih: "case collect f xs of Inl e \<Rightarrow> collect f (filter P xs) = Inl e
      | Inr ys \<Rightarrow> \<exists>zs. collect f (filter P xs) = Inr zs"
    by (rule Cons.IH) (use Cons.prems in auto)
  show ?case
  proof (cases "P x")
    case True
    with ih show ?thesis by (cases "f x"; cases "collect f xs") auto
  next
    case False
    with Cons.prems obtain y where "f x = Inr y" by auto
    with False ih show ?thesis by (cases "collect f xs") auto
  qed
qed

lemma set_cells: "set (cells ts lo hi) = set ts \<times> {lo..<hi}"
  by (auto simp: cells_def)

lemma filter_cells: "filter (\<lambda>(t, off). P t) (cells ts lo hi) = cells (filter P ts) lo hi"
  by (induction ts) (auto simp: cells_def filter_empty_conv comp_def)

lemma plan_cell_ok:
  "(\<exists>y. plan_cell p th kind sp (t, off) = Inr y) \<longleftrightarrow>
     allowed (perm_at p t off) (is_child_access p t th) kind (tg_protected (pv_tags p ! t))"
  using transition_cases [of "perm_at p t off" "is_child_access p t th" kind "tg_protected (pv_tags p ! t)"]
  by (auto simp: plan_cell_def perm_at_def Let_def split: sum.splits)

lemma plan_ok_iff:
  "(\<exists>pl. plan p a th lo hi kind sp = Inr pl) \<longleftrightarrow>
     (\<forall>t \<in> set (tags_of p a). \<forall>off \<in> {lo..<hi}.
        allowed (perm_at p t off) (is_child_access p t th) kind (tg_protected (pv_tags p ! t)))"
  unfolding plan_def collect_Inr
  by (auto simp: set_cells tags_of_def plan_cell_ok)

lemma plan_error_row:
  "plan p a th lo hi kind sp = Inl f \<Longrightarrow> uf_row f = P1 \<or> uf_row f = P2 \<and> kind = Write"
proof -
  assume "plan p a th lo hi kind sp = Inl f"
  then obtain t off where "plan_cell p th kind sp (t, off) = Inl f"
    unfolding plan_def by (fastforce dest!: collect_Inl)
  with transition_cases [of "perm_at p t off" "is_child_access p t th" kind "tg_protected (pv_tags p ! t)"]
  show ?thesis
    by (cases kind) (auto simp: plan_cell_def perm_at_def Let_def allowed_def split: sum.splits if_splits)
qed

section \<open>The commit\<close>

definition same_tree :: "provenance \<Rightarrow> provenance \<Rightarrow> bool" where
  "same_tree p q \<longleftrightarrow> length (pv_tags q) = length (pv_tags p) \<and>
     (\<forall>t < length (pv_tags p). \<exists>ps. length ps = length (tg_perms (pv_tags p ! t)) \<and>
        pv_tags q ! t = (pv_tags p ! t)\<lparr>tg_perms := ps\<rparr>)"

lemma same_tree_refl [simp]: "same_tree p p"
  by (auto simp: same_tree_def intro: exI [of _ "tg_perms (pv_tags p ! t)" for t])

lemma same_tree_trans: "same_tree p q \<Longrightarrow> same_tree q r \<Longrightarrow> same_tree p r"
  unfolding same_tree_def by fastforce

lemma same_treeD:
  assumes "same_tree p q"
  shows "length (pv_tags q) = length (pv_tags p)"
    and "t < length (pv_tags p) \<Longrightarrow> tg_parent (pv_tags q ! t) = tg_parent (pv_tags p ! t)"
    and "t < length (pv_tags p) \<Longrightarrow> tg_alloc (pv_tags q ! t) = tg_alloc (pv_tags p ! t)"
    and "t < length (pv_tags p) \<Longrightarrow> tg_protected (pv_tags q ! t) = tg_protected (pv_tags p ! t)"
    and "t < length (pv_tags p) \<Longrightarrow> tg_span (pv_tags q ! t) = tg_span (pv_tags p ! t)"
    and "t < length (pv_tags p) \<Longrightarrow> tg_id (pv_tags q ! t) = tg_id (pv_tags p ! t)"
    and "t < length (pv_tags p) \<Longrightarrow> length (tg_perms (pv_tags q ! t)) = length (tg_perms (pv_tags p ! t))"
  using assms unfolding same_tree_def by fastforce+

lemma commit_Cons:
  "commit ((t, off, q) # pl) p = commit pl (set_tag t (\<lambda>e. e\<lparr>tg_perms := (tg_perms e)[off := q]\<rparr>) p)"
  by (simp add: commit_def)

text \<open>Only permissions differ.\<close>

definition perms_only :: "provenance \<Rightarrow> provenance \<Rightarrow> bool" where
  "perms_only p q \<longleftrightarrow> same_tree p q \<and> pv_allocs q = pv_allocs p \<and> pv_places q = pv_places p \<and>
     pv_region_dead q = pv_region_dead p \<and> pv_dirty q = pv_dirty p \<and> pv_assumptions q = pv_assumptions p"

lemma perms_only_refl [simp]: "perms_only p p"
  by (simp add: perms_only_def)

lemma perms_only_trans: "perms_only p q \<Longrightarrow> perms_only q r \<Longrightarrow> perms_only p r"
  unfolding perms_only_def by (metis same_tree_trans)

lemma perms_only_set_tag:
  assumes "\<And>ps. length (f ps) = length ps"
  shows "perms_only p (set_tag t (\<lambda>e. e\<lparr>tg_perms := f (tg_perms e)\<rparr>) p)"
proof -
  have "\<exists>ps. length ps = length (tg_perms (pv_tags p ! u)) \<and>
      modify_at t (\<lambda>e. e\<lparr>tg_perms := f (tg_perms e)\<rparr>) (pv_tags p) ! u = (pv_tags p ! u)\<lparr>tg_perms := ps\<rparr>"
    if "u < length (pv_tags p)" for u
    using that assms by (intro exI [of _ "if u = t then f (tg_perms (pv_tags p ! u)) else tg_perms (pv_tags p ! u)"])
      (simp add: nth_modify_at)
  then show ?thesis by (simp add: perms_only_def same_tree_def)
qed

lemma perms_only_commit: "perms_only p (commit pl p)"
proof (induction pl arbitrary: p)
  case Nil
  then show ?case by (simp add: commit_def)
next
  case (Cons x pl)
  obtain t off q where x: "x = (t, off, q)" by (cases x)
  show ?case unfolding x commit_Cons
    by (rule perms_only_trans [OF perms_only_set_tag Cons]) simp
qed

lemma commit_perm:
  assumes "t < length (pv_tags p)" and "off < length (tg_perms (pv_tags p ! t))"
    and "\<And>u o' q. (u, o', q) \<in> set pl \<Longrightarrow> q = g u o'"
  shows "perm_at (commit pl p) t off =
     (if (t, off) \<in> (\<lambda>(u, o', q). (u, o')) ` set pl then g t off else perm_at p t off)"
  using assms
proof (induction pl arbitrary: p)
  case Nil
  then show ?case by (simp add: commit_def)
next
  case (Cons x pl)
  obtain u o' q where x: "x = (u, o', q)" by (cases x)
  let ?p1 = "set_tag u (\<lambda>e. e\<lparr>tg_perms := (tg_perms e)[o' := q]\<rparr>) p"
  have q: "q = g u o'" using Cons.prems(3) [of u o' q] x by simp
  have "perm_at (commit pl ?p1) t off =
     (if (t, off) \<in> (\<lambda>(u, o', q). (u, o')) ` set pl then g t off else perm_at ?p1 t off)"
    by (rule Cons.IH) (use Cons.prems x in \<open>auto simp: nth_modify_at\<close>)
  moreover have "perm_at ?p1 t off = (if t = u \<and> off = o' then g t off else perm_at p t off)"
    using Cons.prems(1,2) q by (auto simp: perm_at_def nth_modify_at nth_list_update)
  ultimately show ?case unfolding x commit_Cons by auto
qed

lemma plan_commit:
  assumes "plan p a th lo hi kind sp = Inr pl" and "t < length (pv_tags p)"
    and "off < length (tg_perms (pv_tags p ! t))"
  shows "perm_at (commit pl p) t off =
     (if t \<in> set (tags_of p a) \<and> off \<in> {lo..<hi}
      then next_perm (perm_at p t off) (is_child_access p t th) kind else perm_at p t off)"
proof -
  let ?xs = "cells (tags_of p a) lo hi" and ?f = "plan_cell p th kind sp"
  let ?g = "\<lambda>t off. next_perm (perm_at p t off) (is_child_access p t th) kind"
  have pl: "pl = List.map_filter (\<lambda>x. case ?f x of Inr y \<Rightarrow> y | Inl _ \<Rightarrow> None) ?xs"
    and ok: "\<forall>x \<in> set ?xs. \<exists>y. ?f x = Inr y"
    using assms(1) by (simp_all add: plan_def collect_Inr tags_of_def)
  have cell: "?f (u, o') = Inr y \<Longrightarrow>
      (case y of None \<Rightarrow> ?g u o' = perm_at p u o' | Some z \<Rightarrow> z = (u, o', ?g u o'))" for u o' y
    using transition_cases [of "perm_at p u o'" "is_child_access p u th" kind "tg_protected (pv_tags p ! u)"]
    by (auto simp: plan_cell_def perm_at_def Let_def split: sum.splits option.splits)
  have mem: "z \<in> set pl \<longleftrightarrow> (\<exists>x \<in> set ?xs. ?f x = Inr (Some z))" for z
  proof -
    have "z \<in> set (List.map_filter h xs) \<longleftrightarrow> (\<exists>x \<in> set xs. h x = Some z)" for h and xs :: "(tag_id \<times> nat) list"
      by (induction xs) (auto simp: List.map_filter_simps split: option.splits)
    then have "z \<in> set pl \<longleftrightarrow> (\<exists>x \<in> set ?xs. (case ?f x of Inr y \<Rightarrow> y | Inl _ \<Rightarrow> None) = Some z)"
      unfolding pl .
    moreover have "(case ?f x of Inr y \<Rightarrow> y | Inl _ \<Rightarrow> None) = Some z \<longleftrightarrow> ?f x = Inr (Some z)" for x
      by (cases "?f x") simp_all
    ultimately show ?thesis by simp
  qed
  have "perm_at (commit pl p) t off =
     (if (t, off) \<in> (\<lambda>(u, o', q). (u, o')) ` set pl then ?g t off else perm_at p t off)"
    by (rule commit_perm [OF assms(2,3)]) (auto simp: mem dest: cell)
  moreover have "?g t off = perm_at p t off"
    if "(t, off) \<in> set ?xs" "(t, off) \<notin> (\<lambda>(u, o', q). (u, o')) ` set pl"
  proof -
    from ok that obtain y where y: "?f (t, off) = Inr y" by blast
    with cell [OF y] that(1) have "y = None \<or> (t, off, ?g t off) \<in> set pl"
      by (cases y) (auto simp: mem)
    with that(2) have "y = None" by force
    with cell [OF y] show ?thesis by simp
  qed
  moreover have "(t, off) \<in> set ?xs" if "(t, off) \<in> (\<lambda>(u, o', q). (u, o')) ` set pl"
  proof -
    from that obtain q where "(t, off, q) \<in> set pl" by auto
    then obtain x where x: "x \<in> set ?xs" "?f x = Inr (Some (t, off, q))" by (auto simp: mem)
    obtain u o' where "x = (u, o')" by (cases x)
    with x cell [of u o' "Some (t, off, q)"] show ?thesis by auto
  qed
  moreover have "(t, off) \<in> set ?xs \<longleftrightarrow> t \<in> set (tags_of p a) \<and> off \<in> {lo..<hi}" by (auto simp: set_cells)
  ultimately show ?thesis by auto
qed

end
