(* ===== verification/ProvInvariant.thy ===== *)
theory ProvInvariant
  imports ProvAccess
begin

text \<open>
  Well-formedness of the provenance machine and its preservation by every operation: tags and
  allocations refer to each other, parents are older than children and of the same allocation, the
  tag list of an allocation is a tree closed under parents with the root in it, and everything bound,
  exposed or queued exists. Every unchecked index of the source is in range on a well-formed machine.
\<close>

section \<open>Well-formedness\<close>

definition tag_wf :: "provenance \<Rightarrow> tag_id \<Rightarrow> bool" where
  "tag_wf p t \<longleftrightarrow>
     (let e = pv_tags p ! t in
      tg_id e = t \<and> tg_alloc e < length (pv_allocs p) \<and>
      length (tg_perms e) = al_size (pv_allocs p ! tg_alloc e) \<and>
      (\<forall>q. tg_parent e = Some q \<longrightarrow> q < t \<and> tg_alloc (pv_tags p ! q) = tg_alloc e) \<and>
      (tg_parent e = None \<longrightarrow> t = al_root (pv_allocs p ! tg_alloc e)))"

fun parent_ok :: "tag_id \<Rightarrow> tag_id set \<Rightarrow> tag_id \<Rightarrow> tag_id option \<Rightarrow> bool" where
  "parent_ok root ts t None = (t = root)"
| "parent_ok root ts t (Some q) = (q \<in> ts)"

definition alloc_wf :: "provenance \<Rightarrow> alloc_id \<Rightarrow> bool" where
  "alloc_wf p i \<longleftrightarrow>
     (let a = pv_allocs p ! i in
      al_id a = i \<and> length (al_bytes a) = al_size a \<and> length (al_init a) = al_size a \<and>
      al_root a \<in> set (al_tags a) \<and> distinct (al_tags a) \<and> set (al_exposed a) \<subseteq> set (al_tags a) \<and>
      (\<forall>t \<in> set (al_tags a). t < length (pv_tags p) \<and> tg_alloc (pv_tags p ! t) = i \<and>
         parent_ok (al_root a) (set (al_tags a)) t (tg_parent (pv_tags p ! t))) \<and>
      tg_parent (pv_tags p ! al_root a) = None)"

definition prov_wf :: "provenance \<Rightarrow> bool" where
  "prov_wf p \<longleftrightarrow>
     (\<forall>t < length (pv_tags p). tag_wf p t) \<and> (\<forall>i < length (pv_allocs p). alloc_wf p i) \<and>
     (\<forall>(k, a, t) \<in> set (pv_places p). a < length (pv_allocs p) \<and> t \<in> set (tags_of p a)) \<and>
     (\<forall>a \<in> set (pv_dirty p). a < length (pv_allocs p))"

lemma prov_wfD:
  assumes "prov_wf p"
  shows "t < length (pv_tags p) \<Longrightarrow> tag_wf p t" and "i < length (pv_allocs p) \<Longrightarrow> alloc_wf p i"
    and "(k, a, u) \<in> set (pv_places p) \<Longrightarrow> a < length (pv_allocs p) \<and> u \<in> set (tags_of p a)"
    and "a \<in> set (pv_dirty p) \<Longrightarrow> a < length (pv_allocs p)"
    and "older_parents (pv_tags p)"
  using assms by (auto simp: prov_wf_def tag_wf_def Let_def older_parents_def)

lemma wf_tags_of:
  "prov_wf p \<Longrightarrow> a < length (pv_allocs p) \<Longrightarrow> t \<in> set (tags_of p a) \<Longrightarrow>
     t < length (pv_tags p) \<and> tg_alloc (pv_tags p ! t) = a"
  using prov_wfD(2) [of p a] by (auto simp: alloc_wf_def Let_def tags_of_def)

section \<open>Frames\<close>

lemma wf_perms_only: "prov_wf p \<Longrightarrow> perms_only p q \<Longrightarrow> prov_wf q"
proof -
  assume wf: "prov_wf p" and po: "perms_only p q"
  then have st: "same_tree p q" and eq: "pv_allocs q = pv_allocs p" "pv_places q = pv_places p"
    "pv_dirty q = pv_dirty p" by (simp_all add: perms_only_def)
  note D = same_treeD [OF st]
  have "tag_wf q t" if t: "t < length (pv_tags p)" for t
  proof -
    have "tag_wf p t" by (rule prov_wfD(1) [OF wf t])
    then show ?thesis using D(2,3,6,7) [OF t] D(3) t by (auto simp: tag_wf_def Let_def eq)
  qed
  moreover have "alloc_wf q i" if i: "i < length (pv_allocs p)" for i
  proof -
    have a: "alloc_wf p i" by (rule prov_wfD(2) [OF wf i])
    then have "\<forall>t \<in> set (al_tags (pv_allocs p ! i)). t < length (pv_tags p)"
      and "al_root (pv_allocs p ! i) < length (pv_tags p)"
      by (auto simp: alloc_wf_def Let_def)
    with a D(1-3) show ?thesis unfolding alloc_wf_def Let_def eq by simp
  qed
  ultimately show ?thesis using wf D(1) by (simp add: prov_wf_def eq tags_of_def)
qed

lemma perms_only_map_perms: "perms_only p (map_perms f ts p)"
proof (induction ts arbitrary: p)
  case Nil
  then show ?case by (simp add: map_perms_def)
next
  case (Cons t ts)
  have "map_perms f (t # ts) p = map_perms f ts (set_tag t (\<lambda>e. e\<lparr>tg_perms := map f (tg_perms e)\<rparr>) p)"
    by (simp add: map_perms_def)
  moreover have "perms_only p (set_tag t (\<lambda>e. e\<lparr>tg_perms := map f (tg_perms e)\<rparr>) p)"
    by (rule perms_only_set_tag) simp
  ultimately show ?case using Cons perms_only_trans by simp
qed

lemma perms_only_fold: "perms_only p (fold (map_perms f) tss p)"
proof (induction tss arbitrary: p)
  case (Cons ts tss)
  have "perms_only p (fold (map_perms f) tss (map_perms f ts p))"
    by (rule perms_only_trans [OF perms_only_map_perms Cons])
  then show ?case by simp
qed simp

text \<open>Changing the bytes, the initialisation or the liveness of an allocation.\<close>

definition data_only :: "(alloc \<Rightarrow> alloc) \<Rightarrow> bool" where
  "data_only f \<longleftrightarrow> (\<forall>a. al_id (f a) = al_id a \<and> al_size (f a) = al_size a \<and> al_root (f a) = al_root a \<and>
     al_tags (f a) = al_tags a \<and> al_exposed (f a) = al_exposed a \<and> al_owner (f a) = al_owner a \<and>
     length (al_bytes (f a)) = length (al_bytes a) \<and> length (al_init (f a)) = length (al_init a))"

lemma wf_data_only: "prov_wf p \<Longrightarrow> data_only f \<Longrightarrow> prov_wf (set_alloc i f p)"
  by (auto simp: prov_wf_def tag_wf_def alloc_wf_def Let_def tags_of_def nth_modify_at data_only_def)

lemma wf_mark_dirty: "prov_wf p \<Longrightarrow> a < length (pv_allocs p) \<Longrightarrow> prov_wf (mark_dirty p a)"
  by (auto simp: prov_wf_def mark_dirty_def tag_wf_def alloc_wf_def tags_of_def)

lemma wf_new_alloc:
  assumes "prov_wf p" and "new_alloc p n orig owner sp q = (i, p')"
  shows "prov_wf p' \<and> i = length (pv_allocs p) \<and> pv_allocs p' ! i = \<lparr>al_id = i, al_size = n,
     al_bytes = replicate n 0, al_init = replicate n False, al_live = True, al_origin = orig,
     al_owner = owner, al_root = length (pv_tags p), al_tags = [length (pv_tags p)], al_exposed = [],
     al_span = sp\<rparr> \<and> length (pv_allocs p') = Suc (length (pv_allocs p))"
proof -
  have tags: "t < length (pv_tags p) \<Longrightarrow> tg_alloc (pv_tags p ! t) < length (pv_allocs p)"
    "t < length (pv_tags p) \<Longrightarrow> tg_parent (pv_tags p ! t) = Some q \<Longrightarrow> q < length (pv_tags p)" for t q
    using prov_wfD(1) [OF assms(1), of t] by (auto simp: tag_wf_def Let_def)
  have al: "a < length (pv_allocs p) \<Longrightarrow> t \<in> set (al_tags (pv_allocs p ! a)) \<Longrightarrow> t < length (pv_tags p)"
    "a < length (pv_allocs p) \<Longrightarrow> al_root (pv_allocs p ! a) < length (pv_tags p)" for a t
    using prov_wfD(2) [OF assms(1), of a] by (auto simp: alloc_wf_def Let_def)
  have "\<forall>t < length (pv_tags p'). tag_wf p' t"
    using assms tags prov_wfD(1) [OF assms(1)]
    by (auto simp: new_alloc_def Let_def tag_wf_def nth_append less_Suc_eq)
  moreover have "alloc_wf p' a" if "a < Suc (length (pv_allocs p))" for a
  proof (cases "a = length (pv_allocs p)")
    case True
    with assms(2) show ?thesis by (auto simp: new_alloc_def Let_def alloc_wf_def nth_append)
  next
    case False
    with that have a: "a < length (pv_allocs p)" by simp
    from prov_wfD(2) [OF assms(1) a] al [OF a] a assms(2) show ?thesis
      by (auto simp: new_alloc_def Let_def alloc_wf_def nth_append intro!: less_SucI)
  qed
  ultimately show ?thesis
    using assms by (auto simp: new_alloc_def Let_def prov_wf_def tags_of_def nth_append less_Suc_eq)
qed


lemma wf_retag:
  assumes wf: "prov_wf p" and a: "a < length (pv_allocs p)" and par: "parent \<in> set (tags_of p a)"
    and rt: "retag p a parent kind prot sp = (i, p')"
  shows "prov_wf p' \<and> i = length (pv_tags p) \<and> i \<in> set (tags_of p' a) \<and>
     length (pv_allocs p') = length (pv_allocs p)"
proof -
  let ?new = "\<lparr>tg_id = i, tg_alloc = a, tg_parent = Some parent,
     tg_perms = replicate (al_size (pv_allocs p ! a)) (retag_perm kind), tg_protected = prot, tg_span = sp\<rparr>"
  define q where "q = set_alloc a (\<lambda>e. e\<lparr>al_tags := al_tags e @ [i]\<rparr>) (p\<lparr>pv_tags := pv_tags p @ [?new]\<rparr>)"
  from rt have i: "i = length (pv_tags p)" and p': "p' = mark_dirty q a"
    by (auto simp: retag_def Let_def q_def)
  have q_tags: "pv_tags q = pv_tags p @ [?new]" and q_al: "pv_allocs q = modify_at a (\<lambda>e. e\<lparr>al_tags := al_tags e @ [i]\<rparr>) (pv_allocs p)"
    and q_pl: "pv_places q = pv_places p" and q_d: "pv_dirty q = pv_dirty p"
    by (simp_all add: q_def)
  have pt: "parent < length (pv_tags p)" "tg_alloc (pv_tags p ! parent) = a"
    using wf_tags_of [OF wf a par] by simp_all
  have al: "b < length (pv_allocs p) \<Longrightarrow> t \<in> set (al_tags (pv_allocs p ! b)) \<Longrightarrow> t < length (pv_tags p)"
    "b < length (pv_allocs p) \<Longrightarrow> al_root (pv_allocs p ! b) < length (pv_tags p)" for b t
    using prov_wfD(2) [OF wf, of b] by (auto simp: alloc_wf_def Let_def)
  have "tag_wf q t" if "t < Suc (length (pv_tags p))" for t
  proof (cases "t = length (pv_tags p)")
    case True
    with pt a i show ?thesis by (auto simp: tag_wf_def Let_def q_tags q_al nth_append nth_modify_at)
  next
    case False
    with that have t: "t < length (pv_tags p)" by simp
    from prov_wfD(1) [OF wf t] t show ?thesis
      by (auto simp: tag_wf_def Let_def q_tags q_al nth_append nth_modify_at)
  qed
  moreover have "alloc_wf q b" if b: "b < length (pv_allocs p)" for b
  proof (cases "b = a")
    case True
    have pok: "parent_ok r (insert x ts) t o'" if "parent_ok r ts t o'" for r x ts t o'
      using that by (cases o') auto
    have "i \<notin> set (al_tags (pv_allocs p ! a))" using al(1) [OF a, of i] i by auto
    moreover have "al_root (pv_allocs p ! a) \<noteq> i" using al(2) [OF a] i by simp
    ultimately show ?thesis
      using prov_wfD(2) [OF wf a] par al [OF a] a i
      by (auto simp: True alloc_wf_def Let_def q_tags q_al nth_append tags_of_def intro: pok intro!: less_SucI)
  next
    case False
    from prov_wfD(2) [OF wf b] al [OF b] b False show ?thesis
      by (auto simp: alloc_wf_def Let_def q_tags q_al nth_append intro!: less_SucI)
  qed
  moreover have "b < length (pv_allocs p) \<Longrightarrow> set (tags_of p b) \<subseteq> set (tags_of q b)" for b
    by (auto simp: tags_of_def q_al nth_modify_at)
  ultimately have "prov_wf q"
    using wf by (fastforce simp: prov_wf_def q_tags q_al q_pl q_d)
  moreover have "pv_allocs p' = pv_allocs q" by (simp add: p' mark_dirty_def)
  ultimately show ?thesis
    using i a wf_mark_dirty [of q a] by (auto simp: p' q_al tags_of_def mark_dirty_def)
qed

lemma wf_put_place:
  "prov_wf p \<Longrightarrow> a < length (pv_allocs p) \<Longrightarrow> t \<in> set (tags_of p a) \<Longrightarrow> prov_wf (put_place key (a, t) p)"
proof -
  assume wf: "prov_wf p" and a: "a < length (pv_allocs p)" "t \<in> set (tags_of p a)"
  have sub: "set (AList.update key e xs) \<subseteq> insert (key, e) (set xs)" for e and xs :: "(string \<times> alloc_id \<times> tag_id) list"
    by (induction xs) auto
  show ?thesis
    using wf a sub [of "(a, t)" "pv_places p"]
    by (auto simp: prov_wf_def put_place_def tag_wf_def alloc_wf_def tags_of_def)
qed

lemma wf_displaced:
  "prov_wf p \<Longrightarrow> (\<And>a t. was = Some (a, t) \<Longrightarrow> a < length (pv_allocs p)) \<Longrightarrow> prov_wf (displaced was p)"
  by (auto simp: displaced_def split: option.splits intro: wf_mark_dirty)

lemma place_range:
  "prov_wf p \<Longrightarrow> place p key = Some (a, t) \<Longrightarrow> a < length (pv_allocs p) \<and> t \<in> set (tags_of p a)"
  using prov_wfD(3) [of p key a t] by (auto simp: place_def dest: map_of_SomeD)

lemma wf_bind:
  "prov_wf p \<Longrightarrow> a < length (pv_allocs p) \<Longrightarrow> t \<in> set (tags_of p a) \<Longrightarrow> prov_wf (bind_place p key a t)"
  unfolding bind_place_def
  by (rule wf_displaced) (auto simp: put_place_def dest: place_range intro: wf_put_place [unfolded put_place_def])

lemma wf_restore:
  assumes "prov_wf p" and "\<And>a t. prev = Some (a, t) \<Longrightarrow> a < length (pv_allocs p) \<and> t \<in> set (tags_of p a)"
  shows "prov_wf (restore_place p key prev)"
proof (cases prev)
  case None
  have "prov_wf (p\<lparr>pv_places := AList.delete key (pv_places p)\<rparr>)"
    using assms(1) by (auto simp: prov_wf_def tag_wf_def alloc_wf_def tags_of_def AList.delete_eq)
  with None assms(1) show ?thesis
    unfolding restore_place_def by (auto intro!: wf_displaced dest: place_range)
next
  case (Some e)
  obtain a t where e: "e = (a, t)" by (cases e)
  with Some assms have "prov_wf (put_place key (a, t) p)" by (intro wf_put_place) auto
  with Some e assms(1) show ?thesis
    unfolding restore_place_def by (auto intro!: wf_displaced simp: put_place_def dest: place_range)
qed

lemma retain_places_sub:
  "retain_places keep es d = (kept, d') \<Longrightarrow>
     kept = filter (\<lambda>(k, _). keep k) es \<and> set d' = set d \<union> {a. \<exists>k t. (k, a, t) \<in> set es \<and> \<not> keep k}"
proof (induction keep es d arbitrary: kept d' rule: retain_places.induct)
  case (2 keep k a t es d)
  show ?case
  proof (cases "keep k")
    case True
    with "2.prems" obtain kept0 where "retain_places keep es d = (kept0, d')" "kept = (k, a, t) # kept0"
      by (auto split: prod.splits)
    with "2.IH"(1) [OF True] True show ?thesis by auto
  next
    case False
    with "2.prems" have "retain_places keep es (if d \<noteq> [] \<and> last d = a then d else d @ [a]) = (kept, d')"
      by simp
    from "2.IH"(2) [OF False this] False show ?thesis by (auto split: if_splits)
  qed
qed simp

lemma wf_drop_frame: "prov_wf p \<Longrightarrow> prov_wf (drop_frame p task frame)"
proof -
  assume wf: "prov_wf p"
  let ?keep = "\<lambda>k. case frame_of_key task k of None \<Rightarrow> True | Some f \<Rightarrow> f < frame"
  obtain kept d where r: "retain_places ?keep (pv_places p) (pv_dirty p) = (kept, d)" by fastforce
  have "set kept \<subseteq> set (pv_places p)" and "set d = set (pv_dirty p) \<union> {a. \<exists>k t. (k, a, t) \<in> set (pv_places p) \<and> \<not> ?keep k}"
    using retain_places_sub [OF r] by auto
  moreover have "a < length (pv_allocs p)" if "(k, a, t) \<in> set (pv_places p)" for k a t
    using prov_wfD(3) [OF wf that] by simp
  ultimately have "prov_wf (p\<lparr>pv_places := kept, pv_dirty := d\<rparr>)"
    using wf by (auto simp: prov_wf_def tag_wf_def alloc_wf_def tags_of_def)
  then show ?thesis by (simp add: drop_frame_def r)
qed


section \<open>Pruning\<close>

lemma keep_tag_mono: "set ts \<subseteq> set us \<Longrightarrow> keep_tag p bound a ts t \<Longrightarrow> keep_tag p bound a us t"
  by (auto simp: keep_tag_def)

lemma prune_tags_result:
  "set (prune_tags p bound a ts) \<subseteq> set ts \<and> (distinct ts \<longrightarrow> distinct (prune_tags p bound a ts)) \<and>
   (\<exists>K. prune_tags p bound a ts = filter K ts) \<and>
   (\<forall>t \<in> set ts. keep_tag p bound a (prune_tags p bound a ts) t \<longrightarrow> t \<in> set (prune_tags p bound a ts))"
proof (induction p bound a ts rule: prune_tags.induct)
  case (1 p bound a ts)
  let ?kept = "filter (keep_tag p bound a ts) ts"
  show ?case
  proof (cases "length ?kept = length ts")
    case True
    then have "prune_tags p bound a ts = ts" by (simp add: prune_tags.simps Let_def)
    moreover have "\<exists>K. ts = filter K ts" by (rule exI [of _ "\<lambda>_. True"]) simp
    ultimately show ?thesis by simp
  next
    case False
    then have eq: "prune_tags p bound a ts = prune_tags p bound a ?kept"
      by (subst prune_tags.simps) (simp add: Let_def)
    from "1.IH" [OF refl False] obtain K where
      ih: "set (prune_tags p bound a ?kept) \<subseteq> set ?kept" "distinct ?kept \<longrightarrow> distinct (prune_tags p bound a ?kept)"
        "prune_tags p bound a ?kept = filter K ?kept"
        "\<forall>t \<in> set ?kept. keep_tag p bound a (prune_tags p bound a ?kept) t \<longrightarrow> t \<in> set (prune_tags p bound a ?kept)"
      by blast
    have "t \<in> set (prune_tags p bound a ?kept)"
      if "t \<in> set ts" "keep_tag p bound a (prune_tags p bound a ?kept) t" for t
    proof -
      have "set (prune_tags p bound a ?kept) \<subseteq> set ts" using ih(1) by auto
      from keep_tag_mono [OF this that(2)] that(1) have "t \<in> set ?kept" by simp
      with ih(4) that(2) show ?thesis by blast
    qed
    moreover have "\<exists>K'. filter K ?kept = filter K' ts"
      by (rule exI [of _ "\<lambda>t. K t \<and> keep_tag p bound a ts t"]) (simp add: conj_commute)
    moreover have "set (prune_tags p bound a ?kept) \<subseteq> set ts" using ih(1) by auto
    ultimately show ?thesis using ih(2,3) unfolding eq by (metis distinct_filter)
  qed
qed

definition bound_tags :: "provenance \<Rightarrow> tag_id list" where
  "bound_tags p = map (\<lambda>(_, _, t). t) (pv_places p)"

definition pruned :: "provenance \<Rightarrow> alloc_id \<Rightarrow> tag_id list" where
  "pruned p i =
     (if i \<in> set (pv_dirty p) then prune_tags p (bound_tags p) (pv_allocs p ! i) (tags_of p i) else tags_of p i)"

lemma prune_tags_cong: "pv_tags q = pv_tags p \<Longrightarrow> prune_tags q bound a ts = prune_tags p bound a ts"
proof (induction p bound a ts rule: prune_tags.induct)
  case (1 p bound a ts)
  have k: "keep_tag q bound a ts = keep_tag p bound a ts" using "1.prems" by (auto simp: keep_tag_def)
  show ?case
    using 1 by (subst (1 2) prune_tags.simps) (simp add: Let_def k)
qed

lemma prune_result:
  "pv_tags (prune p) = pv_tags p \<and> pv_places (prune p) = pv_places p \<and> pv_dirty (prune p) = [] \<and>
   pv_region_dead (prune p) = pv_region_dead p \<and> pv_assumptions (prune p) = pv_assumptions p \<and>
   length (pv_allocs (prune p)) = length (pv_allocs p) \<and>
   (\<forall>i < length (pv_allocs p). pv_allocs (prune p) ! i = (pv_allocs p ! i)\<lparr>al_tags := pruned p i\<rparr>)"
proof (cases "pv_dirty p = []")
  case True
  then show ?thesis by (auto simp: prune_def pruned_def tags_of_def)
next
  case False
  let ?g = "\<lambda>i q. set_alloc i (\<lambda>a. a\<lparr>al_tags := prune_tags q (bound_tags p) a (al_tags a)\<rparr>) q"
  have fold: "pv_tags (fold ?g is q) = pv_tags q \<and> pv_places (fold ?g is q) = pv_places q \<and>
      pv_region_dead (fold ?g is q) = pv_region_dead q \<and> pv_assumptions (fold ?g is q) = pv_assumptions q \<and>
      length (pv_allocs (fold ?g is q)) = length (pv_allocs q) \<and>
      (\<forall>i < length (pv_allocs q). pv_allocs (fold ?g is q) ! i =
         (if i \<in> set is then (pv_allocs q ! i)\<lparr>al_tags := prune_tags q (bound_tags p) (pv_allocs q ! i) (tags_of q i)\<rparr>
          else pv_allocs q ! i))"
    if "distinct is" for "is" q
    using that
  proof (induction "is" arbitrary: q)
    case (Cons j js)
    have "pv_tags (?g j q) = pv_tags q" by simp
    note c = prune_tags_cong [OF this]
    from Cons.IH [of "?g j q"] Cons.prems show ?case
      by (auto simp: c nth_modify_at tags_of_def)
  qed simp
  from fold [of "sort (remdups (pv_dirty p))" p] False show ?thesis
    by (auto simp: prune_def Let_def pruned_def tags_of_def simp flip: bound_tags_def)
qed

lemma pruned_props:
  assumes "prov_wf p" and "i < length (pv_allocs p)"
  shows "set (pruned p i) \<subseteq> set (tags_of p i)" and "distinct (pruned p i)"
    and "\<exists>K. pruned p i = filter K (tags_of p i)"
    and "t \<in> set (tags_of p i) \<Longrightarrow> t = al_root (pv_allocs p ! i) \<or> tg_protected (pv_tags p ! t) \<or>
       t \<in> set (bound_tags p) \<or> t \<in> set (al_exposed (pv_allocs p ! i)) \<or>
       (\<exists>u \<in> set (pruned p i). tg_parent (pv_tags p ! u) = Some t) \<Longrightarrow> t \<in> set (pruned p i)"
proof -
  have d: "distinct (tags_of p i)"
    using prov_wfD(2) [OF assms] by (simp add: alloc_wf_def Let_def tags_of_def)
  note r = prune_tags_result [of p "bound_tags p" "pv_allocs p ! i" "tags_of p i"]
  show "set (pruned p i) \<subseteq> set (tags_of p i)" "distinct (pruned p i)"
    using r d by (auto simp: pruned_def)
  show "\<exists>K. pruned p i = filter K (tags_of p i)"
    using r exI [of "\<lambda>K. tags_of p i = filter K (tags_of p i)" "\<lambda>_. True"] by (simp add: pruned_def)
  assume t: "t \<in> set (tags_of p i)" and k: "t = al_root (pv_allocs p ! i) \<or> tg_protected (pv_tags p ! t) \<or>
       t \<in> set (bound_tags p) \<or> t \<in> set (al_exposed (pv_allocs p ! i)) \<or>
       (\<exists>u \<in> set (pruned p i). tg_parent (pv_tags p ! u) = Some t)"
  show "t \<in> set (pruned p i)"
  proof (cases "i \<in> set (pv_dirty p)")
    case True
    have "keep_tag p (bound_tags p) (pv_allocs p ! i) (pruned p i) t"
      using k by (auto simp: keep_tag_def image_iff) (metis)
    with r t True show ?thesis by (simp add: pruned_def)
  next
    case False
    with t show ?thesis by (simp add: pruned_def)
  qed
qed

lemma wf_prune: "prov_wf p \<Longrightarrow> prov_wf (prune p)"
proof -
  assume wf: "prov_wf p"
  note r = prune_result [of p]
  have "tag_wf (prune p) t" if "t < length (pv_tags p)" for t
    using prov_wfD(1) [OF wf that] r by (auto simp: tag_wf_def Let_def)
  moreover have "alloc_wf (prune p) i" if i: "i < length (pv_allocs p)" for i
  proof -
    note pp = pruned_props [OF wf i]
    have w: "alloc_wf p i" by (rule prov_wfD(2) [OF wf i])
    have closed: "parent_ok (al_root (pv_allocs p ! i)) (set (pruned p i)) t (tg_parent (pv_tags p ! t))"
      if "t \<in> set (pruned p i)" for t
    proof -
      from that pp(1) w have "parent_ok (al_root (pv_allocs p ! i)) (set (tags_of p i)) t (tg_parent (pv_tags p ! t))"
        by (auto simp: alloc_wf_def Let_def tags_of_def)
      with that pp(4) show ?thesis by (cases "tg_parent (pv_tags p ! t)") auto
    qed
    have "al_root (pv_allocs p ! i) \<in> set (pruned p i)"
      "set (al_exposed (pv_allocs p ! i)) \<subseteq> set (pruned p i)"
      using w pp(4) by (auto simp: alloc_wf_def Let_def tags_of_def)
    with w r i pp(1,2) closed show ?thesis by (auto simp: alloc_wf_def Let_def tags_of_def)
  qed
  moreover have "t \<in> set (tags_of (prune p) a)" "a < length (pv_allocs p)" if "(k, a, t) \<in> set (pv_places p)" for k a t
  proof -
    from prov_wfD(3) [OF wf that] show a: "a < length (pv_allocs p)" by simp
    have "t \<in> set (bound_tags p)" using that by (force simp: bound_tags_def)
    with pruned_props(4) [OF wf a] prov_wfD(3) [OF wf that] r a show "t \<in> set (tags_of (prune p) a)"
      by (simp add: tags_of_def)
  qed
  ultimately show ?thesis using r by (auto simp: prov_wf_def)
qed


section \<open>Every operation\<close>

lemma access_result:
  "mem_access p ptr len kind sp = (res, p') \<Longrightarrow>
     p' = p \<or> (\<exists>a f pl. data_only f \<and> p' = set_alloc a f (commit pl p)) \<or> (\<exists>pl. p' = commit pl p)"
proof -
  have "data_only (\<lambda>e. e\<lparr>al_init := init_all lo hi (al_init e)\<rparr>)" for lo hi
  proof -
    have "length (fold (\<lambda>off xs. xs[off := True]) offs xs) = length xs" for offs and xs :: "bool list"
      by (induction offs arbitrary: xs) auto
    then show ?thesis by (simp add: data_only_def init_all_def)
  qed
  then show "mem_access p ptr len kind sp = (res, p') \<Longrightarrow> ?thesis"
    unfolding mem_access_def Let_def
    by (auto split: option.splits if_splits sum.splits access_kind.splits prod.splits)
qed

lemma wf_access: "prov_wf p \<Longrightarrow> mem_access p ptr len kind sp = (res, p') \<Longrightarrow> prov_wf p'"
  using access_result [of p ptr len kind sp res p']
  by (auto intro: wf_perms_only [OF _ perms_only_commit] wf_data_only)

datatype prov_op =
    PoHostAlloc nat region_id span | PoHostFree raw_ptr
  | PoBind string alloc_id tag_id | PoRebind string alloc_id tag_id
  | PoRestore string "(alloc_id \<times> tag_id) option" | PoDropFrame nat nat | PoPrune
  | PoRetag alloc_id tag_id retag_kind bool span | PoRetagPlace string retag_kind bool span
  | PoUnprotect tag_id | PoExpose raw_ptr | PoRegionFreed "region_id list" | PoRegionFrozen "region_id list"
  | PoAssume "raw_ptr list" span | PoAccess raw_ptr nat access_kind span
  | PoAccessPlace string access_kind span | PoInit raw_ptr nat | PoStore raw_ptr nat int

fun prov_act :: "prov_op \<Rightarrow> provenance \<Rightarrow> provenance" where
  "prov_act (PoHostAlloc n r sp) p = snd (host_alloc p n r sp)"
| "prov_act (PoHostFree ptr) p = snd (host_free p ptr)"
| "prov_act (PoBind k a t) p = bind_place p k a t"
| "prov_act (PoRebind k a t) p = snd (rebind_place p k a t)"
| "prov_act (PoRestore k prev) p = restore_place p k prev"
| "prov_act (PoDropFrame task fr) p = drop_frame p task fr"
| "prov_act PoPrune p = prune p"
| "prov_act (PoRetag a par kind prot sp) p = snd (retag p a par kind prot sp)"
| "prov_act (PoRetagPlace k kind prot sp) p = snd (retag_place p k kind prot sp)"
| "prov_act (PoUnprotect t) p = unprotect p t"
| "prov_act (PoExpose ptr) p = expose p ptr"
| "prov_act (PoRegionFreed rs) p = region_freed p rs"
| "prov_act (PoRegionFrozen rs) p = region_frozen p rs"
| "prov_act (PoAssume ptrs sp) p = snd (assume_noalias p ptrs sp)"
| "prov_act (PoAccess ptr len kind sp) p = snd (mem_access p ptr len kind sp)"
| "prov_act (PoAccessPlace k kind sp) p = snd (access_place p k kind sp)"
| "prov_act (PoInit ptr len) p = init_range p ptr len"
| "prov_act (PoStore ptr len v) p = store_bytes p ptr len v"

text \<open>What the callers supply: a tag that is handed in is in the tree of the allocation it is used with.\<close>

definition has_tag :: "provenance \<Rightarrow> alloc_id \<Rightarrow> tag_id \<Rightarrow> bool" where
  "has_tag p a t \<longleftrightarrow> a < length (pv_allocs p) \<and> t \<in> set (tags_of p a)"

fun prov_guard :: "prov_op \<Rightarrow> provenance \<Rightarrow> bool" where
  "prov_guard (PoBind k a t) p = has_tag p a t"
| "prov_guard (PoRebind k a t) p = has_tag p a t"
| "prov_guard (PoRestore k prev) p = (case prev of None \<Rightarrow> True | Some (a, t) \<Rightarrow> has_tag p a t)"
| "prov_guard (PoRetag a par kind prot sp) p = has_tag p a par"
| "prov_guard (PoExpose ptr) p =
     (case (rp_alloc ptr, rp_prov ptr) of (Some a, Tag t) \<Rightarrow> a < length (pv_allocs p) \<longrightarrow> has_tag p a t | _ \<Rightarrow> True)"
| "prov_guard _ p = True"

lemma wf_exposed:
  "prov_wf p \<Longrightarrow> (a < length (pv_allocs p) \<Longrightarrow> t \<in> set (tags_of p a)) \<Longrightarrow>
     prov_wf (set_alloc a (\<lambda>e. if t \<in> set (al_exposed e) then e else e\<lparr>al_exposed := al_exposed e @ [t]\<rparr>) p)"
  by (auto simp: prov_wf_def tag_wf_def alloc_wf_def Let_def tags_of_def nth_modify_at)

lemma wf_host_alloc: "prov_wf p \<Longrightarrow> prov_wf (snd (host_alloc p n r sp))"
proof -
  assume wf: "prov_wf p"
  obtain i p1 where n: "new_alloc p n HostC (Some r) sp Active = (i, p1)" by (cases "new_alloc p n HostC (Some r) sp Active")
  note w = wf_new_alloc [OF wf n]
  then have root: "al_root (pv_allocs p1 ! i) \<in> set (tags_of p1 i)" and nil: "al_exposed (pv_allocs p1 ! i) = []"
    by (auto simp: tags_of_def)
  have eq: "set_alloc i (\<lambda>a. a\<lparr>al_exposed := al_exposed a @ [al_root (pv_allocs p1 ! i)]\<rparr>) p1 =
    set_alloc i (\<lambda>e. if al_root (pv_allocs p1 ! i) \<in> set (al_exposed e) then e
       else e\<lparr>al_exposed := al_exposed e @ [al_root (pv_allocs p1 ! i)]\<rparr>) p1"
    using nil by (simp add: set_alloc_def modify_at_def)
  have "snd (host_alloc p n r sp) =
     set_alloc i (\<lambda>a. a\<lparr>al_exposed := al_exposed a @ [al_root (pv_allocs p1 ! i)]\<rparr>) p1"
    by (simp add: host_alloc_def n Let_def)
  also note eq
  finally have h: "snd (host_alloc p n r sp) = set_alloc i (\<lambda>e. if al_root (pv_allocs p1 ! i) \<in> set (al_exposed e)
     then e else e\<lparr>al_exposed := al_exposed e @ [al_root (pv_allocs p1 ! i)]\<rparr>) p1" .
  show ?thesis unfolding h by (rule wf_exposed) (use w root in auto)
qed

lemma wf_place_alloc:
  assumes "prov_wf p" and "place_alloc p key owner sp = ((a, t), p')"
  shows "prov_wf p' \<and> a < length (pv_allocs p') \<and> t \<in> set (tags_of p' a)"
proof (cases "place p key")
  case (Some e)
  with assms place_range [OF assms(1), of key a t] show ?thesis by (simp add: place_alloc_def)
next
  case None
  obtain i p1 where n: "new_alloc p 1 PlaceOrigin owner sp Active = (i, p1)"
    by (cases "new_alloc p 1 PlaceOrigin owner sp Active")
  note w = wf_new_alloc [OF assms(1) n]
  define p2 where "p2 = set_alloc i (\<lambda>a. a\<lparr>al_init := map (\<lambda>_. True) (al_init a)\<rparr>) p1"
  have "data_only (\<lambda>a. a\<lparr>al_init := map (\<lambda>_. True) (al_init a)\<rparr>)" by (simp add: data_only_def)
  with w have wf2: "prov_wf p2" unfolding p2_def by (blast intro: wf_data_only)
  have e: "a = i" "t = al_root (pv_allocs p2 ! i)" "p' = put_place key (i, al_root (pv_allocs p2 ! i)) p2"
    using assms(2) None by (auto simp: place_alloc_def n [simplified] Let_def p2_def)
  have i2: "i < length (pv_allocs p2)" and r2: "al_root (pv_allocs p2 ! i) \<in> set (tags_of p2 i)"
    using w by (auto simp: p2_def tags_of_def)
  from wf_put_place [OF wf2 i2 r2] i2 r2 show ?thesis by (simp add: e put_place_def tags_of_def)
qed

lemma wf_host_free: "prov_wf p \<Longrightarrow> prov_wf (snd (host_free p ptr))"
proof -
  assume wf: "prov_wf p"
  have d: "data_only (\<lambda>a. a\<lparr>al_live := False\<rparr>)" by (simp add: data_only_def)
  from wf_data_only [OF wf d] show ?thesis
    using wf by (auto simp: host_free_def intro: wf_perms_only [OF _ perms_only_map_perms] split: option.splits)
qed

lemma length_write_bytes [simp]: "length (write_bytes lo len v bs) = length bs"
proof -
  have "length (fold (\<lambda>i bs. bs[lo + i := word_of_int (v div 256 ^ i)]) is bs) = length bs"
    for "is" and bs :: "8 word list"
    by (induction "is" arbitrary: bs) auto
  then show ?thesis by (simp add: write_bytes_def)
qed

lemma length_init_all [simp]: "length (init_all lo hi xs) = length xs"
proof -
  have "length (fold (\<lambda>off xs. xs[off := True]) offs xs) = length xs" for offs and xs :: "bool list"
    by (induction offs arbitrary: xs) auto
  then show ?thesis by (simp add: init_all_def)
qed

lemma prov_act_wf: "prov_wf p \<Longrightarrow> prov_guard x p \<Longrightarrow> prov_wf (prov_act x p)"
proof (cases x)
  case (PoRetag a par kind prot sp)
  assume "prov_wf p" "prov_guard x p"
  with PoRetag wf_retag [of p a par kind prot sp] show ?thesis
    by (cases "retag p a par kind prot sp") (auto simp: has_tag_def)
next
  case (PoRetagPlace k kind prot sp)
  assume wf: "prov_wf p"
  obtain a t p1 where pa: "place_alloc p k None sp = ((a, t), p1)" by (metis surj_pair)
  obtain i p2 where rt: "retag p1 a t kind prot sp = (i, p2)" by fastforce
  from wf_place_alloc [OF wf pa] wf_retag [OF _ _ _ rt] show ?thesis
    by (simp add: PoRetagPlace retag_place_def pa rt)
next
  case (PoUnprotect t)
  assume wf: "prov_wf p"
  have "prov_wf (set_tag t (\<lambda>e. e\<lparr>tg_protected := False\<rparr>) p)"
    using wf by (auto simp: prov_wf_def tag_wf_def alloc_wf_def Let_def tags_of_def nth_modify_at)
  moreover have "t < length (pv_tags p) \<Longrightarrow> tg_alloc (pv_tags p ! t) < length (pv_allocs p)"
    using prov_wfD(1) [OF wf, of t] by (simp add: tag_wf_def Let_def)
  ultimately show ?thesis
    using wf by (auto simp: PoUnprotect unprotect_def intro: wf_mark_dirty split: option.splits)
next
  case (PoExpose ptr)
  assume "prov_wf p" "prov_guard x p"
  with PoExpose show ?thesis
    by (auto simp: expose_def has_tag_def intro!: wf_exposed split: option.splits prov.splits)
next
  case (PoRegionFreed rs)
  assume wf: "prov_wf p"
  have "prov_wf (p\<lparr>pv_region_dead := ds\<rparr>)" for ds
    using wf by (auto simp: prov_wf_def tag_wf_def alloc_wf_def tags_of_def)
  then show ?thesis by (simp add: PoRegionFreed region_freed_def wf_perms_only [OF _ perms_only_fold])
next
  case (PoAccess ptr len kind sp)
  assume "prov_wf p"
  with PoAccess wf_access [of p ptr len kind sp] show ?thesis by (cases "mem_access p ptr len kind sp") simp
next
  case (PoAccessPlace k kind sp)
  assume wf: "prov_wf p"
  show ?thesis
  proof (cases "place p k")
    case None
    with PoAccessPlace wf show ?thesis by (simp add: access_place_def)
  next
    case (Some e)
    with PoAccessPlace wf wf_access [of p "tag_ptr (fst e) (snd e)" 1 kind sp] show ?thesis
      by (cases e; cases "mem_access p (tag_ptr (fst e) (snd e)) 1 kind sp") (simp add: access_place_def)
  qed
next
  case (PoAssume ptrs sp)
  assume wf: "prov_wf p"
  have "prov_wf (p\<lparr>pv_assumptions := as\<rparr>)" for as
    using wf by (auto simp: prov_wf_def tag_wf_def alloc_wf_def tags_of_def)
  with wf show ?thesis by (auto simp: PoAssume assume_noalias_def Let_def split: option.splits)
next
  case (PoRestore k prev)
  assume "prov_wf p" "prov_guard x p"
  with PoRestore show ?thesis by (cases prev) (auto simp: has_tag_def intro!: wf_restore)
qed (auto simp: wf_host_alloc wf_host_free wf_prune wf_drop_frame rebind_place_def has_tag_def
    region_frozen_def init_range_def store_bytes_def Let_def
    intro: wf_bind wf_bind [unfolded bind_place_def] wf_perms_only [OF _ perms_only_fold] split: option.splits
    intro!: wf_data_only simp: data_only_def)

interpretation prov_machine: guarded_machine prov_act prov_guard prov_wf
  by unfold_locales (rule prov_act_wf)

lemma prov_new_wf: "prov_wf prov_new"
  by (simp add: prov_wf_def prov_new_def)

end
