(* ===== verification/ProvProps.thy ===== *)
theory ProvProps
  imports ProvInvariant
begin

text \<open>
  What the provenance machine guarantees: the exact verdict and effect of an access, what a write does
  to every other borrow, the finality of frees, and what pruning can and cannot change.
\<close>

section \<open>The verdict of an access through a tag\<close>

abbreviation through :: "provenance \<Rightarrow> tag_id \<Rightarrow> tag_id \<Rightarrow> bool" where
  "through p t u \<equiv> (t, u) \<in> (tag_parent (pv_tags p))\<^sup>*"

definition range_of :: "raw_ptr \<Rightarrow> nat \<Rightarrow> nat set" where
  "range_of ptr len = {nat (rp_offset ptr)..<nat (rp_offset ptr) + len}"

definition in_bounds :: "provenance \<Rightarrow> alloc_id \<Rightarrow> raw_ptr \<Rightarrow> nat \<Rightarrow> bool" where
  "in_bounds p a ptr len \<longleftrightarrow> 0 \<le> rp_offset ptr \<and> rp_offset ptr + int len \<le> int (al_size (pv_allocs p ! a))"

definition region_alive :: "provenance \<Rightarrow> alloc_id \<Rightarrow> bool" where
  "region_alive p a \<longleftrightarrow> \<not> owned_by (pv_region_dead p) (pv_allocs p ! a)"

lemma through_child:
  "prov_wf p \<Longrightarrow> t < length (pv_tags p) \<Longrightarrow> is_child_access p u t \<longleftrightarrow> through p t u"
  using is_child_access_iff prov_wfD(5) by blast

lemma tag_access_unfold:
  assumes "a < length (pv_allocs p)" and "rp_alloc ptr = Some a" and "rp_prov ptr = Tag t"
    and "in_bounds p a ptr len" and "region_alive p a"
  shows "mem_access p ptr len kind sp =
     (case plan p a t (nat (rp_offset ptr)) (nat (rp_offset ptr) + len) kind sp of
        Inl f \<Rightarrow> (Some f, p)
      | Inr pl \<Rightarrow>
          (case kind of
             Read \<Rightarrow> (if \<forall>off \<in> range_of ptr len. al_init (pv_allocs p ! a) ! off then (None, commit pl p)
                else (Some \<lparr>uf_row = L1, uf_span = sp, uf_tag_span = Some (al_span (pv_allocs p ! a))\<rparr>, commit pl p))
           | Write \<Rightarrow> (None, set_alloc a (\<lambda>e. e\<lparr>al_init := init_all (nat (rp_offset ptr))
                (nat (rp_offset ptr) + len) (al_init e)\<rparr>) (commit pl p))))"
proof -
  have f: "(case find P xs of Some _ \<Rightarrow> x | None \<Rightarrow> y) = (if \<forall>z \<in> set xs. \<not> P z then y else x)" for P xs and x y :: 'z
    by (auto simp: find_None_iff_all split: option.splits dest: find_SomeD)
  show ?thesis
    using assms by (auto simp: mem_access_def in_bounds_def region_alive_def resolve_def Let_def f
        range_of_def split: sum.splits access_kind.splits)
qed

lemma access_exact:
  assumes wf: "prov_wf p" and a: "a < length (pv_allocs p)" and t: "t < length (pv_tags p)"
    and ptr: "rp_alloc ptr = Some a" "rp_prov ptr = Tag t" and acc: "mem_access p ptr len kind sp = (res, p')"
  shows "(res = None \<longleftrightarrow> in_bounds p a ptr len \<and> region_alive p a \<and>
       (\<forall>u \<in> set (tags_of p a). \<forall>off \<in> range_of ptr len.
          allowed (perm_at p u off) (through p t u) kind (tg_protected (pv_tags p ! u))) \<and>
       (kind = Read \<longrightarrow> (\<forall>off \<in> range_of ptr len. al_init (pv_allocs p ! a) ! off))) \<and>
     (res = None \<longrightarrow> (\<forall>u < length (pv_tags p). \<forall>off < length (tg_perms (pv_tags p ! u)).
        perm_at p' u off =
          (if u \<in> set (tags_of p a) \<and> off \<in> range_of ptr len
           then next_perm (perm_at p u off) (through p t u) kind else perm_at p u off)))"
proof (cases "in_bounds p a ptr len \<and> region_alive p a")
  case False
  then have "res \<noteq> None"
    using acc a ptr by (auto simp: mem_access_def in_bounds_def region_alive_def Let_def split: if_splits)
  with False show ?thesis by auto
next
  case True
  let ?lo = "nat (rp_offset ptr)" and ?hi = "nat (rp_offset ptr) + len"
  note un = tag_access_unfold [OF a ptr conjunct1 [OF True] conjunct2 [OF True], of kind sp]
  have ok: "(\<exists>pl. plan p a t ?lo ?hi kind sp = Inr pl) \<longleftrightarrow>
     (\<forall>u \<in> set (tags_of p a). \<forall>off \<in> range_of ptr len.
        allowed (perm_at p u off) (through p t u) kind (tg_protected (pv_tags p ! u)))"
    unfolding plan_ok_iff range_of_def by (simp add: through_child [OF wf t])
  show ?thesis
  proof (cases "plan p a t ?lo ?hi kind sp")
    case (Inl f)
    then have "res \<noteq> None" using acc un by auto
    with ok Inl show ?thesis by auto
  next
    case (Inr pl)
    have res: "res = None \<longleftrightarrow> (kind = Read \<longrightarrow> (\<forall>off \<in> range_of ptr len. al_init (pv_allocs p ! a) ! off))"
      using acc un Inr by (cases kind) (auto split: if_splits)
    have tags: "pv_tags p' = pv_tags (commit pl p)"
      using acc un Inr by (cases kind) (auto split: if_splits)
    have "perm_at p' u off = (if u \<in> set (tags_of p a) \<and> off \<in> range_of ptr len
        then next_perm (perm_at p u off) (through p t u) kind else perm_at p u off)"
      if "u < length (pv_tags p)" "off < length (tg_perms (pv_tags p ! u))" for u off
      using plan_commit [OF Inr that] tags by (simp add: perm_at_def range_of_def through_child [OF wf t])
    with res ok Inr True show ?thesis by auto
  qed
qed


lemma plan_error_cell:
  assumes "plan p a th lo hi kind sp = Inl f"
  shows "\<exists>u \<in> set (tags_of p a). \<exists>off \<in> {lo..<hi}.
     uf_row f = (if is_child_access p u th \<and> perm_at p u off = Frozen then P2 else P1)"
proof -
  from assms obtain x where x: "x \<in> set (cells (tags_of p a) lo hi)" "plan_cell p th kind sp x = Inl f"
    unfolding plan_def tags_of_def by (blast dest: collect_Inl)
  obtain u off where "x = (u, off)" by (cases x)
  with x transition_cases [of "perm_at p u off" "is_child_access p u th" kind "tg_protected (pv_tags p ! u)"]
  show ?thesis
    by (intro bexI [of _ u] bexI [of _ off])
      (auto simp: plan_cell_def perm_at_def set_cells Let_def split: sum.splits)
qed

lemma access_frame:
  assumes "mem_access p ptr len kind sp = (res, p')"
  shows "same_tree p p'" and "length (pv_allocs p') = length (pv_allocs p)"
    and "i < length (pv_allocs p) \<Longrightarrow> al_tags (pv_allocs p' ! i) = al_tags (pv_allocs p ! i) \<and>
       al_size (pv_allocs p' ! i) = al_size (pv_allocs p ! i) \<and> al_owner (pv_allocs p' ! i) = al_owner (pv_allocs p ! i) \<and>
       al_root (pv_allocs p' ! i) = al_root (pv_allocs p ! i) \<and> al_live (pv_allocs p' ! i) = al_live (pv_allocs p ! i) \<and>
       al_exposed (pv_allocs p' ! i) = al_exposed (pv_allocs p ! i) \<and> al_span (pv_allocs p' ! i) = al_span (pv_allocs p ! i)"
    and "pv_region_dead p' = pv_region_dead p" and "pv_places p' = pv_places p" and "pv_dirty p' = pv_dirty p"
proof -
  have c: "perms_only p (commit pl p)" for pl by (rule perms_only_commit)
  have self: "\<exists>xs. e = e\<lparr>al_init := xs\<rparr>" for e :: alloc by (rule exI [of _ "al_init e"]) simp
  have "p' = p \<or> (\<exists>a lo hi pl. p' = set_alloc a (\<lambda>e. e\<lparr>al_init := init_all lo hi (al_init e)\<rparr>) (commit pl p)) \<or>
     (\<exists>pl. p' = commit pl p)"
    using assms unfolding mem_access_def Let_def
    by (auto split: option.splits if_splits sum.splits access_kind.splits prod.splits)
  then consider "p' = p"
    | a lo hi pl where "p' = set_alloc a (\<lambda>e. e\<lparr>al_init := init_all lo hi (al_init e)\<rparr>) (commit pl p)"
    | pl where "p' = commit pl p"
    by blast
  then have *: "same_tree p p' \<and> length (pv_allocs p') = length (pv_allocs p) \<and>
     (\<forall>i < length (pv_allocs p). \<exists>xs. pv_allocs p' ! i = (pv_allocs p ! i)\<lparr>al_init := xs\<rparr>) \<and>
     pv_region_dead p' = pv_region_dead p \<and> pv_places p' = pv_places p \<and> pv_dirty p' = pv_dirty p"
  proof cases
    case 1
    then show ?thesis by (simp add: self)
  next
    case (2 a lo hi pl)
    have "\<exists>xs. pv_allocs p' ! i = (pv_allocs p ! i)\<lparr>al_init := xs\<rparr>" if "i < length (pv_allocs p)" for i
      using that c [of pl] 2
      by (intro exI [of _ "if i = a then init_all lo hi (al_init (pv_allocs p ! i)) else al_init (pv_allocs p ! i)"])
        (simp add: perms_only_def nth_modify_at)
    with 2 c [of pl] show ?thesis by (auto simp: perms_only_def same_tree_def)
  next
    case (3 pl)
    with c [of pl] show ?thesis by (simp add: perms_only_def self)
  qed
  then show "same_tree p p'" "length (pv_allocs p') = length (pv_allocs p)"
    "pv_region_dead p' = pv_region_dead p" "pv_places p' = pv_places p" "pv_dirty p' = pv_dirty p" by auto
  assume "i < length (pv_allocs p)"
  with * obtain xs where "pv_allocs p' ! i = (pv_allocs p ! i)\<lparr>al_init := xs\<rparr>" by blast
  then show "al_tags (pv_allocs p' ! i) = al_tags (pv_allocs p ! i) \<and>
       al_size (pv_allocs p' ! i) = al_size (pv_allocs p ! i) \<and> al_owner (pv_allocs p' ! i) = al_owner (pv_allocs p ! i) \<and>
       al_root (pv_allocs p' ! i) = al_root (pv_allocs p ! i) \<and> al_live (pv_allocs p' ! i) = al_live (pv_allocs p ! i) \<and>
       al_exposed (pv_allocs p' ! i) = al_exposed (pv_allocs p ! i) \<and> al_span (pv_allocs p' ! i) = al_span (pv_allocs p ! i)"
    by simp
qed

lemma same_tree_parent: "same_tree p q \<Longrightarrow> tag_parent (pv_tags q) = tag_parent (pv_tags p)"
  using same_treeD [of p q] by (auto simp: tag_parent_def)

text \<open>C2: The verdict and the effect of an access through a tag are exactly the transition table. It is
  accepted if and only if it is in bounds, the owning region was not freed, every ancestor-or-self of
  the tag permits it at every byte, no other live tag is protected against a write, and a read meets
  only initialised bytes. When accepted, each permission of the tree in the range takes the table's
  next value and no other permission changes.\<close>

theorem tag_access_exact:
  assumes "prov_wf p" and "a < length (pv_allocs p)" and "t < length (pv_tags p)"
    and "rp_alloc ptr = Some a" and "rp_prov ptr = Tag t" and "mem_access p ptr len kind sp = (res, p')"
  shows "(res = None \<longleftrightarrow> in_bounds p a ptr len \<and> region_alive p a \<and>
       (\<forall>u \<in> set (tags_of p a). \<forall>off \<in> range_of ptr len.
          allowed (perm_at p u off) (through p t u) kind (tg_protected (pv_tags p ! u))) \<and>
       (kind = Read \<longrightarrow> (\<forall>off \<in> range_of ptr len. al_init (pv_allocs p ! a) ! off))) \<and>
     (res = None \<longrightarrow> (\<forall>u < length (pv_tags p). \<forall>off < length (tg_perms (pv_tags p ! u)).
        perm_at p' u off =
          (if u \<in> set (tags_of p a) \<and> off \<in> range_of ptr len
           then next_perm (perm_at p u off) (through p t u) kind else perm_at p u off)))"
  by (rule access_exact [OF assms])

definition sp0 :: span where "sp0 = \<lparr>span_start = 0, span_end = 1\<rparr>"

text \<open>Four bytes of host memory, initialised, with two mutable reborrows of the root.\<close>

definition demo_prov :: provenance where
  "demo_prov =
     (let (ptr, p1) = host_alloc prov_new 4 0 sp0;
          p2 = init_range p1 ptr 4;
          (t1, p3) = retag p2 0 0 MutableTag False sp0
      in snd (retag p3 0 0 MutableTag False sp0))"

lemma demo_prov_wf: "prov_wf demo_prov"
proof -
  have "demo_prov = fold prov_act [PoHostAlloc 4 0 sp0, PoInit (tag_ptr 0 0) 4,
      PoRetag 0 0 MutableTag False sp0, PoRetag 0 0 MutableTag False sp0] prov_new" by code_simp
  moreover have "guarded_run prov_act prov_guard [PoHostAlloc 4 0 sp0, PoInit (tag_ptr 0 0) 4,
      PoRetag 0 0 MutableTag False sp0, PoRetag 0 0 MutableTag False sp0] prov_new" by code_simp
  ultimately show ?thesis using prov_machine.run [OF prov_new_wf] by metis
qed

lemma demo_prov_facts:
  "length (pv_allocs demo_prov) = 1" "length (pv_tags demo_prov) = 3" "tags_of demo_prov 0 = [0, 1, 2]"
  "fst (mem_access demo_prov (tag_ptr 0 1) 4 Write sp0) = None"
  by code_simp+

theorem tag_access_exact_witness:
  "in_bounds demo_prov 0 (tag_ptr 0 1) 4 \<and> region_alive demo_prov 0"
proof -
  have a: "0 < length (pv_allocs demo_prov)" "1 < length (pv_tags demo_prov)" by (simp_all add: demo_prov_facts)
  obtain p' where m: "mem_access demo_prov (tag_ptr 0 1) 4 Write sp0 = (None, p')"
    using demo_prov_facts(4) by (metis prod.collapse)
  from tag_access_exact [OF demo_prov_wf a _ _ m] show ?thesis by (simp add: tag_ptr_def)
qed

text \<open>C4: A write through one borrow ends every other. After an accepted write through a tag, any access
  through a tag of the same tree that is not the tag itself or one of its ancestors is undefined
  behaviour of row P1 wherever it stays inside the bytes written.\<close>

theorem write_invalidates_other_borrows:
  assumes "prov_wf p" and "a < length (pv_allocs p)" and "t < length (pv_tags p)"
    and "rp_alloc ptr = Some a" and "rp_prov ptr = Tag t"
    and w: "mem_access p ptr len Write sp = (None, p')"
    and u: "u \<in> set (tags_of p a)" "\<not> through p t u"
    and q: "rp_alloc q = Some a" "rp_prov q = Tag u" "rp_offset ptr \<le> rp_offset q"
      "rp_offset q + int n \<le> rp_offset ptr + int len" "0 < n"
  shows "\<exists>f. fst (mem_access p' q n kind sp') = Some f \<and> uf_row f = P1"
proof -
  note wf = assms(1) and a = assms(2)
  note ex = access_exact [OF assms(1-5) w, simplified]
  note fr = access_frame [OF w]
  have ul: "u < length (pv_tags p)" using wf_tags_of [OF wf a u(1)] by simp
  have wf': "prov_wf p'" by (rule wf_access [OF wf w])
  have a': "a < length (pv_allocs p')" using a fr(2) by simp
  have tags': "tags_of p' a = tags_of p a" using fr(3) [OF a] by (simp add: tags_of_def)
  have inb: "in_bounds p a ptr len" "region_alive p a" using ex by simp_all
  have inb': "in_bounds p' a q n" "region_alive p' a"
    using inb q fr(3) [OF a] fr(4) by (auto simp: in_bounds_def region_alive_def owned_by_def)
  have sub: "{nat (rp_offset q)..<nat (rp_offset q) + n} \<subseteq> range_of ptr len"
    using q inb by (auto simp: range_of_def in_bounds_def)
  have sz: "length (tg_perms (pv_tags p ! v)) = al_size (pv_allocs p ! a)" if "v \<in> set (tags_of p a)" for v
    using wf_tags_of [OF wf a that] prov_wfD(1) [OF wf, of v] by (auto simp: tag_wf_def Let_def)
  have perm: "perm_at p' v off = (if through p t v then Active else Disabled)"
    if "v \<in> set (tags_of p a)" "off \<in> {nat (rp_offset q)..<nat (rp_offset q) + n}" for v off
  proof -
    have "off < al_size (pv_allocs p ! a)" using that(2) inb'(1) fr(3) [OF a] by (auto simp: in_bounds_def)
    with ex that sub sz [OF that(1)] wf_tags_of [OF wf a that(1)] show ?thesis
      by (auto simp: next_perm_def)
  qed
  have th: "through p' = through p" using same_tree_parent [OF fr(1)] by simp
  have ul': "u < length (pv_tags p')" using ul same_treeD(1) [OF fr(1)] by simp
  let ?pl = "plan p' a u (nat (rp_offset q)) (nat (rp_offset q) + n) kind sp'"
  have "\<not> (\<exists>pl. ?pl = Inr pl)"
  proof
    assume "\<exists>pl. ?pl = Inr pl"
    then have "allowed (perm_at p' u (nat (rp_offset q))) (is_child_access p' u u) kind (tg_protected (pv_tags p' ! u))"
      unfolding plan_ok_iff using u(1) tags' q(5) by auto
    with perm [OF u(1), of "nat (rp_offset q)"] u(2) q(5) show False
      by (simp add: through_child [OF wf' ul'] allowed_def)
  qed
  then obtain f where f: "?pl = Inl f" by (cases ?pl) auto
  from plan_error_cell [OF f] perm tags' have "uf_row f = P1" by (fastforce split: if_splits)
  with f show ?thesis
    using tag_access_unfold [OF a' q(1,2) inb', of kind sp'] by simp
qed

theorem write_invalidates_other_borrows_witness:
  "\<exists>f. fst (mem_access (snd (mem_access demo_prov (tag_ptr 0 1) 4 Write sp0)) (tag_ptr 0 2) 1 Read sp0) = Some f
     \<and> uf_row f = P1"
proof -
  have a: "0 < length (pv_allocs demo_prov)" "1 < length (pv_tags demo_prov)" by (simp_all add: demo_prov_facts)
  have m: "mem_access demo_prov (tag_ptr 0 1) 4 Write sp0 =
      (None, snd (mem_access demo_prov (tag_ptr 0 1) 4 Write sp0))"
    using demo_prov_facts(4) by (metis prod.collapse)
  have "is_child_access demo_prov 2 1 = False" by code_simp
  then have "\<not> through demo_prov 1 2" using through_child [OF demo_prov_wf a(2)] by simp
  from write_invalidates_other_borrows [OF demo_prov_wf a _ _ m _ this]
  show ?thesis by (simp add: demo_prov_facts tag_ptr_def)
qed


section \<open>Frees are final\<close>

text \<open>An allocation whose root is Disabled at every byte and that is no longer live.\<close>

definition dead_alloc :: "alloc_id \<Rightarrow> provenance \<Rightarrow> bool" where
  "dead_alloc a p \<longleftrightarrow> a < length (pv_allocs p) \<and> \<not> al_live (pv_allocs p ! a) \<and>
     (\<forall>off < al_size (pv_allocs p ! a). perm_at p (al_root (pv_allocs p ! a)) off = Disabled)"

lemma wf_root:
  "prov_wf p \<Longrightarrow> a < length (pv_allocs p) \<Longrightarrow>
     al_root (pv_allocs p ! a) \<in> set (tags_of p a) \<and> al_root (pv_allocs p ! a) < length (pv_tags p) \<and>
     length (tg_perms (pv_tags p ! al_root (pv_allocs p ! a))) = al_size (pv_allocs p ! a)"
proof -
  assume wf: "prov_wf p" and a: "a < length (pv_allocs p)"
  have r: "al_root (pv_allocs p ! a) \<in> set (tags_of p a)"
    using prov_wfD(2) [OF wf a] by (auto simp: alloc_wf_def Let_def tags_of_def)
  with wf_tags_of [OF wf a r] prov_wfD(1) [OF wf] show ?thesis by (auto simp: tag_wf_def Let_def)
qed

text \<open>Every tag of an allocation descends from its root.\<close>

lemma root_through:
  assumes "prov_wf p"
  shows "t < length (pv_tags p) \<Longrightarrow> tg_alloc (pv_tags p ! t) = a \<Longrightarrow> through p t (al_root (pv_allocs p ! a))"
proof (induction t rule: less_induct)
  case (less t)
  have tw: "tag_wf p t" by (rule prov_wfD(1) [OF assms less.prems(1)])
  show ?case
  proof (cases "tg_parent (pv_tags p ! t)")
    case None
    with tw less.prems show ?thesis by (simp add: tag_wf_def Let_def)
  next
    case (Some q)
    with tw less.prems have q: "q < t" "tg_alloc (pv_tags p ! q) = a" by (auto simp: tag_wf_def Let_def)
    with less have "through p q (al_root (pv_allocs p ! a))" by simp
    have "(t, q) \<in> tag_parent (pv_tags p)" using Some less.prems by (simp add: tag_parent_def)
    then show ?thesis using \<open>through p q (al_root (pv_allocs p ! a))\<close>
      by (rule converse_rtrancl_into_rtrancl)
  qed
qed

lemma dead_access:
  assumes "prov_wf p" and "dead_alloc a p" and "rp_alloc q = Some a" and "0 < n"
    and "\<And>t. rp_prov q = Tag t \<Longrightarrow> t < length (pv_tags p) \<and> tg_alloc (pv_tags p ! t) = a"
  shows "fst (mem_access p q n kind sp) \<noteq> None"
proof (cases "rp_prov q")
  case Wildcard
  with assms(2,3) show ?thesis by (auto simp: mem_access_def resolve_def dead_alloc_def Let_def)
next
  case (Tag t)
  have a: "a < length (pv_allocs p)" using assms(2) by (simp add: dead_alloc_def)
  from assms(5) [OF Tag] have t: "t < length (pv_tags p)" "tg_alloc (pv_tags p ! t) = a" by simp_all
  obtain res p' where m: "mem_access p q n kind sp = (res, p')" by fastforce
  let ?r = "al_root (pv_allocs p ! a)"
  have "\<not> allowed (perm_at p ?r (nat (rp_offset q))) (through p t ?r) kind (tg_protected (pv_tags p ! ?r))"
    if "in_bounds p a q n"
  proof -
    from that assms(4) have "nat (rp_offset q) < al_size (pv_allocs p ! a)" by (auto simp: in_bounds_def)
    with assms(2) root_through [OF assms(1) t] show ?thesis by (simp add: dead_alloc_def allowed_def)
  qed
  moreover have "?r \<in> set (tags_of p a)" "nat (rp_offset q) \<in> range_of q n"
    using wf_root [OF assms(1) a] assms(4) by (simp_all add: range_of_def)
  ultimately have "res \<noteq> None" using access_exact [OF assms(1) a t(1) assms(3) Tag m] by blast
  with m show ?thesis by simp
qed

text \<open>What keeps an allocation dead: its liveness, size and root stay, and no permission of the root
  leaves Disabled.\<close>

lemma dead_keeps:
  assumes "dead_alloc a p" and "length (pv_allocs p) \<le> length (pv_allocs p')"
    and "al_live (pv_allocs p' ! a) = al_live (pv_allocs p ! a)"
    and "al_size (pv_allocs p' ! a) = al_size (pv_allocs p ! a)"
    and "al_root (pv_allocs p' ! a) = al_root (pv_allocs p ! a)"
    and "\<And>off. off < al_size (pv_allocs p ! a) \<Longrightarrow> perm_at p (al_root (pv_allocs p ! a)) off = Disabled \<Longrightarrow>
       perm_at p' (al_root (pv_allocs p ! a)) off = Disabled"
  shows "dead_alloc a p'"
  using assms by (auto simp: dead_alloc_def)

lemma map_perms_perm:
  assumes "f Disabled = Disabled" and "t < length (pv_tags p)" and "off < length (tg_perms (pv_tags p ! t))"
    and "perm_at p t off = Disabled"
  shows "perm_at (map_perms f ts p) t off = Disabled"
  using assms(2-)
proof (induction ts arbitrary: p)
  case Nil
  then show ?case by (simp add: map_perms_def)
next
  case (Cons u us)
  let ?p = "set_tag u (\<lambda>e. e\<lparr>tg_perms := map f (tg_perms e)\<rparr>) p"
  have "perm_at ?p t off = Disabled"
    using Cons.prems assms(1) by (cases "t = u") (simp_all add: perm_at_def nth_modify_at)
  with Cons.IH [of ?p] Cons.prems have "perm_at (map_perms f us ?p) t off = Disabled"
    by (cases "t = u") (simp_all add: nth_modify_at)
  then show ?case by (simp add: map_perms_def)
qed

lemma map_perms_allocs [simp]: "pv_allocs (map_perms f ts p) = pv_allocs p"
  using perms_only_map_perms [of p f ts] by (simp add: perms_only_def)

lemma fold_map_perms_perm:
  assumes "f Disabled = Disabled" and "t < length (pv_tags p)" and "off < length (tg_perms (pv_tags p ! t))"
    and "perm_at p t off = Disabled"
  shows "perm_at (fold (map_perms f) tss p) t off = Disabled"
  using assms(2-)
proof (induction tss arbitrary: p)
  case (Cons ts tss)
  have st: "same_tree p (map_perms f ts p)" using perms_only_map_perms by (simp add: perms_only_def)
  show ?case
    using Cons.IH [of "map_perms f ts p"] map_perms_perm [of f t p off ts] assms(1) Cons.prems
      same_treeD(1,7) [OF st] by simp
qed simp

lemma fold_map_perms_allocs [simp]: "pv_allocs (fold (map_perms f) tss p) = pv_allocs p"
  using perms_only_fold [of p f tss] by (simp add: perms_only_def)

lemma host_free_dead:
  assumes wf: "prov_wf p" and f: "host_free p ptr = (True, p')" and a: "rp_alloc ptr = Some a"
  shows "dead_alloc a p'"
proof -
  from f a have al: "a < length (pv_allocs p)"
    and p': "p' = map_perms (\<lambda>_. Disabled) (tags_of p a) (set_alloc a (\<lambda>e. e\<lparr>al_live := False\<rparr>) p)"
    by (auto simp: host_free_def tags_of_def split: option.splits if_splits)
  let ?p = "set_alloc a (\<lambda>e. e\<lparr>al_live := False\<rparr>) p"
  have hit: "perm_at (map_perms (\<lambda>_. Disabled) ts q) t off = Disabled"
    if "t \<in> set ts" "t < length (pv_tags q)" "off < length (tg_perms (pv_tags q ! t))" for ts q t off
    using that
  proof (induction ts arbitrary: q)
    case (Cons u us)
    let ?q = "set_tag u (\<lambda>e. e\<lparr>tg_perms := map (\<lambda>_. Disabled) (tg_perms e)\<rparr>) q"
    have len: "t < length (pv_tags ?q)" "off < length (tg_perms (pv_tags ?q ! t))"
      using Cons.prems by (auto simp: nth_modify_at)
    have "perm_at (map_perms (\<lambda>_. Disabled) us ?q) t off = Disabled"
    proof (cases "t = u")
      case True
      then have "perm_at ?q t off = Disabled" using Cons.prems by (simp add: perm_at_def)
      with len show ?thesis by (intro map_perms_perm) simp_all
    next
      case False
      with Cons.prems len show ?thesis by (intro Cons.IH) auto
    qed
    then show ?case by (simp add: map_perms_def)
  qed simp
  note r = wf_root [OF wf al]
  have "perm_at p' (al_root (pv_allocs p ! a)) off = Disabled" if "off < al_size (pv_allocs p ! a)" for off
    unfolding p' by (rule hit) (use r that in \<open>simp_all\<close>)
  with al p' show ?thesis by (simp add: dead_alloc_def)
qed


lemma dead_frame:
  assumes "dead_alloc a p" and "prov_wf p"
    and "\<And>t. t < length (pv_tags p) \<Longrightarrow> tg_perms (pv_tags p' ! t) = tg_perms (pv_tags p ! t)"
    and "length (pv_allocs p) \<le> length (pv_allocs p')"
    and "al_live (pv_allocs p' ! a) = al_live (pv_allocs p ! a) \<and>
      al_size (pv_allocs p' ! a) = al_size (pv_allocs p ! a) \<and> al_root (pv_allocs p' ! a) = al_root (pv_allocs p ! a)"
  shows "dead_alloc a p'"
proof -
  have "a < length (pv_allocs p)" using assms(1) by (simp add: dead_alloc_def)
  from wf_root [OF assms(2) this] have r: "al_root (pv_allocs p ! a) < length (pv_tags p)" by simp
  show ?thesis
    by (rule dead_keeps [OF assms(1,4)]) (use assms(5) assms(3) [OF r] in \<open>simp_all add: perm_at_def\<close>)
qed

lemma angelic_Inr: "angelic f cs fst0 = Inr pl \<Longrightarrow> \<exists>c \<in> set cs. f c = Inr pl"
  by (induction f cs fst0 rule: angelic.induct) (auto split: sum.splits)

lemma resolve_plan: "resolve p b pr lo hi kind sp = Inr pl \<Longrightarrow> \<exists>th. plan p b th lo hi kind sp = Inr pl"
  by (auto simp: resolve_def Let_def split: prov.splits if_splits sum.splits option.splits dest: angelic_Inr)

lemma access_plan:
  assumes "mem_access p q n kind sp = (res, p')"
  shows "p' = p \<or> (\<exists>b lo hi pl. b < length (pv_allocs p) \<and> resolve p b (rp_prov q) lo hi kind sp = Inr pl \<and>
     pv_tags p' = pv_tags (commit pl p))"
proof (cases "p' = p")
  case False
  with assms obtain b where b: "b < length (pv_allocs p)" "rp_alloc q = Some b"
    by (auto simp: mem_access_def bind_eq_Some_conv split: option.splits)
  define lo hi where "lo = nat (rp_offset q)" and "hi = nat (rp_offset q) + n"
  from assms False b obtain pl where "resolve p b (rp_prov q) lo hi kind sp = Inr pl"
    by (cases "resolve p b (rp_prov q) lo hi kind sp")
      (auto simp: mem_access_def Let_def lo_def hi_def split: if_splits)
  moreover from this assms False b have "pv_tags p' = pv_tags (commit pl p)"
    by (cases kind) (auto simp: mem_access_def Let_def lo_def hi_def split: if_splits option.splits)
  ultimately show ?thesis using b by blast
qed simp

lemma dead_access_step:
  assumes wf: "prov_wf p" and dead: "dead_alloc a p" and m: "mem_access p q n kind sp = (res, p')"
  shows "dead_alloc a p'"
proof -
  have a: "a < length (pv_allocs p)" using dead by (simp add: dead_alloc_def)
  let ?r = "al_root (pv_allocs p ! a)"
  note r = wf_root [OF wf a] and fr = access_frame [OF m]
  have keep: "perm_at (commit pl p) ?r off = Disabled"
    if pl: "plan p b th lo hi kind sp = Inr pl" and b: "b < length (pv_allocs p)" and off: "off < al_size (pv_allocs p ! a)"
    for b th lo hi pl off
  proof -
    have d: "perm_at p ?r off = Disabled" using dead off by (simp add: dead_alloc_def)
    have "next_perm Disabled (is_child_access p ?r th) kind = Disabled"
      if "?r \<in> set (tags_of p b)" "off \<in> {lo..<hi}"
    proof -
      have "allowed (perm_at p ?r off) (is_child_access p ?r th) kind (tg_protected (pv_tags p ! ?r))"
        using that pl plan_ok_iff [of p b th lo hi kind sp] by blast
      then have "allowed Disabled (is_child_access p ?r th) kind (tg_protected (pv_tags p ! ?r))"
        by (simp only: d)
      then show ?thesis by (simp add: allowed_def next_perm_def split: access_kind.splits if_splits)
    qed
    with plan_commit [OF pl, of ?r off] r d off show ?thesis by auto
  qed
  have perms: "perm_at p' ?r off = Disabled" if off: "off < al_size (pv_allocs p ! a)" for off
  proof -
    have d: "perm_at p ?r off = Disabled" using dead off by (simp add: dead_alloc_def)
    from access_plan [OF m] have "p' = p \<or> (\<exists>b th lo hi pl. b < length (pv_allocs p) \<and>
        plan p b th lo hi kind sp = Inr pl \<and> pv_tags p' = pv_tags (commit pl p))"
      using resolve_plan by blast
    then consider "p' = p"
      | b th lo hi pl where "b < length (pv_allocs p)" "plan p b th lo hi kind sp = Inr pl"
          "pv_tags p' = pv_tags (commit pl p)"
      by blast
    then show ?thesis
    proof cases
      case 1
      with d show ?thesis by simp
    next
      case 2
      from keep [OF 2(2,1) off] show ?thesis unfolding perm_at_def 2(3) .
    qed
  qed
  show ?thesis by (rule dead_keeps [OF dead]) (use fr(2) fr(3) [OF a] perms in simp_all)
qed

lemma dead_fold:
  assumes f: "f Disabled = Disabled" and dead: "dead_alloc a q"
    and r: "al_root (pv_allocs q ! a) < length (pv_tags q)"
      "length (tg_perms (pv_tags q ! al_root (pv_allocs q ! a))) = al_size (pv_allocs q ! a)"
  shows "dead_alloc a (fold (map_perms f) tss q)"
proof -
  have "perm_at (fold (map_perms f) tss q) (al_root (pv_allocs q ! a)) off = Disabled"
    if off: "off < al_size (pv_allocs q ! a)" for off
  proof (rule fold_map_perms_perm [of f])
    show "perm_at q (al_root (pv_allocs q ! a)) off = Disabled"
      using dead off by (simp add: dead_alloc_def)
  qed (use f r off in simp_all)
  with dead show ?thesis by (simp add: dead_alloc_def)
qed

lemma dead_act:
  assumes wf: "prov_wf p" and g: "prov_guard x p" and dead: "dead_alloc a p"
  shows "dead_alloc a (prov_act x p)"
proof -
  have a: "a < length (pv_allocs p)" "\<not> al_live (pv_allocs p ! a)" using dead by (simp_all add: dead_alloc_def)
  note r = wf_root [OF wf a(1)]
  have ne: "a \<noteq> length (pv_allocs p)" "a < Suc (length (pv_allocs p))" using a(1) by simp_all
  have fold: "dead_alloc a (fold (map_perms f) tss q)"
    if "f Disabled = Disabled" "pv_tags q = pv_tags p" "pv_allocs q = pv_allocs p" for f tss q
    by (rule dead_fold) (use that dead r in \<open>simp_all add: dead_alloc_def perm_at_def\<close>)
  show ?thesis
  proof (cases x)
    case (PoHostAlloc n own sp)
    then show ?thesis
      by (auto intro!: dead_frame [OF dead wf] simp: host_alloc_def new_alloc_def Let_def nth_append nth_modify_at a ne)
  next
    case (PoHostFree ptr)
    show ?thesis
    proof (cases "host_free p ptr")
      case (Pair ok p')
      show ?thesis
      proof (cases ok)
        case True
        with Pair obtain i where i: "p' = map_perms (\<lambda>_. Disabled) (al_tags (pv_allocs p ! i))
            (set_alloc i (\<lambda>e. e\<lparr>al_live := False\<rparr>) p)"
          by (auto simp: host_free_def split: option.splits if_splits)
        have "dead_alloc a (set_alloc i (\<lambda>e. e\<lparr>al_live := False\<rparr>) p)"
          by (rule dead_frame [OF dead wf]) (use a in \<open>auto simp: nth_modify_at\<close>)
        then have "dead_alloc a p'"
          using r a unfolding i dead_alloc_def
          by (auto intro!: map_perms_perm simp: nth_modify_at)
        with PoHostFree Pair show ?thesis by simp
      next
        case False
        with Pair have "p' = p" by (auto simp: host_free_def split: option.splits if_splits)
        with PoHostFree Pair dead show ?thesis by simp
      qed
    qed
  next
    case PoPrune
    with a prune_result [of p] show ?thesis by (intro dead_frame [OF dead wf]) auto
  next
    case (PoRetag b par kind prot sp)
    then show ?thesis using a
      by (auto intro!: dead_frame [OF dead wf] simp: retag_def Let_def mark_dirty_def nth_append nth_modify_at split: if_splits)
  next
    case (PoRetagPlace k kind prot sp)
    then show ?thesis using a ne
      by (auto intro!: dead_frame [OF dead wf] simp: retag_place_def place_alloc_def new_alloc_def put_place_def
          retag_def Let_def mark_dirty_def nth_append nth_modify_at split: option.splits prod.splits if_splits)
  next
    case (PoRegionFreed rs)
    then show ?thesis by (simp add: region_freed_def fold)
  next
    case (PoRegionFrozen rs)
    then show ?thesis by (simp add: region_frozen_def fold freeze_perm_def)
  next
    case (PoAccess ptr len kind sp)
    with dead_access_step [OF wf dead] show ?thesis by (cases "mem_access p ptr len kind sp") simp
  next
    case (PoAccessPlace k kind sp)
    show ?thesis
    proof (cases "place p k")
      case None
      with PoAccessPlace dead show ?thesis by (simp add: access_place_def)
    next
      case (Some e)
      with PoAccessPlace dead_access_step [OF wf dead, of "tag_ptr (fst e) (snd e)" 1 kind sp] show ?thesis
        by (cases e; cases "mem_access p (tag_ptr (fst e) (snd e)) 1 kind sp") (simp add: access_place_def)
    qed
  qed (auto intro!: dead_frame [OF dead wf] simp: bind_place_def rebind_place_def restore_place_def
      displaced_def put_place_def mark_dirty_def drop_frame_def unprotect_def expose_def assume_noalias_def
      init_range_def store_bytes_def Let_def nth_modify_at a split: option.splits prod.splits prov.splits if_splits)
qed


lemma dead_run:
  "prov_wf p \<Longrightarrow> guarded_run prov_act prov_guard ops p \<Longrightarrow> dead_alloc a p \<Longrightarrow>
     prov_wf (fold prov_act ops p) \<and> dead_alloc a (fold prov_act ops p)"
  by (induction ops arbitrary: p) (auto intro: prov_act_wf dead_act)

text \<open>C27: Use after free is always caught. Once \<open>c.free\<close> has released an allocation, then after any
  sequence of operations (new borrows, pruning, exposure, other allocations and frees) every non-empty
  access to it, through any of its tags old or new or through an exposed address, is undefined
  behaviour.\<close>

theorem freed_memory_never_accessible:
  assumes "prov_wf p" and "host_free p ptr = (True, p1)" and "rp_alloc ptr = Some a"
    and "guarded_run prov_act prov_guard ops p1" and "p2 = fold prov_act ops p1"
    and "rp_alloc q = Some a" and "0 < n"
    and "\<forall>t. rp_prov q = Tag t \<longrightarrow> t < length (pv_tags p2) \<and> tg_alloc (pv_tags p2 ! t) = a"
  shows "fst (mem_access p2 q n kind sp) \<noteq> None"
proof -
  have "prov_wf p1" using wf_host_free [OF assms(1), of ptr] assms(2) by simp
  from dead_run [OF this assms(4) host_free_dead [OF assms(1-3)]] assms(5)
  have "prov_wf p2" "dead_alloc a p2" by simp_all
  from dead_access [OF this assms(6,7)] assms(8) show ?thesis by blast
qed

theorem freed_memory_never_accessible_witness:
  "fst (mem_access (fold prov_act [PoRetag 0 0 MutableTag False sp0, PoPrune]
      (snd (host_free demo_prov (tag_ptr 0 0)))) (tag_ptr 0 3) 2 Write sp0) \<noteq> None"
proof -
  let ?ops = "[PoRetag 0 0 MutableTag False sp0, PoPrune]" and ?p1 = "snd (host_free demo_prov (tag_ptr 0 0))"
  have h: "host_free demo_prov (tag_ptr 0 0) = (True, ?p1)" by code_simp
  have g: "guarded_run prov_act prov_guard ?ops ?p1" by code_simp
  have t: "3 < length (pv_tags (fold prov_act ?ops ?p1)) \<and> tg_alloc (pv_tags (fold prov_act ?ops ?p1) ! 3) = 0"
    by code_simp
  from freed_memory_never_accessible [OF demo_prov_wf h _ g refl] t show ?thesis
    by (simp add: tag_ptr_def del: fold_simps)
qed

lemma region_freed_dead:
  "set (pv_region_dead (region_freed p rs)) = set (pv_region_dead p) \<union> set rs"
proof -
  have f: "set (fold (\<lambda>r ds. if r \<in> set ds then ds else ds @ [r]) rs ds) = set ds \<union> set rs" for ds
    by (induction rs arbitrary: ds) auto
  have "pv_region_dead (fold (map_perms g) tss q) = pv_region_dead q" for g tss q
    using perms_only_fold [of q g tss] by (simp add: perms_only_def)
  then show ?thesis by (simp add: region_freed_def f)
qed

lemma host_free_region_dead: "pv_region_dead (snd (host_free p ptr)) = pv_region_dead p"
proof -
  have "pv_region_dead (map_perms f ts u) = pv_region_dead u" for f ts u
    using perms_only_map_perms [of u f ts] by (simp add: perms_only_def)
  then show ?thesis by (simp add: host_free_def set_alloc_def split: option.splits)
qed

lemma place_region_dead:
  "pv_region_dead (snd (place_alloc p key owner sp)) = pv_region_dead p"
  "pv_region_dead (snd (retag p a t kind prot sp)) = pv_region_dead p"
  by (simp_all add: place_alloc_def new_alloc_def retag_def set_alloc_def put_place_def mark_dirty_def
      Let_def split: option.splits)

lemma act_region_dead: "set (pv_region_dead p) \<subseteq> set (pv_region_dead (prov_act x p))"
proof (cases x)
  case (PoRegionFreed rs)
  then show ?thesis using region_freed_dead [of p rs] by simp
next
  case (PoAccess ptr len kind sp)
  then show ?thesis using access_frame(4) [of p ptr len kind sp] by (cases "mem_access p ptr len kind sp") simp
next
  case (PoAccessPlace k kind sp)
  show ?thesis
  proof (cases "place p k")
    case None
    with PoAccessPlace show ?thesis by (simp add: access_place_def)
  next
    case (Some e)
    with PoAccessPlace access_frame(4) [of p "tag_ptr (fst e) (snd e)" 1 kind sp] show ?thesis
      by (cases e; cases "mem_access p (tag_ptr (fst e) (snd e)) 1 kind sp") (simp add: access_place_def)
  qed
next
  case PoPrune
  then show ?thesis using prune_result [of p] by simp
next
  case (PoRegionFrozen rs)
  then show ?thesis using perms_only_fold [of p freeze_perm "owned_tags p rs"]
    by (simp add: region_frozen_def perms_only_def)
next
  case (PoHostFree ptr)
  then show ?thesis using host_free_region_dead [of p ptr] by simp
next
  case (PoRetagPlace k kind prot sp)
  then show ?thesis using place_region_dead
    by (simp add: retag_place_def split: prod.splits) (metis order_refl snd_conv)
next
  case (PoRetag a t kind prot sp)
  then show ?thesis by (simp add: place_region_dead)
qed (simp_all add: host_alloc_def new_alloc_def place_region_dead put_place_def bind_place_def
    rebind_place_def restore_place_def displaced_def mark_dirty_def drop_frame_def unprotect_def expose_def
    assume_noalias_def init_range_def store_bytes_def set_alloc_def set_tag_def Let_def
    split: option.splits prod.splits prov.splits)

lemma run_region_dead: "set (pv_region_dead p) \<subseteq> set (pv_region_dead (fold prov_act ops p))"
proof (induction ops arbitrary: p)
  case (Cons x ops)
  show ?case using act_region_dead [of p x] Cons [of "prov_act x p"] by simp
qed simp

text \<open>After a region was freed, every access that stays in the bounds of an allocation the region owns
  is undefined behaviour of row P4, through whatever tag or wildcard, after whatever operations.\<close>

theorem freed_region_is_p4:
  assumes "r \<in> set rs" and "p1 = region_freed p rs" and "p2 = fold prov_act ops p1"
    and "a < length (pv_allocs p2)" and "al_owner (pv_allocs p2 ! a) = Some r"
    and "rp_alloc q = Some a" and "in_bounds p2 a q n"
  shows "\<exists>f. mem_access p2 q n kind sp = (Some f, p2) \<and> uf_row f = P4"
proof -
  have "r \<in> set (pv_region_dead p1)" using region_freed_dead [of p rs] assms(1,2) by simp
  then have "r \<in> set (pv_region_dead p2)" using run_region_dead [of p1 ops] assms(3) by blast
  with assms(4-7) show ?thesis by (simp add: mem_access_def in_bounds_def owned_by_def Let_def)
qed

theorem freed_region_is_p4_witness:
  "\<exists>f. mem_access (fold prov_act [PoPrune] (region_freed demo_prov [0])) (tag_ptr 0 2) 1 Read sp0 =
     (Some f, fold prov_act [PoPrune] (region_freed demo_prov [0])) \<and> uf_row f = P4"
proof (rule freed_region_is_p4 [OF _ refl refl, of 0])
  let ?p = "fold prov_act [PoPrune] (region_freed demo_prov [0])"
  show "0 < length (pv_allocs ?p)" "al_owner (pv_allocs ?p ! 0) = Some 0" by code_simp+
  have "al_size (pv_allocs ?p ! 0) = 4" by code_simp
  then show "in_bounds ?p 0 (tag_ptr 0 2) 1" by (simp add: in_bounds_def tag_ptr_def)
qed (simp_all add: tag_ptr_def)

end
