(* ===== verification/ProvBytes.thy ===== *)
theory ProvBytes
  imports ProvInvariant
begin

text \<open>
  Addresses, bytes, keys and assertions of the provenance machine: what an address resolves to, what a
  store leaves for a load, which bindings the end of a frame drops, and which ranges an
  \<open>assume noalias\<close> rejects.
\<close>

section \<open>Addresses\<close>

lemma resolve_address_of:
  assumes "rp_alloc ptr = Some a" and "a < length (pv_allocs p)" and "0 \<le> rp_offset ptr"
    and "rp_offset ptr \<le> int (al_size (pv_allocs p ! a))"
  shows "resolve_address p (address_of ptr) = Some (a, rp_offset ptr) \<longleftrightarrow> rp_offset ptr < STRIDE"
proof (cases "rp_offset ptr < STRIDE")
  case True
  have m: "(x * 65536 + rp_offset ptr) div 65536 = x" "(x * 65536 + rp_offset ptr) mod 65536 = rp_offset ptr"
    for x :: int using True assms(3) by (simp_all only: STRIDE_def mod_mult_self3 div_mult_self3) simp_all
  note d = m [of "int a + 1"]
  with assms True show ?thesis by (simp add: resolve_address_def address_of_def STRIDE_def Let_def)
next
  case False
  have "addr mod STRIDE < STRIDE" for addr by (simp add: STRIDE_def)
  then have "resolve_address p addr = Some (b, off) \<Longrightarrow> off < STRIDE" for addr b off
    by (auto simp: resolve_address_def Let_def split: if_splits option.splits)
  with False show ?thesis by blast
qed

text \<open>An address comes back to the allocation and the offset it was made from, for every pointer into
  an allocation or one past its end, exactly if the offset is below the stride of 65536 bytes that
  separates consecutive allocations.\<close>

theorem address_roundtrip:
  assumes "rp_alloc ptr = Some a" and "a < length (pv_allocs p)" and "0 \<le> rp_offset ptr"
    and "rp_offset ptr \<le> int (al_size (pv_allocs p ! a))"
  shows "resolve_address p (address_of ptr) = Some (a, rp_offset ptr) \<longleftrightarrow> rp_offset ptr < STRIDE"
  by (rule resolve_address_of [OF assms])

definition span0 :: span where "span0 = \<lparr>span_start = 0, span_end = 1\<rparr>"

definition two_blocks :: provenance where
  "two_blocks = snd (host_alloc (snd (host_alloc prov_new 8 0 span0)) 4 0 span0)"

theorem address_roundtrip_witness:
  "resolve_address two_blocks (address_of ((tag_ptr 0 0)\<lparr>rp_offset := 5\<rparr>)) = Some (0, 5)"
proof -
  have "length (pv_allocs two_blocks) = 2" "al_size (pv_allocs two_blocks ! 0) = 8" by code_simp+
  with address_roundtrip [of "(tag_ptr 0 0)\<lparr>rp_offset := 5\<rparr>" 0 two_blocks] show ?thesis
    by (simp add: tag_ptr_def STRIDE_def)
qed

text \<open>C32: An allocation larger than the stride shares addresses with the next one. The pointer 65536 bytes
  into it is in bounds, has the address of the next allocation's first byte, and resolves to that byte.\<close>

theorem large_allocation_aliases_next:
  assumes "a + 1 < length (pv_allocs p)" and "STRIDE < int (al_size (pv_allocs p ! a))"
    and "ptr = (tag_ptr a t)\<lparr>rp_offset := STRIDE\<rparr>"
  shows "0 \<le> rp_offset ptr \<and> rp_offset ptr + 1 \<le> int (al_size (pv_allocs p ! a)) \<and>
     address_of ptr = address_of (tag_ptr (a + 1) u) \<and> resolve_address p (address_of ptr) = Some (a + 1, 0)"
proof -
  have "(int a + 1) * 65536 + 65536 = (int (a + 1) + 1) * 65536" by simp
  with assms show ?thesis by (simp add: tag_ptr_def address_of_def resolve_address_def STRIDE_def Let_def)
qed

theorem large_allocation_aliases_next_witness:
  "resolve_address (snd (host_alloc (snd (host_alloc prov_new 65537 0 span0)) 4 0 span0))
     (address_of ((tag_ptr 0 0)\<lparr>rp_offset := STRIDE\<rparr>)) = Some (1, 0)"
proof -
  let ?p = "snd (host_alloc (snd (host_alloc prov_new 65537 0 span0)) 4 0 span0)"
  have "0 + 1 < length (pv_allocs ?p)" "STRIDE < int (al_size (pv_allocs ?p ! 0))"
    by (simp_all add: host_alloc_def new_alloc_def prov_new_def Let_def set_alloc_def STRIDE_def
        nth_modify_at modify_at_def nth_append)
  from large_allocation_aliases_next [OF this refl] show ?thesis by simp
qed

section \<open>Bytes\<close>

text \<open>The bytes of a value, little-endian, add up to the value modulo the width.\<close>

lemma bytes_sum:
  fixes v :: int
  shows "(\<Sum>i \<leftarrow> [0..<len]. v div 256 ^ i mod 256 * 256 ^ i) = v mod 256 ^ len"
proof (induction len)
  case (Suc len)
  have "v mod 256 ^ Suc len = 256 ^ len * (v div 256 ^ len mod 256) + v mod 256 ^ len"
    by (simp add: mult.commute [of 256 "256 ^ len :: int"] zmod_zmult2_eq)
  with Suc show ?case by simp
qed simp

lemma write_bytes_nth:
  assumes "lo + len \<le> length bs"
  shows "write_bytes lo len v bs ! k =
     (if lo \<le> k \<and> k < lo + len then word_of_int (v div 256 ^ (k - lo)) else bs ! k)"
  using assms
proof (induction len arbitrary: k)
  case 0
  then show ?case by (auto simp: write_bytes_def)
next
  case (Suc len)
  have "write_bytes lo (Suc len) v bs = (write_bytes lo len v bs)[lo + len := word_of_int (v div 256 ^ len)]"
    by (simp add: write_bytes_def)
  with Suc show ?case by (auto simp: nth_list_update)
qed

text \<open>The value of \<open>len\<close> bytes, read back.\<close>

definition bytes_value :: "bool \<Rightarrow> nat \<Rightarrow> int \<Rightarrow> int" where
  "bytes_value sg len v =
     (let m = v mod 256 ^ len in if sg \<and> 256 ^ len \<le> 2 * m then m - 256 ^ len else m)"

lemma load_sum:
  assumes "rp_alloc ptr = Some a" and "a < length (pv_allocs p)" and "0 \<le> rp_offset ptr"
    and "0 < len" "len < 16"
    and b: "\<And>i. i < len \<Longrightarrow> nat (rp_offset ptr) + i < length (al_bytes (pv_allocs p ! a)) \<and>
       uint (al_bytes (pv_allocs p ! a) ! (nat (rp_offset ptr) + i)) = v div 256 ^ i mod 256"
  shows "load p ptr len = bytes_value (rp_signed ptr) len v"
proof -
  let ?e = "pv_allocs p ! a" and ?lo = "nat (rp_offset ptr)" and ?m = "v mod 256 ^ len"
  have "(\<Sum>i \<leftarrow> [0..<len]. (case get_at (al_bytes ?e) (?lo + i) of None \<Rightarrow> 0 | Some b \<Rightarrow> uint b) * 256 ^ i)
      = (\<Sum>i \<leftarrow> [0..<len]. v div 256 ^ i mod 256 * 256 ^ i)"
    by (rule arg_cong [where f = sum_list], rule map_cong) (use b in auto)
  also have "\<dots> = ?m" by (rule bytes_sum)
  finally have s: "(\<Sum>i \<leftarrow> [0..<len]. (case get_at (al_bytes ?e) (?lo + i) of None \<Rightarrow> 0 | Some b \<Rightarrow> uint b) * 256 ^ i) = ?m" .
  have p256: "(256 :: int) ^ len = 2 ^ (8 * len)" by (simp add: power_mult)
  have "(2 :: int) ^ (8 * len) \<le> 2 ^ 127" using assms(5) by (intro power_increasing) auto
  moreover have "0 \<le> ?m" "?m < 256 ^ len" by simp_all
  ultimately have m: "in_i128 ?m" unfolding in_i128_def p256 by (intro conjI) linarith+
  have half: "(256 :: int) ^ len = 2 * 2 ^ (8 * len - 1)"
    using assms(4) unfolding p256 by (simp flip: power_Suc)
  let ?h = "(2 :: int) ^ (8 * len - 1)"
  have odd: "odd (?m div ?h) \<longleftrightarrow> 256 ^ len \<le> 2 * ?m"
  proof (cases "?h \<le> ?m")
    case True
    have "?m div ?h = (?m - ?h) div ?h + 1" using True by (simp add: div_pos_geq)
    moreover have "(?m - ?h) div ?h = 0" using True \<open>?m < 256 ^ len\<close> half by (intro div_pos_pos_trivial) auto
    ultimately show ?thesis using True half by simp
  next
    case False
    then have "?m div ?h = 0" using \<open>0 \<le> ?m\<close> by (intro div_pos_pos_trivial) auto
    with False half show ?thesis by simp
  qed
  have "8 * len < 128" using assms(5) by simp
  with assms(1-3) s m odd show ?thesis
    by (simp add: load_def Let_def wrap_i128_id bytes_value_def p256)
qed

lemma store_load:
  assumes "rp_alloc ptr = Some a" and "a < length (pv_allocs p)" and "0 \<le> rp_offset ptr"
    and "0 < len" and "len < 16" and sz: "nat (rp_offset ptr) + len \<le> length (al_bytes (pv_allocs p ! a))"
  shows "load (store_bytes p ptr len v) ptr len = bytes_value (rp_signed ptr) len v"
proof (rule load_sum [OF assms(1)])
  let ?q = "store_bytes p ptr len v"
  have bs: "al_bytes (pv_allocs ?q ! a) = write_bytes (nat (rp_offset ptr)) len v (al_bytes (pv_allocs p ! a))"
    and len: "length (pv_allocs ?q) = length (pv_allocs p)"
    using assms(1-3) by (simp_all add: store_bytes_def Let_def nth_modify_at)
  show "a < length (pv_allocs ?q)" using assms(2) len by simp
  fix i assume i: "i < len"
  have "uint (word_of_int (v div 256 ^ i) :: 8 word) = v div 256 ^ i mod 256"
    by (simp add: uint_word_of_int)
  with i sz show "nat (rp_offset ptr) + i < length (al_bytes (pv_allocs ?q ! a)) \<and>
      uint (al_bytes (pv_allocs ?q ! a) ! (nat (rp_offset ptr) + i)) = v div 256 ^ i mod 256"
    by (simp add: bs write_bytes_nth)
qed (use assms in simp_all)

text \<open>A load reads back what was stored: the value modulo the width of the access, sign-extended if the
  pointer is signed, for every width the machine has (below sixteen bytes).\<close>

theorem store_load_roundtrip:
  assumes "rp_alloc ptr = Some a" and "a < length (pv_allocs p)" and "0 \<le> rp_offset ptr"
    and "0 < len" and "len < 16" and "nat (rp_offset ptr) + len \<le> length (al_bytes (pv_allocs p ! a))"
  shows "load (store_bytes p ptr len v) ptr len = bytes_value (rp_signed ptr) len v"
  by (rule store_load [OF assms])

theorem store_load_roundtrip_witness:
  "load (store_bytes two_blocks ((tag_ptr 0 0)\<lparr>rp_offset := 3, rp_signed := True\<rparr>) 4 (-2))
     ((tag_ptr 0 0)\<lparr>rp_offset := 3, rp_signed := True\<rparr>) 4 = -2"
proof -
  have "length (pv_allocs two_blocks) = 2" "length (al_bytes (pv_allocs two_blocks ! 0)) = 8" by code_simp+
  with store_load_roundtrip [of "(tag_ptr 0 0)\<lparr>rp_offset := 3, rp_signed := True\<rparr>" 0 two_blocks 4 "-2"]
  show ?thesis by (simp add: tag_ptr_def bytes_value_def Let_def)
qed

section \<open>Assertions of disjointness\<close>

definition share_byte :: "raw_ptr \<Rightarrow> raw_ptr \<Rightarrow> bool" where
  "share_byte q r \<longleftrightarrow> rp_alloc q \<noteq> None \<and> rp_alloc q = rp_alloc r \<and>
     (\<exists>b. rp_offset q \<le> b \<and> b < rp_offset q + int (rp_elem q) \<and>
          rp_offset r \<le> b \<and> b < rp_offset r + int (rp_elem r))"

lemma overlaps_share:
  assumes "0 < rp_elem q" and "0 < rp_elem r"
  shows "overlaps (ptr_range q) (ptr_range r) \<longleftrightarrow> share_byte q r"
proof -
  have "(\<exists>b. rp_offset q \<le> b \<and> b < rp_offset q + int (rp_elem q) \<and>
          rp_offset r \<le> b \<and> b < rp_offset r + int (rp_elem r)) \<longleftrightarrow>
      rp_offset q < rp_offset r + int (rp_elem r) \<and> rp_offset r < rp_offset q + int (rp_elem q)"
    (is "?l \<longleftrightarrow> ?r")
  proof
    assume ?r
    with assms show ?l by (intro exI [of _ "max (rp_offset q) (rp_offset r)"]) auto
  qed auto
  then show ?thesis by (simp add: ptr_range_def share_byte_def)
qed

fun pairwise_disjoint :: "raw_ptr list \<Rightarrow> bool" where
  "pairwise_disjoint [] = True"
| "pairwise_disjoint (q # qs) = ((\<forall>r \<in> set qs. \<not> share_byte q r) \<and> pairwise_disjoint qs)"

lemma pairwise_disjoint_nth:
  "pairwise_disjoint qs \<longleftrightarrow> (\<forall>i j. i < j \<longrightarrow> j < length qs \<longrightarrow> \<not> share_byte (qs ! i) (qs ! j))"
proof (induction qs)
  case (Cons q qs)
  have "(\<forall>i j. i < j \<longrightarrow> j < length (q # qs) \<longrightarrow> \<not> share_byte ((q # qs) ! i) ((q # qs) ! j)) \<longleftrightarrow>
      (\<forall>j < length qs. \<not> share_byte q (qs ! j)) \<and>
      (\<forall>i j. i < j \<longrightarrow> j < length qs \<longrightarrow> \<not> share_byte (qs ! i) (qs ! j))" (is "?l \<longleftrightarrow> ?r1 \<and> ?r2")
  proof (intro iffI conjI)
    assume l: ?l
    show ?r1 using l [rule_format, of 0 "Suc j" for j] by auto
    show ?r2 using l [rule_format, of "Suc i" "Suc j" for i j] by auto
  next
    assume r: "?r1 \<and> ?r2"
    show ?l
    proof (intro allI impI)
      fix i j assume "i < j" "j < length (q # qs)"
      with r show "\<not> share_byte ((q # qs) ! i) ((q # qs) ! j)" by (cases i; cases j) auto
    qed
  qed
  with Cons show ?case by (auto simp: all_set_conv_all_nth)
qed simp

lemma first_overlap_none:
  "\<forall>q \<in> set qs. 0 < rp_elem q \<Longrightarrow> first_overlap (map ptr_range qs) = None \<longleftrightarrow> pairwise_disjoint qs"
  by (induction qs) (auto simp: overlaps_share)

text \<open>\<open>assume noalias\<close> is undefined behaviour exactly if the assertion is false: it returns a finding,
  always of row P5 and without changing the machine, if and only if two of the pointers share a byte of
  an allocation. Otherwise it records the asserted ranges and changes nothing else.\<close>

theorem assume_noalias_exact:
  assumes "\<forall>q \<in> set qs. 0 < rp_elem q" and "assume_noalias p qs sp = (res, p')"
  shows "(res = None \<longleftrightarrow> (\<forall>i j. i < j \<longrightarrow> j < length qs \<longrightarrow> \<not> share_byte (qs ! i) (qs ! j))) \<and>
     (case res of
        Some f \<Rightarrow> uf_row f = P5 \<and> p' = p
      | None \<Rightarrow> p' = p\<lparr>pv_assumptions := pv_assumptions p @ [\<lparr>as_ranges = map ptr_range qs, as_span = sp\<rparr>]\<rparr>)"
  unfolding pairwise_disjoint_nth [symmetric] first_overlap_none [OF assms(1), symmetric]
  using assms(2) by (auto simp: assume_noalias_def Let_def split: option.splits)

theorem assume_noalias_exact_witness:
  "fst (assume_noalias two_blocks [tag_ptr 0 0, (tag_ptr 0 0)\<lparr>rp_offset := 1\<rparr>] span0) = None"
proof -
  let ?qs = "[tag_ptr 0 0, (tag_ptr 0 0)\<lparr>rp_offset := 1\<rparr>]"
  have e: "\<forall>q \<in> set ?qs. 0 < rp_elem q" by (simp add: tag_ptr_def)
  have "pairwise_disjoint ?qs" by (simp add: share_byte_def tag_ptr_def)
  then show ?thesis unfolding pairwise_disjoint_nth
    using assume_noalias_exact [OF e prod.collapse [symmetric], of two_blocks span0] by blast
qed

section \<open>The end of a frame\<close>

lemma show_nat_digits: "c \<in> set (show_nat n) \<Longrightarrow> 48 \<le> (of_char c :: nat) \<and> (of_char c :: nat) \<le> 57"
proof (induction n rule: show_nat.induct)
  case (1 n)
  have "of_char (char_of (48 + k) :: char) = 48 + k" if "k < 10" for k :: nat using that by simp
  with 1 show ?case by (auto simp: show_nat.simps [of n] split: if_splits)
qed

lemma digits_value_append:
  "digits_value acc (xs @ ys) = Option.bind (digits_value acc xs) (\<lambda>acc'. digits_value acc' ys)"
  by (induction xs arbitrary: acc) (auto simp: Let_def)

lemma digits_value_show: "n \<le> u64_max \<Longrightarrow> digits_value 0 (show_nat n) = Some n"
proof (induction n rule: show_nat.induct)
  case (1 n)
  have d: "of_char (char_of (48 + k) :: char) = 48 + k" if "k < 10" for k :: nat using that by simp
  have m: "n mod 10 < 10" by simp
  show ?case
  proof (cases "n < 10")
    case True
    with 1(2) d show ?thesis by (simp add: show_nat.simps [of n] Let_def)
  next
    case False
    with 1 have "digits_value 0 (show_nat (n div 10)) = Some (n div 10)" by simp
    with False 1(2) d [OF m] show ?thesis
      by (simp add: show_nat.simps [of n] digits_value_append Let_def)
  qed
qed

lemma show_nat_nonempty: "show_nat n \<noteq> []"
  by (simp add: show_nat.simps [of n])

lemma parse_show: "n \<le> u64_max \<Longrightarrow> parse_usize (show_nat n) = Some n"
proof -
  assume n: "n \<le> u64_max"
  obtain c cs where s: "show_nat n = c # cs" using show_nat_nonempty by (cases "show_nat n") auto
  have "c \<noteq> CHR ''+''" using show_nat_digits [of c n] s by auto
  then show ?thesis using digits_value_show [OF n] unfolding parse_usize_def s by (simp del: digits_value.simps)
qed

lemma show_nat_inj: "show_nat m = show_nat n \<Longrightarrow> m \<le> u64_max \<Longrightarrow> n \<le> u64_max \<Longrightarrow> m = n"
  by (metis option.inject parse_show)

lemma before_colon_append: "CHR '':'' \<notin> set xs \<Longrightarrow> before_colon (xs @ CHR '':'' # ys) = Some xs"
  by (induction xs) auto

lemma show_nat_colon: "CHR '':'' \<notin> set (show_nat n)"
  using show_nat_digits [of "CHR '':''" n] by auto

lemma strip_prefix_append [simp]: "strip_prefix xs (xs @ ys) = Some ys"
  by (induction xs) auto

lemma strip_prefix_Some: "strip_prefix xs ys = Some zs \<Longrightarrow> ys = xs @ zs"
  by (induction xs ys rule: strip_prefix.induct) (auto split: if_splits)

lemma split_at_colon:
  "CHR '':'' \<notin> set xs \<Longrightarrow> CHR '':'' \<notin> set ys \<Longrightarrow> xs @ CHR '':'' # us = ys @ CHR '':'' # vs \<Longrightarrow> xs = ys"
  by (induction xs arbitrary: ys) (case_tac ys; auto)+

definition key_of :: "nat \<Rightarrow> nat \<Rightarrow> string \<Rightarrow> string" where
  "key_of task fr path = ''t'' @ show_nat task @ '':'' @ show_nat fr @ '':'' @ path"

lemma frame_of_key_of:
  assumes "task \<le> u64_max" and "task' \<le> u64_max" and "fr \<le> u64_max"
  shows "frame_of_key task (key_of task' fr path) = (if task = task' then Some fr else None)"
proof (cases "task = task'")
  case True
  have "strip_prefix (''t'' @ show_nat task @ '':'') (key_of task fr path) = Some (show_nat fr @ '':'' @ path)"
    using strip_prefix_append [of "''t'' @ show_nat task @ '':''" "show_nat fr @ '':'' @ path"]
    by (simp add: key_of_def)
  with True parse_show [OF assms(3)] before_colon_append [OF show_nat_colon, of fr path]
  show ?thesis by (simp add: frame_of_key_def)
next
  case False
  have "strip_prefix (''t'' @ show_nat task @ '':'') (key_of task' fr path) = None"
  proof (rule ccontr)
    assume "strip_prefix (''t'' @ show_nat task @ '':'') (key_of task' fr path) \<noteq> None"
    then obtain zs where "key_of task' fr path = (''t'' @ show_nat task @ '':'') @ zs"
      by (auto dest: strip_prefix_Some)
    then have "show_nat task' @ CHR '':'' # show_nat fr @ CHR '':'' # path = show_nat task @ CHR '':'' # zs"
      by (simp add: key_of_def)
    with show_nat_colon have "show_nat task' = show_nat task" by (blast intro: split_at_colon)
    with show_nat_inj assms False show False by metis
  qed
  with False show ?thesis by (simp add: frame_of_key_def)
qed

lemma retain_places_filter: "fst (retain_places keep es d) = filter (\<lambda>(k, a, t). keep k) es"
  by (induction keep es d rule: retain_places.induct) (auto split: prod.splits)

lemma map_of_filter_key: "map_of (filter (\<lambda>(k, a, t). keep k) es) k = (if keep k then map_of es k else None)"
  by (induction es) auto

text \<open>The end of a frame forgets exactly its own bindings: after \<open>drop_frame(task, fr)\<close> the binding of a
  place of the same task is gone if its frame is \<open>fr\<close> or deeper, and every other binding, of the outer
  frames and of every other task, is what it was.\<close>

theorem drop_frame_exact:
  assumes "task \<le> u64_max" and "task' \<le> u64_max" and "fr' \<le> u64_max"
  shows "place (drop_frame p task fr) (key_of task' fr' path) =
     (if task' = task \<and> fr \<le> fr' then None else place p (key_of task' fr' path))"
proof -
  let ?keep = "\<lambda>k. case frame_of_key task k of None \<Rightarrow> True | Some f \<Rightarrow> f < fr"
  have "pv_places (drop_frame p task fr) = filter (\<lambda>(k, a, t). ?keep k) (pv_places p)"
    unfolding drop_frame_def retain_places_filter [of ?keep "pv_places p" "pv_dirty p", symmetric]
    by (cases "retain_places ?keep (pv_places p) (pv_dirty p)") simp
  then show ?thesis using frame_of_key_of [OF assms] by (auto simp: place_def map_of_filter_key)
qed

theorem drop_frame_exact_witness:
  "place (drop_frame (bind_place two_blocks (key_of 12 1 ''x'') 0 0) 1 0) (key_of 12 1 ''x'') = Some (0, 0)"
  using drop_frame_exact [of 1 12 1 "bind_place two_blocks (key_of 12 1 ''x'') 0 0" 0 "''x''"]
  by (simp add: bind_place_def displaced_def put_place_def mark_dirty_def place_def update_conv
      split: option.splits)

end
