(* ===== verification/ProvPrune.thy ===== *)
theory ProvPrune
  imports ProvProps ProvBytes
begin

text \<open>
  What pruning can and cannot change. A run and the same run with every \<open>prune\<close> erased are related by a
  simulation: the pruned machine lacks some unprotected tags, and agrees on everything else. As long as
  nobody uses a tag that was pruned the two runs give the same verdicts; a raw pointer that still holds
  a pruned tag tells them apart.
\<close>

section \<open>The simulation\<close>

definition drop_tags :: "tag_id set \<Rightarrow> alloc \<Rightarrow> alloc" where
  "drop_tags D e = e\<lparr>al_tags := filter (\<lambda>t. t \<notin> D) (al_tags e)\<rparr>"

lemma drop_tags_sel [simp]:
  "al_id (drop_tags D e) = al_id e" "al_size (drop_tags D e) = al_size e" "al_bytes (drop_tags D e) = al_bytes e"
  "al_init (drop_tags D e) = al_init e" "al_live (drop_tags D e) = al_live e"
  "al_origin (drop_tags D e) = al_origin e" "al_owner (drop_tags D e) = al_owner e"
  "al_root (drop_tags D e) = al_root e" "al_exposed (drop_tags D e) = al_exposed e"
  "al_span (drop_tags D e) = al_span e" "al_tags (drop_tags D e) = filter (\<lambda>t. t \<notin> D) (al_tags e)"
  by (simp_all add: drop_tags_def)

text \<open>Two tags that differ at most in the permissions.\<close>

definition tag_upto :: "bool \<Rightarrow> tag \<Rightarrow> tag \<Rightarrow> bool" where
  "tag_upto any e e' \<longleftrightarrow> e'\<lparr>tg_perms := []\<rparr> = e\<lparr>tg_perms := []\<rparr> \<and> (any \<or> e' = e)"

definition sim :: "tag_id set \<Rightarrow> provenance \<Rightarrow> provenance \<Rightarrow> bool" where
  "sim D p q \<longleftrightarrow>
     length (pv_tags q) = length (pv_tags p) \<and>
     (\<forall>t < length (pv_tags p). tag_upto (t \<in> D) (pv_tags p ! t) (pv_tags q ! t)) \<and>
     pv_allocs q = map (drop_tags D) (pv_allocs p) \<and> pv_places q = pv_places p \<and>
     pv_region_dead q = pv_region_dead p \<and> pv_assumptions q = pv_assumptions p \<and>
     (\<forall>t \<in> D. t < length (pv_tags p) \<and> \<not> tg_protected (pv_tags p ! t))"

lemma simD:
  assumes "sim D p q"
  shows "length (pv_tags q) = length (pv_tags p)" and "pv_allocs q = map (drop_tags D) (pv_allocs p)"
    and "pv_places q = pv_places p" and "pv_region_dead q = pv_region_dead p"
    and "pv_assumptions q = pv_assumptions p"
    and "t < length (pv_tags p) \<Longrightarrow> tag_upto (t \<in> D) (pv_tags p ! t) (pv_tags q ! t)"
    and "t \<in> D \<Longrightarrow> t < length (pv_tags p)" and "t \<in> D \<Longrightarrow> \<not> tg_protected (pv_tags p ! t)"
    and "t < length (pv_tags p) \<Longrightarrow> tg_parent (pv_tags q ! t) = tg_parent (pv_tags p ! t)"
    and "t < length (pv_tags p) \<Longrightarrow> tg_span (pv_tags q ! t) = tg_span (pv_tags p ! t)"
    and "t < length (pv_tags p) \<Longrightarrow> tg_alloc (pv_tags q ! t) = tg_alloc (pv_tags p ! t)"
    and "t < length (pv_tags p) \<Longrightarrow> tg_protected (pv_tags q ! t) = tg_protected (pv_tags p ! t)"
    and "t < length (pv_tags p) \<Longrightarrow> t \<notin> D \<Longrightarrow> pv_tags q ! t = pv_tags p ! t"
proof -
  show "length (pv_tags q) = length (pv_tags p)" "pv_allocs q = map (drop_tags D) (pv_allocs p)"
    "pv_places q = pv_places p" "pv_region_dead q = pv_region_dead p" "pv_assumptions q = pv_assumptions p"
    "t \<in> D \<Longrightarrow> t < length (pv_tags p)" "t \<in> D \<Longrightarrow> \<not> tg_protected (pv_tags p ! t)"
    using assms by (simp_all add: sim_def)
  assume "t < length (pv_tags p)"
  with assms show u: "tag_upto (t \<in> D) (pv_tags p ! t) (pv_tags q ! t)" by (simp add: sim_def)
  then have e: "(pv_tags q ! t)\<lparr>tg_perms := []\<rparr> = (pv_tags p ! t)\<lparr>tg_perms := []\<rparr>" by (simp add: tag_upto_def)
  show "tg_parent (pv_tags q ! t) = tg_parent (pv_tags p ! t)" "tg_span (pv_tags q ! t) = tg_span (pv_tags p ! t)"
    "tg_alloc (pv_tags q ! t) = tg_alloc (pv_tags p ! t)"
    "tg_protected (pv_tags q ! t) = tg_protected (pv_tags p ! t)"
    using arg_cong [OF e, of tg_parent] arg_cong [OF e, of tg_span] arg_cong [OF e, of tg_alloc]
      arg_cong [OF e, of tg_protected] by simp_all
  show "pv_tags q ! t = pv_tags p ! t" if "t \<notin> D" using u that by (simp add: tag_upto_def)
qed

lemma sim_refl: "sim {} p p"
proof -
  have "drop_tags {} = id" by (rule ext) (simp add: drop_tags_def)
  then show ?thesis by (simp add: sim_def tag_upto_def)
qed

lemma sim_get_at:
  assumes "sim D p q"
  shows "get_at (pv_allocs q) i = map_option (drop_tags D) (get_at (pv_allocs p) i)"
    and "map_option al_span (get_at (pv_allocs q) i) = map_option al_span (get_at (pv_allocs p) i)"
    and "map_option tg_span (get_at (pv_tags q) i) = map_option tg_span (get_at (pv_tags p) i)"
    and "map_option tg_protected (get_at (pv_tags q) i) = map_option tg_protected (get_at (pv_tags p) i)"
  using simD [OF assms] by (cases "i < length (pv_allocs p)"; cases "i < length (pv_tags p)"; simp)+

section \<open>Steps that keep it\<close>

lemma sim_set_alloc:
  assumes "sim D p q" and "\<And>e. f (drop_tags D e) = drop_tags D (f e)"
  shows "sim D (set_alloc a f p) (set_alloc a f q)"
proof -
  have "modify_at a f (map (drop_tags D) xs) = map (drop_tags D) (modify_at a f xs)" for xs
    by (rule nth_equalityI) (simp_all add: nth_modify_at assms(2))
  with simD(2) [OF assms(1)] show ?thesis using assms(1) by (simp add: sim_def)
qed

lemma tag_upto_perms [simp]:
  "tag_upto any e e' \<Longrightarrow> tag_upto any (e\<lparr>tg_perms := g (tg_perms e)\<rparr>) (e'\<lparr>tg_perms := g (tg_perms e')\<rparr>)"
  "tag_upto True e e' \<Longrightarrow> tag_upto True (e\<lparr>tg_perms := ps\<rparr>) e'"
  by (auto simp: tag_upto_def)

lemma sim_set_tag:
  assumes "sim D p q" and "\<And>e. f e = e\<lparr>tg_perms := g (tg_perms e)\<rparr>"
  shows "sim D (set_tag t f p) (set_tag t f q)"
  using assms by (auto simp: sim_def nth_modify_at)

lemma sim_set_dropped:
  assumes "sim D p q" and "t \<in> D" and "\<And>e. f e = e\<lparr>tg_perms := g (tg_perms e)\<rparr>"
  shows "sim D (set_tag t f p) q"
  using assms by (auto simp: sim_def nth_modify_at)

lemma sim_map_perms:
  "sim D p q \<Longrightarrow> sim D (map_perms f ts p) (map_perms f (filter (\<lambda>t. t \<notin> D) ts) q)"
proof (induction ts arbitrary: p q)
  case Nil
  then show ?case by (simp add: map_perms_def)
next
  case (Cons t ts)
  let ?f = "\<lambda>e :: tag. e\<lparr>tg_perms := map f (tg_perms e)\<rparr>"
  have c: "map_perms f (u # us) r = map_perms f us (set_tag u ?f r)" for u us r by (simp add: map_perms_def)
  show ?case
  proof (cases "t \<in> D")
    case True
    from Cons.IH [OF sim_set_dropped [OF Cons.prems True, of ?f "map f"]] True show ?thesis by (simp add: c)
  next
    case False
    from Cons.IH [OF sim_set_tag [OF Cons.prems, of ?f "map f" t]] False show ?thesis by (simp add: c)
  qed
qed

lemma sim_owned:
  "sim D p q \<Longrightarrow> owned_tags q rs = map (filter (\<lambda>t. t \<notin> D)) (owned_tags p rs)"
proof -
  assume "sim D p q"
  note s = simD(2) [OF this]
  have "filter (owned_by rs) (map (drop_tags D) xs) = map (drop_tags D) (filter (owned_by rs) xs)" for xs
    by (induction xs) (simp_all add: owned_by_def)
  then show ?thesis by (simp add: owned_tags_def s)
qed

lemma sim_fold_map_perms:
  "sim D p q \<Longrightarrow> sim D (fold (map_perms f) tss p) (fold (map_perms f) (map (filter (\<lambda>t. t \<notin> D)) tss) q)"
  by (induction tss arbitrary: p q) (simp_all add: sim_map_perms)

lemma sim_commit:
  "sim D p q \<Longrightarrow> sim D (commit pl p) (commit (filter (\<lambda>(t, off, r). t \<notin> D) pl) q)"
proof (induction pl arbitrary: p q)
  case Nil
  then show ?case by (simp add: commit_def)
next
  case (Cons x pl)
  obtain t off r where x: "x = (t, off, r)" by (cases x)
  let ?f = "\<lambda>e :: tag. e\<lparr>tg_perms := (tg_perms e)[off := r]\<rparr>"
  show ?case
  proof (cases "t \<in> D")
    case True
    from Cons.IH [OF sim_set_dropped [OF Cons.prems True, of ?f "\<lambda>ps. ps[off := r]"]] True
    show ?thesis by (simp add: x commit_Cons)
  next
    case False
    from Cons.IH [OF sim_set_tag [OF Cons.prems, of ?f "\<lambda>ps. ps[off := r]" t]] False
    show ?thesis by (simp add: x commit_Cons)
  qed
qed

text \<open>The queue of allocations to prune is not observed.\<close>

lemma sim_dirty [simp]: "sim D (p\<lparr>pv_dirty := d\<rparr>) q = sim D p q" "sim D p (q\<lparr>pv_dirty := d\<rparr>) = sim D p q"
  by (simp_all add: sim_def)

lemma sim_mark_dirty [simp]: "sim D (mark_dirty p a) q = sim D p q" "sim D p (mark_dirty q b) = sim D p q"
  by (simp_all add: mark_dirty_def)

lemma sim_displaced [simp]: "sim D (displaced w p) q = sim D p q" "sim D p (displaced w' q) = sim D p q"
  by (simp_all add: displaced_def split: option.splits)

lemma sim_put_place: "sim D p q \<Longrightarrow> sim D (put_place k e p) (put_place k e q)"
  by (simp add: sim_def put_place_def)

lemma sim_append_tag:
  assumes "sim D p q"
  shows "sim D (p\<lparr>pv_tags := pv_tags p @ [e]\<rparr>) (q\<lparr>pv_tags := pv_tags q @ [e]\<rparr>)"
  using assms by (auto simp: sim_def nth_append tag_upto_def less_Suc_eq)

section \<open>Accesses\<close>

lemma collect_filter_eq:
  assumes "\<And>x. x \<in> set xs \<Longrightarrow> \<not> P x \<Longrightarrow> \<exists>y. f x = Inr y"
    and "\<And>x y. f x = Inr (Some y) \<Longrightarrow> Q y = P x"
    and "\<And>x. x \<in> set xs \<Longrightarrow> P x \<Longrightarrow> g x = f x"
  shows "collect g (filter P xs) = (case collect f xs of Inl e \<Rightarrow> Inl e | Inr ys \<Rightarrow> Inr (filter Q ys))"
  using assms(1,3)
proof (induction xs)
  case Nil
  then show ?case by simp
next
  case (Cons x xs)
  have ih: "collect g (filter P xs) = (case collect f xs of Inl e \<Rightarrow> Inl e | Inr ys \<Rightarrow> Inr (filter Q ys))"
    by (rule Cons.IH) (use Cons.prems in auto)
  have q: "case f x of Inl e \<Rightarrow> True | Inr y \<Rightarrow> (case y of None \<Rightarrow> True | Some b \<Rightarrow> Q b = P x)"
    using assms(2) [of x] by (simp split: sum.splits option.splits)
  show ?case
  proof (cases "P x")
    case True
    then have "g x = f x" using Cons.prems(2) by simp
    with True ih q show ?thesis by (cases "f x"; cases "collect f xs") (auto split: option.splits)
  next
    case False
    with Cons.prems(1) obtain y where "f x = Inr y" by auto
    with False ih q show ?thesis by (cases "collect f xs") (auto split: option.splits)
  qed
qed

lemma child_walk_parents:
  assumes "\<And>u. u < length ts \<Longrightarrow> tg_parent (ts' ! u) = tg_parent (ts ! u)" and "older_parents ts"
  shows "t < length ts \<Longrightarrow> child_walk ts' node fuel (Some t) = child_walk ts node fuel (Some t)"
proof (induction fuel arbitrary: t)
  case (Suc fuel)
  show ?case
  proof (cases "tg_parent (ts ! t)")
    case None
    with assms(1) [OF Suc.prems] show ?thesis by simp
  next
    case (Some r)
    with assms(2) Suc.prems have "r < length ts" by (fastforce simp: older_parents_def)
    with Suc.IH Some assms(1) [OF Suc.prems] show ?thesis by simp
  qed
qed simp

lemma tree_closed:
  assumes "prov_wf q" and "a < length (pv_allocs q)"
  shows "through q t u \<Longrightarrow> t \<in> set (tags_of q a) \<Longrightarrow> u \<in> set (tags_of q a)"
proof (induction rule: rtrancl_induct)
  case (step v w)
  then have "v \<in> set (tags_of q a)" "tg_parent (pv_tags q ! v) = Some w" by (simp_all add: tag_parent_def)
  moreover have "parent_ok (al_root (pv_allocs q ! a)) (set (tags_of q a)) v (tg_parent (pv_tags q ! v))"
    if "v \<in> set (tags_of q a)" for v
    using prov_wfD(2) [OF assms] that by (auto simp: alloc_wf_def Let_def tags_of_def)
  ultimately show ?case by fastforce
qed simp

lemma sim_child:
  assumes "sim D p q" and "prov_wf q" and "t < length (pv_tags p)"
  shows "is_child_access p u t = is_child_access q u t"
  unfolding is_child_access_def simD(1) [OF assms(1)]
  by (rule child_walk_parents) (use simD [OF assms(1)] prov_wfD(5) [OF assms(2)] assms(3) in auto)

lemma sim_kept:
  "sim D p q \<Longrightarrow> prov_wf q \<Longrightarrow> a < length (pv_allocs q) \<Longrightarrow> t \<in> set (tags_of q a) \<Longrightarrow>
     t \<notin> D \<and> t < length (pv_tags p)"
  using wf_tags_of [of q a t] simD(1,2) [of D p q] by (auto simp: tags_of_def)

lemma sim_plan:
  assumes s: "sim D p q" and wf: "prov_wf q" and a: "a < length (pv_allocs q)" and t: "t \<in> set (tags_of q a)"
  shows "plan q a t lo hi kind sp =
     (case plan p a t lo hi kind sp of Inl f \<Rightarrow> Inl f | Inr pl \<Rightarrow> Inr (filter (\<lambda>(t, off, r). t \<notin> D) pl))"
proof -
  have a': "a < length (pv_allocs p)" and q: "al_tags (pv_allocs q ! a) = filter (\<lambda>t. t \<notin> D) (al_tags (pv_allocs p ! a))"
    using a simD(2) [OF s] by simp_all
  note k = sim_kept [OF s wf a t] and child = sim_child [OF s wf]
  have foreign: "\<not> is_child_access p u t" if "u \<in> D" for u
  proof
    assume "is_child_access p u t"
    then have "through q t u" using k child simD(1) [OF s] through_child [OF wf, of t u] by simp
    from tree_closed [OF wf a this t] sim_kept [OF s wf a] that show False by blast
  qed
  have drop: "\<exists>y. plan_cell p t kind sp (u, off) = Inr y" if "u \<in> D" for u off
    unfolding plan_cell_ok using foreign [OF that] simD(8) [OF s that] by (simp add: allowed_def)
  have keep: "plan_cell q t kind sp (u, off) = plan_cell p t kind sp (u, off)"
    if "u \<notin> D" "u < length (pv_tags p)" for u off
    using child k simD(13) [OF s that(2,1)] sim_get_at(3) [OF s, of u]
    by (simp add: plan_cell_def Let_def cong: sum.case_cong)
  have ul: "u < length (pv_tags p)" if "u \<in> set (al_tags (pv_allocs p ! a))" for u
    using that simD(7) [OF s] wf_tags_of [OF wf a] q simD(1) [OF s] by (cases "u \<in> D") (auto simp: tags_of_def)
  have "cells (al_tags (pv_allocs q ! a)) lo hi = filter (\<lambda>(t, off). t \<notin> D) (cells (al_tags (pv_allocs p ! a)) lo hi)"
    by (simp add: q filter_cells)
  then show ?thesis unfolding plan_def
    by (simp only:) (rule collect_filter_eq,
      use drop keep ul in \<open>auto simp: set_cells plan_cell_def Let_def split: sum.splits\<close>)
qed

lemma sim_plan_kept:
  assumes "sim D p q" and "prov_wf q" and "a < length (pv_allocs q)" and "t \<in> set (tags_of q a)"
    and "plan p a t lo hi kind sp = r"
  shows "plan q a t lo hi kind sp = map_sum id (filter (\<lambda>(t, off, r). t \<notin> D)) r"
  using sim_plan [OF assms(1-4), of lo hi kind sp] assms(5) by (cases r) simp_all

lemma sim_angelic:
  assumes "\<And>c. c \<in> set cs \<Longrightarrow> g c = map_sum id F (f c)"
  shows "angelic g cs first = map_sum id F (angelic f cs first)"
  using assms
proof (induction cs arbitrary: first)
  case (Cons c cs)
  then show ?case by (cases "f c") auto
qed simp

lemma sim_resolve:
  assumes "sim D p q" and "prov_wf q" and a: "a < length (pv_allocs q)"
    and "\<And>t. pr = Tag t \<Longrightarrow> t \<in> set (tags_of q a)"
  shows "resolve q a pr lo hi kind sp = map_sum id (filter (\<lambda>(t, off, r). t \<notin> D)) (resolve p a pr lo hi kind sp)"
proof (cases pr)
  case (Tag t)
  with sim_plan_kept [OF assms(1-3) assms(4) [OF Tag] refl] show ?thesis by (simp add: resolve_def)
next
  case Wildcard
  have e: "al_live (pv_allocs q ! a) = al_live (pv_allocs p ! a)" "al_span (pv_allocs q ! a) = al_span (pv_allocs p ! a)"
    "al_exposed (pv_allocs q ! a) = al_exposed (pv_allocs p ! a)"
    using a simD(2) [OF assms(1)] by simp_all
  have "c \<in> set (tags_of q a)" if "c \<in> set (al_exposed (pv_allocs p ! a))" for c
    using that e(3) prov_wfD(2) [OF assms(2) a] by (auto simp: alloc_wf_def Let_def tags_of_def)
  then have "angelic (\<lambda>c. plan q a c lo hi kind sp) (al_exposed (pv_allocs p ! a)) None =
      map_sum id (filter (\<lambda>(t, off, r). t \<notin> D)) (angelic (\<lambda>c. plan p a c lo hi kind sp) (al_exposed (pv_allocs p ! a)) None)"
    by (intro sim_angelic sim_plan_kept [OF assms(1-3) _ refl])
  with Wildcard e show ?thesis
    by (cases "angelic (\<lambda>c. plan p a c lo hi kind sp) (al_exposed (pv_allocs p ! a)) None")
      (auto simp: resolve_def Let_def split: option.splits)
qed

lemma sim_access:
  assumes s: "sim D p q" and wf: "prov_wf q"
    and t: "\<And>a t. rp_alloc ptr = Some a \<Longrightarrow> a < length (pv_allocs q) \<Longrightarrow> rp_prov ptr = Tag t \<Longrightarrow> t \<in> set (tags_of q a)"
  shows "fst (mem_access q ptr len kind sp) = fst (mem_access p ptr len kind sp) \<and>
     sim D (snd (mem_access p ptr len kind sp)) (snd (mem_access q ptr len kind sp))"
proof (cases "\<exists>a. rp_alloc ptr = Some a \<and> a < length (pv_allocs q)")
  case False
  then show ?thesis using s simD(2) [OF s] by (cases "rp_alloc ptr") (auto simp: mem_access_def)
next
  case True
  then obtain a where a: "rp_alloc ptr = Some a" "a < length (pv_allocs q)" by blast
  let ?lo = "nat (rp_offset ptr)"
  have a': "a < length (pv_allocs p)" using a(2) simD(2) [OF s] by simp
  have e: "pv_allocs q ! a = drop_tags D (pv_allocs p ! a)" using a' simD(2) [OF s] by simp
  note r = sim_resolve [OF s wf a(2), of "rp_prov ptr" ?lo "?lo + len" kind sp, OF t [OF a]]
  have own: "owned_by (pv_region_dead q) (pv_allocs q ! a) = owned_by (pv_region_dead p) (pv_allocs p ! a)"
    by (simp add: e owned_by_def simD(4) [OF s])
  have init: "sim D (set_alloc a (\<lambda>e. e\<lparr>al_init := init_all ?lo (?lo + len) (al_init e)\<rparr>) p')
       (set_alloc a (\<lambda>e. e\<lparr>al_init := init_all ?lo (?lo + len) (al_init e)\<rparr>) q')" if "sim D p' q'" for p' q'
    by (rule sim_set_alloc [OF that]) (simp add: drop_tags_def)
  show ?thesis
  proof (cases "resolve p a (rp_prov ptr) ?lo (?lo + len) kind sp")
    case (Inl f)
    with r a a' s own show ?thesis by (simp add: mem_access_def Let_def e)
  next
    case (Inr pl)
    note c = sim_commit [OF s, of pl]
    from Inr r a a' s own c init [OF c] show ?thesis
      by (cases kind) (simp_all add: mem_access_def Let_def e split: option.splits)
  qed
qed

section \<open>Every operation\<close>

lemma sim_prune: "sim D p q \<Longrightarrow> prov_wf q \<Longrightarrow> \<exists>D'. sim D' p (prune q)"
proof -
  assume s: "sim D p q" and wf: "prov_wf q"
  define E where "E = {t. t < length (pv_tags q) \<and> t \<in> set (tags_of q (tg_alloc (pv_tags q ! t))) \<and>
      t \<notin> set (pruned q (tg_alloc (pv_tags q ! t)))}"
  note r = prune_result [of q]
  have unprot: "\<not> tg_protected (pv_tags q ! t)" if "t \<in> E" for t
  proof -
    from that have t: "t < length (pv_tags q)" "t \<in> set (tags_of q (tg_alloc (pv_tags q ! t)))"
      "t \<notin> set (pruned q (tg_alloc (pv_tags q ! t)))" by (simp_all add: E_def)
    have "tg_alloc (pv_tags q ! t) < length (pv_allocs q)"
      using prov_wfD(1) [OF wf t(1)] by (simp add: tag_wf_def Let_def)
    from pruned_props(4) [OF wf this t(2)] t(3) show ?thesis by blast
  qed
  have allocs: "pv_allocs (prune q) ! i = drop_tags (D \<union> E) (pv_allocs p ! i)" if i: "i < length (pv_allocs p)" for i
  proof -
    have iq: "i < length (pv_allocs q)" using i simD(2) [OF s] by simp
    have e: "pv_allocs q ! i = drop_tags D (pv_allocs p ! i)" using i simD(2) [OF s] by simp
    have mem: "t \<in> set (pruned q i) \<longleftrightarrow> t \<notin> E" if "t \<in> set (tags_of q i)" for t
      using wf_tags_of [OF wf iq that] that by (auto simp: E_def)
    from pruned_props(3) [OF wf iq] obtain K where K: "pruned q i = filter K (tags_of q i)" ..
    have "pruned q i = filter (\<lambda>t. t \<notin> E) (tags_of q i)"
      unfolding K by (rule filter_cong [OF refl]) (use mem in \<open>simp add: K\<close>)
    then have p: "pruned q i = filter (\<lambda>t. t \<notin> D \<union> E) (al_tags (pv_allocs p ! i))"
      by (simp add: tags_of_def e conj_commute)
    have "pv_allocs (prune q) ! i = (pv_allocs q ! i)\<lparr>al_tags := pruned q i\<rparr>" using r iq by simp
    then show ?thesis unfolding e p by (simp add: drop_tags_def)
  qed
  have "sim (D \<union> E) p (prune q)"
    unfolding sim_def
  proof (intro conjI)
    show "pv_allocs (prune q) = map (drop_tags (D \<union> E)) (pv_allocs p)"
      by (rule nth_equalityI) (use r simD(2) [OF s] allocs in auto)
    show "\<forall>t < length (pv_tags p). tag_upto (t \<in> D \<union> E) (pv_tags p ! t) (pv_tags (prune q) ! t)"
      using simD(6) [OF s] r by (auto simp: tag_upto_def)
    show "\<forall>t \<in> D \<union> E. t < length (pv_tags p) \<and> \<not> tg_protected (pv_tags p ! t)"
      using simD(1,7,8,12) [OF s] unprot by (auto simp: E_def)
  qed (use r simD [OF s] in auto)
  then show ?thesis ..
qed

text \<open>What a caller sees of an operation: the finding of an access or assertion, and whether a free is
  a free.\<close>

fun observe :: "prov_op \<Rightarrow> provenance \<Rightarrow> ub_finding option \<times> bool" where
  "observe (PoAccess ptr len kind sp) p = (fst (mem_access p ptr len kind sp), True)"
| "observe (PoAccessPlace k kind sp) p = (fst (access_place p k kind sp), True)"
| "observe (PoAssume ptrs sp) p = (fst (assume_noalias p ptrs sp), True)"
| "observe (PoHostFree ptr) p = (None, fst (host_free p ptr))"
| "observe _ p = (None, True)"

fun observations :: "prov_op list \<Rightarrow> provenance \<Rightarrow> (ub_finding option \<times> bool) list" where
  "observations [] p = []"
| "observations (x # xs) p =
     (if x = PoPrune then observations xs (prune p) else observe x p # observations xs (prov_act x p))"

text \<open>Nobody uses a tag that is no longer in its tree.\<close>

fun held_guard :: "prov_op \<Rightarrow> provenance \<Rightarrow> bool" where
  "held_guard (PoAccess ptr len kind sp) p =
     (case (rp_alloc ptr, rp_prov ptr) of (Some a, Tag t) \<Rightarrow> a < length (pv_allocs p) \<longrightarrow> has_tag p a t | _ \<Rightarrow> True)"
| "held_guard x p = prov_guard x p"

lemma held_guard_prov: "held_guard x p \<Longrightarrow> prov_guard x p"
  by (cases x) auto

lemma sim_new_alloc:
  assumes s: "sim D p q" and n: "new_alloc p n orig owner sp r = (i, p')" "new_alloc q n orig owner sp r = (j, q')"
  shows "i = j \<and> sim D p' q' \<and> al_root (pv_allocs q' ! i) = al_root (pv_allocs p' ! i)"
proof -
  have fresh: "length (pv_tags p) \<notin> D" using simD(7) [OF s] by blast
  with n simD(1,2) [OF s] s show ?thesis
    by (auto simp: new_alloc_def Let_def sim_def nth_append tag_upto_def less_Suc_eq drop_tags_def) blast
qed

lemma sim_retag:
  assumes s: "sim D p q" and a: "a < length (pv_allocs q)"
  shows "fst (retag q a par kind prot sp) = fst (retag p a par kind prot sp) \<and>
     sim D (snd (retag p a par kind prot sp)) (snd (retag q a par kind prot sp))"
proof -
  have e: "al_size (pv_allocs q ! a) = al_size (pv_allocs p ! a)" using a simD(2) [OF s] by simp
  have fresh: "length (pv_tags p) \<notin> D" using simD(7) [OF s] by blast
  have "sim D (set_alloc a (\<lambda>e. e\<lparr>al_tags := al_tags e @ [length (pv_tags p)]\<rparr>) (p\<lparr>pv_tags := pv_tags p @ [x]\<rparr>))
      (set_alloc a (\<lambda>e. e\<lparr>al_tags := al_tags e @ [length (pv_tags p)]\<rparr>) (q\<lparr>pv_tags := pv_tags q @ [x]\<rparr>))" for x
    by (rule sim_set_alloc [OF sim_append_tag [OF s]]) (use fresh in \<open>simp add: drop_tags_def\<close>)
  then show ?thesis using e simD(1) [OF s] by (simp add: retag_def Let_def)
qed

lemma sim_place_alloc:
  assumes s: "sim D p q"
  shows "fst (place_alloc q key owner sp) = fst (place_alloc p key owner sp) \<and>
     sim D (snd (place_alloc p key owner sp)) (snd (place_alloc q key owner sp))"
proof (cases "place p key")
  case (Some e)
  with s simD(3) [OF s] show ?thesis by (simp add: place_alloc_def place_def)
next
  case None
  obtain i p1 where n: "new_alloc p 1 PlaceOrigin owner sp Active = (i, p1)"
    by (cases "new_alloc p 1 PlaceOrigin owner sp Active")
  obtain j q1 where m: "new_alloc q 1 PlaceOrigin owner sp Active = (j, q1)"
    by (cases "new_alloc q 1 PlaceOrigin owner sp Active")
  let ?f = "\<lambda>a. a\<lparr>al_init := map (\<lambda>_. True) (al_init a)\<rparr>"
  have na: "j = i" "sim D p1 q1" "al_root (pv_allocs q1 ! i) = al_root (pv_allocs p1 ! i)"
    using sim_new_alloc [OF s n m] by auto
  have i: "i < length (pv_allocs p1)" using n by (auto simp: new_alloc_def Let_def)
  have s2: "sim D (set_alloc i ?f p1) (set_alloc i ?f q1)"
    by (rule sim_set_alloc [OF na(2)]) (simp add: drop_tags_def)
  have root: "al_root (pv_allocs (set_alloc i ?f q1) ! i) = al_root (pv_allocs (set_alloc i ?f p1) ! i)"
    using i simD(2) [OF na(2)] by (simp add: nth_modify_at)
  from None simD(3) [OF s] have "place q key = None" by (simp add: place_def)
  with None n m na(1) root sim_put_place [OF s2] show ?thesis
    by (simp add: place_alloc_def Let_def)
qed

lemma sim_host_alloc:
  assumes s: "sim D p q"
  shows "sim D (snd (host_alloc p n r sp)) (snd (host_alloc q n r sp))"
proof -
  obtain i p1 where n: "new_alloc p n HostC (Some r) sp Active = (i, p1)" by fastforce
  obtain j q1 where m: "new_alloc q n HostC (Some r) sp Active = (j, q1)" by fastforce
  have na: "j = i" "sim D p1 q1" "al_root (pv_allocs q1 ! i) = al_root (pv_allocs p1 ! i)"
    using sim_new_alloc [OF s n m] by auto
  have "sim D (set_alloc i (\<lambda>a. a\<lparr>al_exposed := al_exposed a @ [x]\<rparr>) p1)
      (set_alloc i (\<lambda>a. a\<lparr>al_exposed := al_exposed a @ [x]\<rparr>) q1)" for x
    by (rule sim_set_alloc [OF na(2)]) (simp add: drop_tags_def)
  with n m na show ?thesis by (simp add: host_alloc_def Let_def)
qed

lemma sim_host_free:
  assumes s: "sim D p q"
  shows "fst (host_free q ptr) = fst (host_free p ptr) \<and> sim D (snd (host_free p ptr)) (snd (host_free q ptr))"
proof (cases "Option.bind (rp_alloc ptr) (get_at (pv_allocs p))")
  case None
  then show ?thesis using s sim_get_at(1) [OF s]
    by (cases "rp_alloc ptr") (auto simp: host_free_def split: option.splits)
next
  case (Some e)
  then obtain a where a: "rp_alloc ptr = Some a" "get_at (pv_allocs p) a = Some e" by (cases "rp_alloc ptr") auto
  have "sim D (set_alloc a (\<lambda>a. a\<lparr>al_live := False\<rparr>) p) (set_alloc a (\<lambda>a. a\<lparr>al_live := False\<rparr>) q)"
    by (rule sim_set_alloc [OF s]) (simp add: drop_tags_def)
  from sim_map_perms [OF this, of "\<lambda>_. Disabled" "al_tags e"] a s sim_get_at(1) [OF s, of a] show ?thesis
    by (simp add: host_free_def)
qed

lemma sim_retag_place:
  assumes s: "sim D p q" and wf: "prov_wf q"
  shows "sim D (snd (retag_place p k kind prot sp)) (snd (retag_place q k kind prot sp))"
proof -
  obtain a par p1 where p1: "place_alloc p k None sp = ((a, par), p1)" by (metis prod.collapse)
  obtain b par' q1 where q1: "place_alloc q k None sp = ((b, par'), q1)" by (metis prod.collapse)
  have e: "b = a" "par' = par" "sim D p1 q1" using sim_place_alloc [OF s, of k None sp] p1 q1 by auto
  have "a < length (pv_allocs q1)" using wf_place_alloc [OF wf q1] e by simp
  from sim_retag [OF e(3) this, of par kind prot sp] show ?thesis
    by (cases "retag p1 a par kind prot sp"; cases "retag q1 a par kind prot sp")
      (simp add: retag_place_def p1 q1 e)
qed

lemma sim_unprotect:
  assumes s: "sim D p q"
  shows "sim D (unprotect p t) (unprotect q t)"
proof (cases "t < length (pv_tags p)")
  case False
  with s simD(1) [OF s] show ?thesis by (simp add: unprotect_def)
next
  case True
  note st = simD(11,12) [OF s True] and len = simD(1) [OF s]
  have "sim D (set_tag t (\<lambda>e. e\<lparr>tg_protected := False\<rparr>) p) (set_tag t (\<lambda>e. e\<lparr>tg_protected := False\<rparr>) q)"
    if "t \<notin> D"
    using s simD(13) [OF s True that] by (auto simp: sim_def nth_modify_at tag_upto_def)
  with s True st len simD(8) [OF s] show ?thesis by (cases "t \<in> D") (auto simp: unprotect_def)
qed

lemma sim_act:
  assumes s: "sim D p q" and wf: "prov_wf q" and g: "held_guard x q" and np: "x \<noteq> PoPrune"
  shows "observe x q = observe x p \<and> sim D (prov_act x p) (prov_act x q)"
proof (cases x)
  case (PoHostAlloc n r sp)
  with sim_host_alloc [OF s] show ?thesis by simp
next
  case (PoHostFree ptr)
  with sim_host_free [OF s] show ?thesis by simp
next
  case (PoRetag a par kind prot sp)
  with g sim_retag [OF s] show ?thesis by (simp add: has_tag_def)
next
  case (PoRetagPlace k kind prot sp)
  with sim_retag_place [OF s wf] show ?thesis by simp
next
  case (PoUnprotect t)
  with sim_unprotect [OF s] show ?thesis by simp
next
  case (PoExpose ptr)
  have "sim D (set_alloc a (\<lambda>e. if t \<in> set (al_exposed e) then e else e\<lparr>al_exposed := al_exposed e @ [t]\<rparr>) p)
      (set_alloc a (\<lambda>e. if t \<in> set (al_exposed e) then e else e\<lparr>al_exposed := al_exposed e @ [t]\<rparr>) q)" for a t
    by (rule sim_set_alloc [OF s]) (simp add: drop_tags_def)
  with PoExpose s show ?thesis by (simp add: expose_def split: option.splits prov.splits)
next
  case (PoRegionFreed rs)
  let ?d = "\<lambda>r. r\<lparr>pv_region_dead := fold (\<lambda>r ds. if r \<in> set ds then ds else ds @ [r]) rs (pv_region_dead r)\<rparr>"
  have "sim D (?d p) (?d q)" using s by (simp add: sim_def)
  from sim_fold_map_perms [OF this] sim_owned [OF s] PoRegionFreed show ?thesis by (simp add: region_freed_def)
next
  case (PoRegionFrozen rs)
  with sim_fold_map_perms [OF s] sim_owned [OF s] show ?thesis by (simp add: region_frozen_def)
next
  case (PoAssume ptrs sp)
  from s have "sim D (p\<lparr>pv_assumptions := pv_assumptions p @ [as]\<rparr>) (q\<lparr>pv_assumptions := pv_assumptions q @ [as]\<rparr>)"
    for as by (simp add: sim_def)
  with PoAssume s sim_get_at(2) [OF s] show ?thesis
    by (simp add: assume_noalias_def Let_def split: option.splits)
next
  case (PoAccess ptr len kind sp)
  have "fst (mem_access q ptr len kind sp) = fst (mem_access p ptr len kind sp) \<and>
     sim D (snd (mem_access p ptr len kind sp)) (snd (mem_access q ptr len kind sp))"
    by (rule sim_access [OF s wf]) (use g PoAccess in \<open>simp add: has_tag_def\<close>)
  with PoAccess show ?thesis by simp
next
  case (PoAccessPlace k kind sp)
  show ?thesis
  proof (cases "place q k")
    case None
    with PoAccessPlace s simD(3) [OF s] show ?thesis by (simp add: access_place_def place_def)
  next
    case (Some e)
    obtain a t where e: "e = (a, t)" by (cases e)
    have "fst (mem_access q (tag_ptr a t) 1 kind sp) = fst (mem_access p (tag_ptr a t) 1 kind sp) \<and>
       sim D (snd (mem_access p (tag_ptr a t) 1 kind sp)) (snd (mem_access q (tag_ptr a t) 1 kind sp))"
      by (rule sim_access [OF s wf]) (use place_range [OF wf, of k a t] Some e in \<open>auto simp: tag_ptr_def\<close>)
    with PoAccessPlace Some e simD(3) [OF s] show ?thesis by (simp add: access_place_def place_def)
  qed
next
  case (PoInit ptr len)
  have "sim D (set_alloc a (\<lambda>e. e\<lparr>al_init := init_all lo (min (lo + len) (length (al_init e))) (al_init e)\<rparr>) p)
      (set_alloc a (\<lambda>e. e\<lparr>al_init := init_all lo (min (lo + len) (length (al_init e))) (al_init e)\<rparr>) q)" for a lo
    by (rule sim_set_alloc [OF s]) (simp add: drop_tags_def)
  with PoInit s show ?thesis by (simp add: init_range_def Let_def split: option.splits)
next
  case (PoStore ptr len v)
  have "sim D (set_alloc a (\<lambda>e. e\<lparr>al_bytes := write_bytes lo len v (al_bytes e)\<rparr>) p)
      (set_alloc a (\<lambda>e. e\<lparr>al_bytes := write_bytes lo len v (al_bytes e)\<rparr>) q)" for a lo
    by (rule sim_set_alloc [OF s]) (simp add: drop_tags_def)
  with PoStore s show ?thesis by (simp add: store_bytes_def Let_def split: option.splits)
next
  case (PoDropFrame task fr)
  let ?keep = "\<lambda>k. case frame_of_key task k of None \<Rightarrow> True | Some f \<Rightarrow> f < fr"
  have "pv_places (drop_frame r task fr) = filter (\<lambda>(k, a, t). ?keep k) (pv_places r)" for r
    unfolding drop_frame_def retain_places_filter [of ?keep "pv_places r" "pv_dirty r", symmetric]
    by (cases "retain_places ?keep (pv_places r) (pv_dirty r)") simp
  then have "pv_places (drop_frame q task fr) = pv_places (drop_frame p task fr)" by (simp add: simD(3) [OF s])
  with s PoDropFrame show ?thesis by (simp add: sim_def drop_frame_def split: prod.splits)
next
  case (PoRestore k prev)
  from s have "sim D (p\<lparr>pv_places := AList.delete k (pv_places p)\<rparr>) (q\<lparr>pv_places := AList.delete k (pv_places q)\<rparr>)"
    by (simp add: sim_def)
  with PoRestore sim_put_place [OF s] show ?thesis by (simp add: restore_place_def split: option.splits)
qed (use np sim_put_place [OF s] in \<open>simp_all add: bind_place_def rebind_place_def\<close>)

lemma sim_observations:
  "sim D p q \<Longrightarrow> prov_wf q \<Longrightarrow> guarded_run prov_act held_guard ops q \<Longrightarrow>
     observations ops q = observations (filter (\<lambda>x. x \<noteq> PoPrune) ops) p"
proof (induction ops arbitrary: D p q)
  case Nil
  then show ?case by simp
next
  case (Cons x ops)
  from Cons.prems(3) have g: "held_guard x q" and rest: "guarded_run prov_act held_guard ops (prov_act x q)"
    by simp_all
  have wf: "prov_wf (prov_act x q)" by (rule prov_act_wf [OF Cons.prems(2) held_guard_prov [OF g]])
  show ?case
  proof (cases "x = PoPrune")
    case True
    from sim_prune [OF Cons.prems(1,2)] obtain D' where "sim D' p (prune q)" ..
    from Cons.IH [OF this] wf rest True show ?thesis by simp
  next
    case False
    note a = sim_act [OF Cons.prems(1,2) g False]
    from Cons.IH [OF conjunct2 [OF a] wf rest] a False show ?thesis by simp
  qed
qed

text \<open>C12: Pruning is unobservable to whoever only uses tags that are still in their tree. For every run in
  which each tag handed to the machine was not pruned, every finding, every free and every assertion
  comes out exactly as in the run with all \<open>prune\<close> operations erased.\<close>

theorem pruning_unobservable:
  assumes "prov_wf p" and "guarded_run prov_act held_guard ops p"
  shows "observations ops p = observations (filter (\<lambda>x. x \<noteq> PoPrune) ops) p"
  by (rule sim_observations [OF sim_refl assms])

theorem pruning_unobservable_witness:
  "observations [PoRetag 0 1 SharedTag False sp0, PoPrune, PoAccess (tag_ptr 0 0) 2 Write sp0, PoPrune] demo_prov =
   observations [PoRetag 0 1 SharedTag False sp0, PoAccess (tag_ptr 0 0) 2 Write sp0] demo_prov"
proof -
  have "guarded_run prov_act held_guard
      [PoRetag 0 1 SharedTag False sp0, PoPrune, PoAccess (tag_ptr 0 0) 2 Write sp0, PoPrune] demo_prov"
    by code_simp
  from pruning_unobservable [OF demo_prov_wf this] show ?thesis by simp
qed


end
