(* ===== verification/SchedState.thy ===== *)
theory SchedState
  imports Vocab Provenance
begin

text \<open>
  The state of the sim scheduler (\<open>src/src/eval/sched.rs\<close>) and its primitives: the decision stream,
  vector clocks, the ready queue and the waiter lists. Trace notes and task names in messages are
  formatting and not modelled; neither are the operating-system threads and the gates: at most one task
  runs, and a blocking operation is two functions, the part before it parks and the part after it was
  woken. The digest of the canonical state that a decision carries is not modelled (it hashes the debug
  rendering of values). Counters of type \<open>u64\<close> and \<open>u128\<close> are natural numbers; a run would have to take
  \<open>2 ^ 64\<close> steps to wrap one.
\<close>

unbundle bit_operations_syntax

type_synonym scope_id = nat
type_synonym chan_id = nat
type_synonym mutex_id = nat
type_synonym proc_id = nat
type_synonym vclock = "nat list"

section \<open>The decision stream\<close>

datatype decision_kind = DkTask | DkArm

record decision =
  de_kind :: decision_kind
  de_candidates :: "nat list"
  de_chosen :: nat

datatype race_key = RkPool nat nat | RkAlloc nat

datatype obj_key =
    OkChan chan_id | OkMutex mutex_id | OkProc proc_id | OkTaskCtl task_id | OkScope scope_id | OkMem race_key

record op_record =
  or_task :: task_id
  or_slice :: "nat option"
  or_obj :: obj_key
  or_write :: bool
  or_vc :: vclock

record plan_rec =
  pl_choices :: "nat list"
  pl_expected :: "(decision_kind \<times> nat list) list"
  pl_leak :: bool

definition PACKED_SEED_TAG :: "64 word" where "PACKED_SEED_TAG = 0x4000000000000000"
definition PACKED_SEED_MASK :: "64 word" where "PACKED_SEED_MASK = PACKED_SEED_TAG - 1"

text \<open>Bit 62 set and bit 63 clear (\<open>leading_zeros() >= 1\<close>).\<close>

definition seed_is_packed :: "64 word \<Rightarrow> bool" where
  "seed_is_packed seed \<longleftrightarrow> seed AND PACKED_SEED_TAG \<noteq> 0 \<and> \<not> bit seed 63"

fun pack_digits :: "decision list \<Rightarrow> nat \<Rightarrow> nat \<Rightarrow> nat option" where
  "pack_digits [] v weight = Some v"
| "pack_digits (d # ds) v weight =
     (let n = length (de_candidates d) in
      if n \<le> 1 then pack_digits ds v weight
      else let v' = v + de_chosen d * weight; weight' = weight * n in
        if 2 ^ 128 \<le> weight' then None
        else if unat PACKED_SEED_MASK + 1 < weight' then None
        else pack_digits ds v' weight')"

text \<open>\<open>decisions[..=last]\<close>, \<open>last\<close> being the last position with a choice that is not 0.\<close>

definition up_to_last_choice :: "decision list \<Rightarrow> decision list" where
  "up_to_last_choice ds = rev (dropWhile (\<lambda>d. de_chosen d = 0) (rev ds))"

definition pack_schedule :: "decision list \<Rightarrow> 64 word option" where
  "pack_schedule ds =
     (if up_to_last_choice ds = [] then Some 0
      else case pack_digits (up_to_last_choice ds) 0 1 of
             None \<Rightarrow> None
           | Some v \<Rightarrow>
               if unat PACKED_SEED_MASK < v then None else Some (PACKED_SEED_TAG OR word_of_nat v))"

datatype chooser = Seeded "64 word" "64 word" | Packed "64 word" | Planned plan_rec

section \<open>Tasks, channels, mutexes and procs\<close>

text \<open>The deadlock verdict carries the roster of blocked tasks.\<close>

datatype 'c wake =
    WkOk "'c val" | WkClosed | WkCancelled | WkKilled | WkArm nat "'c val option" | WkDeadlock "task_id list"

datatype 'c task_end =
    TeValue "'c val" | TeError "'c val" | TeTrapped trap_kind | TeUb ub_finding | TeUnsupported string
  | TeCancelled | TeKilled

datatype task_state = TsFresh | TsReady | TsRunning | TsBlocked | TsDone

datatype 'c exit_reason = ExNormal "'c val" | ExError "'c val" | ExKilled | ExCancelled | ExFault trap_kind

definition exit_to_value :: "'c exit_reason \<Rightarrow> 'c val" where
  "exit_to_value r =
     (let (tag, payload) =
        (case r of
           ExNormal v \<Rightarrow> (''normal'', [v])
         | ExError e \<Rightarrow> (''error'', [e])
         | ExKilled \<Rightarrow> (''killed'', [])
         | ExCancelled \<Rightarrow> (''cancelled'', [])
         | ExFault k \<Rightarrow> (''fault'', [VStr (str_new (trap_as_str k))]))
      in VError tag payload False [])"

definition exit_message :: "'c exit_reason \<Rightarrow> 'c val" where
  "exit_message r = VError ''exit'' [exit_to_value r] False []"

record 'c pending_exit =
  pe_proc :: proc_id
  pe_message :: "'c val"
  pe_vc :: vclock
  pe_monitors :: "chan_id list"

record 'c tcb =
  tc_state :: task_state
  tc_proc :: proc_id
  tc_scope :: "scope_id option"
  tc_cancelled :: bool
  tc_killed :: bool
  tc_wake :: "'c wake option"
  tc_open_stack :: "region_id list"
  tc_vc :: vclock
  tc_outcome :: "'c task_end option"

record 'c scope_state =
  sc_owner :: task_id
  sc_children :: "task_id list"
  sc_joining :: bool
  sc_failures :: "'c task_end list"

record 'c chan =
  ch_cap :: nat
  ch_buf :: "('c val \<times> vclock) list"
  ch_closed :: bool
  ch_senders :: "(task_id \<times> 'c val) list"
  ch_receivers :: "task_id list"
  ch_selecters :: "(task_id \<times> nat) list"
  ch_sends :: nat
  ch_recvs :: nat

record 'c mx =
  mx_value :: "'c val"
  mx_holder :: "task_id option"
  mx_waiters :: "task_id list"
  mx_vc :: vclock
  mx_acquisitions :: nat

record 'c proc =
  pr_root :: task_id
  pr_region :: "region_id option"
  pr_monitors :: "chan_id list"
  pr_links :: "proc_id list"
  pr_exited :: "'c exit_reason option"

record timer =
  tm_deadline :: nat
  tm_seq :: nat
  tm_task :: task_id
  tm_arm :: nat

record real_sleep =
  rs_due :: nat
  rs_seq :: nat
  rs_task :: task_id

record access_rec =
  ac_task :: task_id
  ac_tick :: nat
  ac_lo :: nat
  ac_hi :: nat
  ac_write :: bool

text \<open>The memory of the race detector is keyed; a missing entry is the empty history or clock. The wall
  clock of the operating system is \<open>st_wall\<close>.\<close>

record 'c sched =
  st_tasks :: "'c tcb list"
  st_ready :: "task_id list"
  st_scopes :: "'c scope_state list"
  st_chans :: "'c chan list"
  st_mutexes :: "'c mx list"
  st_procs :: "'c proc list"
  st_timers :: "timer list"
  st_timer_seq :: nat
  st_real_sleeps :: "real_sleep list"
  st_sleep_seq :: nat
  st_clock :: nat
  st_wall :: nat
  st_chooser :: chooser
  st_decisions :: "decision list"
  st_ops :: "op_record list"
  st_cur_slice :: "nat option"
  st_divergence :: "nat option"
  st_deadlocked :: bool
  st_stdout_len :: nat
  st_stdout_fnv :: "64 word"
  st_pending :: "'c pending_exit list"
  st_accesses :: "race_key \<Rightarrow> access_rec list"
  st_atomic_accesses :: "race_key \<Rightarrow> access_rec list"
  st_atomic_clocks :: "race_key \<times> nat \<Rightarrow> vclock"
  st_concurrent :: bool
  st_shutdown :: bool

definition upd_task :: "task_id \<Rightarrow> ('c tcb \<Rightarrow> 'c tcb) \<Rightarrow> 'c sched \<Rightarrow> 'c sched" where
  "upd_task t f s = s\<lparr>st_tasks := modify_at t f (st_tasks s)\<rparr>"

definition upd_chan :: "chan_id \<Rightarrow> ('c chan \<Rightarrow> 'c chan) \<Rightarrow> 'c sched \<Rightarrow> 'c sched" where
  "upd_chan c f s = s\<lparr>st_chans := modify_at c f (st_chans s)\<rparr>"

definition upd_mutex :: "mutex_id \<Rightarrow> ('c mx \<Rightarrow> 'c mx) \<Rightarrow> 'c sched \<Rightarrow> 'c sched" where
  "upd_mutex m f s = s\<lparr>st_mutexes := modify_at m f (st_mutexes s)\<rparr>"

definition upd_proc :: "proc_id \<Rightarrow> ('c proc \<Rightarrow> 'c proc) \<Rightarrow> 'c sched \<Rightarrow> 'c sched" where
  "upd_proc p f s = s\<lparr>st_procs := modify_at p f (st_procs s)\<rparr>"

definition upd_scope :: "scope_id \<Rightarrow> ('c scope_state \<Rightarrow> 'c scope_state) \<Rightarrow> 'c sched \<Rightarrow> 'c sched" where
  "upd_scope i f s = s\<lparr>st_scopes := modify_at i f (st_scopes s)\<rparr>"

abbreviation task_at :: "'c sched \<Rightarrow> task_id \<Rightarrow> 'c tcb" where "task_at s t \<equiv> st_tasks s ! t"
abbreviation chan_at :: "'c sched \<Rightarrow> chan_id \<Rightarrow> 'c chan" where "chan_at s c \<equiv> st_chans s ! c"
abbreviation mutex_at :: "'c sched \<Rightarrow> mutex_id \<Rightarrow> 'c mx" where "mutex_at s m \<equiv> st_mutexes s ! m"
abbreviation proc_at :: "'c sched \<Rightarrow> proc_id \<Rightarrow> 'c proc" where "proc_at s p \<equiv> st_procs s ! p"
abbreviation scope_at :: "'c sched \<Rightarrow> scope_id \<Rightarrow> 'c scope_state" where "scope_at s i \<equiv> st_scopes s ! i"

section \<open>Decisions\<close>

text \<open>One xorshift round on the generator, and the answer of each chooser. A plan replays its forced
  prefix; a mismatch with the recorded alternatives, or a choice out of range, is a divergence.\<close>

definition xorshift :: "64 word \<Rightarrow> 64 word" where
  "xorshift x0 =
     (let x1 = x0 XOR push_bit 13 x0; x2 = x1 XOR drop_bit 7 x1 in x2 XOR push_bit 17 x2)"

definition plan_choice :: "plan_rec \<Rightarrow> nat \<Rightarrow> nat" where
  "plan_choice pl i = (case get_at (pl_choices pl) i of None \<Rightarrow> 0 | Some c \<Rightarrow> c)"

definition plan_mismatch :: "plan_rec \<Rightarrow> nat \<Rightarrow> decision_kind \<Rightarrow> nat list \<Rightarrow> bool" where
  "plan_mismatch pl i kind cands \<longleftrightarrow>
     (case get_at (pl_expected pl) i of
        None \<Rightarrow> False | Some (k, want) \<Rightarrow> k \<noteq> kind \<or> want \<noteq> cands) \<or>
     \<not> plan_choice pl i < length cands"

definition choose_index :: "chooser \<Rightarrow> nat \<Rightarrow> nat \<Rightarrow> nat \<times> chooser" where
  "choose_index ch i n =
     (case ch of
        Seeded seed rng \<Rightarrow>
          if seed = 0 \<or> n \<le> 1 then (0, ch)
          else let x = xorshift rng in (unat x mod n, Seeded seed x)
      | Packed digits \<Rightarrow>
          if n \<le> 1 then (0, ch)
          else (unat digits mod n, Packed (word_of_nat (unat digits div n)))
      | Planned pl \<Rightarrow> (if plan_choice pl i < n then plan_choice pl i else 0, ch))"

definition decide :: "decision_kind \<Rightarrow> nat list \<Rightarrow> 'c sched \<Rightarrow> nat \<times> 'c sched" where
  "decide kind cands s =
     (let i = length (st_decisions s);
          (chosen, ch) = choose_index (st_chooser s) i (length cands);
          diverges = (case st_chooser s of Planned pl \<Rightarrow> plan_mismatch pl i kind cands | _ \<Rightarrow> False)
      in (chosen, s\<lparr>st_chooser := ch,
            st_divergence := (if diverges \<and> st_divergence s = None then Some i else st_divergence s),
            st_decisions := st_decisions s @ [\<lparr>de_kind = kind, de_candidates = cands, de_chosen = chosen\<rparr>],
            st_cur_slice := (if kind = DkTask then Some i else st_cur_slice s)\<rparr>))"

section \<open>Operation records and vector clocks\<close>

definition sched_op :: "task_id \<Rightarrow> obj_key \<Rightarrow> bool \<Rightarrow> 'c sched \<Rightarrow> 'c sched" where
  "sched_op t obj w s =
     s\<lparr>st_ops := st_ops s @ [\<lparr>or_task = t, or_slice = st_cur_slice s, or_obj = obj, or_write = w,
         or_vc = tc_vc (task_at s t)\<rparr>]\<rparr>"

definition actor :: "'c sched \<Rightarrow> task_id" where
  "actor s = (case position (\<lambda>t. tc_state t = TsRunning) (st_tasks s) of None \<Rightarrow> 0 | Some i \<Rightarrow> i)"

text \<open>\<open>enumerate().filter(..).map(index)\<close>.\<close>

definition indices_where :: "('a \<Rightarrow> bool) \<Rightarrow> 'a list \<Rightarrow> nat list" where
  "indices_where p xs = filter (\<lambda>i. p (xs ! i)) [0..<length xs]"

definition op_select_consume :: "task_id \<Rightarrow> 'c sched \<Rightarrow> 'c sched" where
  "op_select_consume t s =
     fold (\<lambda>c. sched_op (actor s) (OkChan c) True)
       (indices_where (\<lambda>c. \<exists>(u, a) \<in> set (ch_selecters c). u = t) (st_chans s)) s"

text \<open>\<open>Vec::resize(n, 0)\<close>: the clock is cut or padded to \<open>n\<close> components.\<close>

definition resize0 :: "nat \<Rightarrow> vclock \<Rightarrow> vclock" where
  "resize0 n vc = take n vc @ replicate (n - length vc) 0"

definition tick_vc :: "nat \<Rightarrow> task_id \<Rightarrow> vclock \<Rightarrow> vclock" where
  "tick_vc n t vc = modify_at t Suc (resize0 n vc)"

definition tick :: "task_id \<Rightarrow> 'c sched \<Rightarrow> 'c sched" where
  "tick t s = upd_task t (\<lambda>e. e\<lparr>tc_vc := tick_vc (length (st_tasks s)) t (tc_vc e)\<rparr>) s"

fun merge_vc :: "vclock \<Rightarrow> vclock \<Rightarrow> vclock" where
  "merge_vc xs [] = xs"
| "merge_vc [] ys = ys"
| "merge_vc (x # xs) (y # ys) = max x y # merge_vc xs ys"

definition hb_edge :: "vclock \<Rightarrow> task_id \<Rightarrow> 'c sched \<Rightarrow> 'c sched" where
  "hb_edge vc t s = tick t (upd_task t (\<lambda>e. e\<lparr>tc_vc := merge_vc (tc_vc e) vc\<rparr>) s)"

section \<open>The ready queue and the waiter lists\<close>

definition make_ready :: "task_id \<Rightarrow> 'c wake \<Rightarrow> 'c sched \<Rightarrow> 'c sched" where
  "make_ready t w s =
     (let s1 = upd_task t (\<lambda>e. e\<lparr>tc_wake := Some w\<rparr>) s in
      if tc_state (task_at s t) \<in> {TsBlocked, TsFresh}
      then (upd_task t (\<lambda>e. e\<lparr>tc_state := TsReady\<rparr>) s1)\<lparr>st_ready := st_ready s @ [t]\<rparr>
      else s1)"

definition chan_without :: "task_id \<Rightarrow> 'c chan \<Rightarrow> 'c chan" where
  "chan_without t c = c\<lparr>ch_receivers := filter (\<lambda>u. u \<noteq> t) (ch_receivers c),
     ch_senders := filter (\<lambda>(u, v). u \<noteq> t) (ch_senders c),
     ch_selecters := filter (\<lambda>(u, a). u \<noteq> t) (ch_selecters c)\<rparr>"

definition deregister :: "task_id \<Rightarrow> 'c sched \<Rightarrow> 'c sched" where
  "deregister t s =
     s\<lparr>st_chans := map (chan_without t) (st_chans s),
       st_mutexes := map (\<lambda>m. m\<lparr>mx_waiters := filter (\<lambda>u. u \<noteq> t) (mx_waiters m)\<rparr>) (st_mutexes s),
       st_timers := filter (\<lambda>x. tm_task x \<noteq> t) (st_timers s),
       st_real_sleeps := filter (\<lambda>x. rs_task x \<noteq> t) (st_real_sleeps s)\<rparr>"

definition closed_error :: "'c val" where "closed_error = VError ''closed'' [] False []"
definition cancelled_error :: "'c val" where "cancelled_error = VError ''cancelled'' [] False []"

end
