(* ===== verification/SchedChan.thy ===== *)
theory SchedChan
  imports SchedState
begin

text \<open>
  Channels, \<open>select\<close> and mutexes of the sim scheduler, and the scheduling loop itself: virtual timers,
  real sleeps, deadlock and the baton. A blocking operation is its part up to the park, which tells
  whether it completed (\<open>Completes\<close>), parks (\<open>Parks\<close>) or runs into an \<open>unreachable!\<close> (\<open>Panics\<close>), and the
  reading of the wake it is resumed with. The operating system's clock is the argument \<open>env\<close>: what a
  reading and a sleep do to it.
\<close>

section \<open>Settling a channel\<close>

text \<open>The inner loop: blocked senders move into buffer space.\<close>

function fill_buffer :: "chan_id \<Rightarrow> 'c sched \<Rightarrow> 'c sched" where
  "fill_buffer c s =
     (if c < length (st_chans s) \<and> length (ch_buf (chan_at s c)) < ch_cap (chan_at s c) \<and>
         ch_senders (chan_at s c) \<noteq> []
      then let (t, v) = hd (ch_senders (chan_at s c));
               vc = tc_vc (task_at s t);
               s1 = upd_chan c (\<lambda>e. e\<lparr>ch_senders := tl (ch_senders e)\<rparr>) s;
               s2 = tick t s1;
               s3 = upd_chan c (\<lambda>e. e\<lparr>ch_buf := ch_buf e @ [(v, vc)], ch_sends := ch_sends e + 1\<rparr>) s2
           in fill_buffer c (make_ready t (WkOk VUnit) s3)
      else s)"
  by pat_completeness auto

lemma chans_frame [simp]:
  "st_chans (upd_task t f s) = st_chans s" "st_chans (make_ready t w s) = st_chans s"
  "st_chans (tick t s) = st_chans s" "st_chans (hb_edge vc t s) = st_chans s"
  "st_chans (sched_op t obj wr s) = st_chans s"
  by (simp_all add: upd_task_def make_ready_def tick_def hb_edge_def sched_op_def Let_def)

lemma chans_upd_chan [simp]: "st_chans (upd_chan c f s) = modify_at c f (st_chans s)"
  by (simp add: upd_chan_def)

termination fill_buffer
  by (relation "measure (\<lambda>(c, s). length (ch_senders (chan_at s c)))") auto

declare fill_buffer.simps [simp del]

definition take_message :: "chan_id \<Rightarrow> 'c sched \<Rightarrow> ('c val \<times> vclock) \<times> 'c sched" where
  "take_message c s =
     (if ch_buf (chan_at s c) \<noteq> []
      then (hd (ch_buf (chan_at s c)), upd_chan c (\<lambda>e. e\<lparr>ch_buf := tl (ch_buf e)\<rparr>) s)
      else let (t, v) = hd (ch_senders (chan_at s c));
               vc = tc_vc (task_at s t);
               s1 = upd_chan c (\<lambda>e. e\<lparr>ch_senders := tl (ch_senders e)\<rparr>) s;
               s2 = upd_chan c (\<lambda>e. e\<lparr>ch_sends := ch_sends e + 1\<rparr>) (tick t s1)
           in ((v, vc), make_ready t (WkOk VUnit) s2))"

text \<open>The receiver at the front, else the first registered \<open>select\<close> with its arm.\<close>

definition waiter :: "'c chan \<Rightarrow> (task_id \<times> nat option) option" where
  "waiter c =
     (case ch_receivers c of
        r # _ \<Rightarrow> Some (r, None)
      | [] \<Rightarrow> (case ch_selecters c of (t, a) # _ \<Rightarrow> Some (t, Some a) | [] \<Rightarrow> None))"

definition release_closed :: "chan_id \<Rightarrow> 'c sched \<Rightarrow> 'c sched" where
  "release_closed c s =
     (let s1 = fold (\<lambda>t. make_ready t WkClosed) (ch_receivers (chan_at s c))
                 (upd_chan c (\<lambda>e. e\<lparr>ch_receivers := []\<rparr>) s);
          sel = ch_selecters (chan_at s1 c)
      in fold (\<lambda>(t, a) r. make_ready t (WkArm a (Some closed_error)) (deregister t (op_select_consume t r))) sel
           (upd_chan c (\<lambda>e. e\<lparr>ch_selecters := []\<rparr>) s1))"

definition deliver_to :: "chan_id \<Rightarrow> task_id \<Rightarrow> nat option \<Rightarrow> 'c sched \<Rightarrow> 'c sched" where
  "deliver_to c t arm s =
     (let s1 = (if arm \<noteq> None then op_select_consume t s else s);
          ((v, vc), s2) = take_message c s1;
          s3 = upd_chan c (\<lambda>e. e\<lparr>ch_recvs := ch_recvs e + 1\<rparr>) s2;
          s4 = deregister t (hb_edge vc t s3)
      in make_ready t (case arm of None \<Rightarrow> WkOk v | Some a \<Rightarrow> WkArm a (Some v)) s4)"

function settle_chan :: "chan_id \<Rightarrow> 'c sched \<Rightarrow> 'c sched" where
  "settle_chan c s =
     (let s1 = fill_buffer c s; ch = chan_at s1 c in
      if \<not> c < length (st_chans s) then s
      else if ch_buf ch = [] \<and> ch_senders ch = [] then (if ch_closed ch then release_closed c s1 else s1)
      else case waiter ch of
             None \<Rightarrow> s1
           | Some (t, arm) \<Rightarrow> settle_chan c (deliver_to c t arm s1))"
  by pat_completeness auto

text \<open>What waits on a channel; \<open>fill_buffer\<close> and \<open>take_message\<close> do not touch it.\<close>

definition waits :: "'c chan \<Rightarrow> task_id list \<times> (task_id \<times> nat) list" where
  "waits c = (ch_receivers c, ch_selecters c)"

lemma fill_buffer_waits:
  "length (st_chans (fill_buffer c s)) = length (st_chans s) \<and>
   (c < length (st_chans s) \<longrightarrow> waits (chan_at (fill_buffer c s) c) = waits (chan_at s c))"
proof (induction c s rule: fill_buffer.induct)
  case (1 c s)
  show ?case
  proof (cases "c < length (st_chans s) \<and> length (ch_buf (chan_at s c)) < ch_cap (chan_at s c) \<and>
      ch_senders (chan_at s c) \<noteq> []")
    case True
    obtain t v where h: "hd (ch_senders (chan_at s c)) = (t, v)" by fastforce
    from "1.IH" [OF True h [symmetric] refl refl refl refl refl] True h
    show ?thesis by (subst (1 2) fill_buffer.simps) (simp add: Let_def waits_def)
  next
    case False
    then show ?thesis by (subst (1 2) fill_buffer.simps) auto
  qed
qed

lemma op_select_consume_chans [simp]: "st_chans (op_select_consume t s) = st_chans s"
proof -
  have "st_chans (fold (\<lambda>c. sched_op (actor s) (OkChan c) True) cs r) = st_chans r" for cs r
    by (induction cs arbitrary: r) simp_all
  then show ?thesis by (simp add: op_select_consume_def)
qed

lemma take_message_chans:
  "st_chans (snd (take_message c s)) = modify_at c (\<lambda>e.
     if ch_buf (chan_at s c) \<noteq> [] then e\<lparr>ch_buf := tl (ch_buf e)\<rparr>
     else e\<lparr>ch_senders := tl (ch_senders e), ch_sends := ch_sends e + 1\<rparr>) (st_chans s)"
  by (auto simp: take_message_def Let_def modify_at_def split: prod.splits)

lemma deliver_to_waits:
  assumes "c < length (st_chans s)" and "waiter (chan_at s c) = Some (t, arm)"
  shows "length (ch_receivers (chan_at (deliver_to c t arm s) c)) + length (ch_selecters (chan_at (deliver_to c t arm s) c))
     < length (ch_receivers (chan_at s c)) + length (ch_selecters (chan_at s c))"
proof -
  let ?s1 = "if arm \<noteq> None then op_select_consume t s else s"
  obtain v vc s2 where m: "take_message c ?s1 = ((v, vc), s2)" by (metis prod.collapse)
  have s2: "st_chans s2 = modify_at c (\<lambda>e. if ch_buf (chan_at s c) \<noteq> [] then e\<lparr>ch_buf := tl (ch_buf e)\<rparr>
     else e\<lparr>ch_senders := tl (ch_senders e), ch_sends := ch_sends e + 1\<rparr>) (st_chans s)"
    using take_message_chans [of c ?s1] m by (cases arm) simp_all
  have r: "ch_receivers (chan_at (deliver_to c t arm s) c) = filter (\<lambda>u. u \<noteq> t) (ch_receivers (chan_at s c))"
    and q: "ch_selecters (chan_at (deliver_to c t arm s) c) = filter (\<lambda>(u, a). u \<noteq> t) (ch_selecters (chan_at s c))"
    using assms(1) m s2 by (auto simp: deliver_to_def Let_def deregister_def chan_without_def)
  show ?thesis
  proof (cases "ch_receivers (chan_at s c)")
    case Nil
    then obtain xs where "ch_selecters (chan_at s c) = (t, the arm) # xs"
      using assms(2) by (auto simp: waiter_def split: list.splits)
    with Nil show ?thesis unfolding r q by (simp add: le_imp_less_Suc)
  next
    case (Cons u xs)
    then have "u = t" using assms(2) by (simp add: waiter_def)
    with Cons show ?thesis unfolding r q by (simp add: le_imp_less_Suc add_mono)
  qed
qed

termination settle_chan
proof (relation "measure (\<lambda>(c, s). length (ch_receivers (chan_at s c)) + length (ch_selecters (chan_at s c)))", goal_cases)
  case 1
  then show ?case by simp
next
  case (2 c s s1 ch w t arm)
  then have "c < length (st_chans s1)" "waits (chan_at s1 c) = waits (chan_at s c)"
    using fill_buffer_waits [of c s] by simp_all
  with 2 deliver_to_waits [of c s1 t arm] show ?case by (simp add: waits_def)
qed

declare settle_chan.simps [simp del]

section \<open>Blocking operations\<close>

datatype 'c resolved = RsValue "'c val" | RsErr "'c val" | RsKilled | RsDeadlock "task_id list"

datatype 'a outcome = Parks | Completes 'a | Panics

fun resolve_chan :: "'c wake \<Rightarrow> 'c resolved outcome" where
  "resolve_chan (WkOk v) = Completes (RsValue v)"
| "resolve_chan WkClosed = Completes (RsErr closed_error)"
| "resolve_chan WkCancelled = Completes (RsErr cancelled_error)"
| "resolve_chan WkKilled = Completes RsKilled"
| "resolve_chan (WkDeadlock roster) = Completes (RsDeadlock roster)"
| "resolve_chan (WkArm a v) = Panics"

definition take_wake :: "task_id \<Rightarrow> 'c sched \<Rightarrow> 'c sched" where
  "take_wake t s = upd_task t (\<lambda>e. e\<lparr>tc_wake := None\<rparr>) s"

text \<open>The wake that arrived while registering is consumed without a context switch.\<close>

definition settled_or_parks :: "task_id \<Rightarrow> 'c sched \<Rightarrow> 'c resolved outcome \<times> 'c sched" where
  "settled_or_parks t s =
     (case tc_wake (task_at s t) of None \<Rightarrow> (Parks, s) | Some w \<Rightarrow> (resolve_chan w, take_wake t s))"

definition send :: "task_id \<Rightarrow> chan_id \<Rightarrow> 'c val \<Rightarrow> 'c sched \<Rightarrow> 'c resolved outcome \<times> 'c sched" where
  "send me c v s =
     (if tc_killed (task_at s me) then (Completes RsKilled, s)
      else if tc_cancelled (task_at s me) then (Completes (RsErr cancelled_error), s)
      else let s1 = sched_op me (OkChan c) True (sched_op me (OkTaskCtl me) False s) in
        if ch_closed (chan_at s1 c) then (Completes (RsErr closed_error), s1)
        else settled_or_parks me
               (settle_chan c (upd_chan c (\<lambda>e. e\<lparr>ch_senders := ch_senders e @ [(me, v)]\<rparr>) s1)))"

definition recv :: "task_id \<Rightarrow> chan_id \<Rightarrow> 'c sched \<Rightarrow> 'c resolved outcome \<times> 'c sched" where
  "recv me c s =
     (if tc_killed (task_at s me) then (Completes RsKilled, s)
      else if tc_cancelled (task_at s me) then (Completes (RsErr cancelled_error), s)
      else let s1 = sched_op me (OkChan c) True (sched_op me (OkTaskCtl me) False s) in
        settled_or_parks me
          (settle_chan c (upd_chan c (\<lambda>e. e\<lparr>ch_receivers := ch_receivers e @ [me]\<rparr>) s1)))"

definition close_chan :: "chan_id \<Rightarrow> 'c sched \<Rightarrow> 'c sched" where
  "close_chan c s =
     (if ch_closed (chan_at s c) then s
      else let s1 = upd_chan c (\<lambda>e. e\<lparr>ch_closed := True\<rparr>) (sched_op (actor s) (OkChan c) True s);
               blocked = ch_senders (chan_at s1 c)
           in settle_chan c (fold (\<lambda>(t, v). make_ready t WkClosed) blocked
                (upd_chan c (\<lambda>e. e\<lparr>ch_senders := []\<rparr>) s1)))"

definition new_chan :: "nat \<Rightarrow> 'c sched \<Rightarrow> chan_id \<times> 'c sched" where
  "new_chan cap s =
     (length (st_chans s), s\<lparr>st_chans := st_chans s @ [\<lparr>ch_cap = cap, ch_buf = [], ch_closed = False,
        ch_senders = [], ch_receivers = [], ch_selecters = [], ch_sends = 0, ch_recvs = 0\<rparr>]\<rparr>)"

text \<open>\<open>select\<close>: the ready arms, the committed one, and the registration when none is ready.\<close>

definition arm_ready :: "'c sched \<Rightarrow> chan_id \<Rightarrow> bool" where
  "arm_ready s c \<longleftrightarrow> ch_buf (chan_at s c) \<noteq> [] \<or> ch_senders (chan_at s c) \<noteq> [] \<or> ch_closed (chan_at s c)"

definition ready_arms :: "(nat \<times> chan_id) list \<Rightarrow> (nat \<times> nat) option \<Rightarrow> 'c sched \<Rightarrow> nat list" where
  "ready_arms arms timeout s =
     map fst (filter (\<lambda>(a, c). arm_ready s c) arms) @
     (case timeout of None \<Rightarrow> [] | Some (a, deadline) \<Rightarrow> if deadline \<le> st_clock s then [a] else [])"

definition commit_arm :: "task_id \<Rightarrow> nat \<Rightarrow> chan_id \<Rightarrow> 'c sched \<Rightarrow> (nat \<times> 'c val option) \<times> 'c sched" where
  "commit_arm me a c s =
     (if ch_buf (chan_at s c) = [] \<and> ch_senders (chan_at s c) = [] then ((a, Some closed_error), s)
      else let ((v, vc), s1) = take_message c s;
               s2 = upd_chan c (\<lambda>e. e\<lparr>ch_recvs := ch_recvs e + 1\<rparr>) s1
           in ((a, Some v), hb_edge vc me s2))"

definition register_select :: "task_id \<Rightarrow> (nat \<times> chan_id) list \<Rightarrow> (nat \<times> nat) option \<Rightarrow> 'c sched \<Rightarrow> 'c sched" where
  "register_select me arms timeout s =
     (let s1 = fold (\<lambda>(a, c). upd_chan c (\<lambda>e. e\<lparr>ch_selecters := ch_selecters e @ [(me, a)]\<rparr>)) arms s in
      case timeout of
        None \<Rightarrow> s1
      | Some (a, deadline) \<Rightarrow>
          s1\<lparr>st_timer_seq := st_timer_seq s1 + 1,
             st_timers := st_timers s1 @ [\<lparr>tm_deadline = deadline, tm_seq = st_timer_seq s1, tm_task = me, tm_arm = a\<rparr>]\<rparr>)"

definition select :: "task_id \<Rightarrow> (nat \<times> chan_id) list \<Rightarrow> (nat \<times> nat) option \<Rightarrow> 'c sched
    \<Rightarrow> ((nat \<times> 'c val option) + 'c resolved) outcome \<times> 'c sched" where
  "select me arms timeout s =
     (if tc_killed (task_at s me) then (Completes (Inr RsKilled), s)
      else if tc_cancelled (task_at s me) then (Completes (Inr (RsErr cancelled_error)), s)
      else let s1 = fold (\<lambda>(a, c). sched_op me (OkChan c) True) arms (sched_op me (OkTaskCtl me) False s);
               ready = ready_arms arms timeout s1
           in if ready \<noteq> [] then
                let (pick, s2) = decide DkArm ready s1; a = ready ! pick in
                if map_option fst timeout = Some a then (Completes (Inl (a, None)), s2)
                else (case find (\<lambda>(b, c). b = a) arms of
                        None \<Rightarrow> (Panics, s2)
                      | Some (b, c) \<Rightarrow> let (r, s3) = commit_arm me a c s2 in (Completes (Inl r), s3))
              else (Parks, register_select me arms timeout s1))"

fun resolve_select :: "'c wake \<Rightarrow> ((nat \<times> 'c val option) + 'c resolved) outcome" where
  "resolve_select (WkArm a v) = Completes (Inl (a, v))"
| "resolve_select WkCancelled = Completes (Inr (RsErr cancelled_error))"
| "resolve_select WkKilled = Completes (Inr RsKilled)"
| "resolve_select (WkDeadlock roster) = Completes (Inr (RsDeadlock roster))"
| "resolve_select (WkOk v) = Panics"
| "resolve_select WkClosed = Panics"

section \<open>Mutexes\<close>

definition new_mutex :: "'c val \<Rightarrow> 'c sched \<Rightarrow> mutex_id \<times> 'c sched" where
  "new_mutex v s =
     (length (st_mutexes s), s\<lparr>st_mutexes := st_mutexes s @ [\<lparr>mx_value = v, mx_holder = None,
        mx_waiters = [], mx_vc = [], mx_acquisitions = 0\<rparr>]\<rparr>)"

definition grant :: "mutex_id \<Rightarrow> task_id \<Rightarrow> 'c sched \<Rightarrow> 'c sched" where
  "grant m t s =
     (let s1 = upd_mutex m (\<lambda>e. e\<lparr>mx_holder := Some t, mx_acquisitions := mx_acquisitions e + 1\<rparr>) s
      in hb_edge (mx_vc (mutex_at s1 m)) t s1)"

definition acquire :: "task_id \<Rightarrow> mutex_id \<Rightarrow> 'c sched \<Rightarrow> 'c resolved outcome \<times> 'c sched" where
  "acquire me m s =
     (if tc_killed (task_at s me) then (Completes RsKilled, s)
      else if tc_cancelled (task_at s me) then (Completes (RsErr cancelled_error), s)
      else let s1 = sched_op me (OkMutex m) True (sched_op me (OkTaskCtl me) False s) in
        if mx_holder (mutex_at s1 m) = None
        then let s2 = grant m me s1 in (Completes (RsValue (mx_value (mutex_at s2 m))), s2)
        else (Parks, upd_mutex m (\<lambda>e. e\<lparr>mx_waiters := mx_waiters e @ [me]\<rparr>) s1))"

fun resolve_mutex :: "'c wake \<Rightarrow> 'c resolved outcome" where
  "resolve_mutex (WkOk v) = Completes (RsValue v)"
| "resolve_mutex WkCancelled = Completes (RsErr cancelled_error)"
| "resolve_mutex WkKilled = Completes RsKilled"
| "resolve_mutex (WkDeadlock roster) = Completes (RsDeadlock roster)"
| "resolve_mutex WkClosed = Panics"
| "resolve_mutex (WkArm a v) = Panics"

definition release_mutex :: "task_id \<Rightarrow> mutex_id \<Rightarrow> 'c val \<Rightarrow> 'c sched \<Rightarrow> 'c sched" where
  "release_mutex me m v s =
     (let s1 = upd_mutex m (\<lambda>e. e\<lparr>mx_value := v, mx_holder := None\<rparr>) (sched_op me (OkMutex m) True s);
          s2 = tick me (upd_mutex m (\<lambda>e. e\<lparr>mx_vc := merge_vc (mx_vc e) (tc_vc (task_at s1 me))\<rparr>) s1)
      in case mx_waiters (mutex_at s2 m) of
           [] \<Rightarrow> s2
         | t # _ \<Rightarrow>
             let s3 = grant m t (upd_mutex m (\<lambda>e. e\<lparr>mx_waiters := tl (mx_waiters e)\<rparr>) s2)
             in make_ready t (WkOk (mx_value (mutex_at s3 m))) s3)"

section \<open>Timers, sleeps and the scheduling loop\<close>

record env =
  en_read :: "nat \<Rightarrow> nat"
  en_sleep :: "nat \<Rightarrow> nat \<Rightarrow> nat"

definition promote_due_sleeps :: "env \<Rightarrow> 'c sched \<Rightarrow> 'c sched" where
  "promote_due_sleeps e s =
     (if st_real_sleeps s = [] then s
      else let now = en_read e (st_wall s);
               due = sort_key rs_seq (filter (\<lambda>x. rs_due x \<le> now) (st_real_sleeps s));
               s1 = s\<lparr>st_wall := now, st_real_sleeps := filter (\<lambda>x. \<not> rs_due x \<le> now) (st_real_sleeps s)\<rparr>
           in fold (\<lambda>x r. if tc_state (task_at r (rs_task x)) = TsBlocked
                          then make_ready (rs_task x) (WkOk VUnit) r else r) due s1)"

definition fire_timer :: "timer \<Rightarrow> 'c sched \<Rightarrow> 'c sched" where
  "fire_timer x s =
     (if tc_state (task_at s (tm_task x)) = TsBlocked
      then make_ready (tm_task x) (WkArm (tm_arm x) None) (deregister (tm_task x) s) else s)"

text \<open>\<open>sort_by_key(|t| (t.deadline, t.seq))\<close> as two stable sorts.\<close>

definition advance_clock :: "'c sched \<Rightarrow> bool \<times> 'c sched" where
  "advance_clock s =
     (if st_timers s = [] then (False, s)
      else let earliest = Min (set (map tm_deadline (st_timers s)));
               clock = max (st_clock s) earliest;
               due = sort_key tm_deadline (sort_key tm_seq (filter (\<lambda>x. tm_deadline x \<le> clock) (st_timers s)));
               s1 = s\<lparr>st_clock := clock, st_timers := filter (\<lambda>x. \<not> tm_deadline x \<le> clock) (st_timers s)\<rparr>
           in (due \<noteq> [], fold fire_timer due s1))"

definition remove_at :: "nat \<Rightarrow> 'a list \<Rightarrow> 'a list" where
  "remove_at i xs = take i xs @ drop (Suc i) xs"

definition pick_ready :: "'c sched \<Rightarrow> task_id \<times> 'c sched" where
  "pick_ready s =
     (let leak = (case st_chooser s of Planned pl \<Rightarrow> pl_leak pl \<and> 1 < length (st_ready s) | _ \<Rightarrow> False);
          q = (if leak then rotate1 (st_ready s) else st_ready s);
          (i, s1) = decide DkTask q (s\<lparr>st_ready := q\<rparr>)
      in (q ! i, s1\<lparr>st_ready := remove_at i q\<rparr>))"

text \<open>Every round returns, fires a timer, or sleeps until a sleep is due, so \<open>choose_next\<close> gives the loop
  one round per timer, two per sleep and one to pick; theory SchedBaton shows that the rounds never run
  out when nobody runs, and that two are always enough.\<close>

fun choose_loop :: "env \<Rightarrow> nat \<Rightarrow> 'c sched \<Rightarrow> task_id option \<times> 'c sched" where
  "choose_loop e 0 s = (None, s)"
| "choose_loop e (Suc fuel) s =
     (let s1 = promote_due_sleeps e s in
      if st_ready s1 \<noteq> [] then (let (t, s2) = pick_ready s1 in (Some t, s2))
      else case advance_clock s1 of
             (True, s2) \<Rightarrow> choose_loop e fuel s2
           | (False, s2) \<Rightarrow>
               if st_real_sleeps s2 = [] then (None, s2)
               else let earliest = Min (set (map rs_due (st_real_sleeps s2))); now = en_read e (st_wall s2)
                    in choose_loop e fuel
                         (s2\<lparr>st_wall := (if now < earliest then en_sleep e now earliest else now)\<rparr>))"

definition choose_next :: "env \<Rightarrow> 'c sched \<Rightarrow> task_id option \<times> 'c sched" where
  "choose_next e s = choose_loop e (length (st_timers s) + 2 * length (st_real_sleeps s) + 1) s"

definition blocked_roster :: "'c sched \<Rightarrow> task_id list" where
  "blocked_roster s = indices_where (\<lambda>t. tc_state t = TsBlocked) (st_tasks s)"

definition declare_deadlock :: "'c sched \<Rightarrow> 'c sched" where
  "declare_deadlock s =
     (let roster = blocked_roster s
      in fold (\<lambda>t r. make_ready t (WkDeadlock roster) (deregister t r)) roster (s\<lparr>st_deadlocked := True\<rparr>))"

definition set_running :: "task_id \<Rightarrow> 'c sched \<Rightarrow> 'c sched" where
  "set_running t s = upd_task t (\<lambda>e. e\<lparr>tc_state := TsRunning\<rparr>) s"

text \<open>The part of \<open>park\<close> before the gate, and the resumption after it.\<close>

definition park :: "env \<Rightarrow> task_id \<Rightarrow> 'c sched \<Rightarrow> 'c sched" where
  "park e me s =
     (let s1 = (if tc_wake (task_at s me) = None then upd_task me (\<lambda>x. x\<lparr>tc_state := TsBlocked\<rparr>) s
                else (upd_task me (\<lambda>x. x\<lparr>tc_state := TsReady\<rparr>) s)\<lparr>st_ready := st_ready s @ [me]\<rparr>);
          (n, s2) = (case choose_next e s1 of
                       (Some t, s2) \<Rightarrow> (Some t, s2)
                     | (None, s2) \<Rightarrow> choose_next e (declare_deadlock s2))
      in case n of None \<Rightarrow> s2 | Some t \<Rightarrow> set_running t s2)"

definition resume :: "task_id \<Rightarrow> 'c sched \<Rightarrow> 'c wake option \<times> 'c sched" where
  "resume me s = (tc_wake (task_at s me), take_wake me (set_running me s))"

definition net_yield :: "env \<Rightarrow> task_id \<Rightarrow> 'c sched \<Rightarrow> 'c sched" where
  "net_yield e me s =
     park e me (if tc_wake (task_at s me) = None
                then upd_task me (\<lambda>x. x\<lparr>tc_wake := Some (WkOk VUnit)\<rparr>) s else s)"

definition sleep_park :: "env \<Rightarrow> task_id \<Rightarrow> nat \<Rightarrow> 'c sched \<Rightarrow> 'c sched" where
  "sleep_park e me ms s =
     (let now = en_read e (st_wall s) in
      park e me (s\<lparr>st_wall := now, st_sleep_seq := st_sleep_seq s + 1,
        st_real_sleeps := st_real_sleeps s @
          [\<lparr>rs_due = now + ms * 1000000, rs_seq = st_sleep_seq s, rs_task = me\<rparr>]\<rparr>))"

definition dispatch_next :: "env \<Rightarrow> 'c sched \<Rightarrow> 'c sched" where
  "dispatch_next e s =
     (if st_shutdown s then s
      else case choose_next e s of
             (Some t, s1) \<Rightarrow> set_running t s1
           | (None, s1) \<Rightarrow>
               if \<exists>x \<in> set (st_tasks s1). tc_state x = TsBlocked then
                 (case choose_next e (declare_deadlock s1) of
                    (Some t, s2) \<Rightarrow> set_running t s2
                  | (None, s2) \<Rightarrow> s2)
               else s1)"

end
