(* ===== verification/SchedTask.thy ===== *)
theory SchedTask
  imports SchedChan
begin

text \<open>
  Tasks, scopes and procs of the sim scheduler: spawn, cancellation, kill, exits with their links and
  monitors, the scope join, the end of a task, and the race detector. The recursions of \<open>cancel_task\<close> and
  \<open>kill_proc\<close> run along scopes and links and stop at a task or proc that is already marked; they get one
  level of recursion per task, or proc, and one more.
\<close>

section \<open>Creation\<close>

definition fresh_tcb :: "proc_id \<Rightarrow> scope_id option \<Rightarrow> vclock \<Rightarrow> 'c tcb" where
  "fresh_tcb p sc vc = \<lparr>tc_state = TsFresh, tc_proc = p, tc_scope = sc, tc_cancelled = False,
     tc_killed = False, tc_wake = None, tc_open_stack = [], tc_vc = vc, tc_outcome = None\<rparr>"

definition sched_with :: "chooser \<Rightarrow> 'c sched" where
  "sched_with ch =
     \<lparr>st_tasks = [(fresh_tcb 0 None [1])\<lparr>tc_state := TsRunning\<rparr>], st_ready = [], st_scopes = [],
      st_chans = [], st_mutexes = [],
      st_procs = [\<lparr>pr_root = 0, pr_region = None, pr_monitors = [], pr_links = [], pr_exited = None\<rparr>],
      st_timers = [], st_timer_seq = 0, st_real_sleeps = [], st_sleep_seq = 0, st_clock = 0, st_wall = 0,
      st_chooser = ch, st_decisions = [], st_ops = [], st_cur_slice = None, st_divergence = None,
      st_deadlocked = False, st_stdout_len = 0, st_stdout_fnv = 0xcbf29ce484222325, st_pending = [],
      st_accesses = (\<lambda>_. []), st_atomic_accesses = (\<lambda>_. []), st_atomic_clocks = (\<lambda>_. []),
      st_concurrent = False, st_shutdown = False\<rparr>"

definition sched_new :: "64 word \<Rightarrow> 'c sched" where
  "sched_new seed = sched_with (Seeded seed (seed OR 1))"

definition sched_packed :: "64 word \<Rightarrow> 'c sched" where
  "sched_packed seed = sched_with (Packed (seed AND PACKED_SEED_MASK))"

definition sched_planned :: "plan_rec \<Rightarrow> 'c sched" where
  "sched_planned pl = sched_with (Planned pl)"

definition reseed :: "64 word \<Rightarrow> 'c sched \<Rightarrow> 'c sched" where
  "reseed seed s = s\<lparr>st_chooser := Seeded seed (seed OR 1)\<rparr>"

definition stdout_mark :: "8 word list \<Rightarrow> 'c sched \<Rightarrow> 'c sched" where
  "stdout_mark bytes s =
     s\<lparr>st_stdout_len := st_stdout_len s + length bytes,
       st_stdout_fnv := fold (\<lambda>b h. (h XOR ucast b) * 0x100000001b3) bytes (st_stdout_fnv s)\<rparr>"

definition fnv128 :: "8 word list \<Rightarrow> 128 word" where
  "fnv128 bytes =
     fold (\<lambda>b h. (h XOR ucast b) * 0x0000000001000000000000000000013b) bytes
       0x6c62272e07bb014262b821756295c58d"

definition save_stack :: "task_id \<Rightarrow> region_id list \<Rightarrow> 'c sched \<Rightarrow> 'c sched" where
  "save_stack t stack s = upd_task t (\<lambda>e. e\<lparr>tc_open_stack := stack\<rparr>) s"

definition restore_stack :: "task_id \<Rightarrow> 'c sched \<Rightarrow> region_id list \<times> 'c sched" where
  "restore_stack t s = (tc_open_stack (task_at s t), save_stack t [] s)"

definition open_scope :: "task_id \<Rightarrow> 'c sched \<Rightarrow> scope_id \<times> 'c sched" where
  "open_scope owner s =
     (length (st_scopes s), s\<lparr>st_scopes := st_scopes s @
        [\<lparr>sc_owner = owner, sc_children = [], sc_joining = False, sc_failures = []\<rparr>]\<rparr>)"

definition spawn_task :: "task_id \<Rightarrow> scope_id option \<Rightarrow> proc_id \<Rightarrow> 'c sched \<Rightarrow> task_id \<times> 'c sched" where
  "spawn_task parent sc p s =
     (let i = length (st_tasks s);
          vc = tc_vc (task_at s parent);
          s1 = tick parent s;
          s2 = tick i (s1\<lparr>st_tasks := st_tasks s1 @ [fresh_tcb p sc vc]\<rparr>);
          s3 = s2\<lparr>st_concurrent := True\<rparr>;
          s4 = (case sc of None \<Rightarrow> s3 | Some k \<Rightarrow> upd_scope k (\<lambda>e. e\<lparr>sc_children := sc_children e @ [i]\<rparr>) s3)
      in (i, upd_task i (\<lambda>e. e\<lparr>tc_state := TsReady, tc_wake := Some (WkOk VUnit)\<rparr>)
              (s4\<lparr>st_ready := st_ready s4 @ [i]\<rparr>)))"

definition first_schedule :: "task_id \<Rightarrow> 'c sched \<Rightarrow> bool \<times> 'c sched" where
  "first_schedule me s =
     (let (w, s1) = resume me s in (w \<noteq> Some WkKilled \<and> \<not> tc_killed (task_at s1 me), s1))"

section \<open>Cancellation\<close>

definition mark_cancelled :: "task_id \<Rightarrow> 'c sched \<Rightarrow> 'c sched" where
  "mark_cancelled t s =
     (let s1 = upd_task t (\<lambda>e. e\<lparr>tc_cancelled := True\<rparr>) s in
      if tc_state (task_at s t) = TsBlocked then make_ready t WkCancelled (deregister t s1) else s1)"

definition owned_children :: "task_id \<Rightarrow> 'c sched \<Rightarrow> task_id list" where
  "owned_children t s = concat (map sc_children (filter (\<lambda>e. sc_owner e = t) (st_scopes s)))"

definition cancel_door :: "task_id \<Rightarrow> 'c sched \<Rightarrow> 'c sched" where
  "cancel_door t s =
     (if tc_state (task_at s t) \<noteq> TsDone then sched_op (actor s) (OkTaskCtl t) True s else s)"

definition uncancellable :: "task_id \<Rightarrow> 'c sched \<Rightarrow> bool" where
  "uncancellable t s \<longleftrightarrow>
     tc_state (task_at s t) = TsDone \<or> tc_cancelled (task_at s t) \<or> tc_killed (task_at s t)"

fun cancel_walk :: "nat \<Rightarrow> task_id \<Rightarrow> 'c sched \<Rightarrow> 'c sched" where
  "cancel_walk 0 t s = s"
| "cancel_walk (Suc n) t s =
     (let s1 = cancel_door t s in
      if uncancellable t s1 then s1
      else let s2 = mark_cancelled t s1 in fold (cancel_walk n) (owned_children t s2) s2)"

definition cancel_task :: "task_id \<Rightarrow> 'c sched \<Rightarrow> 'c sched" where
  "cancel_task t s = cancel_walk (Suc (length (st_tasks s))) t s"

definition cancel_scope :: "scope_id \<Rightarrow> 'c sched \<Rightarrow> 'c sched" where
  "cancel_scope i s = fold cancel_task (sc_children (scope_at s i)) s"

section \<open>Exits, links and kills\<close>

fun collect_regions :: "('l \<Rightarrow> 'c sched \<Rightarrow> region_id list \<times> 'c sched) \<Rightarrow> 'l list \<Rightarrow> 'c sched
    \<Rightarrow> region_id list \<times> 'c sched" where
  "collect_regions f [] s = ([], s)"
| "collect_regions f (x # xs) s =
     (let (rs, s1) = f x s; (rs', s2) = collect_regions f xs s1 in (rs @ rs', s2))"

definition record_exit :: "proc_id \<Rightarrow> 'c exit_reason \<Rightarrow> 'c sched \<Rightarrow> 'c sched" where
  "record_exit p reason s =
     (let s1 = upd_proc p (\<lambda>e. e\<lparr>pr_exited := Some reason\<rparr>) (sched_op (actor s) (OkProc p) True s) in
      s1\<lparr>st_pending := st_pending s1 @
        [\<lparr>pe_proc = p, pe_message = exit_message reason, pe_vc = tc_vc (task_at s1 (pr_root (proc_at s1 p))),
          pe_monitors = pr_monitors (proc_at s1 p)\<rparr>]\<rparr>)"

definition is_normal :: "'c exit_reason \<Rightarrow> bool" where
  "is_normal r \<longleftrightarrow> (case r of ExNormal v \<Rightarrow> True | _ \<Rightarrow> False)"

text \<open>\<open>deliver_exit\<close> with the function that kills a linked proc as its argument.\<close>

definition deliver_exit_by :: "(proc_id \<Rightarrow> 'c sched \<Rightarrow> region_id list \<times> 'c sched) \<Rightarrow> proc_id
    \<Rightarrow> 'c exit_reason \<Rightarrow> 'c sched \<Rightarrow> region_id list \<times> 'c sched" where
  "deliver_exit_by kill p reason s =
     (if pr_exited (proc_at s p) \<noteq> None then ([], s)
      else let s1 = record_exit p reason s;
               own = (case pr_region (proc_at s1 p) of None \<Rightarrow> [] | Some r \<Rightarrow> [r])
           in if is_normal reason then (own, s1)
              else let (rs, s2) = collect_regions kill (pr_links (proc_at s1 p)) s1 in (own @ rs, s2))"

definition kill_member :: "task_id \<Rightarrow> task_id \<Rightarrow> 'c sched \<Rightarrow> 'c sched" where
  "kill_member act t s =
     (let s1 = upd_task t (\<lambda>e. e\<lparr>tc_killed := True\<rparr>) (sched_op act (OkTaskCtl t) True s) in
      case tc_state (task_at s1 t) of
        TsBlocked \<Rightarrow> make_ready t WkKilled (deregister t s1)
      | TsReady \<Rightarrow> upd_task t (\<lambda>e. e\<lparr>tc_wake := Some WkKilled\<rparr>) (deregister t s1)
      | TsFresh \<Rightarrow> upd_task t (\<lambda>e. e\<lparr>tc_wake := Some WkKilled\<rparr>) (deregister t s1)
      | _ \<Rightarrow> s1)"

definition live_members :: "proc_id \<Rightarrow> 'c sched \<Rightarrow> task_id list" where
  "live_members p s = indices_where (\<lambda>t. tc_proc t = p \<and> tc_state t \<noteq> TsDone) (st_tasks s)"

definition kill_members :: "proc_id \<Rightarrow> 'c sched \<Rightarrow> 'c sched" where
  "kill_members p s =
     (let s1 = sched_op (actor s) (OkProc p) True s in fold (kill_member (actor s)) (live_members p s1) s1)"

fun kill_walk :: "nat \<Rightarrow> proc_id \<Rightarrow> 'c sched \<Rightarrow> region_id list \<times> 'c sched" where
  "kill_walk 0 p s = ([], s)"
| "kill_walk (Suc n) p s =
     (if pr_exited (proc_at s p) \<noteq> None then ([], s)
      else deliver_exit_by (kill_walk n) p ExKilled (kill_members p s))"

definition kill_proc :: "proc_id \<Rightarrow> 'c sched \<Rightarrow> region_id list \<times> 'c sched" where
  "kill_proc p s = kill_walk (Suc (length (st_procs s))) p s"

definition deliver_exit :: "proc_id \<Rightarrow> 'c exit_reason \<Rightarrow> 'c sched \<Rightarrow> region_id list \<times> 'c sched" where
  "deliver_exit p reason s = deliver_exit_by kill_proc p reason s"

definition publish_one :: "task_id \<Rightarrow> 'c pending_exit \<Rightarrow> chan_id \<Rightarrow> 'c sched \<Rightarrow> 'c sched" where
  "publish_one act x c s =
     settle_chan c (upd_chan c (\<lambda>e. e\<lparr>ch_buf := ch_buf e @ [(pe_message x, pe_vc x)], ch_sends := ch_sends e + 1\<rparr>)
       (sched_op act (OkChan c) True s))"

definition publish_pending :: "'c sched \<Rightarrow> 'c sched" where
  "publish_pending s =
     fold (\<lambda>x. fold (publish_one (actor s) x) (pe_monitors x)) (st_pending s) (s\<lparr>st_pending := []\<rparr>)"

definition spawn_proc :: "task_id \<Rightarrow> region_id \<Rightarrow> 'c sched \<Rightarrow> (proc_id \<times> task_id) \<times> 'c sched" where
  "spawn_proc parent region s =
     (let p = length (st_procs s);
          s1 = sched_op parent (OkProc p) True (s\<lparr>st_procs := st_procs s @
                 [\<lparr>pr_root = 0, pr_region = Some region, pr_monitors = [], pr_links = [], pr_exited = None\<rparr>]\<rparr>);
          (root, s2) = spawn_task parent None p s1
      in ((p, root), upd_proc p (\<lambda>e. e\<lparr>pr_root := root\<rparr>) s2))"

definition monitor :: "proc_id \<Rightarrow> 'c sched \<Rightarrow> chan_id \<times> 'c sched" where
  "monitor p s =
     (let (c, s1) = new_chan u64_max s;
          s2 = upd_proc p (\<lambda>e. e\<lparr>pr_monitors := pr_monitors e @ [c]\<rparr>) (sched_op (actor s1) (OkProc p) True s1)
      in (c, case pr_exited (proc_at s2 p) of
               None \<Rightarrow> s2
             | Some reason \<Rightarrow>
                 upd_chan c (\<lambda>e. e\<lparr>ch_buf := ch_buf e @ [(exit_message reason, tc_vc (task_at s2 (pr_root (proc_at s2 p))))],
                   ch_sends := ch_sends e + 1\<rparr>) s2))"

definition add_link :: "proc_id \<Rightarrow> 'c proc \<Rightarrow> 'c proc" where
  "add_link b e = (if b \<in> set (pr_links e) then e else e\<lparr>pr_links := pr_links e @ [b]\<rparr>)"

definition link_procs :: "proc_id \<Rightarrow> proc_id \<Rightarrow> 'c sched \<Rightarrow> 'c sched" where
  "link_procs a b s =
     (let s1 = sched_op (actor s) (OkProc b) True (sched_op (actor s) (OkProc a) True s)
      in upd_proc b (add_link a) (upd_proc a (add_link b) s1))"

definition cancel_proc :: "proc_id \<Rightarrow> 'c sched \<Rightarrow> 'c sched" where
  "cancel_proc p s =
     (let s1 = sched_op (actor s) (OkProc p) True s in fold cancel_task (live_members p s1) s1)"

section \<open>The join and the end of a task\<close>

definition all_done :: "task_id list \<Rightarrow> 'c sched \<Rightarrow> bool" where
  "all_done ts s \<longleftrightarrow> (\<forall>t \<in> set ts. tc_state (task_at s t) = TsDone)"

definition join_scope :: "task_id \<Rightarrow> scope_id \<Rightarrow> 'c sched
    \<Rightarrow> ('c task_end list + 'c resolved) outcome \<times> 'c sched" where
  "join_scope me i s =
     (let s1 = sched_op me (OkScope i) False s; children = sc_children (scope_at s1 i) in
      if all_done children s1 then
        (Completes (Inl (sc_failures (scope_at s1 i))),
         fold (\<lambda>t r. hb_edge (tc_vc (task_at r t)) me r) children
           (upd_scope i (\<lambda>e. e\<lparr>sc_joining := False\<rparr>) s1))
      else (Parks, upd_scope i (\<lambda>e. e\<lparr>sc_joining := True\<rparr>) s1))"

text \<open>After the park: the join is taken again, or it ends without its children.\<close>

definition rejoin :: "task_id \<Rightarrow> scope_id \<Rightarrow> 'c wake \<Rightarrow> 'c sched
    \<Rightarrow> ('c task_end list + 'c resolved) outcome \<times> 'c sched" where
  "rejoin me i w s =
     (case w of
        WkOk v \<Rightarrow> join_scope me i s
      | WkCancelled \<Rightarrow> join_scope me i s
      | WkKilled \<Rightarrow> (Completes (Inr RsKilled), s)
      | WkDeadlock roster \<Rightarrow> (Completes (Inr (RsDeadlock roster)), s)
      | WkClosed \<Rightarrow> (Panics, s)
      | WkArm a v \<Rightarrow> (Panics, s))"

definition ended_as :: "bool \<Rightarrow> bool \<Rightarrow> 'c task_end \<Rightarrow> 'c task_end" where
  "ended_as killed cancelled e =
     (case e of
        TeError v \<Rightarrow> if killed then TeKilled else if cancelled then TeCancelled else e
      | TeValue v \<Rightarrow> if killed then TeKilled else e
      | _ \<Rightarrow> e)"

definition failing :: "'c task_end \<Rightarrow> bool" where
  "failing e \<longleftrightarrow> (case e of TeError _ \<Rightarrow> True | TeTrapped _ \<Rightarrow> True | TeUb _ \<Rightarrow> True | TeUnsupported _ \<Rightarrow> True | _ \<Rightarrow> False)"

definition exit_of :: "'c task_end \<Rightarrow> 'c exit_reason" where
  "exit_of e =
     (case e of
        TeValue v \<Rightarrow> ExNormal v
      | TeError v \<Rightarrow> ExError v
      | TeTrapped k \<Rightarrow> ExFault k
      | TeUb f \<Rightarrow> ExError (VError ''ub'' [VStr (str_new ''mem.ub'')] False [])
      | TeUnsupported r \<Rightarrow> ExError (VError ''unsupported'' [VStr (str_new r)] False [])
      | TeCancelled \<Rightarrow> ExCancelled
      | TeKilled \<Rightarrow> ExKilled)"

definition fail_scope :: "task_id \<Rightarrow> scope_id \<Rightarrow> 'c task_end \<Rightarrow> 'c sched \<Rightarrow> 'c sched" where
  "fail_scope me i e s =
     (let s1 = upd_scope i (\<lambda>x. x\<lparr>sc_failures := sc_failures x @ [e]\<rparr>) s;
          s2 = fold cancel_task (filter (\<lambda>t. t \<noteq> me) (sc_children (scope_at s1 i))) s1;
          owner = sc_owner (scope_at s2 i)
      in if \<not> sc_joining (scope_at s2 i) \<and> tc_state (task_at s2 owner) = TsBlocked
         then cancel_task owner s2 else s2)"

definition settle_scope :: "task_id \<Rightarrow> scope_id \<Rightarrow> 'c task_end \<Rightarrow> 'c sched \<Rightarrow> 'c sched" where
  "settle_scope me i e s =
     (let s1 = (if failing e then fail_scope me i e s else s);
          owner = sc_owner (scope_at s1 i)
      in if sc_joining (scope_at s1 i) \<and> all_done (sc_children (scope_at s1 i)) s1 \<and>
            tc_state (task_at s1 owner) = TsBlocked
         then make_ready owner (WkOk VUnit) s1 else s1)"

definition end_task :: "task_id \<Rightarrow> 'c task_end \<Rightarrow> 'c sched \<Rightarrow> region_id list \<times> 'c sched" where
  "end_task me e0 s =
     (let s1 = sched_op me (OkTaskCtl me) False s;
          e = ended_as (tc_killed (task_at s1 me)) (tc_cancelled (task_at s1 me)) e0;
          s2 = upd_task me (\<lambda>x. x\<lparr>tc_state := TsDone, tc_outcome := Some e\<rparr>) s1;
          s3 = (case tc_scope (task_at s2 me) of
                  None \<Rightarrow> s2
                | Some i \<Rightarrow> settle_scope me i e (sched_op me (OkScope i) (failing e) s2));
          p = tc_proc (task_at s3 me)
      in if pr_root (proc_at s3 p) = me \<and> p \<noteq> 0 then deliver_exit p (exit_of e) s3 else ([], s3))"

text \<open>One round of \<open>shutdown\<close>: the first live task but main, its proc killed, made to unwind.\<close>

definition shutdown_step :: "'c sched \<Rightarrow> (task_id \<times> region_id list \<times> 'c sched) option" where
  "shutdown_step s =
     (case filter (\<lambda>i. i \<noteq> 0) (indices_where (\<lambda>t. tc_state t \<noteq> TsDone) (st_tasks s)) of
        [] \<Rightarrow> None
      | i # _ \<Rightarrow>
          let s0 = s\<lparr>st_shutdown := True\<rparr>; p = tc_proc (task_at s0 i);
              (rs, s1) = (if p \<noteq> 0 \<and> pr_exited (proc_at s0 p) = None then kill_proc p s0 else ([], s0));
              s2 = upd_task i (\<lambda>x. x\<lparr>tc_killed := True,
                     tc_wake := (case tc_wake x of None \<Rightarrow> Some WkKilled | w \<Rightarrow> w),
                     tc_state := TsRunning\<rparr>) s1
          in Some (i, rs, s2\<lparr>st_ready := filter (\<lambda>t. t \<noteq> i) (st_ready s2)\<rparr>))"

section \<open>The race detector\<close>

definition unordered_conflict :: "access_rec list \<Rightarrow> task_id \<Rightarrow> vclock \<Rightarrow> nat \<Rightarrow> nat \<Rightarrow> bool
    \<Rightarrow> (task_id \<times> bool) option" where
  "unordered_conflict history me vc lo hi w =
     map_option (\<lambda>x. (ac_task x, ac_write x))
       (find (\<lambda>x. ac_task x \<noteq> me \<and> (ac_write x \<or> w) \<and> ac_lo x < hi \<and> lo < ac_hi x \<and>
                  (case get_at vc (ac_task x) of None \<Rightarrow> 0 | Some n \<Rightarrow> n) < ac_tick x) history)"

definition own_tick :: "task_id \<Rightarrow> vclock \<Rightarrow> nat" where
  "own_tick t vc = (case get_at vc t of None \<Rightarrow> 0 | Some n \<Rightarrow> n)"

definition race_check :: "task_id \<Rightarrow> race_key \<Rightarrow> nat \<Rightarrow> nat \<Rightarrow> bool \<Rightarrow> 'c sched
    \<Rightarrow> (task_id \<times> bool) option \<times> 'c sched" where
  "race_check me key lo hi w s =
     (if \<not> st_concurrent s then (None, s)
      else let s1 = sched_op me (OkMem key) w s; vc = tc_vc (task_at s1 me);
               found = (case unordered_conflict (st_accesses s1 key) me vc lo hi w of
                          Some x \<Rightarrow> Some x
                        | None \<Rightarrow> unordered_conflict (st_atomic_accesses s1 key) me vc lo hi w)
           in case found of
                Some x \<Rightarrow> (Some x, s1)
              | None \<Rightarrow> (None, s1\<lparr>st_accesses := (st_accesses s1)(key := st_accesses s1 key @
                   [\<lparr>ac_task = me, ac_tick = own_tick me vc, ac_lo = lo, ac_hi = hi, ac_write = w\<rparr>])\<rparr>))"

definition same_word :: "access_rec \<Rightarrow> access_rec \<Rightarrow> bool" where
  "same_word x y \<longleftrightarrow> ac_task x = ac_task y \<and> ac_lo x = ac_lo y \<and> ac_hi x = ac_hi y \<and> ac_write x = ac_write y"

definition remember_atomic :: "access_rec \<Rightarrow> access_rec list \<Rightarrow> access_rec list" where
  "remember_atomic x hist =
     (case position (same_word x) hist of
        Some i \<Rightarrow> modify_at i (\<lambda>y. y\<lparr>ac_tick := ac_tick x\<rparr>) hist
      | None \<Rightarrow> hist @ [x])"

definition atomic_access :: "task_id \<Rightarrow> race_key \<Rightarrow> nat \<Rightarrow> nat \<Rightarrow> bool \<Rightarrow> 'c sched
    \<Rightarrow> (task_id \<times> bool) option \<times> 'c sched" where
  "atomic_access me key lo hi w s =
     (if \<not> st_concurrent s then (None, s)
      else let s1 = upd_task me (\<lambda>e. e\<lparr>tc_vc := merge_vc (tc_vc e) (st_atomic_clocks s (key, lo))\<rparr>)
                      (sched_op me (OkMem key) w s);
               vc = tc_vc (task_at s1 me)
           in case unordered_conflict (st_accesses s1 key) me vc lo hi w of
                Some x \<Rightarrow> (Some x, s1)
              | None \<Rightarrow>
                  let x = \<lparr>ac_task = me, ac_tick = own_tick me vc, ac_lo = lo, ac_hi = hi, ac_write = w\<rparr>;
                      s2 = s1\<lparr>st_atomic_accesses := (st_atomic_accesses s1)(key := remember_atomic x (st_atomic_accesses s1 key)),
                              st_atomic_clocks := (st_atomic_clocks s1)((key, lo) := merge_vc (st_atomic_clocks s1 (key, lo)) vc)\<rparr>
                  in (None, tick me s2))"

end
