(* ===== verification/SchedInv.thy ===== *)
theory SchedInv
  imports SchedTask
begin

text \<open>
  The invariant of the scheduler and what keeps it: which tasks are registered with a waiter list, what
  the ready queue holds, and how a wake moves a task from the one to the other. Every operation is a
  sequence of three kinds of steps: one that leaves tasks, queue and registrations alone, one that
  removes registrations, and a wake of a task that is registered nowhere.
\<close>

section \<open>Registrations\<close>

text \<open>How often a task waits as a sender, receiver, for a mutex or asleep; and whether a \<open>select\<close> of it is
  registered, on a channel or with a timer.\<close>

definition chan_count :: "task_id \<Rightarrow> 'c chan \<Rightarrow> nat" where
  "chan_count t c = count_list (ch_receivers c) t + count_list (map fst (ch_senders c)) t"

definition excl_count :: "task_id \<Rightarrow> 'c sched \<Rightarrow> nat" where
  "excl_count t s = (\<Sum>c \<leftarrow> st_chans s. chan_count t c) + (\<Sum>m \<leftarrow> st_mutexes s. count_list (mx_waiters m) t)
     + count_list (map rs_task (st_real_sleeps s)) t"

definition selecting :: "task_id \<Rightarrow> 'c sched \<Rightarrow> bool" where
  "selecting t s \<longleftrightarrow> (\<exists>c \<in> set (st_chans s). t \<in> fst ` set (ch_selecters c)) \<or> t \<in> tm_task ` set (st_timers s)"

definition registered :: "task_id \<Rightarrow> 'c sched \<Rightarrow> bool" where
  "registered t s \<longleftrightarrow> 0 < excl_count t s \<or> selecting t s"

type_synonym 'c sched_view =
  "(task_state \<times> 'c wake option \<times> scope_id option) list \<times> task_id list \<times> (task_id \<times> task_id list \<times> bool) list \<times> bool"

definition view :: "'c sched \<Rightarrow> 'c sched_view" where
  "view s = (map (\<lambda>e. (tc_state e, tc_wake e, tc_scope e)) (st_tasks s), st_ready s,
     map (\<lambda>e. (sc_owner e, sc_children e, sc_joining e)) (st_scopes s), st_shutdown s)"

definition state_of_task :: "'c sched \<Rightarrow> task_id \<Rightarrow> task_state" where
  "state_of_task s t = tc_state (task_at s t)"

definition wake_of :: "'c sched \<Rightarrow> task_id \<Rightarrow> 'c wake option" where
  "wake_of s t = tc_wake (task_at s t)"

definition reg_ok :: "'c sched \<Rightarrow> bool" where
  "reg_ok s \<longleftrightarrow> (\<forall>t. excl_count t s \<le> 1 \<and> (selecting t s \<longrightarrow> excl_count t s = 0) \<and>
     (registered t s \<longrightarrow> t < length (st_tasks s) \<and> state_of_task s t \<in> {TsBlocked, TsRunning} \<and> wake_of s t = None))"

definition queue_ok :: "'c sched \<Rightarrow> bool" where
  "queue_ok s \<longleftrightarrow> distinct (st_ready s) \<and>
     (\<forall>t. t \<in> set (st_ready s) \<longleftrightarrow> t < length (st_tasks s) \<and> state_of_task s t = TsReady)"

definition wake_ok :: "'c sched \<Rightarrow> bool" where
  "wake_ok s \<longleftrightarrow> (\<forall>t < length (st_tasks s). state_of_task s t \<noteq> TsFresh \<and>
     (state_of_task s t = TsReady \<longrightarrow> wake_of s t \<noteq> None) \<and> (state_of_task s t = TsBlocked \<longrightarrow> wake_of s t = None))"

definition baton_ok :: "'c sched \<Rightarrow> bool" where
  "baton_ok s \<longleftrightarrow> (\<forall>t u. t < length (st_tasks s) \<longrightarrow> u < length (st_tasks s) \<longrightarrow>
     state_of_task s t = TsRunning \<longrightarrow> state_of_task s u = TsRunning \<longrightarrow> t = u)"

text \<open>Scopes and tasks name each other in range, and the owner of a scope that is being joined waits for
  nothing else.\<close>

definition scope_ok :: "'c sched \<Rightarrow> bool" where
  "scope_ok s \<longleftrightarrow>
     (\<forall>e \<in> set (st_scopes s). sc_owner e < length (st_tasks s) \<and> set (sc_children e) \<subseteq> {..<length (st_tasks s)} \<and>
        (sc_joining e \<longrightarrow> \<not> registered (sc_owner e) s)) \<and>
     (\<forall>e \<in> set (st_tasks s). \<forall>i. tc_scope e = Some i \<longrightarrow> i < length (st_scopes s))"

definition sched_ok :: "'c sched \<Rightarrow> bool" where
  "sched_ok s \<longleftrightarrow> reg_ok s \<and> queue_ok s \<and> wake_ok s \<and> baton_ok s \<and> scope_ok s"

section \<open>Steps that only remove registrations\<close>

definition shrinks :: "'c sched \<Rightarrow> 'c sched \<Rightarrow> bool" where
  "shrinks s s' \<longleftrightarrow> view s' = view s \<and>
     (\<forall>t. excl_count t s' \<le> excl_count t s \<and> (selecting t s' \<longrightarrow> selecting t s))"

lemma view_eq:
  assumes "view s' = view s"
  shows "length (st_tasks s') = length (st_tasks s)" and "st_ready s' = st_ready s"
    and "t < length (st_tasks s) \<Longrightarrow> state_of_task s' t = state_of_task s t"
    and "t < length (st_tasks s) \<Longrightarrow> wake_of s' t = wake_of s t"
proof -
  let ?v = "\<lambda>e :: 'a tcb. (tc_state e, tc_wake e, tc_scope e)"
  have m: "map ?v (st_tasks s') = map ?v (st_tasks s)" and "st_ready s' = st_ready s"
    using assms by (simp_all add: view_def)
  from arg_cong [OF m, of length] show l: "length (st_tasks s') = length (st_tasks s)" by simp
  show "st_ready s' = st_ready s" by fact
  assume t: "t < length (st_tasks s)"
  have "map ?v (st_tasks s') ! t = map ?v (st_tasks s) ! t" by (simp only: m)
  with t l show "state_of_task s' t = state_of_task s t" "wake_of s' t = wake_of s t"
    by (simp_all add: state_of_task_def wake_of_def)
qed

text \<open>What \<open>scope_ok\<close> reads of tasks and scopes.\<close>

lemma scope_ok_view:
  "scope_ok s \<longleftrightarrow>
     (\<forall>(ow, cs, j) \<in> set (map (\<lambda>e. (sc_owner e, sc_children e, sc_joining e)) (st_scopes s)).
        ow < length (st_tasks s) \<and> set cs \<subseteq> {..<length (st_tasks s)} \<and> (j \<longrightarrow> \<not> registered ow s)) \<and>
     (\<forall>x \<in> set (map tc_scope (st_tasks s)). \<forall>i. x = Some i \<longrightarrow> i < length (st_scopes s))"
  by (simp add: scope_ok_def)

lemma view_scopes:
  assumes "view s' = view s"
  shows "map (\<lambda>e. (sc_owner e, sc_children e, sc_joining e)) (st_scopes s') =
      map (\<lambda>e. (sc_owner e, sc_children e, sc_joining e)) (st_scopes s)"
    and "map tc_scope (st_tasks s') = map tc_scope (st_tasks s)"
    and "length (st_scopes s') = length (st_scopes s)"
proof -
  show m: "map (\<lambda>e. (sc_owner e, sc_children e, sc_joining e)) (st_scopes s') =
      map (\<lambda>e. (sc_owner e, sc_children e, sc_joining e)) (st_scopes s)"
    using assms by (simp add: view_def)
  from arg_cong [OF m, of length] show "length (st_scopes s') = length (st_scopes s)" by simp
  have "map (\<lambda>e. (tc_state e, tc_wake e, tc_scope e)) (st_tasks s') = map (\<lambda>e. (tc_state e, tc_wake e, tc_scope e)) (st_tasks s)"
    using assms by (simp add: view_def)
  from arg_cong [OF this, of "map (\<lambda>x. snd (snd x))"] show "map tc_scope (st_tasks s') = map tc_scope (st_tasks s)"
    by (simp add: comp_def)
qed

lemma scope_ok_mono:
  assumes "scope_ok s" and "map (\<lambda>e. (sc_owner e, sc_children e, sc_joining e)) (st_scopes s') =
      map (\<lambda>e. (sc_owner e, sc_children e, sc_joining e)) (st_scopes s)"
    and "map tc_scope (st_tasks s') = map tc_scope (st_tasks s)"
    and "\<And>t. registered t s' \<Longrightarrow> registered t s"
  shows "scope_ok s'"
proof -
  have "length (st_scopes s') = length (st_scopes s)" using arg_cong [OF assms(2), of length] by simp
  moreover have "length (st_tasks s') = length (st_tasks s)" using arg_cong [OF assms(3), of length] by simp
  ultimately show ?thesis using assms(1,4) unfolding scope_ok_view assms(2,3) by fastforce
qed

lemma shrinks_ok:
  assumes ok: "sched_ok s" and "shrinks s s'"
  shows "sched_ok s'"
proof -
  from assms(2) have v: "view s' = view s" and e: "excl_count t s' \<le> excl_count t s"
    and q: "selecting t s' \<Longrightarrow> selecting t s" for t by (simp_all add: shrinks_def)
  note V = view_eq [OF v]
  have r: "registered t s' \<Longrightarrow> registered t s" for t using e [of t] q [of t] by (auto simp: registered_def)
  moreover have "excl_count t s' \<le> 1" "selecting t s' \<Longrightarrow> excl_count t s' = 0" for t
    using ok e [of t] q [of t] by (auto simp: sched_ok_def reg_ok_def intro: le_trans)
  ultimately have "reg_ok s'" using ok V unfolding sched_ok_def reg_ok_def by metis
  moreover have "queue_ok s'" using ok V by (auto simp: sched_ok_def queue_ok_def)
  moreover have "wake_ok s'" using ok V by (simp add: sched_ok_def wake_ok_def)
  moreover have "baton_ok s'" using ok V by (simp add: sched_ok_def baton_ok_def)
  moreover have "scope_ok s'"
    by (rule scope_ok_mono [OF _ view_scopes(1) [OF v] view_scopes(2) [OF v] r]) (use ok in \<open>simp add: sched_ok_def\<close>)
  ultimately show ?thesis by (simp add: sched_ok_def)
qed

lemma shrinks_refl [simp]: "shrinks s s"
  by (simp add: shrinks_def)

lemma shrinks_trans: "shrinks s s' \<Longrightarrow> shrinks s' s'' \<Longrightarrow> shrinks s s''"
  unfolding shrinks_def by (metis le_trans)

lemma shrinks_unregistered: "shrinks s s' \<Longrightarrow> \<not> registered t s \<Longrightarrow> \<not> registered t s'"
  unfolding shrinks_def registered_def by (metis bot_nat_0.not_eq_extremum le_zero_eq)

text \<open>Updates of a task that leave its state and wake alone, and of a channel or mutex that add nobody.\<close>

lemma view_upd_task:
  "(\<And>e. tc_state (f e) = tc_state e \<and> tc_wake (f e) = tc_wake e \<and> tc_scope (f e) = tc_scope e) \<Longrightarrow> view (upd_task t f s) = view s"
  by (simp add: view_def upd_task_def map_modify_at_id)

lemma regs_upd_task [simp]:
  "excl_count u (upd_task t f s) = excl_count u s" "selecting u (upd_task t f s) = selecting u s"
  "registered u (upd_task t f s) = registered u s"
  by (simp_all add: excl_count_def selecting_def registered_def upd_task_def)

lemma shrinks_upd_task:
  "(\<And>e. tc_state (f e) = tc_state e \<and> tc_wake (f e) = tc_wake e \<and> tc_scope (f e) = tc_scope e) \<Longrightarrow> shrinks s (upd_task t f s)"
  by (simp add: shrinks_def view_upd_task)

lemma shrinks_tick: "shrinks s (tick t s)"
  unfolding tick_def by (rule shrinks_upd_task) simp

lemma shrinks_hb_edge: "shrinks s (hb_edge vc t s)"
  unfolding hb_edge_def by (rule shrinks_trans [OF shrinks_upd_task shrinks_tick]) simp

lemma shrinks_op: "shrinks s (sched_op t obj w s)"
  by (simp add: shrinks_def sched_op_def view_def excl_count_def selecting_def)

lemma shrinks_fold: "(\<And>x r. x \<in> set xs \<Longrightarrow> shrinks r (f x r)) \<Longrightarrow> shrinks s (fold f xs s)"
proof (induction xs arbitrary: s)
  case (Cons x xs)
  then show ?case by (auto intro: shrinks_trans)
qed simp

lemma shrinks_consume: "shrinks s (op_select_consume t s)"
  unfolding op_select_consume_def by (rule shrinks_fold) (rule shrinks_op)

lemma sum_list_modify_at:
  fixes g :: "'a \<Rightarrow> nat"
  shows "i < length xs \<Longrightarrow> (\<Sum>x \<leftarrow> modify_at i f xs. g x) + g (xs ! i) = (\<Sum>x \<leftarrow> xs. g x) + g (f (xs ! i))"
proof (induction xs arbitrary: i)
  case (Cons x xs)
  show ?case
  proof (cases i)
    case (Suc j)
    with Cons.IH [of j] Cons.prems show ?thesis by (simp add: modify_at_def)
  qed (simp add: modify_at_def)
qed simp

lemma set_modify_at_subset: "set (modify_at i f xs) \<subseteq> set xs \<union> (if i < length xs then {f (xs ! i)} else {})"
  by (auto simp: modify_at_def dest: set_update_subset_insert [THEN subsetD])

lemma count_upd_chan:
  "c < length (st_chans s) \<Longrightarrow>
     excl_count t (upd_chan c f s) + chan_count t (chan_at s c) = excl_count t s + chan_count t (f (chan_at s c))"
  using sum_list_modify_at [where i = c and xs = "st_chans s" and f = f and g = "chan_count t"] by (simp add: excl_count_def upd_chan_def)

lemma count_upd_mutex:
  "m < length (st_mutexes s) \<Longrightarrow>
     excl_count t (upd_mutex m f s) + count_list (mx_waiters (mutex_at s m)) t =
     excl_count t s + count_list (mx_waiters (f (mutex_at s m))) t"
  using sum_list_modify_at [where i = m and xs = "st_mutexes s" and f = f and g = "\<lambda>e. count_list (mx_waiters e) t"]
  by (simp add: excl_count_def upd_mutex_def)

lemma view_others [simp]:
  "view (upd_chan c f s) = view s" "view (upd_mutex m g s) = view s" "view (upd_proc p h s) = view s"
  by (simp_all add: view_def upd_chan_def upd_mutex_def upd_proc_def)

lemma selecting_upd_chan:
  assumes "\<And>e. set (ch_selecters (f e)) \<subseteq> set (ch_selecters e)"
  shows "selecting t (upd_chan c f s) \<Longrightarrow> selecting t s"
proof -
  have "\<exists>d \<in> set (st_chans s). t \<in> fst ` set (ch_selecters d)"
    if "e \<in> set (modify_at c f (st_chans s))" "t \<in> fst ` set (ch_selecters e)" for e
  proof -
    from that(1) obtain i where i: "i < length (st_chans s)" "e = modify_at c f (st_chans s) ! i"
      by (auto simp: in_set_conv_nth)
    then have "set (ch_selecters e) \<subseteq> set (ch_selecters (st_chans s ! i))" using assms by (simp add: nth_modify_at)
    with that(2) i(1) show ?thesis by (intro bexI [of _ "st_chans s ! i"]) auto
  qed
  moreover assume "selecting t (upd_chan c f s)"
  ultimately show ?thesis by (auto simp: selecting_def upd_chan_def)
qed

lemma shrinks_upd_chan:
  assumes "\<And>e u. chan_count u (f e) \<le> chan_count u e" and "\<And>e. set (ch_selecters (f e)) \<subseteq> set (ch_selecters e)"
  shows "shrinks s (upd_chan c f s)"
proof (cases "c < length (st_chans s)")
  case True
  have "excl_count u (upd_chan c f s) \<le> excl_count u s" for u
    using count_upd_chan [OF True, of u f] assms(1) [of u "chan_at s c"] by simp
  then show ?thesis using selecting_upd_chan [OF assms(2)] by (simp add: shrinks_def)
next
  case False
  then show ?thesis by (simp add: upd_chan_def)
qed

lemma selecting_upd_mutex [simp]: "selecting t (upd_mutex m f s) = selecting t s"
  by (simp add: selecting_def upd_mutex_def)

lemma shrinks_upd_mutex:
  assumes "\<And>e u. count_list (mx_waiters (f e)) u \<le> count_list (mx_waiters e) u"
  shows "shrinks s (upd_mutex m f s)"
proof (cases "m < length (st_mutexes s)")
  case True
  have "excl_count u (upd_mutex m f s) \<le> excl_count u s" for u
    using count_upd_mutex [OF True, of u f] assms [of "mutex_at s m" u] by simp
  then show ?thesis by (simp add: shrinks_def)
next
  case False
  then show ?thesis by (simp add: upd_mutex_def)
qed

lemma shrinks_upd_proc: "shrinks s (upd_proc p f s)"
  by (simp add: shrinks_def excl_count_def selecting_def upd_proc_def view_def)

lemma shrinks_upd_scope:
  "(\<And>e. sc_owner (g e) = sc_owner e \<and> sc_children (g e) = sc_children e \<and> sc_joining (g e) = sc_joining e) \<Longrightarrow>
     shrinks s (upd_scope i g s)"
  by (simp add: shrinks_def excl_count_def selecting_def upd_scope_def view_def map_modify_at_id)

section \<open>Waking\<close>

lemma regs_make_ready [simp]:
  "excl_count u (make_ready t w s) = excl_count u s" "selecting u (make_ready t w s) = selecting u s"
  "registered u (make_ready t w s) = registered u s"
  by (simp_all add: excl_count_def selecting_def registered_def make_ready_def upd_task_def Let_def)

lemma make_ready_tasks:
  "st_tasks (make_ready t w s) = modify_at t (\<lambda>e. e\<lparr>tc_wake := Some w,
     tc_state := (if tc_state e \<in> {TsBlocked, TsFresh} then TsReady else tc_state e)\<rparr>) (st_tasks s)"
  by (auto simp: make_ready_def upd_task_def Let_def modify_at_def)

lemma make_ready_scopes [simp]: "st_scopes (make_ready t w s) = st_scopes s" "st_shutdown (make_ready t w s) = st_shutdown s"
  by (simp_all add: make_ready_def upd_task_def Let_def)

lemma make_ready_view:
  "length (st_tasks (make_ready t w s)) = length (st_tasks s)"
  "u < length (st_tasks s) \<Longrightarrow> state_of_task (make_ready t w s) u =
     (if u = t \<and> state_of_task s u \<in> {TsBlocked, TsFresh} then TsReady else state_of_task s u)"
  "u < length (st_tasks s) \<Longrightarrow> wake_of (make_ready t w s) u = (if u = t then Some w else wake_of s u)"
  by (simp_all add: make_ready_tasks state_of_task_def wake_of_def nth_modify_at)

lemma make_ready_queue:
  "st_ready (make_ready t w s) =
     (if state_of_task s t \<in> {TsBlocked, TsFresh} then st_ready s @ [t] else st_ready s)"
  by (simp add: make_ready_def upd_task_def Let_def state_of_task_def)

lemma make_ready_ok:
  assumes ok: "sched_ok s" and nr: "\<not> registered t s" and t: "t < length (st_tasks s)"
  shows "sched_ok (make_ready t w s)"
proof -
  note M = make_ready_view [where t = t and w = w and s = s] make_ready_queue [of t w s]
  have reg: "reg_ok s" and q: "queue_ok s" and wk: "wake_ok s" and b: "baton_ok s" and sc: "scope_ok s"
    using ok by (simp_all add: sched_ok_def)
  have "reg_ok (make_ready t w s)"
    unfolding reg_ok_def
  proof (intro allI conjI impI)
    fix u
    show "excl_count u (make_ready t w s) \<le> 1" using reg by (simp add: reg_ok_def)
    show "selecting u (make_ready t w s) \<Longrightarrow> excl_count u (make_ready t w s) = 0" using reg by (simp add: reg_ok_def)
    assume "registered u (make_ready t w s)"
    then have r: "registered u s" by simp
    with nr have "u \<noteq> t" by blast
    with reg r M show "u < length (st_tasks (make_ready t w s))"
      "state_of_task (make_ready t w s) u \<in> {TsBlocked, TsRunning}" "wake_of (make_ready t w s) u = None"
      by (simp_all add: reg_ok_def)
  qed
  moreover have "queue_ok (make_ready t w s)"
    unfolding queue_ok_def
  proof (intro conjI allI)
    show "distinct (st_ready (make_ready t w s))" using q M(4) by (auto simp: queue_ok_def)
    show "u \<in> set (st_ready (make_ready t w s)) \<longleftrightarrow> u < length (st_tasks (make_ready t w s)) \<and>
        state_of_task (make_ready t w s) u = TsReady" for u
      using q M t by (cases "u < length (st_tasks s)") (auto simp: queue_ok_def)
  qed
  moreover have "wake_ok (make_ready t w s)" using wk M by (auto simp: wake_ok_def)
  moreover have "baton_ok (make_ready t w s)" using b M by (auto simp: baton_ok_def split: if_splits)
  moreover have "scope_ok (make_ready t w s)"
    by (rule scope_ok_mono [OF sc]) (simp_all add: make_ready_tasks map_modify_at_id)
  ultimately show ?thesis by (simp add: sched_ok_def)
qed

lemma registered_lt: "sched_ok s \<Longrightarrow> registered t s \<Longrightarrow> t < length (st_tasks s)"
  by (simp add: sched_ok_def reg_ok_def)

text \<open>Taking a task out of every list.\<close>

lemma count_list_filter: "count_list (filter (\<lambda>u. u \<noteq> t) xs) v = (if v = t then 0 else count_list xs v)"
  by (induction xs) auto

lemma map_fst_filter: "map fst (filter (\<lambda>(u, x). u \<noteq> t) xs) = filter (\<lambda>u. u \<noteq> t) (map fst xs)"
  by (induction xs) auto

lemma map_filter_key: "map f (filter (\<lambda>x. f x \<noteq> t) xs) = filter (\<lambda>u. u \<noteq> t) (map f xs)"
  by (induction xs) auto

lemma deregister_count: "excl_count u (deregister t s) = (if u = t then 0 else excl_count u s)"
  by (simp add: excl_count_def deregister_def chan_count_def chan_without_def map_fst_filter map_filter_key
      count_list_filter comp_def)

lemma deregister_selecting: "selecting u (deregister t s) \<longleftrightarrow> u \<noteq> t \<and> selecting u s"
  by (force simp: selecting_def deregister_def chan_without_def)

lemma shrinks_deregister: "shrinks s (deregister t s)"
  by (simp add: shrinks_def deregister_count deregister_selecting) (simp add: view_def deregister_def)

lemma not_registered_deregister: "\<not> registered t (deregister t s)"
  by (simp add: registered_def deregister_count deregister_selecting)

lemma deregister_wake_ok:
  "sched_ok s \<Longrightarrow> t < length (st_tasks s) \<Longrightarrow> sched_ok (make_ready t w (deregister t s))"
  by (rule make_ready_ok)
    (auto intro: shrinks_ok [OF _ shrinks_deregister] simp: not_registered_deregister, simp add: deregister_def)

end
