(* ===== verification/SchedInvChan.thy ===== *)
theory SchedInvChan
  imports SchedInv
begin

text \<open>
  Settling a channel, closing it, granting a mutex, firing timers and sleeps, and declaring a deadlock
  keep the invariant; they wake blocked tasks and do nothing else to the states of tasks.
\<close>

definition only_wakes :: "'c sched \<Rightarrow> 'c sched \<Rightarrow> bool" where
  "only_wakes s s' \<longleftrightarrow> length (st_tasks s') = length (st_tasks s) \<and> st_shutdown s' = st_shutdown s \<and>
     (\<forall>t < length (st_tasks s). state_of_task s' t = state_of_task s t \<or>
        state_of_task s t = TsBlocked \<and> state_of_task s' t = TsReady)"

lemma only_wakes_refl [simp]: "only_wakes s s"
  by (simp add: only_wakes_def)

lemma only_wakes_trans: "only_wakes s s' \<Longrightarrow> only_wakes s' s'' \<Longrightarrow> only_wakes s s''"
  unfolding only_wakes_def by (metis task_state.distinct(17))

lemma shrinks_only_wakes: "shrinks s s' \<Longrightarrow> only_wakes s s'"
  using view_eq [of s' s] by (simp add: shrinks_def only_wakes_def) (simp add: view_def)

lemma make_ready_only_wakes:
  assumes "t < length (st_tasks s) \<Longrightarrow> state_of_task s t \<noteq> TsFresh"
  shows "only_wakes s (make_ready t w s)"
  using assms make_ready_view [where t = t and w = w and s = s] by (auto simp: only_wakes_def)

lemma ok_not_fresh: "sched_ok s \<Longrightarrow> t < length (st_tasks s) \<Longrightarrow> state_of_task s t \<noteq> TsFresh"
  by (simp add: sched_ok_def wake_ok_def)

text \<open>A running task that waits for nothing; nothing but its own operations changes that.\<close>

definition quiet :: "task_id \<Rightarrow> 'c sched \<Rightarrow> bool" where
  "quiet u s \<longleftrightarrow> u < length (st_tasks s) \<and> state_of_task s u = TsRunning \<and> wake_of s u = None \<and> \<not> registered u s"

lemma quiet_shrinks: "shrinks s s' \<Longrightarrow> quiet u s \<Longrightarrow> quiet u s'"
  using view_eq [of s' s] shrinks_unregistered [of s s' u] by (simp add: quiet_def shrinks_def)

lemma quiet_make_ready: "quiet u s \<Longrightarrow> u \<noteq> t \<Longrightarrow> quiet u (make_ready t w s)"
  by (simp add: quiet_def make_ready_view)

text \<open>Steps that are good from a state that satisfies the invariant.\<close>

definition good_from :: "'c sched \<Rightarrow> 'c sched \<Rightarrow> bool" where
  "good_from s s' \<longleftrightarrow> (sched_ok s \<longrightarrow> sched_ok s' \<and> only_wakes s s' \<and> (\<forall>u. quiet u s \<longrightarrow> quiet u s'))"

lemma good_from_refl [simp]: "good_from s s"
  by (simp add: good_from_def)

lemma good_from_trans: "good_from s s' \<Longrightarrow> good_from s' s'' \<Longrightarrow> good_from s s''"
  by (auto simp: good_from_def intro: only_wakes_trans)

lemma shrinks_from: "shrinks s s' \<Longrightarrow> good_from s s'"
  using shrinks_ok shrinks_only_wakes quiet_shrinks by (auto simp: good_from_def)

text \<open>A wake is good from a state in which the task waited, though at the wake it no longer does.\<close>

lemma woken:
  assumes g: "good_from s s'" and t: "registered t s \<or> state_of_task s t = TsBlocked" and nr: "\<not> registered t s'"
    and l: "t < length (st_tasks s')"
  shows "good_from s (make_ready t w s')"
  unfolding good_from_def
proof (intro impI conjI allI)
  assume ok: "sched_ok s"
  with g have ok': "sched_ok s'" and ow: "only_wakes s s'" and q: "\<And>u. quiet u s \<Longrightarrow> quiet u s'"
    by (simp_all add: good_from_def)
  show "sched_ok (make_ready t w s')" using ok' nr l by (rule make_ready_ok)
  show "only_wakes s (make_ready t w s')"
    using ow make_ready_only_wakes [of t s' w] ok_not_fresh [OF ok'] by (auto intro: only_wakes_trans)
  fix u assume u: "quiet u s"
  then have "u \<noteq> t" using t by (auto simp: quiet_def)
  with q [OF u] show "quiet u (make_ready t w s')" by (rule quiet_make_ready)
qed

lemma length_deregister [simp]: "length (st_tasks (deregister t s)) = length (st_tasks s)"
  by (simp add: deregister_def)

lemma deregister_woken:
  assumes "good_from s s'" and "registered t s \<or> state_of_task s t = TsBlocked" and "t < length (st_tasks s')"
  shows "good_from s (make_ready t w (deregister t s'))"
  by (rule woken [OF good_from_trans [OF assms(1) shrinks_from [OF shrinks_deregister]]])
    (use assms in \<open>simp_all add: not_registered_deregister\<close>)

lemma deregister_wake_from:
  "t < length (st_tasks s) \<Longrightarrow> state_of_task s t = TsBlocked \<Longrightarrow> good_from s (make_ready t w (deregister t s))"
  by (rule deregister_woken) simp_all

lemma fold_good:
  "(\<And>x r. x \<in> set xs \<Longrightarrow> good_from s r \<Longrightarrow> good_from s (f x r)) \<Longrightarrow> good_from s r \<Longrightarrow> good_from s (fold f xs r)"
  by (induction xs arbitrary: r) simp_all

lemma good_from_ok: "good_from s s' \<Longrightarrow> sched_ok s \<Longrightarrow> sched_ok s'"
  by (simp add: good_from_def)

lemma good_from_length: "good_from s s' \<Longrightarrow> sched_ok s \<Longrightarrow> length (st_tasks s') = length (st_tasks s)"
  by (simp add: good_from_def only_wakes_def)

lemma fold_from:
  assumes "\<And>x r. x \<in> set xs \<Longrightarrow> sched_ok r \<Longrightarrow> length (st_tasks r) = length (st_tasks s) \<Longrightarrow> good_from r (f x r)"
  shows "good_from s (fold f xs s)"
  using assms
proof (induction xs arbitrary: s)
  case (Cons x xs)
  show ?case
  proof (cases "sched_ok s")
    case True
    have x: "good_from s (f x s)" by (rule Cons.prems) (use True in auto)
    note l = good_from_length [OF x True]
    have "good_from (f x s) (fold f xs (f x s))"
      by (rule Cons.IH) (use Cons.prems l in auto)
    with x show ?thesis by (auto intro: good_from_trans)
  next
    case False
    then show ?thesis by (simp add: good_from_def)
  qed
qed simp

text \<open>A task that is registered once and is taken out of that list is registered nowhere.\<close>

lemma popped:
  assumes "sched_ok s" and "shrinks s s'" and "excl_count t s' < excl_count t s"
  shows "\<not> registered t s'"
proof -
  have one: "excl_count t s \<le> 1" and sel: "selecting t s \<longrightarrow> excl_count t s = 0"
    using assms(1) by (simp_all add: sched_ok_def reg_ok_def)
  with assms(3) have "excl_count t s' = 0" "\<not> selecting t s" by auto
  with assms(2) show ?thesis by (auto simp: registered_def shrinks_def)
qed

lemma pop_sender:
  assumes ok: "sched_ok s" and c: "c < length (st_chans s)" and h: "ch_senders (chan_at s c) = (t, v) # rest"
  shows "shrinks s (upd_chan c (\<lambda>e. e\<lparr>ch_senders := tl (ch_senders e)\<rparr>) s)"
    and "\<not> registered t (upd_chan c (\<lambda>e. e\<lparr>ch_senders := tl (ch_senders e)\<rparr>) s)"
    and "t < length (st_tasks s)" and "registered t s"
proof -
  let ?f = "\<lambda>e :: 'a chan. e\<lparr>ch_senders := tl (ch_senders e)\<rparr>"
  have "count_list (map fst (tl xs)) u \<le> count_list (map fst xs) u" for u and xs :: "(task_id \<times> 'a val) list"
    by (cases xs) auto
  then show sh: "shrinks s (upd_chan c ?f s)" by (intro shrinks_upd_chan) (auto simp: chan_count_def)
  have "excl_count t (upd_chan c ?f s) < excl_count t s"
    using count_upd_chan [OF c, of t ?f] h by (simp add: chan_count_def)
  with popped [OF ok sh] show "\<not> registered t (upd_chan c ?f s)" by blast
  show r: "registered t s"
    using count_upd_chan [OF c, of t ?f] h by (simp add: registered_def chan_count_def)
  show "t < length (st_tasks s)" by (rule registered_lt [OF ok r])
qed

text \<open>Channel data that registers nobody.\<close>

lemma shrinks_data [simp]:
  "shrinks s (upd_chan c (\<lambda>e. e\<lparr>ch_buf := f e, ch_sends := g e\<rparr>) s)"
  "shrinks s (upd_chan c (\<lambda>e. e\<lparr>ch_buf := f e\<rparr>) s)" "shrinks s (upd_chan c (\<lambda>e. e\<lparr>ch_sends := g e\<rparr>) s)"
  "shrinks s (upd_chan c (\<lambda>e. e\<lparr>ch_recvs := g e\<rparr>) s)" "shrinks s (upd_chan c (\<lambda>e. e\<lparr>ch_closed := h e\<rparr>) s)"
  by (rule shrinks_upd_chan; simp add: chan_count_def)+

lemma length_tasks_frame [simp]:
  "length (st_tasks (upd_chan c f s)) = length (st_tasks s)" "length (st_tasks (tick t s)) = length (st_tasks s)"
  "length (st_tasks (upd_task t g s)) = length (st_tasks s)" "length (st_tasks (hb_edge vc t s)) = length (st_tasks s)"
  by (simp_all add: upd_chan_def tick_def upd_task_def hb_edge_def)

text \<open>A popped sender, its clock ticked and its message stored, is woken.\<close>

lemma sender_woken:
  assumes ok: "sched_ok s" and c: "c < length (st_chans s)" and h: "ch_senders (chan_at s c) = (t, v) # rest"
    and sh: "shrinks (upd_chan c (\<lambda>e. e\<lparr>ch_senders := tl (ch_senders e)\<rparr>) s) s'"
  shows "good_from s (make_ready t w s')"
proof -
  note p = pop_sender [OF ok c h]
  show ?thesis
  proof (rule woken [OF shrinks_from [OF shrinks_trans [OF p(1) sh]]])
    show "\<not> registered t s'" by (rule shrinks_unregistered [OF sh p(2)])
    show "t < length (st_tasks s')"
      using p(3) view_eq(1) [of s' "upd_chan c (\<lambda>e. e\<lparr>ch_senders := tl (ch_senders e)\<rparr>) s"] sh
      by (simp add: shrinks_def)
    show "registered t s \<or> state_of_task s t = TsBlocked" using p(4) by simp
  qed
qed

lemma fill_buffer_good: "good_from s (fill_buffer c s)"
proof (induction c s rule: fill_buffer.induct)
  case (1 c s)
  show ?case
  proof (cases "c < length (st_chans s) \<and> length (ch_buf (chan_at s c)) < ch_cap (chan_at s c) \<and>
      ch_senders (chan_at s c) \<noteq> []")
    case True
    then obtain t v rest where h: "ch_senders (chan_at s c) = (t, v) # rest" by (metis list.exhaust surj_pair)
    let ?s1 = "upd_chan c (\<lambda>e. e\<lparr>ch_senders := tl (ch_senders e)\<rparr>) s"
    let ?s3 = "upd_chan c (\<lambda>e. e\<lparr>ch_buf := ch_buf e @ [(v, tc_vc (task_at s t))], ch_sends := ch_sends e + 1\<rparr>) (tick t ?s1)"
    have hd: "(t, v) = hd (ch_senders (chan_at s c))" using h by simp
    have sh: "shrinks ?s1 ?s3" by (rule shrinks_trans [OF shrinks_tick [where t = t]]) simp
    have "fill_buffer c s = fill_buffer c (make_ready t (WkOk VUnit) ?s3)"
      using True h by (subst fill_buffer.simps) (simp add: Let_def)
    moreover have "good_from s (make_ready t (WkOk VUnit) ?s3)"
    proof (cases "sched_ok s")
      case ok: True
      show ?thesis by (rule sender_woken [OF ok _ h sh]) (use True in blast)
    qed (simp add: good_from_def)
    ultimately show ?thesis using "1.IH" [OF True hd refl refl refl refl refl] by (auto intro: good_from_trans)
  next
    case False
    then show ?thesis by (subst fill_buffer.simps) auto
  qed
qed

lemma take_message_good:
  assumes c: "c < length (st_chans s)" and ne: "ch_buf (chan_at s c) \<noteq> [] \<or> ch_senders (chan_at s c) \<noteq> []"
  shows "good_from s (snd (take_message c s))"
proof (cases "ch_buf (chan_at s c) \<noteq> []")
  case True
  then show ?thesis by (simp add: take_message_def shrinks_from)
next
  case False
  with ne obtain t v rest where h: "ch_senders (chan_at s c) = (t, v) # rest" by (metis list.exhaust surj_pair)
  let ?s1 = "upd_chan c (\<lambda>e. e\<lparr>ch_senders := tl (ch_senders e)\<rparr>) s"
  have sh: "shrinks ?s1 (upd_chan c (\<lambda>e. e\<lparr>ch_sends := ch_sends e + 1\<rparr>) (tick t ?s1))"
    by (rule shrinks_trans [OF shrinks_tick [where t = t]]) simp
  have "snd (take_message c s) = make_ready t (WkOk VUnit) (upd_chan c (\<lambda>e. e\<lparr>ch_sends := ch_sends e + 1\<rparr>) (tick t ?s1))"
    using False h by (simp add: take_message_def Let_def)
  moreover have "good_from s (make_ready t (WkOk VUnit) (upd_chan c (\<lambda>e. e\<lparr>ch_sends := ch_sends e + 1\<rparr>) (tick t ?s1)))"
  proof (cases "sched_ok s")
    case ok: True
    show ?thesis by (rule sender_woken [OF ok c h sh])
  qed (simp add: good_from_def)
  ultimately show ?thesis by simp
qed

lemma length_chans_take [simp]: "length (st_chans (snd (take_message c s))) = length (st_chans s)"
  by (simp add: take_message_chans)

lemma waiter_registered:
  "c < length (st_chans s) \<Longrightarrow> waiter (chan_at s c) = Some (t, arm) \<Longrightarrow> registered t s"
proof -
  assume c: "c < length (st_chans s)" and w: "waiter (chan_at s c) = Some (t, arm)"
  show ?thesis
  proof (cases "ch_receivers (chan_at s c)")
    case Nil
    with w obtain a rest where "ch_selecters (chan_at s c) = (t, a) # rest"
      by (auto simp: waiter_def split: list.splits)
    with c have "selecting t s" unfolding selecting_def by (intro disjI1 bexI [of _ "chan_at s c"]) auto
    then show ?thesis by (simp add: registered_def)
  next
    case (Cons u xs)
    with w have "0 < chan_count t (chan_at s c)" by (simp add: waiter_def chan_count_def)
    then have "0 < (\<Sum>e \<leftarrow> st_chans s. chan_count t e)"
      using c member_le_sum_list [of "chan_count t (chan_at s c)" "map (chan_count t) (st_chans s)"] by simp
    then show ?thesis by (simp add: registered_def excl_count_def)
  qed
qed

lemma deliver_to_good:
  assumes c: "c < length (st_chans s)" and ne: "ch_buf (chan_at s c) \<noteq> [] \<or> ch_senders (chan_at s c) \<noteq> []"
    and w: "waiter (chan_at s c) = Some (t, arm)"
  shows "good_from s (deliver_to c t arm s)"
proof (cases "sched_ok s")
  case False
  then show ?thesis by (simp add: good_from_def)
next
  case ok: True
  let ?s1 = "if arm \<noteq> None then op_select_consume t s else s"
  obtain v vc s2 where m: "take_message c ?s1 = ((v, vc), s2)" by (metis prod.collapse)
  let ?s3 = "upd_chan c (\<lambda>e. e\<lparr>ch_recvs := ch_recvs e + 1\<rparr>) s2"
  have g1: "good_from s ?s1" using shrinks_from [OF shrinks_consume [of s t]] by simp
  have c1: "st_chans ?s1 = st_chans s" by simp
  have g2: "good_from ?s1 s2" using take_message_good [of c ?s1] c ne c1 m by simp
  have "shrinks s2 (hb_edge vc t ?s3)" by (rule shrinks_trans [OF _ shrinks_hb_edge]) simp
  then have g3: "good_from s2 (hb_edge vc t ?s3)" by (rule shrinks_from)
  have g: "good_from s (hb_edge vc t ?s3)" by (rule good_from_trans [OF g1 good_from_trans [OF g2 g3]])
  have "t < length (st_tasks s)" using registered_lt [OF ok waiter_registered [OF c w]] .
  then have "t < length (st_tasks (hb_edge vc t ?s3))" using good_from_length [OF g ok] by simp
  from deregister_woken [OF g disjI1 [OF waiter_registered [OF c w]] this] show ?thesis
    using m by (cases arm) (simp_all add: deliver_to_def Let_def)
qed

lemma count_list_pos: "x \<in> set xs \<Longrightarrow> 0 < count_list xs x"
  by (induction xs) auto

lemma count_clear_receivers:
  "c < length (st_chans s) \<Longrightarrow> t \<in> set (ch_receivers (chan_at s c)) \<Longrightarrow>
     excl_count t (upd_chan c (\<lambda>e. e\<lparr>ch_receivers := []\<rparr>) s) < excl_count t s"
  using count_upd_chan [of c s t "\<lambda>e. e\<lparr>ch_receivers := []\<rparr>"] count_list_pos [of t "ch_receivers (chan_at s c)"]
  by (simp add: chan_count_def)

lemma wake_all_good:
  assumes "good_from s r" and ok: "sched_ok s"
    and "\<And>x. x \<in> set xs \<Longrightarrow> registered (f x) s \<and> \<not> registered (f x) r"
  shows "good_from s (fold (\<lambda>x. make_ready (f x) (w x)) xs r)"
  using assms(1,3)
proof (induction xs arbitrary: r)
  case (Cons x xs)
  have "f x < length (st_tasks r)"
    using registered_lt [OF ok] Cons.prems good_from_length [OF Cons.prems(1) ok] by simp
  then have "good_from s (make_ready (f x) (w x) r)" by (intro woken) (use Cons.prems in auto)
  from Cons.IH [OF this] Cons.prems(2) show ?case by simp
qed simp

lemma fold_make_ready_chans: "st_chans (fold (\<lambda>x. make_ready (f x) (w x)) xs s) = st_chans s"
  by (induction xs arbitrary: s) simp_all

lemma release_closed_good:
  assumes c: "c < length (st_chans s)"
  shows "good_from s (release_closed c s)"
proof (cases "sched_ok s")
  case False
  then show ?thesis by (simp add: good_from_def)
next
  case ok: True
  let ?f = "\<lambda>e :: 'a chan. e\<lparr>ch_receivers := []\<rparr>"
  let ?s1 = "upd_chan c ?f s"
  define s2 where "s2 = fold (\<lambda>t. make_ready t WkClosed) (ch_receivers (chan_at s c)) ?s1"
  let ?s3 = "upd_chan c (\<lambda>e. e\<lparr>ch_selecters := []\<rparr>) s2"
  have sh1: "shrinks s ?s1" by (rule shrinks_upd_chan) (simp_all add: chan_count_def)
  have r: "registered t s \<and> \<not> registered t ?s1" if "t \<in> set (ch_receivers (chan_at s c))" for t
  proof
    show "registered t s" using count_clear_receivers [OF c that] by (simp add: registered_def)
    show "\<not> registered t ?s1" by (rule popped [OF ok sh1 count_clear_receivers [OF c that]])
  qed
  have g2: "good_from s s2" unfolding s2_def
    using wake_all_good [OF shrinks_from [OF sh1] ok, of _ "\<lambda>t. t" "\<lambda>_. WkClosed"] r by simp
  have ch2: "ch_selecters (chan_at s2 c) = ch_selecters (chan_at s c)"
    unfolding s2_def fold_make_ready_chans [where f = "\<lambda>t. t" and w = "\<lambda>_. WkClosed", simplified] using c by simp
  have sh3: "shrinks s2 ?s3" by (rule shrinks_upd_chan) (simp_all add: chan_count_def)
  have "good_from s (fold (\<lambda>(t, a) r. make_ready t (WkArm a (Some closed_error)) (deregister t (op_select_consume t r)))
      (ch_selecters (chan_at s c)) ?s3)"
  proof (rule fold_good [OF _ good_from_trans [OF g2 shrinks_from [OF sh3]]])
    fix x and r :: "'a sched" assume x: "x \<in> set (ch_selecters (chan_at s c))" and g: "good_from s r"
    obtain t a where xa: "x = (t, a)" by (cases x)
    have "selecting t s" unfolding selecting_def
      by (intro disjI1 bexI [of _ "chan_at s c"]) (use x xa c in force)+
    then have reg: "registered t s" by (simp add: registered_def)
    have g': "good_from s (op_select_consume t r)" by (rule good_from_trans [OF g shrinks_from [OF shrinks_consume]])
    have "t < length (st_tasks (op_select_consume t r))"
      using registered_lt [OF ok reg] good_from_length [OF g' ok] by simp
    from deregister_woken [OF g' disjI1 [OF reg] this]
    show "good_from s ((\<lambda>(t, a) r. make_ready t (WkArm a (Some closed_error)) (deregister t (op_select_consume t r))) x r)"
      by (simp add: xa)
  qed
  then show ?thesis unfolding release_closed_def Let_def using c by (simp add: ch2 flip: s2_def)
qed

lemma settle_good: "good_from s (settle_chan c s)"
proof (induction c s rule: settle_chan.induct)
  case (1 c s)
  let ?s1 = "fill_buffer c s"
  have l: "length (st_chans ?s1) = length (st_chans s)" using fill_buffer_waits [of c s] by simp
  note f = fill_buffer_good [of s c]
  show ?case
  proof (cases "c < length (st_chans s)")
    case False
    then show ?thesis by (subst settle_chan.simps) simp
  next
    case c: True
    show ?thesis
    proof (cases "ch_buf (chan_at ?s1 c) = [] \<and> ch_senders (chan_at ?s1 c) = []")
      case True
      with c f good_from_trans [OF f release_closed_good [of c ?s1]] l show ?thesis
        by (subst settle_chan.simps) (simp add: Let_def)
    next
      case ne: False
      show ?thesis
      proof (cases "waiter (chan_at ?s1 c)")
        case None
        with c ne f show ?thesis by (subst settle_chan.simps) (auto simp: Let_def)
      next
        case (Some w)
        obtain t arm where w: "w = (t, arm)" by (cases w)
        have d: "good_from ?s1 (deliver_to c t arm ?s1)"
          by (rule deliver_to_good) (use c l ne Some w in auto)
        have e: "settle_chan c s = settle_chan c (deliver_to c t arm ?s1)"
          using c ne Some w by (subst settle_chan.simps) (auto simp: Let_def)
        have "good_from (deliver_to c t arm ?s1) (settle_chan c (deliver_to c t arm ?s1))"
          by (rule "1.IH" [OF refl refl]) (use c ne Some w in auto)
        with good_from_trans [OF f d] show ?thesis unfolding e by (rule good_from_trans)
      qed
    qed
  qed
qed

lemma close_good: "c < length (st_chans s) \<Longrightarrow> good_from s (close_chan c s)"
proof (cases "sched_ok s")
  case False
  then show ?thesis by (simp add: good_from_def)
next
  case ok: True
  assume c: "c < length (st_chans s)"
  let ?s1 = "upd_chan c (\<lambda>e. e\<lparr>ch_closed := True\<rparr>) (sched_op (actor s) (OkChan c) True s)"
  let ?f = "\<lambda>e :: 'a chan. e\<lparr>ch_senders := []\<rparr>"
  let ?s2 = "upd_chan c ?f ?s1"
  have sh1: "shrinks s ?s1"
    by (rule shrinks_trans [OF shrinks_op [where t = "actor s" and obj = "OkChan c" and w = True]]) simp
  have ok1: "sched_ok ?s1" by (rule shrinks_ok [OF ok sh1])
  have c1: "c < length (st_chans ?s1)" using c by simp
  have sh2: "shrinks ?s1 ?s2" by (rule shrinks_upd_chan) (simp_all add: chan_count_def)
  have r: "registered (fst x) ?s1 \<and> \<not> registered (fst x) ?s2" if x: "x \<in> set (ch_senders (chan_at ?s1 c))" for x
  proof -
    have "0 < count_list (map fst (ch_senders (chan_at ?s1 c))) (fst x)"
      using x by (intro count_list_pos) simp
    then have lt: "excl_count (fst x) ?s2 < excl_count (fst x) ?s1"
      using count_upd_chan [OF c1, of "fst x" ?f] by (simp add: chan_count_def)
    with popped [OF ok1 sh2 lt] show ?thesis by (simp add: registered_def)
  qed
  from wake_all_good [OF shrinks_from [OF sh2] ok1, of "ch_senders (chan_at ?s1 c)" fst "\<lambda>_. WkClosed"] r
  have g: "good_from ?s1 (fold (\<lambda>(t, v). make_ready t WkClosed) (ch_senders (chan_at ?s1 c)) ?s2)"
    by (simp add: case_prod_beta')
  have "good_from s (settle_chan c (fold (\<lambda>(t, v). make_ready t WkClosed) (ch_senders (chan_at ?s1 c)) ?s2))"
    by (rule good_from_trans [OF shrinks_from [OF sh1] good_from_trans [OF g settle_good]])
  then show ?thesis by (simp add: close_chan_def Let_def)
qed

section \<open>Timers, sleeps and deadlock\<close>

lemma fire_timer_good: "tm_task x < length (st_tasks s) \<Longrightarrow> good_from s (fire_timer x s)"
  by (simp add: fire_timer_def deregister_wake_from state_of_task_def)

lemma count_list_map_filter_le: "count_list (map f (filter P xs)) t \<le> count_list (map f xs) t"
  by (induction xs) auto

lemma shrinks_keep_timers: "shrinks s (s\<lparr>st_clock := clk, st_timers := filter P (st_timers s)\<rparr>)"
  by (auto simp: shrinks_def excl_count_def selecting_def view_def)

lemma shrinks_keep_sleeps: "shrinks s (s\<lparr>st_wall := w, st_real_sleeps := filter P (st_real_sleeps s)\<rparr>)"
  using count_list_map_filter_le [of rs_task P "st_real_sleeps s"]
  by (auto simp: shrinks_def excl_count_def selecting_def view_def)

lemma timer_registered: "x \<in> set (st_timers s) \<Longrightarrow> registered (tm_task x) s"
  by (simp add: registered_def selecting_def)

lemma sleep_registered: "x \<in> set (st_real_sleeps s) \<Longrightarrow> registered (rs_task x) s"
  using count_list_pos [of "rs_task x" "map rs_task (st_real_sleeps s)"] by (simp add: registered_def excl_count_def)

lemma advance_good: "good_from s (snd (advance_clock s))"
proof (cases "sched_ok s")
  case False
  then show ?thesis by (simp add: good_from_def)
next
  case ok: True
  let ?clk = "max (st_clock s) (Min (set (map tm_deadline (st_timers s))))"
  let ?s1 = "s\<lparr>st_clock := ?clk, st_timers := filter (\<lambda>x. \<not> tm_deadline x \<le> ?clk) (st_timers s)\<rparr>"
  let ?due = "sort_key tm_deadline (sort_key tm_seq (filter (\<lambda>x. tm_deadline x \<le> ?clk) (st_timers s)))"
  have g: "good_from ?s1 (fold fire_timer ?due ?s1)"
  proof (rule fold_from)
    fix x and r :: "'a sched"
    assume x: "x \<in> set ?due" and l: "length (st_tasks r) = length (st_tasks ?s1)"
    have "tm_task x < length (st_tasks s)" using registered_lt [OF ok timer_registered] x by simp
    with l show "good_from r (fire_timer x r)" by (simp add: fire_timer_good)
  qed
  have "good_from s ?s1" by (rule shrinks_from [OF shrinks_keep_timers])
  from good_from_trans [OF this g] show ?thesis by (simp add: advance_clock_def Let_def)
qed

text \<open>A sleeper whose entry is gone sleeps nowhere else.\<close>

lemma sleeper_popped:
  assumes ok: "sched_ok s" and x: "x \<in> set (st_real_sleeps s)" and px: "\<not> P x"
  shows "\<not> registered (rs_task x) (s\<lparr>st_wall := w, st_real_sleeps := filter P (st_real_sleeps s)\<rparr>)"
proof (rule popped [OF ok shrinks_keep_sleeps])
  have "count_list (map rs_task (filter P ys)) (rs_task x) < count_list (map rs_task ys) (rs_task x)"
    if "x \<in> set ys" for ys
    using that
  proof (induction ys)
    case (Cons y ys)
    show ?case
    proof (cases "x = y")
      case True
      then show ?thesis using px count_list_map_filter_le [of rs_task P ys "rs_task x"] by (simp add: le_imp_less_Suc)
    next
      case False
      with Cons show ?thesis by auto
    qed
  qed simp
  from this [OF x] show "excl_count (rs_task x) (s\<lparr>st_wall := w, st_real_sleeps := filter P (st_real_sleeps s)\<rparr>)
      < excl_count (rs_task x) s"
    by (simp add: excl_count_def)
qed

definition wake_sleeper :: "real_sleep \<Rightarrow> 'c sched \<Rightarrow> 'c sched" where
  "wake_sleeper x r =
     (if tc_state (task_at r (rs_task x)) = TsBlocked then make_ready (rs_task x) (WkOk VUnit) r else r)"

lemma wake_sleepers_good:
  "(\<And>x. x \<in> set xs \<Longrightarrow> \<not> registered (rs_task x) s \<and> rs_task x < length (st_tasks s)) \<Longrightarrow>
     good_from s (fold wake_sleeper xs s)"
proof (induction xs arbitrary: s)
  case (Cons x xs)
  have x: "good_from s (wake_sleeper x s)"
    using Cons.prems by (auto simp: wake_sleeper_def state_of_task_def intro: woken [OF good_from_refl])
  have "good_from (wake_sleeper x s) (fold wake_sleeper xs (wake_sleeper x s))"
    by (rule Cons.IH) (use Cons.prems in \<open>simp add: wake_sleeper_def make_ready_view\<close>)
  with x show ?case by (auto intro: good_from_trans)
qed simp

lemma promote_good: "good_from s (promote_due_sleeps e s)"
proof (cases "sched_ok s \<and> st_real_sleeps s \<noteq> []")
  case False
  then show ?thesis by (auto simp: good_from_def promote_due_sleeps_def)
next
  case True
  then have ok: "sched_ok s" by simp
  let ?now = "en_read e (st_wall s)"
  let ?due = "sort_key rs_seq (filter (\<lambda>x. rs_due x \<le> ?now) (st_real_sleeps s))"
  let ?s1 = "s\<lparr>st_wall := ?now, st_real_sleeps := filter (\<lambda>x. \<not> rs_due x \<le> ?now) (st_real_sleeps s)\<rparr>"
  have "\<not> registered (rs_task x) ?s1 \<and> rs_task x < length (st_tasks ?s1)" if "x \<in> set ?due" for x
    using that sleeper_popped [OF ok, of x "\<lambda>x. \<not> rs_due x \<le> ?now" ?now] registered_lt [OF ok sleep_registered, of x]
    by simp
  then have "good_from ?s1 (fold wake_sleeper ?due ?s1)" by (rule wake_sleepers_good)
  from good_from_trans [OF shrinks_from [OF shrinks_keep_sleeps] this] True
  show ?thesis by (simp add: promote_due_sleeps_def Let_def wake_sleeper_def [abs_def])
qed

lemma deadlock_good: "good_from s (declare_deadlock s)"
proof -
  let ?s1 = "s\<lparr>st_deadlocked := True\<rparr>"
  have "shrinks s ?s1" by (simp add: shrinks_def excl_count_def selecting_def view_def)
  moreover have "good_from ?s1 (fold (\<lambda>t r. make_ready t (WkDeadlock (blocked_roster s)) (deregister t r)) (blocked_roster s) ?s1)"
  proof (cases "sched_ok ?s1")
    case ok: True
    show ?thesis
    proof (rule fold_good)
      fix t and r :: "'a sched" assume t: "t \<in> set (blocked_roster s)" and g: "good_from ?s1 r"
      have "t < length (st_tasks r)" "state_of_task ?s1 t = TsBlocked"
        using t good_from_length [OF g ok] by (simp_all add: blocked_roster_def indices_where_def state_of_task_def)
      with g show "good_from ?s1 (make_ready t (WkDeadlock (blocked_roster s)) (deregister t r))"
        by (intro deregister_woken) simp_all
    qed simp
  qed (simp add: good_from_def)
  ultimately show ?thesis by (auto simp: declare_deadlock_def Let_def intro: good_from_trans shrinks_from)
qed

section \<open>Choosing the next task\<close>

text \<open>A chosen task is out of the queue and about to run.\<close>

definition handing_to :: "task_id \<Rightarrow> 'c sched \<Rightarrow> bool" where
  "handing_to t s \<longleftrightarrow> t \<notin> set (st_ready s) \<and> sched_ok (s\<lparr>st_ready := st_ready s @ [t]\<rparr>)"

lemma ready_frame [simp]:
  "excl_count t (s\<lparr>st_ready := q\<rparr>) = excl_count t s" "selecting t (s\<lparr>st_ready := q\<rparr>) = selecting t s"
  "registered t (s\<lparr>st_ready := q\<rparr>) = registered t s" "state_of_task (s\<lparr>st_ready := q\<rparr>) t = state_of_task s t"
  "wake_of (s\<lparr>st_ready := q\<rparr>) t = wake_of s t"
  by (simp_all add: excl_count_def selecting_def registered_def state_of_task_def wake_of_def)

lemma sched_ok_queue:
  assumes ok: "sched_ok s" and q: "set q = set (st_ready s)" "distinct q"
  shows "sched_ok (s\<lparr>st_ready := q\<rparr>)"
proof -
  have "reg_ok (s\<lparr>st_ready := q\<rparr>) \<and> wake_ok (s\<lparr>st_ready := q\<rparr>) \<and> baton_ok (s\<lparr>st_ready := q\<rparr>) \<and> scope_ok (s\<lparr>st_ready := q\<rparr>)"
    using ok by (simp add: sched_ok_def reg_ok_def wake_ok_def baton_ok_def scope_ok_def)
  moreover have "queue_ok (s\<lparr>st_ready := q\<rparr>)"
    unfolding queue_ok_def using ok by (simp add: sched_ok_def queue_ok_def q)
  ultimately show ?thesis by (simp add: sched_ok_def)
qed

lemma decide_frame: "view (snd (decide k cs s)) = view s"
    "excl_count t (snd (decide k cs s)) = excl_count t s" "selecting t (snd (decide k cs s)) = selecting t s"
  by (simp_all add: decide_def Let_def view_def excl_count_def selecting_def split: prod.splits)

lemma shrinks_decide: "shrinks s (snd (decide k cs s))"
  by (simp add: shrinks_def decide_frame)

lemma decide_bound: "cs \<noteq> [] \<Longrightarrow> fst (decide k cs s) < length cs"
  by (auto simp: decide_def choose_index_def Let_def split: prod.splits chooser.splits if_splits)

lemma remove_at_props:
  assumes "i < length xs" and "distinct xs"
  shows "set (remove_at i xs) = set xs - {xs ! i}" and "distinct (remove_at i xs)"
proof -
  have xs: "xs = take i xs @ xs ! i # drop (Suc i) xs" using assms(1) by (simp add: id_take_nth_drop)
  with assms(2) have "distinct (take i xs @ xs ! i # drop (Suc i) xs)" by simp
  then show "distinct (remove_at i xs)" by (simp add: remove_at_def)
  have "set xs = set (take i xs) \<union> {xs ! i} \<union> set (drop (Suc i) xs)"
    using arg_cong [OF xs, of set] by simp
  moreover have "xs ! i \<notin> set (take i xs)" "xs ! i \<notin> set (drop (Suc i) xs)"
    using \<open>distinct (take i xs @ xs ! i # drop (Suc i) xs)\<close> by auto
  ultimately show "set (remove_at i xs) = set xs - {xs ! i}" by (auto simp: remove_at_def)
qed

lemma pick_ready_hands:
  assumes ok: "sched_ok s" and ne: "st_ready s \<noteq> []" and p: "pick_ready s = (t, s')"
  shows "handing_to t s' \<and> only_wakes s s' \<and> t \<in> set (st_ready s)"
proof -
  define leak where "leak = (case st_chooser s of Planned pl \<Rightarrow> pl_leak pl \<and> 1 < length (st_ready s) | _ \<Rightarrow> False)"
  define q where "q = (if leak then rotate1 (st_ready s) else st_ready s)"
  have q: "q \<noteq> []" "set q = set (st_ready s)" "distinct q"
    using ne ok by (simp_all add: q_def sched_ok_def queue_ok_def)
  have pq: "pick_ready s = (let (i, s1) = decide DkTask q (s\<lparr>st_ready := q\<rparr>) in (q ! i, s1\<lparr>st_ready := remove_at i q\<rparr>))"
    by (simp only: pick_ready_def Let_def q_def leak_def)
  obtain i s1 where d: "decide DkTask q (s\<lparr>st_ready := q\<rparr>) = (i, s1)" by fastforce
  have i: "i < length q" using decide_bound [OF q(1), of DkTask "s\<lparr>st_ready := q\<rparr>"] d by simp
  have okq: "sched_ok (s\<lparr>st_ready := q\<rparr>)" by (rule sched_ok_queue [OF ok q(2,3)])
  have sh: "shrinks (s\<lparr>st_ready := q\<rparr>) s1" using shrinks_decide [of "s\<lparr>st_ready := q\<rparr>" DkTask q] d by simp
  have ok1: "sched_ok s1" by (rule shrinks_ok [OF okq sh])
  have r1: "st_ready s1 = q" using view_eq(2) [of s1 "s\<lparr>st_ready := q\<rparr>"] sh by (simp add: shrinks_def)
  have t: "t = q ! i" "s' = s1\<lparr>st_ready := remove_at i q\<rparr>" using p pq d by simp_all
  note rm = remove_at_props [OF i q(3)]
  have "sched_ok (s1\<lparr>st_ready := remove_at i q @ [q ! i]\<rparr>)"
  proof (rule sched_ok_queue [OF ok1])
    have "q ! i \<in> set q" using i by simp
    then show "set (remove_at i q @ [q ! i]) = set (st_ready s1)" unfolding r1 set_append rm(1) by auto
    show "distinct (remove_at i q @ [q ! i])" using rm(2) by (simp add: rm(1))
  qed
  moreover have "q ! i \<notin> set (remove_at i q)" using rm(1) by blast
  ultimately have "handing_to t s'" by (simp add: handing_to_def t)
  moreover have "only_wakes s s'"
    using shrinks_only_wakes [OF sh] unfolding t only_wakes_def by simp
  moreover have "t \<in> set (st_ready s)"
    unfolding t q(2) [symmetric] by (rule nth_mem [OF i])
  ultimately show ?thesis by blast
qed

lemma choose_loop_good:
  assumes "sched_ok s" and "choose_loop e n s = (r, s')"
  shows "only_wakes s s' \<and> (case r of None \<Rightarrow> sched_ok s' | Some t \<Rightarrow> handing_to t s')"
  using assms
proof (induction n arbitrary: s)
  case 0
  then show ?case by simp
next
  case (Suc n)
  let ?s1 = "promote_due_sleeps e s"
  have g1: "good_from s ?s1" by (rule promote_good)
  have ok1: "sched_ok ?s1" by (rule good_from_ok [OF g1 Suc.prems(1)])
  have w1: "only_wakes s ?s1" using g1 Suc.prems(1) by (simp add: good_from_def)
  show ?case
  proof (cases "st_ready ?s1 = []")
    case False
    obtain t s2 where p: "pick_ready ?s1 = (t, s2)" by fastforce
    with Suc.prems(2) False have "r = Some t" "s' = s2" by (simp_all add: Let_def)
    with pick_ready_hands [OF ok1 False p] w1 show ?thesis by (auto intro: only_wakes_trans)
  next
    case True
    obtain b s2 where a: "advance_clock ?s1 = (b, s2)" by fastforce
    have g2: "good_from ?s1 s2" using advance_good [of ?s1] a by simp
    have ok2: "sched_ok s2" and w2: "only_wakes s s2"
      using g2 ok1 w1 by (auto simp: good_from_def intro: only_wakes_trans)
    show ?thesis
    proof (cases b)
      case True
      with Suc.prems(2) \<open>st_ready ?s1 = []\<close> a have "choose_loop e n s2 = (r, s')" by (simp add: Let_def)
      from Suc.IH [OF ok2 this] w2 show ?thesis by (auto intro: only_wakes_trans)
    next
      case False
      show ?thesis
      proof (cases "st_real_sleeps s2 = []")
        case True
        with Suc.prems(2) \<open>st_ready ?s1 = []\<close> a False ok2 w2 show ?thesis by (auto simp: Let_def)
      next
        case ne: False
        define w where "w = (let earliest = Min (set (map rs_due (st_real_sleeps s2))); now = en_read e (st_wall s2)
            in if now < earliest then en_sleep e now earliest else now)"
        have c: "choose_loop e n (s2\<lparr>st_wall := w\<rparr>) = (r, s')"
          using Suc.prems(2) \<open>st_ready ?s1 = []\<close> a False ne by (simp add: Let_def w_def)
        have "shrinks s2 (s2\<lparr>st_wall := w\<rparr>)" by (simp add: shrinks_def excl_count_def selecting_def view_def)
        then have "sched_ok (s2\<lparr>st_wall := w\<rparr>)" "only_wakes s (s2\<lparr>st_wall := w\<rparr>)"
          using ok2 w2 by (auto intro: only_wakes_trans shrinks_ok shrinks_only_wakes)
        with Suc.IH [OF _ c] show ?thesis by (auto intro: only_wakes_trans)
      qed
    qed
  qed
qed

end
