(* ===== verification/SchedInvTask.thy ===== *)
theory SchedInvTask
  imports SchedInvChan
begin

text \<open>
  Cancellation, kills, exits, the publication of exits and the accounting of a scope keep the invariant
  from any state that satisfies it; like the settling of a channel they only wake tasks.
\<close>

section \<open>Cancellation\<close>

lemma state_upd_task:
  "(\<And>e. tc_state (f e) = tc_state e) \<Longrightarrow> u < length (st_tasks s) \<Longrightarrow>
     state_of_task (upd_task t f s) u = state_of_task s u"
  by (simp add: state_of_task_def upd_task_def nth_modify_at)

lemma mark_cancelled_good: "t < length (st_tasks s) \<Longrightarrow> good_from s (mark_cancelled t s)"
proof -
  assume t: "t < length (st_tasks s)"
  let ?s1 = "upd_task t (\<lambda>e. e\<lparr>tc_cancelled := True\<rparr>) s"
  have sh: "shrinks s ?s1" by (rule shrinks_upd_task) simp
  show ?thesis
  proof (cases "tc_state (task_at s t) = TsBlocked")
    case True
    then have "registered t s \<or> state_of_task s t = TsBlocked" by (simp add: state_of_task_def)
    from deregister_woken [OF shrinks_from [OF sh] this] t True show ?thesis
      by (simp add: mark_cancelled_def Let_def)
  next
    case False
    then show ?thesis using shrinks_from [OF sh] by (simp add: mark_cancelled_def Let_def)
  qed
qed

lemma cancel_door_shrinks: "shrinks s (cancel_door t s)"
  by (simp add: cancel_door_def shrinks_op)

lemma owned_children_lt: "sched_ok s \<Longrightarrow> u \<in> set (owned_children t s) \<Longrightarrow> u < length (st_tasks s)"
  by (auto simp: sched_ok_def scope_ok_def owned_children_def)

lemma cancel_walk_good: "t < length (st_tasks s) \<Longrightarrow> good_from s (cancel_walk n t s)"
proof (induction n arbitrary: t s)
  case (Suc n)
  let ?s1 = "cancel_door t s"
  have g1: "good_from s ?s1" by (rule shrinks_from [OF cancel_door_shrinks])
  have t1: "t < length (st_tasks ?s1)" using Suc.prems by (simp add: cancel_door_def sched_op_def)
  let ?s2 = "mark_cancelled t ?s1"
  have g2: "good_from s ?s2" by (rule good_from_trans [OF g1 mark_cancelled_good [OF t1]])
  show ?case
  proof (cases "uncancellable t ?s1 \<or> \<not> sched_ok s")
    case True
    with g1 show ?thesis by (auto simp: Let_def good_from_def)
  next
    case False
    have "good_from ?s2 (fold (cancel_walk n) (owned_children t ?s2) ?s2)"
    proof (rule fold_from)
      fix u and r :: "'a sched"
      assume u: "u \<in> set (owned_children t ?s2)" and l: "length (st_tasks r) = length (st_tasks ?s2)"
      from good_from_ok [OF g2] False have "sched_ok ?s2" by blast
      from owned_children_lt [OF this u] l show "good_from r (cancel_walk n u r)" by (intro Suc.IH) simp
    qed
    with g2 False show ?thesis by (auto simp: Let_def intro: good_from_trans)
  qed
qed simp

lemma cancel_task_good: "t < length (st_tasks s) \<Longrightarrow> good_from s (cancel_task t s)"
  unfolding cancel_task_def by (rule cancel_walk_good)

lemma cancel_all_good:
  "(\<And>t. t \<in> set ts \<Longrightarrow> t < length (st_tasks s)) \<Longrightarrow> good_from s (fold cancel_task ts s)"
  by (rule fold_from) (simp add: cancel_task_good)

lemma cancel_scope_good: "i < length (st_scopes s) \<Longrightarrow> good_from s (cancel_scope i s)"
proof (cases "sched_ok s")
  case True
  assume "i < length (st_scopes s)"
  with True have "set (sc_children (scope_at s i)) \<subseteq> {..<length (st_tasks s)}"
    by (simp add: sched_ok_def scope_ok_def)
  then show ?thesis unfolding cancel_scope_def by (intro cancel_all_good) auto
qed (simp add: good_from_def)

text \<open>It does not touch the scopes.\<close>

lemma mark_cancelled_scopes [simp]: "st_scopes (mark_cancelled t s) = st_scopes s"
  by (simp add: mark_cancelled_def upd_task_def deregister_def Let_def)

lemma cancel_walk_scopes: "st_scopes (cancel_walk n t s) = st_scopes s"
proof (induction n arbitrary: t s)
  case (Suc n)
  have "st_scopes (fold (cancel_walk n) ts r) = st_scopes r" for ts and r :: "'a sched"
    by (induction ts arbitrary: r) (simp_all add: Suc.IH)
  then show ?case by (simp add: Let_def cancel_door_def sched_op_def)
qed simp

lemma cancel_scopes [simp]: "st_scopes (fold cancel_task ts s) = st_scopes s"
  by (induction ts arbitrary: s) (simp_all add: cancel_task_def cancel_walk_scopes del: cancel_walk.simps)

section \<open>Kills and exits\<close>

text \<open>A queued task's wake may be replaced by another.\<close>

lemma replace_wake_good:
  assumes "state_of_task s t = TsReady"
  shows "good_from s (upd_task t (\<lambda>e. e\<lparr>tc_wake := Some w\<rparr>) s)"
proof (cases "t < length (st_tasks s)")
  case False
  then show ?thesis by (simp add: upd_task_def)
next
  case t: True
  let ?s = "upd_task t (\<lambda>e. e\<lparr>tc_wake := Some w\<rparr>) s"
  have st: "state_of_task ?s u = state_of_task s u" if "u < length (st_tasks s)" for u
    by (rule state_upd_task) (use that in auto)
  have wk: "wake_of ?s u = (if u = t then Some w else wake_of s u)" if "u < length (st_tasks s)" for u
    using that by (simp add: wake_of_def upd_task_def nth_modify_at)
  have rd: "st_ready ?s = st_ready s" by (simp add: upd_task_def)
  show ?thesis unfolding good_from_def
  proof (intro impI conjI allI)
    assume ok: "sched_ok s"
    then have nr: "\<not> registered t s" using assms by (auto simp: sched_ok_def reg_ok_def)
    have "reg_ok ?s"
      unfolding reg_ok_def
    proof (intro allI conjI impI)
      fix u
      show "excl_count u ?s \<le> 1" "selecting u ?s \<Longrightarrow> excl_count u ?s = 0"
        using ok by (simp_all add: sched_ok_def reg_ok_def)
      assume "registered u ?s"
      then have "registered u s" "u \<noteq> t" using nr by auto
      with ok st [of u] wk [of u] show "u < length (st_tasks ?s)"
        "state_of_task ?s u \<in> {TsBlocked, TsRunning}" "wake_of ?s u = None"
        by (simp_all add: sched_ok_def reg_ok_def)
    qed
    moreover have "queue_ok ?s" unfolding queue_ok_def rd using ok st by (auto simp: sched_ok_def queue_ok_def)
    moreover have "wake_ok ?s" using ok st wk assms by (auto simp: sched_ok_def wake_ok_def)
    moreover have "baton_ok ?s" using ok st by (simp add: sched_ok_def baton_ok_def)
    moreover have "scope_ok ?s"
      by (rule scope_ok_mono [of s]) (use ok in \<open>simp_all add: sched_ok_def upd_task_def map_modify_at_id registered_def excl_count_def selecting_def\<close>)
    ultimately show "sched_ok ?s" by (simp add: sched_ok_def)
    show "only_wakes s ?s" using st by (simp add: only_wakes_def) (simp add: upd_task_def)
    show "quiet u ?s" if "quiet u s" for u
      using that assms st [of u] wk [of u] by (auto simp: quiet_def)
  qed
qed

lemma kill_member_good:
  assumes t: "t < length (st_tasks s)"
  shows "good_from s (kill_member a t s)"
proof (cases "sched_ok s")
  case False
  then show ?thesis by (simp add: good_from_def)
next
  case ok: True
  let ?s0 = "sched_op a (OkTaskCtl t) True s"
  let ?s1 = "upd_task t (\<lambda>e. e\<lparr>tc_killed := True\<rparr>) ?s0"
  have sh: "shrinks s ?s1"
    by (rule shrinks_trans [OF shrinks_op [where t = a and obj = "OkTaskCtl t" and w = True] shrinks_upd_task]) simp
  note g = shrinks_from [OF sh]
  have t1: "t < length (st_tasks ?s1)" using t by (simp add: sched_op_def)
  have st: "tc_state (task_at ?s1 t) = state_of_task s t"
    using t by (simp add: state_of_task_def upd_task_def sched_op_def)
  show ?thesis
  proof (cases "state_of_task s t")
    case TsFresh
    with ok_not_fresh [OF ok t] show ?thesis by simp
  next
    case TsReady
    let ?s2 = "deregister t ?s1"
    have "state_of_task ?s2 t = TsReady" using st TsReady by (simp add: state_of_task_def deregister_def)
    from good_from_trans [OF good_from_trans [OF g shrinks_from [OF shrinks_deregister]] replace_wake_good [OF this]]
    show ?thesis using st TsReady by (simp add: kill_member_def Let_def)
  next
    case TsRunning
    with g st show ?thesis by (simp add: kill_member_def Let_def)
  next
    case TsBlocked
    then have "registered t s \<or> state_of_task s t = TsBlocked" by simp
    from deregister_woken [OF g this t1] TsBlocked st show ?thesis by (simp add: kill_member_def Let_def)
  next
    case TsDone
    with g st show ?thesis by (simp add: kill_member_def Let_def)
  qed
qed

lemma live_members_lt: "t \<in> set (live_members p s) \<Longrightarrow> t < length (st_tasks s)"
  by (simp add: live_members_def indices_where_def)

lemma kill_members_good: "good_from s (kill_members p s)"
  unfolding kill_members_def Let_def
  by (rule good_from_trans [OF shrinks_from [OF shrinks_op [where t = "actor s" and obj = "OkProc p" and w = True]]])
    (rule fold_from, auto dest!: live_members_lt intro: kill_member_good)

lemma collect_good:
  "(\<And>x r. good_from r (snd (f x r))) \<Longrightarrow> good_from s (snd (collect_regions f xs s))"
proof (induction xs arbitrary: s)
  case (Cons x xs)
  then show ?case by (auto simp: Let_def split: prod.splits) (metis good_from_trans snd_conv)
qed simp

lemma shrinks_pending: "shrinks s (s\<lparr>st_pending := q\<rparr>)"
  by (simp add: shrinks_def view_def excl_count_def selecting_def)

lemma record_exit_shrinks: "shrinks s (record_exit p reason s)"
  unfolding record_exit_def Let_def
  by (rule shrinks_trans [OF shrinks_trans [OF shrinks_op [where t = "actor s" and obj = "OkProc p" and w = True] shrinks_upd_proc] shrinks_pending])

lemma deliver_exit_by_good:
  assumes "\<And>q r. good_from r (snd (k q r))"
  shows "good_from s (snd (deliver_exit_by k p reason s))"
proof -
  have r: "good_from s (record_exit p reason s)" by (rule shrinks_from [OF record_exit_shrinks])
  have "good_from (record_exit p reason s) (snd (collect_regions k xs (record_exit p reason s)))" for xs
    by (rule collect_good [OF assms])
  with r have "good_from s (snd (collect_regions k xs (record_exit p reason s)))" for xs
    by (rule good_from_trans)
  then show ?thesis using r by (auto simp: deliver_exit_by_def Let_def split: prod.splits) (metis snd_conv)
qed

lemma kill_walk_good: "good_from s (snd (kill_walk n p s))"
proof (induction n arbitrary: p s)
  case (Suc n)
  have "good_from (kill_members p s) (snd (deliver_exit_by (kill_walk n) p ExKilled (kill_members p s)))"
    by (rule deliver_exit_by_good [OF Suc.IH])
  with kill_members_good [of s p] show ?case by (auto intro: good_from_trans)
qed simp

lemma kill_proc_good: "good_from s (snd (kill_proc p s))"
  unfolding kill_proc_def by (rule kill_walk_good)

lemma deliver_exit_good: "good_from s (snd (deliver_exit p reason s))"
  unfolding deliver_exit_def by (rule deliver_exit_by_good [OF kill_proc_good])

lemma publish_good: "good_from s (publish_pending s)"
proof -
  have one: "good_from r (publish_one a x c r)" for a x c and r :: "'a sched"
    unfolding publish_one_def
    by (rule good_from_trans [OF shrinks_from [OF shrinks_trans [OF shrinks_op [where t = a and obj = "OkChan c" and w = True]]] settle_good])
      (rule shrinks_data)
  have "good_from s (s\<lparr>st_pending := []\<rparr>)" by (rule shrinks_from [OF shrinks_pending])
  moreover have "good_from (s\<lparr>st_pending := []\<rparr>)
      (fold (\<lambda>x. fold (publish_one (actor s) x) (pe_monitors x)) (st_pending s) (s\<lparr>st_pending := []\<rparr>))"
    by (rule fold_from, rule fold_from, rule one)
  ultimately show ?thesis unfolding publish_pending_def by (rule good_from_trans)
qed

lemma cancel_proc_good: "good_from s (cancel_proc p s)"
  unfolding cancel_proc_def Let_def
  by (rule good_from_trans [OF shrinks_from [OF shrinks_op [where t = "actor s" and obj = "OkProc p" and w = True]] cancel_all_good])
    (rule live_members_lt)

section \<open>The end of a task\<close>

lemma scope_at_ok:
  assumes "sched_ok s" and "i < length (st_scopes s)"
  shows "sc_owner (scope_at s i) < length (st_tasks s)"
    and "t \<in> set (sc_children (scope_at s i)) \<Longrightarrow> t < length (st_tasks s)"
    and "sc_joining (scope_at s i) \<Longrightarrow> \<not> registered (sc_owner (scope_at s i)) s"
  using assms nth_mem [OF assms(2)] by (auto simp: sched_ok_def scope_ok_def)

lemma fail_scope_good:
  assumes i: "i < length (st_scopes s)"
  shows "good_from s (fail_scope me i e s)"
proof (cases "sched_ok s")
  case False
  then show ?thesis by (simp add: good_from_def)
next
  case ok: True
  let ?s1 = "upd_scope i (\<lambda>x. x\<lparr>sc_failures := sc_failures x @ [e]\<rparr>) s"
  have sh: "shrinks s ?s1" by (rule shrinks_upd_scope) simp
  have ok1: "sched_ok ?s1" by (rule shrinks_ok [OF ok sh])
  have i1: "i < length (st_scopes ?s1)" using i by (simp add: upd_scope_def)
  define s2 where "s2 = fold cancel_task (filter (\<lambda>t. t \<noteq> me) (sc_children (scope_at ?s1 i))) ?s1"
  have g12: "good_from ?s1 s2" unfolding s2_def
    by (rule cancel_all_good) (use scope_at_ok [OF ok1 i1] in auto)
  have g: "good_from s s2" by (rule good_from_trans [OF shrinks_from [OF sh] g12])
  have "good_from s (cancel_task (sc_owner (scope_at s2 i)) s2)" if "length (st_scopes s2) = length (st_scopes s)"
    using good_from_trans [OF g cancel_task_good] scope_at_ok(1) [OF good_from_ok [OF g ok], of i] i that by simp
  moreover have "length (st_scopes s2) = length (st_scopes s)"
    unfolding s2_def by (simp add: upd_scope_def cancel_scopes)
  ultimately show ?thesis using g by (simp add: fail_scope_def Let_def flip: s2_def)
qed

lemma fail_scope_length: "length (st_scopes (fail_scope me i e s)) = length (st_scopes s)"
  by (simp add: fail_scope_def Let_def upd_scope_def) (simp add: cancel_task_def cancel_walk_scopes upd_scope_def del: cancel_walk.simps)

lemma still_blocked:
  "good_from s s' \<Longrightarrow> sched_ok s \<Longrightarrow> t < length (st_tasks s) \<Longrightarrow> state_of_task s' t = TsBlocked \<Longrightarrow>
     state_of_task s t = TsBlocked"
  unfolding good_from_def only_wakes_def by (metis task_state.distinct(13))

lemma settle_scope_good:
  assumes i: "i < length (st_scopes s)"
  shows "good_from s (settle_scope me i e s)"
proof (cases "sched_ok s")
  case False
  then show ?thesis by (simp add: good_from_def)
next
  case ok: True
  define s1 where "s1 = (if failing e then fail_scope me i e s else s)"
  let ?o = "sc_owner (scope_at s1 i)"
  have g: "good_from s s1" using fail_scope_good [OF i] by (simp add: s1_def)
  note ok1 = good_from_ok [OF g ok]
  have i1: "i < length (st_scopes s1)" using i by (simp add: s1_def fail_scope_length)
  note sc = scope_at_ok [OF ok1 i1]
  have "good_from s (make_ready ?o (WkOk VUnit) s1)"
    if j: "sc_joining (scope_at s1 i)" and b: "tc_state (task_at s1 ?o) = TsBlocked"
  proof (rule woken [OF g])
    show "\<not> registered ?o s1" by (rule sc(3) [OF j])
    show "?o < length (st_tasks s1)" by (rule sc(1))
    have "state_of_task s ?o = TsBlocked"
      by (rule still_blocked [OF g ok]) (use sc(1) b good_from_length [OF g ok] in \<open>simp_all add: state_of_task_def\<close>)
    then show "registered ?o s \<or> state_of_task s ?o = TsBlocked" by simp
  qed
  with g show ?thesis by (simp add: settle_scope_def Let_def flip: s1_def)
qed

text \<open>The ending task gives up the baton; from there on the steps are good, and nobody runs.\<close>

definition calm :: "'c sched \<Rightarrow> bool" where
  "calm s \<longleftrightarrow> sched_ok s \<and> (\<forall>t < length (st_tasks s). state_of_task s t \<noteq> TsRunning)"

lemma good_calm: "good_from s s' \<Longrightarrow> calm s \<Longrightarrow> calm s'"
  unfolding calm_def good_from_def only_wakes_def by fastforce

lemma leave_baton_ok:
  assumes ok: "sched_ok s" and me: "me < length (st_tasks s)" "state_of_task s me = TsRunning"
    and f: "\<And>x. tc_state (f x) = st \<and> tc_wake (f x) = tc_wake x \<and> tc_scope (f x) = tc_scope x"
    and st: "st = TsDone \<and> \<not> registered me s \<and> q = st_ready s \<or> st = TsBlocked \<and> wake_of s me = None \<and> q = st_ready s \<or>
        st = TsReady \<and> wake_of s me \<noteq> None \<and> q = st_ready s @ [me]"
  shows "calm ((upd_task me f s)\<lparr>st_ready := q\<rparr>)"
proof -
  let ?s = "(upd_task me f s)\<lparr>st_ready := q\<rparr>"
  have l: "length (st_tasks ?s) = length (st_tasks s)" by (simp add: upd_task_def)
  have stt: "state_of_task ?s u = (if u = me then st else state_of_task s u)" if "u < length (st_tasks s)" for u
    using that f by (simp add: state_of_task_def upd_task_def nth_modify_at)
  have wk: "wake_of ?s u = wake_of s u" if "u < length (st_tasks s)" for u
    using that f by (simp add: wake_of_def upd_task_def nth_modify_at)
  have regs: "excl_count u ?s = excl_count u s" "selecting u ?s = selecting u s" "registered u ?s = registered u s" for u
    by (simp_all add: excl_count_def selecting_def registered_def upd_task_def)
  have reg: "reg_ok s" and qo: "queue_ok s" and wo: "wake_ok s" and bo: "baton_ok s" and so: "scope_ok s"
    using ok by (simp_all add: sched_ok_def)
  have nq: "me \<notin> set (st_ready s)" using qo me by (simp add: queue_ok_def)
  have rest: "state_of_task s u \<noteq> TsRunning" if "u < length (st_tasks s)" "u \<noteq> me" for u
    using bo me that by (auto simp: baton_ok_def)
  have "reg_ok ?s"
    unfolding reg_ok_def
  proof (intro allI conjI impI)
    fix u
    show "excl_count u ?s \<le> 1" "selecting u ?s \<Longrightarrow> excl_count u ?s = 0" using reg by (simp_all add: regs reg_ok_def)
    assume "registered u ?s"
    then have r: "registered u s" by (simp add: regs)
    then have u: "u < length (st_tasks s)" "wake_of s u = None" "state_of_task s u \<in> {TsBlocked, TsRunning}"
      using reg by (simp_all add: reg_ok_def)
    then show "u < length (st_tasks ?s)" "wake_of ?s u = None" using l wk [of u] by simp_all
    show "state_of_task ?s u \<in> {TsBlocked, TsRunning}" using st r u stt [of u] by auto
  qed
  moreover have "queue_ok ?s" unfolding queue_ok_def l using qo st me nq stt by (auto simp: queue_ok_def split: if_splits)
  moreover have "wake_ok ?s" unfolding wake_ok_def l using wo st wk stt me by (auto simp: wake_ok_def split: if_splits)
  moreover have "baton_ok ?s" unfolding baton_ok_def l using st rest stt by (auto split: if_splits)
  moreover have "scope_ok ?s"
  proof (rule scope_ok_mono [OF so])
    show "registered t ?s \<Longrightarrow> registered t s" for t by (simp only: regs)
  qed (use f in \<open>simp_all add: upd_task_def map_modify_at_id\<close>)
  ultimately have "sched_ok ?s" by (simp add: sched_ok_def)
  then show ?thesis using st rest stt l by (auto simp: calm_def)
qed

end
