(* ===== verification/SchedBaton.thy ===== *)
theory SchedBaton
  imports SchedInvTask
begin

text \<open>
  The baton. When the running task parks or ends, the scheduling loop finds the next task: the rounds it
  is given are enough, it comes back empty exactly when nothing is queued, no timer runs and nobody
  sleeps, and then the deadlock verdict wakes every blocked task. So the baton is never dropped.
\<close>

text \<open>What is assumed of the operating system: its clock does not run backwards, and a sleep lasts at
  least as long as asked.\<close>

definition lawful :: "env \<Rightarrow> bool" where
  "lawful e \<longleftrightarrow> (\<forall>t. t \<le> en_read e t) \<and> (\<forall>t d. d \<le> en_sleep e t d)"

definition idle :: "'c sched \<Rightarrow> bool" where
  "idle s \<longleftrightarrow> st_ready s = [] \<and> st_timers s = [] \<and> st_real_sleeps s = []"

section \<open>The loop finds a task\<close>

lemma make_ready_keeps_queue: "st_ready s \<noteq> [] \<Longrightarrow> st_ready (make_ready t w s) \<noteq> []"
  by (simp add: make_ready_queue)

lemma make_ready_queues: "state_of_task s t = TsBlocked \<Longrightarrow> st_ready (make_ready t w s) \<noteq> []"
  by (simp add: make_ready_queue)

lemma deregister_ready [simp]:
  "st_ready (deregister t s) = st_ready s" "st_tasks (deregister t s) = st_tasks s" "state_of_task (deregister t s) u = state_of_task s u"
  by (simp_all add: deregister_def state_of_task_def)

lemma fold_keeps_queue:
  "(\<And>x r. st_ready r \<noteq> [] \<Longrightarrow> st_ready (f x r) \<noteq> []) \<Longrightarrow> st_ready s \<noteq> [] \<Longrightarrow> st_ready (fold f xs s) \<noteq> []"
  by (induction xs arbitrary: s) simp_all

lemma fold_queues:
  assumes "\<And>x r. st_ready r \<noteq> [] \<Longrightarrow> st_ready (f x r) \<noteq> []" and "xs \<noteq> []" and "st_ready (f (hd xs) s) \<noteq> []"
  shows "st_ready (fold f xs s) \<noteq> []"
proof -
  obtain x ys where xs: "xs = x # ys" using assms(2) by (cases xs) simp_all
  have "st_ready (fold f ys (f x s)) \<noteq> []"
    by (rule fold_keeps_queue [OF assms(1)]) (use assms(3) xs in simp_all)
  then show ?thesis by (simp add: xs)
qed

lemma wake_sleeper_queue:
  "st_ready r \<noteq> [] \<Longrightarrow> st_ready (wake_sleeper x r) \<noteq> []"
  "state_of_task r (rs_task x) = TsBlocked \<Longrightarrow> st_ready (wake_sleeper x r) \<noteq> []"
  by (simp_all add: wake_sleeper_def make_ready_keeps_queue make_ready_queues state_of_task_def)

lemma fire_timer_queue:
  "st_ready r \<noteq> [] \<Longrightarrow> st_ready (fire_timer x r) \<noteq> []"
  "state_of_task r (tm_task x) = TsBlocked \<Longrightarrow> st_ready (fire_timer x r) \<noteq> []"
  by (simp_all add: fire_timer_def make_ready_queue state_of_task_def)

lemma calm_registered: "calm s \<Longrightarrow> registered t s \<Longrightarrow> t < length (st_tasks s) \<and> state_of_task s t = TsBlocked"
  by (auto simp: calm_def sched_ok_def reg_ok_def)

lemma promote_keeps_queue: "st_ready s \<noteq> [] \<Longrightarrow> st_ready (promote_due_sleeps e s) \<noteq> []"
proof -
  assume ne: "st_ready s \<noteq> []"
  have "st_ready (fold wake_sleeper xs r) \<noteq> []" if "st_ready r \<noteq> []" for xs and r :: "'a sched"
    using wake_sleeper_queue(1) that by (rule fold_keeps_queue)
  with ne show ?thesis by (simp add: promote_due_sleeps_def Let_def wake_sleeper_def [abs_def])
qed

text \<open>With a sleep that is due the promotion queues its sleeper; with none it only reads the clock.\<close>

lemma promote_wakes:
  assumes "calm s" and x: "x \<in> set (st_real_sleeps s)" and due: "rs_due x \<le> en_read e (st_wall s)"
  shows "st_ready (promote_due_sleeps e s) \<noteq> []"
proof -
  let ?now = "en_read e (st_wall s)"
  let ?due = "sort_key rs_seq (filter (\<lambda>x. rs_due x \<le> ?now) (st_real_sleeps s))"
  let ?s1 = "s\<lparr>st_wall := ?now, st_real_sleeps := filter (\<lambda>x. \<not> rs_due x \<le> ?now) (st_real_sleeps s)\<rparr>"
  have "x \<in> set ?due" using x due by simp
  then have ne: "?due \<noteq> []" by (metis empty_iff empty_set)
  then have "hd ?due \<in> set ?due" by (rule hd_in_set)
  then have "hd ?due \<in> set (st_real_sleeps s)" by simp
  from calm_registered [OF assms(1) sleep_registered [OF this]]
  have "state_of_task ?s1 (rs_task (hd ?due)) = TsBlocked" by (simp add: state_of_task_def)
  then have "st_ready (fold wake_sleeper ?due ?s1) \<noteq> []"
    by (intro fold_queues [OF wake_sleeper_queue(1) ne] wake_sleeper_queue(2))
  then show ?thesis using x by (auto simp: promote_due_sleeps_def Let_def wake_sleeper_def [abs_def])
qed

lemma promote_nothing_due:
  assumes "\<And>x. x \<in> set (st_real_sleeps s) \<Longrightarrow> \<not> rs_due x \<le> en_read e (st_wall s)"
  shows "promote_due_sleeps e s = (if st_real_sleeps s = [] then s else s\<lparr>st_wall := en_read e (st_wall s)\<rparr>)"
proof -
  have "filter (\<lambda>x. rs_due x \<le> en_read e (st_wall s)) (st_real_sleeps s) = []"
    using assms by (simp add: filter_empty_conv)
  moreover have "filter (\<lambda>x. \<not> rs_due x \<le> en_read e (st_wall s)) (st_real_sleeps s) = st_real_sleeps s"
    using assms by (intro filter_True) blast
  ultimately show ?thesis by (simp add: promote_due_sleeps_def Let_def)
qed

lemma advance_wakes:
  assumes "calm s" and ne: "st_timers s \<noteq> []"
  shows "fst (advance_clock s) \<and> st_ready (snd (advance_clock s)) \<noteq> []"
proof -
  let ?earliest = "Min (set (map tm_deadline (st_timers s)))"
  let ?clk = "max (st_clock s) ?earliest"
  let ?s1 = "s\<lparr>st_clock := ?clk, st_timers := filter (\<lambda>x. \<not> tm_deadline x \<le> ?clk) (st_timers s)\<rparr>"
  let ?due = "sort_key tm_deadline (sort_key tm_seq (filter (\<lambda>x. tm_deadline x \<le> ?clk) (st_timers s)))"
  have "?earliest \<in> set (map tm_deadline (st_timers s))" using ne by (intro Min_in) simp_all
  then obtain x where "x \<in> set (st_timers s)" "tm_deadline x = ?earliest" by auto
  then have "x \<in> set ?due" by simp
  then have due: "?due \<noteq> []" by (metis empty_iff empty_set)
  then have "hd ?due \<in> set ?due" by (rule hd_in_set)
  then have "hd ?due \<in> set (st_timers s)" by simp
  from calm_registered [OF assms(1) timer_registered [OF this]]
  have "state_of_task ?s1 (tm_task (hd ?due)) = TsBlocked" by (simp add: state_of_task_def)
  then have "st_ready (fold fire_timer ?due ?s1) \<noteq> []"
    by (intro fold_queues [OF fire_timer_queue(1) due] fire_timer_queue(2))
  then show ?thesis using ne due by (simp add: advance_clock_def Let_def)
qed

lemma advance_no_timers: "st_timers s = [] \<Longrightarrow> advance_clock s = (False, s)"
  by (simp add: advance_clock_def)

text \<open>One round with a queue picks; without one it leaves a queue, or a sleep that is due, behind.\<close>

lemma round_picks: "st_ready s \<noteq> [] \<Longrightarrow> fst (choose_loop e (Suc n) s) \<noteq> None"
  using promote_keeps_queue [of s e] by (auto simp: Let_def split: prod.splits)

lemma calm_wall: "calm s \<Longrightarrow> calm (s\<lparr>st_wall := w\<rparr>)"
  by (rule good_calm [OF shrinks_from]) (simp_all add: shrinks_def view_def excl_count_def selecting_def)

lemma choose_loop_finds:
  assumes e: "lawful e" and c: "calm s" and ni: "\<not> idle s"
  shows "fst (choose_loop e (Suc (Suc n)) s) \<noteq> None"
proof -
  let ?s1 = "promote_due_sleeps e s"
  show ?thesis
  proof (cases "st_ready ?s1 = []")
    case False
    then show ?thesis by (auto simp: Let_def split: prod.splits)
  next
    case noq: True
    then have none: "\<not> rs_due x \<le> en_read e (st_wall s)" if "x \<in> set (st_real_sleeps s)" for x
      using promote_wakes [OF c that] by blast
    have s1: "?s1 = (if st_real_sleeps s = [] then s else s\<lparr>st_wall := en_read e (st_wall s)\<rparr>)"
      by (rule promote_nothing_due [OF none])
    have c1: "calm ?s1" unfolding s1 using c calm_wall [OF c] by simp
    show ?thesis
    proof (cases "st_timers ?s1 = []")
      case False
      from advance_wakes [OF c1 False] obtain s2 where a: "advance_clock ?s1 = (True, s2)" "st_ready s2 \<noteq> []"
        by (metis (full_types) prod.collapse)
      have "choose_loop e (Suc (Suc n)) s = choose_loop e (Suc n) s2"
        by (subst choose_loop.simps) (simp add: Let_def noq a)
      with round_picks [OF a(2)] show ?thesis by simp
    next
      case notimers: True
      note a = advance_no_timers [OF notimers]
      have sl: "st_real_sleeps ?s1 = st_real_sleeps s" by (simp add: s1)
      have nesl: "st_real_sleeps s \<noteq> []"
        using ni noq notimers by (auto simp: idle_def s1 split: if_splits)
      define w where "w = (let earliest = Min (set (map rs_due (st_real_sleeps ?s1))); now = en_read e (st_wall ?s1)
            in if now < earliest then en_sleep e now earliest else now)"
      let ?s2 = "?s1\<lparr>st_wall := w\<rparr>"
      have l: "choose_loop e (Suc (Suc n)) s = choose_loop e (Suc n) ?s2"
        by (subst choose_loop.simps) (simp add: Let_def noq a nesl sl w_def)
      have "Min (set (map rs_due (st_real_sleeps s))) \<in> set (map rs_due (st_real_sleeps s))"
        using nesl by (intro Min_in) simp_all
      then obtain x where x: "x \<in> set (st_real_sleeps s)" "rs_due x = Min (set (map rs_due (st_real_sleeps s)))"
        by auto
      have "rs_due x \<le> w" using e x(2) by (simp add: w_def Let_def sl lawful_def)
      then have "rs_due x \<le> en_read e w" using e by (meson lawful_def le_trans)
      then have "st_ready (promote_due_sleeps e ?s2) \<noteq> []"
        using promote_wakes [OF calm_wall [OF c1], of x w e] x(1) sl by simp
      then show ?thesis unfolding l by (auto simp: Let_def split: prod.splits)
    qed
  qed
qed

lemma choose_next_finds:
  assumes "lawful e" and "calm s"
  shows "fst (choose_next e s) = None \<longleftrightarrow> idle s"
proof (cases "idle s")
  case True
  then show ?thesis
    by (simp add: choose_next_def idle_def promote_due_sleeps_def advance_no_timers Let_def)
next
  case False
  show ?thesis
  proof (cases "st_ready s = []")
    case True
    with False obtain n where "length (st_timers s) + 2 * length (st_real_sleeps s) + 1 = Suc (Suc n)"
      by (cases "st_timers s"; cases "st_real_sleeps s") (auto simp: idle_def)
    with choose_loop_finds [OF assms False, of n] False show ?thesis by (simp only: choose_next_def simp_thms)
  next
    case ne: False
    from round_picks [OF ne, of e "length (st_timers s) + 2 * length (st_real_sleeps s)"] False
    show ?thesis by (simp only: choose_next_def add_Suc_right add_0_right One_nat_def simp_thms)
  qed
qed

lemma choose_next_idle: "idle s \<Longrightarrow> choose_next e s = (None, s)"
  by (simp add: choose_next_def idle_def promote_due_sleeps_def advance_no_timers Let_def)

section \<open>The next task runs\<close>

definition holds_baton :: "task_id \<Rightarrow> 'c sched \<Rightarrow> bool" where
  "holds_baton t s \<longleftrightarrow> t < length (st_tasks s) \<and> state_of_task s t = TsRunning \<and> \<not> registered t s"

lemma set_running_ok:
  assumes h: "handing_to t s" and c: "\<forall>u < length (st_tasks s). state_of_task s u \<noteq> TsRunning"
  shows "sched_ok (set_running t s) \<and> holds_baton t (set_running t s)"
proof -
  let ?s = "set_running t s"
  have ok: "sched_ok (s\<lparr>st_ready := st_ready s @ [t]\<rparr>)" and nq: "t \<notin> set (st_ready s)"
    using h by (simp_all add: handing_to_def)
  then have reg: "reg_ok s" and wo: "wake_ok s" and so: "scope_ok s"
    and qo: "distinct (st_ready s)" "\<And>u. u \<in> set (st_ready s @ [t]) \<longleftrightarrow> u < length (st_tasks s) \<and> state_of_task s u = TsReady"
    by (simp_all add: sched_ok_def reg_ok_def wake_ok_def scope_ok_def queue_ok_def)
  have t: "t < length (st_tasks s)" "state_of_task s t = TsReady" using qo(2) [of t] by simp_all
  have nr: "\<not> registered t s" using reg t by (auto simp: reg_ok_def)
  have l: "length (st_tasks ?s) = length (st_tasks s)" by (simp add: set_running_def)
  have st: "state_of_task ?s u = (if u = t then TsRunning else state_of_task s u)" if "u < length (st_tasks s)" for u
    using that by (simp add: state_of_task_def set_running_def upd_task_def nth_modify_at)
  have wk: "wake_of ?s u = wake_of s u" if "u < length (st_tasks s)" for u
    using that by (simp add: wake_of_def set_running_def upd_task_def nth_modify_at)
  have regs: "excl_count u ?s = excl_count u s" "selecting u ?s = selecting u s" "registered u ?s = registered u s" for u
    by (simp_all add: set_running_def)
  have rd: "st_ready ?s = st_ready s" by (simp add: set_running_def upd_task_def)
  have "reg_ok ?s"
    unfolding reg_ok_def regs l
  proof (intro allI conjI impI)
    fix u
    show "excl_count u s \<le> 1" "selecting u s \<Longrightarrow> excl_count u s = 0" using reg by (simp_all add: reg_ok_def)
    assume r: "registered u s"
    then have "u \<noteq> t" using nr by blast
    with r reg st [of u] wk [of u] show "u < length (st_tasks s)" "state_of_task ?s u \<in> {TsBlocked, TsRunning}"
      "wake_of ?s u = None" by (simp_all add: reg_ok_def)
  qed
  moreover have "u \<in> set (st_ready s) \<longleftrightarrow> u < length (st_tasks s) \<and> state_of_task ?s u = TsReady" for u
    using qo(2) [of u] nq t st [of u] by (cases "u = t") auto
  then have "queue_ok ?s" unfolding queue_ok_def rd l using qo(1) by blast
  moreover have "wake_ok ?s" unfolding wake_ok_def l using wo wk st by (auto simp: wake_ok_def)
  moreover have "baton_ok ?s" unfolding baton_ok_def l using c st by (auto split: if_splits)
  moreover have "scope_ok ?s"
  proof (rule scope_ok_mono [OF so])
    show "registered u ?s \<Longrightarrow> registered u s" for u by (simp only: regs)
  qed (simp_all add: set_running_def upd_task_def map_modify_at_id)
  ultimately have "sched_ok ?s" by (simp add: sched_ok_def)
  moreover have "holds_baton t ?s" using t st nr by (simp add: holds_baton_def l regs)
  ultimately show ?thesis by blast
qed

lemma choose_next_runs:
  assumes c: "calm s" and n: "choose_next e s = (Some t, s')"
  shows "sched_ok (set_running t s') \<and> holds_baton t (set_running t s') \<and> st_shutdown s' = st_shutdown s"
proof -
  have ok: "sched_ok s" using c by (simp add: calm_def)
  from choose_loop_good [OF ok n [unfolded choose_next_def]]
  have w: "only_wakes s s'" and h: "handing_to t s'" by simp_all
  have "\<forall>u < length (st_tasks s'). state_of_task s' u \<noteq> TsRunning"
    using w c by (fastforce simp: only_wakes_def calm_def)
  from set_running_ok [OF h this] w show ?thesis by (simp add: only_wakes_def)
qed

end
