(* ===== verification/SchedBlock.thy ===== *)
theory SchedBlock
  imports SchedBaton
begin

text \<open>
  The blocking operations and the parks. The running task registers itself, the channel is settled, and
  the operation completes at once or parks; both ends keep the invariant. \<open>runs me\<close> is the state in which
  the task's own code runs, \<open>waits me\<close> the one in which it is about to park.
\<close>

definition runs :: "task_id \<Rightarrow> 'c sched \<Rightarrow> bool" where
  "runs me s \<longleftrightarrow> sched_ok s \<and> quiet me s \<and> \<not> st_shutdown s"

definition waits_for :: "task_id \<Rightarrow> 'c sched \<Rightarrow> bool" where
  "waits_for me s \<longleftrightarrow> sched_ok s \<and> me < length (st_tasks s) \<and> state_of_task s me = TsRunning \<and>
     \<not> st_shutdown s"

definition ends_well :: "task_id \<Rightarrow> 'r outcome \<times> 'c sched \<Rightarrow> bool" where
  "ends_well me r \<longleftrightarrow> (if fst r = Parks then waits_for me (snd r) \<and> wake_of (snd r) me = None else runs me (snd r))"

lemma runs_good: "good_from s s' \<Longrightarrow> runs me s \<Longrightarrow> runs me s'"
  by (auto simp: runs_def good_from_def only_wakes_def)

lemma runs_waits: "runs me s \<Longrightarrow> waits_for me s"
  by (simp add: runs_def waits_for_def quiet_def)

lemma runs_shrinks: "shrinks s s' \<Longrightarrow> runs me s \<Longrightarrow> runs me s'"
  by (rule runs_good [OF shrinks_from])

lemma waits_good: "good_from s s' \<Longrightarrow> waits_for me s \<Longrightarrow> waits_for me s'"
  unfolding waits_for_def good_from_def only_wakes_def by fastforce

lemma ends_completes [simp]: "ends_well me (Completes x, s) \<longleftrightarrow> runs me s"
  "ends_well me (Panics, s) \<longleftrightarrow> runs me s" "ends_well me (Parks, s) \<longleftrightarrow> waits_for me s \<and> wake_of s me = None"
  by (simp_all add: ends_well_def)

section \<open>Registering\<close>

text \<open>A task that waits at no join may register.\<close>

definition at_no_join :: "task_id \<Rightarrow> 'c sched \<Rightarrow> bool" where
  "at_no_join me s \<longleftrightarrow> (\<forall>e \<in> set (st_scopes s). sc_joining e \<longrightarrow> sc_owner e \<noteq> me)"

lemma register_ok:
  assumes r: "runs me s" and nj: "at_no_join me s" and v: "view s' = view s"
    and others: "\<And>u. u \<noteq> me \<Longrightarrow> excl_count u s' \<le> excl_count u s \<and> (selecting u s' \<longrightarrow> selecting u s)"
    and one: "excl_count me s' \<le> 1" "selecting me s' \<Longrightarrow> excl_count me s' = 0"
  shows "waits_for me s' \<and> wake_of s' me = None"
proof -
  have ok: "sched_ok s" and q: "quiet me s" and sd: "\<not> st_shutdown s" using r by (simp_all add: runs_def)
  have sd': "st_shutdown s' = st_shutdown s" using v by (simp add: view_def)
  note V = view_eq [OF v]
  have me: "me < length (st_tasks s)" "state_of_task s me = TsRunning" "wake_of s me = None" "\<not> registered me s"
    using q by (simp_all add: quiet_def)
  have reg_other: "registered u s' \<Longrightarrow> u \<noteq> me \<Longrightarrow> registered u s" for u
    using others [of u] by (auto simp: registered_def)
  have "reg_ok s'"
    unfolding reg_ok_def V(1)
  proof (intro allI conjI impI)
    fix u
    show "excl_count u s' \<le> 1" using others [of u] one ok by (cases "u = me") (auto simp: sched_ok_def reg_ok_def intro: le_trans)
    show "selecting u s' \<Longrightarrow> excl_count u s' = 0"
      using others [of u] one ok by (cases "u = me") (auto simp: sched_ok_def reg_ok_def)
    assume u: "registered u s'"
    have *: "u < length (st_tasks s) \<and> state_of_task s u \<in> {TsBlocked, TsRunning} \<and> wake_of s u = None"
    proof (cases "u = me")
      case False
      with reg_other [OF u] ok show ?thesis by (simp add: sched_ok_def reg_ok_def)
    qed (use me in simp)
    then show "u < length (st_tasks s)" by simp
    with * V(3,4) [of u] show "state_of_task s' u \<in> {TsBlocked, TsRunning}" "wake_of s' u = None" by simp_all
  qed
  moreover have "queue_ok s'" using ok V by (auto simp: sched_ok_def queue_ok_def)
  moreover have "wake_ok s'" using ok V by (simp add: sched_ok_def wake_ok_def)
  moreover have "baton_ok s'" using ok V by (simp add: sched_ok_def baton_ok_def)
  moreover have "scope_ok s'"
  proof -
    have so: "scope_ok s" using ok by (simp add: sched_ok_def)
    have "ow < length (st_tasks s) \<and> set cs \<subseteq> {..<length (st_tasks s)} \<and> (j \<longrightarrow> \<not> registered ow s')"
      if "(ow, cs, j) \<in> set (map (\<lambda>e. (sc_owner e, sc_children e, sc_joining e)) (st_scopes s))" for ow cs j
      using so that nj reg_other [of ow] by (auto simp: scope_ok_def at_no_join_def)
    then have "\<forall>(ow, cs, j) \<in> set (map (\<lambda>e. (sc_owner e, sc_children e, sc_joining e)) (st_scopes s)).
        ow < length (st_tasks s) \<and> set cs \<subseteq> {..<length (st_tasks s)} \<and> (j \<longrightarrow> \<not> registered ow s')" by blast
    moreover have "\<forall>x \<in> set (map tc_scope (st_tasks s)). \<forall>i. x = Some i \<longrightarrow> i < length (st_scopes s)"
      using so by (simp add: scope_ok_def)
    ultimately show ?thesis unfolding scope_ok_view [of s'] view_scopes [OF v] V(1) by blast
  qed
  ultimately have "sched_ok s'" by (simp add: sched_ok_def)
  with V me sd sd' show ?thesis by (simp add: waits_for_def)
qed

lemma selecting_upd_chan_same:
  assumes "\<And>e. ch_selecters (f e) = ch_selecters e"
  shows "selecting u (upd_chan c f s) = selecting u s"
proof -
  have "map ch_selecters (modify_at c f (st_chans s)) = map ch_selecters (st_chans s)"
    by (rule map_modify_at_id) (rule assms)
  from arg_cong [OF this, of set] have "(\<exists>e \<in> set (modify_at c f (st_chans s)). u \<in> fst ` set (ch_selecters e)) \<longleftrightarrow>
      (\<exists>e \<in> set (st_chans s). u \<in> fst ` set (ch_selecters e))"
    by (metis (no_types, lifting) image_iff list.set_map)
  then show ?thesis by (simp add: selecting_def) (simp add: upd_chan_def)
qed

lemma register_chan:
  assumes r: "runs me s" and nj: "at_no_join me s" and c: "c < length (st_chans s)"
    and f: "\<And>e u. chan_count u (f e) = chan_count u e + (if u = me then 1 else 0)"
    and sel: "\<And>e. ch_selecters (f e) = ch_selecters e"
  shows "waits_for me (upd_chan c f s) \<and> wake_of (upd_chan c f s) me = None"
proof (rule register_ok [OF r nj])
  have cnt: "excl_count u (upd_chan c f s) = excl_count u s + (if u = me then 1 else 0)" for u
    using count_upd_chan [OF c, of u f] f [of u "chan_at s c"] by auto
  have q: "excl_count me s = 0" "\<not> selecting me s" using r by (simp_all add: runs_def quiet_def registered_def)
  show "excl_count u (upd_chan c f s) \<le> excl_count u s \<and> (selecting u (upd_chan c f s) \<longrightarrow> selecting u s)" if "u \<noteq> me" for u
    using that by (simp add: cnt selecting_upd_chan_same [of f, OF sel])
  show "excl_count me (upd_chan c f s) \<le> 1" by (simp add: cnt q)
  show "excl_count me (upd_chan c f s) = 0" if "selecting me (upd_chan c f s)"
    using that q by (simp add: selecting_upd_chan_same [of f, OF sel])
qed simp

section \<open>Taking a wake\<close>

lemma take_wake_runs:
  assumes w: "waits_for me s" and nr: "\<not> registered me s"
  shows "runs me (take_wake me s)"
proof -
  let ?s = "take_wake me s"
  have ok: "sched_ok s" and me: "me < length (st_tasks s)" "state_of_task s me = TsRunning" and sd: "\<not> st_shutdown s"
    using w by (simp_all add: waits_for_def)
  have sd': "st_shutdown ?s = st_shutdown s" by (simp add: take_wake_def upd_task_def)
  have l: "length (st_tasks ?s) = length (st_tasks s)" by (simp add: take_wake_def)
  have st: "state_of_task ?s u = state_of_task s u" if "u < length (st_tasks s)" for u
    unfolding take_wake_def by (rule state_upd_task) (use that in simp_all)
  have wk: "wake_of ?s u = (if u = me then None else wake_of s u)" if "u < length (st_tasks s)" for u
    using that by (simp add: wake_of_def take_wake_def upd_task_def nth_modify_at)
  have regs: "excl_count u ?s = excl_count u s" "selecting u ?s = selecting u s" "registered u ?s = registered u s" for u
    by (simp_all add: take_wake_def)
  have rd: "st_ready ?s = st_ready s" by (simp add: take_wake_def upd_task_def)
  have "reg_ok ?s"
    unfolding reg_ok_def regs l
  proof (intro allI conjI impI)
    fix u
    show "excl_count u s \<le> 1" "selecting u s \<Longrightarrow> excl_count u s = 0" using ok by (simp_all add: sched_ok_def reg_ok_def)
    assume r: "registered u s"
    then show "u < length (st_tasks s)" "state_of_task ?s u \<in> {TsBlocked, TsRunning}" "wake_of ?s u = None"
      using ok st [of u] wk [of u] by (simp_all add: sched_ok_def reg_ok_def)
  qed
  moreover have "queue_ok ?s" unfolding queue_ok_def rd l using ok st by (auto simp: sched_ok_def queue_ok_def)
  moreover have "wake_ok ?s" unfolding wake_ok_def l using ok st wk me by (auto simp: sched_ok_def wake_ok_def)
  moreover have "baton_ok ?s" unfolding baton_ok_def l using ok st by (simp add: sched_ok_def baton_ok_def)
  moreover have "scope_ok ?s"
  proof (rule scope_ok_mono [of s])
    show "registered u ?s \<Longrightarrow> registered u s" for u by (simp only: regs)
  qed (use ok in \<open>simp_all add: sched_ok_def take_wake_def upd_task_def map_modify_at_id\<close>)
  ultimately show ?thesis using me nr st wk sd sd' by (simp add: runs_def sched_ok_def quiet_def l regs)
qed

lemma wake_unregisters: "sched_ok s \<Longrightarrow> wake_of s t \<noteq> None \<Longrightarrow> \<not> registered t s"
  by (auto simp: sched_ok_def reg_ok_def)

lemma settled_or_parks_ends: "waits_for me s \<Longrightarrow> ends_well me (settled_or_parks me s)"
proof -
  assume w: "waits_for me s"
  show ?thesis
  proof (cases "wake_of s me")
    case None
    with w show ?thesis by (simp add: settled_or_parks_def wake_of_def)
  next
    case (Some x)
    have "runs me (take_wake me s)"
      by (rule take_wake_runs [OF w wake_unregisters]) (use w Some in \<open>simp_all add: waits_for_def\<close>)
    moreover have "\<exists>y. resolve_chan x \<noteq> Parks" by (cases x) simp_all
    ultimately show ?thesis using Some by (cases x) (simp_all add: settled_or_parks_def wake_of_def)
  qed
qed

section \<open>Send, receive, close\<close>

text \<open>The guard of an operation that may wait: the caller is at no join, unless the operation returns at
  once because it was killed or cancelled.\<close>

definition may_wait :: "task_id \<Rightarrow> 'c sched \<Rightarrow> bool" where
  "may_wait me s \<longleftrightarrow> at_no_join me s \<or> tc_killed (task_at s me) \<or> tc_cancelled (task_at s me)"

lemma ops_frame [simp]:
  "at_no_join me (sched_op t obj w s) = at_no_join me s" "st_chans (sched_op t obj w s) = st_chans s"
  "st_mutexes (sched_op t obj w s) = st_mutexes s" "st_scopes (sched_op t obj w s) = st_scopes s"
  "st_tasks (sched_op t obj w s) = st_tasks s"
  by (simp_all add: at_no_join_def sched_op_def)

lemma runs_ops: "runs me s \<Longrightarrow> runs me (sched_op t obj w s)"
  by (rule runs_shrinks [OF shrinks_op])

lemma send_ends:
  assumes r: "runs me s" and g: "may_wait me s" and c: "c < length (st_chans s)"
  shows "ends_well me (send me c v s)"
proof -
  let ?s1 = "sched_op me (OkChan c) True (sched_op me (OkTaskCtl me) False s)"
  let ?f = "\<lambda>e :: 'a chan. e\<lparr>ch_senders := ch_senders e @ [(me, v)]\<rparr>"
  have r1: "runs me ?s1" by (intro runs_ops r)
  have "ends_well me (settled_or_parks me (settle_chan c (upd_chan c ?f ?s1)))" if "at_no_join me s"
  proof (rule settled_or_parks_ends, rule waits_good [OF settle_good])
    show "waits_for me (upd_chan c ?f ?s1)"
      using register_chan [OF r1, of c ?f] that c by (simp add: chan_count_def)
  qed
  then show ?thesis using r r1 g by (auto simp: send_def Let_def may_wait_def)
qed

lemma recv_ends:
  assumes r: "runs me s" and g: "may_wait me s" and c: "c < length (st_chans s)"
  shows "ends_well me (recv me c s)"
proof -
  let ?s1 = "sched_op me (OkChan c) True (sched_op me (OkTaskCtl me) False s)"
  let ?f = "\<lambda>e :: 'a chan. e\<lparr>ch_receivers := ch_receivers e @ [me]\<rparr>"
  have r1: "runs me ?s1" by (intro runs_ops r)
  have "ends_well me (settled_or_parks me (settle_chan c (upd_chan c ?f ?s1)))" if "at_no_join me s"
  proof (rule settled_or_parks_ends, rule waits_good [OF settle_good])
    show "waits_for me (upd_chan c ?f ?s1)"
      using register_chan [OF r1, of c ?f] that c by (simp add: chan_count_def)
  qed
  then show ?thesis using r g by (auto simp: recv_def Let_def may_wait_def)
qed

lemma close_runs: "runs me s \<Longrightarrow> c < length (st_chans s) \<Longrightarrow> runs me (close_chan c s)"
  by (rule runs_good [OF close_good])

end
