(* ===== verification/SchedSelect.thy ===== *)
theory SchedSelect
  imports SchedBlock
begin

text \<open>
  \<open>select\<close>, mutexes, scopes, spawns and the race detector keep the invariant of the running task.
\<close>

section \<open>Select\<close>

lemma runs_fold_ops: "runs me s \<Longrightarrow> runs me (fold (\<lambda>(a, c). sched_op me (OkChan c) True) arms s)"
  by (induction arms arbitrary: s) (auto intro: runs_ops)

lemma fold_ops_frame:
  "st_chans (fold (\<lambda>(a, c). sched_op me (OkChan c) True) arms s) = st_chans s"
  "st_clock (fold (\<lambda>(a, c). sched_op me (OkChan c) True) arms s) = st_clock s"
  "at_no_join me (fold (\<lambda>(a, c). sched_op me (OkChan c) True) arms s) = at_no_join me s"
  by (induction arms arbitrary: s) (auto, auto simp: sched_op_def)

lemma commit_arm_good: "c < length (st_chans s) \<Longrightarrow> good_from s (snd (commit_arm me a c s))"
proof -
  assume c: "c < length (st_chans s)"
  show ?thesis
  proof (cases "ch_buf (chan_at s c) = [] \<and> ch_senders (chan_at s c) = []")
    case True
    then show ?thesis by (simp add: commit_arm_def)
  next
    case False
    obtain v vc s1 where m: "take_message c s = ((v, vc), s1)" by (metis prod.collapse)
    have "good_from s s1" using take_message_good [OF c] False m by (metis snd_conv)
    moreover have "shrinks s1 (hb_edge vc me (upd_chan c (\<lambda>e. e\<lparr>ch_recvs := ch_recvs e + 1\<rparr>) s1))"
      by (rule shrinks_trans [OF _ shrinks_hb_edge]) simp
    ultimately show ?thesis using False m
      by (auto simp: commit_arm_def Let_def intro: good_from_trans shrinks_from)
  qed
qed

text \<open>Registering on every arm.\<close>

definition on_arms :: "task_id \<Rightarrow> (nat \<times> chan_id) list \<Rightarrow> 'c sched \<Rightarrow> 'c sched" where
  "on_arms me arms s = fold (\<lambda>(a, c). upd_chan c (\<lambda>e. e\<lparr>ch_selecters := ch_selecters e @ [(me, a)]\<rparr>)) arms s"

lemma excl_add_selecter: "excl_count u (upd_chan c (\<lambda>e. e\<lparr>ch_selecters := f e\<rparr>) s) = excl_count u s"
proof (cases "c < length (st_chans s)")
  case True
  from count_upd_chan [OF True, of u "\<lambda>e. e\<lparr>ch_selecters := f e\<rparr>"] show ?thesis by (simp add: chan_count_def)
qed (simp add: upd_chan_def)

lemma selecting_add_selecter:
  assumes "u \<noteq> me" and "selecting u (upd_chan c (\<lambda>e. e\<lparr>ch_selecters := ch_selecters e @ [(me, a)]\<rparr>) s)"
  shows "selecting u s"
proof -
  have "\<exists>d \<in> set (st_chans s). u \<in> fst ` set (ch_selecters d)"
    if "e \<in> set (modify_at c (\<lambda>e. e\<lparr>ch_selecters := ch_selecters e @ [(me, a)]\<rparr>) (st_chans s))" "u \<in> fst ` set (ch_selecters e)" for e
  proof -
    from that(1) obtain i where i: "i < length (st_chans s)"
      "e = modify_at c (\<lambda>e. e\<lparr>ch_selecters := ch_selecters e @ [(me, a)]\<rparr>) (st_chans s) ! i"
      by (auto simp: in_set_conv_nth)
    with that(2) assms(1) have "u \<in> fst ` set (ch_selecters (st_chans s ! i))" by (auto simp: nth_modify_at split: if_splits)
    with i(1) show ?thesis by (intro bexI [of _ "st_chans s ! i"]) auto
  qed
  with assms(2) show ?thesis by (auto simp: selecting_def upd_chan_def)
qed

lemma on_arms_props:
  "view (on_arms me arms s) = view s \<and> (\<forall>u. excl_count u (on_arms me arms s) = excl_count u s) \<and>
   (\<forall>u. u \<noteq> me \<longrightarrow> selecting u (on_arms me arms s) \<longrightarrow> selecting u s)"
proof (induction arms arbitrary: s)
  case (Cons x arms)
  obtain a c where x: "x = (a, c)" by (cases x)
  let ?s1 = "upd_chan c (\<lambda>e. e\<lparr>ch_selecters := ch_selecters e @ [(me, a)]\<rparr>) s"
  have "on_arms me (x # arms) s = on_arms me arms ?s1" by (simp add: on_arms_def x)
  with Cons.IH [of ?s1] show ?case using selecting_add_selecter [of _ me c a s] by (simp add: excl_add_selecter)
qed (simp add: on_arms_def)

lemma register_select_eq:
  "register_select me arms None s = on_arms me arms s"
  "register_select me arms (Some (a, d)) s = (on_arms me arms s)\<lparr>st_timer_seq := st_timer_seq (on_arms me arms s) + 1,
     st_timers := st_timers (on_arms me arms s) @
       [\<lparr>tm_deadline = d, tm_seq = st_timer_seq (on_arms me arms s), tm_task = me, tm_arm = a\<rparr>]\<rparr>"
  by (simp_all add: register_select_def on_arms_def Let_def)

lemma selecting_timer:
  "selecting u (s\<lparr>st_timer_seq := n, st_timers := st_timers s @ [x]\<rparr>) \<longleftrightarrow> selecting u s \<or> u = tm_task x"
  by (auto simp: selecting_def)

lemma register_select_props:
  "view (register_select me arms timeout s) = view s"
  "excl_count u (register_select me arms timeout s) = excl_count u s"
  "selecting u (register_select me arms timeout s) \<Longrightarrow> u \<noteq> me \<Longrightarrow> selecting u s"
proof -
  note p = on_arms_props [of me arms s]
  obtain a d where t: "timeout = None \<or> timeout = Some (a, d)" by (metis not_None_eq surj_pair)
  show "view (register_select me arms timeout s) = view s"
    using t p by (auto simp: register_select_eq view_def)
  show "excl_count u (register_select me arms timeout s) = excl_count u s"
    using t p by (auto simp: register_select_eq excl_count_def)
  show "selecting u (register_select me arms timeout s) \<Longrightarrow> u \<noteq> me \<Longrightarrow> selecting u s"
    using t p by (auto simp: register_select_eq selecting_timer)
qed

lemma register_select_waits:
  assumes r: "runs me s" and nj: "at_no_join me s"
  shows "waits_for me (register_select me arms timeout s) \<and> wake_of (register_select me arms timeout s) me = None"
proof -
  have "excl_count me s = 0" using r by (simp add: runs_def quiet_def registered_def)
  then show ?thesis
    by (intro register_ok [OF r nj register_select_props(1)])
      (use register_select_props(3) in \<open>auto simp: register_select_props(2)\<close>)
qed

lemma select_ends:
  assumes r: "runs me s" and g: "may_wait me s" and c: "\<forall>(a, c) \<in> set arms. c < length (st_chans s)"
  shows "ends_well me (select me arms timeout s)"
proof -
  let ?s1 = "fold (\<lambda>(a, c). sched_op me (OkChan c) True) arms (sched_op me (OkTaskCtl me) False s)"
  let ?ready = "ready_arms arms timeout ?s1"
  have r1: "runs me ?s1" by (intro runs_fold_ops runs_ops r)
  obtain pick s2 where d: "decide DkArm ?ready ?s1 = (pick, s2)" by fastforce
  have r2: "runs me s2" using runs_shrinks [OF shrinks_decide [of ?s1 DkArm ?ready] r1] d by simp
  have ch2: "st_chans s2 = st_chans s"
    using d fold_ops_frame(1) [of me arms "sched_op me (OkTaskCtl me) False s"] by (auto simp: decide_def Let_def split: prod.splits)
  have commits: "ends_well me (case find (\<lambda>(b, c). b = x) arms of None \<Rightarrow> (Panics, s2)
      | Some (b, c) \<Rightarrow> let (r, s3) = commit_arm me x c s2 in (Completes (Inl r), s3))" for x
  proof (cases "find (\<lambda>(b, c). b = x) arms")
    case None
    with r2 show ?thesis by simp
  next
    case (Some y)
    obtain b ch where y: "y = (b, ch)" by (cases y)
    with find_SomeD [OF Some] c have "ch < length (st_chans s2)" by (auto simp: ch2)
    from runs_good [OF commit_arm_good [OF this] r2, of me x] Some y show ?thesis
      by (auto simp: Let_def split: prod.splits)
  qed
  have parks: "ends_well me (Parks, register_select me arms timeout ?s1)" if "at_no_join me s"
    using register_select_waits [OF r1] that by (simp add: fold_ops_frame)
  show ?thesis
    using r g r2 d commits parks by (auto simp: select_def Let_def may_wait_def)
qed

section \<open>Mutexes\<close>

lemma grant_shrinks: "shrinks s (grant m t s)"
  unfolding grant_def Let_def by (rule shrinks_trans [OF shrinks_upd_mutex shrinks_hb_edge]) simp

lemma register_mutex:
  assumes r: "runs me s" and nj: "at_no_join me s" and m: "m < length (st_mutexes s)"
  shows "waits_for me (upd_mutex m (\<lambda>e. e\<lparr>mx_waiters := mx_waiters e @ [me]\<rparr>) s) \<and>
    wake_of (upd_mutex m (\<lambda>e. e\<lparr>mx_waiters := mx_waiters e @ [me]\<rparr>) s) me = None"
proof (rule register_ok [OF r nj])
  let ?f = "\<lambda>e :: 'a mx. e\<lparr>mx_waiters := mx_waiters e @ [me]\<rparr>"
  have cnt: "excl_count u (upd_mutex m ?f s) = excl_count u s + (if u = me then 1 else 0)" for u
    using count_upd_mutex [OF m, of u ?f] by auto
  have q: "excl_count me s = 0" "\<not> selecting me s" using r by (simp_all add: runs_def quiet_def registered_def)
  show "excl_count u (upd_mutex m ?f s) \<le> excl_count u s \<and> (selecting u (upd_mutex m ?f s) \<longrightarrow> selecting u s)" if "u \<noteq> me" for u
    using that by (simp add: cnt)
  show "excl_count me (upd_mutex m ?f s) \<le> 1" by (simp add: cnt q)
  show "excl_count me (upd_mutex m ?f s) = 0" if "selecting me (upd_mutex m ?f s)"
    using that q by simp
qed simp

lemma acquire_ends:
  assumes r: "runs me s" and g: "may_wait me s" and m: "m < length (st_mutexes s)"
  shows "ends_well me (acquire me m s)"
proof -
  let ?s1 = "sched_op me (OkMutex m) True (sched_op me (OkTaskCtl me) False s)"
  have r1: "runs me ?s1" by (intro runs_ops r)
  have "runs me (grant m me ?s1)" by (rule runs_shrinks [OF grant_shrinks r1])
  moreover have "waits_for me (upd_mutex m (\<lambda>e. e\<lparr>mx_waiters := mx_waiters e @ [me]\<rparr>) ?s1) \<and>
    wake_of (upd_mutex m (\<lambda>e. e\<lparr>mx_waiters := mx_waiters e @ [me]\<rparr>) ?s1) me = None" if "at_no_join me s"
    by (rule register_mutex [OF r1]) (use that m in simp_all)
  ultimately show ?thesis using r g by (auto simp: acquire_def Let_def may_wait_def)
qed

lemma mutexes_frame [simp]:
  "length (st_mutexes (upd_mutex m f s)) = length (st_mutexes s)" "st_mutexes (tick t s) = st_mutexes s"
  "mutex_at (tick t s) m = mutex_at s m" "st_mutexes (hb_edge vc t s) = st_mutexes s"
  by (simp_all add: upd_mutex_def tick_def upd_task_def hb_edge_def)

lemma release_good: "m < length (st_mutexes s) \<Longrightarrow> good_from s (release_mutex me m v s)"
proof (cases "sched_ok s")
  case False
  then show ?thesis by (simp add: good_from_def)
next
  case ok: True
  assume m: "m < length (st_mutexes s)"
  define s1 where "s1 = upd_mutex m (\<lambda>e. e\<lparr>mx_value := v, mx_holder := None\<rparr>) (sched_op me (OkMutex m) True s)"
  define s2 where "s2 = tick me (upd_mutex m (\<lambda>e. e\<lparr>mx_vc := merge_vc (mx_vc e) (tc_vc (task_at s1 me))\<rparr>) s1)"
  have eq: "release_mutex me m v s = (case mx_waiters (mutex_at s2 m) of [] \<Rightarrow> s2
      | t # _ \<Rightarrow> let s3 = grant m t (upd_mutex m (\<lambda>e. e\<lparr>mx_waiters := tl (mx_waiters e)\<rparr>) s2)
               in make_ready t (WkOk (mx_value (mutex_at s3 m))) s3)"
    unfolding release_mutex_def Let_def s1_def s2_def by (rule refl)
  have sh1: "shrinks s s1" unfolding s1_def
    by (rule shrinks_trans [OF shrinks_op [where t = me and obj = "OkMutex m" and w = True] shrinks_upd_mutex]) simp
  have sh2: "shrinks s1 s2" unfolding s2_def
    by (rule shrinks_trans [OF shrinks_upd_mutex shrinks_tick]) simp
  note g2 = shrinks_from [OF shrinks_trans [OF sh1 sh2]]
  note ok2 = good_from_ok [OF g2 ok]
  have m2: "m < length (st_mutexes s2)" using m by (simp add: s1_def s2_def)
  show ?thesis
  proof (cases "mx_waiters (mutex_at s2 m)")
    case Nil
    with g2 show ?thesis by (simp add: eq)
  next
    case (Cons t ts)
    let ?f = "\<lambda>e :: 'a mx. e\<lparr>mx_waiters := tl (mx_waiters e)\<rparr>"
    let ?s3 = "grant m t (upd_mutex m ?f s2)"
    have tl: "count_list (tl xs) u \<le> count_list xs u" for xs and u :: nat by (cases xs) auto
    have sh: "shrinks s2 (upd_mutex m ?f s2)" by (rule shrinks_upd_mutex) (simp add: tl)
    have lt: "excl_count t (upd_mutex m ?f s2) < excl_count t s2"
      using count_upd_mutex [OF m2, of t ?f] Cons by simp
    have nr: "\<not> registered t (upd_mutex m ?f s2)" by (rule popped [OF ok2 sh lt])
    have reg: "registered t s2" using lt by (simp add: registered_def)
    note sh3 = shrinks_trans [OF sh grant_shrinks [where m = m and t = t]]
    have "good_from s2 (make_ready t (WkOk (mx_value (mutex_at ?s3 m))) ?s3)"
    proof (rule woken [OF shrinks_from [OF sh3]])
      show "\<not> registered t ?s3" by (rule shrinks_unregistered [OF grant_shrinks nr])
      show "t < length (st_tasks ?s3)"
        using registered_lt [OF ok2 reg] good_from_length [OF shrinks_from [OF sh3] ok2] by simp
    qed (simp add: reg)
    with g2 have "good_from s (make_ready t (WkOk (mx_value (mutex_at ?s3 m))) ?s3)" by (rule good_from_trans)
    then show ?thesis using Cons by (simp add: eq Let_def)
  qed
qed

section \<open>Memory accesses, creation\<close>

lemma race_check_runs: "runs me s \<Longrightarrow> runs me (snd (race_check t key lo hi w s))"
proof -
  assume r: "runs me s"
  let ?s1 = "sched_op t (OkMem key) w s"
  have "shrinks ?s1 (?s1\<lparr>st_accesses := x\<rparr>)" for x
    by (simp add: shrinks_def view_def excl_count_def selecting_def)
  from runs_shrinks [OF this runs_ops [OF r]] runs_ops [OF r] r show ?thesis
    by (auto simp: race_check_def Let_def split: option.splits)
qed

lemma atomic_runs: "runs me s \<Longrightarrow> runs me (snd (atomic_access t key lo hi w s))"
proof -
  assume r: "runs me s"
  let ?s1 = "upd_task t (\<lambda>e. e\<lparr>tc_vc := merge_vc (tc_vc e) (st_atomic_clocks s (key, lo))\<rparr>) (sched_op t (OkMem key) w s)"
  have r1: "runs me ?s1" by (rule runs_shrinks [OF shrinks_upd_task runs_ops [OF r]]) simp
  have "shrinks ?s1 (tick t (?s1\<lparr>st_atomic_accesses := x, st_atomic_clocks := y\<rparr>))" for x y
    by (rule shrinks_trans [OF _ shrinks_tick]) (simp add: shrinks_def view_def excl_count_def selecting_def)
  from runs_shrinks [OF this r1] r1 r show ?thesis
    by (auto simp: atomic_access_def Let_def split: option.splits)
qed

lemma new_chan_runs: "runs me s \<Longrightarrow> runs me (snd (new_chan cap s))"
  by (rule runs_shrinks [of s]) (simp add: new_chan_def shrinks_def view_def excl_count_def selecting_def chan_count_def)

lemma new_mutex_runs: "runs me s \<Longrightarrow> runs me (snd (new_mutex v s))"
  by (rule runs_shrinks [of s]) (simp add: new_mutex_def shrinks_def view_def excl_count_def selecting_def)

lemma monitor_runs: "runs me s \<Longrightarrow> runs me (snd (monitor p s))"
proof -
  assume r: "runs me s"
  obtain c s1 where n: "new_chan u64_max s = (c, s1)" by fastforce
  have r1: "runs me s1" using new_chan_runs [OF r, of u64_max] n by simp
  let ?s2 = "upd_proc p (\<lambda>e. e\<lparr>pr_monitors := pr_monitors e @ [c]\<rparr>) (sched_op (actor s1) (OkProc p) True s1)"
  have r2: "runs me ?s2" by (rule runs_shrinks [OF shrinks_upd_proc runs_ops [OF r1]])
  then show ?thesis
    by (auto simp: monitor_def n Let_def split: option.splits intro: runs_shrinks [OF shrinks_data(1)])
qed

lemma link_runs: "runs me s \<Longrightarrow> runs me (link_procs a b s)"
  unfolding link_procs_def Let_def by (intro runs_shrinks [OF shrinks_upd_proc] runs_ops)

end
