(* ===== verification/SchedRun.thy ===== *)
theory SchedRun
  imports SchedSelect
begin

text \<open>
  The sim scheduler as a machine: the running task performs one operation after another; an operation
  that blocks parks it, and the task the baton goes to resumes. \<open>guarded_machine\<close> of theory Prelude is
  interpreted on it, with the invariant that the scheduler is consistent and either one task runs or all
  are done.
\<close>

section \<open>Parking\<close>

lemma declare_queues:
  assumes "me < length (st_tasks s)" and "state_of_task s me = TsBlocked"
  shows "st_ready (declare_deadlock s) \<noteq> []"
proof -
  let ?r = "blocked_roster s"
  let ?f = "\<lambda>t r. make_ready t (WkDeadlock ?r) (deregister t r)"
  let ?s = "s\<lparr>st_deadlocked := True\<rparr>"
  have "me \<in> set ?r" using assms by (simp add: blocked_roster_def indices_where_def state_of_task_def)
  then have ne: "?r \<noteq> []" by auto
  have "hd ?r \<in> set ?r" by (rule hd_in_set [OF ne])
  then have "state_of_task ?s (hd ?r) = TsBlocked"
    by (simp add: blocked_roster_def indices_where_def state_of_task_def)
  then have "st_ready (?f (hd ?r) ?s) \<noteq> []" by (intro make_ready_queues) simp
  moreover have "st_ready (?f x r) \<noteq> []" if "st_ready r \<noteq> []" for x and r :: "'a sched"
    using that by (intro make_ready_keeps_queue) simp
  ultimately have "st_ready (fold ?f ?r ?s) \<noteq> []" by (intro fold_queues [of ?f ?r ?s] ne) auto
  then show ?thesis by (simp add: declare_deadlock_def Let_def)
qed

text \<open>The task that parks: blocked, or queued when its wake is there already.\<close>

definition parked :: "task_id \<Rightarrow> 'c sched \<Rightarrow> 'c sched" where
  "parked me s =
     (if wake_of s me = None then upd_task me (\<lambda>x. x\<lparr>tc_state := TsBlocked\<rparr>) s
      else (upd_task me (\<lambda>x. x\<lparr>tc_state := TsReady\<rparr>) s)\<lparr>st_ready := st_ready s @ [me]\<rparr>)"

lemma parked_calm:
  assumes w: "waits_for me s"
  shows "calm (parked me s)"
    and "wake_of s me = None \<Longrightarrow> state_of_task (parked me s) me = TsBlocked"
    and "length (st_tasks (parked me s)) = length (st_tasks s)" and "st_shutdown (parked me s) = st_shutdown s"
proof -
  have ok: "sched_ok s" and me: "me < length (st_tasks s)" "state_of_task s me = TsRunning"
    using w by (simp_all add: waits_for_def)
  have b: "calm ((upd_task me (\<lambda>x. x\<lparr>tc_state := TsBlocked\<rparr>) s)\<lparr>st_ready := st_ready s\<rparr>)" if "wake_of s me = None"
    by (rule leave_baton_ok [OF ok me, where st = TsBlocked]) (use that in simp_all)
  have eq: "(upd_task me (\<lambda>x. x\<lparr>tc_state := TsBlocked\<rparr>) s)\<lparr>st_ready := st_ready s\<rparr> = upd_task me (\<lambda>x. x\<lparr>tc_state := TsBlocked\<rparr>) s"
    by (simp add: upd_task_def)
  have r: "calm ((upd_task me (\<lambda>x. x\<lparr>tc_state := TsReady\<rparr>) s)\<lparr>st_ready := st_ready s @ [me]\<rparr>)" if "wake_of s me \<noteq> None"
    by (rule leave_baton_ok [OF ok me, where st = TsReady]) (use that in simp_all)
  show "calm (parked me s)" using b r eq by (simp add: parked_def)
  show "wake_of s me = None \<Longrightarrow> state_of_task (parked me s) me = TsBlocked"
    using me by (simp add: parked_def state_of_task_def upd_task_def)
  show "length (st_tasks (parked me s)) = length (st_tasks s)" "st_shutdown (parked me s) = st_shutdown s"
    by (simp_all add: parked_def upd_task_def)
qed

lemma park_parked:
  "park e me s = (case (case choose_next e (parked me s) of
        (Some t, s2) \<Rightarrow> (Some t, s2)
      | (None, s2) \<Rightarrow> choose_next e (declare_deadlock s2)) of
     (n, s2) \<Rightarrow> (case n of None \<Rightarrow> s2 | Some t \<Rightarrow> set_running t s2))"
  by (simp add: park_def parked_def wake_of_def Let_def)

definition running_well :: "'c sched \<Rightarrow> bool" where
  "running_well s \<longleftrightarrow> sched_ok s \<and> (\<exists>t. holds_baton t s) \<and> \<not> st_shutdown s"

lemma declared_runs:
  assumes e: "lawful e" and c: "calm s" and ns: "\<not> st_shutdown s"
    and b: "t < length (st_tasks s)" "state_of_task s t = TsBlocked"
  shows "\<exists>u s2. choose_next e (declare_deadlock s) = (Some u, s2) \<and> running_well (set_running u s2)"
proof -
  have c1: "calm (declare_deadlock s)" by (rule good_calm [OF deadlock_good c])
  have "\<not> idle (declare_deadlock s)" using declare_queues [OF b] by (simp add: idle_def)
  then obtain u s2 where n: "choose_next e (declare_deadlock s) = (Some u, s2)"
    using choose_next_finds [OF e c1] by (metis not_None_eq prod.collapse)
  have "st_shutdown (declare_deadlock s) = st_shutdown s"
    using deadlock_good [of s] c by (simp add: good_from_def only_wakes_def calm_def)
  with choose_next_runs [OF c1 n] ns n show ?thesis
    by (auto simp: running_well_def set_running_def upd_task_def)
qed

lemma park_runs:
  assumes e: "lawful e" and w: "waits_for me s"
  shows "running_well (park e me s)"
proof -
  note P = parked_calm [OF w]
  have ns: "\<not> st_shutdown (parked me s)" using w P(4) by (simp add: waits_for_def)
  show ?thesis
  proof (cases "choose_next e (parked me s)")
    case (Pair n s2)
    show ?thesis
    proof (cases n)
      case (Some t)
      with Pair have n: "choose_next e (parked me s) = (Some t, s2)" by simp
      with choose_next_runs [OF P(1) n] ns show ?thesis
        by (auto simp: park_parked running_well_def set_running_def upd_task_def)
    next
      case None
      then have i: "idle (parked me s)" using choose_next_finds [OF e P(1)] Pair by simp
      then have s2: "s2 = parked me s" using choose_next_idle [OF i, of e] Pair None by simp
      have "wake_of s me = None"
      proof (rule ccontr)
        assume "wake_of s me \<noteq> None"
        then have "st_ready (parked me s) \<noteq> []" by (auto simp: parked_def)
        with i show False by (simp add: idle_def)
      qed
      then have "state_of_task (parked me s) me = TsBlocked" "me < length (st_tasks (parked me s))"
        using P(2,3) w by (simp_all add: waits_for_def)
      from declared_runs [OF e P(1) ns this(2,1)] show ?thesis
        using Pair None by (auto simp: park_parked s2)
    qed
  qed
qed

text \<open>At the end of a task the baton is handed on, or everything is done.\<close>

definition all_tasks_done :: "'c sched \<Rightarrow> bool" where
  "all_tasks_done s \<longleftrightarrow> (\<forall>t < length (st_tasks s). state_of_task s t = TsDone)"

lemma dispatch_runs:
  assumes e: "lawful e" and c: "calm s" and ns: "\<not> st_shutdown s"
  shows "running_well (dispatch_next e s) \<or> dispatch_next e s = s \<and> all_tasks_done s"
proof (cases "choose_next e s")
  case (Pair n s2)
  show ?thesis
  proof (cases n)
    case (Some t)
    with Pair have n: "choose_next e s = (Some t, s2)" by simp
    with choose_next_runs [OF c n] ns show ?thesis
      by (auto simp: dispatch_next_def running_well_def set_running_def upd_task_def)
  next
    case None
    then have i: "idle s" using choose_next_finds [OF e c] Pair by simp
    then have s2: "s2 = s" using choose_next_idle [OF i, of e] Pair None by simp
    show ?thesis
    proof (cases "\<exists>x \<in> set (st_tasks s). tc_state x = TsBlocked")
      case True
      then obtain t where "t < length (st_tasks s)" "state_of_task s t = TsBlocked"
        by (auto simp: in_set_conv_nth state_of_task_def)
      from declared_runs [OF e c ns this] True Pair None ns show ?thesis
        by (auto simp: dispatch_next_def s2)
    next
      case False
      have "state_of_task s t = TsDone" if t: "t < length (st_tasks s)" for t
      proof -
        have ok: "sched_ok s" and "state_of_task s t \<noteq> TsRunning" using c t by (simp_all add: calm_def)
        moreover have "state_of_task s t \<noteq> TsBlocked" using False t by (auto simp: state_of_task_def)
        moreover have "state_of_task s t \<noteq> TsReady" using ok i t by (auto simp: sched_ok_def queue_ok_def idle_def)
        moreover have "state_of_task s t \<noteq> TsFresh" by (rule ok_not_fresh [OF ok t])
        ultimately show ?thesis by (cases "state_of_task s t") simp_all
      qed
      with False Pair None ns show ?thesis by (simp add: dispatch_next_def s2 all_tasks_done_def)
    qed
  qed
qed

section \<open>Resuming\<close>

text \<open>The task the baton was given to takes its wake.\<close>

definition resume_next :: "'c sched \<Rightarrow> 'c sched" where
  "resume_next s = (case position (\<lambda>t. tc_state t = TsRunning) (st_tasks s) of None \<Rightarrow> s | Some t \<Rightarrow> snd (resume t s))"

lemma running_position:
  assumes "sched_ok s" and "t < length (st_tasks s)" and "state_of_task s t = TsRunning"
  shows "position (\<lambda>t. tc_state t = TsRunning) (st_tasks s) = Some t"
proof (cases "position (\<lambda>t. tc_state t = TsRunning) (st_tasks s)")
  case None
  then show ?thesis using assms(2,3) by (auto simp: position_None_iff state_of_task_def)
next
  case (Some u)
  from position_Some [OF this] have "u < length (st_tasks s)" "state_of_task s u = TsRunning"
    by (simp_all add: state_of_task_def)
  with assms have "u = t" by (auto simp: sched_ok_def baton_ok_def)
  with Some show ?thesis by simp
qed

lemma actor_running: "sched_ok s \<Longrightarrow> t < length (st_tasks s) \<Longrightarrow> state_of_task s t = TsRunning \<Longrightarrow> actor s = t"
  by (simp add: actor_def running_position)

lemma set_running_same: "t < length (st_tasks s) \<Longrightarrow> state_of_task s t = TsRunning \<Longrightarrow> set_running t s = s"
proof -
  assume t: "t < length (st_tasks s)" and "state_of_task s t = TsRunning"
  then have "(task_at s t)\<lparr>tc_state := TsRunning\<rparr> = task_at s t" by (cases "task_at s t") (simp add: state_of_task_def)
  then show ?thesis by (simp add: set_running_def upd_task_def modify_at_def)
qed

lemma resume_runs:
  assumes "running_well s"
  shows "\<exists>t. runs t (resume_next s)"
proof -
  obtain t where ok: "sched_ok s" and t: "t < length (st_tasks s)" "state_of_task s t = TsRunning" "\<not> registered t s"
    and ns: "\<not> st_shutdown s"
    using assms by (auto simp: running_well_def holds_baton_def)
  have "runs t (take_wake t s)" by (rule take_wake_runs) (use ok t ns in \<open>simp_all add: waits_for_def\<close>)
  then have "runs t (resume_next s)"
    using running_position [OF ok t(1,2)] set_running_same [OF t(1,2)] by (simp add: resume_next_def resume_def)
  then show ?thesis by blast
qed

end
