(* ===== verification/SchedMachine.thy ===== *)
theory SchedMachine
  imports SchedRun
begin

text \<open>
  Scopes and spawns, and the operations of the running task as one step function with its guard. The
  interpretation of \<open>guarded_machine\<close> carries the invariant along every run, and the properties of the
  scheduler as a whole are read off it.
\<close>

section \<open>Scopes and spawns\<close>

lemma shrinks_runs_op: "runs me s \<Longrightarrow> runs me (sched_op t obj w s)"
  by (rule runs_ops)

lemma regs_scopes [simp]:
  "excl_count u (s\<lparr>st_scopes := x\<rparr>) = excl_count u s" "selecting u (s\<lparr>st_scopes := x\<rparr>) = selecting u s"
  "registered u (s\<lparr>st_scopes := x\<rparr>) = registered u s" "state_of_task (s\<lparr>st_scopes := x\<rparr>) u = state_of_task s u"
  "wake_of (s\<lparr>st_scopes := x\<rparr>) u = wake_of s u"
  by (simp_all add: excl_count_def selecting_def registered_def state_of_task_def wake_of_def)

lemma runs_scopes:
  assumes r: "runs me s" and sc: "scope_ok (s\<lparr>st_scopes := x\<rparr>)"
  shows "runs me (s\<lparr>st_scopes := x\<rparr>)"
  using r sc by (simp add: runs_def sched_ok_def reg_ok_def queue_ok_def wake_ok_def baton_ok_def quiet_def)

lemma waits_scopes:
  assumes r: "waits_for me s" and sc: "scope_ok (s\<lparr>st_scopes := x\<rparr>)"
  shows "waits_for me (s\<lparr>st_scopes := x\<rparr>)"
  using r sc by (simp add: waits_for_def sched_ok_def reg_ok_def queue_ok_def wake_ok_def baton_ok_def)

lemma runs_lt: "runs me s \<Longrightarrow> me < length (st_tasks s)" and runs_unregistered: "runs me s \<Longrightarrow> \<not> registered me s"
  by (simp_all add: runs_def quiet_def)

lemma open_scope_runs:
  assumes r: "runs me s"
  shows "runs me (snd (open_scope me s))"
proof -
  have "scope_ok (s\<lparr>st_scopes := st_scopes s @ [\<lparr>sc_owner = me, sc_children = [], sc_joining = False, sc_failures = []\<rparr>]\<rparr>)"
    using r runs_lt [OF r] by (auto simp: runs_def sched_ok_def scope_ok_def)
  from runs_scopes [OF r this] show ?thesis by (simp add: open_scope_def)
qed

lemma set_joining_ok:
  assumes ok: "sched_ok s" and j: "b \<Longrightarrow> \<not> registered (sc_owner (scope_at s i)) s"
  shows "scope_ok (s\<lparr>st_scopes := modify_at i (\<lambda>e. e\<lparr>sc_joining := b\<rparr>) (st_scopes s)\<rparr>)"
proof (cases "i < length (st_scopes s)")
  case i: True
  have so: "scope_ok s" using ok by (simp add: sched_ok_def)
  have "sc_owner e < length (st_tasks s) \<and> set (sc_children e) \<subseteq> {..<length (st_tasks s)} \<and>
      (sc_joining e \<longrightarrow> \<not> registered (sc_owner e) s)"
    if "e \<in> set (modify_at i (\<lambda>e. e\<lparr>sc_joining := b\<rparr>) (st_scopes s))" for e
  proof -
    from that consider "e \<in> set (st_scopes s)" | "e = (scope_at s i)\<lparr>sc_joining := b\<rparr>"
      using set_modify_at_subset [of i "\<lambda>e. e\<lparr>sc_joining := b\<rparr>" "st_scopes s"] i by auto
    then show ?thesis
    proof cases
      case 1
      with so show ?thesis by (simp add: scope_ok_def)
    next
      case 2
      with so nth_mem [OF i] j show ?thesis by (simp add: scope_ok_def)
    qed
  qed
  then show ?thesis using so by (simp add: scope_ok_def)
next
  case False
  then show ?thesis using ok by (simp add: sched_ok_def)
qed

lemma upd_scope_as: "upd_scope i f s = s\<lparr>st_scopes := modify_at i f (st_scopes s)\<rparr>"
  by (simp add: upd_scope_def)

lemma join_ends:
  assumes r: "runs me s" and o: "sc_owner (scope_at s i) = me"
  shows "ends_well me (join_scope me i s)"
proof -
  let ?s1 = "sched_op me (OkScope i) False s"
  have r1: "runs me ?s1" by (rule runs_ops [OF r])
  have ok1: "sched_ok ?s1" using r1 by (simp add: runs_def)
  have "runs me (upd_scope i (\<lambda>e. e\<lparr>sc_joining := False\<rparr>) ?s1)"
    unfolding upd_scope_as by (rule runs_scopes [OF r1 set_joining_ok [OF ok1]]) simp
  then have "runs me (fold (\<lambda>t r. hb_edge (tc_vc (task_at r t)) me r) ts (upd_scope i (\<lambda>e. e\<lparr>sc_joining := False\<rparr>) ?s1))" for ts
    by (rule runs_shrinks [rotated]) (rule shrinks_fold, rule shrinks_hb_edge)
  moreover have "runs me (upd_scope i (\<lambda>e. e\<lparr>sc_joining := True\<rparr>) ?s1)"
    unfolding upd_scope_as by (rule runs_scopes [OF r1 set_joining_ok [OF ok1]]) (use runs_unregistered [OF r1] o in simp)
  ultimately show ?thesis
    using runs_waits by (auto simp: join_scope_def Let_def runs_def quiet_def)
qed

text \<open>A spawned task is queued with a plain wake.\<close>

lemma spawn_runs:
  assumes r: "runs me s" and par: "parent < length (st_tasks s)" and sc: "\<And>k. sc = Some k \<Longrightarrow> k < length (st_scopes s)"
  shows "runs me (snd (spawn_task parent sc p s))"
proof -
  let ?n = "length (st_tasks s)"
  define s' where "s' = snd (spawn_task parent sc p s)"
  have ok: "sched_ok s" and q: "quiet me s" and ns: "\<not> st_shutdown s" using r by (simp_all add: runs_def)
  have l: "length (st_tasks s') = Suc ?n" and rd: "st_ready s' = st_ready s @ [?n]" and sd: "st_shutdown s' = st_shutdown s"
    and sc': "st_scopes s' = (case sc of None \<Rightarrow> st_scopes s
      | Some k \<Rightarrow> modify_at k (\<lambda>e. e\<lparr>sc_children := sc_children e @ [?n]\<rparr>) (st_scopes s))"
    by (simp_all add: s'_def spawn_task_def Let_def tick_def upd_task_def upd_scope_def split: option.splits)
  have fields: "tc_state (task_at s' u) = (if u = ?n then TsReady else tc_state (task_at s u)) \<and>
      tc_wake (task_at s' u) = (if u = ?n then Some (WkOk VUnit) else tc_wake (task_at s u)) \<and>
      tc_scope (task_at s' u) = (if u = ?n then sc else tc_scope (task_at s u))" if "u < Suc ?n" for u
    using that par
    by (auto simp: s'_def spawn_task_def Let_def tick_def upd_task_def upd_scope_def fresh_tcb_def nth_modify_at
        nth_append less_Suc_eq split: option.splits)
  then have st: "state_of_task s' u = (if u = ?n then TsReady else state_of_task s u)"
    and wk: "wake_of s' u = (if u = ?n then Some (WkOk VUnit) else wake_of s u)" if "u < Suc ?n" for u
    using that by (simp_all add: state_of_task_def wake_of_def)
  have regs: "excl_count u s' = excl_count u s" "selecting u s' = selecting u s" "registered u s' = registered u s" for u
    by (simp_all add: s'_def spawn_task_def Let_def tick_def upd_task_def upd_scope_def excl_count_def selecting_def
        registered_def split: option.splits)
  have reg: "reg_ok s" and qo: "queue_ok s" and wo: "wake_ok s" and bo: "baton_ok s" and so: "scope_ok s"
    using ok by (simp_all add: sched_ok_def)
  have rok: "reg_ok s'"
    unfolding reg_ok_def regs l
  proof (intro allI conjI impI)
    fix u
    show "excl_count u s \<le> 1" "selecting u s \<Longrightarrow> excl_count u s = 0" using reg by (simp_all add: reg_ok_def)
    assume u: "registered u s"
    then have "u < ?n" using reg by (simp add: reg_ok_def)
    then show "u < Suc ?n" by simp
    from \<open>u < ?n\<close> u reg st [of u] wk [of u] show "state_of_task s' u \<in> {TsBlocked, TsRunning}" "wake_of s' u = None"
      by (simp_all add: reg_ok_def)
  qed
  have "u \<in> set (st_ready s @ [?n]) \<longleftrightarrow> u < Suc ?n \<and> state_of_task s' u = TsReady" for u
    using qo st [of u] by (cases "u = ?n"; cases "u < ?n") (simp_all add: queue_ok_def)
  moreover have "distinct (st_ready s @ [?n])" using qo by (simp add: queue_ok_def)
  ultimately have "queue_ok s'" unfolding queue_ok_def rd l by blast
  moreover have "wake_ok s'" unfolding wake_ok_def l using wo st wk by (auto simp: wake_ok_def less_Suc_eq)
  moreover have "baton_ok s'" unfolding baton_ok_def l using bo st by (auto simp: baton_ok_def less_Suc_eq)
  moreover have "scope_ok s'"
  proof -
    have "sc_owner e < Suc ?n \<and> set (sc_children e) \<subseteq> {..<Suc ?n} \<and> (sc_joining e \<longrightarrow> \<not> registered (sc_owner e) s')"
      if e: "e \<in> set (st_scopes s')" for e
    proof -
      have old: "sc_owner d < ?n \<and> set (sc_children d) \<subseteq> {..<?n} \<and> (sc_joining d \<longrightarrow> \<not> registered (sc_owner d) s)"
        if "d \<in> set (st_scopes s)" for d using so that by (simp add: scope_ok_def)
      from e consider "e \<in> set (st_scopes s)"
        | k where "sc = Some k" "e = (scope_at s k)\<lparr>sc_children := sc_children (scope_at s k) @ [?n]\<rparr>"
      proof (cases sc)
        case (Some k)
        with e sc [OF Some] set_modify_at_subset [of k "\<lambda>e. e\<lparr>sc_children := sc_children e @ [?n]\<rparr>" "st_scopes s"]
        have "e \<in> set (st_scopes s) \<or> e = (scope_at s k)\<lparr>sc_children := sc_children (scope_at s k) @ [?n]\<rparr>"
          by (auto simp: sc')
        with that Some show ?thesis by blast
      qed (use e sc' that in simp)
      then show ?thesis
      proof cases
        case 1
        from old [OF 1] show ?thesis by (auto simp: regs)
      next
        case 2
        from old [OF nth_mem [OF sc [OF 2(1)]]] 2(2) show ?thesis by (auto simp: regs)
      qed
    qed
    moreover have "i < length (st_scopes s')" if "e \<in> set (st_tasks s')" "tc_scope e = Some i" for e i
    proof -
      from that(1) obtain u where "u < Suc ?n" "e = task_at s' u" unfolding l [symmetric] by (auto simp: in_set_conv_nth)
      with fields [of u] that(2) have "u = ?n \<and> sc = Some i \<or> u < ?n \<and> tc_scope (task_at s u) = Some i"
        by (auto split: if_splits)
      then have "i < length (st_scopes s)" using sc so by (auto simp: scope_ok_def)
      then show ?thesis by (simp add: sc' split: option.splits)
    qed
    ultimately show ?thesis by (simp add: scope_ok_def l)
  qed
  ultimately have "sched_ok s'" using rok by (simp add: sched_ok_def)
  moreover have "quiet me s'" using q st [of me] wk [of me] by (simp add: quiet_def l regs)
  ultimately show ?thesis using ns by (simp add: runs_def sd flip: s'_def)
qed

lemma spawn_proc_runs:
  assumes r: "runs me s"
  shows "runs me (snd (spawn_proc me region s))"
proof -
  let ?s0 = "s\<lparr>st_procs := st_procs s @ [\<lparr>pr_root = 0, pr_region = Some region, pr_monitors = [], pr_links = [], pr_exited = None\<rparr>]\<rparr>"
  let ?s1 = "sched_op me (OkProc (length (st_procs s))) True ?s0"
  have "shrinks s ?s0" by (simp add: shrinks_def view_def excl_count_def selecting_def)
  then have r1: "runs me ?s1" by (intro runs_ops) (rule runs_shrinks [OF _ r])
  have "runs me (snd (spawn_task me None (length (st_procs s)) ?s1))"
    by (rule spawn_runs [OF r1]) (use runs_lt [OF r1] in simp_all)
  from runs_shrinks [OF shrinks_upd_proc this] show ?thesis
    by (simp add: spawn_proc_def Let_def case_prod_beta)
qed

section \<open>The end of a task\<close>

lemma end_task_calm:
  assumes r: "runs me s"
  shows "calm (snd (end_task me e0 s)) \<and> st_shutdown (snd (end_task me e0 s)) = st_shutdown s"
proof -
  define s1 where "s1 = sched_op me (OkTaskCtl me) False s"
  define e where "e = ended_as (tc_killed (task_at s1 me)) (tc_cancelled (task_at s1 me)) e0"
  let ?f = "\<lambda>x :: 'a tcb. x\<lparr>tc_state := TsDone, tc_outcome := Some e\<rparr>"
  define s2 where "s2 = upd_task me ?f s1"
  define s3 where "s3 = (case tc_scope (task_at s2 me) of None \<Rightarrow> s2
    | Some i \<Rightarrow> settle_scope me i e (sched_op me (OkScope i) (failing e) s2))"
  have eq: "end_task me e0 s = (if pr_root (proc_at s3 (tc_proc (task_at s3 me))) = me \<and> tc_proc (task_at s3 me) \<noteq> 0
      then deliver_exit (tc_proc (task_at s3 me)) (exit_of e) s3 else ([], s3))"
    unfolding end_task_def Let_def s1_def s2_def s3_def e_def by (rule refl)
  have r1: "runs me s1" unfolding s1_def by (rule runs_ops [OF r])
  then have ok1: "sched_ok s1" and me: "me < length (st_tasks s1)" "state_of_task s1 me = TsRunning" "\<not> registered me s1"
    by (simp_all add: runs_def quiet_def)
  have "calm ((upd_task me ?f s1)\<lparr>st_ready := st_ready s1\<rparr>)"
    by (rule leave_baton_ok [OF ok1 me(1,2), where st = TsDone]) (use me in simp_all)
  then have c2: "calm s2" by (simp add: s2_def upd_task_def)
  have sd2: "st_shutdown s2 = st_shutdown s" by (simp add: s2_def s1_def upd_task_def sched_op_def)
  have g3: "good_from s2 s3"
  proof (cases "tc_scope (task_at s2 me)")
    case (Some i)
    have "me < length (st_tasks s2)" using me by (simp add: s2_def)
    then have "task_at s2 me \<in> set (st_tasks s2)" by (rule nth_mem)
    then have "i < length (st_scopes s2)" using c2 Some by (auto simp: calm_def sched_ok_def scope_ok_def)
    then have "good_from s2 (settle_scope me i e (sched_op me (OkScope i) (failing e) s2))"
      by (intro good_from_trans [OF shrinks_from [OF shrinks_op [where t = me and obj = "OkScope i" and w = "failing e"]] settle_scope_good]) simp
    with Some show ?thesis by (simp add: s3_def)
  qed (simp add: s3_def)
  have "good_from s2 (snd (end_task me e0 s))"
    unfolding eq using g3 good_from_trans [OF g3 deliver_exit_good] by simp
  from good_calm [OF this c2] this c2 sd2 show ?thesis by (simp add: good_from_def only_wakes_def calm_def)
qed

section \<open>The machine\<close>

datatype 'c sched_oper =
    OpSend chan_id "'c val" | OpRecv chan_id | OpClose chan_id | OpNewChan nat
  | OpSelect "(nat \<times> chan_id) list" "(nat \<times> nat) option"
  | OpAcquire mutex_id | OpRelease mutex_id "'c val" | OpNewMutex "'c val"
  | OpOpenScope | OpSpawn "scope_id option" proc_id | OpJoin scope_id | OpCancelScope scope_id
  | OpSpawnProc region_id | OpKill proc_id | OpCancelProc proc_id | OpPublish | OpMonitor proc_id
  | OpLink proc_id proc_id | OpAccess race_key nat nat bool | OpAtomic race_key nat nat bool
  | OpSleep nat | OpYield | OpEnd "'c task_end"

text \<open>An operation that parks hands the baton on, and the task that gets it resumes; at the end of a task
  the exits are published first.\<close>

definition pass_on :: "env \<Rightarrow> task_id \<Rightarrow> 'r outcome \<times> 'c sched \<Rightarrow> 'c sched" where
  "pass_on e me r = (case fst r of Parks \<Rightarrow> resume_next (park e me (snd r)) | _ \<Rightarrow> snd r)"

fun act_as :: "env \<Rightarrow> task_id \<Rightarrow> 'c sched_oper \<Rightarrow> 'c sched \<Rightarrow> 'c sched" where
  "act_as e me (OpSend c v) s = pass_on e me (send me c v s)"
| "act_as e me (OpRecv c) s = pass_on e me (recv me c s)"
| "act_as e me (OpClose c) s = close_chan c s"
| "act_as e me (OpNewChan cap) s = snd (new_chan cap s)"
| "act_as e me (OpSelect arms timeout) s = pass_on e me (select me arms timeout s)"
| "act_as e me (OpAcquire m) s = pass_on e me (acquire me m s)"
| "act_as e me (OpRelease m v) s = release_mutex me m v s"
| "act_as e me (OpNewMutex v) s = snd (new_mutex v s)"
| "act_as e me OpOpenScope s = snd (open_scope me s)"
| "act_as e me (OpSpawn sc p) s = snd (spawn_task me sc p s)"
| "act_as e me (OpJoin i) s = pass_on e me (join_scope me i s)"
| "act_as e me (OpCancelScope i) s = cancel_scope i s"
| "act_as e me (OpSpawnProc r) s = snd (spawn_proc me r s)"
| "act_as e me (OpKill p) s = snd (kill_proc p s)"
| "act_as e me (OpCancelProc p) s = cancel_proc p s"
| "act_as e me OpPublish s = publish_pending s"
| "act_as e me (OpMonitor p) s = snd (monitor p s)"
| "act_as e me (OpLink a b) s = link_procs a b s"
| "act_as e me (OpAccess key lo hi w) s = snd (race_check me key lo hi w s)"
| "act_as e me (OpAtomic key lo hi w) s = snd (atomic_access me key lo hi w s)"
| "act_as e me (OpSleep ms) s = resume_next (sleep_park e me ms s)"
| "act_as e me OpYield s = resume_next (net_yield e me s)"
| "act_as e me (OpEnd te) s = resume_next (dispatch_next e (publish_pending (snd (end_task me te s))))"

definition sched_step :: "env \<Rightarrow> 'c sched_oper \<Rightarrow> 'c sched \<Rightarrow> 'c sched" where
  "sched_step e x s = act_as e (actor s) x s"

text \<open>Some task runs; the ids an operation names are those it was given; an operation that waits for
  anything but a join is not begun by the owner of a scope that is still marked as joining.\<close>

fun oper_guard :: "task_id \<Rightarrow> 'c sched_oper \<Rightarrow> 'c sched \<Rightarrow> bool" where
  "oper_guard me (OpSend c v) s = (may_wait me s \<and> c < length (st_chans s))"
| "oper_guard me (OpRecv c) s = (may_wait me s \<and> c < length (st_chans s))"
| "oper_guard me (OpClose c) s = (c < length (st_chans s))"
| "oper_guard me (OpSelect arms timeout) s = (may_wait me s \<and> (\<forall>(a, c) \<in> set arms. c < length (st_chans s)))"
| "oper_guard me (OpAcquire m) s = (may_wait me s \<and> m < length (st_mutexes s))"
| "oper_guard me (OpRelease m v) s = (m < length (st_mutexes s))"
| "oper_guard me (OpSpawn sc p) s = (case sc of None \<Rightarrow> True | Some k \<Rightarrow> k < length (st_scopes s))"
| "oper_guard me (OpJoin i) s = (sc_owner (scope_at s i) = me)"
| "oper_guard me (OpCancelScope i) s = (i < length (st_scopes s))"
| "oper_guard me (OpSleep ms) s = at_no_join me s"
| "oper_guard me x s = True"

definition sched_guard :: "'c sched_oper \<Rightarrow> 'c sched \<Rightarrow> bool" where
  "sched_guard x s \<longleftrightarrow> (\<exists>t \<in> set (st_tasks s). tc_state t = TsRunning) \<and> oper_guard (actor s) x s"

definition machine_ok :: "'c sched \<Rightarrow> bool" where
  "machine_ok s \<longleftrightarrow> sched_ok s \<and> \<not> st_shutdown s \<and> ((\<exists>t. quiet t s) \<or> all_tasks_done s)"

lemma runs_machine: "runs me s \<Longrightarrow> machine_ok s"
  by (auto simp: machine_ok_def runs_def)

lemma pass_on_ok:
  assumes e: "lawful e" and r: "ends_well me r"
  shows "machine_ok (pass_on e me r)"
proof (cases "fst r = Parks")
  case True
  with r have "waits_for me (snd r)" by (simp add: ends_well_def)
  from resume_runs [OF park_runs [OF e this]] True show ?thesis by (auto simp: pass_on_def intro: runs_machine)
next
  case False
  with r have "runs me (snd r)" by (simp add: ends_well_def)
  with False show ?thesis by (cases "fst r") (auto simp: pass_on_def intro: runs_machine)
qed

lemma sleep_ok:
  assumes e: "lawful e" and r: "runs me s" and nj: "at_no_join me s"
  shows "machine_ok (resume_next (sleep_park e me ms s))"
proof -
  define s' where "s' = s\<lparr>st_wall := en_read e (st_wall s), st_sleep_seq := st_sleep_seq s + 1,
    st_real_sleeps := st_real_sleeps s @ [\<lparr>rs_due = en_read e (st_wall s) + ms * 1000000, rs_seq = st_sleep_seq s, rs_task = me\<rparr>]\<rparr>"
  have q: "excl_count me s = 0" "\<not> selecting me s" using r by (simp_all add: runs_def quiet_def registered_def)
  have "waits_for me s' \<and> wake_of s' me = None"
    by (rule register_ok [OF r nj]) (use q in \<open>auto simp: s'_def view_def excl_count_def selecting_def\<close>)
  then have "running_well (park e me s')" by (intro park_runs [OF e]) simp
  from resume_runs [OF this] show ?thesis
    by (auto simp: sleep_park_def Let_def s'_def intro: runs_machine)
qed

text \<open>A task that sets its own wake is still about to park.\<close>

lemma own_wake_waits:
  assumes r: "runs me s"
  shows "waits_for me (upd_task me (\<lambda>x. x\<lparr>tc_wake := Some w\<rparr>) s)"
proof -
  let ?s = "upd_task me (\<lambda>x. x\<lparr>tc_wake := Some w\<rparr>) s"
  have "make_ready me w s = ?s" using r by (simp add: runs_def quiet_def make_ready_def state_of_task_def Let_def)
  moreover have "sched_ok (make_ready me w s)"
    by (rule make_ready_ok) (use r runs_lt [OF r] runs_unregistered [OF r] in \<open>simp_all add: runs_def\<close>)
  moreover have "state_of_task ?s me = TsRunning" using r by (simp add: runs_def quiet_def state_upd_task)
  moreover have "st_shutdown ?s = st_shutdown s" by (simp add: upd_task_def)
  ultimately show ?thesis using r by (simp add: waits_for_def runs_def quiet_def)
qed

lemma yield_ok:
  assumes e: "lawful e" and r: "runs me s"
  shows "machine_ok (resume_next (net_yield e me s))"
proof -
  have "waits_for me (if tc_wake (task_at s me) = None then upd_task me (\<lambda>x. x\<lparr>tc_wake := Some (WkOk VUnit)\<rparr>) s else s)"
    using own_wake_waits [OF r] runs_waits [OF r] by simp
  from resume_runs [OF park_runs [OF e this]] show ?thesis
    unfolding net_yield_def by (auto intro: runs_machine)
qed

lemma end_ok:
  assumes e: "lawful e" and r: "runs me s"
  shows "machine_ok (resume_next (dispatch_next e (publish_pending (snd (end_task me te s)))))"
proof -
  let ?s1 = "publish_pending (snd (end_task me te s))"
  have c: "calm ?s1" by (rule good_calm [OF publish_good]) (use end_task_calm [OF r] in simp)
  have "st_shutdown ?s1 = st_shutdown s"
    using publish_good [of "snd (end_task me te s)"] end_task_calm [OF r, of te]
    by (simp add: good_from_def only_wakes_def calm_def)
  then have ns: "\<not> st_shutdown ?s1" using r by (simp add: runs_def)
  from dispatch_runs [OF e c ns] show ?thesis
  proof
    assume "running_well (dispatch_next e ?s1)"
    from resume_runs [OF this] show ?thesis by (auto intro: runs_machine)
  next
    assume d: "dispatch_next e ?s1 = ?s1 \<and> all_tasks_done ?s1"
    then have "position (\<lambda>t. tc_state t = TsRunning) (st_tasks ?s1) = None"
      by (auto simp: position_None_iff all_tasks_done_def state_of_task_def in_set_conv_nth)
    with d c ns show ?thesis by (simp add: resume_next_def machine_ok_def calm_def)
  qed
qed

lemma act_ok:
  assumes e: "lawful e" and r: "runs me s" and g: "oper_guard me x s"
  shows "machine_ok (act_as e me x s)"
proof (cases x)
  case OpCancelScope
  with g runs_good [OF cancel_scope_good r] show ?thesis by (auto intro: runs_machine)
next
  case (OpJoin i)
  with g have "sc_owner (scope_at s i) = me" by simp
  from pass_on_ok [OF e join_ends [OF r this]] OpJoin show ?thesis by simp
next
  case OpKill
  with runs_good [OF kill_proc_good r] show ?thesis by (auto intro: runs_machine)
qed (use g in \<open>auto intro: pass_on_ok [OF e] send_ends [OF r] recv_ends [OF r] select_ends [OF r] acquire_ends [OF r]
      runs_machine [OF close_runs [OF r]] runs_machine [OF new_chan_runs [OF r]]
      runs_machine [OF runs_good [OF release_good r]] runs_machine [OF new_mutex_runs [OF r]]
      runs_machine [OF open_scope_runs [OF r]] runs_machine [OF spawn_runs [OF r runs_lt [OF r]]]
      runs_machine [OF spawn_proc_runs [OF r]] runs_machine [OF runs_good [OF cancel_proc_good r]]
      runs_machine [OF runs_good [OF publish_good r]] runs_machine [OF monitor_runs [OF r]]
      runs_machine [OF link_runs [OF r]] runs_machine [OF race_check_runs [OF r]] runs_machine [OF atomic_runs [OF r]]
      sleep_ok [OF e r] yield_ok [OF e r] end_ok [OF e r]\<close>)

lemma actor_runs:
  assumes ok: "machine_ok s" and g: "sched_guard x s"
  shows "runs (actor s) s"
proof -
  from g obtain u where u: "u < length (st_tasks s)" "state_of_task s u = TsRunning"
    by (auto simp: sched_guard_def in_set_conv_nth state_of_task_def)
  with ok obtain t where t: "quiet t s" by (auto simp: machine_ok_def all_tasks_done_def)
  with ok actor_running [of s t] show ?thesis by (simp add: machine_ok_def runs_def quiet_def)
qed

lemma step_ok: "lawful e \<Longrightarrow> machine_ok s \<Longrightarrow> sched_guard x s \<Longrightarrow> machine_ok (sched_step e x s)"
  unfolding sched_step_def by (rule act_ok [OF _ actor_runs]) (auto simp: sched_guard_def)

end
