(* ===== verification/SchedProps.thy ===== *)
theory SchedProps
  imports SchedMachine
begin

text \<open>
  What every run of the sim scheduler keeps, from the first state on: the baton is held by exactly one
  task until all are done, the ready queue and the waiter lists describe the same tasks, and the deadlock
  verdict falls exactly when nothing can ever run again.
\<close>

section \<open>Every run\<close>

interpretation sched_machine: guarded_machine "sched_step e" sched_guard "\<lambda>s. lawful e \<and> machine_ok s" for e
  by unfold_locales (simp add: step_ok)

lemma start_ok: "machine_ok (sched_with ch)"
proof -
  let ?s = "sched_with ch :: 'a sched"
  have regs: "excl_count t ?s = 0" "\<not> selecting t ?s" "\<not> registered t ?s" for t
    by (simp_all add: sched_with_def excl_count_def selecting_def registered_def)
  have st: "length (st_tasks ?s) = 1" "state_of_task ?s 0 = TsRunning" "wake_of ?s 0 = None" "st_ready ?s = []"
    by (simp_all add: sched_with_def state_of_task_def wake_of_def fresh_tcb_def)
  have "reg_ok ?s" by (simp add: reg_ok_def regs)
  moreover have "queue_ok ?s" using st by (auto simp: queue_ok_def)
  moreover have "wake_ok ?s" "baton_ok ?s" using st by (auto simp: wake_ok_def baton_ok_def)
  moreover have "scope_ok ?s" by (simp add: scope_ok_def sched_with_def fresh_tcb_def)
  moreover have "quiet 0 ?s" using st regs by (simp add: quiet_def)
  moreover have "\<not> st_shutdown ?s" by (simp add: sched_with_def)
  ultimately show ?thesis by (auto simp: machine_ok_def sched_ok_def)
qed

text \<open>The states a run from the start can reach.\<close>

definition sched_run :: "env \<Rightarrow> chooser \<Rightarrow> 'c sched_oper list \<Rightarrow> 'c sched" where
  "sched_run e ch xs = fold (sched_step e) xs (sched_with ch)"

definition legal_run :: "env \<Rightarrow> chooser \<Rightarrow> 'c sched_oper list \<Rightarrow> bool" where
  "legal_run e ch xs \<longleftrightarrow> lawful e \<and> guarded_run (sched_step e) sched_guard xs (sched_with ch)"

lemma run_ok: "legal_run e ch xs \<Longrightarrow> machine_ok (sched_run e ch xs)"
  using sched_machine.run [of e "sched_with ch" xs] start_ok [of ch] by (simp add: legal_run_def sched_run_def)

text \<open>C1: the baton is never dropped and never doubled: after any legal run of the scheduler either every
  task is done, or exactly one task is running, and that one waits in no list and has no wake pending.\<close>
theorem baton_never_dropped:
  assumes "legal_run e ch xs"
  shows "(\<forall>t < length (st_tasks (sched_run e ch xs)). tc_state (task_at (sched_run e ch xs) t) = TsDone) \<or>
    (\<exists>!t. t < length (st_tasks (sched_run e ch xs)) \<and> tc_state (task_at (sched_run e ch xs) t) = TsRunning) \<and>
    (\<forall>t < length (st_tasks (sched_run e ch xs)). tc_state (task_at (sched_run e ch xs) t) = TsRunning \<longrightarrow>
       tc_wake (task_at (sched_run e ch xs) t) = None \<and> \<not> registered t (sched_run e ch xs))"
proof -
  let ?s = "sched_run e ch xs"
  have ok: "machine_ok ?s" by (rule run_ok [OF assms])
  then have b: "baton_ok ?s" by (simp add: machine_ok_def sched_ok_def)
  show ?thesis
  proof (cases "all_tasks_done ?s")
    case True
    then show ?thesis by (simp add: all_tasks_done_def state_of_task_def)
  next
    case False
    with ok obtain t where t: "quiet t ?s" by (auto simp: machine_ok_def)
    then have tr: "t < length (st_tasks ?s)" "tc_state (task_at ?s t) = TsRunning" by (simp_all add: quiet_def state_of_task_def)
    moreover have "u = t" if "u < length (st_tasks ?s)" "tc_state (task_at ?s u) = TsRunning" for u
      using b that tr by (simp add: baton_ok_def state_of_task_def)
    ultimately have one: "\<exists>!t. t < length (st_tasks ?s) \<and> tc_state (task_at ?s t) = TsRunning" by blast
    have "tc_wake (task_at ?s u) = None \<and> \<not> registered u ?s"
      if "u < length (st_tasks ?s)" "tc_state (task_at ?s u) = TsRunning" for u
    proof -
      from one that tr have "u = t" by blast
      with t show ?thesis by (simp add: quiet_def wake_of_def)
    qed
    with one show ?thesis by blast
  qed
qed

text \<open>C10: after any legal run the ready queue holds exactly the ready tasks, each once and with the wake
  it will resume with; a blocked task has no wake; a task waits in at most one sender, receiver, mutex or
  sleep list and then in no \<open>select\<close>; and whatever a list or a timer names is a blocked task.\<close>
theorem queues_describe_tasks:
  assumes "legal_run e ch xs"
  shows "distinct (st_ready (sched_run e ch xs)) \<and>
    set (st_ready (sched_run e ch xs)) =
      {t. t < length (st_tasks (sched_run e ch xs)) \<and> tc_state (task_at (sched_run e ch xs) t) = TsReady} \<and>
    (\<forall>t < length (st_tasks (sched_run e ch xs)).
       (tc_state (task_at (sched_run e ch xs) t) = TsReady \<longrightarrow> tc_wake (task_at (sched_run e ch xs) t) \<noteq> None) \<and>
       (tc_state (task_at (sched_run e ch xs) t) = TsBlocked \<longrightarrow> tc_wake (task_at (sched_run e ch xs) t) = None)) \<and>
    (\<forall>t. excl_count t (sched_run e ch xs) \<le> 1 \<and>
       (selecting t (sched_run e ch xs) \<longrightarrow> excl_count t (sched_run e ch xs) = 0) \<and>
       (registered t (sched_run e ch xs) \<longrightarrow>
          t < length (st_tasks (sched_run e ch xs)) \<and> tc_state (task_at (sched_run e ch xs) t) = TsBlocked))"
proof -
  let ?s = "sched_run e ch xs"
  have ok: "machine_ok ?s" by (rule run_ok [OF assms])
  then have q: "queue_ok ?s" and w: "wake_ok ?s" and r: "reg_ok ?s" and b: "baton_ok ?s"
    by (simp_all add: machine_ok_def sched_ok_def)
  have "set (st_ready ?s) = {t. t < length (st_tasks ?s) \<and> tc_state (task_at ?s t) = TsReady}"
    using q by (auto simp: queue_ok_def state_of_task_def)
  moreover have "tc_state (task_at ?s t) = TsBlocked" if t: "registered t ?s" for t
  proof (rule ccontr)
    assume "tc_state (task_at ?s t) \<noteq> TsBlocked"
    with r t have tr: "t < length (st_tasks ?s)" "state_of_task ?s t = TsRunning"
      by (auto simp: reg_ok_def state_of_task_def)
    then obtain u where "quiet u ?s" using ok by (auto simp: machine_ok_def all_tasks_done_def)
    with b tr have "quiet t ?s" by (auto simp: quiet_def baton_ok_def)
    with t show False by (simp add: quiet_def)
  qed
  ultimately show ?thesis using q w r by (auto simp: queue_ok_def wake_ok_def reg_ok_def state_of_task_def wake_of_def)
qed

text \<open>A run that parks and hands the baton over: main waits on a channel, its first child runs and ends,
  and the second child runs.\<close>

definition demo_env :: env where
  "demo_env = \<lparr>en_read = (\<lambda>t. t), en_sleep = (\<lambda>t d. max t d)\<rparr>"

definition demo_run :: "unit sched_oper list" where
  "demo_run = [OpNewChan 1, OpOpenScope, OpSpawn (Some 0) 0, OpSpawn (Some 0) 0, OpRecv 0, OpEnd (TeValue VUnit)]"

lemma demo_env_lawful: "lawful demo_env"
  by (simp add: lawful_def demo_env_def)

lemma demo_run_legal: "legal_run demo_env (Seeded 0 1) demo_run"
proof -
  have "guarded_run (sched_step demo_env) sched_guard demo_run (sched_with (Seeded 0 1))" by code_simp
  then show ?thesis by (simp add: legal_run_def demo_env_lawful)
qed

theorem baton_never_dropped_witness:
  "legal_run demo_env (Seeded 0 1) demo_run \<and>
   (\<exists>!t. t < length (st_tasks (sched_run demo_env (Seeded 0 1) demo_run)) \<and>
      tc_state (task_at (sched_run demo_env (Seeded 0 1) demo_run) t) = TsRunning)"
proof -
  have "2 < length (st_tasks (sched_run demo_env (Seeded 0 1) demo_run)) \<and>
      tc_state (task_at (sched_run demo_env (Seeded 0 1) demo_run) 2) = TsRunning" by code_simp
  with baton_never_dropped [OF demo_run_legal] demo_run_legal show ?thesis by auto
qed

theorem queues_describe_tasks_witness:
  "legal_run demo_env (Seeded 0 1) demo_run \<and> distinct (st_ready (sched_run demo_env (Seeded 0 1) demo_run))"
  using queues_describe_tasks [OF demo_run_legal] demo_run_legal by blast

section \<open>Deadlock\<close>

lemma deadlocked_frame [simp]:
  "st_deadlocked (make_ready t w s) = st_deadlocked s" "st_deadlocked (deregister t s) = st_deadlocked s"
  "st_deadlocked (upd_task t f s) = st_deadlocked s" "st_deadlocked (set_running t s) = st_deadlocked s"
  "st_deadlocked (wake_sleeper x s) = st_deadlocked s" "st_deadlocked (fire_timer y s) = st_deadlocked s"
  by (simp_all add: make_ready_def upd_task_def deregister_def set_running_def wake_sleeper_def fire_timer_def Let_def)

lemma fold_deadlocked: "(\<And>x r. st_deadlocked (f x r) = st_deadlocked r) \<Longrightarrow> st_deadlocked (fold f xs s) = st_deadlocked s"
  by (induction xs arbitrary: s) simp_all

lemma loop_deadlocked_frame:
  "st_deadlocked (promote_due_sleeps e s) = st_deadlocked s" "st_deadlocked (snd (advance_clock s)) = st_deadlocked s"
  "st_deadlocked (snd (pick_ready s)) = st_deadlocked s"
proof -
  have "st_deadlocked (fold wake_sleeper xs r) = st_deadlocked r" for xs and r :: "'a sched"
    by (rule fold_deadlocked) simp
  then show "st_deadlocked (promote_due_sleeps e s) = st_deadlocked s"
    by (simp add: promote_due_sleeps_def Let_def wake_sleeper_def [abs_def])
  have "st_deadlocked (fold fire_timer xs r) = st_deadlocked r" for xs and r :: "'a sched"
    by (rule fold_deadlocked) simp
  then show "st_deadlocked (snd (advance_clock s)) = st_deadlocked s"
    by (simp add: advance_clock_def Let_def)
  show "st_deadlocked (snd (pick_ready s)) = st_deadlocked s"
    by (simp add: pick_ready_def decide_def Let_def split: prod.splits)
qed

lemma choose_deadlocked: "st_deadlocked (snd (choose_loop e n s)) = st_deadlocked s"
proof (induction n arbitrary: s)
  case (Suc n)
  have "st_deadlocked s2 = st_deadlocked s" if "advance_clock (promote_due_sleeps e s) = (b, s2)" for b s2
    using that loop_deadlocked_frame by (metis snd_conv)
  moreover have "st_deadlocked s2 = st_deadlocked s" if "pick_ready (promote_due_sleeps e s) = (b, s2)" for b s2
    using that loop_deadlocked_frame by (metis snd_conv)
  ultimately show ?case by (simp add: Suc.IH Let_def split: prod.splits bool.splits)
qed simp

lemma choose_next_deadlocked: "choose_next e s = (n, s') \<Longrightarrow> st_deadlocked s' = st_deadlocked s"
  using choose_deadlocked by (metis choose_next_def snd_conv)

lemma declare_deadlocked: "st_deadlocked (declare_deadlock s)"
proof -
  have "st_deadlocked (fold (\<lambda>t r. make_ready t w (deregister t r)) xs r) = st_deadlocked r" for xs w and r :: "'a sched"
    by (rule fold_deadlocked) simp
  then show ?thesis by (simp add: declare_deadlock_def Let_def)
qed

text \<open>C23: a park declares a deadlock exactly when the parking task was not woken meanwhile, no task is
  queued, no timer is set and nobody sleeps; and in any case some task runs afterwards, so the machine
  never hangs.\<close>
theorem deadlock_exact:
  assumes "lawful e" and "waits_for me s" and "\<not> st_deadlocked s"
  shows "(st_deadlocked (park e me s) \<longleftrightarrow>
      tc_wake (task_at s me) = None \<and> st_ready s = [] \<and> st_timers s = [] \<and> st_real_sleeps s = []) \<and>
    (\<exists>t < length (st_tasks (park e me s)). tc_state (task_at (park e me s) t) = TsRunning)"
proof
  note P = parked_calm [OF assms(2)]
  have d: "st_deadlocked (parked me s) = st_deadlocked s" by (simp add: parked_def)
  have i: "idle (parked me s) \<longleftrightarrow> tc_wake (task_at s me) = None \<and> idle s"
    by (auto simp: parked_def idle_def wake_of_def upd_task_def)
  obtain n s2 where n: "choose_next e (parked me s) = (n, s2)" by fastforce
  have "n = None \<longleftrightarrow> idle (parked me s)" using choose_next_finds [OF assms(1) P(1)] n by simp
  moreover have "st_deadlocked (park e me s) \<longleftrightarrow> n = None"
  proof (cases n)
    case None
    obtain m s3 where m: "choose_next e (declare_deadlock s2) = (m, s3)" by fastforce
    from choose_next_deadlocked [OF m] declare_deadlocked [of s2] None n m show ?thesis
      by (cases m) (simp_all add: park_parked)
  next
    case (Some t)
    from choose_next_deadlocked [OF n] d assms(3) Some n show ?thesis by (simp add: park_parked)
  qed
  ultimately show "st_deadlocked (park e me s) \<longleftrightarrow>
      tc_wake (task_at s me) = None \<and> st_ready s = [] \<and> st_timers s = [] \<and> st_real_sleeps s = []"
    using i by (simp add: idle_def)
  from park_runs [OF assms(1,2)] show "\<exists>t < length (st_tasks (park e me s)). tc_state (task_at (park e me s) t) = TsRunning"
    by (auto simp: running_well_def holds_baton_def state_of_task_def)
qed

text \<open>Main alone, about to wait on an empty channel.\<close>

definition lone_waiter :: "unit sched" where
  "lone_waiter = snd (recv 0 0 (snd (new_chan 0 (sched_with (Seeded 0 1)))))"

lemma lone_waiter_waits: "waits_for 0 lone_waiter"
proof -
  have r: "runs 0 (sched_with (Seeded 0 1) :: unit sched)"
    using start_ok [of "Seeded 0 1", where ?'a = unit]
    by (auto simp: machine_ok_def runs_def all_tasks_done_def quiet_def sched_with_def state_of_task_def fresh_tcb_def)
  have "ends_well 0 (recv 0 0 (snd (new_chan 0 (sched_with (Seeded 0 1) :: unit sched))))"
    by (rule recv_ends [OF new_chan_runs [OF r]])
      (simp_all add: may_wait_def at_no_join_def new_chan_def sched_with_def)
  then show ?thesis using runs_waits by (auto simp: ends_well_def lone_waiter_def split: if_splits)
qed

theorem deadlock_exact_witness:
  "lawful demo_env \<and> waits_for 0 lone_waiter \<and> \<not> st_deadlocked lone_waiter \<and> st_deadlocked (park demo_env 0 lone_waiter)"
proof -
  have "\<not> st_deadlocked lone_waiter" by code_simp
  moreover have "tc_wake (task_at lone_waiter 0) = None \<and> st_ready lone_waiter = [] \<and> st_timers lone_waiter = [] \<and>
      st_real_sleeps lone_waiter = []" by code_simp
  ultimately show ?thesis using deadlock_exact [OF demo_env_lawful lone_waiter_waits] demo_env_lawful lone_waiter_waits by blast
qed

end
