(* ===== verification/SchedSettle.thy ===== *)
theory SchedSettle
  imports SchedProps
begin

text \<open>
  What the settling of a channel delivers: the messages of the buffer, then those of the blocked senders,
  to the blocked receivers in their order; and where the program leaves a channel unsettled.
\<close>

section \<open>Tasks that wait for nothing keep their wake\<close>

definition kept :: "task_id \<Rightarrow> 'c sched \<Rightarrow> 'c sched \<Rightarrow> bool" where
  "kept u s s' \<longleftrightarrow> (\<not> registered u s \<longrightarrow> \<not> registered u s' \<and> (u < length (st_tasks s) \<longrightarrow> wake_of s' u = wake_of s u)) \<and>
     length (st_tasks s') = length (st_tasks s)"

lemma kept_refl [simp]: "kept u s s"
  by (simp add: kept_def)

lemma kept_trans: "kept u s s' \<Longrightarrow> kept u s' s'' \<Longrightarrow> kept u s s''"
  by (simp add: kept_def)

lemma kept_shrinks: "shrinks s s' \<Longrightarrow> kept u s s'"
  using shrinks_unregistered [of s s' u] view_eq(1,4) [of s' s] by (simp add: kept_def shrinks_def)

lemma kept_woken: "kept u s s' \<Longrightarrow> registered t s \<Longrightarrow> kept u s (make_ready t w s')"
  by (auto simp: kept_def make_ready_view)

lemma kept_fold: "(\<And>x r. x \<in> set xs \<Longrightarrow> kept u s r \<Longrightarrow> kept u s (f x r)) \<Longrightarrow> kept u s r \<Longrightarrow> kept u s (fold f xs r)"
  by (induction xs arbitrary: r) simp_all

lemma sender_registered:
  "c < length (st_chans s) \<Longrightarrow> t \<in> fst ` set (ch_senders (chan_at s c)) \<Longrightarrow> registered t s"
proof -
  assume c: "c < length (st_chans s)" and t: "t \<in> fst ` set (ch_senders (chan_at s c))"
  have "0 < chan_count t (chan_at s c)" using count_list_pos [of t "map fst (ch_senders (chan_at s c))"] t
    by (simp add: chan_count_def)
  then have "0 < (\<Sum>e \<leftarrow> st_chans s. chan_count t e)"
    using c member_le_sum_list [of "chan_count t (chan_at s c)" "map (chan_count t) (st_chans s)"] by simp
  then show ?thesis by (simp add: registered_def excl_count_def)
qed

lemma receiver_registered:
  "c < length (st_chans s) \<Longrightarrow> t \<in> set (ch_receivers (chan_at s c)) \<Longrightarrow> registered t s"
  using count_clear_receivers [of c s t] by (simp add: registered_def)

lemma selecter_registered:
  "c < length (st_chans s) \<Longrightarrow> t \<in> fst ` set (ch_selecters (chan_at s c)) \<Longrightarrow> registered t s"
  unfolding registered_def selecting_def using nth_mem by blast

lemma shrinks_pop: "shrinks s (upd_chan c (\<lambda>e. e\<lparr>ch_senders := tl (ch_senders e)\<rparr>) s)"
proof (rule shrinks_upd_chan)
  have "count_list (map fst (tl xs)) u \<le> count_list (map fst xs) u" for u and xs :: "(task_id \<times> 'a val) list"
    by (cases xs) auto
  then show "chan_count u (e\<lparr>ch_senders := tl (ch_senders e)\<rparr>) \<le> chan_count u e" for e :: "'a chan" and u
    by (simp add: chan_count_def)
qed simp

lemma fill_kept: "kept u s (fill_buffer c s)"
proof (induction c s rule: fill_buffer.induct)
  case (1 c s)
  show ?case
  proof (cases "c < length (st_chans s) \<and> length (ch_buf (chan_at s c)) < ch_cap (chan_at s c) \<and>
      ch_senders (chan_at s c) \<noteq> []")
    case True
    obtain t v where h: "(t, v) = hd (ch_senders (chan_at s c))" by (metis surj_pair)
    let ?s1 = "upd_chan c (\<lambda>e. e\<lparr>ch_senders := tl (ch_senders e)\<rparr>) s"
    let ?s3 = "upd_chan c (\<lambda>e. e\<lparr>ch_buf := ch_buf e @ [(v, tc_vc (task_at s t))], ch_sends := ch_sends e + 1\<rparr>) (tick t ?s1)"
    have "shrinks s ?s3" by (rule shrinks_trans [OF shrinks_pop [where c = c] shrinks_trans [OF shrinks_tick [where t = t]]]) simp
    moreover have "registered t s"
    proof (rule sender_registered [of c])
      have "(t, v) \<in> set (ch_senders (chan_at s c))" using True h hd_in_set by metis
      then show "t \<in> fst ` set (ch_senders (chan_at s c))" by force
    qed (use True in blast)
    ultimately have k: "kept u s (make_ready t (WkOk VUnit) ?s3)" by (intro kept_woken kept_shrinks)
    have "fill_buffer c s = fill_buffer c (make_ready t (WkOk VUnit) ?s3)"
      using True by (subst fill_buffer.simps) (simp add: Let_def flip: h)
    with kept_trans [OF k "1.IH" [OF True h refl refl refl refl refl]] show ?thesis by simp
  next
    case False
    then show ?thesis by (subst fill_buffer.simps) auto
  qed
qed

lemma take_kept:
  assumes c: "c < length (st_chans s)" and ne: "ch_buf (chan_at s c) \<noteq> [] \<or> ch_senders (chan_at s c) \<noteq> []"
  shows "kept u s (snd (take_message c s))"
proof (cases "ch_buf (chan_at s c) \<noteq> []")
  case True
  then show ?thesis by (simp add: take_message_def kept_shrinks)
next
  case False
  with ne obtain t v rest where h: "ch_senders (chan_at s c) = (t, v) # rest" by (metis list.exhaust surj_pair)
  let ?s1 = "upd_chan c (\<lambda>e. e\<lparr>ch_senders := tl (ch_senders e)\<rparr>) s"
  have sh: "shrinks s (upd_chan c (\<lambda>e. e\<lparr>ch_sends := ch_sends e + 1\<rparr>) (tick t ?s1))"
    by (rule shrinks_trans [OF shrinks_pop [where c = c] shrinks_trans [OF shrinks_tick [where t = t]]]) simp
  have "registered t s" by (rule sender_registered [OF c]) (simp add: h)
  from kept_woken [OF kept_shrinks [OF sh] this] show ?thesis using False h by (simp add: take_message_def Let_def)
qed

lemma deliver_kept:
  assumes c: "c < length (st_chans s)" and ne: "ch_buf (chan_at s c) \<noteq> [] \<or> ch_senders (chan_at s c) \<noteq> []"
    and w: "waiter (chan_at s c) = Some (t, arm)"
  shows "kept u s (deliver_to c t arm s)"
proof -
  let ?s1 = "if arm \<noteq> None then op_select_consume t s else s"
  obtain v vc s2 where m: "take_message c ?s1 = ((v, vc), s2)" by (metis prod.collapse)
  have k1: "kept u s ?s1" using kept_shrinks [OF shrinks_consume [of s t]] by simp
  have k2: "kept u ?s1 s2" using take_kept [of c ?s1 u] c ne m by simp
  have "shrinks s2 (deregister t (hb_edge vc t (upd_chan c (\<lambda>e. e\<lparr>ch_recvs := ch_recvs e + 1\<rparr>) s2)))"
    by (rule shrinks_trans [OF _ shrinks_trans [OF shrinks_hb_edge shrinks_deregister]]) simp
  from kept_trans [OF kept_trans [OF k1 k2] kept_shrinks [OF this]]
  have "kept u s (make_ready t x (deregister t (hb_edge vc t (upd_chan c (\<lambda>e. e\<lparr>ch_recvs := ch_recvs e + 1\<rparr>) s2))))" for x
    by (rule kept_woken [OF _ waiter_registered [OF c w]])
  then show ?thesis using m by (cases arm) (simp_all add: deliver_to_def Let_def)
qed

lemma release_kept:
  assumes c: "c < length (st_chans s)"
  shows "kept u s (release_closed c s)"
proof -
  define s1 where "s1 = fold (\<lambda>t. make_ready t WkClosed) (ch_receivers (chan_at s c))
      (upd_chan c (\<lambda>e. e\<lparr>ch_receivers := []\<rparr>) s)"
  have sh: "shrinks s (upd_chan c (\<lambda>e. e\<lparr>ch_receivers := []\<rparr>) s)"
    by (rule shrinks_upd_chan) (simp_all add: chan_count_def)
  have k1: "kept u s s1" unfolding s1_def
    by (rule kept_fold [OF kept_woken kept_shrinks [OF sh]]) (use receiver_registered [OF c] in auto)
  have sel: "ch_selecters (chan_at s1 c) = ch_selecters (chan_at s c)"
    unfolding s1_def fold_make_ready_chans [where f = "\<lambda>t. t" and w = "\<lambda>_. WkClosed", simplified] using c by simp
  have "shrinks s1 (upd_chan c (\<lambda>e. e\<lparr>ch_selecters := []\<rparr>) s1)" by (rule shrinks_upd_chan) (simp_all add: chan_count_def)
  note k2 = kept_trans [OF k1 kept_shrinks [OF this]]
  have "kept u s (fold (\<lambda>(t, a) r. make_ready t (WkArm a (Some closed_error)) (deregister t (op_select_consume t r)))
      (ch_selecters (chan_at s c)) (upd_chan c (\<lambda>e. e\<lparr>ch_selecters := []\<rparr>) s1))"
  proof (rule kept_fold [OF _ k2])
    fix x and r :: "'a sched" assume x: "x \<in> set (ch_selecters (chan_at s c))" and k: "kept u s r"
    obtain t a where xa: "x = (t, a)" by (cases x)
    have "registered t s" by (rule selecter_registered [OF c]) (use x xa in force)
    from kept_woken [OF kept_trans [OF k kept_shrinks [OF shrinks_trans [OF shrinks_consume shrinks_deregister]]] this]
    show "kept u s ((\<lambda>(t, a) r. make_ready t (WkArm a (Some closed_error)) (deregister t (op_select_consume t r))) x r)"
      by (simp add: xa)
  qed
  then show ?thesis unfolding release_closed_def Let_def s1_def [symmetric] sel .
qed

lemma settle_kept: "kept u s (settle_chan c s)"
proof (induction c s rule: settle_chan.induct)
  case (1 c s)
  let ?s1 = "fill_buffer c s"
  have l: "length (st_chans ?s1) = length (st_chans s)" using fill_buffer_waits [of c s] by simp
  show ?case
  proof (cases "c < length (st_chans s)")
    case False
    then show ?thesis by (subst settle_chan.simps) simp
  next
    case c: True
    show ?thesis
    proof (cases "ch_buf (chan_at ?s1 c) = [] \<and> ch_senders (chan_at ?s1 c) = []")
      case True
      have "kept u ?s1 (release_closed c ?s1)" by (rule release_kept) (use c l in simp)
      with c True fill_kept [of u s c] show ?thesis
        using kept_trans [OF fill_kept [of u s c]] by (subst settle_chan.simps) (simp add: Let_def)
    next
      case ne: False
      show ?thesis
      proof (cases "waiter (chan_at ?s1 c)")
        case None
        with c ne fill_kept show ?thesis by (subst settle_chan.simps) (auto simp: Let_def)
      next
        case (Some w)
        obtain t arm where w: "w = (t, arm)" by (cases w)
        have d: "kept u ?s1 (deliver_to c t arm ?s1)"
          by (rule deliver_kept) (use c l ne Some w in auto)
        have e: "settle_chan c s = settle_chan c (deliver_to c t arm ?s1)"
          using c ne Some w by (subst settle_chan.simps) (auto simp: Let_def)
        have "kept u (deliver_to c t arm ?s1) (settle_chan c (deliver_to c t arm ?s1))"
          by (rule "1.IH" [OF refl refl]) (use c ne Some w in auto)
        with kept_trans [OF fill_kept d] show ?thesis unfolding e by (rule kept_trans)
      qed
    qed
  qed
qed

section \<open>Delivery in order\<close>

text \<open>The messages a channel holds, oldest first: the buffered ones, then those of the blocked senders.\<close>

definition queued :: "'c chan \<Rightarrow> 'c val list" where
  "queued c = map fst (ch_buf c) @ map snd (ch_senders c)"

lemma fill_chan:
  "c < length (st_chans s) \<Longrightarrow>
     queued (chan_at (fill_buffer c s) c) = queued (chan_at s c) \<and>
     ch_recvs (chan_at (fill_buffer c s) c) = ch_recvs (chan_at s c) \<and>
     (ch_senders (chan_at (fill_buffer c s) c) = [] \<or>
        ch_cap (chan_at (fill_buffer c s) c) \<le> length (ch_buf (chan_at (fill_buffer c s) c)))"
proof (induction c s rule: fill_buffer.induct)
  case (1 c s)
  show ?case
  proof (cases "length (ch_buf (chan_at s c)) < ch_cap (chan_at s c) \<and> ch_senders (chan_at s c) \<noteq> []")
    case True
    with "1.prems" have T: "c < length (st_chans s) \<and> length (ch_buf (chan_at s c)) < ch_cap (chan_at s c) \<and>
        ch_senders (chan_at s c) \<noteq> []" by simp
    obtain t v rest where h: "ch_senders (chan_at s c) = (t, v) # rest" using True by (metis list.exhaust surj_pair)
    then have hd: "(t, v) = hd (ch_senders (chan_at s c))" by simp
    let ?s3 = "upd_chan c (\<lambda>e. e\<lparr>ch_buf := ch_buf e @ [(v, tc_vc (task_at s t))], ch_sends := ch_sends e + 1\<rparr>)
        (tick t (upd_chan c (\<lambda>e. e\<lparr>ch_senders := tl (ch_senders e)\<rparr>) s))"
    have e: "fill_buffer c s = fill_buffer c (make_ready t (WkOk VUnit) ?s3)"
      using T h by (subst fill_buffer.simps) (simp add: Let_def)
    from "1.IH" [OF T hd refl refl refl refl refl] T h show ?thesis unfolding e by (simp add: queued_def)
  next
    case False
    then have "fill_buffer c s = s" by (subst fill_buffer.simps) auto
    with False show ?thesis by auto
  qed
qed

lemma take_value:
  "queued (chan_at s c) \<noteq> [] \<Longrightarrow> fst (fst (take_message c s)) = hd (queued (chan_at s c))"
  by (cases "ch_buf (chan_at s c)"; cases "ch_senders (chan_at s c)")
    (auto simp: take_message_def queued_def Let_def split: prod.splits)

lemma filter_id: "(\<And>x. x \<in> set xs \<Longrightarrow> P x) \<Longrightarrow> filter P xs = xs"
  by (rule filter_True) blast

lemma deliver_chan:
  assumes c: "c < length (st_chans s)" and q: "queued (chan_at s c) \<noteq> []"
    and t: "t \<notin> fst ` set (ch_senders (chan_at s c))"
  shows "queued (chan_at (deliver_to c t arm s) c) = tl (queued (chan_at s c))"
    and "ch_recvs (chan_at (deliver_to c t arm s) c) = Suc (ch_recvs (chan_at s c))"
    and "ch_receivers (chan_at (deliver_to c t arm s) c) = filter (\<lambda>u. u \<noteq> t) (ch_receivers (chan_at s c))"
    and "wake_of (deliver_to c t arm s) t = (if t < length (st_tasks s)
          then Some (case arm of None \<Rightarrow> WkOk (hd (queued (chan_at s c))) | Some a \<Rightarrow> WkArm a (Some (hd (queued (chan_at s c)))))
          else wake_of (deliver_to c t arm s) t)"
proof -
  let ?s1 = "if arm \<noteq> None then op_select_consume t s else s"
  obtain v vc s2 where m: "take_message c ?s1 = ((v, vc), s2)" by (metis prod.collapse)
  have ch1: "chan_at ?s1 c = chan_at s c" by simp
  have v: "v = hd (queued (chan_at s c))" using take_value [of ?s1 c] q m ch1 by simp
  have s2: "st_chans s2 = modify_at c (\<lambda>e. if ch_buf (chan_at s c) \<noteq> [] then e\<lparr>ch_buf := tl (ch_buf e)\<rparr>
     else e\<lparr>ch_senders := tl (ch_senders e), ch_sends := ch_sends e + 1\<rparr>) (st_chans s)"
    using take_message_chans [of c ?s1] m by (cases arm) simp_all
  have d: "deliver_to c t arm s = make_ready t (case arm of None \<Rightarrow> WkOk v | Some a \<Rightarrow> WkArm a (Some v))
      (deregister t (hb_edge vc t (upd_chan c (\<lambda>e. e\<lparr>ch_recvs := ch_recvs e + 1\<rparr>) s2)))"
    using m by (cases arm) (simp_all add: deliver_to_def Let_def)
  have f: "filter (\<lambda>(u, x). u \<noteq> t) (ch_senders (chan_at s c)) = ch_senders (chan_at s c)"
    "filter (\<lambda>(u, x). u \<noteq> t) (tl (ch_senders (chan_at s c))) = tl (ch_senders (chan_at s c))"
    by (cases "ch_senders (chan_at s c)"; use t in \<open>force intro: filter_id\<close>)+
  show "queued (chan_at (deliver_to c t arm s) c) = tl (queued (chan_at s c))"
    using c q f unfolding d
    by (cases "ch_buf (chan_at s c)") (simp_all add: s2 deregister_def chan_without_def queued_def map_tl)
  show "ch_recvs (chan_at (deliver_to c t arm s) c) = Suc (ch_recvs (chan_at s c))"
    "ch_receivers (chan_at (deliver_to c t arm s) c) = filter (\<lambda>u. u \<noteq> t) (ch_receivers (chan_at s c))"
    using c unfolding d by (simp_all add: s2 deregister_def chan_without_def)
  have "length (st_tasks s2) = length (st_tasks s)"
  proof -
    have "kept t ?s1 s2" using take_kept [of c ?s1 t] c q ch1 m by (auto simp: queued_def)
    moreover have "kept t s ?s1" using kept_shrinks [OF shrinks_consume [of s t]] by simp
    ultimately show ?thesis by (simp add: kept_def)
  qed
  then show "wake_of (deliver_to c t arm s) t = (if t < length (st_tasks s)
          then Some (case arm of None \<Rightarrow> WkOk (hd (queued (chan_at s c))) | Some a \<Rightarrow> WkArm a (Some (hd (queued (chan_at s c)))))
          else wake_of (deliver_to c t arm s) t)"
    unfolding d v by (simp add: make_ready_view)
qed

lemma deliver_length: "length (st_chans (deliver_to c t arm s)) = length (st_chans s)"
proof -
  let ?s1 = "if arm \<noteq> None then op_select_consume t s else s"
  obtain v vc s2 where m: "take_message c ?s1 = ((v, vc), s2)" by (metis prod.collapse)
  have "length (st_chans (snd (take_message c ?s1))) = length (st_chans ?s1)" by (rule length_chans_take)
  then have "length (st_chans s2) = length (st_chans s)" unfolding m by simp
  then show ?thesis using m by (cases arm) (simp_all add: deliver_to_def Let_def deregister_def)
qed

lemma release_chan:
  assumes c: "c < length (st_chans s)"
  shows "queued (chan_at s c) = [] \<Longrightarrow> queued (chan_at (release_closed c s) c) = []"
    and "ch_recvs (chan_at (release_closed c s) c) = ch_recvs (chan_at s c)"
proof -
  define s1 where "s1 = fold (\<lambda>t. make_ready t WkClosed) (ch_receivers (chan_at s c))
      (upd_chan c (\<lambda>e. e\<lparr>ch_receivers := []\<rparr>) s)"
  have s1: "st_chans s1 = modify_at c (\<lambda>e. e\<lparr>ch_receivers := []\<rparr>) (st_chans s)"
    unfolding s1_def fold_make_ready_chans [where f = "\<lambda>t. t" and w = "\<lambda>_. WkClosed", simplified] by simp
  let ?f = "\<lambda>(t, a) r. make_ready t (WkArm a (Some closed_error)) (deregister t (op_select_consume t r))"
  have e: "release_closed c s = fold ?f (ch_selecters (chan_at s1 c)) (upd_chan c (\<lambda>e. e\<lparr>ch_selecters := []\<rparr>) s1)"
    unfolding release_closed_def Let_def s1_def [symmetric] ..
  have ind: "c < length (st_chans r) \<Longrightarrow> (queued (chan_at r c) = [] \<longrightarrow> queued (chan_at (fold ?f xs r) c) = []) \<and>
      ch_recvs (chan_at (fold ?f xs r) c) = ch_recvs (chan_at r c)" for xs and r :: "'a sched"
  proof (induction xs arbitrary: r)
    case (Cons x xs)
    obtain t a where x: "x = (t, a)" by (cases x)
    let ?r = "make_ready t (WkArm a (Some closed_error)) (deregister t (op_select_consume t r))"
    have "st_chans ?r = map (chan_without t) (st_chans r)" by (simp add: deregister_def)
    with Cons.IH [of ?r] Cons.prems show ?case by (auto simp: x queued_def chan_without_def)
  qed simp
  show "queued (chan_at s c) = [] \<Longrightarrow> queued (chan_at (release_closed c s) c) = []"
    "ch_recvs (chan_at (release_closed c s) c) = ch_recvs (chan_at s c)"
    unfolding e using ind [of "upd_chan c (\<lambda>e. e\<lparr>ch_selecters := []\<rparr>) s1" "ch_selecters (chan_at s1 c)"] c
    by (auto simp: s1 queued_def)
qed

lemma waiter_facts:
  assumes ok: "sched_ok s" and c: "c < length (st_chans s)" and w: "waiter (chan_at s c) = Some (t, arm)"
  shows "t \<notin> fst ` set (ch_senders (chan_at s c))"
    and "arm = None \<Longrightarrow> \<exists>rest. ch_receivers (chan_at s c) = t # rest \<and> t \<notin> set rest"
    and "arm \<noteq> None \<Longrightarrow> ch_receivers (chan_at s c) = []"
proof -
  have "chan_count t (chan_at s c) \<le> (\<Sum>e \<leftarrow> st_chans s. chan_count t e)"
    using c member_le_sum_list [of "chan_count t (chan_at s c)" "map (chan_count t) (st_chans s)"] by simp
  then have le: "chan_count t (chan_at s c) \<le> excl_count t s" by (simp add: excl_count_def)
  have one: "excl_count t s \<le> 1" and sel: "selecting t s \<Longrightarrow> excl_count t s = 0"
    using ok by (simp_all add: sched_ok_def reg_ok_def)
  have "ch_receivers (chan_at s c) = [] \<and> t \<in> fst ` set (ch_selecters (chan_at s c)) \<and> arm \<noteq> None \<or>
      (\<exists>rest. ch_receivers (chan_at s c) = t # rest \<and> arm = None)"
    using w by (auto simp: waiter_def split: list.splits)
  then have "count_list (map fst (ch_senders (chan_at s c))) t = 0 \<and>
      (arm = None \<longrightarrow> (\<exists>rest. ch_receivers (chan_at s c) = t # rest \<and> count_list rest t = 0)) \<and>
      (arm \<noteq> None \<longrightarrow> ch_receivers (chan_at s c) = [])"
  proof
    assume a: "ch_receivers (chan_at s c) = [] \<and> t \<in> fst ` set (ch_selecters (chan_at s c)) \<and> arm \<noteq> None"
    then have "selecting t s" unfolding selecting_def using nth_mem [OF c] by blast
    with sel le a show ?thesis by (simp add: chan_count_def)
  next
    assume "\<exists>rest. ch_receivers (chan_at s c) = t # rest \<and> arm = None"
    with le one show ?thesis by (auto simp: chan_count_def)
  qed
  then show "t \<notin> fst ` set (ch_senders (chan_at s c))"
    and "arm = None \<Longrightarrow> \<exists>rest. ch_receivers (chan_at s c) = t # rest \<and> t \<notin> set rest"
    and "arm \<noteq> None \<Longrightarrow> ch_receivers (chan_at s c) = []"
    by (auto simp: count_list_0_iff)
qed

text \<open>What a settled channel and its receivers look like, from the channel before.\<close>

definition settled :: "chan_id \<Rightarrow> 'c chan \<Rightarrow> nat \<Rightarrow> 'c sched \<Rightarrow> bool" where
  "settled c old k s \<longleftrightarrow>
     k \<le> length (queued old) \<and> queued (chan_at s c) = drop k (queued old) \<and>
     ch_recvs (chan_at s c) = ch_recvs old + k \<and>
     (\<forall>i < length (ch_receivers old). i < length (queued old) \<longrightarrow>
        wake_of s (ch_receivers old ! i) = Some (WkOk (queued old ! i))) \<and>
     (ch_senders (chan_at s c) = [] \<or> ch_cap (chan_at s c) \<le> length (ch_buf (chan_at s c))) \<and>
     (queued (chan_at s c) = [] \<or> ch_receivers (chan_at s c) = [] \<and> ch_selecters (chan_at s c) = [])"

lemma queued_empty: "queued e = [] \<longleftrightarrow> ch_buf e = [] \<and> ch_senders e = []"
  by (simp add: queued_def)

lemma waiter_None: "waiter e = None \<longleftrightarrow> ch_receivers e = [] \<and> ch_selecters e = []"
  by (auto simp: waiter_def split: list.splits)

lemma settle_spec:
  "sched_ok s \<Longrightarrow> c < length (st_chans s) \<Longrightarrow> \<exists>k. settled c (chan_at s c) k (settle_chan c s)"
proof (induction c s rule: settle_chan.induct)
  case (1 c s)
  let ?s1 = "fill_buffer c s"
  have c: "c < length (st_chans s)" and c1: "c < length (st_chans ?s1)"
    and W: "waits (chan_at ?s1 c) = waits (chan_at s c)"
    using "1.prems"(2) fill_buffer_waits [of c s] by simp_all
  have rc: "ch_receivers (chan_at s c) = ch_receivers (chan_at ?s1 c)" using W by (simp add: waits_def)
  note F = fill_chan [OF c]
  have ok1: "sched_ok ?s1" by (rule good_from_ok [OF fill_buffer_good "1.prems"(1)])
  show ?case
  proof (cases "queued (chan_at ?s1 c) = []")
    case True
    let ?s' = "if ch_closed (chan_at ?s1 c) then release_closed c ?s1 else ?s1"
    have e: "settle_chan c s = ?s'"
      using True c by (subst settle_chan.simps) (simp add: Let_def queued_empty)
    have "settled c (chan_at s c) 0 ?s'"
      using F True release_chan [OF c1] by (auto simp: settled_def queued_empty)
    then show ?thesis unfolding e by blast
  next
    case ne: False
    show ?thesis
    proof (cases "waiter (chan_at ?s1 c)")
      case None
      then have e: "settle_chan c s = ?s1"
        using ne c by (subst settle_chan.simps) (auto simp: Let_def queued_empty)
      have "settled c (chan_at s c) 0 ?s1" using F None rc by (auto simp: settled_def waiter_None)
      then show ?thesis unfolding e by blast
    next
      case (Some w)
      obtain t arm where w: "w = (t, arm)" by (cases w)
      let ?s2 = "deliver_to c t arm ?s1"
      note wf = waiter_facts [OF ok1 c1 Some [unfolded w]]
      note D = deliver_chan [OF c1 ne wf(1), of arm]
      have buf: "ch_buf (chan_at ?s1 c) \<noteq> [] \<or> ch_senders (chan_at ?s1 c) \<noteq> []" using ne by (auto simp: queued_empty)
      have g2: "good_from ?s1 ?s2" by (rule deliver_to_good [OF c1 buf Some [unfolded w]])
      note ok2 = good_from_ok [OF g2 ok1]
      have e: "settle_chan c s = settle_chan c ?s2"
        using c ne Some w by (subst settle_chan.simps) (auto simp: Let_def queued_empty)
      have c2: "c < length (st_chans ?s2)"
        using c1 by (simp add: deliver_length)
      obtain k where k: "settled c (chan_at ?s2 c) k (settle_chan c ?s2)"
        using "1.IH" [OF refl refl _ _ Some w [symmetric] ok2 c2] c ne by (auto simp: queued_empty)
      have q2: "queued (chan_at ?s2 c) = tl (queued (chan_at s c))" and nes: "queued (chan_at s c) \<noteq> []"
        using D(1) F ne by simp_all
      have "wake_of (settle_chan c ?s2) (ch_receivers (chan_at s c) ! i) = Some (WkOk (queued (chan_at s c) ! i))"
        if i: "i < length (ch_receivers (chan_at s c))" "i < length (queued (chan_at s c))" for i
      proof -
        have an: "arm = None" using i wf(3) rc by (cases arm) simp_all
        then obtain rest where r: "ch_receivers (chan_at s c) = t # rest" "t \<notin> set rest" using wf(2) rc by auto
        have "filter (\<lambda>u. u \<noteq> t) rest = rest" using r(2) by (intro filter_id) auto
        then have r2: "ch_receivers (chan_at ?s2 c) = rest" using D(3) r rc by simp
        show ?thesis
        proof (cases i)
          case 0
          have tl: "t < length (st_tasks ?s1)" by (rule registered_lt [OF ok1 waiter_registered [OF c1 Some [unfolded w]]])
          then have wk: "wake_of ?s2 t = Some (WkOk (hd (queued (chan_at ?s1 c))))" using D(4) an by simp
          then have "\<not> registered t ?s2" using wake_unregisters [OF ok2] by simp
          moreover have "t < length (st_tasks ?s2)" using good_from_length [OF g2 ok1] tl by simp
          ultimately have "wake_of (settle_chan c ?s2) t = wake_of ?s2 t"
            using settle_kept [of t ?s2 c] by (simp add: kept_def)
          with wk 0 r F nes show ?thesis by (simp add: hd_conv_nth)
        next
          case (Suc j)
          with i r nes have "j < length (ch_receivers (chan_at ?s2 c))" "j < length (queued (chan_at ?s2 c))"
            by (simp_all add: r2 q2)
          with k have "wake_of (settle_chan c ?s2) (ch_receivers (chan_at ?s2 c) ! j) = Some (WkOk (queued (chan_at ?s2 c) ! j))"
            by (simp add: settled_def)
          then show ?thesis using nes by (cases "queued (chan_at s c)") (simp_all add: Suc r r2 q2)
        qed
      qed
      moreover have "Suc k \<le> length (queued (chan_at s c))" "drop k (queued (chan_at ?s2 c)) = drop (Suc k) (queued (chan_at s c))"
        using k nes by (auto simp: settled_def q2 drop_Suc neq_Nil_conv)
      ultimately have "settled c (chan_at s c) (Suc k) (settle_chan c ?s2)"
        using k D(2) F unfolding settled_def by auto
      then show ?thesis unfolding e by blast
    qed
  qed
qed

text \<open>C6: settling a channel delivers its messages in order. The first \<open>k\<close> messages are received, where the
  buffer comes before the blocked senders; the \<open>i\<close>-th waiting receiver is woken with the \<open>i\<close>-th message; what
  stays is the rest, in its order; and afterwards no sender is blocked while the buffer has room, and no
  task waits while there is a message.\<close>
theorem settle_delivers_in_order:
  assumes "sched_ok s" and "c < length (st_chans s)"
  shows "\<exists>k \<le> length (queued (chan_at s c)).
    queued (chan_at (settle_chan c s) c) = drop k (queued (chan_at s c)) \<and>
    ch_recvs (chan_at (settle_chan c s) c) = ch_recvs (chan_at s c) + k \<and>
    (\<forall>i < length (ch_receivers (chan_at s c)). i < length (queued (chan_at s c)) \<longrightarrow>
       tc_wake (task_at (settle_chan c s) (ch_receivers (chan_at s c) ! i)) = Some (WkOk (queued (chan_at s c) ! i))) \<and>
    (ch_senders (chan_at (settle_chan c s) c) = [] \<or>
       ch_cap (chan_at (settle_chan c s) c) \<le> length (ch_buf (chan_at (settle_chan c s) c))) \<and>
    (queued (chan_at (settle_chan c s) c) = [] \<or>
       ch_receivers (chan_at (settle_chan c s) c) = [] \<and> ch_selecters (chan_at (settle_chan c s) c) = [])"
  using settle_spec [OF assms] by (auto simp: settled_def wake_of_def)

text \<open>The lone waiter of theory SchedProps with a message put into its channel.\<close>

definition mailed :: "unit sched" where
  "mailed = upd_chan 0 (\<lambda>e. e\<lparr>ch_buf := [(VBool True, [])]\<rparr>) lone_waiter"

lemma mailed_ok: "sched_ok mailed"
proof -
  have "shrinks lone_waiter mailed" unfolding mailed_def by (rule shrinks_data)
  from shrinks_ok [OF _ this] lone_waiter_waits show ?thesis by (simp add: waits_for_def)
qed

theorem settle_delivers_in_order_witness:
  "sched_ok mailed \<and> 0 < length (st_chans mailed) \<and> tc_wake (task_at (settle_chan 0 mailed) 0) = Some (WkOk (VBool True))"
proof -
  have c: "0 < length (st_chans mailed)" by code_simp
  have "ch_receivers (chan_at mailed 0) = [0]" "queued (chan_at mailed 0) = [VBool True]" by code_simp+
  with settle_delivers_in_order [OF mailed_ok c] have "tc_wake (task_at (settle_chan 0 mailed) 0) = Some (WkOk (VBool True))"
    by auto
  with mailed_ok c show ?thesis by blast
qed

end
