(* ===== verification/SchedSync.thy ===== *)
theory SchedSync
  imports SchedSettle
begin

text \<open>
  Mutexes and vector clocks, and two places where the scheduler strands a task: a \<open>select\<close> that takes a
  buffered message does not settle the channel, and a task that is killed between the grant of a mutex and
  its next step keeps the mutex for ever.
\<close>

section \<open>A select that strands a sender\<close>

lemma blocked_unless_running:
  assumes "runs me s" and "registered t s"
  shows "t < length (st_tasks s) \<and> tc_state (task_at s t) = TsBlocked \<and> tc_wake (task_at s t) = None"
proof -
  have ok: "sched_ok s" and q: "quiet me s" using assms(1) by (simp_all add: runs_def)
  with assms(2) have t: "t < length (st_tasks s)" "state_of_task s t \<in> {TsBlocked, TsRunning}" "wake_of s t = None"
    by (simp_all add: sched_ok_def reg_ok_def)
  have "t \<noteq> me" using q assms(2) by (auto simp: quiet_def)
  with ok q t show ?thesis by (auto simp: sched_ok_def baton_ok_def quiet_def state_of_task_def wake_of_def)
qed

lemma select_single:
  assumes live: "\<not> tc_killed (task_at s me)" "\<not> tc_cancelled (task_at s me)"
    and b: "ch_buf (chan_at s c) = (v, vc) # rest" and c: "c < length (st_chans s)"
  shows "\<exists>s2. fst (select me [(a, c)] None s) = Completes (Inl (a, Some v)) \<and>
    snd (select me [(a, c)] None s) = hb_edge vc me (upd_chan c (\<lambda>e. e\<lparr>ch_recvs := ch_recvs e + 1\<rparr>)
      (upd_chan c (\<lambda>e. e\<lparr>ch_buf := tl (ch_buf e)\<rparr>) s2)) \<and> st_chans s2 = st_chans s"
proof -
  let ?s1 = "sched_op me (OkChan c) True (sched_op me (OkTaskCtl me) False s)"
  have r: "ready_arms [(a, c)] None ?s1 = [a]" using b by (simp add: ready_arms_def arm_ready_def)
  obtain i s2 where d: "decide DkArm [a] ?s1 = (i, s2)" by fastforce
  have i: "i = 0" using decide_bound [of "[a]" DkArm ?s1] d by simp
  have ch: "st_chans s2 = st_chans s" using d by (auto simp: decide_def Let_def split: prod.splits)
  have m: "commit_arm me a c s2 = ((a, Some v), hb_edge vc me (upd_chan c (\<lambda>e. e\<lparr>ch_recvs := ch_recvs e + 1\<rparr>)
      (upd_chan c (\<lambda>e. e\<lparr>ch_buf := tl (ch_buf e)\<rparr>) s2)))"
    using b by (simp add: commit_arm_def take_message_def ch Let_def)
  show ?thesis using live r d i m ch by (auto simp: select_def Let_def)
qed

text \<open>C35: a \<open>select\<close> that commits a buffered message of a full channel leaves the sender at the front of the
  queue blocked and unwoken, although the buffer has room for its message now; a \<open>recv\<close> in the same state
  leaves no sender blocked while there is room. The stranded sender waits until some later operation
  settles the channel, and if none does the program deadlocks.\<close>
theorem select_strands_sender:
  assumes r: "runs me s" and nj: "at_no_join me s"
    and live: "\<not> tc_killed (task_at s me)" "\<not> tc_cancelled (task_at s me)"
    and c: "c < length (st_chans s)" and b: "ch_buf (chan_at s c) = (v, vc) # rest"
    and sd: "ch_senders (chan_at s c) = (t, w) # ss" and full: "ch_cap (chan_at s c) = length (ch_buf (chan_at s c))"
  shows "fst (select me [(a, c)] None s) = Completes (Inl (a, Some v)) \<and>
    length (ch_buf (chan_at (snd (select me [(a, c)] None s)) c)) < ch_cap (chan_at (snd (select me [(a, c)] None s)) c) \<and>
    ch_senders (chan_at (snd (select me [(a, c)] None s)) c) = (t, w) # ss \<and>
    tc_state (task_at (snd (select me [(a, c)] None s)) t) = TsBlocked \<and>
    tc_wake (task_at (snd (select me [(a, c)] None s)) t) = None \<and>
    (ch_senders (chan_at (snd (recv me c s)) c) = [] \<or>
       ch_cap (chan_at (snd (recv me c s)) c) \<le> length (ch_buf (chan_at (snd (recv me c s)) c)))"
proof (intro conjI)
  let ?s' = "snd (select me [(a, c)] None s)"
  obtain s2 where f: "fst (select me [(a, c)] None s) = Completes (Inl (a, Some v))"
    and s': "?s' = hb_edge vc me (upd_chan c (\<lambda>e. e\<lparr>ch_recvs := ch_recvs e + 1\<rparr>)
      (upd_chan c (\<lambda>e. e\<lparr>ch_buf := tl (ch_buf e)\<rparr>) s2))" and ch: "st_chans s2 = st_chans s"
    using select_single [OF live b c] by blast
  show "fst (select me [(a, c)] None s) = Completes (Inl (a, Some v))" by (rule f)
  show "length (ch_buf (chan_at ?s' c)) < ch_cap (chan_at ?s' c)" and sd': "ch_senders (chan_at ?s' c) = (t, w) # ss"
    unfolding s' using c b full sd by (simp_all add: ch)
  have "ends_well me (select me [(a, c)] None s)"
    by (rule select_ends [OF r]) (use nj c in \<open>simp_all add: may_wait_def\<close>)
  then have r': "runs me ?s'" using f by (simp add: ends_well_def)
  have "registered t ?s'"
    by (rule sender_registered [of c]) (simp add: s' ch c, unfold sd', simp)
  from blocked_unless_running [OF r' this]
  show "tc_state (task_at ?s' t) = TsBlocked" "tc_wake (task_at ?s' t) = None" by simp_all
  let ?s1 = "sched_op me (OkChan c) True (sched_op me (OkTaskCtl me) False s)"
  let ?f = "\<lambda>e :: 'a chan. e\<lparr>ch_receivers := ch_receivers e @ [me]\<rparr>"
  have r1: "runs me ?s1" by (intro runs_ops r)
  have "waits_for me (upd_chan c ?f ?s1)"
    using register_chan [OF r1, of c ?f] nj c by (simp add: chan_count_def)
  then have "\<exists>k. settled c (chan_at (upd_chan c ?f ?s1) c) k (settle_chan c (upd_chan c ?f ?s1))"
    by (intro settle_spec) (simp_all add: waits_for_def c)
  moreover have "st_chans (snd (recv me c s)) = st_chans (settle_chan c (upd_chan c ?f ?s1))"
    using live by (simp add: recv_def Let_def settled_or_parks_def take_wake_def split: option.split)
  ultimately show "ch_senders (chan_at (snd (recv me c s)) c) = [] \<or>
       ch_cap (chan_at (snd (recv me c s)) c) \<le> length (ch_buf (chan_at (snd (recv me c s)) c))"
    by (auto simp: settled_def)
qed

text \<open>A full channel of capacity one with a second sender blocked, and main running.\<close>

definition full_channel :: "unit sched" where
  "full_channel = (sched_with (Seeded 0 1))\<lparr>
     st_tasks := [(fresh_tcb 0 None [1])\<lparr>tc_state := TsRunning\<rparr>, (fresh_tcb 0 None [1, 2])\<lparr>tc_state := TsBlocked\<rparr>],
     st_chans := [\<lparr>ch_cap = 1, ch_buf = [(VBool True, [1, 1])], ch_closed = False, ch_senders = [(1, VBool False)],
       ch_receivers = [], ch_selecters = [], ch_sends = 1, ch_recvs = 0\<rparr>]\<rparr>"

lemma full_channel_runs: "runs 0 full_channel"
proof -
  have regs: "excl_count t full_channel = (if t = 1 then 1 else 0)" "\<not> selecting t full_channel"
    "registered t full_channel \<longleftrightarrow> t = 1" for t
    by (simp_all add: full_channel_def sched_with_def excl_count_def selecting_def registered_def chan_count_def)
  have st: "length (st_tasks full_channel) = 2" "state_of_task full_channel 0 = TsRunning" "wake_of full_channel 0 = None"
    "state_of_task full_channel 1 = TsBlocked" "wake_of full_channel 1 = None" "st_ready full_channel = []"
    by (simp_all add: full_channel_def sched_with_def state_of_task_def wake_of_def fresh_tcb_def)
  have "reg_ok full_channel" using st by (simp add: reg_ok_def regs)
  moreover have "state_of_task full_channel t \<noteq> TsReady" if "t < 2" for t
    using that st by (auto simp: less_2_cases_iff)
  then have "queue_ok full_channel" using st by (auto simp: queue_ok_def)
  moreover have "wake_ok full_channel" "baton_ok full_channel"
    using st by (auto simp: wake_ok_def baton_ok_def less_2_cases_iff)
  moreover have "scope_ok full_channel" by (auto simp: scope_ok_def full_channel_def sched_with_def fresh_tcb_def)
  moreover have "quiet 0 full_channel" using st regs by (simp add: quiet_def)
  moreover have "\<not> st_shutdown full_channel" by (simp add: full_channel_def sched_with_def)
  ultimately show ?thesis by (simp add: runs_def sched_ok_def)
qed

theorem select_strands_sender_witness:
  "runs 0 full_channel \<and> fst (select 0 [(7, 0)] None full_channel) = Completes (Inl (7, Some (VBool True))) \<and>
   tc_state (task_at (snd (select 0 [(7, 0)] None full_channel)) 1) = TsBlocked"
proof -
  have "at_no_join 0 full_channel" "\<not> tc_killed (task_at full_channel 0)" "\<not> tc_cancelled (task_at full_channel 0)"
    "0 < length (st_chans full_channel)" "ch_buf (chan_at full_channel 0) = (VBool True, [1, 1]) # []"
    "ch_senders (chan_at full_channel 0) = (1, VBool False) # []"
    "ch_cap (chan_at full_channel 0) = length (ch_buf (chan_at full_channel 0))"
    by (simp_all add: full_channel_def sched_with_def at_no_join_def fresh_tcb_def)
  from select_strands_sender [OF full_channel_runs this, of 7] full_channel_runs show ?thesis by blast
qed

section \<open>Clocks\<close>

lemma own_tick_simps [simp]:
  "own_tick i [] = 0" "own_tick 0 (x # xs) = x" "own_tick (Suc i) (x # xs) = own_tick i xs"
  by (simp_all add: own_tick_def get_at_def)

lemma own_tick_merge: "own_tick i (merge_vc xs ys) = max (own_tick i xs) (own_tick i ys)"
proof (induction xs ys arbitrary: i rule: merge_vc.induct)
  case (3 x xs y ys)
  then show ?case by (cases i) simp_all
qed simp_all

lemma own_tick_tick:
  "i < n \<Longrightarrow> own_tick i (tick_vc n t vc) = own_tick i vc + (if i = t then 1 else 0)"
proof -
  assume i: "i < n"
  have "length (resize0 n vc) = n" by (simp add: resize0_def)
  moreover have "resize0 n vc ! i = own_tick i vc" using i by (auto simp: resize0_def own_tick_def get_at_def nth_append)
  moreover have "length (tick_vc n t vc) = n" by (simp add: tick_vc_def resize0_def)
  then have "own_tick i (tick_vc n t vc) = tick_vc n t vc ! i" using i by (simp add: own_tick_def)
  ultimately show ?thesis using i by (cases "i = t") (simp_all add: tick_vc_def nth_modify_at)
qed

lemma tick_clock:
  "u < length (st_tasks s) \<Longrightarrow> tc_vc (task_at (tick t s) u) =
     (if u = t then tick_vc (length (st_tasks s)) t (tc_vc (task_at s t)) else tc_vc (task_at s u))"
  by (simp add: tick_def upd_task_def nth_modify_at)

lemma hb_edge_clock:
  "u < length (st_tasks s) \<Longrightarrow> tc_vc (task_at (hb_edge vc t s) u) =
     (if u = t then tick_vc (length (st_tasks s)) t (merge_vc (tc_vc (task_at s t)) vc) else tc_vc (task_at s u))"
  by (simp add: hb_edge_def tick_def upd_task_def nth_modify_at)

section \<open>Mutexes are granted in order\<close>

lemma mutex_upd [simp]:
  "m < length (st_mutexes s) \<Longrightarrow> mutex_at (upd_mutex m f s) m = f (mutex_at s m)"
  "st_tasks (upd_mutex m f s) = st_tasks s" "st_mutexes (make_ready t w s) = st_mutexes s"
  "st_mutexes (upd_task t g s) = st_mutexes s"
  by (simp_all add: upd_mutex_def make_ready_def upd_task_def Let_def)

lemma release_to:
  assumes m: "m < length (st_mutexes s)" and w: "mx_waiters (mutex_at s m) = t # ws"
  shows "\<exists>s3. release_mutex me m v s = make_ready t (WkOk v) s3 \<and>
    mutex_at s3 m = (mutex_at s m)\<lparr>mx_value := v, mx_holder := Some t, mx_waiters := ws,
      mx_vc := merge_vc (mx_vc (mutex_at s m)) (tc_vc (task_at s me)), mx_acquisitions := mx_acquisitions (mutex_at s m) + 1\<rparr> \<and>
    st_tasks s3 = st_tasks (hb_edge (merge_vc (mx_vc (mutex_at s m)) (tc_vc (task_at s me))) t (tick me s)) \<and>
    length (st_mutexes s3) = length (st_mutexes s) \<and> st_procs s3 = st_procs s"
proof -
  define s1 where "s1 = upd_mutex m (\<lambda>e. e\<lparr>mx_value := v, mx_holder := None\<rparr>) (sched_op me (OkMutex m) True s)"
  define s2 where "s2 = tick me (upd_mutex m (\<lambda>e. e\<lparr>mx_vc := merge_vc (mx_vc e) (tc_vc (task_at s1 me))\<rparr>) s1)"
  define s3 where "s3 = grant m t (upd_mutex m (\<lambda>e. e\<lparr>mx_waiters := tl (mx_waiters e)\<rparr>) s2)"
  have m1: "mutex_at s1 m = (mutex_at s m)\<lparr>mx_value := v, mx_holder := None\<rparr>" "st_tasks s1 = st_tasks s"
    "length (st_mutexes s1) = length (st_mutexes s)"
    using m by (simp_all add: s1_def)
  have m2: "mutex_at s2 m = (mutex_at s m)\<lparr>mx_value := v, mx_holder := None, mx_vc := merge_vc (mx_vc (mutex_at s m)) (tc_vc (task_at s me))\<rparr>"
    "st_tasks s2 = st_tasks (tick me s)" "length (st_mutexes s2) = length (st_mutexes s)"
    using m m1 by (simp_all add: s2_def) (simp add: tick_def upd_task_def m1)
  have "release_mutex me m v s = (case mx_waiters (mutex_at s2 m) of [] \<Rightarrow> s2
      | t # _ \<Rightarrow> let s3 = grant m t (upd_mutex m (\<lambda>e. e\<lparr>mx_waiters := tl (mx_waiters e)\<rparr>) s2)
               in make_ready t (WkOk (mx_value (mutex_at s3 m))) s3)"
    unfolding release_mutex_def Let_def s1_def s2_def by (rule refl)
  then have "release_mutex me m v s = make_ready t (WkOk (mx_value (mutex_at s3 m))) s3"
    using w m2(1) by (simp add: s3_def Let_def)
  moreover have "mutex_at s3 m = (mutex_at s m)\<lparr>mx_value := v, mx_holder := Some t, mx_waiters := ws,
      mx_vc := merge_vc (mx_vc (mutex_at s m)) (tc_vc (task_at s me)), mx_acquisitions := mx_acquisitions (mutex_at s m) + 1\<rparr>"
    using m m2 w by (simp add: s3_def grant_def Let_def)
  moreover have "st_tasks s3 = st_tasks (hb_edge (merge_vc (mx_vc (mutex_at s m)) (tc_vc (task_at s me))) t (tick me s))"
    using m m2 by (simp add: s3_def grant_def Let_def) (simp add: hb_edge_def tick_def upd_task_def m2)
  moreover have "length (st_mutexes s3) = length (st_mutexes s)" by (simp add: s3_def grant_def Let_def m2)
  moreover have "st_procs s3 = st_procs s"
    by (simp add: s3_def s2_def s1_def grant_def hb_edge_def tick_def upd_task_def upd_mutex_def sched_op_def Let_def)
  ultimately show ?thesis by auto
qed

text \<open>Releasing a mutex on which tasks wait hands it to the one at the front of the queue, with the
  released value as its wake, and orders the two: every component of the releasing task's clock is at most
  that of the grantee's clock afterwards, and the grantee's own component has moved on.\<close>
theorem release_grants_in_order:
  assumes "runs me s" and m: "m < length (st_mutexes s)" and w: "mx_waiters (mutex_at s m) = t # ws"
  shows "mx_holder (mutex_at (release_mutex me m v s) m) = Some t \<and>
    mx_waiters (mutex_at (release_mutex me m v s) m) = ws \<and> mx_value (mutex_at (release_mutex me m v s) m) = v \<and>
    tc_state (task_at (release_mutex me m v s) t) = TsReady \<and> tc_wake (task_at (release_mutex me m v s) t) = Some (WkOk v) \<and>
    (\<forall>i < length (st_tasks s). own_tick i (tc_vc (task_at s me)) \<le> own_tick i (tc_vc (task_at (release_mutex me m v s) t))) \<and>
    own_tick t (tc_vc (task_at s t)) < own_tick t (tc_vc (task_at (release_mutex me m v s) t))"
proof -
  let ?vc = "merge_vc (mx_vc (mutex_at s m)) (tc_vc (task_at s me))"
  obtain s3 where e: "release_mutex me m v s = make_ready t (WkOk v) s3"
    and mx: "mutex_at s3 m = (mutex_at s m)\<lparr>mx_value := v, mx_holder := Some t, mx_waiters := ws, mx_vc := ?vc,
      mx_acquisitions := mx_acquisitions (mutex_at s m) + 1\<rparr>"
    and ts: "st_tasks s3 = st_tasks (hb_edge ?vc t (tick me s))"
    using release_to [OF m w] by blast
  have "0 < count_list (mx_waiters (mutex_at s m)) t" using w by simp
  then have "0 < (\<Sum>e \<leftarrow> st_mutexes s. count_list (mx_waiters e) t)"
    using m member_le_sum_list [of "count_list (mx_waiters (mutex_at s m)) t" "map (\<lambda>e. count_list (mx_waiters e) t) (st_mutexes s)"]
    by simp
  then have reg: "registered t s" by (simp add: registered_def excl_count_def)
  note b = blocked_unless_running [OF assms(1) reg]
  have "t \<noteq> me" using assms(1) reg by (auto simp: runs_def quiet_def)
  have l: "length (st_tasks s3) = length (st_tasks s)" by (simp add: ts)
  have st: "tc_state (task_at s3 t) = TsBlocked"
    unfolding ts using b \<open>t \<noteq> me\<close> by (simp add: hb_edge_def tick_def upd_task_def nth_modify_at)
  have vc: "tc_vc (task_at s3 t) = tick_vc (length (st_tasks s)) t (merge_vc (tc_vc (task_at s t)) ?vc)"
    unfolding ts using b \<open>t \<noteq> me\<close> by (simp add: hb_edge_clock tick_clock)
  have mr: "task_at (make_ready t (WkOk v) s3) t = (task_at s3 t)\<lparr>tc_wake := Some (WkOk v), tc_state := TsReady\<rparr>"
    using b l st by (simp add: make_ready_tasks)
  show ?thesis
    unfolding e mr using b by (simp add: mx vc own_tick_tick own_tick_merge le_max_iff_disj le_SucI less_Suc_eq_le)
qed

text \<open>Main holds a mutex on which a task waits.\<close>

definition held_mutex :: "unit sched" where
  "held_mutex = (sched_with (Seeded 0 1))\<lparr>
     st_tasks := [(fresh_tcb 0 None [3, 0])\<lparr>tc_state := TsRunning\<rparr>, (fresh_tcb 1 None [1, 2])\<lparr>tc_state := TsBlocked\<rparr>],
     st_procs := [\<lparr>pr_root = 0, pr_region = None, pr_monitors = [], pr_links = [], pr_exited = None\<rparr>,
       \<lparr>pr_root = 1, pr_region = Some 5, pr_monitors = [], pr_links = [], pr_exited = None\<rparr>],
     st_mutexes := [\<lparr>mx_value = VUnit, mx_holder = Some 0, mx_waiters = [1], mx_vc = [], mx_acquisitions = 1\<rparr>]\<rparr>"

lemma held_mutex_runs: "runs 0 held_mutex"
proof -
  have regs: "excl_count t held_mutex = (if t = 1 then 1 else 0)" "\<not> selecting t held_mutex"
    "registered t held_mutex \<longleftrightarrow> t = 1" for t
    by (simp_all add: held_mutex_def sched_with_def excl_count_def selecting_def registered_def)
  have st: "length (st_tasks held_mutex) = 2" "state_of_task held_mutex 0 = TsRunning" "wake_of held_mutex 0 = None"
    "state_of_task held_mutex 1 = TsBlocked" "wake_of held_mutex 1 = None" "st_ready held_mutex = []"
    by (simp_all add: held_mutex_def sched_with_def state_of_task_def wake_of_def fresh_tcb_def)
  have "reg_ok held_mutex" using st by (simp add: reg_ok_def regs)
  moreover have "state_of_task held_mutex t \<noteq> TsReady" if "t < 2" for t
    using that st by (auto simp: less_2_cases_iff)
  then have "queue_ok held_mutex" using st by (auto simp: queue_ok_def)
  moreover have "wake_ok held_mutex" "baton_ok held_mutex"
    using st by (auto simp: wake_ok_def baton_ok_def less_2_cases_iff)
  moreover have "scope_ok held_mutex" by (auto simp: scope_ok_def held_mutex_def sched_with_def fresh_tcb_def)
  moreover have "quiet 0 held_mutex" using st regs by (simp add: quiet_def)
  moreover have "\<not> st_shutdown held_mutex" by (simp add: held_mutex_def sched_with_def)
  ultimately show ?thesis by (simp add: runs_def sched_ok_def)
qed

lemma held_mutex_waits: "0 < length (st_mutexes held_mutex)" "mx_waiters (mutex_at held_mutex 0) = 1 # []"
  by (simp_all add: held_mutex_def)

theorem release_grants_in_order_witness:
  "runs 0 held_mutex \<and> mx_holder (mutex_at (release_mutex 0 0 (VBool True) held_mutex) 0) = Some 1 \<and>
   3 \<le> own_tick 0 (tc_vc (task_at (release_mutex 0 0 (VBool True) held_mutex) 1))"
proof -
  have "length (st_tasks held_mutex) = 2" "own_tick 0 (tc_vc (task_at held_mutex 0)) = 3"
    by (simp_all add: held_mutex_def fresh_tcb_def)
  with release_grants_in_order [OF held_mutex_runs held_mutex_waits, of "VBool True"] held_mutex_runs
  show ?thesis by (metis zero_less_numeral)
qed

section \<open>A killed grantee keeps the mutex\<close>

definition holders :: "'c sched \<Rightarrow> task_id option list" where
  "holders s = map mx_holder (st_mutexes s)"

text \<open>A queued task whose wake is the kill, and the operations that leave it and the holders so.\<close>

definition doomed :: "task_id \<Rightarrow> task_id option list \<Rightarrow> 'c sched \<Rightarrow> bool" where
  "doomed t hs s \<longleftrightarrow> tc_state (task_at s t) = TsReady \<and> tc_wake (task_at s t) = Some WkKilled \<and> holders s = hs \<and>
     t < length (st_tasks s)"

lemma holders_frame [simp]:
  "holders (upd_task t f s) = holders s" "holders (sched_op t obj w s) = holders s" "holders (make_ready t wk s) = holders s"
  "holders (deregister t s) = holders s" "holders (upd_proc p g s) = holders s" "holders (upd_scope i h s) = holders s"
  "holders (s\<lparr>st_pending := q\<rparr>) = holders s"
  by (simp_all add: holders_def upd_task_def sched_op_def make_ready_def deregister_def upd_proc_def upd_scope_def Let_def)

lemma kill_member_holders: "holders (kill_member a x s) = holders s"
  by (simp add: kill_member_def Let_def split: task_state.split)

lemma kill_member_tasks: "length (st_tasks (kill_member a x s)) = length (st_tasks s)"
  by (simp add: kill_member_def Let_def make_ready_tasks split: task_state.split)

lemma kill_member_other:
  "u \<noteq> x \<Longrightarrow> task_at (kill_member a x s) u = task_at s u"
  by (simp add: kill_member_def Let_def make_ready_tasks upd_task_def split: task_state.split)

lemma kill_member_ready:
  "x < length (st_tasks s) \<Longrightarrow> tc_state (task_at s x) = TsReady \<Longrightarrow>
     tc_state (task_at (kill_member a x s) x) = TsReady \<and> tc_wake (task_at (kill_member a x s) x) = Some WkKilled"
  by (simp add: kill_member_def Let_def upd_task_def)

lemma doomed_member: "doomed t hs s \<Longrightarrow> doomed t hs (kill_member a x s)"
  using kill_member_ready [of t s a] kill_member_other [of t x a s]
  by (cases "x = t") (simp_all add: doomed_def kill_member_holders kill_member_tasks)

lemma doomed_frame:
  "doomed t hs s \<Longrightarrow> doomed t hs (sched_op a obj w s)" "doomed t hs s \<Longrightarrow> doomed t hs (upd_proc p f s)"
  "doomed t hs s \<Longrightarrow> doomed t hs (s\<lparr>st_pending := q\<rparr>)"
  by (simp_all add: doomed_def) (simp_all add: sched_op_def upd_proc_def)

lemma doomed_fold: "(\<And>x r. doomed t hs r \<Longrightarrow> doomed t hs (f x r)) \<Longrightarrow> doomed t hs s \<Longrightarrow> doomed t hs (fold f xs s)"
  by (induction xs arbitrary: s) simp_all

lemma doomed_members: "doomed t hs s \<Longrightarrow> doomed t hs (kill_members p s)"
  unfolding kill_members_def Let_def by (rule doomed_fold [OF doomed_member doomed_frame(1)])

lemma doomed_collect:
  "(\<And>x r. doomed t hs r \<Longrightarrow> doomed t hs (snd (f x r))) \<Longrightarrow> doomed t hs s \<Longrightarrow> doomed t hs (snd (collect_regions f xs s))"
proof (induction xs arbitrary: s)
  case (Cons x xs)
  from Cons.IH [OF Cons.prems(1), of "snd (f x s)"] Cons.prems show ?case by (simp add: Let_def case_prod_beta)
qed simp

lemma doomed_exit:
  assumes "\<And>q r. doomed t hs r \<Longrightarrow> doomed t hs (snd (k q r))" and "doomed t hs s"
  shows "doomed t hs (snd (deliver_exit_by k p reason s))"
proof -
  have "doomed t hs (record_exit p reason s)"
    unfolding record_exit_def Let_def by (intro doomed_frame assms(2))
  with doomed_collect [OF assms(1)] assms(2) show ?thesis by (auto simp: deliver_exit_by_def Let_def case_prod_beta)
qed

lemma doomed_walk: "doomed t hs s \<Longrightarrow> doomed t hs (snd (kill_walk n p s))"
proof (induction n arbitrary: p s)
  case (Suc n)
  from doomed_exit [OF Suc.IH doomed_members [OF Suc.prems]] Suc.prems show ?case by simp
qed simp

lemma members_doom:
  assumes t: "t < length (st_tasks s)" "tc_state (task_at s t) = TsReady" and l: "t \<in> set xs"
  shows "doomed t (holders s) (fold (kill_member a) xs s)"
  using assms
proof (induction xs arbitrary: s)
  case (Cons x xs)
  show ?case
  proof (cases "x = t")
    case True
    have "doomed t (holders s) (kill_member a t s)"
      using kill_member_ready [OF Cons.prems(1,2)] Cons.prems(1)
      by (simp add: doomed_def kill_member_holders kill_member_tasks)
    from doomed_fold [OF doomed_member this] True show ?thesis by simp
  next
    case False
    with Cons.IH [of "kill_member a x s"] Cons.prems kill_member_other [of t x a s] show ?thesis
      by (simp add: kill_member_holders kill_member_tasks)
  qed
qed simp



end
