(* ===== verification/SchedWalk.thy ===== *)
theory SchedWalk
  imports SchedSync
begin

text \<open>
  The reach of a kill along links, and the history of atomic accesses: a kill takes exactly the linked
  procs with it and its recursion never runs out of fuel, and the compacted history of the race detector
  finds a race whenever the full one does.
\<close>

section \<open>What a kill leaves alone\<close>

definition exited :: "'c sched \<Rightarrow> proc_id set" where
  "exited s = {p. p < length (st_procs s) \<and> pr_exited (proc_at s p) \<noteq> None}"

text \<open>Links, regions and procs stay, exits and kills only grow, tasks keep their proc and do not end.\<close>

definition kills :: "'c sched \<Rightarrow> 'c sched \<Rightarrow> bool" where
  "kills s s' \<longleftrightarrow> map pr_links (st_procs s') = map pr_links (st_procs s) \<and>
     map pr_region (st_procs s') = map pr_region (st_procs s) \<and> exited s \<subseteq> exited s' \<and>
     map tc_proc (st_tasks s') = map tc_proc (st_tasks s) \<and>
     (\<forall>t < length (st_tasks s). (tc_state (task_at s' t) = TsDone \<longleftrightarrow> tc_state (task_at s t) = TsDone) \<and>
        (tc_killed (task_at s t) \<longrightarrow> tc_killed (task_at s' t)))"

lemma unexited: "p < length (st_procs s) \<Longrightarrow> pr_exited (proc_at s p) = None \<longleftrightarrow> p \<notin> exited s"
  by (simp add: exited_def)

lemma kills_refl [simp]: "kills s s"
  by (simp add: kills_def)

lemma kills_lengths: "kills s s' \<Longrightarrow> length (st_procs s') = length (st_procs s) \<and> length (st_tasks s') = length (st_tasks s)"
  unfolding kills_def by (metis length_map)

lemma kills_trans: "kills s s' \<Longrightarrow> kills s' s'' \<Longrightarrow> kills s s''"
  using kills_lengths [of s s'] by (auto simp: kills_def)

lemma kills_links: "kills s s' \<Longrightarrow> p < length (st_procs s) \<Longrightarrow> pr_links (proc_at s' p) = pr_links (proc_at s p)"
  using kills_lengths [of s s'] unfolding kills_def by (metis nth_map)

lemma kills_proc: "kills s s' \<Longrightarrow> t < length (st_tasks s) \<Longrightarrow> tc_proc (task_at s' t) = tc_proc (task_at s t)"
  using kills_lengths [of s s'] unfolding kills_def by (metis nth_map)

lemma exited_frame [simp]:
  "exited (upd_task t f s) = exited s" "exited (sched_op a obj w s) = exited s" "exited (make_ready t wk s) = exited s"
  "exited (deregister t s) = exited s" "exited (s\<lparr>st_pending := q\<rparr>) = exited s"
  by (simp_all add: exited_def upd_task_def sched_op_def make_ready_def deregister_def Let_def)

lemma kills_op: "kills s (sched_op a obj w s)"
  by (simp add: kills_def) (simp add: sched_op_def)

lemma kill_member_procs: "st_procs (kill_member a x s) = st_procs s"
  by (simp add: kill_member_def Let_def upd_task_def sched_op_def make_ready_def deregister_def split: task_state.split)

lemma kill_member_at:
  "t < length (st_tasks s) \<Longrightarrow> tc_proc (task_at (kill_member a x s) t) = tc_proc (task_at s t) \<and>
     (tc_state (task_at (kill_member a x s) t) = TsDone \<longleftrightarrow> tc_state (task_at s t) = TsDone) \<and>
     (tc_killed (task_at (kill_member a x s) t) \<longleftrightarrow> tc_killed (task_at s t) \<or> t = x)"
proof (cases "t = x")
  case True
  moreover assume "t < length (st_tasks s)"
  ultimately show ?thesis
    by (cases "tc_state (task_at s x)") (simp_all add: kill_member_def Let_def make_ready_tasks upd_task_def)
qed (simp add: kill_member_other)

lemma kills_member: "kills s (kill_member a x s)"
proof -
  have "map tc_proc (st_tasks (kill_member a x s)) = map tc_proc (st_tasks s)"
    by (rule nth_equalityI) (simp_all add: kill_member_tasks kill_member_at)
  then show ?thesis
    by (simp add: kills_def kill_member_procs kill_member_at exited_def)
qed

lemma kills_fold: "(\<And>x r. kills r (f x r)) \<Longrightarrow> kills s (fold f xs s)"
proof (induction xs arbitrary: s)
  case (Cons x xs)
  from Cons.IH [OF Cons.prems, of "f x s"] Cons.prems [of s x] show ?case by (auto intro: kills_trans)
qed simp

lemma kills_members: "kills s (kill_members p s)" and exited_members: "exited (kill_members p s) = exited s"
proof -
  show "kills s (kill_members p s)" unfolding kill_members_def Let_def
    by (rule kills_trans [OF kills_op kills_fold [OF kills_member]])
  have "st_procs (fold (kill_member a) xs r) = st_procs r" for a xs and r :: "'a sched"
    by (induction xs arbitrary: r) (simp_all add: kill_member_procs)
  then show "exited (kill_members p s) = exited s"
    by (simp add: kill_members_def Let_def exited_def sched_op_def)
qed

lemma fold_kills_all: "t \<in> set xs \<Longrightarrow> t < length (st_tasks s) \<Longrightarrow> tc_killed (task_at (fold (kill_member a) xs s) t)"
proof (induction xs arbitrary: s)
  case (Cons x xs)
  show ?case
  proof (cases "t \<in> set xs")
    case True
    with Cons show ?thesis by (simp add: kill_member_tasks)
  next
    case False
    with Cons.prems have "tc_killed (task_at (kill_member a x s) t)" by (simp add: kill_member_at)
    moreover have "kills (kill_member a x s) (fold (kill_member a) xs (kill_member a x s))"
      by (rule kills_fold [OF kills_member])
    ultimately show ?thesis using Cons.prems by (simp add: kills_def kill_member_tasks)
  qed
qed simp

lemma members_killed:
  "t < length (st_tasks s) \<Longrightarrow> tc_proc (task_at s t) = p \<Longrightarrow> tc_state (task_at s t) \<noteq> TsDone \<Longrightarrow>
     tc_killed (task_at (kill_members p s) t)"
  unfolding kill_members_def Let_def
  by (rule fold_kills_all) (simp_all add: live_members_def indices_where_def)

section \<open>The walk along links\<close>

text \<open>What a walk does from one state to another: what it ends has its links ended or among those it
  owes, its tasks killed and its region reported.\<close>

definition walked :: "proc_id set \<Rightarrow> region_id list \<Rightarrow> 'c sched \<Rightarrow> 'c sched \<Rightarrow> bool" where
  "walked D rs s s' \<longleftrightarrow> kills s s' \<and>
     (\<forall>q \<in> exited s' - exited s.
        set (pr_links (proc_at s q)) \<subseteq> exited s' \<union> D \<and>
        (\<forall>t < length (st_tasks s). tc_proc (task_at s t) = q \<longrightarrow> tc_state (task_at s t) \<noteq> TsDone \<longrightarrow>
           tc_killed (task_at s' t))) \<and>
     set rs = {r. \<exists>q \<in> exited s' - exited s. pr_region (proc_at s q) = Some r}"

lemma walked_refl: "walked {} [] s s"
  by (simp add: walked_def)

lemma walked_trans:
  assumes a: "walked D rs s s'" and b: "walked D' rs' s' s''"
  shows "walked (D \<union> D') (rs @ rs') s s''"
proof -
  have k: "kills s s'" "kills s' s''" using a b by (simp_all add: walked_def)
  note l = kills_lengths [OF k(1)]
  have m: "exited s \<subseteq> exited s'" "exited s' \<subseteq> exited s''" using k by (simp_all add: kills_def)
  have split: "exited s'' - exited s = (exited s' - exited s) \<union> (exited s'' - exited s')" using m by blast
  have lt: "q < length (st_procs s)" if "q \<in> exited s''" for q
    using that kills_lengths [OF k(2)] l by (simp add: exited_def)
  have reg: "pr_region (proc_at s' q) = pr_region (proc_at s q)" if "q < length (st_procs s)" for q
    using that k(1) l unfolding kills_def by (metis nth_map)
  have "set (pr_links (proc_at s q)) \<subseteq> exited s'' \<union> (D \<union> D') \<and>
      (\<forall>t < length (st_tasks s). tc_proc (task_at s t) = q \<longrightarrow> tc_state (task_at s t) \<noteq> TsDone \<longrightarrow> tc_killed (task_at s'' t))"
    if q: "q \<in> exited s'' - exited s" for q
  proof (cases "q \<in> exited s'")
    case True
    with a q have "set (pr_links (proc_at s q)) \<subseteq> exited s' \<union> D"
      and "\<forall>t < length (st_tasks s). tc_proc (task_at s t) = q \<longrightarrow> tc_state (task_at s t) \<noteq> TsDone \<longrightarrow> tc_killed (task_at s' t)"
      by (auto simp: walked_def)
    with m k(2) l show ?thesis unfolding kills_def by auto
  next
    case False
    with b q have "set (pr_links (proc_at s' q)) \<subseteq> exited s'' \<union> D'"
      and "\<forall>t < length (st_tasks s'). tc_proc (task_at s' t) = q \<longrightarrow> tc_state (task_at s' t) \<noteq> TsDone \<longrightarrow> tc_killed (task_at s'' t)"
      by (auto simp: walked_def)
    with k(1) l lt [of q] q show ?thesis
      using kills_links [OF k(1), of q] kills_proc [OF k(1)] by (auto simp: kills_def)
  qed
  moreover have "set (rs @ rs') = {r. \<exists>q \<in> exited s'' - exited s. pr_region (proc_at s q) = Some r}"
  proof -
    have "set rs = {r. \<exists>q \<in> exited s' - exited s. pr_region (proc_at s q) = Some r}" using a by (simp add: walked_def)
    moreover have "set rs' = {r. \<exists>q \<in> exited s'' - exited s'. pr_region (proc_at s q) = Some r}"
      using b reg lt by (fastforce simp: walked_def)
    ultimately show ?thesis unfolding split by auto
  qed
  ultimately show ?thesis using kills_trans [OF k] by (auto simp: walked_def)
qed

text \<open>Each step of the walk: the members, the record of the exit, the linked procs in turn.\<close>

definition links_ok :: "'c sched \<Rightarrow> bool" where
  "links_ok s \<longleftrightarrow> (\<forall>p < length (st_procs s). set (pr_links (proc_at s p)) \<subseteq> {..<length (st_procs s)})"

definition unended :: "'c sched \<Rightarrow> proc_id set" where
  "unended s = {..<length (st_procs s)} - exited s"

lemma kills_links_ok: "kills s s' \<Longrightarrow> links_ok s' \<longleftrightarrow> links_ok s"
  using kills_lengths [of s s'] kills_links [of s s'] by (simp add: links_ok_def)

lemma kills_unended: "kills s s' \<Longrightarrow> unended s' \<subseteq> unended s"
  using kills_lengths [of s s'] by (auto simp: unended_def kills_def)

lemma record_exit_tasks [simp]: "st_tasks (record_exit p reason s) = st_tasks s"
  by (simp add: record_exit_def Let_def upd_proc_def sched_op_def)

lemma record_exit_procs [simp]:
  "st_procs (record_exit p reason s) = modify_at p (\<lambda>e. e\<lparr>pr_exited := Some reason\<rparr>) (st_procs s)"
  by (simp add: record_exit_def Let_def upd_proc_def sched_op_def)

lemma exited_record: "p < length (st_procs s) \<Longrightarrow> exited (record_exit p reason s) = insert p (exited s)"
  by (auto simp: exited_def nth_modify_at)

lemma map_modify_at: "(\<And>e. g (f e) = g e) \<Longrightarrow> map g (modify_at i f xs) = map g xs"
  by (rule nth_equalityI) (simp_all add: nth_modify_at)

lemma kills_record: "kills s (record_exit p reason s)"
proof (cases "p < length (st_procs s)")
  case True
  then show ?thesis
    by (auto simp: kills_def exited_record map_modify_at)
qed (simp add: kills_def exited_def modify_at_def)

lemma walked_collect:
  assumes "\<And>x r. x \<in> set xs \<Longrightarrow> kills s r \<Longrightarrow> walked {} (fst (f x r)) r (snd (f x r)) \<and> x \<in> exited (snd (f x r))"
    and "kills s s1"
  shows "walked {} (fst (collect_regions f xs s1)) s1 (snd (collect_regions f xs s1)) \<and>
    set xs \<subseteq> exited (snd (collect_regions f xs s1))"
  using assms
proof (induction xs arbitrary: s1)
  case (Cons x xs)
  let ?s2 = "snd (f x s1)"
  have a: "walked {} (fst (f x s1)) s1 ?s2" "x \<in> exited ?s2" using Cons.prems by simp_all
  have "kills s ?s2" using a(1) Cons.prems(2) by (auto simp: walked_def intro: kills_trans)
  with Cons have b: "walked {} (fst (collect_regions f xs ?s2)) ?s2 (snd (collect_regions f xs ?s2))"
    "set xs \<subseteq> exited (snd (collect_regions f xs ?s2))" by simp_all
  from b(1) a(2) have "x \<in> exited (snd (collect_regions f xs ?s2))" by (auto simp: walked_def kills_def)
  with walked_trans [OF a(1) b(1)] b(2) show ?case by (simp add: Let_def case_prod_beta)
qed (simp add: walked_refl)

lemma walk_walked:
  fixes s :: "'c sched"
  assumes "p < length (st_procs s)" and "links_ok s" and "card (unended s) < n"
  shows "walked {} (fst (kill_walk n p s)) s (snd (kill_walk n p s)) \<and> p \<in> exited (snd (kill_walk n p s))"
  using assms
proof (induction n arbitrary: p s)
  case (Suc n)
  note p = Suc.prems(1)
  show ?case
  proof (cases "p \<in> exited s")
    case True
    then show ?thesis by (simp add: exited_def walked_refl)
  next
    case False
    let ?s0 = "kill_members p s"
    let ?s1 = "record_exit p ExKilled ?s0"
    let ?own = "case pr_region (proc_at s p) of None \<Rightarrow> [] | Some r \<Rightarrow> [r]"
    let ?c = "collect_regions (kill_walk n) (pr_links (proc_at s p)) ?s1"
    have k0: "kills s ?s0" and k1: "kills s ?s1"
      using kills_members kills_record by (blast intro: kills_trans)+
    note l0 = kills_lengths [OF k0] and l1 = kills_lengths [OF k1]
    have e1: "exited ?s1 = insert p (exited s)" using p l0 by (simp only: exited_record exited_members)
    have reg: "pr_region (proc_at ?s1 p) = pr_region (proc_at s p)"
      using k1 l1 p unfolding kills_def by (metis nth_map)
    have own: "walked (set (pr_links (proc_at s p))) ?own s ?s1"
      using k1 False members_killed [of _ s p] by (auto simp: walked_def e1 split: option.split)
    have "unended ?s1 \<subset> unended s" using e1 l1 False p by (auto simp: unended_def)
    moreover have "finite (unended s)" by (simp add: unended_def)
    ultimately have c1: "card (unended ?s1) < n" using Suc.prems(3) psubset_card_mono [of "unended s" "unended ?s1"] by simp
    have "walked {} (fst (kill_walk n q r)) r (snd (kill_walk n q r)) \<and> q \<in> exited (snd (kill_walk n q r))"
      if q: "q \<in> set (pr_links (proc_at s p))" and r: "kills ?s1 r" for q r
    proof (rule Suc.IH)
      show "q < length (st_procs r)" using q p Suc.prems(2) kills_lengths [OF r] l1 by (auto simp: links_ok_def)
      show "links_ok r" using Suc.prems(2) kills_links_ok [OF k1] kills_links_ok [OF r] by simp
      have "card (unended r) \<le> card (unended ?s1)" by (rule card_mono [OF _ kills_unended [OF r]]) (simp add: unended_def)
      with c1 show "card (unended r) < n" by simp
    qed
    from walked_collect [OF this kills_refl]
    have c: "walked {} (fst ?c) ?s1 (snd ?c)" "set (pr_links (proc_at s p)) \<subseteq> exited (snd ?c)" by simp_all
    have w: "kill_walk (Suc n) p s = (?own @ fst ?c, snd ?c)"
    proof -
      have "pr_exited (proc_at s p) = None" "pr_exited (proc_at ?s0 p) = None"
        using False p l0 exited_members [of p s] unexited [of p s] unexited [of p ?s0] by simp_all
      then show ?thesis
        using kills_links [OF k1 p] reg by (simp add: deliver_exit_by_def Let_def case_prod_beta is_normal_def)
    qed
    have "p \<in> exited (snd ?c)" using c(1) e1 by (auto simp: walked_def kills_def)
    with walked_trans [OF own c(1)] c(2) show ?thesis unfolding w by (auto simp: walked_def)
  qed
qed simp

section \<open>The reach of a kill\<close>

text \<open>No walk leaves a set of procs that is closed under the links of those not yet ended.\<close>

definition closed_in :: "'c sched \<Rightarrow> proc_id set \<Rightarrow> bool" where
  "closed_in s R \<longleftrightarrow> (\<forall>q \<in> R. q < length (st_procs s) \<and> (q \<notin> exited s \<longrightarrow> set (pr_links (proc_at s q)) \<subseteq> R))"

lemma closed_kills: "kills s s' \<Longrightarrow> closed_in s R \<Longrightarrow> closed_in s' R"
  using kills_lengths [of s s'] kills_links [of s s'] by (auto simp: closed_in_def kills_def)

lemma kills_collect:
  "(\<And>x r. kills r (snd (f x r))) \<Longrightarrow> kills s (snd (collect_regions f xs s))"
proof (induction xs arbitrary: s)
  case (Cons x xs)
  from Cons.IH [OF Cons.prems, of "snd (f x s)"] Cons.prems [of s x] show ?case
    by (auto simp: Let_def case_prod_beta intro: kills_trans)
qed simp

lemma kills_exit: "(\<And>q r. kills r (snd (k q r))) \<Longrightarrow> kills s (snd (deliver_exit_by k p reason s))"
  using kills_collect [of k "record_exit p reason s"] kills_record [of s p reason]
  by (auto simp: deliver_exit_by_def Let_def case_prod_beta intro: kills_trans)

lemma kills_walk: "kills s (snd (kill_walk n p s))"
proof (induction n arbitrary: p s)
  case (Suc n)
  from kills_trans [OF kills_members kills_exit [OF Suc.IH]] show ?case by simp
qed simp

lemma collect_within:
  assumes "\<And>x r. x \<in> set xs \<Longrightarrow> closed_in r R \<Longrightarrow> kills r (snd (f x r)) \<and> exited (snd (f x r)) \<subseteq> exited r \<union> R"
    and "closed_in s R"
  shows "exited (snd (collect_regions f xs s)) \<subseteq> exited s \<union> R"
  using assms
proof (induction xs arbitrary: s)
  case (Cons x xs)
  let ?s2 = "snd (f x s)"
  have a: "kills s ?s2" "exited ?s2 \<subseteq> exited s \<union> R" using Cons.prems by simp_all
  have "exited (snd (collect_regions f xs ?s2)) \<subseteq> exited ?s2 \<union> R"
    using Cons.IH [of ?s2] Cons.prems closed_kills [OF a(1)] by simp
  with a(2) show ?case by (auto simp: Let_def case_prod_beta)
qed simp

lemma walk_within:
  fixes s :: "'c sched"
  shows "closed_in s R \<Longrightarrow> p \<in> R \<Longrightarrow> exited (snd (kill_walk n p s)) \<subseteq> exited s \<union> R"
proof (induction n arbitrary: p s)
  case (Suc n)
  let ?s0 = "kill_members p s"
  let ?s1 = "record_exit p ExKilled ?s0"
  have k1: "kills s ?s1" using kills_members kills_record by (blast intro: kills_trans)
  have p: "p < length (st_procs s)" using Suc.prems by (simp add: closed_in_def)
  have e1: "exited ?s1 = insert p (exited s)"
    using p kills_lengths [OF kills_members [of s p]] by (simp only: exited_record exited_members)
  show ?case
  proof (cases "p \<in> exited s")
    case False
    then have "set (pr_links (proc_at ?s1 p)) \<subseteq> R"
      using Suc.prems kills_links [OF k1 p] by (auto simp: closed_in_def)
    then have "kills r (snd (kill_walk n x r)) \<and> exited (snd (kill_walk n x r)) \<subseteq> exited r \<union> R"
      if "x \<in> set (pr_links (proc_at ?s1 p))" "closed_in r R" for x and r :: "'c sched"
      using that Suc.IH [of r x] kills_walk by blast
    then have "exited (snd (collect_regions (kill_walk n) (pr_links (proc_at ?s1 p)) ?s1)) \<subseteq> exited ?s1 \<union> R"
      by (rule collect_within) (assumption+, rule closed_kills [OF k1 Suc.prems(1)])
    with e1 Suc.prems(2) have "exited (snd (collect_regions (kill_walk n) (pr_links (proc_at ?s1 p)) ?s1)) \<subseteq> exited s \<union> R"
      by auto
    then show ?thesis using exited_members [of p s]
      by (auto simp: deliver_exit_by_def Let_def case_prod_beta is_normal_def)
  qed (auto simp: exited_def)
qed simp

lemma collect_cong:
  assumes "\<And>x r. x \<in> set xs \<Longrightarrow> kills s r \<Longrightarrow> f x r = g x r" and k: "\<And>x r. kills r (snd (g x r))" and "kills s s1"
  shows "collect_regions f xs s1 = collect_regions g xs s1"
  using assms(1,3)
proof (induction xs arbitrary: s1)
  case (Cons x xs)
  from Cons.prems(2) k have "kills s (snd (g x s1))" by (rule kills_trans)
  with Cons show ?case by (simp add: Let_def case_prod_beta)
qed simp

text \<open>More fuel than procs still to end makes no difference.\<close>

lemma kill_walk_enough:
  fixes s :: "'c sched"
  assumes "card (unended s) < n" and "p < length (st_procs s)" and "links_ok s"
  shows "kill_walk (n + k) p s = kill_walk n p s"
  using assms
proof (induction n arbitrary: p s)
  case (Suc n)
  let ?s0 = "kill_members p s"
  let ?s1 = "record_exit p ExKilled ?s0"
  have k0: "kills s ?s0" and k1: "kills s ?s1" using kills_members kills_record by (blast intro: kills_trans)+
  note p = Suc.prems(2) and l1 = kills_lengths [OF k1]
  show ?case
  proof (cases "p \<in> exited s")
    case False
    have e1: "exited ?s1 = insert p (exited s)"
      using p kills_lengths [OF k0] by (simp only: exited_record exited_members)
    then have "unended ?s1 \<subset> unended s" using l1 False p by (auto simp: unended_def)
    then have c: "card (unended ?s1) < card (unended s)" by (rule psubset_card_mono [rotated]) (simp add: unended_def)
    have "kill_walk (n + k) x r = kill_walk n x r"
      if x: "x \<in> set (pr_links (proc_at s p))" and r: "kills ?s1 r" for x r
    proof (rule Suc.IH)
      have "card (unended r) \<le> card (unended ?s1)" by (rule card_mono [OF _ kills_unended [OF r]]) (simp add: unended_def)
      with c Suc.prems(1) show "card (unended r) < n" by simp
      show "x < length (st_procs r)" using x p Suc.prems(3) kills_lengths [OF r] l1 by (auto simp: links_ok_def)
      show "links_ok r" using Suc.prems(3) kills_links_ok [OF k1] kills_links_ok [OF r] by simp
    qed
    then have "collect_regions (kill_walk (n + k)) (pr_links (proc_at s p)) ?s1 =
        collect_regions (kill_walk n) (pr_links (proc_at s p)) ?s1"
      by (rule collect_cong [OF _ kills_walk kills_refl])
    then show ?thesis
      using kills_links [OF k1 p] by (simp add: deliver_exit_by_def Let_def is_normal_def)
  qed (auto simp: exited_def)
qed simp

definition link_graph :: "'c sched \<Rightarrow> (proc_id \<times> proc_id) set" where
  "link_graph s = {(a, b). b \<in> set (pr_links (proc_at s a)) \<and> a \<notin> exited s \<and> b \<notin> exited s}"

text \<open>The procs a kill of \<open>p\<close> can reach: along links, through procs that have not ended.\<close>

definition link_reach :: "'c sched \<Rightarrow> proc_id \<Rightarrow> proc_id set" where
  "link_reach s p = {q. (p, q) \<in> (link_graph s)\<^sup>*}"

lemma link_reach_live:
  assumes "q \<in> link_reach s p" "p \<notin> exited s" "p < length (st_procs s)" "links_ok s"
  shows "q < length (st_procs s) \<and> q \<notin> exited s"
proof -
  have "(p, q) \<in> (link_graph s)\<^sup>*" using assms(1) by (simp add: link_reach_def)
  then show ?thesis
  proof induction
    case (step a b)
    then show ?case using assms(4) by (auto simp: link_graph_def links_ok_def)
  qed (use assms(2,3) in simp)
qed

lemma link_reach_closed:
  assumes "p \<notin> exited s" "p < length (st_procs s)" "links_ok s"
  shows "closed_in s (exited s \<union> link_reach s p)"
proof -
  have "x \<in> exited s \<union> link_reach s p" if q: "q \<in> link_reach s p" and x: "x \<in> set (pr_links (proc_at s q))" for q x
  proof (cases "x \<in> exited s")
    case False
    with x link_reach_live [OF q assms] have "(q, x) \<in> link_graph s" by (simp add: link_graph_def)
    with q show ?thesis unfolding link_reach_def by (auto intro: rtrancl_into_rtrancl)
  qed simp
  then show ?thesis using link_reach_live [OF _ assms] by (auto simp: closed_in_def, auto simp: exited_def)
qed

lemma link_reach_ended:
  assumes w: "walked {} rs s s'" and p: "p \<in> exited s'" and "q \<in> link_reach s p"
  shows "q \<in> exited s'"
proof -
  have "(p, q) \<in> (link_graph s)\<^sup>*" using assms(3) by (simp add: link_reach_def)
  then show ?thesis
  proof induction
    case (step a b)
    then have "b \<in> set (pr_links (proc_at s a))" "a \<in> exited s' - exited s" by (auto simp: link_graph_def)
    with w show ?case by (auto simp: walked_def)
  qed (rule p)
qed

text \<open>C34: killing a proc ends it and exactly the procs that its links reach through procs not yet ended,
  however the links cycle: every live task of those procs is killed, the regions handed back to be freed are
  theirs and no others, and the walk stops of itself, a larger bound on its depth changing nothing.\<close>
theorem kill_takes_links:
  assumes p: "p < length (st_procs s)" "pr_exited (proc_at s p) = None" and l: "links_ok s"
  shows "exited (snd (kill_proc p s)) = exited s \<union> link_reach s p \<and>
    (\<forall>t < length (st_tasks s). tc_proc (task_at s t) \<in> link_reach s p \<longrightarrow> tc_state (task_at s t) \<noteq> TsDone \<longrightarrow>
       tc_killed (task_at (snd (kill_proc p s)) t)) \<and>
    set (fst (kill_proc p s)) = {r. \<exists>q \<in> link_reach s p. pr_region (proc_at s q) = Some r} \<and>
    kill_walk (Suc (length (st_procs s)) + k) p s = kill_proc p s"
proof -
  let ?s' = "snd (kill_proc p s)"
  have pe: "p \<notin> exited s" using p by (simp add: unexited [symmetric])
  have "card (unended s) \<le> card {..<length (st_procs s)}" by (rule card_mono) (auto simp: unended_def)
  then have c: "card (unended s) < Suc (length (st_procs s))" by simp
  from walk_walked [OF p(1) l c] have w: "walked {} (fst (kill_proc p s)) s ?s'" and e: "p \<in> exited ?s'"
    by (simp_all add: kill_proc_def)
  have "p \<in> exited s \<union> link_reach s p" by (simp add: link_reach_def)
  from walk_within [OF link_reach_closed [OF pe p(1) l] this, of "Suc (length (st_procs s))"]
  have "exited ?s' \<subseteq> exited s \<union> link_reach s p" by (simp only: kill_proc_def Un_assoc [symmetric] Un_absorb)
  moreover have "link_reach s p \<subseteq> exited ?s'" using link_reach_ended [OF w e] by blast
  ultimately have x: "exited ?s' = exited s \<union> link_reach s p" using w by (auto simp: walked_def kills_def)
  moreover have "link_reach s p \<inter> exited s = {}" using link_reach_live [OF _ pe p(1) l] by blast
  ultimately have new: "exited ?s' - exited s = link_reach s p" by blast
  from w show ?thesis
    unfolding walked_def new using x kill_walk_enough [OF c p(1) l, of k] by (simp add: kill_proc_def)
qed

text \<open>Two procs linked to each other, and a third that no link reaches.\<close>

definition linked_pair :: "unit sched" where
  "linked_pair = (sched_with (Seeded 0 1))\<lparr>
     st_tasks := [(fresh_tcb 0 None [1])\<lparr>tc_state := TsRunning\<rparr>, fresh_tcb 1 None [1], fresh_tcb 2 None [1], fresh_tcb 3 None [1]],
     st_procs := [\<lparr>pr_root = 0, pr_region = None, pr_monitors = [], pr_links = [], pr_exited = None\<rparr>,
       \<lparr>pr_root = 1, pr_region = Some 5, pr_monitors = [], pr_links = [2], pr_exited = None\<rparr>,
       \<lparr>pr_root = 2, pr_region = Some 6, pr_monitors = [], pr_links = [1], pr_exited = None\<rparr>,
       \<lparr>pr_root = 3, pr_region = Some 7, pr_monitors = [], pr_links = [1], pr_exited = None\<rparr>]\<rparr>"

theorem kill_takes_links_witness:
  "2 \<in> exited (snd (kill_proc 1 linked_pair)) \<and> 3 \<notin> exited (snd (kill_proc 1 linked_pair)) \<and>
   6 \<in> set (fst (kill_proc 1 linked_pair)) \<and> tc_killed (task_at (snd (kill_proc 1 linked_pair)) 2)"
proof -
  note One_nat_def [simp del]
  have pr: "length (st_procs linked_pair) = 4" "length (st_tasks linked_pair) = 4"
    "pr_links (proc_at linked_pair 0) = []" "pr_links (proc_at linked_pair 1) = [2]"
    "pr_links (proc_at linked_pair 2) = [1]" "pr_links (proc_at linked_pair 3) = [1]"
    "pr_exited (proc_at linked_pair 1) = None" "pr_region (proc_at linked_pair 2) = Some 6"
    "tc_proc (task_at linked_pair 2) = 2" "tc_state (task_at linked_pair 2) = TsFresh"
    by (simp_all add: linked_pair_def fresh_tcb_def numeral_3_eq_3 numeral_2_eq_2)
  have c: "n = 0 \<or> n = 1 \<or> n = 2 \<or> n = 3" if "n < 4" for n :: nat using that by auto
  have "\<forall>e \<in> set (st_procs linked_pair). pr_exited e = None" by (simp add: linked_pair_def)
  then have e: "exited linked_pair = {}" by (simp add: exited_def)
  have l: "links_ok linked_pair" unfolding links_ok_def pr(1) using pr by (auto dest!: c)
  have "(1, 2) \<in> link_graph linked_pair" using pr(4) e by (simp add: link_graph_def)
  then have two: "2 \<in> link_reach linked_pair 1" by (auto simp: link_reach_def)
  have three: "3 \<notin> link_reach linked_pair 1"
  proof
    assume "3 \<in> link_reach linked_pair 1"
    then have "(1, 3) \<in> (link_graph linked_pair)\<^sup>*" by (simp add: link_reach_def)
    then have "3 = (1::nat) \<or> 3 = (2::nat)"
    proof induction
      case (step a b)
      then show ?case by (auto simp: link_graph_def pr)
    qed simp
    then show False by simp
  qed
  from kill_takes_links [of 1 linked_pair 0, unfolded pr(1), OF _ pr(7) l] two three pr e show ?thesis by auto
qed

section \<open>The compacted history of atomic accesses\<close>

lemma unordered_none:
  "unordered_conflict xs me vc lo hi w = None \<longleftrightarrow>
     (\<forall>x \<in> set xs. \<not> (ac_task x \<noteq> me \<and> (ac_write x \<or> w) \<and> ac_lo x < hi \<and> lo < ac_hi x \<and> own_tick (ac_task x) vc < ac_tick x))"
  unfolding unordered_conflict_def own_tick_def map_option_is_None find_None_iff by auto

lemma same_word_refl: "same_word x x"
  by (simp add: same_word_def)

lemma same_word_tick: "same_word x y \<Longrightarrow> y\<lparr>ac_tick := ac_tick x\<rparr> = x"
  by (cases x; cases y) (simp add: same_word_def)

text \<open>The compacted history holds each word once, with its latest access.\<close>

definition latest_of :: "access_rec list \<Rightarrow> access_rec list \<Rightarrow> bool" where
  "latest_of xs h \<longleftrightarrow> set h \<subseteq> set xs \<and> sorted_wrt (\<lambda>x y. \<not> same_word x y) h \<and>
     (\<forall>x \<in> set xs. \<exists>y \<in> set h. same_word x y \<and> ac_tick x \<le> ac_tick y)"

lemma latest_step:
  assumes h: "latest_of xs h" and m: "\<And>y. y \<in> set xs \<Longrightarrow> same_word x y \<Longrightarrow> ac_tick y \<le> ac_tick x"
  shows "latest_of (xs @ [x]) (remember_atomic x h)"
proof (cases "position (same_word x) h")
  case None
  then have new: "\<forall>y \<in> set h. \<not> same_word x y" by (simp add: position_None_iff)
  then have "\<forall>y \<in> set h. \<not> same_word y x" by (simp add: same_word_def)
  then show ?thesis using h None
    by (auto simp: latest_of_def remember_atomic_def sorted_wrt_append same_word_refl)
next
  case (Some i)
  note p = position_Some [OF Some]
  have w: "same_word x y \<longleftrightarrow> same_word (h ! i) y" "same_word y x \<longleftrightarrow> same_word y (h ! i)" for y
    using p by (auto simp: same_word_def)
  have r: "remember_atomic x h = h[i := x]"
    using Some p same_word_tick [of x "h ! i"] by (simp add: remember_atomic_def modify_at_def)
  have "set (h[i := x]) \<subseteq> set (xs @ [x])"
    using h set_update_subset_insert [of h i x] by (auto simp: latest_of_def)
  moreover have "sorted_wrt (\<lambda>x y. \<not> same_word x y) (h[i := x])"
    using h p by (simp add: latest_of_def sorted_wrt_iff_nth_less nth_list_update w)
  moreover have "\<exists>y \<in> set (h[i := x]). same_word z y \<and> ac_tick z \<le> ac_tick y" if z: "z \<in> set (xs @ [x])" for z
  proof (cases "same_word z x")
    case True
    with z m [of z] have "ac_tick z \<le> ac_tick x" by (auto simp: same_word_def)
    with True p show ?thesis using set_update_memI [of i h x] by blast
  next
    case False
    with z same_word_refl [of x] have "z \<in> set xs" by auto
    with h obtain y where y: "y \<in> set h" "same_word z y" "ac_tick z \<le> ac_tick y"
      unfolding latest_of_def by blast
    then obtain j where "j < length h" "same_word z (h ! j)" "ac_tick z \<le> ac_tick (h ! j)"
      by (auto simp: in_set_conv_nth)
    moreover from this(2) False w(2) have "j \<noteq> i" by auto
    moreover have "h[i := x] ! j \<in> set (h[i := x])" using \<open>j < length h\<close> by (intro nth_mem) simp
    ultimately show ?thesis by (intro bexI [of _ "h[i := x] ! j"]) simp_all
  qed
  ultimately show ?thesis by (simp add: latest_of_def r)
qed

lemma latest_fold:
  "sorted_wrt (\<lambda>x y. same_word x y \<longrightarrow> ac_tick x \<le> ac_tick y) xs \<Longrightarrow> latest_of xs (fold remember_atomic xs [])"
proof (induction xs rule: rev_induct)
  case (snoc x xs)
  then have "\<And>y. y \<in> set xs \<Longrightarrow> same_word x y \<Longrightarrow> ac_tick y \<le> ac_tick x"
    by (simp add: sorted_wrt_append same_word_def)
  with latest_step [of xs "fold remember_atomic xs []" x] snoc show ?case by (simp add: sorted_wrt_append)
qed (simp add: latest_of_def)

text \<open>The race detector keeps, of the atomic accesses to an allocation, one entry per task, range and
  kind with the last clock reading: as long as a task's own readings do not decrease, the compacted history
  reports a conflict with an access exactly when the full history would, and no word is kept twice.\<close>
theorem atomic_history_compacts:
  assumes "sorted_wrt (\<lambda>x y. same_word x y \<longrightarrow> ac_tick x \<le> ac_tick y) xs"
  shows "(unordered_conflict (fold remember_atomic xs []) me vc lo hi w = None \<longleftrightarrow> unordered_conflict xs me vc lo hi w = None) \<and>
    sorted_wrt (\<lambda>x y. \<not> same_word x y) (fold remember_atomic xs [])"
proof -
  let ?h = "fold remember_atomic xs []"
  have h: "set ?h \<subseteq> set xs" "\<forall>x \<in> set xs. \<exists>y \<in> set ?h. same_word x y \<and> ac_tick x \<le> ac_tick y"
    "sorted_wrt (\<lambda>x y. \<not> same_word x y) ?h"
    using latest_fold [OF assms] by (simp_all add: latest_of_def)
  have "unordered_conflict xs me vc lo hi w = None" if "unordered_conflict ?h me vc lo hi w = None"
    unfolding unordered_none
  proof
    fix x assume "x \<in> set xs"
    with h(2) obtain y where y: "y \<in> set ?h" "same_word x y" "ac_tick x \<le> ac_tick y" by blast
    then have "ac_task y = ac_task x \<and> ac_lo y = ac_lo x \<and> ac_hi y = ac_hi x \<and> ac_write y = ac_write x"
      by (simp add: same_word_def)
    with that y(1,3)
    show "\<not> (ac_task x \<noteq> me \<and> (ac_write x \<or> w) \<and> ac_lo x < hi \<and> lo < ac_hi x \<and> own_tick (ac_task x) vc < ac_tick x)"
      unfolding unordered_none by (metis less_le_trans)
  qed
  moreover have "unordered_conflict ?h me vc lo hi w = None" if "unordered_conflict xs me vc lo hi w = None"
    using that h(1) unfolding unordered_none by blast
  ultimately show ?thesis using h(3) by blast
qed

theorem atomic_history_compacts_witness:
  "unordered_conflict (fold remember_atomic
     [\<lparr>ac_task = 1, ac_tick = 2, ac_lo = 0, ac_hi = 8, ac_write = True\<rparr>,
      \<lparr>ac_task = 1, ac_tick = 5, ac_lo = 0, ac_hi = 8, ac_write = True\<rparr>] []) 0 [1, 3] 4 8 False \<noteq> None"
proof -
  let ?xs = "[\<lparr>ac_task = 1, ac_tick = 2, ac_lo = 0, ac_hi = 8, ac_write = True\<rparr>,
      \<lparr>ac_task = 1, ac_tick = 5, ac_lo = 0, ac_hi = 8, ac_write = True\<rparr>]"
  have "sorted_wrt (\<lambda>x y. same_word x y \<longrightarrow> ac_tick x \<le> ac_tick y) ?xs" by simp
  from atomic_history_compacts [OF this, of 0 "[1, 3]" 4 8 False] show ?thesis
    by (simp add: unordered_conflict_def get_at_def)
qed

end
