(* ===== verification/LexToken.thy ===== *)
theory LexToken
  imports Prelude
begin

text \<open>
  Source text and tokens of \<open>lex.rs\<close>: a source is the list of its Unicode scalar values, offsets are byte
  offsets of its UTF-8 encoding, and the cursor of a scanner is the part of the source still to read.
  The Unicode tables of Rust's standard library are the record \<open>unicode\<close>.
\<close>

section \<open>Text\<close>

type_synonym chars = "scalar list"

abbreviation cp :: "char \<Rightarrow> scalar" where "cp c \<equiv> of_char c"

text \<open>An ASCII string as text.\<close>

definition ascii :: "string \<Rightarrow> chars" where
  "ascii s = map of_char s"

abbreviation newline :: scalar where "newline \<equiv> 10"
abbreviation carriage_return :: scalar where "carriage_return \<equiv> 13"
abbreviation dquote :: scalar where "dquote \<equiv> 34"
abbreviation squote :: scalar where "squote \<equiv> 39"
abbreviation backslash :: scalar where "backslash \<equiv> 92"

definition len_utf8 :: "scalar \<Rightarrow> nat" where
  "len_utf8 c = (if c < 0x80 then 1 else if c < 0x800 then 2 else if c < 0x10000 then 3 else 4)"

definition nbytes :: "chars \<Rightarrow> nat" where
  "nbytes xs = sum_list (map len_utf8 xs)"

text \<open>\<open>src[n..]\<close> for a character boundary \<open>n\<close>.\<close>

fun from_byte :: "nat \<Rightarrow> chars \<Rightarrow> chars" where
  "from_byte 0 xs = xs"
| "from_byte n [] = []"
| "from_byte n (x # xs) = from_byte (n - len_utf8 x) xs"

definition starts_with :: "chars \<Rightarrow> chars \<Rightarrow> bool" where
  "starts_with p xs \<longleftrightarrow> take (length p) xs = p"

text \<open>\<open>char::from_u32\<close>: the surrogate gap and what lies beyond the last scalar value are not characters.\<close>

definition from_u32 :: "nat \<Rightarrow> scalar option" where
  "from_u32 n = (if n \<le> 0x10FFFF \<and> \<not> (0xD800 \<le> n \<and> n \<le> 0xDFFF) then Some n else None)"

definition is_ascii_digit :: "scalar \<Rightarrow> bool" where
  "is_ascii_digit c \<longleftrightarrow> cp CHR ''0'' \<le> c \<and> c \<le> cp CHR ''9''"

definition is_ascii_alphanumeric :: "scalar \<Rightarrow> bool" where
  "is_ascii_alphanumeric c \<longleftrightarrow> is_ascii_digit c \<or> cp CHR ''a'' \<le> c \<and> c \<le> cp CHR ''z'' \<or> cp CHR ''A'' \<le> c \<and> c \<le> cp CHR ''Z''"

text \<open>\<open>char::to_digit\<close>, for radixes up to 36.\<close>

definition to_digit :: "nat \<Rightarrow> scalar \<Rightarrow> nat option" where
  "to_digit radix c =
     (let d = (if is_ascii_digit c then c - cp CHR ''0''
               else if cp CHR ''a'' \<le> c \<and> c \<le> cp CHR ''z'' then c - cp CHR ''a'' + 10
               else if cp CHR ''A'' \<le> c \<and> c \<le> cp CHR ''Z'' then c - cp CHR ''A'' + 10
               else radix)
      in if d < radix then Some d else None)"

text \<open>The classes of \<open>char::is_alphabetic\<close>, \<open>char::is_numeric\<close> and \<open>char::is_whitespace\<close>.\<close>

record unicode =
  alphabetic :: "scalar \<Rightarrow> bool"
  numeric :: "scalar \<Rightarrow> bool"
  whitespace :: "scalar \<Rightarrow> bool"

definition is_xid_start :: "unicode \<Rightarrow> scalar \<Rightarrow> bool" where
  "is_xid_start u c \<longleftrightarrow> alphabetic u c"

definition is_xid_continue :: "unicode \<Rightarrow> scalar \<Rightarrow> bool" where
  "is_xid_continue u c \<longleftrightarrow> alphabetic u c \<or> numeric u c \<or> c = cp CHR ''_''"

section \<open>Tokens\<close>

text \<open>The keywords are sorted, so the source's binary search finds exactly the members.\<close>

definition KEYWORDS :: "chars list" where
  "KEYWORDS = map ascii
    [''as'', ''asm'', ''assume'', ''borrow'', ''break'', ''comptime'', ''const'', ''continue'', ''copy'', ''defer'',
     ''distinct'', ''dyn'', ''else'', ''enum'', ''errdefer'', ''export'', ''extern'', ''false'', ''fn'', ''for'',
     ''freeze'', ''handle'', ''if'', ''impl'', ''import'', ''in'', ''let'', ''loop'', ''match'', ''move'', ''mut'',
     ''proc'', ''pub'', ''region'', ''return'', ''scope'', ''select'', ''shared'', ''spawn'', ''struct'', ''take'',
     ''trait'', ''true'', ''type'', ''unsafe'', ''use'', ''var'', ''weak'', ''when'', ''while'']"

definition is_keyword :: "chars \<Rightarrow> bool" where
  "is_keyword w \<longleftrightarrow> w \<in> set KEYWORDS"

datatype str_kind = SkPlain | SkMultiline | SkRaw (sk_hashes: nat) | SkGeneralized chars

definition interpolates :: "str_kind \<Rightarrow> bool" where
  "interpolates k \<longleftrightarrow> k = SkPlain \<or> k = SkMultiline"

text \<open>The source has one enum of tokens; its constructors without payload that spell themselves are grouped
  here as \<open>punct\<close>.\<close>

datatype (plugins only: code size) punct =
    LParen | RParen | LBracket | RBracket | LBrace | RBrace | HashBracket | HashBangBracket
  | Bang | Plus | Minus | Star | Slash | Percent | Shl | Shr | Amp | Caret | Pipe | AndAnd | OrOr
  | EqEq | Ne | Lt | Gt | Le | Ge | Spaceship
  | Assign | PlusEq | MinusEq | StarEq | SlashEq | PercentEq | AmpEq | PipeEq | CaretEq | ShlEq | ShrEq
  | Dot | DotDot | DotDotEq | Arrow | FatArrow | Question | Colon | Comma | At

datatype tok =
    Ident chars | Underscore | Kw chars | IntLit chars | FloatLit chars | CharLit scalar
  | StrStart str_kind | StrText chars | InterpStart | InterpEnd | FmtStart | FmtText chars | StrEnd
  | Term (explicit: bool) | Punct punct | ErrorTok

text \<open>The tokens a statement may end with.\<close>

definition ends_a_statement :: "tok \<Rightarrow> bool" where
  "ends_a_statement t =
     (case t of
        Ident _ \<Rightarrow> True | Underscore \<Rightarrow> True
      | IntLit _ \<Rightarrow> True | FloatLit _ \<Rightarrow> True | CharLit _ \<Rightarrow> True | StrEnd \<Rightarrow> True
      | Kw k \<Rightarrow> k \<in> set (map ascii [''true'', ''false'', ''return'', ''break'', ''continue''])
      | Punct p \<Rightarrow> p \<in> {RParen, RBracket, RBrace, Question}
      | _ \<Rightarrow> False)"

definition is_binary_only :: "tok \<Rightarrow> bool" where
  "is_binary_only t \<longleftrightarrow>
     t = Kw (ascii ''as'') \<or>
     (\<exists>p \<in> {Plus, Slash, Percent, Shl, Shr, Caret, Pipe, AndAnd, OrOr, EqEq, Ne, Lt, Gt, Le, Ge, Spaceship,
          Dot, DotDot, DotDotEq}. t = Punct p)"

definition punctuation_spelling :: "punct \<Rightarrow> string" where
  "punctuation_spelling p =
     (case p of
        LParen \<Rightarrow> ''('' | RParen \<Rightarrow> '')'' | LBracket \<Rightarrow> ''['' | RBracket \<Rightarrow> '']''
      | LBrace \<Rightarrow> ''{'' | RBrace \<Rightarrow> ''}'' | HashBracket \<Rightarrow> ''#['' | HashBangBracket \<Rightarrow> ''#![''
      | Bang \<Rightarrow> ''!'' | Plus \<Rightarrow> ''+'' | Minus \<Rightarrow> ''-'' | Star \<Rightarrow> ''*'' | Slash \<Rightarrow> ''/'' | Percent \<Rightarrow> ''%''
      | Shl \<Rightarrow> ''<<'' | Shr \<Rightarrow> ''>>'' | Amp \<Rightarrow> ''&'' | Caret \<Rightarrow> ''^'' | Pipe \<Rightarrow> ''|''
      | AndAnd \<Rightarrow> ''&&'' | OrOr \<Rightarrow> ''||''
      | EqEq \<Rightarrow> ''=='' | Ne \<Rightarrow> ''!='' | Lt \<Rightarrow> ''<'' | Gt \<Rightarrow> ''>'' | Le \<Rightarrow> ''<='' | Ge \<Rightarrow> ''>='' | Spaceship \<Rightarrow> ''<=>''
      | Assign \<Rightarrow> ''='' | PlusEq \<Rightarrow> ''+='' | MinusEq \<Rightarrow> ''-='' | StarEq \<Rightarrow> ''*='' | SlashEq \<Rightarrow> ''/=''
      | PercentEq \<Rightarrow> ''%='' | AmpEq \<Rightarrow> ''&='' | PipeEq \<Rightarrow> ''|='' | CaretEq \<Rightarrow> ''^='' | ShlEq \<Rightarrow> ''<<='' | ShrEq \<Rightarrow> ''>>=''
      | Dot \<Rightarrow> ''.'' | DotDot \<Rightarrow> ''..'' | DotDotEq \<Rightarrow> ''..='' | Arrow \<Rightarrow> ''->'' | FatArrow \<Rightarrow> ''=>''
      | Question \<Rightarrow> ''?'' | Colon \<Rightarrow> '':'' | Comma \<Rightarrow> '','' | At \<Rightarrow> ''@'')"

record token =
  tk_tok :: tok
  tk_span :: span


end
