(* ===== verification/LexState.thy ===== *)
theory LexState
  imports LexToken
begin

text \<open>
  The state of \<open>Lexer\<close> in \<open>lex.rs\<close> and its plumbing: the cursor, the token and diagnostic lists, the one
  stack of delimiters, interpolations, string bodies and format specs, and the terminators inserted at
  ends of lines. The stack is a list with its top in front.
\<close>

section \<open>State\<close>

text \<open>A diagnostic is its code and its span; the anchor and the message are not modelled.\<close>

record lex_diag =
  ld_code :: string
  ld_span :: span

definition E_INTERP_DEPTH :: string where "E_INTERP_DEPTH = ''E0007''"
definition E_UNEXPECTED_BYTE :: string where "E_UNEXPECTED_BYTE = ''E0101''"
definition E_UNTERMINATED_STRING :: string where "E_UNTERMINATED_STRING = ''E0102''"
definition E_BAD_ESCAPE :: string where "E_BAD_ESCAPE = ''E0101''"
definition E_DELIMITER_SHARES_LINE :: string where "E_DELIMITER_SHARES_LINE = ''E0103''"
definition E_SHORT_MARGIN :: string where "E_SHORT_MARGIN = ''E0104''"
definition E_MIXED_MARGIN :: string where "E_MIXED_MARGIN = ''E0105''"
definition E_BAD_NUMBER :: string where "E_BAD_NUMBER = ''E0106''"
definition E_NOT_UTF8 :: string where "E_NOT_UTF8 = ''E0107''"
definition E_STRAY_CHARACTER :: string where "E_STRAY_CHARACTER = ''E0107''"
definition E_INTERP_RAIL :: string where "E_INTERP_RAIL = ''E0108''"
definition E_UNTERMINATED_RAW :: string where "E_UNTERMINATED_RAW = ''E0109''"
definition E_BAD_CHAR_LITERAL :: string where "E_BAD_CHAR_LITERAL = ''E0110''"
definition E_BARE_BRACE_IN_STRING :: string where "E_BARE_BRACE_IN_STRING = ''E0111''"
definition E_UNTERMINATED_INTERP :: string where "E_UNTERMINATED_INTERP = ''E0112''"

datatype piece = PcText nat | PcInterp

record str_frame =
  sf_kind :: str_kind
  sf_body_start :: nat
  sf_pending :: chars
  sf_pending_start :: nat
  sf_pieces :: "piece list"
  sf_line_starts :: "nat list"

datatype ctx = CxParen | CxBracket | CxAttrBracket | CxBrace | CxInterp | CxStr str_frame | CxFmt

text \<open>The cursor \<open>pos\<close> of the source is kept as the text from \<open>pos\<close> on.\<close>

record lexer =
  lx_src :: chars
  lx_rest :: chars
  lx_tokens :: "token list"
  lx_ctx :: "ctx list"
  lx_errors :: "lex_diag list"
  lx_deferred :: "lex_diag list"
  lx_max_str_depth :: nat
  lx_depth_reported :: bool
  lx_attr_close :: "nat option"
  lx_open_at_eof :: bool

definition NESTING_FRIENDLY_LIMIT :: nat where "NESTING_FRIENDLY_LIMIT = 8"
definition NESTING_HARD_RAIL :: nat where "NESTING_HARD_RAIL = 32"

section \<open>Plumbing\<close>

definition mk_span :: "nat \<Rightarrow> nat \<Rightarrow> span" where
  "mk_span a b = \<lparr>span_start = a, span_end = b\<rparr>"

definition empty_span :: "nat \<Rightarrow> span" where
  "empty_span a = mk_span a a"

text \<open>The offset at which the text \<open>r\<close>, an end piece of the source, begins.\<close>

definition offset :: "lexer \<Rightarrow> chars \<Rightarrow> nat" where
  "offset s r = nbytes (lx_src s) - nbytes r"

definition pos :: "lexer \<Rightarrow> nat" where
  "pos s = offset s (lx_rest s)"

definition goto :: "chars \<Rightarrow> lexer \<Rightarrow> lexer" where
  "goto r s = s\<lparr>lx_rest := r\<rparr>"

definition skip :: "nat \<Rightarrow> lexer \<Rightarrow> lexer" where
  "skip n s = goto (drop n (lx_rest s)) s"

definition push :: "tok \<Rightarrow> span \<Rightarrow> lexer \<Rightarrow> lexer" where
  "push t sp s = s\<lparr>lx_tokens := lx_tokens s @ [\<lparr>tk_tok = t, tk_span = sp\<rparr>]\<rparr>"

text \<open>A token from the cursor to the text \<open>r\<close>, which the cursor moves to.\<close>

definition emit :: "tok \<Rightarrow> chars \<Rightarrow> lexer \<Rightarrow> lexer" where
  "emit t r s = push t (mk_span (pos s) (offset s r)) (goto r s)"

definition lex_error :: "string \<Rightarrow> span \<Rightarrow> lexer \<Rightarrow> lexer" where
  "lex_error code sp s = s\<lparr>lx_errors := lx_errors s @ [\<lparr>ld_code = code, ld_span = sp\<rparr>]\<rparr>"

definition is_str :: "ctx \<Rightarrow> bool" where
  "is_str c \<longleftrightarrow> (case c of CxStr _ \<Rightarrow> True | _ \<Rightarrow> False)"

definition innermost_delimiter :: "lexer \<Rightarrow> ctx option" where
  "innermost_delimiter s = find (\<lambda>c. \<not> is_str c \<and> c \<noteq> CxFmt) (lx_ctx s)"

definition string_depth :: "lexer \<Rightarrow> nat" where
  "string_depth s = length (filter is_str (lx_ctx s))"

definition open_plain_string :: "nat \<Rightarrow> lexer \<Rightarrow> span option" where
  "open_plain_string e s =
     (case find is_str (lx_ctx s) of
        Some (CxStr f) \<Rightarrow> if sf_kind f = SkPlain then Some (mk_span (sf_body_start f - 1) e) else None
      | _ \<Rightarrow> None)"

fun unwind_ctx :: "ctx list \<Rightarrow> lexer \<Rightarrow> lexer" where
  "unwind_ctx [] s = s\<lparr>lx_ctx := []\<rparr>"
| "unwind_ctx (c # cs) s =
     (case c of
        CxStr _ \<Rightarrow> push StrEnd (empty_span (pos s)) (s\<lparr>lx_ctx := cs\<rparr>)
      | CxInterp \<Rightarrow> unwind_ctx cs (push InterpEnd (empty_span (pos s)) s)
      | CxFmt \<Rightarrow> unwind_ctx cs (push InterpEnd (empty_span (pos s)) s)
      | _ \<Rightarrow> unwind_ctx cs s)"

definition unwind_plain_string :: "lexer \<Rightarrow> lexer" where
  "unwind_plain_string s = unwind_ctx (lx_ctx s) s"

section \<open>Terminators\<close>

text \<open>The scan ahead of \<open>else_follows\<close>: white space and line comments do not count.\<close>

function skip_blank :: "chars \<Rightarrow> chars" where
  "skip_blank xs =
     (case xs of
        [] \<Rightarrow> []
      | c # cs \<Rightarrow>
          if c \<in> set [32, 9, 13, 10, 11, 12] then skip_blank cs
          else if starts_with (ascii ''//'') xs then skip_blank (dropWhile (\<lambda>c. c \<noteq> newline) cs)
          else xs)"
  by pat_completeness auto
termination
  by (relation "measure length") (auto simp: less_Suc_eq_le length_dropWhile_le)

declare skip_blank.simps [simp del]

definition else_follows :: "unicode \<Rightarrow> chars \<Rightarrow> bool" where
  "else_follows u r =
     (let r' = skip_blank r in
      starts_with (ascii ''else'') r' \<and>
      (case drop 4 r' of [] \<Rightarrow> True | c # _ \<Rightarrow> \<not> (is_xid_continue u c \<or> c = cp CHR ''_'')))"

definition newlines_terminate :: "lexer \<Rightarrow> bool" where
  "newlines_terminate s \<longleftrightarrow> innermost_delimiter s = None \<or> innermost_delimiter s = Some CxBrace"

text \<open>At a newline the cursor has already passed, so the lookahead starts at the cursor.\<close>

definition insert_terminator :: "unicode \<Rightarrow> nat \<Rightarrow> lexer \<Rightarrow> lexer" where
  "insert_terminator u at s =
     (if \<not> newlines_terminate s then s
      else if lx_tokens s = [] then s
      else if \<not> ends_a_statement (tk_tok (last (lx_tokens s))) then s
      else if lx_attr_close s = Some (length (lx_tokens s) - 1) then s
      else if else_follows u (lx_rest s) then s
      else push (Term False) (empty_span at) s)"

definition insert_terminator_at_eof :: "lexer \<Rightarrow> lexer" where
  "insert_terminator_at_eof s =
     (if \<not> newlines_terminate s then s
      else if lx_attr_close s = Some (length (lx_tokens s) - 1) then s
      else if lx_tokens s \<noteq> [] \<and> ends_a_statement (tk_tok (last (lx_tokens s)))
      then push (Term False) (empty_span (nbytes (lx_src s))) s
      else s)"

section \<open>Delimiters\<close>

definition closes_delimiter :: "ctx \<Rightarrow> ctx list \<Rightarrow> bool" where
  "closes_delimiter expected cs =
     (case cs of
        [] \<Rightarrow> False
      | c # _ \<Rightarrow>
          expected = CxParen \<and> c = CxParen \<or> expected = CxBracket \<and> (c = CxBracket \<or> c = CxAttrBracket) \<or>
          expected = CxBrace \<and> c = CxBrace)"

definition pop_delimiter :: "ctx \<Rightarrow> lexer \<Rightarrow> lexer" where
  "pop_delimiter expected s = (if closes_delimiter expected (lx_ctx s) then s\<lparr>lx_ctx := tl (lx_ctx s)\<rparr> else s)"

definition top_is :: "ctx \<Rightarrow> lexer \<Rightarrow> bool" where
  "top_is c s \<longleftrightarrow> lx_ctx s \<noteq> [] \<and> hd (lx_ctx s) = c"

definition close_bracket :: "span \<Rightarrow> lexer \<Rightarrow> lexer" where
  "close_bracket sp s =
     (let s1 = push (Punct RBracket) sp (pop_delimiter CxBracket s)
      in if top_is CxAttrBracket s then s1\<lparr>lx_attr_close := Some (length (lx_tokens s1) - 1)\<rparr> else s1)"

definition close_brace :: "span \<Rightarrow> lexer \<Rightarrow> lexer" where
  "close_brace sp s =
     (if top_is CxInterp s \<or> top_is CxFmt s then push InterpEnd sp (s\<lparr>lx_ctx := tl (lx_ctx s)\<rparr>)
      else push (Punct RBrace) sp (pop_delimiter CxBrace s))"

definition push_ctx :: "ctx \<Rightarrow> lexer \<Rightarrow> lexer" where
  "push_ctx c s = s\<lparr>lx_ctx := c # lx_ctx s\<rparr>"

section \<open>String frames\<close>

definition upd_frame :: "(str_frame \<Rightarrow> str_frame) \<Rightarrow> lexer \<Rightarrow> lexer" where
  "upd_frame g s = (case lx_ctx s of CxStr f # cs \<Rightarrow> s\<lparr>lx_ctx := CxStr (g f) # cs\<rparr> | _ \<Rightarrow> s)"

text \<open>The frame on top of the stack; string bodies are scanned only with one there, and the source panics
  otherwise.\<close>

definition no_frame :: str_frame where
  "no_frame = \<lparr>sf_kind = SkPlain, sf_body_start = 0, sf_pending = [], sf_pending_start = 0, sf_pieces = [], sf_line_starts = []\<rparr>"

definition frame :: "lexer \<Rightarrow> str_frame" where
  "frame s = (case lx_ctx s of CxStr f # cs \<Rightarrow> f | _ \<Rightarrow> no_frame)"

definition last_span :: "lexer \<Rightarrow> span" where
  "last_span s = (if lx_tokens s = [] then empty_span (pos s) else tk_span (last (lx_tokens s)))"

definition report_depth :: "nat \<Rightarrow> lexer \<Rightarrow> lexer" where
  "report_depth depth s =
     (let s1 = (if NESTING_FRIENDLY_LIMIT < depth \<and> depth \<le> NESTING_HARD_RAIL \<and> \<not> lx_depth_reported s
                then s\<lparr>lx_depth_reported := True,
                       lx_deferred := lx_deferred s @ [\<lparr>ld_code = E_INTERP_DEPTH, ld_span = last_span s\<rparr>]\<rparr>
                else s)
      in if NESTING_HARD_RAIL < depth then lex_error E_INTERP_RAIL (last_span s1) s1 else s1)"

definition enter_string :: "str_kind \<Rightarrow> lexer \<Rightarrow> lexer" where
  "enter_string k s =
     (let s1 = push_ctx (CxStr \<lparr>sf_kind = k, sf_body_start = pos s, sf_pending = [], sf_pending_start = pos s,
                 sf_pieces = [], sf_line_starts = []\<rparr>) s;
          depth = string_depth s1
      in report_depth depth (s1\<lparr>lx_max_str_depth := max (lx_max_str_depth s1) depth\<rparr>))"

definition flush_text :: "lexer \<Rightarrow> lexer" where
  "flush_text s =
     (let f = frame s in
      if sf_pending f = [] then s
      else let s1 = push (StrText (sf_pending f)) (mk_span (sf_pending_start f) (pos s)) (upd_frame (\<lambda>f. f\<lparr>sf_pending := []\<rparr>) s)
           in if sf_kind f = SkMultiline
              then upd_frame (\<lambda>f. f\<lparr>sf_pieces := sf_pieces f @ [PcText (length (lx_tokens s1) - 1)]\<rparr>) s1 else s1)"

text \<open>\<open>push_escaped\<close>: a character of the value whose spelling begins at \<open>at\<close>. \<open>text_push\<close> is a character
  that spells itself.\<close>

definition push_escaped :: "nat \<Rightarrow> scalar \<Rightarrow> lexer \<Rightarrow> lexer" where
  "push_escaped at c s =
     upd_frame (\<lambda>f. (if sf_pending f = [] then f\<lparr>sf_pending_start := at\<rparr> else f)\<lparr>sf_pending := sf_pending f @ [c]\<rparr>) s"

definition text_push :: "scalar \<Rightarrow> lexer \<Rightarrow> lexer" where
  "text_push c s = push_escaped (pos s) c s"

end
