(* ===== verification/LexScan.thy ===== *)
theory LexScan
  imports LexState "HOL-Library.Sublist"
begin

text \<open>
  The scanners of \<open>lex.rs\<close> in token mode: words, numbers, character literals and the openers of strings.
\<close>

section \<open>Numbers\<close>

definition base_radix :: "scalar \<Rightarrow> nat option" where
  "base_radix m =
     (if m = cp CHR ''x'' \<or> m = cp CHR ''X'' then Some 16
      else if m = cp CHR ''o'' \<or> m = cp CHR ''O'' then Some 8
      else if m = cp CHR ''b'' \<or> m = cp CHR ''B'' then Some 2
      else None)"

definition based :: "chars \<Rightarrow> nat option" where
  "based r = (case r of z # m # _ \<Rightarrow> if z = cp CHR ''0'' then base_radix m else None | _ \<Rightarrow> None)"

definition decimal_char :: "scalar \<Rightarrow> bool" where
  "decimal_char c \<longleftrightarrow> is_ascii_digit c \<or> c = cp CHR ''_''"

definition eat_decimal_run :: "chars \<Rightarrow> chars" where
  "eat_decimal_run r = dropWhile decimal_char r"

text \<open>What is left after a fraction, and after an exponent, when one follows.\<close>

definition eat_fraction :: "chars \<Rightarrow> chars option" where
  "eat_fraction r =
     (case r of
        d # e # cs \<Rightarrow> if d = cp CHR ''.'' \<and> e \<noteq> cp CHR ''.'' \<and> is_ascii_digit e then Some (eat_decimal_run (e # cs)) else None
      | _ \<Rightarrow> None)"

definition is_sign :: "chars \<Rightarrow> bool" where
  "is_sign r \<longleftrightarrow> (case r of [] \<Rightarrow> False | c # _ \<Rightarrow> c = cp CHR ''+'' \<or> c = cp CHR ''-'')"

definition eat_exponent :: "chars \<Rightarrow> chars option" where
  "eat_exponent r =
     (case r of
        [] \<Rightarrow> None
      | e # cs \<Rightarrow>
          if e = cp CHR ''e'' \<or> e = cp CHR ''E''
          then (let ds = (if is_sign cs then tl cs else cs)
                in case ds of [] \<Rightarrow> None | d # _ \<Rightarrow> if is_ascii_digit d then Some (eat_decimal_run ds) else None)
          else None)"

definition consumed :: "chars \<Rightarrow> chars \<Rightarrow> chars" where
  "consumed r r' = take (length r - length r') r"

definition scan_based :: "nat \<Rightarrow> lexer \<Rightarrow> lexer" where
  "scan_based radix s =
     (let r = lx_rest s;
          digit = (\<lambda>c. c = cp CHR ''_'' \<or> is_ascii_alphanumeric c);
          digits = takeWhile digit (drop 2 r);
          r' = dropWhile digit (drop 2 r);
          bad = (digits = [] \<or> \<not> list_all (\<lambda>c. c = cp CHR ''_'' \<or> to_digit radix c \<noteq> None) digits);
          s1 = (if bad then lex_error E_BAD_NUMBER (mk_span (pos s) (offset s r')) s else s)
      in emit (IntLit (consumed r r')) r' s1)"

definition scan_decimal :: "lexer \<Rightarrow> lexer" where
  "scan_decimal s =
     (let r = lx_rest s;
          r1 = eat_decimal_run r;
          r2 = (case eat_fraction r1 of None \<Rightarrow> r1 | Some r' \<Rightarrow> r');
          r3 = (case eat_exponent r2 of None \<Rightarrow> r2 | Some r' \<Rightarrow> r');
          is_float = (eat_fraction r1 \<noteq> None \<or> eat_exponent r2 \<noteq> None)
      in emit ((if is_float then FloatLit else IntLit) (consumed r r3)) r3 s)"

definition scan_number :: "lexer \<Rightarrow> lexer" where
  "scan_number s = (case based (lx_rest s) of Some radix \<Rightarrow> scan_based radix s | None \<Rightarrow> scan_decimal s)"

section \<open>Character literals\<close>

text \<open>Why an escape is refused: its shape, or the number of its digits, with the span of the escape.\<close>

datatype char_escape_error = CeShape | CeDigitCount span

definition is_hex :: "scalar \<Rightarrow> bool" where
  "is_hex c \<longleftrightarrow> to_digit 16 c \<noteq> None"

definition hex_value :: "scalar \<Rightarrow> nat" where
  "hex_value c = (case to_digit 16 c of Some d \<Rightarrow> d | None \<Rightarrow> 0)"

text \<open>A run of hex digits read into a \<open>u32\<close> with saturation.\<close>

abbreviation u32_max :: nat where "u32_max \<equiv> 4294967295"

definition sat_hex :: "chars \<Rightarrow> nat" where
  "sat_hex ds = fold (\<lambda>c v. min (min (v * 16) u32_max + hex_value c) u32_max) ds 0"

text \<open>The two digits of \<open>\x\<close> and the braced digits of \<open>\u\<close>, from the text after the letter.\<close>

definition hex_escape :: "chars \<Rightarrow> nat option \<times> chars" where
  "hex_escape r =
     (let ds = takeWhile is_hex (take 2 r)
      in (if length ds = 2 then Some (fold (\<lambda>c v. v * 16 + hex_value c) ds 0) else None, drop (length ds) r))"

definition scan_char_unicode_escape :: "lexer \<Rightarrow> chars \<Rightarrow> chars \<Rightarrow> (char_escape_error + scalar) \<times> chars" where
  "scan_char_unicode_escape s esc r =
     (if \<not> starts_with (ascii ''{'') r then (Inl CeShape, r)
      else let ds = takeWhile is_hex (tl r); r1 = dropWhile is_hex (tl r)
           in if \<not> starts_with (ascii ''}'') r1 then (Inl CeShape, r1)
              else let r2 = tl r1
                   in if ds = [] \<or> 6 < length ds then (Inl (CeDigitCount (mk_span (offset s esc) (offset s r2))), r2)
                      else if 0x10FFFF < sat_hex ds then (Inl CeShape, r2)
                      else (case from_u32 (sat_hex ds) of Some c \<Rightarrow> (Inr c, r2) | None \<Rightarrow> (Inl CeShape, r2)))"

text \<open>One escape of a character literal; \<open>esc\<close> is the text from its backslash on.\<close>

definition scan_char_escape :: "lexer \<Rightarrow> chars \<Rightarrow> (char_escape_error + scalar) \<times> chars" where
  "scan_char_escape s esc =
     (case tl esc of
        [] \<Rightarrow> (Inl CeShape, [])
      | c # r \<Rightarrow>
          if c = cp CHR ''n'' then (Inr newline, r)
          else if c = cp CHR ''t'' then (Inr 9, r)
          else if c = cp CHR ''r'' then (Inr carriage_return, r)
          else if c = cp CHR ''0'' then (Inr 0, r)
          else if c = backslash then (Inr backslash, r)
          else if c = squote then (Inr squote, r)
          else if c = dquote then (Inr dquote, r)
          else if c = cp CHR ''x'' then
            (let (v, r') = hex_escape r in (case v of Some x \<Rightarrow> Inr x | None \<Rightarrow> Inl CeShape, r'))
          else if c = cp CHR ''u'' then scan_char_unicode_escape s esc r
          else (Inl CeShape, r))"

lemma hex_escape_suffix: "suffix (snd (hex_escape r)) r"
  by (simp add: hex_escape_def Let_def suffix_drop)

lemmas hex_escape_length = suffix_length_le [OF hex_escape_suffix]

lemma char_unicode_suffix: "suffix (snd (scan_char_unicode_escape s esc r)) r"
proof -
  have a: "suffix (dropWhile is_hex (tl r)) r" by (rule suffix_order.trans [OF suffix_dropWhile suffix_tl])
  have "suffix (tl (dropWhile is_hex (tl r))) r" by (rule suffix_order.trans [OF suffix_tl a])
  with a show ?thesis by (auto simp: scan_char_unicode_escape_def Let_def split: option.split)
qed

lemma scan_char_escape_suffix: "suffix (snd (scan_char_escape s esc)) (tl esc)"
proof (cases "tl esc")
  case (Cons c r)
  have "suffix x (tl esc)" if "suffix x r" for x using that Cons by (simp add: suffix_ConsI)
  then show ?thesis using Cons hex_escape_suffix [of r] char_unicode_suffix [of s esc r]
    by (simp add: scan_char_escape_def case_prod_beta Let_def)
qed (simp add: scan_char_escape_def)

lemma char_escape_length: "esc \<noteq> [] \<Longrightarrow> length (snd (scan_char_escape s esc)) < length esc"
  using suffix_length_le [OF scan_char_escape_suffix [of s esc]] by (cases esc) auto

lemma char_escape_shrinks: "scan_char_escape s (c # cs) = (e, r') \<Longrightarrow> length r' < length (c # cs)"
  using char_escape_length [of "c # cs" s] by simp

text \<open>The body of a character literal: the number of scalars read, the first of them and the first
  malformation, with the text after the closing quote; \<open>None\<close> when the line or the file ends first.\<close>

function char_body :: "lexer \<Rightarrow> chars \<Rightarrow> nat \<Rightarrow> scalar option \<Rightarrow> char_escape_error option
    \<Rightarrow> (nat \<times> scalar option \<times> char_escape_error option) option \<times> chars" where
  "char_body s r scalars first bad =
     (case r of
        [] \<Rightarrow> (None, r)
      | c # cs \<Rightarrow>
          if c = newline then (None, r)
          else if c = squote then (Some (scalars, first, bad), cs)
          else if c = backslash then
            (case scan_char_escape s r of
               (Inr ch, r') \<Rightarrow> char_body s r' (scalars + 1) (if first = None then Some ch else first) bad
             | (Inl e, r') \<Rightarrow> char_body s r' (scalars + 1) first (if bad = None then Some e else bad))
          else char_body s cs (scalars + 1) (if first = None then Some c else first) bad)"
  by pat_completeness auto
termination
  by (relation "measure (\<lambda>(s, r, _). length r)") (auto dest!: char_escape_shrinks [OF sym])

declare char_body.simps [simp del]

definition scan_char_literal :: "lexer \<Rightarrow> lexer" where
  "scan_char_literal s =
     (let (res, r') = char_body s (tl (lx_rest s)) 0 None None;
          sp = mk_span (pos s) (offset s r')
      in case res of
           None \<Rightarrow> emit ErrorTok r' (lex_error E_BAD_CHAR_LITERAL sp s)
         | Some (scalars, first, bad) \<Rightarrow>
             (case (if bad \<noteq> None then bad else if scalars \<noteq> 1 then Some CeShape else None) of
                None \<Rightarrow> emit (CharLit (the first)) r' s
              | Some CeShape \<Rightarrow> emit ErrorTok r' (lex_error E_BAD_CHAR_LITERAL sp s)
              | Some (CeDigitCount at) \<Rightarrow> emit ErrorTok r' (lex_error E_UNEXPECTED_BYTE at s)))"

section \<open>Openers of strings\<close>

text \<open>The cursor is at the start of the literal, its prefix included; \<open>r\<close> is the text from its quote on.\<close>

definition string_kind :: "chars option \<Rightarrow> chars \<Rightarrow> str_kind" where
  "string_kind generalized r =
     (case generalized of
        Some pre \<Rightarrow> SkGeneralized pre
      | None \<Rightarrow> if starts_with [dquote, dquote, dquote] r then SkMultiline else SkPlain)"

text \<open>The newline right after an opening \<open>"""\<close> is dropped; what follows it is the first content line.\<close>

definition drop_first_newline :: "chars \<Rightarrow> chars option" where
  "drop_first_newline r =
     (let r' = (if starts_with [carriage_return] r then tl r else r)
      in if starts_with [newline] r' then Some (tl r') else None)"

definition open_string :: "unicode \<Rightarrow> chars option \<Rightarrow> chars \<Rightarrow> lexer \<Rightarrow> lexer" where
  "open_string u generalized r s =
     (let k = string_kind generalized r;
          r1 = drop (if k = SkMultiline then 3 else 1) r;
          line = takeWhile (\<lambda>c. c \<noteq> newline) r1;
          s1 = (if k = SkMultiline \<and> \<not> list_all (whitespace u) line
                then lex_error E_DELIMITER_SHARES_LINE (mk_span (offset s r1) (offset s (dropWhile (\<lambda>c. c \<noteq> newline) r1))) s
                else s);
          first = (if k = SkMultiline then drop_first_newline r1 else None);
          r2 = (case first of Some r' \<Rightarrow> r' | None \<Rightarrow> r1);
          s2 = enter_string k (emit (StrStart k) r2 s1)
      in case first of
           Some _ \<Rightarrow> upd_frame (\<lambda>f. f\<lparr>sf_line_starts := sf_line_starts f @ [offset s r2]\<rparr>) s2
         | None \<Rightarrow> s2)"

definition open_raw_string :: "chars \<Rightarrow> lexer \<Rightarrow> lexer" where
  "open_raw_string r s =
     (let hashes = length (takeWhile (\<lambda>c. c = cp CHR ''#'') r); r1 = drop hashes r
      in if \<not> starts_with [dquote] r1 then emit (Ident (ascii ''r'')) (tl (lx_rest s)) s
         else enter_string (SkRaw hashes) (emit (StrStart (SkRaw hashes)) (tl r1) s))"

definition scan_word :: "unicode \<Rightarrow> lexer \<Rightarrow> lexer" where
  "scan_word u s =
     (let word = takeWhile (is_xid_continue u) (lx_rest s); r = dropWhile (is_xid_continue u) (lx_rest s)
      in if word = ascii ''r'' \<and> (starts_with [dquote] r \<or> starts_with (ascii ''#'') r) then open_raw_string r s
         else if starts_with [dquote] r \<and> \<not> is_keyword word \<and> word \<noteq> ascii ''_'' then open_string u (Some word) r s
         else emit (if word = ascii ''_'' then Underscore else if is_keyword word then Kw word else Ident word) r s)"

end
