(* ===== verification/LexString.thy ===== *)
theory LexString
  imports LexScan
begin

text \<open>
  The string modes of \<open>lex.rs\<close>: escapes, the body of a literal, the dedent of a multiline literal and
  the format specs of its interpolations.
\<close>

section \<open>Escapes\<close>

definition scan_hex_escape :: "nat \<Rightarrow> chars \<Rightarrow> lexer \<Rightarrow> lexer" where
  "scan_hex_escape start r s =
     (let (v, r') = hex_escape r
      in case v of
           None \<Rightarrow> lex_error E_BAD_ESCAPE (mk_span start (offset s r')) (goto r' s)
         | Some x \<Rightarrow> push_escaped start (case from_u32 x of Some c \<Rightarrow> c | None \<Rightarrow> 0xFFFD) (goto r' s))"

text \<open>The digits of \<open>\u{...}\<close> with the flag that says whether the last scalar value was passed.\<close>

definition sat_hex_overflow :: "chars \<Rightarrow> nat \<times> bool" where
  "sat_hex_overflow ds =
     fold (\<lambda>c (v, over). let v' = min (min (v * 16) u32_max + hex_value c) u32_max in (v', over \<or> 0x10FFFF < v')) ds (0, False)"

definition scan_unicode_escape :: "nat \<Rightarrow> chars \<Rightarrow> lexer \<Rightarrow> lexer" where
  "scan_unicode_escape start r s =
     (if \<not> starts_with (ascii ''{'') r then lex_error E_BAD_ESCAPE (mk_span start (offset s r)) (goto r s)
      else let ds = takeWhile is_hex (tl r); r1 = dropWhile is_hex (tl r)
           in if \<not> starts_with (ascii ''}'') r1 then lex_error E_BAD_ESCAPE (mk_span start (offset s r1)) (goto r1 s)
              else let r2 = tl r1; sp = mk_span start (offset s r2); (value, overflow) = sat_hex_overflow ds
                   in if ds = [] \<or> 6 < length ds then lex_error E_UNEXPECTED_BYTE sp (goto r2 s)
                      else (case (if overflow then None else from_u32 value) of
                              Some c \<Rightarrow> push_escaped start c (goto r2 s)
                            | None \<Rightarrow> lex_error E_BAD_ESCAPE sp (goto r2 s)))"

definition scan_escape :: "lexer \<Rightarrow> lexer" where
  "scan_escape s =
     (let start = pos s in
      case tl (lx_rest s) of
        [] \<Rightarrow> lex_error E_UNTERMINATED_STRING (mk_span start (offset s [])) (goto [] s)
      | c # r \<Rightarrow>
          if c = cp CHR ''n'' then push_escaped start newline (goto r s)
          else if c = cp CHR ''t'' then push_escaped start 9 (goto r s)
          else if c = cp CHR ''r'' then push_escaped start carriage_return (goto r s)
          else if c = backslash then push_escaped start backslash (goto r s)
          else if c = dquote then push_escaped start dquote (goto r s)
          else if c = cp CHR ''0'' then push_escaped start 0 (goto r s)
          else if c = cp CHR ''x'' then scan_hex_escape start r s
          else if c = cp CHR ''u'' then scan_unicode_escape start r s
          else lex_error E_BAD_ESCAPE (mk_span start (offset s r)) (goto r s))"

section \<open>Dedent\<close>

definition is_margin :: "scalar \<Rightarrow> bool" where
  "is_margin c \<longleftrightarrow> c = 32 \<or> c = 9"

text \<open>One line's start: up to \<open>n\<close> margin characters go. A chunk is stripped at each of its line starts.\<close>

fun strip_margin :: "nat \<Rightarrow> chars \<Rightarrow> chars" where
  "strip_margin (Suc n) (c # cs) = (if is_margin c then strip_margin n cs else c # cs)"
| "strip_margin n cs = cs"

lemma strip_margin_length: "length (strip_margin n cs) \<le> length cs"
  by (induction n cs rule: strip_margin.induct) auto

function dedent_chunk :: "chars \<Rightarrow> nat \<Rightarrow> bool \<Rightarrow> chars \<times> bool" where
  "dedent_chunk [] column at_line_start = ([], at_line_start)"
| "dedent_chunk (c # cs) column at_line_start =
     (if at_line_start \<and> c \<noteq> newline then
        (case strip_margin column (c # cs) of
           [] \<Rightarrow> ([], False)
         | d # ds \<Rightarrow> let (out, e) = dedent_chunk ds column (d = newline) in (d # out, e))
      else let (out, e) = dedent_chunk cs column (c = newline \<or> at_line_start) in (c # out, e))"
  by pat_completeness auto
termination
proof (relation "measure (\<lambda>(cs, _, _). length cs)")
  fix c cs column at d and ds :: chars
  assume "strip_margin column (c # cs) = d # ds"
  with strip_margin_length [of column "c # cs"] show "((ds, column, d = newline), c # cs, column, at) \<in> measure (\<lambda>(cs, _, _). length cs)"
    by simp
qed auto

text \<open>The pieces of a literal in order, each text chunk rewritten in the token list.\<close>

fun dedent_pieces :: "nat \<Rightarrow> piece list \<Rightarrow> token list \<Rightarrow> bool \<Rightarrow> token list \<times> bool" where
  "dedent_pieces column [] toks at = (toks, at)"
| "dedent_pieces column (PcInterp # ps) toks at = dedent_pieces column ps toks False"
| "dedent_pieces column (PcText i # ps) toks at =
     (case get_at toks i of
        Some t \<Rightarrow> (case tk_tok t of
            StrText x \<Rightarrow> let (x', at') = dedent_chunk x column at
                         in dedent_pieces column ps (toks[i := t\<lparr>tk_tok := StrText x'\<rparr>]) at'
          | _ \<Rightarrow> dedent_pieces column ps toks at)
      | None \<Rightarrow> dedent_pieces column ps toks at)"

text \<open>The first content line whose margin is short, or differs from the closing delimiter's.\<close>

fun find_margin_fault :: "chars \<Rightarrow> nat \<Rightarrow> chars \<Rightarrow> nat \<Rightarrow> nat list \<Rightarrow> (string \<times> span) option" where
  "find_margin_fault src column margin closing_line [] = None"
| "find_margin_fault src column margin closing_line (start # starts) =
     (if closing_line \<le> start then None
      else let line = from_byte start src; run = length (takeWhile is_margin line); after = drop run line
           in if after = [] \<or> hd after = newline \<or> hd after = carriage_return
              then find_margin_fault src column margin closing_line starts
              else if run < column then Some (E_SHORT_MARGIN, mk_span start (if run = 0 then start + 1 else start + run))
              else if take column line \<noteq> margin then Some (E_MIXED_MARGIN, mk_span start (start + column))
              else find_margin_fault src column margin closing_line starts)"

definition margin_fault :: "nat \<Rightarrow> chars \<Rightarrow> nat \<Rightarrow> lexer \<Rightarrow> lexer" where
  "margin_fault column margin closing_line s =
     (let s1 = upd_frame (\<lambda>f. f\<lparr>sf_line_starts := []\<rparr>) s
      in case find_margin_fault (lx_src s) column margin closing_line (sf_line_starts (frame s)) of
           Some (code, sp) \<Rightarrow> lex_error code sp s1
         | None \<Rightarrow> s1)"

text \<open>The text of the current line before the cursor.\<close>

definition line_before :: "lexer \<Rightarrow> chars" where
  "line_before s = rev (takeWhile (\<lambda>c. c \<noteq> newline) (rev (consumed (lx_src s) (lx_rest s))))"

definition drop_margin_end :: "nat \<Rightarrow> chars \<Rightarrow> chars" where
  "drop_margin_end column p = rev (strip_margin column (rev p))"

definition apply_dedent :: "lexer \<Rightarrow> lexer" where
  "apply_dedent s =
     (let margin = line_before s; column = nbytes margin; line_start = pos s - column
      in if \<not> list_all is_margin margin
         then upd_frame (\<lambda>f. f\<lparr>sf_line_starts := []\<rparr>) (lex_error E_DELIMITER_SHARES_LINE (mk_span (pos s) (pos s + 3)) s)
         else if column = 0 then upd_frame (\<lambda>f. f\<lparr>sf_line_starts := []\<rparr>) s
         else let s1 = upd_frame (\<lambda>f. f\<lparr>sf_pending := drop_margin_end column (sf_pending f)\<rparr>) s;
                  f = frame s1;
                  body_is_line_start = (sf_line_starts f \<noteq> [] \<and> hd (sf_line_starts f) = sf_body_start f);
                  s2 = margin_fault column margin line_start s1;
                  (toks, at) = dedent_pieces column (sf_pieces f) (lx_tokens s2) body_is_line_start
              in upd_frame (\<lambda>f. f\<lparr>sf_pending := fst (dedent_chunk (sf_pending f) column at)\<rparr>) (s2\<lparr>lx_tokens := toks\<rparr>))"

section \<open>Bodies\<close>

definition closing_length :: "str_kind \<Rightarrow> nat" where
  "closing_length k = (case k of SkMultiline \<Rightarrow> 3 | SkRaw hashes \<Rightarrow> 1 + hashes | _ \<Rightarrow> 1)"

definition closes :: "str_kind \<Rightarrow> chars \<Rightarrow> bool" where
  "closes k r =
     (case k of
        SkMultiline \<Rightarrow> starts_with [dquote, dquote, dquote] r
      | SkRaw hashes \<Rightarrow> starts_with (dquote # replicate hashes (cp CHR ''#'')) r
      | _ \<Rightarrow> starts_with [dquote] r)"

definition is_generalized :: "str_kind \<Rightarrow> bool" where
  "is_generalized k \<longleftrightarrow> (case k of SkGeneralized _ \<Rightarrow> True | _ \<Rightarrow> False)"

definition pop_ctx :: "lexer \<Rightarrow> lexer" where
  "pop_ctx s = s\<lparr>lx_ctx := tl (lx_ctx s)\<rparr>"

definition close_string :: "str_kind \<Rightarrow> lexer \<Rightarrow> lexer" where
  "close_string k s =
     (let s1 = flush_text (if k = SkMultiline then apply_dedent s else s)
      in pop_ctx (emit StrEnd (drop (closing_length k) (lx_rest s1)) s1))"

definition abandon_string :: "lexer \<Rightarrow> lexer" where
  "abandon_string s = (let s1 = flush_text s in pop_ctx (push StrEnd (empty_span (pos s1)) s1))"

definition open_interpolation :: "str_kind \<Rightarrow> lexer \<Rightarrow> lexer" where
  "open_interpolation k s =
     (let s1 = flush_text s;
          s2 = emit InterpStart (tl (lx_rest s1)) s1;
          s3 = (if k = SkMultiline then upd_frame (\<lambda>f. f\<lparr>sf_pieces := sf_pieces f @ [PcInterp]\<rparr>) s2 else s2)
      in push_ctx CxInterp s3)"

text \<open>One round of the loop over a body: the scan goes on (\<open>None\<close>) or returns, at the end of the input
  with \<open>False\<close>.\<close>

definition body_char :: "str_kind \<Rightarrow> lexer \<Rightarrow> bool option \<times> lexer" where
  "body_char k s =
     (case lx_rest s of
        [] \<Rightarrow> (Some False, s)
      | c # cs \<Rightarrow>
          if closes k (c # cs) then (Some True, close_string k s)
          else if \<not> interpolates k then
            (if c = newline \<and> is_generalized k
             then (Some True, abandon_string (lex_error E_UNTERMINATED_RAW (mk_span (pos s) (pos s + 1)) s))
             else (None, goto cs (text_push c s)))
          else if starts_with (ascii ''{{'') (c # cs) then (None, skip 2 (text_push c s))
          else if starts_with (ascii ''}}'') (c # cs) then (None, skip 2 (text_push c s))
          else if c = cp CHR ''{'' then (Some True, open_interpolation k s)
          else if c = cp CHR ''}'' then (None, goto cs (lex_error E_BARE_BRACE_IN_STRING (mk_span (pos s) (pos s + 1)) s))
          else if c = backslash then (None, scan_escape s)
          else if c = newline \<and> k = SkPlain then
            (Some True, abandon_string (lex_error E_UNTERMINATED_STRING
               (case open_plain_string (pos s) s of Some sp \<Rightarrow> sp | None \<Rightarrow> mk_span (pos s) (pos s + 1)) s))
          else if c = newline then
            (let s1 = goto cs (text_push c s)
             in (None, upd_frame (\<lambda>f. f\<lparr>sf_line_starts := sf_line_starts f @ [pos s1]\<rparr>) s1))
          else (None, goto cs (text_push c s)))"

end
