(* ===== verification/Lexer.thy ===== *)
theory Lexer
  imports LexString "HOL-Library.Sublist"
begin

text \<open>
  The lexer of \<open>lex.rs\<close> itself: the loop over a string body, format specs, trivia, tokens, the run over a
  whole source and what the REPL asks of it. Every loop of the source is a function here, so each carries
  the proof that it ends.
\<close>

section \<open>What the plumbing leaves alone\<close>

lemma push_simps [simp]:
  "lx_src (push t sp s) = lx_src s" "lx_rest (push t sp s) = lx_rest s" "lx_ctx (push t sp s) = lx_ctx s"
  "lx_tokens (push t sp s) = lx_tokens s @ [\<lparr>tk_tok = t, tk_span = sp\<rparr>]" "lx_errors (push t sp s) = lx_errors s"
  by (simp_all add: push_def)

lemma goto_simps [simp]:
  "lx_src (goto r s) = lx_src s" "lx_rest (goto r s) = r" "lx_ctx (goto r s) = lx_ctx s"
  "lx_tokens (goto r s) = lx_tokens s"
  by (simp_all add: goto_def)

lemma emit_simps [simp]:
  "lx_src (emit t r s) = lx_src s" "lx_rest (emit t r s) = r" "lx_ctx (emit t r s) = lx_ctx s"
  "lx_tokens (emit t r s) = lx_tokens s @ [\<lparr>tk_tok = t, tk_span = mk_span (pos s) (offset s r)\<rparr>]"
  by (simp_all add: emit_def)

lemma lex_error_simps [simp]:
  "lx_src (lex_error c sp s) = lx_src s" "lx_rest (lex_error c sp s) = lx_rest s" "lx_ctx (lex_error c sp s) = lx_ctx s"
  "lx_tokens (lex_error c sp s) = lx_tokens s"
  by (simp_all add: lex_error_def)

lemma upd_frame_simps [simp]:
  "lx_src (upd_frame g s) = lx_src s" "lx_rest (upd_frame g s) = lx_rest s" "lx_tokens (upd_frame g s) = lx_tokens s"
  "length (lx_ctx (upd_frame g s)) = length (lx_ctx s)"
  by (auto simp: upd_frame_def split: list.split ctx.split)

lemma ctx_move_simps [simp]:
  "lx_src (push_ctx c s) = lx_src s" "lx_rest (push_ctx c s) = lx_rest s" "lx_tokens (push_ctx c s) = lx_tokens s"
  "lx_ctx (push_ctx c s) = c # lx_ctx s"
  "lx_src (pop_ctx s) = lx_src s" "lx_rest (pop_ctx s) = lx_rest s" "lx_tokens (pop_ctx s) = lx_tokens s"
  "lx_ctx (pop_ctx s) = tl (lx_ctx s)"
  by (simp_all add: push_ctx_def pop_ctx_def)

lemma skip_simps [simp]: "lx_src (skip n s) = lx_src s" "lx_rest (skip n s) = drop n (lx_rest s)" "lx_ctx (skip n s) = lx_ctx s"
  "lx_tokens (skip n s) = lx_tokens s"
  by (simp_all add: skip_def)

lemma text_push_simps [simp]:
  "lx_rest (push_escaped at c s) = lx_rest s" "length (lx_ctx (push_escaped at c s)) = length (lx_ctx s)"
  "lx_rest (text_push c s) = lx_rest s" "length (lx_ctx (text_push c s)) = length (lx_ctx s)"
  by (simp_all add: push_escaped_def text_push_def)

lemma flush_text_simps [simp]: "lx_rest (flush_text s) = lx_rest s" "length (lx_ctx (flush_text s)) = length (lx_ctx s)"
  by (simp_all add: flush_text_def Let_def)

lemma apply_dedent_simps [simp]: "lx_rest (apply_dedent s) = lx_rest s" "length (lx_ctx (apply_dedent s)) = length (lx_ctx s)"
  by (simp_all add: apply_dedent_def margin_fault_def Let_def case_prod_beta split: option.split)

lemma pop_delimiter_simps [simp]: "lx_rest (pop_delimiter c s) = lx_rest s" "lx_src (pop_delimiter c s) = lx_src s"
  "lx_tokens (pop_delimiter c s) = lx_tokens s" "length (lx_ctx (pop_delimiter c s)) \<le> length (lx_ctx s)"
  "length (lx_ctx (pop_delimiter c s)) \<le> Suc (length (lx_ctx s))" "pop_delimiter c (goto r s) = goto r (pop_delimiter c s)"
  by (auto simp: pop_delimiter_def goto_def)

section \<open>String bodies\<close>

lemma scan_escape_ctx [simp]: "length (lx_ctx (scan_escape s)) = length (lx_ctx s)"
  by (simp add: scan_escape_def scan_hex_escape_def scan_unicode_escape_def Let_def case_prod_beta
      split: list.split option.split)

lemma scan_escape_rest: "lx_rest s \<noteq> [] \<Longrightarrow> length (lx_rest (scan_escape s)) < length (lx_rest s)"
proof -
  assume r: "lx_rest s \<noteq> []"
  have h: "length (snd (hex_escape (tl (tl (lx_rest s))))) \<le> length (tl (tl (lx_rest s)))" by (rule hex_escape_length)
  have u: "length (dropWhile is_hex (tl (tl (tl (lx_rest s))))) \<le> length (tl (tl (tl (lx_rest s))))" by (rule length_dropWhile_le)
  from r h u show ?thesis
    by (cases "lx_rest s"; cases "tl (lx_rest s)")
      (auto simp: scan_escape_def scan_hex_escape_def scan_unicode_escape_def Let_def case_prod_beta split: option.split)
qed

lemma starts_with_length: "starts_with p xs \<Longrightarrow> length p \<le> length xs"
  using length_take [of "length p" xs] unfolding starts_with_def by simp

lemma starts_with_ne: "starts_with (x # p) r \<Longrightarrow> r \<noteq> []"
  by (auto simp: starts_with_def)

lemma closing_length_pos: "0 < closing_length k"
  by (simp add: closing_length_def split: str_kind.split)

lemma body_char_goes_on:
  "body_char k s = (None, s') \<Longrightarrow> length (lx_rest s') < length (lx_rest s) \<and> length (lx_ctx s') = length (lx_ctx s)"
  using scan_escape_rest [of s]
  by (cases "lx_rest s") (auto simp: body_char_def Let_def split: if_splits)

function string_body :: "str_kind \<Rightarrow> lexer \<Rightarrow> bool \<times> lexer" where
  "string_body k s = (case body_char k s of (Some b, s') \<Rightarrow> (b, s') | (None, s') \<Rightarrow> string_body k s')"
  by pat_completeness auto
termination
  by (relation "measure (\<lambda>(k, s). length (lx_rest s))") (auto dest: body_char_goes_on [OF sym])

declare string_body.simps [simp del]

definition scan_string_body :: "lexer \<Rightarrow> bool \<times> lexer" where
  "scan_string_body s = string_body (sf_kind (frame s)) s"

text \<open>What is left of a run, in the weight that every round of the whole run reduces.\<close>

definition weight :: "lexer \<Rightarrow> nat" where
  "weight s = 2 * length (lx_rest s) + length (lx_ctx s)"

lemma body_char_returns:
  "body_char k s = (Some True, s') \<Longrightarrow> lx_ctx s \<noteq> [] \<Longrightarrow> weight s' < weight s"
  using closing_length_pos [of k]
  by (cases "lx_rest s") (auto simp: body_char_def Let_def weight_def close_string_def abandon_string_def
      open_interpolation_def split: if_splits)

lemma string_body_weight: "string_body k s = (True, s') \<Longrightarrow> lx_ctx s \<noteq> [] \<Longrightarrow> weight s' < weight s"
proof (induction k s rule: string_body.induct)
  case (1 k s)
  show ?case
  proof (cases "body_char k s")
    case (Pair v s1)
    show ?thesis
    proof (cases v)
      case None
      with Pair body_char_goes_on [of k s s1] have "length (lx_rest s1) < length (lx_rest s)" "length (lx_ctx s1) = length (lx_ctx s)" by auto
      moreover from this(2) 1(3) have "lx_ctx s1 \<noteq> []" by (metis length_0_conv)
      then have "weight s' < weight s1" using 1 Pair None by (simp add: string_body.simps [of k s])
      ultimately show ?thesis by (simp add: weight_def)
    next
      case (Some b)
      with 1 Pair body_char_returns [of k s s'] show ?thesis by (simp add: string_body.simps [of k s])
    qed
  qed
qed

section \<open>Format specs\<close>

definition fmt_char :: "scalar \<Rightarrow> bool" where
  "fmt_char c \<longleftrightarrow> c \<noteq> cp CHR ''}'' \<and> c \<noteq> cp CHR ''{''"

definition scan_format_spec :: "lexer \<Rightarrow> bool \<times> lexer" where
  "scan_format_spec s =
     (let r = dropWhile fmt_char (lx_rest s); x = takeWhile fmt_char (lx_rest s);
          s1 = (if x = [] then s else emit (FmtText x) r s)
      in case r of
           [] \<Rightarrow> (False, s1)
         | c # cs \<Rightarrow>
             if c = cp CHR ''}'' then (True, emit InterpEnd cs (pop_ctx s1))
             else (True, push_ctx CxInterp (emit InterpStart cs s1)))"

lemma scan_format_weight: "scan_format_spec s = (True, s') \<Longrightarrow> lx_ctx s \<noteq> [] \<Longrightarrow> weight s' < weight s"
  using length_dropWhile_le [of fmt_char "lx_rest s"]
  by (auto simp: scan_format_spec_def Let_def weight_def split: list.splits if_splits)

section \<open>Trivia\<close>

definition inline_space :: "scalar \<Rightarrow> bool" where
  "inline_space c \<longleftrightarrow> c \<in> set [32, 9, 13, 11, 12]"

text \<open>One round of the loop over trivia; \<open>None\<close> at a token or at the end of the input.\<close>

definition trivium :: "unicode \<Rightarrow> lexer \<Rightarrow> lexer option" where
  "trivium u s =
     (case lx_rest s of
        [] \<Rightarrow> None
      | c # cs \<Rightarrow>
          if c = newline then
            (case open_plain_string (pos s) s of
               Some sp \<Rightarrow> Some (unwind_plain_string (lex_error E_UNTERMINATED_STRING sp s))
             | None \<Rightarrow> Some (insert_terminator u (pos s) (goto cs s)))
          else if inline_space c then Some (goto cs s)
          else if starts_with (ascii ''//'') (c # cs) then Some (goto (dropWhile (\<lambda>c. c \<noteq> newline) (c # cs)) s)
          else None)"

lemma insert_terminator_simps [simp]: "lx_rest (insert_terminator u at s) = lx_rest s" "lx_ctx (insert_terminator u at s) = lx_ctx s"
  "lx_src (insert_terminator u at s) = lx_src s"
  by (simp_all add: insert_terminator_def)

lemma unwind_ctx_simps [simp]: "lx_rest (unwind_ctx cs s) = lx_rest s" "lx_src (unwind_ctx cs s) = lx_src s"
  by (induction cs s rule: unwind_ctx.induct) (auto split: ctx.split)

lemma unwind_ctx_length: "length (lx_ctx (unwind_ctx cs s)) \<le> length cs - 1"
  by (induction cs s rule: unwind_ctx.induct) (auto split: ctx.split)

lemma starts_slashes: "starts_with (ascii ''//'') (c # cs) \<Longrightarrow> c = 47"
  by (simp add: starts_with_def ascii_def)

lemma trivium_shrinks: "trivium u s = Some s' \<Longrightarrow> length (lx_rest s') + length (lx_ctx s') < length (lx_rest s) + length (lx_ctx s) \<and> length (lx_rest s') \<le> length (lx_rest s) \<and> length (lx_ctx s') \<le> length (lx_ctx s)"
proof (cases "lx_rest s")
  case (Cons c cs)
  assume t: "trivium u s = Some s'"
  have d: "length (dropWhile (\<lambda>c. c \<noteq> newline) cs) \<le> length cs" by (rule length_dropWhile_le)
  have o: "lx_ctx s \<noteq> []" if "open_plain_string (pos s) s = Some sp" for sp
    using that by (auto simp: open_plain_string_def)
  have w: "length (lx_ctx (unwind_plain_string (lex_error E_UNTERMINATED_STRING sp s))) \<le> length (lx_ctx s) - 1" for sp
    using unwind_ctx_length [of "lx_ctx s" "lex_error E_UNTERMINATED_STRING sp s"] by (simp add: unwind_plain_string_def)
  show ?thesis
  proof (cases "c = newline")
    case True
    with t Cons show ?thesis
    proof (cases "open_plain_string (pos s) s")
      case (Some sp)
      with True t Cons have "s' = unwind_plain_string (lex_error E_UNTERMINATED_STRING sp s)" by (simp add: trivium_def)
      moreover have "lx_rest s' = lx_rest s" using calculation by (simp add: unwind_plain_string_def)
      ultimately show ?thesis using w [of sp] o [OF Some] by (cases "lx_ctx s") simp_all
    qed (auto simp: trivium_def)
  next
    case False
    with t Cons d show ?thesis by (auto simp: trivium_def dest: starts_slashes split: if_splits)
  qed
qed (simp add: trivium_def)

function trivia :: "unicode \<Rightarrow> lexer \<Rightarrow> lexer" where
  "trivia u s = (case trivium u s of None \<Rightarrow> s | Some s' \<Rightarrow> trivia u s')"
  by pat_completeness auto
termination
  by (relation "measure (\<lambda>(u, s). length (lx_rest s) + length (lx_ctx s))") (auto dest: trivium_shrinks)

declare trivia.simps [simp del]

section \<open>Tokens\<close>

text \<open>The operators of two and three characters, in the order the source tries them, and the single
  characters that are tokens by themselves.\<close>

definition operators :: "punct list" where
  "operators = [ShlEq, ShrEq, Spaceship, DotDotEq, Shl, Shr, Le, Ge, EqEq, Ne, AndAnd, OrOr, PlusEq, MinusEq,
     StarEq, SlashEq, PercentEq, AmpEq, PipeEq, CaretEq, Arrow, FatArrow, DotDot]"

definition single_operators :: "punct list" where
  "single_operators = [Bang, Plus, Minus, Star, Slash, Percent, Amp, Caret, Pipe, Lt, Gt, Assign, Dot, Question, Comma, At]"

definition spelled :: "punct \<Rightarrow> chars" where
  "spelled p = ascii (punctuation_spelling p)"

definition begins_no_token :: "unicode \<Rightarrow> chars \<Rightarrow> bool" where
  "begins_no_token u r =
     (case r of
        [] \<Rightarrow> False
      | c # _ \<Rightarrow>
          if whitespace u c \<or> is_xid_start u c \<or> c = cp CHR ''_'' \<or> is_ascii_digit c \<or> c = 0xFEFF then False
          else if c = cp CHR ''#'' then \<not> (starts_with (ascii ''#['') r \<or> starts_with (ascii ''#!['') r)
          else c \<notin> set (dquote # squote # ascii ''()[]{}:!+-*/%&^|<>=.?,@;''))"

fun stray_run :: "unicode \<Rightarrow> chars \<Rightarrow> chars" where
  "stray_run u [] = []"
| "stray_run u (c # cs) = (if begins_no_token u (c # cs) then stray_run u cs else c # cs)"

definition scan_colon :: "chars \<Rightarrow> lexer \<Rightarrow> lexer" where
  "scan_colon cs s =
     (if top_is CxInterp s then emit FmtStart cs (push_ctx CxFmt (pop_ctx s)) else emit (Punct Colon) cs s)"

text \<open>A character that starts no longer token; \<open>cs\<close> is the text after it.\<close>

definition scan_single :: "unicode \<Rightarrow> scalar \<Rightarrow> chars \<Rightarrow> lexer \<Rightarrow> lexer" where
  "scan_single u c cs s =
     (let sp = mk_span (pos s) (offset s cs) in
      if c = cp CHR ''('' then emit (Punct LParen) cs (push_ctx CxParen s)
      else if c = cp CHR ''['' then emit (Punct LBracket) cs (push_ctx CxBracket s)
      else if c = cp CHR ''{'' then emit (Punct LBrace) cs (push_ctx CxBrace s)
      else if c = cp CHR '')'' then emit (Punct RParen) cs (pop_delimiter CxParen s)
      else if c = cp CHR '']'' then close_bracket sp (goto cs s)
      else if c = cp CHR ''}'' then close_brace sp (goto cs s)
      else if c = cp CHR '':'' then scan_colon cs s
      else if c = cp CHR '';'' then emit (Term True) cs s
      else if c = 0xFEFF then emit ErrorTok cs (lex_error E_STRAY_CHARACTER sp s)
      else (case find (\<lambda>p. spelled p = [c]) single_operators of
              Some p \<Rightarrow> emit (Punct p) cs s
            | None \<Rightarrow>
                let r = stray_run u cs in
                emit ErrorTok r (lex_error E_STRAY_CHARACTER (mk_span (pos s) (offset s r)) s)))"

definition scan_token :: "unicode \<Rightarrow> lexer \<Rightarrow> lexer" where
  "scan_token u s =
     (case lx_rest s of
        [] \<Rightarrow> s
      | c # cs \<Rightarrow>
          if is_xid_start u c \<or> c = cp CHR ''_'' then scan_word u s
          else if is_ascii_digit c then scan_number s
          else if c = dquote then open_string u None (c # cs) s
          else if c = squote then scan_char_literal s
          else if starts_with (spelled HashBangBracket) (c # cs)
            then emit (Punct HashBangBracket) (drop 3 (c # cs)) (push_ctx CxAttrBracket s)
          else if starts_with (spelled HashBracket) (c # cs)
            then emit (Punct HashBracket) (drop 2 (c # cs)) (push_ctx CxAttrBracket s)
          else (case find (\<lambda>p. starts_with (spelled p) (c # cs)) operators of
                  Some p \<Rightarrow> emit (Punct p) (drop (length (spelled p)) (c # cs)) s
                | None \<Rightarrow> scan_single u c cs s))"

definition scan_normal :: "unicode \<Rightarrow> lexer \<Rightarrow> bool \<times> lexer" where
  "scan_normal u s = (let s1 = trivia u s in if lx_rest s1 = [] then (False, s1) else (True, scan_token u s1))"

section \<open>The run\<close>

definition lex_round :: "unicode \<Rightarrow> lexer \<Rightarrow> bool \<times> lexer" where
  "lex_round u s =
     (case lx_ctx s of
        CxStr f # _ \<Rightarrow> scan_string_body s
      | CxFmt # _ \<Rightarrow> scan_format_spec s
      | _ \<Rightarrow> scan_normal u s)"

lemma enter_string_simps [simp]: "lx_src (enter_string k s) = lx_src s" "lx_rest (enter_string k s) = lx_rest s"
  "lx_tokens (enter_string k s) = lx_tokens s" "length (lx_ctx (enter_string k s)) = Suc (length (lx_ctx s))"
  by (simp_all add: enter_string_def report_depth_def Let_def)

text \<open>A scanner of a token moves the cursor on and opens at most one context.\<close>

definition advances :: "lexer \<Rightarrow> lexer \<Rightarrow> bool" where
  "advances s s' \<longleftrightarrow> length (lx_rest s') < length (lx_rest s) \<and> length (lx_ctx s') \<le> Suc (length (lx_ctx s))"

lemma advances_weight: "advances s s' \<Longrightarrow> weight s' < weight s"
  by (simp add: advances_def weight_def)

lemma open_string_advances: "length r \<le> length (lx_rest s) \<Longrightarrow> r \<noteq> [] \<Longrightarrow> advances s (open_string u g r s)"
proof -
  assume r: "length r \<le> length (lx_rest s)" "r \<noteq> []"
  have d: "length r' < length x" if "drop_first_newline x = Some r'" for r' x
    using that by (cases x) (auto simp: drop_first_newline_def Let_def starts_with_def split: if_splits)
  show ?thesis using r d [of "drop 3 r"] d [of "tl r"]
    by (cases r) (fastforce simp: open_string_def advances_def Let_def drop_Suc split: option.split)+
qed

lemma open_raw_advances: "length r < length (lx_rest s) \<Longrightarrow> advances s (open_raw_string r s)"
  by (auto simp: open_raw_string_def advances_def Let_def)

lemma scan_word_advances:
  assumes "lx_rest s = c # cs" and "is_xid_continue u c"
  shows "advances s (scan_word u s)"
proof -
  have r: "length (dropWhile (is_xid_continue u) (lx_rest s)) < length (lx_rest s)"
    using assms length_dropWhile_le [of "is_xid_continue u" cs] by simp
  have "advances s (open_string u g (dropWhile (is_xid_continue u) (lx_rest s)) s)"
    if "starts_with [dquote] (dropWhile (is_xid_continue u) (lx_rest s))" for g
    by (rule open_string_advances [OF less_imp_le [OF r] starts_with_ne [OF that]])
  with r open_raw_advances [OF r] show ?thesis
    by (simp add: scan_word_def Let_def advances_def [of s "emit _ _ s"])
qed

lemma eat_length: "length (eat_decimal_run r) \<le> length r" "eat_fraction r = Some r' \<Longrightarrow> length r' \<le> length r"
  "eat_exponent r = Some r' \<Longrightarrow> length r' \<le> length r"
proof -
  show a: "length (eat_decimal_run r) \<le> length r" for r unfolding eat_decimal_run_def by (rule length_dropWhile_le)
  show "eat_fraction r = Some r' \<Longrightarrow> length r' \<le> length r"
    using a [of "tl r"] by (auto simp: eat_fraction_def split: list.splits if_splits)
  show "eat_exponent r = Some r' \<Longrightarrow> length r' \<le> length r"
    using a [of "tl r"] a [of "tl (tl r)"]
    by (auto simp: eat_exponent_def Let_def split: list.splits if_splits)
qed

lemma scan_number_advances:
  assumes "lx_rest s = c # cs" and "is_ascii_digit c"
  shows "advances s (scan_number s)"
proof (cases "based (lx_rest s)")
  case None
  let ?r1 = "eat_decimal_run (lx_rest s)"
  let ?r2 = "case eat_fraction ?r1 of None \<Rightarrow> ?r1 | Some r' \<Rightarrow> r'"
  let ?r3 = "case eat_exponent ?r2 of None \<Rightarrow> ?r2 | Some r' \<Rightarrow> r'"
  have "length ?r1 < length (lx_rest s)"
    using assms length_dropWhile_le [of decimal_char cs] by (simp add: eat_decimal_run_def decimal_char_def)
  moreover have "length ?r2 \<le> length ?r1" by (auto split: option.split dest: eat_length(2))
  moreover have "length ?r3 \<le> length ?r2" using eat_length(3) by (cases "eat_exponent ?r2") auto
  ultimately show ?thesis using None by (simp add: scan_number_def scan_decimal_def advances_def Let_def)
next
  case (Some radix)
  have "length (dropWhile P (drop 2 (lx_rest s))) \<le> length (lx_rest s) - 2" for P
    using length_dropWhile_le [of P "drop 2 (lx_rest s)"] by simp
  then have d: "length (dropWhile P (drop 2 (lx_rest s))) < length (lx_rest s)" for P
    using assms(1) by (metis Suc_le_lessD diff_Suc_Suc diff_le_self le_trans length_Cons less_Suc_eq_le numeral_2_eq_2)
  from Some show ?thesis by (simp add: scan_number_def scan_based_def advances_def Let_def d)
qed

lemma char_body_suffix: "suffix (snd (char_body s r n x b)) r"
proof (induction s r n x b rule: char_body.induct)
  case (1 s r n x b)
  show ?case
  proof (cases r)
    case (Cons c cs)
    obtain e r' where e: "scan_char_escape s r = (e, r')" by (cases "scan_char_escape s r")
    have r': "suffix r' cs" using scan_char_escape_suffix [of s r] e Cons by simp
    show ?thesis
      using 1 Cons e by (cases e) (auto simp: char_body.simps [of s "c # cs"] intro!: suffix_ConsI intro: suffix_order.trans [OF _ r'])
  qed (simp add: char_body.simps)
qed

lemma scan_char_literal_advances: "lx_rest s = c # cs \<Longrightarrow> advances s (scan_char_literal s)"
  using suffix_length_le [OF char_body_suffix [of s cs 0 None None]]
  by (simp add: scan_char_literal_def advances_def Let_def case_prod_beta split: option.split char_escape_error.split)

lemma stray_run_suffix: "suffix (stray_run u r) r"
  by (induction u r rule: stray_run.induct) (auto intro: suffix_ConsI)

lemma pred_le_Suc [simp]: "n - Suc 0 \<le> Suc n"
  by simp

lemma scan_single_advances: "lx_rest s = c # cs \<Longrightarrow> advances s (scan_single u c cs s)"
  using suffix_length_le [OF stray_run_suffix [of u cs]]
  by (simp add: scan_single_def advances_def Let_def close_bracket_def close_brace_def scan_colon_def split: option.split)

lemma operator_length: "p \<in> set operators \<Longrightarrow> 0 < length (spelled p)"
  by (auto simp: operators_def spelled_def ascii_def punctuation_spelling_def)

lemma scan_token_advances:
  assumes "lx_rest s \<noteq> []"
  shows "advances s (scan_token u s)"
proof (cases "lx_rest s")
  case (Cons c cs)
  have w: "is_xid_start u c \<or> c = cp CHR ''_'' \<Longrightarrow> is_xid_continue u c" by (auto simp: is_xid_start_def is_xid_continue_def)
  have "advances s (emit (Punct p) (drop (length (spelled p)) (c # cs)) s)"
    if "find (\<lambda>p. starts_with (spelled p) (c # cs)) operators = Some p" for p
    using operator_length [of p] find_SomeD [OF that] Cons by (auto simp: advances_def)
  with Cons show ?thesis
    using w scan_word_advances [OF Cons] scan_number_advances [OF Cons] open_string_advances [of "c # cs" s u None]
      scan_char_literal_advances [OF Cons] scan_single_advances [OF Cons, of u]
    by (auto simp: scan_token_def advances_def [of s "emit _ _ (push_ctx _ s)"] split: option.split)
qed (use assms in simp)

lemma trivia_weight: "weight (trivia u s) \<le> weight s"
proof (induction u s rule: trivia.induct)
  case (1 u s)
  show ?case
  proof (cases "trivium u s")
    case (Some s')
    with trivium_shrinks [of u s s'] have "weight s' \<le> weight s" by (simp add: weight_def)
    with 1 [OF Some] Some show ?thesis by (simp add: trivia.simps [of u s])
  qed (simp add: trivia.simps [of u s])
qed

lemma lex_round_weight: "lex_round u s = (True, s') \<Longrightarrow> weight s' < weight s"
proof -
  assume r: "lex_round u s = (True, s')"
  have n: "weight s' < weight s" if "scan_normal u s = (True, s')"
    using that scan_token_advances [of "trivia u s" u] advances_weight trivia_weight [of u s]
    by (fastforce simp: scan_normal_def Let_def split: if_splits)
  with r string_body_weight [of _ s s'] scan_format_weight [of s s'] show ?thesis
    by (auto simp: lex_round_def scan_string_body_def split: list.splits ctx.splits)
qed

function run :: "unicode \<Rightarrow> lexer \<Rightarrow> lexer" where
  "run u s = (case lex_round u s of (True, s') \<Rightarrow> run u s' | (False, s') \<Rightarrow> s')"
  by pat_completeness auto
termination
  by (relation "measure (\<lambda>(u, s). weight s)") (auto dest: lex_round_weight [OF sym])

declare run.simps [simp del]

fun close_ctxs :: "ctx list \<Rightarrow> lexer \<Rightarrow> lexer" where
  "close_ctxs [] s = s\<lparr>lx_ctx := []\<rparr>"
| "close_ctxs (c # cs) s =
     (let e = nbytes (lx_src s) in
      case c of
        CxStr f \<Rightarrow> close_ctxs cs (push StrEnd (empty_span e)
                     (lex_error E_UNTERMINATED_STRING (mk_span (sf_body_start f - 1) e) s))
      | CxInterp \<Rightarrow> close_ctxs cs (push InterpEnd (empty_span e) (lex_error E_UNTERMINATED_INTERP (empty_span e) s))
      | CxFmt \<Rightarrow> close_ctxs cs (push InterpEnd (empty_span e) (lex_error E_UNTERMINATED_INTERP (empty_span e) s))
      | _ \<Rightarrow> close_ctxs cs s)"

definition close_unterminated :: "lexer \<Rightarrow> lexer" where
  "close_unterminated s = close_ctxs (lx_ctx s) (s\<lparr>lx_open_at_eof := lx_ctx s \<noteq> []\<rparr>)"

text \<open>A byte order mark at the start is stripped, and an interpreter line at offset 0 is trivia.\<close>

definition file_start :: "chars \<Rightarrow> chars" where
  "file_start src =
     (if starts_with [0xFEFF] src then tl src
      else if starts_with (ascii ''#!'') src \<and> \<not> starts_with (ascii ''#!['') src then dropWhile (\<lambda>c. c \<noteq> newline) src
      else src)"

definition new_lexer :: "chars \<Rightarrow> lexer" where
  "new_lexer src =
     \<lparr>lx_src = src, lx_rest = src, lx_tokens = [], lx_ctx = [], lx_errors = [], lx_deferred = [], lx_max_str_depth = 0,
      lx_depth_reported = False, lx_attr_close = None, lx_open_at_eof = False\<rparr>"

text \<open>The result keeps the whole state; \<open>Lexed\<close> is its tokens, diagnostics, depth and open flag.\<close>

definition lex :: "unicode \<Rightarrow> chars \<Rightarrow> lexer" where
  "lex u src = insert_terminator_at_eof (close_unterminated (run u (goto (file_start src) (new_lexer src))))"

definition repl_input_complete :: "unicode \<Rightarrow> chars \<Rightarrow> bool" where
  "repl_input_complete u src =
     (let l = lex u src in
      if lx_open_at_eof l then False
      else lx_tokens l = [] \<or> (\<exists>e. tk_tok (last (lx_tokens l)) = Term e))"

text \<open>Bytes that are not UTF-8 are refused at the first of them; the decoder is \<open>str::from_utf8\<close>, with the
  length of the valid part as its error.\<close>

definition lex_bytes :: "unicode \<Rightarrow> ('b list \<Rightarrow> nat + chars) \<Rightarrow> 'b list \<Rightarrow> lexer" where
  "lex_bytes u from_utf8 bs =
     (case from_utf8 bs of
        Inr src \<Rightarrow> lex u src
      | Inl at \<Rightarrow> lex_error E_NOT_UTF8 (mk_span at (min (at + 1) (length bs))) (new_lexer []))"

end
