(* ===== verification/LexInv.thy ===== *)
theory LexInv
  imports Lexer
begin

text \<open>
  The invariant of the lexer: the tokens so far are well nested with the open contexts as what is still to
  close, their spans follow each other up to the cursor, tokens that spell themselves are the text under
  their span, and an inserted terminator follows a token that may end a statement.
\<close>

section \<open>Offsets\<close>

fun upto_byte :: "nat \<Rightarrow> chars \<Rightarrow> chars" where
  "upto_byte 0 xs = []"
| "upto_byte n [] = []"
| "upto_byte n (x # xs) = x # upto_byte (n - len_utf8 x) xs"

text \<open>\<open>&src[span]\<close>, for a span between character boundaries.\<close>

definition text_at :: "chars \<Rightarrow> span \<Rightarrow> chars" where
  "text_at src sp = upto_byte (span_end sp - span_start sp) (from_byte (span_start sp) src)"

lemma len_utf8_pos [simp]: "0 < len_utf8 c"
  by (simp add: len_utf8_def)

lemma nbytes_simps [simp]: "nbytes [] = 0" "nbytes (x # xs) = len_utf8 x + nbytes xs" "nbytes (xs @ ys) = nbytes xs + nbytes ys"
  by (simp_all add: nbytes_def)

lemma from_byte_append [simp]: "from_byte (nbytes p) (p @ q) = q"
proof (induction p)
  case (Cons x p)
  obtain n where "len_utf8 x + nbytes p = Suc n" using len_utf8_pos [of x] by (metis add_eq_if not_gr_zero)
  then show ?case using Cons by (simp del: nbytes_simps(2) add: nbytes_simps(2)) (metis add_diff_cancel_left' from_byte.simps(3))
qed simp

lemma upto_byte_append [simp]: "upto_byte (nbytes p) (p @ q) = p"
proof (induction p)
  case (Cons x p)
  obtain n where "len_utf8 x + nbytes p = Suc n" using len_utf8_pos [of x] by (metis add_eq_if not_gr_zero)
  then show ?case using Cons by (simp del: nbytes_simps(2) add: nbytes_simps(2)) (metis add_diff_cancel_left' upto_byte.simps(3))
qed simp

lemma offset_append: "lx_src s = p @ r \<Longrightarrow> offset s r = nbytes p"
  by (simp add: offset_def)

lemma offset_le: "suffix r r' \<Longrightarrow> suffix r' (lx_src s) \<Longrightarrow> offset s r' \<le> offset s r \<and> offset s r \<le> nbytes (lx_src s)"
  by (auto simp: offset_def suffix_def)

lemma text_at_offsets: "suffix (w @ r) (lx_src s) \<Longrightarrow> text_at (lx_src s) (mk_span (offset s (w @ r)) (offset s r)) = w"
  by (auto simp: suffix_def text_at_def mk_span_def offset_def)

section \<open>Nesting\<close>

datatype level = LvStr | LvInterp | LvFmt

fun levels :: "ctx list \<Rightarrow> level list" where
  "levels [] = []"
| "levels (c # cs) =
     (case c of CxStr _ \<Rightarrow> LvStr # levels cs | CxInterp \<Rightarrow> LvInterp # levels cs | CxFmt \<Rightarrow> LvFmt # levels cs | _ \<Rightarrow> levels cs)"

definition in_code :: "level list \<Rightarrow> bool" where
  "in_code ls \<longleftrightarrow> ls = [] \<or> hd ls = LvInterp"

text \<open>What a token does to the open levels; \<open>None\<close> where it may not stand.\<close>

definition nest_tok :: "tok \<Rightarrow> level list \<Rightarrow> level list option" where
  "nest_tok t ls =
     (case t of
        StrStart _ \<Rightarrow> if in_code ls then Some (LvStr # ls) else None
      | StrText _ \<Rightarrow> if ls \<noteq> [] \<and> hd ls = LvStr then Some ls else None
      | StrEnd \<Rightarrow> if ls \<noteq> [] \<and> hd ls = LvStr then Some (tl ls) else None
      | InterpStart \<Rightarrow> if \<not> in_code ls then Some (LvInterp # ls) else None
      | InterpEnd \<Rightarrow> if ls \<noteq> [] \<and> hd ls \<noteq> LvStr then Some (tl ls) else None
      | FmtStart \<Rightarrow> if ls \<noteq> [] \<and> hd ls = LvInterp then Some (LvFmt # tl ls) else None
      | FmtText _ \<Rightarrow> if ls \<noteq> [] \<and> hd ls = LvFmt then Some ls else None
      | _ \<Rightarrow> if in_code ls then Some ls else None)"

fun nesting :: "tok list \<Rightarrow> level list \<Rightarrow> level list option" where
  "nesting [] ls = Some ls"
| "nesting (t # ts) ls = Option.bind (nest_tok t ls) (nesting ts)"

lemma nesting_snoc: "nesting (ts @ [t]) ls = Option.bind (nesting ts ls) (nest_tok t)"
proof (induction ts arbitrary: ls)
  case (Cons x ts)
  then show ?case by (cases "nest_tok x ls") simp_all
qed (simp split: Option.bind_split)

section \<open>Tokens\<close>

text \<open>The text of a token that spells itself.\<close>

definition lexeme :: "tok \<Rightarrow> chars option" where
  "lexeme t =
     (case t of
        Ident w \<Rightarrow> Some w | Kw w \<Rightarrow> Some w | IntLit w \<Rightarrow> Some w | FloatLit w \<Rightarrow> Some w | FmtText w \<Rightarrow> Some w
      | Underscore \<Rightarrow> Some (ascii ''_'') | Punct p \<Rightarrow> Some (spelled p)
      | InterpStart \<Rightarrow> Some (ascii ''{'') | FmtStart \<Rightarrow> Some (ascii '':'')
      | Term e \<Rightarrow> Some (if e then ascii '';'' else [])
      | _ \<Rightarrow> None)"

definition terms_ok :: "tok list \<Rightarrow> bool" where
  "terms_ok ts \<longleftrightarrow> (\<forall>i < length ts. ts ! i = Term False \<longrightarrow> 0 < i \<and> ends_a_statement (ts ! (i - 1)))"

lemma terms_ok_snoc:
  "terms_ok (ts @ [t]) \<longleftrightarrow> terms_ok ts \<and> (t = Term False \<longrightarrow> ts \<noteq> [] \<and> ends_a_statement (last ts))"
proof -
  have "terms_ok (ts @ [t]) \<longleftrightarrow> (\<forall>i < length ts. (ts @ [t]) ! i = Term False \<longrightarrow> 0 < i \<and> ends_a_statement ((ts @ [t]) ! (i - 1))) \<and>
      (t = Term False \<longrightarrow> 0 < length ts \<and> ends_a_statement ((ts @ [t]) ! (length ts - 1)))"
    unfolding terms_ok_def by (auto simp: less_Suc_eq)
  moreover have "(ts @ [t]) ! (i - 1) = ts ! (i - 1)" if "i < length ts" for i
    using that less_imp_diff_less [OF that, of 1] by (simp add: nth_append)
  moreover have "ts \<noteq> [] \<Longrightarrow> (ts @ [t]) ! (length ts - 1) = last ts" by (simp add: nth_append last_conv_nth)
  ultimately show ?thesis by (auto simp: terms_ok_def nth_append)
qed

definition spans_ok :: "nat \<Rightarrow> span list \<Rightarrow> bool" where
  "spans_ok lo sps \<longleftrightarrow> sorted_wrt (\<lambda>a b. span_end a \<le> span_start b) sps \<and> (\<forall>sp \<in> set sps. span_start sp \<le> span_end sp \<and> span_end sp \<le> lo)"

definition lexeme_ok :: "chars \<Rightarrow> token \<Rightarrow> bool" where
  "lexeme_ok src t \<longleftrightarrow> (\<forall>w. lexeme (tk_tok t) = Some w \<longrightarrow> text_at src (tk_span t) = w)"

definition toks_ok :: "chars \<Rightarrow> nat \<Rightarrow> level list \<Rightarrow> token list \<Rightarrow> bool" where
  "toks_ok src lo ls ts \<longleftrightarrow> nesting (map tk_tok ts) [] = Some ls \<and> spans_ok lo (map tk_span ts) \<and>
     (\<forall>t \<in> set ts. lexeme_ok src t) \<and> terms_ok (map tk_tok ts)"

lemma toks_ok_mono: "toks_ok src lo ls ts \<Longrightarrow> lo \<le> lo' \<Longrightarrow> toks_ok src lo' ls ts"
  by (auto simp: toks_ok_def spans_ok_def)

lemma toks_ok_snoc:
  assumes "toks_ok src lo ls ts" and "nest_tok t ls = Some ls'" and "lo \<le> a" "a \<le> b" "b \<le> lo'"
    and "lexeme_ok src \<lparr>tk_tok = t, tk_span = mk_span a b\<rparr>"
    and "t = Term False \<Longrightarrow> ts \<noteq> [] \<and> ends_a_statement (tk_tok (last ts))"
  shows "toks_ok src lo' ls' (ts @ [\<lparr>tk_tok = t, tk_span = mk_span a b\<rparr>])"
  using assms by (fastforce simp: toks_ok_def nesting_snoc terms_ok_snoc spans_ok_def sorted_wrt_append last_map mk_span_def)

text \<open>The contents of string text do not matter to any of this.\<close>

definition blank_tok :: "tok \<Rightarrow> tok" where
  "blank_tok t = (case t of StrText _ \<Rightarrow> StrText [] | _ \<Rightarrow> t)"

definition blank_text :: "token \<Rightarrow> token" where
  "blank_text t = t\<lparr>tk_tok := blank_tok (tk_tok t)\<rparr>"

lemma blank_tok_simps [simp]: "nest_tok (blank_tok t) ls = nest_tok t ls" "lexeme (blank_tok t) = lexeme t"
  "ends_a_statement (blank_tok t) = ends_a_statement t" "blank_tok t = Term e \<longleftrightarrow> t = Term e"
  by (simp_all add: blank_tok_def nest_tok_def lexeme_def ends_a_statement_def split: tok.split)

lemma nesting_blank: "nesting (map (blank_tok \<circ> f) ts) ls = nesting (map f ts) ls"
proof (induction ts arbitrary: ls)
  case (Cons t ts)
  then show ?case by (cases "nest_tok (f t) ls") simp_all
qed simp

lemma toks_ok_blank: "toks_ok src lo ls (map blank_text ts) = toks_ok src lo ls ts"
proof -
  have s: "tk_span \<circ> blank_text = tk_span" "tk_tok \<circ> blank_text = blank_tok \<circ> tk_tok" by (auto simp: blank_text_def)
  have t: "terms_ok (map (blank_tok \<circ> tk_tok) ts) = terms_ok (map tk_tok ts)" by (auto simp: terms_ok_def)
  show ?thesis by (simp add: toks_ok_def s t nesting_blank lexeme_ok_def) (simp add: blank_text_def)
qed

lemma toks_ok_cong: "map blank_text ts' = map blank_text ts \<Longrightarrow> toks_ok src lo ls ts' = toks_ok src lo ls ts"
  using toks_ok_blank [of src lo ls ts'] toks_ok_blank [of src lo ls ts] by simp

section \<open>Contexts\<close>

text \<open>Above a string body or a format spec there is nothing but an interpolation or its format spec, and
  only the top frame has text pending.\<close>

definition literal_ctx :: "ctx \<Rightarrow> bool" where
  "literal_ctx c \<longleftrightarrow> is_str c \<or> c = CxFmt"

definition idle :: "ctx \<Rightarrow> bool" where
  "idle c \<longleftrightarrow> (case c of CxStr f \<Rightarrow> sf_pending f = [] | _ \<Rightarrow> True)"

fun ctx_ok :: "ctx list \<Rightarrow> bool" where
  "ctx_ok [] = True"
| "ctx_ok (c # cs) = (ctx_ok cs \<and> (cs \<noteq> [] \<longrightarrow> idle (hd cs) \<and> (literal_ctx (hd cs) \<longrightarrow> c = CxInterp \<or> c = CxFmt)))"

definition code_mode :: "ctx list \<Rightarrow> bool" where
  "code_mode cs \<longleftrightarrow> cs = [] \<or> \<not> literal_ctx (hd cs)"

lemma code_mode_levels: "ctx_ok cs \<Longrightarrow> code_mode cs \<Longrightarrow> in_code (levels cs)"
proof (induction cs)
  case (Cons c cs)
  then have "c \<noteq> CxInterp \<Longrightarrow> code_mode cs" by (auto simp: code_mode_def literal_ctx_def)
  with Cons show ?case by (cases c) (auto simp: in_code_def code_mode_def literal_ctx_def is_str_def)
qed (simp add: in_code_def)

lemma ctx_ok_tl: "ctx_ok cs \<Longrightarrow> ctx_ok (tl cs)"
  by (cases cs) simp_all

definition idle_top :: "ctx list \<Rightarrow> bool" where
  "idle_top cs \<longleftrightarrow> cs = [] \<or> idle (hd cs)"

lemma idle_top_tl: "ctx_ok cs \<Longrightarrow> idle_top (tl cs)"
  by (cases cs) (auto simp: idle_top_def)

lemma code_mode_idle: "code_mode cs \<Longrightarrow> idle_top cs"
  by (cases "hd cs") (auto simp: code_mode_def idle_top_def literal_ctx_def is_str_def idle_def)

text \<open>The offset the tokens have reached: the start of the pending text, or else the cursor.\<close>

definition reached :: "lexer \<Rightarrow> nat" where
  "reached s =
     (case lx_ctx s of CxStr f # _ \<Rightarrow> if sf_pending f = [] then pos s else sf_pending_start f | _ \<Rightarrow> pos s)"

definition lex_inv :: "lexer \<Rightarrow> bool" where
  "lex_inv s \<longleftrightarrow> suffix (lx_rest s) (lx_src s) \<and> ctx_ok (lx_ctx s) \<and> reached s \<le> pos s \<and>
     toks_ok (lx_src s) (reached s) (levels (lx_ctx s)) (lx_tokens s)"

lemma reached_idle: "idle_top (lx_ctx s) \<Longrightarrow> reached s = pos s"
  by (auto simp: reached_def idle_top_def idle_def split: list.split ctx.split)

text \<open>A token from the cursor to \<open>r\<close>, with whatever change of the contexts it stands for.\<close>

lemma inv_token:
  assumes i: "lex_inv s" and r: "suffix r (lx_rest s)"
    and n: "nest_tok t (levels (lx_ctx s)) = Some (levels (lx_ctx s'))"
    and c: "ctx_ok (lx_ctx s')" "idle_top (lx_ctx s')"
    and w: "\<And>w. lexeme t = Some w \<Longrightarrow> lx_rest s = w @ r"
    and e: "t = Term False \<Longrightarrow> lx_tokens s \<noteq> [] \<and> ends_a_statement (tk_tok (last (lx_tokens s)))"
    and f: "lx_src s' = lx_src s" "lx_rest s' = r" "lx_tokens s' = lx_tokens s @ [\<lparr>tk_tok = t, tk_span = mk_span (pos s) (offset s r)\<rparr>]"
  shows "lex_inv s'"
proof -
  have sx: "suffix (lx_rest s) (lx_src s)" and lo: "reached s \<le> pos s"
    and ts: "toks_ok (lx_src s) (reached s) (levels (lx_ctx s)) (lx_tokens s)" using i by (simp_all add: lex_inv_def)
  have p': "pos s' = offset s r" using f by (simp add: pos_def offset_def)
  have r': "reached s' = offset s r" using reached_idle [OF c(2)] p' by simp
  have "text_at (lx_src s) (mk_span (pos s) (offset s r)) = w" if "lexeme t = Some w" for w
    using text_at_offsets [of w r s] w [OF that] sx by (simp add: pos_def)
  then have "lexeme_ok (lx_src s) \<lparr>tk_tok = t, tk_span = mk_span (pos s) (offset s r)\<rparr>" by (simp add: lexeme_ok_def)
  moreover have "pos s \<le> offset s r" using offset_le [OF r sx] by (simp add: pos_def)
  ultimately have "toks_ok (lx_src s) (offset s r) (levels (lx_ctx s')) (lx_tokens s')"
    unfolding f(3) using toks_ok_snoc [OF ts n lo _ order_refl _ e] by blast
  with c f r sx show ?thesis by (simp add: lex_inv_def r' p' suffix_order.trans [OF r sx])
qed

lemma inv_error: "lex_inv (lex_error c sp s) = lex_inv s"
proof -
  have p: "pos (lex_error c sp s) = pos s" by (simp add: pos_def offset_def)
  show ?thesis unfolding lex_inv_def reached_def lex_error_simps p ..
qed

text \<open>Moving on without a token.\<close>

lemma inv_goto: "lex_inv s \<Longrightarrow> suffix r (lx_rest s) \<Longrightarrow> lex_inv (goto r s)"
proof -
  assume i: "lex_inv s" and r: "suffix r (lx_rest s)"
  then have sx: "suffix (lx_rest s) (lx_src s)" by (simp add: lex_inv_def)
  have "pos s \<le> pos (goto r s)" using offset_le [OF r sx] by (simp add: pos_def offset_def)
  then have "reached s \<le> reached (goto r s) \<and> reached (goto r s) \<le> pos (goto r s)"
    using i by (auto simp: reached_def lex_inv_def split: list.split ctx.split)
  with i r suffix_order.trans [OF r sx] show ?thesis by (auto simp: lex_inv_def intro: toks_ok_mono)
qed

text \<open>A change of the top frame that leaves its pending text and where it starts, and any change of the
  lexer's other fields.\<close>

lemma inv_frame: "lex_inv s \<Longrightarrow> (\<And>f. sf_pending (g f) = sf_pending f \<and> sf_pending_start (g f) = sf_pending_start f) \<Longrightarrow> lex_inv (upd_frame g s)"
proof -
  assume i: "lex_inv s" and g: "\<And>f. sf_pending (g f) = sf_pending f \<and> sf_pending_start (g f) = sf_pending_start f"
  have p: "pos (upd_frame g s) = pos s" by (simp add: pos_def offset_def)
  show ?thesis
  proof (cases "\<exists>f cs. lx_ctx s = CxStr f # cs")
    case True
    then obtain f cs where c: "lx_ctx s = CxStr f # cs" by blast
    then have c': "lx_ctx (upd_frame g s) = CxStr (g f) # cs" by (simp add: upd_frame_def)
    have "levels (lx_ctx (upd_frame g s)) = levels (lx_ctx s)" "ctx_ok (lx_ctx (upd_frame g s)) = ctx_ok (lx_ctx s)"
      "reached (upd_frame g s) = reached s"
      using g [of f] by (auto simp: c c' reached_def p literal_ctx_def is_str_def)
    with i p show ?thesis by (simp add: lex_inv_def)
  next
    case False
    then have "upd_frame g s = s" by (auto simp: upd_frame_def split: list.split ctx.split)
    with i show ?thesis by simp
  qed
qed

text \<open>The fields the invariant does not read.\<close>

lemma inv_cong:
  assumes "lx_src s' = lx_src s" "lx_rest s' = lx_rest s" "lx_ctx s' = lx_ctx s" "lx_tokens s' = lx_tokens s"
  shows "lex_inv s' = lex_inv s"
proof -
  have p: "pos s' = pos s" using assms by (simp add: pos_def offset_def)
  show ?thesis unfolding lex_inv_def reached_def assms p ..
qed

text \<open>A character more of text that begins at or before the cursor.\<close>

lemma inv_escaped:
  assumes i: "lex_inv s" and f: "lx_ctx s = CxStr f # cs" and at: "reached s \<le> at" "at \<le> pos s"
  shows "lex_inv (push_escaped at c s)"
proof -
  let ?s = "push_escaped at c s"
  have e: "lx_src ?s = lx_src s" "lx_rest ?s = lx_rest s" "lx_tokens ?s = lx_tokens s" by (simp_all add: push_escaped_def)
  have p: "pos ?s = pos s" by (simp add: pos_def offset_def e)
  have c: "lx_ctx ?s = CxStr ((if sf_pending f = [] then f\<lparr>sf_pending_start := at\<rparr> else f)\<lparr>sf_pending := sf_pending f @ [c]\<rparr>) # cs"
    by (simp add: push_escaped_def upd_frame_def f)
  have l: "levels (lx_ctx ?s) = levels (lx_ctx s)" "ctx_ok (lx_ctx ?s) = ctx_ok (lx_ctx s)"
    by (simp_all add: c f literal_ctx_def is_str_def)
  have "reached ?s = (if sf_pending f = [] then at else reached s)" by (simp add: reached_def c f p)
  then have "reached s \<le> reached ?s \<and> reached ?s \<le> pos ?s" using at i by (auto simp: p lex_inv_def)
  with i l show ?thesis by (auto simp: lex_inv_def e intro: toks_ok_mono)
qed

text \<open>Emitting the pending text.\<close>

lemma flush_text_inv:
  assumes i: "lex_inv s" and f: "lx_ctx s = CxStr f # cs"
  shows "lex_inv (flush_text s) \<and> (\<exists>f'. lx_ctx (flush_text s) = CxStr f' # cs \<and> sf_pending f' = []) \<and>
    lx_src (flush_text s) = lx_src s"
proof (cases "sf_pending f = []")
  case True
  with i f show ?thesis by (simp add: flush_text_def frame_def)
next
  case False
  let ?s1 = "push (StrText (sf_pending f)) (mk_span (sf_pending_start f) (pos s)) (upd_frame (\<lambda>f. f\<lparr>sf_pending := []\<rparr>) s)"
  have c: "lx_ctx ?s1 = CxStr (f\<lparr>sf_pending := []\<rparr>) # cs" by (simp add: upd_frame_def f)
  have p: "pos ?s1 = pos s" by (simp add: pos_def offset_def)
  have lo: "reached s = sf_pending_start f" using False by (simp add: reached_def f)
  have lo1: "reached ?s1 = pos s" unfolding reached_def c p by simp
  from i have l: "toks_ok (lx_src s) (sf_pending_start f) (levels (lx_ctx s)) (lx_tokens s)" "sf_pending_start f \<le> pos s"
    by (simp_all add: lex_inv_def lo)
  have "nest_tok (StrText (sf_pending f)) (levels (lx_ctx s)) = Some (levels (lx_ctx s))" by (simp add: f nest_tok_def)
  from toks_ok_snoc [OF l(1) this order_refl l(2) order_refl]
  have "toks_ok (lx_src s) (pos s) (levels (lx_ctx s)) (lx_tokens ?s1)" by (simp add: lexeme_ok_def lexeme_def)
  moreover have "ctx_ok (lx_ctx ?s1) = ctx_ok (lx_ctx s)" "levels (lx_ctx ?s1) = levels (lx_ctx s)"
    unfolding c f by (simp_all add: literal_ctx_def is_str_def)
  ultimately have i1: "lex_inv ?s1" using i unfolding lex_inv_def lo lo1 p by simp
  show ?thesis
  proof (cases "sf_kind f = SkMultiline")
    case True
    have "lex_inv (upd_frame (\<lambda>f. f\<lparr>sf_pieces := sf_pieces f @ [PcText (length (lx_tokens ?s1) - 1)]\<rparr>) ?s1)"
      by (rule inv_frame [OF i1]) simp
    with True False c show ?thesis by (simp add: flush_text_def Let_def frame_def f upd_frame_def)
  next
    case False
    with \<open>sf_pending f \<noteq> []\<close> i1 c show ?thesis by (simp add: flush_text_def Let_def frame_def f)
  qed
qed

end
