(* ===== verification/LexKeeps.thy ===== *)
theory LexKeeps
  imports LexInv
begin

text \<open>
  Every scanner of the lexer keeps its invariant, and so does the run over a whole source.
\<close>

section \<open>Code tokens\<close>

lemma offset_simps [simp]:
  "offset (push t sp s) r = offset s r" "offset (goto r' s) r = offset s r" "offset (emit t r' s) r = offset s r"
  "offset (lex_error c sp s) r = offset s r" "offset (upd_frame g s) r = offset s r" "offset (push_ctx x s) r = offset s r"
  "offset (pop_ctx s) r = offset s r" "offset (pop_delimiter x s) r = offset s r" "offset (s\<lparr>lx_ctx := cs\<rparr>) r = offset s r"
  by (simp_all add: offset_def)

lemma pos_simps [simp]:
  "pos (push t sp s) = pos s" "pos (goto r s) = offset s r" "pos (lex_error c sp s) = pos s" "pos (upd_frame g s) = pos s"
  "pos (push_ctx x s) = pos s" "pos (pop_ctx s) = pos s" "pos (pop_delimiter x s) = pos s" "pos (s\<lparr>lx_ctx := cs\<rparr>) = pos s"
  by (simp_all add: pos_def)

definition code_tok :: "tok \<Rightarrow> bool" where
  "code_tok t \<longleftrightarrow> (\<forall>ls. nest_tok t ls = (if in_code ls then Some ls else None))"

lemma code_tok_simps [simp]: "code_tok (Ident w)" "code_tok Underscore" "code_tok (Kw w)" "code_tok (IntLit w)"
  "code_tok (FloatLit w)" "code_tok (CharLit c)" "code_tok (Term e)" "code_tok (Punct p)" "code_tok ErrorTok"
  by (simp_all add: code_tok_def nest_tok_def)

lemma lexeme_None [simp]: "lexeme ErrorTok = None" "lexeme (CharLit c) = None" "lexeme StrEnd = None" "lexeme InterpEnd = None"
  by (simp_all add: lexeme_def)

lemma top_is_goto [simp]: "top_is c (goto r s) = top_is c s"
  by (simp add: top_is_def)

lemma inv_attr_close [simp]: "lex_inv (s\<lparr>lx_attr_close := x\<rparr>) = lex_inv s"
  by (rule inv_cong) simp_all

lemma inv_code:
  assumes "lex_inv s" "code_mode (lx_ctx s)" "suffix r (lx_rest s)" "code_tok t"
    and "\<And>w. lexeme t = Some w \<Longrightarrow> lx_rest s = w @ r" "t \<noteq> Term False"
    and "ctx_ok (lx_ctx s')" "idle_top (lx_ctx s')" "levels (lx_ctx s') = levels (lx_ctx s)"
    and "lx_src s' = lx_src s" "lx_rest s' = r" "lx_tokens s' = lx_tokens s @ [\<lparr>tk_tok = t, tk_span = mk_span (pos s) (offset s r)\<rparr>]"
  shows "lex_inv s'"
proof -
  have "in_code (levels (lx_ctx s))" using assms(1,2) by (auto simp: lex_inv_def intro: code_mode_levels)
  then have "nest_tok t (levels (lx_ctx s)) = Some (levels (lx_ctx s'))" using assms(4,9) by (simp add: code_tok_def)
  from inv_token [OF assms(1,3) this assms(7,8,5) _ assms(10-12)] assms(6) show ?thesis by blast
qed

lemma inv_ctx: "lex_inv s \<Longrightarrow> ctx_ok (lx_ctx s)" and inv_suffix: "lex_inv s \<Longrightarrow> suffix (lx_rest s) (lx_src s)"
  by (simp_all add: lex_inv_def)

lemma emit_code:
  assumes "lex_inv s" "code_mode (lx_ctx s)" "suffix r (lx_rest s)" "code_tok t" "t \<noteq> Term False"
    and "\<And>w. lexeme t = Some w \<Longrightarrow> lx_rest s = w @ r"
  shows "lex_inv (emit t r s)"
  using assms(1-4,6,5) by (rule inv_code) (simp_all add: inv_ctx [OF assms(1)] code_mode_idle [OF assms(2)])

definition delimiter :: "ctx \<Rightarrow> bool" where
  "delimiter c \<longleftrightarrow> c \<in> {CxParen, CxBracket, CxAttrBracket, CxBrace}"

lemma delimiter_simps: "delimiter c \<Longrightarrow> levels (c # cs) = levels cs" "delimiter c \<Longrightarrow> \<not> literal_ctx c" "delimiter c \<Longrightarrow> idle c"
  by (auto simp: delimiter_def literal_ctx_def is_str_def idle_def)

lemma emit_open:
  assumes "lex_inv s" "code_mode (lx_ctx s)" "lx_rest s = w @ r" "lexeme (Punct p) = Some w" "delimiter c"
  shows "lex_inv (emit (Punct p) r (push_ctx c s))"
proof (rule inv_code [OF assms(1,2), of r "Punct p"])
  show "ctx_ok (lx_ctx (emit (Punct p) r (push_ctx c s)))"
    using inv_ctx [OF assms(1)] assms(2) code_mode_idle [OF assms(2)] by (auto simp: code_mode_def idle_top_def)
qed (use assms delimiter_simps in \<open>auto simp: idle_top_def suffix_def\<close>)

lemma pop_delimiter_levels: "levels (lx_ctx (pop_delimiter c s)) = levels (lx_ctx s)"
  by (auto simp: pop_delimiter_def closes_delimiter_def split: list.splits)

lemma pop_delimiter_ok: "ctx_ok (lx_ctx s) \<Longrightarrow> idle_top (lx_ctx s) \<Longrightarrow> ctx_ok (lx_ctx (pop_delimiter c s)) \<and> idle_top (lx_ctx (pop_delimiter c s))"
  using ctx_ok_tl [of "lx_ctx s"] idle_top_tl [of "lx_ctx s"] by (simp add: pop_delimiter_def)

lemma push_close:
  assumes i: "lex_inv s" "code_mode (lx_ctx s)" and r: "lx_rest s = spelled p @ r"
  shows "lex_inv (emit (Punct p) r (pop_delimiter c s))"
  using i(1,2)
  by (rule inv_code [of s r "Punct p"]) (use r pop_delimiter_ok [OF inv_ctx [OF i(1)] code_mode_idle [OF i(2)]] in
      \<open>auto simp: suffix_def lexeme_def pop_delimiter_levels\<close>)

section \<open>Words, numbers, character literals\<close>

lemma consumed_append: "suffix r' r \<Longrightarrow> consumed r r' @ r' = r"
  by (auto simp: consumed_def suffix_def)

lemma report_depth_ctx [simp]: "lx_ctx (report_depth d s) = lx_ctx s"
  by (simp add: report_depth_def Let_def)

lemma enter_string_ctx: "lx_ctx (enter_string k s) = CxStr \<lparr>sf_kind = k, sf_body_start = pos s, sf_pending = [],
    sf_pending_start = pos s, sf_pieces = [], sf_line_starts = []\<rparr> # lx_ctx s"
  by (simp add: enter_string_def Let_def)

lemma inv_start_string:
  assumes i: "lex_inv s" "code_mode (lx_ctx s)" and r: "suffix r (lx_rest s)"
  shows "lex_inv (enter_string k (emit (StrStart k) r s))"
proof (rule inv_token [OF i(1) r, of "StrStart k"])
  let ?s' = "enter_string k (emit (StrStart k) r s)"
  obtain f where c: "lx_ctx ?s' = CxStr f # lx_ctx s" and f: "sf_pending f = []"
    by (simp add: enter_string_ctx)
  show "nest_tok (StrStart k) (levels (lx_ctx s)) = Some (levels (lx_ctx ?s'))"
    unfolding c using code_mode_levels [OF inv_ctx [OF i(1)] i(2)] by (simp add: nest_tok_def)
  show "ctx_ok (lx_ctx ?s')" "idle_top (lx_ctx ?s')"
    unfolding c using inv_ctx [OF i(1)] i(2) code_mode_idle [OF i(2)] f by (auto simp: code_mode_def idle_top_def idle_def)
qed (simp_all add: lexeme_def)

lemma open_string_inv:
  assumes i: "lex_inv s" "code_mode (lx_ctx s)" and r: "suffix r (lx_rest s)"
  shows "lex_inv (open_string u g r s)"
proof -
  have d: "suffix (drop n r) (lx_rest s)" for n using suffix_order.trans [OF suffix_drop r] .
  have f: "suffix x (lx_rest s)" if "drop_first_newline (drop n r) = Some x" for n x
    using that d [of n] suffix_order.trans [OF suffix_tl, of _ "lx_rest s"] by (auto simp: drop_first_newline_def Let_def split: if_splits)
  have e: "lex_inv (lex_error c sp s)" "code_mode (lx_ctx (lex_error c sp s))" for c sp using i by (simp_all add: inv_error)
  have a: "lex_inv (upd_frame (\<lambda>f. f\<lparr>sf_line_starts := sf_line_starts f @ [n]\<rparr>) s')" if "lex_inv s'" for n s'
    by (rule inv_frame [OF that]) simp
  show ?thesis
    unfolding open_string_def Let_def
    using inv_start_string [OF i d] inv_start_string [OF e] inv_start_string [OF i f] d f
    by (auto split: option.split intro!: a)
qed

lemma scan_word_inv:
  assumes i: "lex_inv s" "code_mode (lx_ctx s)"
  shows "lex_inv (scan_word u s)"
proof -
  let ?w = "takeWhile (is_xid_continue u) (lx_rest s)" and ?r = "dropWhile (is_xid_continue u) (lx_rest s)"
  have sp: "lx_rest s = ?w @ ?r" and sx: "suffix ?r (lx_rest s)" by (simp_all add: suffix_dropWhile)
  have raw: "lex_inv (open_raw_string ?r s)" if w: "?w = ascii ''r''"
  proof -
    have "lx_rest s = ascii ''r'' @ tl (lx_rest s)" using sp w by (metis append_Cons append_Nil ascii_def list.map(1) list.sel(3) list.simps(9))
    then have "lex_inv (emit (Ident (ascii ''r'')) (tl (lx_rest s)) s)"
      by (intro emit_code [OF i]) (auto simp: lexeme_def)
    moreover have "suffix (tl (drop n ?r)) (lx_rest s)" for n
      by (rule suffix_order.trans [OF suffix_tl suffix_order.trans [OF suffix_drop sx]])
    ultimately show ?thesis by (auto simp: open_raw_string_def Let_def intro: inv_start_string [OF i])
  qed
  have "lex_inv (emit t ?r s)" if "t = (if ?w = ascii ''_'' then Underscore else if is_keyword ?w then Kw ?w else Ident ?w)" for t
    by (rule emit_code [OF i sx]) (use that sp in \<open>auto simp: lexeme_def split: if_splits\<close>)
  with raw open_string_inv [OF i sx] show ?thesis by (simp add: scan_word_def Let_def)
qed

lemma eat_suffix: "suffix (eat_decimal_run r) r" "eat_fraction r = Some r' \<Longrightarrow> suffix r' r" "eat_exponent r = Some r' \<Longrightarrow> suffix r' r"
proof -
  show a: "suffix (eat_decimal_run r) r" for r by (simp add: eat_decimal_run_def suffix_dropWhile)
  have t: "suffix (eat_decimal_run (tl r)) r" "suffix (eat_decimal_run (tl (tl r))) r"
    using a suffix_order.trans [OF _ suffix_tl] by blast+
  show "eat_fraction r = Some r' \<Longrightarrow> suffix r' r" using t by (auto simp: eat_fraction_def split: list.splits if_splits)
  show "eat_exponent r = Some r' \<Longrightarrow> suffix r' r" using t by (auto simp: eat_exponent_def Let_def split: list.splits if_splits)
qed

lemma emit_literal:
  assumes "lex_inv s" "code_mode (lx_ctx s)" "suffix r (lx_rest s)" "t \<in> {IntLit, FloatLit}"
  shows "lex_inv (emit (t (consumed (lx_rest s) r)) r s)"
  by (rule emit_code [OF assms(1-3)]) (use assms(4) consumed_append [OF assms(3)] in \<open>auto simp: lexeme_def\<close>)

lemma scan_number_inv:
  assumes i: "lex_inv s" "code_mode (lx_ctx s)"
  shows "lex_inv (scan_number s)"
proof (cases "based (lx_rest s)")
  case None
  let ?r1 = "eat_decimal_run (lx_rest s)"
  let ?r2 = "case eat_fraction ?r1 of None \<Rightarrow> ?r1 | Some r' \<Rightarrow> r'"
  let ?r3 = "case eat_exponent ?r2 of None \<Rightarrow> ?r2 | Some r' \<Rightarrow> r'"
  have "suffix ?r2 ?r1" by (auto split: option.split dest: eat_suffix(2))
  moreover have "suffix ?r3 ?r2" using eat_suffix(3) by (cases "eat_exponent ?r2") auto
  ultimately have "suffix ?r3 (lx_rest s)" using eat_suffix(1) suffix_order.trans by blast
  from emit_literal [OF i this] None show ?thesis by (simp add: scan_number_def scan_decimal_def Let_def)
next
  case (Some radix)
  have "suffix (dropWhile P (drop 2 (lx_rest s))) (lx_rest s)" for P
    by (rule suffix_order.trans [OF suffix_dropWhile suffix_drop])
  then have "lex_inv (emit (IntLit (consumed (lx_rest s) (dropWhile P (drop 2 (lx_rest s))))) (dropWhile P (drop 2 (lx_rest s))) s')"
    if "lex_inv s'" "code_mode (lx_ctx s')" "lx_rest s' = lx_rest s" for P s'
    using emit_literal [OF that(1,2), of _ IntLit] that(3) by simp
  with i Some show ?thesis by (simp add: scan_number_def scan_based_def Let_def inv_error)
qed

lemma scan_char_literal_inv:
  assumes i: "lex_inv s" "code_mode (lx_ctx s)"
  shows "lex_inv (scan_char_literal s)"
proof -
  have sx: "suffix (snd (char_body s (tl (lx_rest s)) 0 None None)) (lx_rest s)"
    by (rule suffix_order.trans [OF char_body_suffix suffix_tl])
  have "lex_inv (emit (CharLit c) (snd (char_body s (tl (lx_rest s)) 0 None None)) s)" for c
    using sx by (intro emit_code [OF i]) simp_all
  moreover have "lex_inv (emit ErrorTok (snd (char_body s (tl (lx_rest s)) 0 None None)) (lex_error c sp s))" for c sp
    using sx i by (intro emit_code) (simp_all add: inv_error)
  ultimately show ?thesis
    by (auto simp: scan_char_literal_def Let_def case_prod_beta split: option.split char_escape_error.split)
qed

section \<open>Punctuation\<close>

lemma starts_with_append: "starts_with p xs \<Longrightarrow> xs = p @ drop (length p) xs"
  unfolding starts_with_def by (metis append_take_drop_id)

lemma close_brace_inv:
  assumes i: "lex_inv s" "code_mode (lx_ctx s)" and r: "lx_rest s = spelled RBrace @ r"
  shows "lex_inv (close_brace (mk_span (pos s) (offset s r)) (goto r s))"
proof (cases "top_is CxInterp s")
  case True
  then obtain cs where c: "lx_ctx s = CxInterp # cs" by (cases "lx_ctx s") (auto simp: top_is_def)
  have t: "top_is CxInterp (goto r s)" using True by (simp add: top_is_def)
  show ?thesis
    by (rule inv_token [OF i(1), of r InterpEnd])
      (use c r t inv_ctx [OF i(1)] idle_top_tl [OF inv_ctx [OF i(1)]] in
        \<open>auto simp: close_brace_def nest_tok_def suffix_def lexeme_def\<close>)
next
  case False
  moreover have "\<not> top_is CxFmt s" using i(2) by (auto simp: top_is_def code_mode_def literal_ctx_def)
  ultimately show ?thesis using push_close [OF i r, of CxBrace]
    by (simp add: close_brace_def emit_def)
qed

lemma close_bracket_inv:
  assumes i: "lex_inv s" "code_mode (lx_ctx s)" and r: "lx_rest s = spelled RBracket @ r"
  shows "lex_inv (close_bracket (mk_span (pos s) (offset s r)) (goto r s))"
proof -
  have "lex_inv (push (Punct RBracket) (mk_span (pos s) (offset s r)) (pop_delimiter CxBracket (goto r s)))"
    using push_close [OF i r, of CxBracket] by (simp add: emit_def)
  then show ?thesis by (simp add: close_bracket_def Let_def)
qed

lemma scan_colon_inv:
  assumes i: "lex_inv s" "code_mode (lx_ctx s)" and r: "lx_rest s = spelled Colon @ r"
  shows "lex_inv (scan_colon r s)"
proof (cases "top_is CxInterp s")
  case True
  then obtain cs where c: "lx_ctx s = CxInterp # cs" by (cases "lx_ctx s") (auto simp: top_is_def)
  show ?thesis
    by (rule inv_token [OF i(1), of r FmtStart])
      (use c r True inv_ctx [OF i(1)] idle_top_tl [OF inv_ctx [OF i(1)]] in
        \<open>auto simp: scan_colon_def nest_tok_def suffix_def lexeme_def idle_top_def idle_def spelled_def punctuation_spelling_def\<close>)
next
  case False
  with emit_code [OF i, of r "Punct Colon"] r show ?thesis by (auto simp: scan_colon_def lexeme_def suffix_def)
qed

lemma scan_single_inv:
  assumes i: "lex_inv s" "code_mode (lx_ctx s)" and r: "lx_rest s = c # cs"
  shows "lex_inv (scan_single u c cs s)"
proof -
  have sp: "spelled p = [c] \<Longrightarrow> lx_rest s = spelled p @ cs" for p using r by simp
  have e: "lex_inv (emit ErrorTok r' (lex_error x y s))" if "suffix r' (lx_rest s)" for r' x y
    using that i by (intro emit_code) (simp_all add: inv_error)
  have sx: "suffix cs (lx_rest s)" "suffix (stray_run u cs) (lx_rest s)"
    using r suffix_order.trans [OF stray_run_suffix [of u cs], of "lx_rest s"] by (auto intro: suffix_ConsI)
  have p: "lex_inv (emit (Punct p) cs s)" if "find (\<lambda>p. spelled p = [c]) single_operators = Some p" for p
    using find_SomeD [OF that] sp sx(1) by (intro emit_code [OF i]) (auto simp: lexeme_def)
  have o: "lex_inv (emit (Punct p) cs (push_ctx x s))" if "spelled p = [c]" "delimiter x" for p x
    using emit_open [OF i sp [OF that(1)] _ that(2)] by (simp add: lexeme_def)
  have t: "lex_inv (emit (Term True) cs s)" if "c = cp CHR '';''"
    using that r sx(1) by (intro emit_code [OF i]) (auto simp: lexeme_def ascii_def)
  note [simp] = spelled_def punctuation_spelling_def ascii_def
  show ?thesis
    using o [of LParen CxParen] o [of LBracket CxBracket] o [of LBrace CxBrace] push_close [OF i sp, of RParen CxParen]
      close_bracket_inv [OF i sp] close_brace_inv [OF i sp] scan_colon_inv [OF i sp] t e [OF sx(1)] e [OF sx(2)] p
    by (simp add: scan_single_def Let_def delimiter_def split: option.split)
qed

lemma scan_token_inv:
  assumes i: "lex_inv s" "code_mode (lx_ctx s)"
  shows "lex_inv (scan_token u s)"
proof (cases "lx_rest s")
  case (Cons c cs)
  have o: "lex_inv (emit (Punct p) (drop n (c # cs)) (push_ctx CxAttrBracket s))"
    if "starts_with (spelled p) (c # cs)" "n = length (spelled p)" for p n
    using emit_open [OF i, of "spelled p" _ p CxAttrBracket] starts_with_append [OF that(1)] that(2) Cons
    by (simp add: lexeme_def delimiter_def)
  have "lex_inv (emit (Punct p) (drop (length (spelled p)) (c # cs)) s)"
    if "find (\<lambda>p. starts_with (spelled p) (c # cs)) operators = Some p" for p
  proof (rule emit_code [OF i])
    show "suffix (drop (length (spelled p)) (c # cs)) (lx_rest s)" unfolding Cons by (rule suffix_drop)
  qed (use find_SomeD [OF that] starts_with_append [of "spelled p" "c # cs"] Cons in \<open>auto simp: lexeme_def\<close>)
  moreover have "length (spelled HashBangBracket) = 3" "length (spelled HashBracket) = 2"
    by (simp_all add: spelled_def punctuation_spelling_def ascii_def)
  with o [of HashBangBracket 3] o [of HashBracket 2]
  have "starts_with (spelled HashBangBracket) (c # cs) \<Longrightarrow> lex_inv (emit (Punct HashBangBracket) (drop 3 (c # cs)) (push_ctx CxAttrBracket s))"
    "starts_with (spelled HashBracket) (c # cs) \<Longrightarrow> lex_inv (emit (Punct HashBracket) (drop 2 (c # cs)) (push_ctx CxAttrBracket s))"
    by (simp_all del: drop_Cons_numeral)
  moreover have "lex_inv (open_string u None (c # cs) s)" by (rule open_string_inv [OF i]) (simp add: Cons)
  ultimately show ?thesis
    unfolding scan_token_def Cons list.case
    using scan_word_inv [OF i, of u] scan_number_inv [OF i] scan_char_literal_inv [OF i] scan_single_inv [OF i Cons, of u]
    by (auto simp del: drop_Cons_numeral split: option.split)
qed (use i in \<open>simp add: scan_token_def\<close>)

section \<open>Trivia\<close>

lemma unwind_inv:
  "lex_inv (s\<lparr>lx_ctx := cs\<rparr>) \<Longrightarrow> lex_inv (unwind_ctx cs s) \<and> code_mode (lx_ctx (unwind_ctx cs s))"
proof (induction cs s rule: unwind_ctx.induct)
  case (2 c cs s)
  have ok: "ctx_ok (c # cs)" "idle_top cs" using inv_ctx [OF "2.prems"] idle_top_tl [of "c # cs"] by auto
  have e: "lex_inv (push t (empty_span (pos s)) s\<lparr>lx_ctx := cs\<rparr>)" if "nest_tok t (levels (c # cs)) = Some (levels cs)" "t = StrEnd \<or> t = InterpEnd" for t
    by (rule inv_token [OF "2.prems", of "lx_rest s" t]) (use that ok in \<open>auto simp: push_def empty_span_def pos_def\<close>)
  have d: "lex_inv (s\<lparr>lx_ctx := cs\<rparr>)" if "delimiter c"
  proof -
    have "reached (s\<lparr>lx_ctx := c # cs\<rparr>) = pos s" "reached (s\<lparr>lx_ctx := cs\<rparr>) = pos s"
      using ok that delimiter_simps(3) [of c] by (simp_all add: reached_idle idle_top_def)
    with "2.prems" ok that show ?thesis by (simp add: lex_inv_def delimiter_simps del: levels.simps)
  qed
  show ?case
  proof (cases c)
    case (CxStr f)
    with ok(1) have "code_mode cs" by (auto simp: code_mode_def literal_ctx_def)
    moreover have "push StrEnd (empty_span (pos s)) (s\<lparr>lx_ctx := cs\<rparr>) = push StrEnd (empty_span (pos s)) s\<lparr>lx_ctx := cs\<rparr>"
      by (simp add: push_def)
    ultimately show ?thesis using e [of StrEnd] CxStr by (simp add: nest_tok_def)
  qed (use 2 e [of InterpEnd] d in \<open>auto simp: nest_tok_def delimiter_def\<close>)
qed (simp add: code_mode_def)

lemma trivium_inv:
  assumes i: "lex_inv s" "code_mode (lx_ctx s)" and t: "trivium u s = Some s'"
  shows "lex_inv s' \<and> code_mode (lx_ctx s')"
proof (cases "lx_rest s")
  case (Cons c cs)
  have g: "lex_inv (goto r s)" if "suffix r (lx_rest s)" for r using that inv_goto [OF i(1)] by blast
  have nl: "lex_inv (insert_terminator u (pos s) (goto cs s))"
  proof (cases "insert_terminator u (pos s) (goto cs s) = goto cs s")
    case True
    with g [of cs] Cons show ?thesis by (simp add: suffix_ConsI)
  next
    case False
    then have e: "lx_tokens s \<noteq> []" "ends_a_statement (tk_tok (last (lx_tokens s)))"
      "insert_terminator u (pos s) (goto cs s) = goto cs (push (Term False) (empty_span (pos s)) s)"
      by (auto simp: insert_terminator_def goto_def push_def split: if_splits)
    have "lex_inv (push (Term False) (empty_span (pos s)) s)"
      by (rule inv_token [OF i(1), of "lx_rest s" "Term False"])
        (use e i code_mode_idle [OF i(2)] inv_ctx [OF i(1)] code_mode_levels [OF inv_ctx [OF i(1)] i(2)] in
          \<open>auto simp: nest_tok_def lexeme_def pos_def empty_span_def\<close>)
    then show ?thesis unfolding e(3) using Cons by (intro inv_goto) (simp_all add: suffix_ConsI)
  qed
  show ?thesis
  proof (cases "c = newline")
    case True
    then show ?thesis
    proof (cases "open_plain_string (pos s) s")
      case None
      with True nl i Cons t show ?thesis by (auto simp: trivium_def)
    next
      case (Some sp)
      let ?e = "lex_error E_UNTERMINATED_STRING sp s"
      have "lex_inv (?e\<lparr>lx_ctx := lx_ctx s\<rparr>)" using i inv_cong [of "?e\<lparr>lx_ctx := lx_ctx s\<rparr>" ?e] by (simp add: inv_error)
      from unwind_inv [OF this] Some True t Cons show ?thesis by (simp add: trivium_def unwind_plain_string_def)
    qed
  next
    case False
    have "suffix cs (lx_rest s)" "suffix (dropWhile (\<lambda>c. c \<noteq> newline) (c # cs)) (lx_rest s)"
      using Cons suffix_dropWhile [of _ "c # cs"] by (simp_all add: suffix_ConsI del: dropWhile.simps)
    from g [OF this(1)] g [OF this(2)]
    have l: "lex_inv (goto cs s)" "lex_inv (goto (dropWhile (\<lambda>c. c \<noteq> newline) (c # cs)) s)" .
    from t [unfolded trivium_def Cons list.case] False
    have "s' = goto cs s \<or> s' = goto (dropWhile (\<lambda>c. c \<noteq> newline) (c # cs)) s"
      by (cases "inline_space c"; cases "starts_with (ascii ''//'') (c # cs)")
        (simp_all only: if_True if_False option.inject option.distinct simp_thms)
    then show ?thesis
    proof
      assume e: "s' = goto cs s"
      show ?thesis unfolding e goto_simps by (rule conjI [OF l(1) i(2)])
    next
      assume e: "s' = goto (dropWhile (\<lambda>c. c \<noteq> newline) (c # cs)) s"
      show ?thesis unfolding e goto_simps by (rule conjI [OF l(2) i(2)])
    qed
  qed
qed (use t in \<open>simp add: trivium_def\<close>)

lemma trivia_inv: "lex_inv s \<Longrightarrow> code_mode (lx_ctx s) \<Longrightarrow> lex_inv (trivia u s) \<and> code_mode (lx_ctx (trivia u s))"
proof (induction u s rule: trivia.induct)
  case (1 u s)
  show ?case
  proof (cases "trivium u s")
    case None
    with 1 show ?thesis by (simp add: trivia.simps [of u s])
  next
    case (Some s')
    from trivium_inv [OF "1.prems" this] "1.IH" [OF Some] Some show ?thesis by (simp add: trivia.simps [of u s])
  qed
qed

lemma scan_normal_inv: "lex_inv s \<Longrightarrow> code_mode (lx_ctx s) \<Longrightarrow> lex_inv (snd (scan_normal u s))"
  using trivia_inv [of s u] scan_token_inv [of "trivia u s" u] by (simp add: scan_normal_def Let_def)

section \<open>String bodies\<close>

lemma inv_text_push: "lex_inv s \<Longrightarrow> lx_ctx s = CxStr f # cs \<Longrightarrow> lex_inv (text_push c s)"
  unfolding text_push_def by (rule inv_escaped) (simp_all add: lex_inv_def)

lemma text_push_keeps [simp]: "lx_src (text_push c s) = lx_src s" "offset (text_push c s) r = offset s r" "pos (text_push c s) = pos s"
  by (simp_all add: text_push_def push_escaped_def pos_def)

text \<open>A rewriting of the pending text that does not make it up from nothing.\<close>

lemma inv_pending:
  assumes i: "lex_inv s" and f: "lx_ctx s = CxStr f # cs"
    and g: "sf_pending (g f) \<noteq> [] \<Longrightarrow> sf_pending f \<noteq> []" "sf_pending_start (g f) = sf_pending_start f"
  shows "lex_inv (upd_frame g s)"
proof -
  have c: "lx_ctx (upd_frame g s) = CxStr (g f) # cs" by (simp add: upd_frame_def f)
  have l: "levels (lx_ctx (upd_frame g s)) = levels (lx_ctx s)" "ctx_ok (lx_ctx (upd_frame g s)) = ctx_ok (lx_ctx s)"
    unfolding c f by (simp_all add: literal_ctx_def is_str_def)
  have "reached s \<le> reached (upd_frame g s) \<and> reached (upd_frame g s) \<le> pos s"
    using i g unfolding reached_def c f lex_inv_def by (auto simp: f)
  with i l show ?thesis by (auto simp: lex_inv_def intro: toks_ok_mono)
qed

lemma inv_same_text:
  "lex_inv s \<Longrightarrow> map blank_text ts = map blank_text (lx_tokens s) \<Longrightarrow> lex_inv (s\<lparr>lx_tokens := ts\<rparr>)"
proof -
  assume i: "lex_inv s" and t: "map blank_text ts = map blank_text (lx_tokens s)"
  have p: "pos (s\<lparr>lx_tokens := ts\<rparr>) = pos s" by (simp add: pos_def offset_def)
  have "reached (s\<lparr>lx_tokens := ts\<rparr>) = reached s" unfolding reached_def p by simp
  with i p toks_ok_cong [OF t] show ?thesis by (simp add: lex_inv_def)
qed

lemma dedent_pieces_blank: "map blank_text (fst (dedent_pieces column ps toks at)) = map blank_text toks"
proof (induction column ps toks at rule: dedent_pieces.induct)
  case (3 column i ps toks at)
  show ?case
  proof (cases "get_at toks i")
    case (Some t)
    show ?thesis
    proof (cases "tk_tok t")
      case (StrText x)
      have "map blank_text (toks[i := t\<lparr>tk_tok := StrText y\<rparr>]) = map blank_text toks" for y
        using Some StrText by (auto simp: map_update blank_text_def blank_tok_def intro!: list_update_same_conv [THEN iffD2])
      with 3 Some StrText show ?thesis by (simp add: Let_def case_prod_beta)
    qed (use 3 Some in simp_all)
  qed (use 3 in simp)
qed simp_all

lemma dedent_chunk_empty: "fst (dedent_chunk [] column at) = []"
  by simp

lemma margin_fault_inv:
  assumes i: "lex_inv s" and f: "lx_ctx s = CxStr f # cs"
  shows "lex_inv (margin_fault column margin line s) \<and> lx_ctx (margin_fault column margin line s) = CxStr (f\<lparr>sf_line_starts := []\<rparr>) # cs"
proof -
  have "lex_inv (upd_frame (\<lambda>f. f\<lparr>sf_line_starts := []\<rparr>) s)" by (rule inv_frame [OF i]) simp
  with f show ?thesis by (auto simp: margin_fault_def Let_def inv_error upd_frame_def split: option.split)
qed

lemma apply_dedent_inv:
  assumes i: "lex_inv s" and f: "lx_ctx s = CxStr f # cs"
  shows "lex_inv (apply_dedent s) \<and> (\<exists>f'. lx_ctx (apply_dedent s) = CxStr f' # cs)"
proof -
  define m where "m = line_before s"
  have clear: "lex_inv (upd_frame (\<lambda>f. f\<lparr>sf_line_starts := []\<rparr>) s')" if "lex_inv s'" for s'
    by (rule inv_frame [OF that]) simp
  have shape: "\<exists>f'. lx_ctx (upd_frame g s') = CxStr f' # cs" if "lx_ctx s' = CxStr x # cs" for g s' x
    using that by (simp add: upd_frame_def)
  show ?thesis
  proof (cases "list_all is_margin m \<and> nbytes m \<noteq> 0")
    case False
    have "lex_inv (lex_error c sp s)" "lx_ctx (lex_error c sp s) = CxStr f # cs" for c sp using i f by (simp_all add: inv_error)
    with False clear i f shape show ?thesis unfolding m_def by (auto simp: apply_dedent_def Let_def)
  next
    case True
    let ?g = "\<lambda>f. f\<lparr>sf_pending := drop_margin_end (nbytes m) (sf_pending f)\<rparr>"
    let ?s1 = "upd_frame ?g s"
    have i1: "lex_inv ?s1" by (rule inv_pending [OF i f]) (auto simp: drop_margin_end_def)
    have f1: "lx_ctx ?s1 = CxStr (?g f) # cs" by (simp add: upd_frame_def f)
    let ?s2 = "margin_fault (nbytes m) m (pos s - nbytes m) ?s1"
    note m2 = margin_fault_inv [OF i1 f1, of "nbytes m" m "pos s - nbytes m"]
    let ?p = "dedent_pieces (nbytes m) (sf_pieces (frame ?s1)) (lx_tokens ?s2)
      (sf_line_starts (frame ?s1) \<noteq> [] \<and> hd (sf_line_starts (frame ?s1)) = sf_body_start (frame ?s1))"
    let ?s3 = "?s2\<lparr>lx_tokens := fst ?p\<rparr>"
    have i3: "lex_inv ?s3" by (rule inv_same_text) (use m2 dedent_pieces_blank in auto)
    have f3: "lx_ctx ?s3 = CxStr ((?g f)\<lparr>sf_line_starts := []\<rparr>) # cs" using m2 by simp
    have "lex_inv (upd_frame (\<lambda>f. f\<lparr>sf_pending := fst (dedent_chunk (sf_pending f) (nbytes m) at)\<rparr>) ?s3)" for at
      by (rule inv_pending [OF i3 f3]) (auto simp: dedent_chunk_empty)
    moreover have "apply_dedent s = upd_frame (\<lambda>f. f\<lparr>sf_pending := fst (dedent_chunk (sf_pending f) (nbytes m) (snd ?p))\<rparr>) ?s3"
      using True unfolding apply_dedent_def m_def by (simp add: Let_def case_prod_beta)
    ultimately show ?thesis using shape [OF f3] by simp
  qed
qed

lemma close_string_inv:
  assumes i: "lex_inv s" and f: "lx_ctx s = CxStr f # cs"
  shows "lex_inv (close_string k s)"
proof -
  obtain s1 f1 where s1: "s1 = (if k = SkMultiline then apply_dedent s else s)" "lex_inv s1" "lx_ctx s1 = CxStr f1 # cs"
    using apply_dedent_inv [OF i f] i f by (cases "k = SkMultiline") auto
  from flush_text_inv [OF s1(2,3)] obtain f2 where s2: "lex_inv (flush_text s1)" "lx_ctx (flush_text s1) = CxStr f2 # cs" by blast
  let ?r = "drop (closing_length k) (lx_rest (flush_text s1))"
  have "lex_inv (pop_ctx (emit StrEnd ?r (flush_text s1)))"
    by (rule inv_token [OF s2(1), of ?r StrEnd])
      (use s2 inv_ctx [OF s2(1)] idle_top_tl [OF inv_ctx [OF s2(1)]] in \<open>auto simp: nest_tok_def suffix_drop\<close>)
  then show ?thesis by (simp add: close_string_def s1(1) [symmetric])
qed

lemma abandon_string_inv:
  assumes i: "lex_inv s" and f: "lx_ctx s = CxStr f # cs"
  shows "lex_inv (abandon_string s)"
proof -
  from flush_text_inv [OF i f] obtain f2 where s2: "lex_inv (flush_text s)" "lx_ctx (flush_text s) = CxStr f2 # cs" by blast
  have "lex_inv (pop_ctx (push StrEnd (empty_span (pos (flush_text s))) (flush_text s)))"
    by (rule inv_token [OF s2(1), of "lx_rest (flush_text s)" StrEnd])
      (use s2 inv_ctx [OF s2(1)] idle_top_tl [OF inv_ctx [OF s2(1)]] in \<open>auto simp: nest_tok_def empty_span_def pos_def\<close>)
  then show ?thesis by (simp add: abandon_string_def Let_def)
qed

lemma open_interpolation_inv:
  assumes i: "lex_inv s" and f: "lx_ctx s = CxStr f # cs" and r: "lx_rest s = cp CHR ''{'' # r"
  shows "lex_inv (open_interpolation k s)"
proof -
  from flush_text_inv [OF i f] obtain f2 where s2: "lex_inv (flush_text s)" "lx_ctx (flush_text s) = CxStr f2 # cs" "sf_pending f2 = []" by blast
  have r2: "lx_rest (flush_text s) = cp CHR ''{'' # r" using r by simp
  let ?e = "emit InterpStart r (flush_text s)"
  have "lex_inv (push_ctx CxInterp (if k = SkMultiline then upd_frame (\<lambda>f. f\<lparr>sf_pieces := sf_pieces f @ [PcInterp]\<rparr>) ?e else ?e))"
    by (rule inv_token [OF s2(1), of r InterpStart])
      (use s2 r2 inv_ctx [OF s2(1)] in \<open>auto simp: nest_tok_def in_code_def lexeme_def ascii_def idle_top_def idle_def upd_frame_def literal_ctx_def is_str_def suffix_ConsI\<close>)
  then show ?thesis by (cases "k = SkMultiline") (simp_all add: open_interpolation_def Let_def r)
qed

lemma push_escaped_goto: "push_escaped at c (goto r s) = goto r (push_escaped at c s)"
  by (auto simp: push_escaped_def upd_frame_def goto_def split: list.split ctx.split)

text \<open>What a round of a body keeps: the invariant and the contexts below the frame.\<close>

definition in_body :: "ctx list \<Rightarrow> lexer \<Rightarrow> bool" where
  "in_body cs s \<longleftrightarrow> lex_inv s \<and> (\<exists>f. lx_ctx s = CxStr f # cs)"

lemma body_goto: "in_body cs s \<Longrightarrow> suffix r (lx_rest s) \<Longrightarrow> in_body cs (goto r s)"
  by (auto simp: in_body_def intro: inv_goto)

lemma body_error [simp]: "in_body cs (lex_error c sp s) = in_body cs s"
  by (simp add: in_body_def inv_error)

lemma body_escaped:
  assumes "in_body cs s" "suffix r (lx_rest s)"
  shows "in_body cs (push_escaped (pos s) c (goto r s))"
proof -
  have "in_body cs (push_escaped (pos s) c s)"
    using assms(1) inv_text_push [of s _ cs c] unfolding in_body_def text_push_def by (auto simp: push_escaped_def upd_frame_def)
  then show ?thesis unfolding push_escaped_goto using assms(2) by (intro body_goto) simp_all
qed

lemma body_text: "in_body cs s \<Longrightarrow> suffix r (lx_rest s) \<Longrightarrow> in_body cs (goto r (text_push c s))"
  using body_escaped [of cs s r c] by (simp add: text_push_def push_escaped_goto)

lemma scan_escape_body:
  assumes i: "in_body cs s"
  shows "in_body cs (scan_escape s)"
proof (cases "tl (lx_rest s)")
  case Nil
  then show ?thesis using body_goto [OF i, of "[]"] by (simp add: scan_escape_def Let_def)
next
  case (Cons c r)
  have "suffix (c # r) (lx_rest s)" using suffix_tl [of "lx_rest s"] by (simp only: Cons)
  from suffix_order.trans [OF suffix_ConsI [OF suffix_order.refl] this] have sr: "suffix r (lx_rest s)" .
  have sx: "suffix x (lx_rest s)" if "suffix x r" for x using suffix_order.trans [OF that sr] .
  have g: "in_body cs (goto x s)" if "suffix x r" for x using body_goto [OF i sx [OF that]] .
  have p: "in_body cs (push_escaped (pos s) y (goto x s))" if "suffix x r" for x y using body_escaped [OF i sx [OF that]] .
  have h: "suffix (snd (hex_escape r)) r" by (rule hex_escape_suffix)
  have d: "suffix (dropWhile is_hex (tl r)) r" by (rule suffix_order.trans [OF suffix_dropWhile suffix_tl])
  have d2: "suffix (tl (dropWhile is_hex (tl r))) r" by (rule suffix_order.trans [OF suffix_tl d])
  have "in_body cs (scan_hex_escape (pos s) r s)"
    using g [OF h] p [OF h] by (simp add: scan_hex_escape_def Let_def case_prod_beta split: option.split)
  moreover have "in_body cs (scan_unicode_escape (pos s) r s)"
    using g [OF suffix_order.refl] g [OF d] g [OF d2] p [OF d2]
    by (simp add: scan_unicode_escape_def Let_def case_prod_beta split: option.split)
  ultimately show ?thesis using Cons g [OF suffix_order.refl] p [OF suffix_order.refl] by (simp add: scan_escape_def Let_def)
qed

lemma body_char_inv:
  assumes i: "in_body cs s"
  shows "case body_char k s of (None, s') \<Rightarrow> in_body cs s' | (Some _, s') \<Rightarrow> lex_inv s'"
proof (cases "lx_rest s")
  case (Cons c r)
  obtain f where l: "lex_inv s" and f: "lx_ctx s = CxStr f # cs" using i by (auto simp: in_body_def)
  have sx: "suffix r (lx_rest s)" "suffix (drop 2 (c # r)) (lx_rest s)" using Cons suffix_drop [of 2 "c # r"] by (simp_all add: suffix_ConsI)
  have e: "lex_inv (abandon_string (lex_error x y s))" for x y using abandon_string_inv [of "lex_error x y s" f cs] l f by (simp add: inv_error)
  have t: "in_body cs (goto r (text_push x s))" for x by (rule body_text [OF i sx(1)])
  have t2: "in_body cs (skip 2 (text_push x s))" for x using body_text [OF i sx(2), of x] Cons by (simp add: skip_def)
  have nl: "in_body cs (upd_frame (\<lambda>f. f\<lparr>sf_line_starts := n f\<rparr>) (goto r (text_push x s)))" for x n
    using t [of x] inv_frame [of "goto r (text_push x s)" "\<lambda>f. f\<lparr>sf_line_starts := n f\<rparr>"] by (auto simp: in_body_def upd_frame_def)
  have o: "c = cp CHR ''{'' \<Longrightarrow> lex_inv (open_interpolation k s)" using open_interpolation_inv [OF l f] Cons by simp
  have b: "in_body cs (goto r (lex_error x y s))" for x y using body_goto [of cs "lex_error x y s" r] i sx(1) by simp
  show ?thesis
    using close_string_inv [OF l f, of k] scan_escape_body [OF i] e t t2 nl o b Cons
    by (simp add: body_char_def Let_def)
qed (use i in \<open>simp add: body_char_def in_body_def\<close>)

lemma string_body_inv: "in_body cs s \<Longrightarrow> lex_inv (snd (string_body k s))"
proof (induction k s rule: string_body.induct)
  case (1 k s)
  obtain v s1 where b: "body_char k s = (v, s1)" by (cases "body_char k s")
  show ?case
  proof (cases v)
    case None
    with body_char_inv [OF "1.prems", of k] b have "in_body cs s1" by simp
    with "1.IH" b None show ?thesis by (simp add: string_body.simps [of k s])
  next
    case (Some x)
    with body_char_inv [OF "1.prems", of k] b show ?thesis by (simp add: string_body.simps [of k s])
  qed
qed

lemma scan_format_inv:
  assumes i: "lex_inv s" and c: "lx_ctx s = CxFmt # cs"
  shows "lex_inv (snd (scan_format_spec s))"
proof -
  let ?r = "dropWhile fmt_char (lx_rest s)" and ?x = "takeWhile fmt_char (lx_rest s)"
  define s1 where "s1 = (if ?x = [] then s else emit (FmtText ?x) ?r s)"
  have "lex_inv (emit (FmtText ?x) ?r s)"
    by (rule inv_token [OF i, of ?r "FmtText ?x"])
      (use c inv_ctx [OF i] in \<open>auto simp: nest_tok_def lexeme_def idle_top_def idle_def suffix_dropWhile\<close>)
  moreover have "?x = [] \<Longrightarrow> ?r = lx_rest s" by (metis append_Nil takeWhile_dropWhile_id)
  ultimately have s1: "lex_inv s1" "lx_ctx s1 = CxFmt # cs" "lx_rest s1 = ?r" using i c by (auto simp: s1_def)
  have e: "lex_inv (emit InterpEnd rs (pop_ctx s1))" if "lx_rest s1 = x # rs" for x rs
    by (rule inv_token [OF s1(1), of rs InterpEnd])
      (use that s1 inv_ctx [OF s1(1)] idle_top_tl [OF inv_ctx [OF s1(1)]] in \<open>auto simp: nest_tok_def suffix_ConsI\<close>)
  have o: "lex_inv (push_ctx CxInterp (emit InterpStart rs s1))" if "lx_rest s1 = cp CHR ''{'' # rs" for rs
    by (rule inv_token [OF s1(1), of rs InterpStart])
      (use that s1 inv_ctx [OF s1(1)] in \<open>auto simp: nest_tok_def in_code_def lexeme_def ascii_def idle_top_def idle_def suffix_ConsI\<close>)
  have "\<not> fmt_char x" if "?r = x # rs" for x rs using that by (metis dropWhile_eq_Cons_conv)
  then show ?thesis
    using e o s1 unfolding scan_format_spec_def Let_def s1_def [symmetric] by (auto simp: fmt_char_def split: list.split)
qed

lemma lex_round_inv: "lex_inv s \<Longrightarrow> lex_inv (snd (lex_round u s))"
proof (cases "lx_ctx s")
  case (Cons c cs)
  assume i: "lex_inv s"
  have "lex_inv (snd (scan_normal u s))" if "\<not> literal_ctx c"
    using scan_normal_inv [OF i] that Cons by (simp add: code_mode_def)
  with i Cons string_body_inv [of cs s] scan_format_inv [OF i, of cs] show ?thesis
    by (cases c) (auto simp: lex_round_def scan_string_body_def in_body_def literal_ctx_def is_str_def)
qed (use scan_normal_inv [of s u] in \<open>simp add: lex_round_def code_mode_def\<close>)

lemma run_inv: "lex_inv s \<Longrightarrow> lex_inv (run u s)"
proof (induction u s rule: run.induct)
  case (1 u s)
  obtain b s1 where r: "lex_round u s = (b, s1)" by (cases "lex_round u s")
  with lex_round_inv [OF "1.prems", of u] have i: "lex_inv s1" by simp
  show ?case
  proof (cases b)
    case True
    with "1.IH" [OF r [symmetric]] i r show ?thesis by (simp add: run.simps [of u s])
  next
    case False
    with i r show ?thesis by (simp add: run.simps [of u s])
  qed
qed

section \<open>The end of the input\<close>

lemma string_body_end: "string_body k s = (False, s') \<Longrightarrow> lx_rest s' = []"
proof (induction k s rule: string_body.induct)
  case (1 k s)
  obtain v s1 where b: "body_char k s = (v, s1)" by (cases "body_char k s")
  show ?case
  proof (cases v)
    case None
    with 1 b show ?thesis by (simp add: string_body.simps [of k s])
  next
    case (Some x)
    with 1 b have "body_char k s = (Some False, s')" by (simp add: string_body.simps [of k s])
    then show ?thesis by (auto simp: body_char_def Let_def split: list.splits if_splits)
  qed
qed

lemma lex_round_end: "lex_round u s = (False, s') \<Longrightarrow> lx_rest s' = []"
proof -
  assume r: "lex_round u s = (False, s')"
  have n: "scan_normal u s = (False, s') \<Longrightarrow> lx_rest s' = []" by (auto simp: scan_normal_def Let_def split: if_splits)
  have f: "scan_format_spec s = (False, s') \<Longrightarrow> lx_rest s' = []"
    by (auto simp: scan_format_spec_def Let_def dropWhile_eq_Nil_conv split: list.splits if_splits)
      (metis takeWhile_eq_all_conv dropWhile_eq_Nil_conv takeWhile.simps append_Nil2 takeWhile_dropWhile_id)
  from r n f string_body_end show ?thesis by (auto simp: lex_round_def scan_string_body_def split: list.splits ctx.splits)
qed

lemma run_end: "lx_rest (run u s) = []"
proof (induction u s rule: run.induct)
  case (1 u s)
  obtain b s1 where r: "lex_round u s = (b, s1)" by (cases "lex_round u s")
  show ?case
  proof (cases b)
    case True
    with "1.IH" [OF r [symmetric]] r show ?thesis by (simp add: run.simps [of u s])
  next
    case False
    with lex_round_end r show ?thesis by (simp add: run.simps [of u s])
  qed
qed

lemma close_ctxs_inv:
  "lex_inv (s\<lparr>lx_ctx := cs\<rparr>) \<Longrightarrow> lx_rest s = [] \<Longrightarrow> lex_inv (close_ctxs cs s) \<and> lx_ctx (close_ctxs cs s) = []"
proof (induction cs s rule: close_ctxs.induct)
  case (2 c cs s)
  have ok: "ctx_ok (c # cs)" "idle_top cs" using inv_ctx [OF "2.prems"(1)] idle_top_tl [of "c # cs"] by auto
  have p: "pos s = nbytes (lx_src s)" by (simp add: pos_def offset_def "2.prems"(2))
  have e: "lex_inv (push t (empty_span (nbytes (lx_src s))) (lex_error x y s)\<lparr>lx_ctx := cs\<rparr>)"
    if "nest_tok t (levels (c # cs)) = Some (levels cs)" "t = StrEnd \<or> t = InterpEnd" for t x y
    by (rule inv_token [OF "2.prems"(1), of "lx_rest s" t])
      (use that ok p in \<open>auto simp: push_def empty_span_def pos_def lex_error_def\<close>)
  have d: "lex_inv (s\<lparr>lx_ctx := cs\<rparr>)" if "delimiter c"
  proof -
    have "reached (s\<lparr>lx_ctx := c # cs\<rparr>) = pos s" "reached (s\<lparr>lx_ctx := cs\<rparr>) = pos s"
      using ok that delimiter_simps(3) [of c] by (simp_all add: reached_idle idle_top_def)
    with "2.prems" ok that show ?thesis by (simp add: lex_inv_def delimiter_simps del: levels.simps)
  qed
  show ?case
    using "2.IH" "2.prems"(2) e [of StrEnd] e [of InterpEnd] d
    by (cases c) (auto simp: Let_def nest_tok_def delimiter_def)
qed simp

lemma close_unterminated_inv: "lex_inv s \<Longrightarrow> lx_rest s = [] \<Longrightarrow> lex_inv (close_unterminated s) \<and> lx_ctx (close_unterminated s) = []"
  unfolding close_unterminated_def
proof (rule close_ctxs_inv)
  assume "lex_inv s"
  then show "lex_inv (s\<lparr>lx_open_at_eof := lx_ctx s \<noteq> [], lx_ctx := lx_ctx s\<rparr>)"
    using inv_cong [of "s\<lparr>lx_open_at_eof := lx_ctx s \<noteq> [], lx_ctx := lx_ctx s\<rparr>" s] by simp
qed simp

lemma close_ctxs_rest [simp]: "lx_rest (close_ctxs cs s) = lx_rest s" "lx_src (close_ctxs cs s) = lx_src s"
  by (induction cs s rule: close_ctxs.induct) (auto simp: Let_def split: ctx.split)

lemma end_terminator_inv:
  assumes i: "lex_inv s" and c: "lx_ctx s = []" and r: "lx_rest s = []"
  shows "lex_inv (insert_terminator_at_eof s)"
proof -
  have p: "pos s = nbytes (lx_src s)" by (simp add: pos_def offset_def r)
  have "lex_inv (push (Term False) (empty_span (nbytes (lx_src s))) s)"
    if "lx_tokens s \<noteq> []" "ends_a_statement (tk_tok (last (lx_tokens s)))"
    by (rule inv_token [OF i, of "[]" "Term False"])
      (use that c r p in \<open>auto simp: nest_tok_def in_code_def lexeme_def idle_top_def empty_span_def offset_def\<close>)
  with i show ?thesis by (auto simp: insert_terminator_at_eof_def)
qed

lemma file_start_suffix: "suffix (file_start src) src"
  by (simp add: file_start_def suffix_tl suffix_dropWhile)

lemma start_inv: "lex_inv (goto (file_start src) (new_lexer src))"
proof -
  have "lex_inv (new_lexer src)"
    by (simp add: lex_inv_def new_lexer_def reached_def toks_ok_def spans_ok_def terms_ok_def)
  then show ?thesis by (rule inv_goto) (simp add: new_lexer_def file_start_suffix)
qed

lemma lex_keeps: "lex_inv (lex u src) \<and> lx_ctx (lex u src) = []"
proof -
  let ?s = "close_unterminated (run u (goto (file_start src) (new_lexer src)))"
  have "lex_inv ?s \<and> lx_ctx ?s = []" by (rule close_unterminated_inv [OF run_inv [OF start_inv] run_end])
  moreover have "lx_rest ?s = []" using run_end by (simp add: close_unterminated_def)
  ultimately show ?thesis using end_terminator_inv [of ?s] by (auto simp: lex_def insert_terminator_at_eof_def)
qed

section \<open>The source stays\<close>

lemma string_src [simp]:
  "lx_src (text_push c s) = lx_src s" "lx_src (push_escaped at c s) = lx_src s" "lx_src (flush_text s) = lx_src s"
  "lx_src (apply_dedent s) = lx_src s" "lx_src (scan_escape s) = lx_src s"
  by (simp_all add: text_push_def push_escaped_def flush_text_def apply_dedent_def margin_fault_def scan_escape_def
      scan_hex_escape_def scan_unicode_escape_def Let_def case_prod_beta split: option.split list.split)

lemma body_char_src: "lx_src (snd (body_char k s)) = lx_src s"
  by (simp add: body_char_def close_string_def abandon_string_def open_interpolation_def Let_def split: list.split)

lemma string_body_src: "lx_src (snd (string_body k s)) = lx_src s"
proof (induction k s rule: string_body.induct)
  case (1 k s)
  obtain v s1 where b: "body_char k s = (v, s1)" by (cases "body_char k s")
  with 1 body_char_src [of k s] show ?case by (cases v) (simp_all add: string_body.simps [of k s])
qed

lemma trivia_src: "lx_src (trivia u s) = lx_src s"
proof (induction u s rule: trivia.induct)
  case (1 u s)
  show ?case
  proof (cases "trivium u s")
    case (Some s')
    then have "lx_src s' = lx_src s"
      by (auto simp: trivium_def unwind_plain_string_def split: list.splits if_splits option.splits)
    with "1.IH" [OF Some] Some show ?thesis by (simp add: trivia.simps [of u s])
  qed (simp add: trivia.simps [of u s])
qed

lemma enter_src [simp]: "lx_src (open_string u g r s) = lx_src s" "lx_src (open_raw_string r s) = lx_src s"
  by (simp_all add: open_string_def open_raw_string_def Let_def split: option.split)

lemma scanner_src [simp]: "lx_src (scan_word u s) = lx_src s" "lx_src (scan_number s) = lx_src s"
  "lx_src (scan_char_literal s) = lx_src s" "lx_src (close_bracket sp s) = lx_src s" "lx_src (close_brace sp s) = lx_src s"
  "lx_src (scan_colon r s) = lx_src s"
  by (simp_all add: scan_word_def scan_number_def scan_based_def scan_decimal_def scan_char_literal_def close_bracket_def
      close_brace_def scan_colon_def Let_def case_prod_beta split: option.split char_escape_error.split)

lemma scan_token_src: "lx_src (scan_token u s) = lx_src s"
proof (cases "lx_rest s")
  case (Cons c cs)
  have "lx_src (scan_single u c cs s) = lx_src s" by (simp add: scan_single_def Let_def split: option.split)
  then show ?thesis unfolding scan_token_def Cons list.case by (simp split: option.split)
qed (simp add: scan_token_def)

lemma lex_round_src: "lx_src (snd (lex_round u s)) = lx_src s"
  by (auto simp: lex_round_def scan_string_body_def scan_format_spec_def scan_normal_def string_body_src trivia_src scan_token_src Let_def
      split: list.split ctx.split)

lemma run_src: "lx_src (run u s) = lx_src s"
proof (induction u s rule: run.induct)
  case (1 u s)
  obtain b s1 where r: "lex_round u s = (b, s1)" by (cases "lex_round u s")
  with 1 lex_round_src [of u s] show ?case by (cases b) (simp_all add: run.simps [of u s])
qed

lemma lex_src: "lx_src (lex u src) = src"
  by (simp add: lex_def insert_terminator_at_eof_def close_unterminated_def run_src) (simp add: new_lexer_def)

end
