(* ===== verification/LexPrint.thy ===== *)
theory LexPrint
  imports LexProps
begin

text \<open>
  The lexer reads back what is printed with spaces: names, keywords, numbers and punctuation, each followed by
  a space, come back as exactly these tokens.
\<close>

section \<open>Printed tokens\<close>

text \<open>What the Unicode tables say of ASCII, and that a byte order mark is no letter.\<close>

definition ascii_classes :: "unicode \<Rightarrow> bool" where
  "ascii_classes u \<longleftrightarrow> (\<forall>c < 128. alphabetic u c \<longleftrightarrow> 65 \<le> c \<and> c \<le> 90 \<or> 97 \<le> c \<and> c \<le> 122) \<and>
     (\<forall>c < 128. numeric u c \<longleftrightarrow> is_ascii_digit c) \<and> \<not> alphabetic u 0xFEFF"

definition word :: "unicode \<Rightarrow> chars \<Rightarrow> bool" where
  "word u w \<longleftrightarrow> w \<noteq> [] \<and> (is_xid_start u (hd w) \<or> hd w = cp CHR ''_'') \<and> list_all (is_xid_continue u) w"

definition digits :: "chars \<Rightarrow> bool" where
  "digits w \<longleftrightarrow> w \<noteq> [] \<and> list_all is_ascii_digit w"

definition split_float :: "chars \<Rightarrow> bool" where
  "split_float w \<longleftrightarrow> (let a = takeWhile is_ascii_digit w; b = dropWhile is_ascii_digit w
     in digits a \<and> b \<noteq> [] \<and> hd b = cp CHR ''.'' \<and> digits (tl b))"

definition printable :: "unicode \<Rightarrow> tok \<Rightarrow> bool" where
  "printable u t \<longleftrightarrow>
     (case t of
        Ident w \<Rightarrow> word u w \<and> \<not> is_keyword w \<and> w \<noteq> ascii ''_''
      | Kw w \<Rightarrow> is_keyword w
      | Underscore \<Rightarrow> True
      | IntLit w \<Rightarrow> digits w
      | FloatLit w \<Rightarrow> split_float w
      | Term e \<Rightarrow> e
      | Punct p \<Rightarrow> p \<noteq> HashBracket \<and> p \<noteq> HashBangBracket
      | _ \<Rightarrow> False)"

definition spelling :: "tok \<Rightarrow> chars" where
  "spelling t = (case lexeme t of Some w \<Rightarrow> w | None \<Rightarrow> [])"

definition spaced :: "tok list \<Rightarrow> chars" where
  "spaced ts = concat (map (\<lambda>t. spelling t @ [32]) ts)"

section \<open>One token\<close>

text \<open>Outside literals, with no attribute just closed.\<close>

definition plain_code :: "lexer \<Rightarrow> bool" where
  "plain_code s \<longleftrightarrow> set (lx_ctx s) \<subseteq> {CxParen, CxBracket, CxBrace} \<and> lx_attr_close s = None"

definition reads :: "lexer \<Rightarrow> tok \<Rightarrow> chars \<Rightarrow> lexer \<Rightarrow> bool" where
  "reads s t r s' \<longleftrightarrow> plain_code s' \<and> lx_rest s' = r \<and> map tk_tok (lx_tokens s') = map tk_tok (lx_tokens s) @ [t]"

lemma attr_close_simps [simp]: "lx_attr_close (emit t r s) = lx_attr_close s" "lx_attr_close (goto r s) = lx_attr_close s"
  "lx_attr_close (push_ctx c s) = lx_attr_close s" "lx_attr_close (pop_delimiter c s) = lx_attr_close s"
  "lx_attr_close (push t sp s) = lx_attr_close s" "lx_attr_close (lex_error x sp s) = lx_attr_close s"
  by (simp_all add: emit_def goto_def push_def push_ctx_def pop_delimiter_def lex_error_def)

lemma reads_emit: "plain_code s \<Longrightarrow> reads s t r (emit t r s)"
  by (simp add: reads_def plain_code_def)

lemma reads_open: "plain_code s \<Longrightarrow> c \<in> {CxParen, CxBracket, CxBrace} \<Longrightarrow> reads s t r (emit t r (push_ctx c s))"
  by (auto simp: reads_def plain_code_def)

lemma plain_pop: "plain_code s \<Longrightarrow> plain_code (pop_delimiter c s)"
  by (cases "lx_ctx s") (auto simp: plain_code_def pop_delimiter_def)

lemma reads_close: "plain_code s \<Longrightarrow> reads s t r (emit t r (pop_delimiter c s))"
  using plain_pop [of s c] by (simp add: reads_def plain_code_def)

lemma plain_top: "plain_code s \<Longrightarrow> c \<notin> {CxParen, CxBracket, CxBrace} \<Longrightarrow> \<not> top_is c s"
  by (auto simp: plain_code_def top_is_def dest: hd_in_set)

lemma space_stops: "ascii_classes u \<Longrightarrow> \<not> is_xid_continue u 32"
  by (simp add: ascii_classes_def is_xid_continue_def is_ascii_digit_def)

lemma takeWhile_upto: "list_all P w \<Longrightarrow> \<not> P c \<Longrightarrow> takeWhile P (w @ c # r) = w \<and> dropWhile P (w @ c # r) = c # r"
  by (induction w) simp_all

lemma keyword_word: "is_keyword w \<Longrightarrow> w \<noteq> [] \<and> list_all (\<lambda>c. 97 \<le> c \<and> c \<le> 122) w \<and> w \<noteq> ascii ''_''"
  by (auto simp: is_keyword_def KEYWORDS_def ascii_def)

lemma reads_word:
  assumes u: "ascii_classes u" and s: "plain_code s" and r: "lx_rest s = w @ 32 # r" and w: "word u w"
  shows "reads s (if w = ascii ''_'' then Underscore else if is_keyword w then Kw w else Ident w) (32 # r) (scan_token u s)"
proof -
  obtain c cs where c: "w = c # cs" using w by (cases w) (auto simp: word_def)
  have st: "scan_token u s = scan_word u s" using w r unfolding c by (simp add: scan_token_def word_def)
  have "takeWhile (is_xid_continue u) (lx_rest s) = w \<and> dropWhile (is_xid_continue u) (lx_rest s) = 32 # r"
    unfolding r using w space_stops [OF u] by (intro takeWhile_upto) (simp_all add: word_def)
  then show ?thesis unfolding st by (simp add: scan_word_def Let_def starts_with_def ascii_def reads_emit [OF s])
qed

lemma digit_not_word: "ascii_classes u \<Longrightarrow> is_ascii_digit c \<Longrightarrow> \<not> (is_xid_start u c \<or> c = cp CHR ''_'')"
  by (auto simp: ascii_classes_def is_xid_start_def is_ascii_digit_def)

lemma digits_decimal: "digits w \<Longrightarrow> list_all decimal_char w"
  by (auto simp: digits_def decimal_char_def list_all_iff)

lemma digits_run: "digits w \<Longrightarrow> \<not> decimal_char c \<Longrightarrow> eat_decimal_run (w @ c # r) = c # r"
  using takeWhile_upto [OF digits_decimal] by (simp add: eat_decimal_run_def)

lemma digits_not_based: "digits w \<Longrightarrow> c \<in> {32, 46} \<Longrightarrow> based (w @ c # r) = None"
  by (cases w; cases "tl w") (auto simp: digits_def based_def base_radix_def is_ascii_digit_def)

lemma space_ends: "eat_fraction (32 # r) = None" "eat_exponent (32 # r) = None" "\<not> decimal_char 32" "\<not> decimal_char 46"
  by (auto simp: eat_fraction_def eat_exponent_def decimal_char_def is_ascii_digit_def split: list.split)

lemma reads_int:
  assumes u: "ascii_classes u" and s: "plain_code s" and r: "lx_rest s = w @ 32 # r" and w: "digits w"
  shows "reads s (IntLit w) (32 # r) (scan_token u s)"
proof -
  obtain c cs where c: "w = c # cs" "is_ascii_digit c" using w by (cases w) (auto simp: digits_def)
  have "scan_token u s = scan_number s" using digit_not_word [OF u c(2)] c r by (simp add: scan_token_def)
  also have "\<dots> = emit (IntLit w) (32 # r) s"
    using digits_not_based [OF w, of 32 r] digits_run [OF w, of 32 r] r
    by (simp add: scan_number_def scan_decimal_def space_ends consumed_def)
  finally show ?thesis by (simp add: reads_emit [OF s])
qed

lemma reads_float:
  assumes u: "ascii_classes u" and s: "plain_code s" and r: "lx_rest s = w @ 32 # r" and w: "split_float w"
  shows "reads s (FloatLit w) (32 # r) (scan_token u s)"
proof -
  have "dropWhile is_ascii_digit w = 46 # tl (dropWhile is_ascii_digit w)"
    using w by (cases "dropWhile is_ascii_digit w") (auto simp: split_float_def Let_def)
  then have "w = takeWhile is_ascii_digit w @ 46 # tl (dropWhile is_ascii_digit w)" by (metis takeWhile_dropWhile_id)
  with w obtain a b where ab: "w = a @ 46 # b" "digits a" "digits b" by (auto simp: split_float_def Let_def)
  obtain c cs where c: "a = c # cs" "is_ascii_digit c" using ab by (cases a) (auto simp: digits_def)
  obtain d ds where d: "b = d # ds" "is_ascii_digit d" "d \<noteq> 46" using ab(3) by (cases b) (auto simp: digits_def is_ascii_digit_def)
  have rest: "lx_rest s = a @ 46 # (b @ 32 # r)" using r ab(1) by simp
  have "scan_token u s = scan_number s" using digit_not_word [OF u c(2)] c rest by (simp add: scan_token_def)
  also have "\<dots> = emit (FloatLit w) (32 # r) s"
  proof -
    have "eat_fraction (46 # (b @ 32 # r)) = Some (32 # r)"
      using digits_run [OF ab(3), of 32 r] d by (simp add: eat_fraction_def space_ends)
    moreover have "consumed (lx_rest s) (32 # r) = w" using r by (simp add: consumed_def)
    ultimately show ?thesis
      using digits_not_based [OF ab(2), of 46 "b @ 32 # r"] digits_run [OF ab(2), of 46 "b @ 32 # r"] rest
      by (simp add: scan_number_def scan_decimal_def space_ends)
  qed
  finally show ?thesis by (simp add: reads_emit [OF s])
qed

lemma ascii_not_word: "ascii_classes u \<Longrightarrow> c < 65 \<or> 90 < c \<and> c < 97 \<or> 122 < c \<and> c < 128 \<Longrightarrow> \<not> is_xid_start u c"
  by (auto simp: ascii_classes_def is_xid_start_def)

lemma reads_term:
  assumes u: "ascii_classes u" and s: "plain_code s" and r: "lx_rest s = 59 # 32 # r"
  shows "reads s (Term True) (32 # r) (scan_token u s)"
proof -
  have "scan_token u s = emit (Term True) (32 # r) s"
    using ascii_not_word [OF u, of 59] r
    by (simp add: scan_token_def is_ascii_digit_def starts_with_def spelled_def punctuation_spelling_def ascii_def operators_def
        scan_single_def)
  then show ?thesis by (simp add: reads_emit [OF s])
qed

lemma reads_punct:
  assumes u: "ascii_classes u" and s: "plain_code s" and r: "lx_rest s = spelled p @ 32 # r"
    and p: "p \<noteq> HashBracket" "p \<noteq> HashBangBracket"
  shows "reads s (Punct p) (32 # r) (scan_token u s)"
proof -
  note [simp] = ascii_not_word [OF u] plain_top [OF s] reads_emit [OF s] reads_open [OF s] reads_close [OF s]
  have b: "reads s (Punct RBrace) (32 # r) (close_brace (mk_span (pos s) (offset s (32 # r))) (goto (32 # r) s))"
    using reads_close [OF s, of "Punct RBrace" "32 # r" CxBrace] by (simp add: close_brace_def emit_def)
  have k: "reads s (Punct RBracket) (32 # r) (close_bracket (mk_span (pos s) (offset s (32 # r))) (goto (32 # r) s))"
    using reads_close [OF s, of "Punct RBracket" "32 # r" CxBracket] by (simp add: close_bracket_def Let_def emit_def)
  show ?thesis
    using r p
    by (cases p) (simp_all add: scan_token_def is_ascii_digit_def starts_with_def spelled_def punctuation_spelling_def ascii_def
        operators_def scan_single_def single_operators_def scan_colon_def Let_def b k)
qed

section \<open>All of them\<close>

lemma keyword_is_word: "ascii_classes u \<Longrightarrow> is_keyword w \<Longrightarrow> word u w"
proof -
  assume u: "ascii_classes u" and k: "is_keyword w"
  have l: "is_xid_start u c \<and> is_xid_continue u c" if "97 \<le> c \<and> c \<le> 122" for c
    using u that by (simp add: ascii_classes_def is_xid_start_def is_xid_continue_def)
  show ?thesis using keyword_word [OF k] l by (cases w) (auto simp: word_def list_all_iff)
qed

lemma underscore_is_word: "word u (ascii ''_'')" "\<not> is_keyword (ascii ''_'')"
  by (auto simp: word_def ascii_def is_xid_continue_def is_keyword_def KEYWORDS_def)

lemma reads_printable:
  assumes "ascii_classes u" and "plain_code s" and "printable u t" and "lx_rest s = spelling t @ 32 # r"
  shows "reads s t (32 # r) (scan_token u s)"
proof (cases t)
  case (Ident w)
  with assms reads_word [OF assms(1,2), of w r] show ?thesis by (simp add: printable_def spelling_def lexeme_def)
next
  case (Kw w)
  with assms reads_word [OF assms(1,2), of w r] keyword_is_word [of u w] keyword_word [of w] show ?thesis
    by (simp add: printable_def spelling_def lexeme_def)
next
  case Underscore
  with assms reads_word [OF assms(1,2), of "ascii ''_''" r] underscore_is_word show ?thesis
    by (simp add: spelling_def lexeme_def)
next
  case (Term e)
  with assms reads_term [OF assms(1,2), of r] show ?thesis by (simp add: printable_def spelling_def lexeme_def ascii_def)
qed (use assms reads_int [OF assms(1,2)] reads_float [OF assms(1,2)] reads_punct [OF assms(1,2)] in
  \<open>simp_all add: printable_def spelling_def lexeme_def\<close>)

text \<open>A printed token is no trivia.\<close>

definition token_start :: "chars \<Rightarrow> bool" where
  "token_start r \<longleftrightarrow> r \<noteq> [] \<and> hd r \<noteq> newline \<and> \<not> inline_space (hd r) \<and> \<not> starts_with (ascii ''//'') r"

lemma trivia_stays: "token_start (lx_rest s) \<Longrightarrow> trivia u s = s"
  by (cases "lx_rest s") (auto simp: token_start_def trivium_def trivia.simps [of u s])

lemma trivia_at_end: "lx_rest s = [] \<Longrightarrow> trivia u s = s"
  by (simp add: trivium_def trivia.simps [of u s])

lemma trivia_space: "lx_rest s = 32 # r \<Longrightarrow> trivia u s = trivia u (goto r s)"
  by (simp add: trivium_def inline_space_def trivia.simps [of u s])

lemma starts_slash: "hd r \<noteq> 47 \<Longrightarrow> r \<noteq> [] \<Longrightarrow> \<not> starts_with (ascii ''//'') r"
  by (cases r) (auto dest: starts_slashes)

lemma word_start: "ascii_classes u \<Longrightarrow> word u w \<Longrightarrow> token_start (w @ r)"
proof -
  assume u: "ascii_classes u" and w: "word u w"
  have "\<not> hd w < 65" using w ascii_not_word [OF u, of "hd w"] by (auto simp: word_def)
  with w show ?thesis using starts_slash [of "w @ r"] by (auto simp: token_start_def word_def inline_space_def)
qed

lemma digits_start: "digits (takeWhile is_ascii_digit w) \<Longrightarrow> token_start (w @ r)"
proof -
  assume d: "digits (takeWhile is_ascii_digit w)"
  then obtain c cs where w: "w = c # cs" "is_ascii_digit c" by (cases w) (auto simp: digits_def split: if_splits)
  then show ?thesis using starts_slash [of "w @ r"] by (auto simp: token_start_def is_ascii_digit_def inline_space_def)
qed

lemma digits_all: "digits w \<Longrightarrow> takeWhile is_ascii_digit w = w"
  by (simp add: digits_def list_all_iff)

lemma printable_start:
  assumes u: "ascii_classes u" and t: "printable u t"
  shows "token_start (spelling t @ 32 # r)"
proof (cases t)
  case (Punct p)
  then show ?thesis
    by (cases p) (simp_all add: spelling_def lexeme_def token_start_def inline_space_def spelled_def punctuation_spelling_def
        ascii_def starts_with_def)
next
  case (FloatLit w)
  with t digits_start [of w] show ?thesis by (simp add: printable_def spelling_def lexeme_def split_float_def Let_def)
next
  case (IntLit w)
  with t digits_start [of w] digits_all [of w] show ?thesis by (simp add: printable_def spelling_def lexeme_def)
next
  case (Term e)
  with t show ?thesis by (simp add: printable_def spelling_def lexeme_def token_start_def inline_space_def ascii_def starts_with_def)
qed (use t word_start [OF u] keyword_is_word [OF u] underscore_is_word in
  \<open>auto simp: printable_def spelling_def lexeme_def\<close>)

lemma code_round: "plain_code s \<Longrightarrow> lex_round u s = scan_normal u s"
  by (auto simp: plain_code_def lex_round_def split: list.split ctx.split)

lemma plain_goto: "plain_code (goto r s) = plain_code s"
  by (simp add: plain_code_def)

lemma run_printed:
  assumes u: "ascii_classes u" and "list_all (printable u) ts" and "plain_code s" and "lx_rest s \<in> {spaced ts, 32 # spaced ts}"
  shows "plain_code (run u s) \<and> map tk_tok (lx_tokens (run u s)) = map tk_tok (lx_tokens s) @ ts"
  using assms(2-4)
proof (induction ts arbitrary: s)
  case Nil
  then have "lx_rest s = [] \<or> lx_rest s = [32]" by (simp add: spaced_def)
  then obtain r where "trivia u s = s \<or> trivia u s = goto r s" "lx_rest (trivia u s) = []"
    by (metis goto_simps(2) trivia_at_end trivia_space)
  with Nil show ?case by (auto simp: run.simps [of u s] code_round scan_normal_def Let_def plain_goto)
next
  case (Cons t ts)
  have sp: "spaced (t # ts) = spelling t @ 32 # spaced ts" by (simp add: spaced_def)
  define s1 where "s1 = goto (spaced (t # ts)) s"
  have at: "token_start (lx_rest s1)" using printable_start [OF u, of t] Cons.prems(1) by (simp add: s1_def sp)
  have tr: "trivia u s = s1"
  proof (cases "lx_rest s = 32 # spaced (t # ts)")
    case True
    then have "trivia u s = trivia u s1" unfolding s1_def by (rule trivia_space)
    with at show ?thesis by (simp add: trivia_stays)
  next
    case False
    with Cons.prems(3) have "s = s1" by (simp add: s1_def goto_def)
    with at show ?thesis by (simp add: trivia_stays)
  qed
  have rd: "reads s1 t (32 # spaced ts) (scan_token u s1)"
    by (rule reads_printable [OF u]) (use Cons.prems in \<open>simp_all add: s1_def plain_goto sp\<close>)
  have "lex_round u s = (True, scan_token u s1)"
    using Cons.prems(2) at by (simp add: code_round scan_normal_def tr token_start_def)
  then have "run u s = run u (scan_token u s1)" by (simp add: run.simps [of u s])
  moreover have "plain_code (run u (scan_token u s1)) \<and> map tk_tok (lx_tokens (run u (scan_token u s1))) =
      map tk_tok (lx_tokens (scan_token u s1)) @ ts"
    by (rule Cons.IH) (use Cons.prems(1) rd in \<open>simp_all add: reads_def\<close>)
  ultimately show ?case using rd by (simp add: reads_def s1_def)
qed

lemma close_code: "set cs \<subseteq> {CxParen, CxBracket, CxBrace} \<Longrightarrow> close_ctxs cs s = s\<lparr>lx_ctx := []\<rparr>"
  by (induction cs arbitrary: s) auto

lemma word_begins: "ascii_classes u \<Longrightarrow> word u w \<Longrightarrow> hd (w @ r) \<noteq> 0xFEFF \<and> \<not> starts_with (ascii ''#!'') (w @ r)"
  using ascii_not_word [of u 35] by (cases w) (auto simp: word_def ascii_classes_def is_xid_start_def starts_with_def ascii_def)

lemma printed_start:
  assumes u: "ascii_classes u" and ts: "list_all (printable u) ts"
  shows "file_start (spaced ts) = spaced ts"
proof (cases ts)
  case (Cons t us)
  have t: "printable u t" using ts Cons by simp
  have "hd (spelling t @ [32]) \<noteq> 0xFEFF \<and> \<not> starts_with (ascii ''#!'') (spelling t @ 32 # spaced us)"
  proof (cases t)
    case (Punct p)
    then show ?thesis using t
      by (cases p) (simp_all add: printable_def spelling_def lexeme_def spelled_def punctuation_spelling_def ascii_def starts_with_def)
  next
    case (Term e)
    with t show ?thesis by (simp add: printable_def spelling_def lexeme_def ascii_def starts_with_def)
  next
    case (IntLit w)
    with t show ?thesis by (cases w) (auto simp: printable_def spelling_def lexeme_def digits_def is_ascii_digit_def ascii_def starts_with_def)
  next
    case (FloatLit w)
    with t show ?thesis by (cases w) (auto simp: printable_def spelling_def lexeme_def split_float_def digits_def
          is_ascii_digit_def ascii_def starts_with_def split: if_splits)
  qed (use t word_begins [OF u] keyword_is_word [OF u] underscore_is_word in
    \<open>simp_all add: printable_def spelling_def lexeme_def\<close>)
  then show ?thesis by (cases "spelling t") (simp_all add: Cons file_start_def spaced_def starts_with_def)
qed (simp add: spaced_def file_start_def starts_with_def ascii_def)



end
