(* ===== verification/Json.thy ===== *)
theory Json
  imports LexScan "HOL-Library.AList"
begin

text \<open>
  The JSON reader behind the \<open>json_*\<close> builtins (\<open>json.rs\<close>): parsing, paths, rendering. The cursor of the
  parser is the text still to read, and a number keeps the text under its span.
\<close>

section \<open>Values\<close>

definition MAX_DEPTH :: nat where "MAX_DEPTH = 129"

datatype json_error = JParse | JMissing | JKind

datatype json =
    JObject "(chars \<times> json) list"
  | JArray "json list"
  | JStr chars
  | JNum chars
  | JBool bool
  | JNull

section \<open>Scalars of the grammar\<close>

definition is_ws :: "scalar \<Rightarrow> bool" where
  "is_ws c \<longleftrightarrow> c = 32 \<or> c = 9 \<or> c = newline \<or> c = carriage_return"

definition skip_ws :: "chars \<Rightarrow> chars" where
  "skip_ws r = dropWhile is_ws r"

definition literal :: "chars \<Rightarrow> json \<Rightarrow> chars \<Rightarrow> json_error + json \<times> chars" where
  "literal word v r = (if starts_with word r then Inr (v, drop (length word) r) else Inl JParse)"

definition eat_minus :: "chars \<Rightarrow> chars" where
  "eat_minus r = (if starts_with (ascii ''-'') r then tl r else r)"

definition eat_int :: "chars \<Rightarrow> chars option" where
  "eat_int r =
     (case r of
        [] \<Rightarrow> None
      | c # cs \<Rightarrow> if c = cp CHR ''0'' then Some cs
                  else if is_ascii_digit c then Some (dropWhile is_ascii_digit cs) else None)"

text \<open>One or more digits.\<close>

definition eat_digits :: "chars \<Rightarrow> chars option" where
  "eat_digits r = (case r of [] \<Rightarrow> None | c # cs \<Rightarrow> if is_ascii_digit c then Some (dropWhile is_ascii_digit cs) else None)"

definition eat_frac :: "chars \<Rightarrow> chars option" where
  "eat_frac r = (if starts_with (ascii ''.'') r then eat_digits (tl r) else Some r)"

definition eat_sign :: "chars \<Rightarrow> chars" where
  "eat_sign r = (if starts_with (ascii ''+'') r \<or> starts_with (ascii ''-'') r then tl r else r)"

definition eat_exp :: "chars \<Rightarrow> chars option" where
  "eat_exp r = (if starts_with (ascii ''e'') r \<or> starts_with (ascii ''E'') r then eat_digits (eat_sign (tl r)) else Some r)"

definition json_number :: "chars \<Rightarrow> json_error + json \<times> chars" where
  "json_number r =
     (case Option.bind (Option.bind (eat_int (eat_minus r)) eat_frac) eat_exp of
        None \<Rightarrow> Inl JParse
      | Some r' \<Rightarrow> Inr (JNum (consumed r r'), r'))"

section \<open>Strings\<close>

text \<open>\<open>u32::from_str_radix\<close> with radix 16 on four characters, where nothing overflows: a leading plus sign is
  accepted.\<close>

definition from_str_radix_16 :: "chars \<Rightarrow> nat option" where
  "from_str_radix_16 ds =
     (let body = (if starts_with (ascii ''+'') ds then tl ds else ds)
      in if body = [] \<or> \<not> list_all is_hex body then None else Some (foldl (\<lambda>v c. v * 16 + hex_value c) 0 body))"

definition hex4 :: "chars \<Rightarrow> json_error + nat \<times> chars" where
  "hex4 r =
     (if length r < 4 then Inl JParse
      else case from_str_radix_16 (take 4 r) of None \<Rightarrow> Inl JParse | Some v \<Rightarrow> Inr (v, drop 4 r))"

definition to_char :: "nat \<Rightarrow> chars \<Rightarrow> json_error + scalar \<times> chars" where
  "to_char v r = (case from_u32 v of None \<Rightarrow> Inl JParse | Some c \<Rightarrow> Inr (c, r))"

definition unicode_escape :: "chars \<Rightarrow> json_error + scalar \<times> chars" where
  "unicode_escape r =
     (case hex4 r of
        Inl e \<Rightarrow> Inl e
      | Inr (first, r1) \<Rightarrow>
          if 0xDC00 \<le> first \<and> first \<le> 0xDFFF then Inl JParse
          else if 0xD800 \<le> first \<and> first \<le> 0xDBFF then
            (if \<not> starts_with [backslash, cp CHR ''u''] r1 then Inl JParse
             else case hex4 (drop 2 r1) of
                    Inl e \<Rightarrow> Inl e
                  | Inr (second, r2) \<Rightarrow>
                      if \<not> (0xDC00 \<le> second \<and> second \<le> 0xDFFF) then Inl JParse
                      else to_char (0x10000 + (first - 0xD800) * 1024 + (second - 0xDC00)) r2)
          else to_char first r1)"

text \<open>The text after a backslash.\<close>

definition json_escape :: "chars \<Rightarrow> json_error + scalar \<times> chars" where
  "json_escape r =
     (case r of
        [] \<Rightarrow> Inl JParse
      | b # cs \<Rightarrow>
          if b = dquote then Inr (dquote, cs)
          else if b = backslash then Inr (backslash, cs)
          else if b = cp CHR ''/'' then Inr (cp CHR ''/'', cs)
          else if b = cp CHR ''b'' then Inr (8, cs)
          else if b = cp CHR ''f'' then Inr (12, cs)
          else if b = cp CHR ''n'' then Inr (newline, cs)
          else if b = cp CHR ''r'' then Inr (carriage_return, cs)
          else if b = cp CHR ''t'' then Inr (9, cs)
          else if b = cp CHR ''u'' then unicode_escape cs
          else Inl JParse)"

lemma hex4_shrinks: "hex4 r = Inr (v, r') \<Longrightarrow> length r' < length r"
  by (auto simp: hex4_def split: if_splits option.splits)

lemma to_char_rest: "to_char v r = Inr (c, r') \<Longrightarrow> r' = r"
  by (auto simp: to_char_def split: option.splits)

lemma unicode_escape_shrinks: "unicode_escape r = Inr (c, r') \<Longrightarrow> length r' < length r"
  by (fastforce simp: unicode_escape_def dest!: hex4_shrinks to_char_rest split: sum.splits prod.splits if_splits)

lemma json_escape_shrinks: "json_escape r = Inr (c, r') \<Longrightarrow> length r' < length r"
  by (auto simp: json_escape_def dest!: unicode_escape_shrinks split: list.splits if_splits)

text \<open>The body of a string after its opening quote, with what is decoded already in front.\<close>

function json_string :: "chars \<Rightarrow> chars \<Rightarrow> json_error + chars \<times> chars" where
  "json_string out [] = Inl JParse"
| "json_string out (c # cs) =
     (if c = dquote then Inr (out, cs)
      else if c = backslash then
        (case json_escape cs of Inl e \<Rightarrow> Inl e | Inr (x, r) \<Rightarrow> json_string (out @ [x]) r)
      else if c < 0x20 then Inl JParse
      else json_string (out @ [c]) cs)"
  by pat_completeness auto
termination
  by (relation "measure (\<lambda>(_, r). length r)") (auto dest: json_escape_shrinks intro: less_SucI)

lemma json_string_shrinks: "json_string out r = Inr (s, r') \<Longrightarrow> length r' < length r"
proof (induction out r rule: json_string.induct)
  case (2 out c cs)
  then show ?case by (fastforce dest: json_escape_shrinks split: if_splits sum.splits prod.splits)
qed simp

lemma skip_ws_length: "length (skip_ws r) \<le> length r"
  by (simp add: skip_ws_def length_dropWhile_le)

lemma eat_digits_shrinks: "eat_digits r = Some r' \<Longrightarrow> length r' < length r"
  by (auto simp: eat_digits_def less_Suc_eq_le length_dropWhile_le split: list.splits if_splits)

lemma eat_frac_length: "eat_frac r = Some r' \<Longrightarrow> length r' \<le> length r"
  by (fastforce simp: eat_frac_def dest: eat_digits_shrinks split: if_splits)

lemma eat_exp_length: "eat_exp r = Some r' \<Longrightarrow> length r' \<le> length r"
  by (fastforce simp: eat_exp_def eat_sign_def dest: eat_digits_shrinks split: if_splits)

lemma eat_int_shrinks: "eat_int r = Some r' \<Longrightarrow> length r' < length r"
  by (auto simp: eat_int_def less_Suc_eq_le length_dropWhile_le split: list.splits if_splits)

lemma json_number_shrinks: "json_number r = Inr (v, r') \<Longrightarrow> length r' < length r"
proof -
  assume "json_number r = Inr (v, r')"
  then obtain r1 r2 where "eat_int (eat_minus r) = Some r1" "eat_frac r1 = Some r2" "eat_exp r2 = Some r'"
    by (auto simp: json_number_def bind_eq_Some_conv split: option.splits)
  then have "length r' < length (eat_minus r)" using eat_int_shrinks eat_frac_length eat_exp_length by fastforce
  also have "\<dots> \<le> length r" by (simp add: eat_minus_def)
  finally show ?thesis .
qed

lemma literal_shrinks: "word \<noteq> [] \<Longrightarrow> literal word v r = Inr (w, r') \<Longrightarrow> length r' < length r"
  by (cases r) (auto simp: literal_def starts_with_def split: if_splits)

section \<open>Values and containers\<close>

text \<open>Depth counts the containers around a value. A repeated key keeps its first slot and takes the later
  value, which is \<open>AList.update\<close>.\<close>

function (sequential) json_value :: "nat \<Rightarrow> chars \<Rightarrow> json_error + json \<times> chars"
  and json_object :: "nat \<Rightarrow> chars \<Rightarrow> json_error + json \<times> chars"
  and json_members :: "nat \<Rightarrow> (chars \<times> json) list \<Rightarrow> chars \<Rightarrow> json_error + json \<times> chars"
  and json_array :: "nat \<Rightarrow> chars \<Rightarrow> json_error + json \<times> chars"
  and json_items :: "nat \<Rightarrow> json list \<Rightarrow> chars \<Rightarrow> json_error + json \<times> chars" where
  "json_value depth [] = Inl JParse"
| "json_value depth (c # cs) =
     (if c = cp CHR ''{'' then json_object (depth + 1) cs
      else if c = cp CHR ''['' then json_array (depth + 1) cs
      else if c = dquote then (case json_string [] cs of Inl e \<Rightarrow> Inl e | Inr (s, r) \<Rightarrow> Inr (JStr s, r))
      else if c = cp CHR ''t'' then literal (ascii ''true'') (JBool True) (c # cs)
      else if c = cp CHR ''f'' then literal (ascii ''false'') (JBool False) (c # cs)
      else if c = cp CHR ''n'' then literal (ascii ''null'') JNull (c # cs)
      else if c = cp CHR ''-'' \<or> is_ascii_digit c then json_number (c # cs)
      else Inl JParse)"
| "json_object depth cs =
     (if MAX_DEPTH < depth then Inl JParse
      else let r = skip_ws cs in if starts_with (ascii ''}'') r then Inr (JObject [], tl r) else json_members depth [] r)"
| "json_members depth members r =
     (let r1 = skip_ws r in
      if \<not> starts_with [dquote] r1 then Inl JParse
      else case json_string [] (tl r1) of
             Inl e \<Rightarrow> Inl e
           | Inr (key, r2) \<Rightarrow>
               let r3 = skip_ws r2 in
               if \<not> starts_with (ascii '':'') r3 then Inl JParse
               else case json_value depth (skip_ws (tl r3)) of
                      Inl e \<Rightarrow> Inl e
                    | Inr (v, r4) \<Rightarrow>
                        let members' = AList.update key v members; r5 = skip_ws r4 in
                        if starts_with (ascii '','') r5 then json_members depth members' (tl r5)
                        else if starts_with (ascii ''}'') r5 then Inr (JObject members', tl r5)
                        else Inl JParse)"
| "json_array depth cs =
     (if MAX_DEPTH < depth then Inl JParse
      else let r = skip_ws cs in if starts_with (ascii '']'') r then Inr (JArray [], tl r) else json_items depth [] r)"
| "json_items depth items r =
     (case json_value depth (skip_ws r) of
        Inl e \<Rightarrow> Inl e
      | Inr (v, r1) \<Rightarrow>
          let r2 = skip_ws r1 in
          if starts_with (ascii '','') r2 then json_items depth (items @ [v]) (tl r2)
          else if starts_with (ascii '']'') r2 then Inr (JArray (items @ [v]), tl r2)
          else Inl JParse)"
  by pat_completeness auto

lemma starts_nonempty: "starts_with (x # w) r \<Longrightarrow> Suc (length (tl r)) = length r"
  by (cases r) (auto simp: starts_with_def)

lemma key_shorter:
  "json_string [] (tl (skip_ws r)) = Inr (key, r2) \<Longrightarrow> length (skip_ws (tl (skip_ws r2))) < length r"
  using json_string_shrinks [of "[]" "tl (skip_ws r)"] skip_ws_length [of r] skip_ws_length [of r2]
    skip_ws_length [of "tl (skip_ws r2)"] by fastforce

lemma json_rest_shorter:
  "json_value_json_object_json_members_json_array_json_items_dom (Inl (Inl (d, r))) \<Longrightarrow>
     (\<forall>v r'. json_value d r = Inr (v, r') \<longrightarrow> length r' < length r)"
  "json_value_json_object_json_members_json_array_json_items_dom (Inl (Inr (d, r))) \<Longrightarrow>
     (\<forall>v r'. json_object d r = Inr (v, r') \<longrightarrow> length r' < length r)"
  "json_value_json_object_json_members_json_array_json_items_dom (Inr (Inl (d, ms, r))) \<Longrightarrow>
     (\<forall>v r'. json_members d ms r = Inr (v, r') \<longrightarrow> length r' < length r)"
  "json_value_json_object_json_members_json_array_json_items_dom (Inr (Inr (Inl (d, r)))) \<Longrightarrow>
     (\<forall>v r'. json_array d r = Inr (v, r') \<longrightarrow> length r' < length r)"
  "json_value_json_object_json_members_json_array_json_items_dom (Inr (Inr (Inr (d, is, r)))) \<Longrightarrow>
     (\<forall>v r'. json_items d is r = Inr (v, r') \<longrightarrow> length r' < length r)"
proof (induction rule: json_value_json_object_json_members_json_array_json_items.pinduct)
  case (2 depth c cs)
  then show ?case
    using literal_shrinks [of "ascii ''true''" _ "c # cs"] literal_shrinks [of "ascii ''false''" _ "c # cs"]
      literal_shrinks [of "ascii ''null''" _ "c # cs"] json_number_shrinks [of "c # cs"] json_string_shrinks [of "[]" cs]
    by (auto simp: json_value.psimps ascii_def less_SucI split: sum.splits)
next
  case (3 depth cs)
  show ?case
  proof (intro allI impI)
    fix v r' assume r: "json_object depth cs = Inr (v, r')"
    show "length r' < length cs"
    proof (cases "starts_with (ascii ''}'') (skip_ws cs)")
      case True
      with r 3(1) skip_ws_length [of cs] starts_nonempty show ?thesis
        by (fastforce simp: json_object.psimps Let_def ascii_def split: if_splits)
    next
      case False
      with r 3(1) have "json_members depth [] (skip_ws cs) = Inr (v, r')" "\<not> MAX_DEPTH < depth"
        by (auto simp: json_object.psimps Let_def split: if_splits)
      with "3.IH" [OF _ refl False] skip_ws_length [of cs] show ?thesis by fastforce
    qed
  qed
next
  case (4 depth members r)
  show ?case
  proof (intro allI impI)
    fix v r' assume "json_members depth members r = Inr (v, r')"
    then obtain key r2 x r4 where k: "starts_with [dquote] (skip_ws r)" "json_string [] (tl (skip_ws r)) = Inr (key, r2)"
      and c: "starts_with (ascii '':'') (skip_ws r2)" and v: "json_value depth (skip_ws (tl (skip_ws r2))) = Inr (x, r4)"
      and e: "json_members depth (AList.update key x members) (tl (skip_ws r4)) = Inr (v, r') \<and>
          starts_with (ascii '','') (skip_ws r4) \<or> r' = tl (skip_ws r4)"
      using 4(1) by (auto simp: json_members.psimps Let_def split: if_splits sum.splits)
    have "length r4 < length (skip_ws (tl (skip_ws r2)))" using "4.IH"(1) [OF refl _ k(2) refl refl] k(1) c v by blast
    also have "\<dots> < length r" by (rule key_shorter [OF k(2)])
    finally have "length r4 < length r" .
    moreover have "length r' \<le> length (tl (skip_ws r4))"
      using e "4.IH"(2) [OF refl _ k(2) refl refl _ v refl refl refl] k(1) c by (auto intro: less_imp_le)
    ultimately show "length r' < length r" using skip_ws_length [of r4] by simp
  qed
next
  case (5 depth cs)
  show ?case
  proof (intro allI impI)
    fix v r' assume r: "json_array depth cs = Inr (v, r')"
    show "length r' < length cs"
    proof (cases "starts_with (ascii '']'') (skip_ws cs)")
      case True
      with r 5(1) skip_ws_length [of cs] starts_nonempty show ?thesis
        by (fastforce simp: json_array.psimps Let_def ascii_def split: if_splits)
    next
      case False
      with r 5(1) have "json_items depth [] (skip_ws cs) = Inr (v, r')" "\<not> MAX_DEPTH < depth"
        by (auto simp: json_array.psimps Let_def split: if_splits)
      with "5.IH" [OF _ refl False] skip_ws_length [of cs] show ?thesis by fastforce
    qed
  qed
next
  case (6 depth items r)
  show ?case
  proof (intro allI impI)
    fix v r' assume "json_items depth items r = Inr (v, r')"
    then obtain x r1 where v: "json_value depth (skip_ws r) = Inr (x, r1)"
      and e: "json_items depth (items @ [x]) (tl (skip_ws r1)) = Inr (v, r') \<and>
          starts_with (ascii '','') (skip_ws r1) \<or> r' = tl (skip_ws r1)"
      using 6(1) by (auto simp: json_items.psimps Let_def split: if_splits sum.splits)
    have "length r1 < length r" using "6.IH"(1) v skip_ws_length [of r] by fastforce
    moreover have "length r' \<le> length (tl (skip_ws r1))" using e "6.IH"(2) [OF v refl refl] by (auto intro: less_imp_le)
    ultimately show "length r' < length r" using skip_ws_length [of r1] by simp
  qed
qed (simp add: json_value.psimps)

lemma item_shorter:
  assumes "json_value d (skip_ws r) = Inr (v, r')"
    and "json_value_json_object_json_members_json_array_json_items_dom (Inl (Inl (d, skip_ws r)))"
  shows "length (skip_ws r') < length r"
proof -
  have "length r' < length (skip_ws r)" using assms json_rest_shorter(1) by blast
  then show ?thesis using skip_ws_length [of r] skip_ws_length [of r'] by simp
qed

lemma member_shorter:
  assumes "json_string [] (tl (skip_ws r)) = Inr (key, r2)" and "json_value d (skip_ws (tl (skip_ws r2))) = Inr (v, r')"
    and "json_value_json_object_json_members_json_array_json_items_dom (Inl (Inl (d, skip_ws (tl (skip_ws r2)))))"
  shows "length (skip_ws r') < length r"
proof -
  have "length r' < length (skip_ws (tl (skip_ws r2)))" using assms json_rest_shorter(1) by blast
  then show ?thesis using key_shorter [OF assms(1)] skip_ws_length [of r'] by simp
qed

termination json_value
proof (relation "measure (case_sum (case_sum (\<lambda>(_, r). 3 * length r) (\<lambda>(_, r). 3 * length r + 1))
      (case_sum (\<lambda>(_, _, r). 3 * length r) (case_sum (\<lambda>(_, r). 3 * length r + 2) (\<lambda>(_, _, r). 3 * length r + 1))))",
    goal_cases)
  case (6 depth members r x b key y xb ba v ya xd xe)
  then have "length (skip_ws ya) < length r" by (metis member_shorter)
  with 6 show ?case by (simp add: in_measure)
next
  case (9 depth items r b v y xa)
  then have "length (skip_ws y) < length r" by (metis item_shorter)
  with 9 show ?case by (simp add: in_measure)
qed (auto simp: less_Suc_eq_le skip_ws_length key_shorter)

declare json_value.simps(2) [simp del] json_object.simps [simp del] json_members.simps [simp del] json_array.simps [simp del]
  json_items.simps [simp del]

text \<open>The whole text is one value between insignificant white space.\<close>

definition json_parse :: "chars \<Rightarrow> json_error + json" where
  "json_parse text =
     (case json_value 0 (skip_ws text) of
        Inl e \<Rightarrow> Inl e
      | Inr (v, r) \<Rightarrow> if skip_ws r = [] then Inr v else Inl JParse)"

section \<open>Paths\<close>

fun split_dots :: "chars \<Rightarrow> chars list" where
  "split_dots [] = [[]]"
| "split_dots (c # cs) =
     (if c = cp CHR ''.'' then [] # split_dots cs
      else case split_dots cs of [] \<Rightarrow> [[c]] | p # ps \<Rightarrow> (c # p) # ps)"

text \<open>\<open>str::parse::<usize>\<close> on digits.\<close>

definition parse_usize :: "chars \<Rightarrow> nat option" where
  "parse_usize ds = (let n = foldl (\<lambda>v c. v * 10 + (c - cp CHR ''0'')) 0 ds in if n \<le> u64_max then Some n else None)"

definition step_into :: "json \<Rightarrow> chars \<Rightarrow> json_error + json" where
  "step_into v segment =
     (case v of
        JArray items \<Rightarrow>
          if segment = [] \<or> \<not> list_all is_ascii_digit segment then Inl JMissing
          else (case parse_usize segment of
                  None \<Rightarrow> Inl JMissing
                | Some i \<Rightarrow> (case get_at items i of None \<Rightarrow> Inl JMissing | Some w \<Rightarrow> Inr w))
      | JObject members \<Rightarrow> (case map_of members segment of None \<Rightarrow> Inl JMissing | Some w \<Rightarrow> Inr w)
      | _ \<Rightarrow> Inl JMissing)"

fun walk_path :: "json \<Rightarrow> chars list \<Rightarrow> json_error + json" where
  "walk_path v [] = Inr v"
| "walk_path v (p # ps) = (case step_into v p of Inl e \<Rightarrow> Inl e | Inr w \<Rightarrow> walk_path w ps)"

definition resolve_path :: "json \<Rightarrow> chars \<Rightarrow> json_error + json" where
  "resolve_path root path = (if path = [] then Inr root else walk_path root (split_dots path))"

section \<open>Rendering\<close>

definition hex_digit :: "nat \<Rightarrow> scalar" where
  "hex_digit n = (if n < 10 then cp CHR ''0'' + n else cp CHR ''a'' + (n - 10))"

definition encode_char :: "scalar \<Rightarrow> chars" where
  "encode_char c =
     (if c = dquote then [backslash, dquote]
      else if c = backslash then [backslash, backslash]
      else if c = 9 then [backslash, cp CHR ''t'']
      else if c = newline then [backslash, cp CHR ''n'']
      else if c = carriage_return then [backslash, cp CHR ''r'']
      else if c < 0x20 then [backslash, cp CHR ''u'', cp CHR ''0'', cp CHR ''0'', hex_digit (c div 16), hex_digit (c mod 16)]
      else [c])"

definition encode_str :: "chars \<Rightarrow> chars" where
  "encode_str s = dquote # concat (map encode_char s) @ [dquote]"

text \<open>The flag of the loops says whether an element is the first.\<close>

fun compact :: "json \<Rightarrow> chars"
  and compact_members :: "bool \<Rightarrow> (chars \<times> json) list \<Rightarrow> chars"
  and compact_items :: "bool \<Rightarrow> json list \<Rightarrow> chars" where
  "compact (JObject members) = ascii ''{'' @ compact_members True members @ ascii ''}''"
| "compact (JArray items) = ascii ''['' @ compact_items True items @ ascii '']''"
| "compact (JStr s) = encode_str s"
| "compact (JNum w) = w"
| "compact (JBool b) = (if b then ascii ''true'' else ascii ''false'')"
| "compact JNull = ascii ''null''"
| "compact_members first [] = []"
| "compact_members first ((key, v) # ms) =
     (if first then [] else ascii '','') @ encode_str key @ ascii '':'' @ compact v @ compact_members False ms"
| "compact_items first [] = []"
| "compact_items first (v # vs) = (if first then [] else ascii '','') @ compact v @ compact_items False vs"

section \<open>The builtins\<close>

definition trim_ws :: "chars \<Rightarrow> chars" where
  "trim_ws text = rev (skip_ws (rev (skip_ws text)))"

definition json_at :: "chars \<Rightarrow> chars \<Rightarrow> json_error + json" where
  "json_at text path = (case json_parse text of Inl e \<Rightarrow> Inl e | Inr root \<Rightarrow> resolve_path root path)"

definition json_valid :: "chars \<Rightarrow> bool" where
  "json_valid text \<longleftrightarrow> (case json_parse text of Inl _ \<Rightarrow> False | Inr _ \<Rightarrow> True)"

definition json_get :: "chars \<Rightarrow> chars \<Rightarrow> json_error + chars" where
  "json_get text path =
     (case json_at text path of
        Inl e \<Rightarrow> Inl e
      | Inr v \<Rightarrow> Inr (case v of
            JStr s \<Rightarrow> s
          | JNum w \<Rightarrow> w
          | JBool b \<Rightarrow> if b then ascii ''true'' else ascii ''false''
          | JNull \<Rightarrow> ascii ''null''
          | _ \<Rightarrow> if path = [] then trim_ws text else compact v))"

definition json_kind :: "chars \<Rightarrow> chars \<Rightarrow> json_error + string" where
  "json_kind text path =
     (case json_at text path of
        Inl e \<Rightarrow> Inl e
      | Inr v \<Rightarrow> Inr (case v of
            JObject _ \<Rightarrow> ''object''
          | JArray _ \<Rightarrow> ''array''
          | JStr _ \<Rightarrow> ''str''
          | JNum _ \<Rightarrow> ''num''
          | JBool _ \<Rightarrow> ''bool''
          | JNull \<Rightarrow> ''null''))"

definition json_len :: "chars \<Rightarrow> chars \<Rightarrow> json_error + nat" where
  "json_len text path =
     (case json_at text path of
        Inl e \<Rightarrow> Inl e
      | Inr v \<Rightarrow> (case v of JArray items \<Rightarrow> Inr (length items) | JObject members \<Rightarrow> Inr (length members) | _ \<Rightarrow> Inl JKind))"

end
