(* ===== verification/JsonProps.thy ===== *)
theory JsonProps
  imports Json
begin

text \<open>
  What the JSON reader promises: the number grammar, the round trip of rendered values, the last value of a
  repeated key, queries into a rendered container, and the depth limit.
\<close>

section \<open>Strings\<close>

lemma control_escape: "c < 32 \<Longrightarrow> unicode_escape (48 # 48 # hex_digit (c div 16) # hex_digit (c mod 16) # x) = Inr (c, x)"
proof -
  assume "c < 32"
  then have "c \<in> set [0..<32]" by simp
  moreover have "list_all (\<lambda>c. unicode_escape (48 # 48 # hex_digit (c div 16) # hex_digit (c mod 16) # x) = Inr (c, x)) [0..<32]"
    by (simp add: upt_rec unicode_escape_def hex4_def from_str_radix_16_def hex_digit_def is_hex_def to_digit_def
        is_ascii_digit_def hex_value_def to_char_def from_u32_def starts_with_def ascii_def)
  ultimately show ?thesis by (simp only: list_all_iff)
qed

lemma decode_char: "json_string out (encode_char c @ x) = json_string (out @ [c]) x"
  using control_escape [of c x] by (simp add: encode_char_def json_escape_def)

lemma decode_text: "json_string out (concat (map encode_char s) @ dquote # x) = Inr (out @ s, x)"
  by (induction s arbitrary: out) (simp_all add: decode_char)

section \<open>Numbers\<close>

text \<open>The grammar of RFC 8259.\<close>

definition some_digits :: "chars \<Rightarrow> bool" where
  "some_digits ds \<longleftrightarrow> ds \<noteq> [] \<and> list_all is_ascii_digit ds"

definition int_text :: "chars \<Rightarrow> bool" where
  "int_text i \<longleftrightarrow> i = ascii ''0'' \<or> some_digits i \<and> hd i \<noteq> cp CHR ''0''"

definition frac_text :: "chars \<Rightarrow> bool" where
  "frac_text f \<longleftrightarrow> f = [] \<or> (\<exists>ds. f = ascii ''.'' @ ds \<and> some_digits ds)"

definition exp_text :: "chars \<Rightarrow> bool" where
  "exp_text e \<longleftrightarrow> e = [] \<or> (\<exists>m s ds. e = m @ s @ ds \<and> m \<in> {ascii ''e'', ascii ''E''} \<and> s \<in> {[], ascii ''+'', ascii ''-''} \<and> some_digits ds)"

definition number_text :: "chars \<Rightarrow> bool" where
  "number_text w \<longleftrightarrow> (\<exists>s i f e. w = s @ i @ f @ e \<and> s \<in> {[], ascii ''-''} \<and> int_text i \<and> frac_text f \<and> exp_text e)"

text \<open>A character that would not carry a number on.\<close>

definition number_stops :: "chars \<Rightarrow> bool" where
  "number_stops r \<longleftrightarrow> (case r of [] \<Rightarrow> True | c # _ \<Rightarrow> \<not> is_ascii_digit c \<and> c \<notin> set (ascii ''.eE''))"

definition digits_stop :: "chars \<Rightarrow> bool" where
  "digits_stop r \<longleftrightarrow> (case r of [] \<Rightarrow> True | c # _ \<Rightarrow> \<not> is_ascii_digit c)"

lemma digits_run_stop: "list_all is_ascii_digit ds \<Longrightarrow> digits_stop r \<Longrightarrow> dropWhile is_ascii_digit (ds @ r) = r"
  by (induction ds) (auto simp: digits_stop_def split: list.splits)

lemma digits_split: "\<exists>ds. list_all is_ascii_digit ds \<and> cs = ds @ dropWhile is_ascii_digit cs"
  by (rule exI [of _ "takeWhile is_ascii_digit cs"]) (auto simp: list_all_iff dest: set_takeWhileD)

lemma eat_digits_reads: "some_digits ds \<Longrightarrow> digits_stop r \<Longrightarrow> eat_digits (ds @ r) = Some r"
  by (cases ds) (auto simp: some_digits_def eat_digits_def digits_run_stop)

lemma eat_digits_shape: "eat_digits r = Some r' \<Longrightarrow> \<exists>ds. some_digits ds \<and> r = ds @ r'"
proof -
  assume e: "eat_digits r = Some r'"
  then obtain c cs where c: "r = c # cs" "is_ascii_digit c" "r' = dropWhile is_ascii_digit cs"
    by (auto simp: eat_digits_def split: list.splits if_splits)
  obtain ds where "list_all is_ascii_digit ds" "cs = ds @ r'" unfolding c(3) using digits_split [of cs] by blast
  with c(1,2) show ?thesis by (intro exI [of _ "c # ds"]) (simp add: some_digits_def)
qed

lemma exp_head: "exp_text e \<Longrightarrow> e = [] \<or> (\<exists>c cs. e = c # cs \<and> (c = 101 \<or> c = 69))"
  by (auto simp: exp_text_def ascii_def)

lemma frac_head: "frac_text f \<Longrightarrow> f = [] \<or> (\<exists>cs. f = 46 # cs)"
  by (auto simp: frac_text_def ascii_def)

lemma stop_end: "number_stops r \<Longrightarrow> digits_stop r \<and> \<not> starts_with (ascii ''.'') r \<and> \<not> starts_with (ascii ''e'') r \<and> \<not> starts_with (ascii ''E'') r"
  by (cases r) (simp_all add: digits_stop_def number_stops_def starts_with_def ascii_def)

lemma stop_exp: "exp_text e \<Longrightarrow> number_stops r \<Longrightarrow> digits_stop (e @ r) \<and> \<not> starts_with (ascii ''.'') (e @ r)"
proof -
  assume "exp_text e" and r: "number_stops r"
  then consider "e = []" | c cs where "e = c # cs" "c = 101 \<or> c = 69" using exp_head by blast
  then show ?thesis
    by cases (use stop_end [OF r] in \<open>auto simp: digits_stop_def starts_with_def ascii_def is_ascii_digit_def\<close>)
qed

lemma stop_frac: "frac_text f \<Longrightarrow> exp_text e \<Longrightarrow> number_stops r \<Longrightarrow> digits_stop (f @ e @ r)"
proof -
  assume "frac_text f" and r: "exp_text e" "number_stops r"
  then consider "f = []" | cs where "f = 46 # cs" using frac_head by blast
  then show ?thesis by cases (use stop_exp [OF r] in \<open>auto simp: digits_stop_def is_ascii_digit_def\<close>)
qed

lemma eat_sign_reads: "some_digits ds \<Longrightarrow> z \<in> {[], ascii ''+'', ascii ''-''} \<Longrightarrow> eat_sign (z @ ds @ r) = ds @ r"
  by (cases ds) (auto simp: eat_sign_def starts_with_def ascii_def some_digits_def is_ascii_digit_def)

lemma eat_exp_reads: "exp_text e \<Longrightarrow> number_stops r \<Longrightarrow> eat_exp (e @ r) = Some r"
proof -
  assume e: "exp_text e" and r: "number_stops r"
  show ?thesis
  proof (cases "e = []")
    case True
    with stop_end [OF r] show ?thesis by (simp add: eat_exp_def)
  next
    case False
    with e obtain m z ds where e: "e = m @ z @ ds" "m \<in> {ascii ''e'', ascii ''E''}" "z \<in> {[], ascii ''+'', ascii ''-''}" "some_digits ds"
      by (auto simp: exp_text_def)
    have "tl (e @ r) = z @ ds @ r" "starts_with (ascii ''e'') (e @ r) \<or> starts_with (ascii ''E'') (e @ r)"
      using e(1,2) by (auto simp: starts_with_def ascii_def)
    then show ?thesis using eat_sign_reads [OF e(4,3), of r] eat_digits_reads [OF e(4), of r] stop_end [OF r]
      by (simp add: eat_exp_def)
  qed
qed

lemma number_reads:
  assumes "number_text w" and r: "number_stops r"
  shows "json_number (w @ r) = Inr (JNum w, r)"
proof -
  obtain s i f e where w: "w = s @ i @ f @ e" "s \<in> {[], ascii ''-''}" "int_text i" "frac_text f" "exp_text e"
    using assms by (auto simp: number_text_def)
  have m: "eat_minus (w @ r) = i @ f @ e @ r"
    using w(2,3) by (auto simp: w(1) eat_minus_def starts_with_def ascii_def int_text_def some_digits_def is_ascii_digit_def
        neq_Nil_conv)
  have i: "eat_int (i @ f @ e @ r) = Some (f @ e @ r)"
    using w(3) digits_run_stop [OF _ stop_frac [OF w(4,5) r], of "tl i"]
    by (cases i) (auto simp: int_text_def eat_int_def some_digits_def ascii_def)
  have f: "eat_frac (f @ e @ r) = Some (e @ r)"
    using w(4) stop_exp [OF w(5) r] eat_digits_reads
    by (auto simp: frac_text_def eat_frac_def starts_with_def ascii_def)
  have e: "eat_exp (e @ r) = Some r" by (rule eat_exp_reads [OF w(5) r])
  show ?thesis using m i f e by (simp add: json_number_def consumed_def)
qed

lemma eat_sign_split:
  obtains z where "r = z @ eat_sign r" "z \<in> {[], ascii ''+'', ascii ''-''}"
proof (cases "starts_with (ascii ''-'') r \<or> starts_with (ascii ''+'') r")
  case True
  then have "r = take 1 r @ eat_sign r \<and> take 1 r \<in> {ascii ''+'', ascii ''-''}"
    by (cases r) (auto simp: eat_sign_def starts_with_def ascii_def)
  then show ?thesis by (intro that [of "take 1 r"]) auto
next
  case False
  then show ?thesis by (intro that [of "[]"]) (simp_all add: eat_sign_def)
qed

lemma number_shape:
  assumes "json_number r = Inr (v, r')"
  shows "\<exists>w. v = JNum w \<and> number_text w"
proof -
  obtain r1 r2 where p: "eat_int (eat_minus r) = Some r1" "eat_frac r1 = Some r2" "eat_exp r2 = Some r'"
    and v: "v = JNum (consumed r r')"
    using assms by (auto simp: json_number_def bind_eq_Some_conv split: option.splits)
  obtain s where s: "r = s @ eat_minus r" "s \<in> {[], ascii ''-''}"
  proof (cases "starts_with (ascii ''-'') r")
    case True
    then show ?thesis by (intro that [of "ascii ''-''"]; cases r) (auto simp: eat_minus_def starts_with_def ascii_def)
  next
    case False
    then show ?thesis by (intro that [of "[]"]) (simp_all add: eat_minus_def)
  qed
  obtain i where i: "eat_minus r = i @ r1" "int_text i"
  proof -
    obtain c cs where c: "eat_minus r = c # cs" using p(1) by (cases "eat_minus r") (auto simp: eat_int_def)
    show ?thesis
    proof (cases "c = cp CHR ''0''")
      case True
      with c p(1) show ?thesis by (intro that [of "[c]"]) (simp_all add: eat_int_def int_text_def ascii_def)
    next
      case False
      with c p(1) have "eat_digits (eat_minus r) = Some r1" by (auto simp: eat_int_def eat_digits_def split: if_splits)
      then obtain ds where ds: "some_digits ds" "eat_minus r = ds @ r1" by (blast dest: eat_digits_shape)
      moreover have "hd ds = c" using ds c by (cases ds) (auto simp: some_digits_def)
      ultimately show ?thesis using False by (intro that [of ds]) (simp_all add: int_text_def)
    qed
  qed
  obtain f where f: "r1 = f @ r2" "frac_text f"
  proof (cases "starts_with (ascii ''.'') r1")
    case True
    then have "r1 = ascii ''.'' @ tl r1" by (cases r1) (auto simp: starts_with_def ascii_def)
    moreover obtain ds where "some_digits ds" "tl r1 = ds @ r2" using p(2) True by (auto simp: eat_frac_def dest: eat_digits_shape)
    ultimately show ?thesis by (intro that [of "ascii ''.'' @ ds"]) (auto simp: frac_text_def)
  next
    case False
    with p(2) show ?thesis by (intro that [of "[]"]) (simp_all add: eat_frac_def frac_text_def)
  qed
  obtain e where e: "r2 = e @ r'" "exp_text e"
  proof (cases "starts_with (ascii ''e'') r2 \<or> starts_with (ascii ''E'') r2")
    case True
    then obtain m where m: "r2 = m @ tl r2" "m \<in> {ascii ''e'', ascii ''E''}"
      by (cases r2) (auto simp: starts_with_def ascii_def)
    obtain z where z: "tl r2 = z @ eat_sign (tl r2)" "z \<in> {[], ascii ''+'', ascii ''-''}"
      by (rule eat_sign_split)
    obtain ds where "some_digits ds" "eat_sign (tl r2) = ds @ r'" using p(3) True by (auto simp: eat_exp_def dest: eat_digits_shape)
    with m z show ?thesis by (intro that [of "m @ z @ ds"]) (auto simp: exp_text_def)
  next
    case False
    with p(3) show ?thesis by (intro that [of "[]"]) (simp_all add: eat_exp_def exp_text_def)
  qed
  have "r = (s @ i @ f @ e) @ r'" using s i f e by simp
  then have "consumed r r' = s @ i @ f @ e" by (simp add: consumed_def)
  with v s i f e show ?thesis by (auto simp: number_text_def)
qed

section \<open>Round trip\<close>

text \<open>Values whose numbers are spelled by the grammar and which fit under \<open>d\<close> more containers.\<close>

fun json_ok :: "nat \<Rightarrow> json \<Rightarrow> bool" where
  "json_ok d (JObject ms) \<longleftrightarrow> d < MAX_DEPTH \<and> (\<forall>m \<in> set ms. json_ok (Suc d) (snd m))"
| "json_ok d (JArray vs) \<longleftrightarrow> d < MAX_DEPTH \<and> (\<forall>v \<in> set vs. json_ok (Suc d) v)"
| "json_ok d (JNum w) \<longleftrightarrow> number_text w"
| "json_ok d _ \<longleftrightarrow> True"

definition put :: "(chars \<times> json) list \<Rightarrow> (chars \<times> json) list \<Rightarrow> (chars \<times> json) list" where
  "put ms acc = fold (\<lambda>m. AList.update (fst m) (snd m)) ms acc"

text \<open>One member per key, where the key first appears, with its last value.\<close>

fun last_wins :: "json \<Rightarrow> json" where
  "last_wins (JObject ms) = JObject (put (map (\<lambda>m. (fst m, last_wins (snd m))) ms) [])"
| "last_wins (JArray vs) = JArray (map last_wins vs)"
| "last_wins v = v"

definition value_start :: "chars \<Rightarrow> bool" where
  "value_start r \<longleftrightarrow> (case r of [] \<Rightarrow> False | c # _ \<Rightarrow> \<not> is_ws c \<and> c \<noteq> cp CHR '']'')"

lemma number_first: "number_text w \<Longrightarrow> \<exists>c cs. w = c # cs \<and> (c = 45 \<or> is_ascii_digit c)"
  by (auto simp: number_text_def int_text_def some_digits_def ascii_def is_ascii_digit_def neq_Nil_conv)

lemma compact_start: "json_ok d v \<Longrightarrow> value_start (compact v @ r)"
proof (cases v)
  case (JNum w)
  assume "json_ok d v"
  with JNum number_first [of w] show ?thesis by (auto simp: value_start_def is_ws_def is_ascii_digit_def)
qed (simp_all add: value_start_def encode_str_def is_ws_def ascii_def)

lemma skip_start: "value_start r \<Longrightarrow> skip_ws r = r"
  by (cases r) (auto simp: value_start_def skip_ws_def)

lemma not_close: "value_start r \<Longrightarrow> \<not> starts_with [93] r"
  by (cases r) (auto simp: value_start_def starts_with_def)

lemma skip_solid [simp]: "\<not> is_ws c \<Longrightarrow> skip_ws (c # r) = c # r"
  by (simp add: skip_ws_def)

lemma solid [simp]: "\<not> is_ws 123" "\<not> is_ws 125" "\<not> is_ws 91" "\<not> is_ws 93" "\<not> is_ws 34" "\<not> is_ws 44" "\<not> is_ws 58"
  by (simp_all add: is_ws_def)

lemma starts_one [simp]: "starts_with [x] (c # r) \<longleftrightarrow> c = x"
  by (auto simp: starts_with_def)

lemma ascii_one [simp]: "ascii [c] = [of_char c]"
  by (simp add: ascii_def)

lemma read_string: "json_string [] (tl (encode_str s @ r)) = Inr (s, r)"
  using decode_text [of "[]" s r] by (simp add: encode_str_def)

lemma read_member:
  assumes "value_start x" and "json_value d x = Inr (v, r')"
  shows "json_members d acc (encode_str key @ 58 # x) =
    (let acc' = AList.update key v acc; r5 = skip_ws r' in
     if starts_with (ascii '','') r5 then json_members d acc' (tl r5)
     else if starts_with (ascii ''}'') r5 then Inr (JObject acc', tl r5) else Inl JParse)"
proof -
  have "skip_ws (encode_str key @ 58 # x) = encode_str key @ 58 # x" "starts_with [dquote] (encode_str key @ 58 # x)"
    by (simp_all add: encode_str_def)
  with assms read_string [of key "58 # x"] skip_start show ?thesis
    by (simp add: json_members.simps Let_def)
qed

definition reads_back :: "nat \<Rightarrow> json \<Rightarrow> bool" where
  "reads_back d v \<longleftrightarrow> (\<forall>r. number_stops r \<longrightarrow> json_value d (compact v @ r) = Inr (last_wins v, r))"

lemma number_stops_simps [simp]: "number_stops (44 # r)" "number_stops (93 # r)" "number_stops (125 # r)" "number_stops []"
  by (simp_all add: number_stops_def is_ascii_digit_def ascii_def)

lemma members_back:
  assumes "ms \<noteq> []" and "\<forall>m \<in> set ms. json_ok d (snd m) \<and> reads_back d (snd m)"
  shows "json_members d acc (compact_members True ms @ 125 # r) =
    Inr (JObject (put (map (\<lambda>m. (fst m, last_wins (snd m))) ms) acc), r)"
  using assms
proof (induction ms arbitrary: acc)
  case (Cons m ms)
  obtain key v where m: "m = (key, v)" by (cases m)
  define rest where "rest = compact_members False ms @ 125 # r"
  have "number_stops rest" by (cases ms) (auto simp: rest_def)
  then have v: "json_value d (compact v @ rest) = Inr (last_wins v, rest)"
    using Cons.prems(2) by (simp add: m reads_back_def)
  have st: "value_start (compact v @ rest)" using Cons.prems(2) compact_start [of d v] by (simp add: m)
  have more: "rest = 44 # compact_members True ms @ 125 # r" if "ms \<noteq> []"
    using that by (cases ms) (auto simp: rest_def)
  have "compact_members True (m # ms) @ 125 # r = encode_str key @ 58 # compact v @ rest" by (simp add: m rest_def)
  then show ?case
    using read_member [OF st v, of acc key] Cons.IH [of "AList.update key (last_wins v) acc"] Cons.prems(2) more
    by (cases "ms = []") (auto simp: Let_def m put_def rest_def)
qed simp

lemma items_back:
  assumes "vs \<noteq> []" and "\<forall>v \<in> set vs. json_ok d v \<and> reads_back d v"
  shows "json_items d acc (compact_items True vs @ 93 # r) = Inr (JArray (acc @ map last_wins vs), r)"
  using assms
proof (induction vs arbitrary: acc)
  case (Cons v vs)
  define rest where "rest = compact_items False vs @ 93 # r"
  have "number_stops rest" by (cases vs) (auto simp: rest_def)
  then have v: "json_value d (compact v @ rest) = Inr (last_wins v, rest)"
    using Cons.prems(2) by (simp add: reads_back_def)
  have st: "skip_ws (compact v @ rest) = compact v @ rest" using Cons.prems(2) compact_start [of d v] by (simp add: skip_start)
  have more: "rest = 44 # compact_items True vs @ 93 # r" if "vs \<noteq> []"
    using that by (cases vs) (auto simp: rest_def)
  have "compact_items True (v # vs) @ 93 # r = compact v @ rest" by (simp add: rest_def)
  then show ?case
    using v st Cons.IH [of "acc @ [last_wins v]"] Cons.prems(2) more
    by (cases "vs = []") (auto simp: Let_def rest_def json_items.simps [of d acc])
qed simp

lemma value_reads_back: "json_ok d v \<Longrightarrow> reads_back d v"
proof (induction v arbitrary: d)
  case (JObject ms)
  have d: "\<not> MAX_DEPTH < Suc d" using JObject.prems by simp
  have ms: "\<forall>m \<in> set ms. json_ok (Suc d) (snd m) \<and> reads_back (Suc d) (snd m)"
    using JObject.prems JObject.IH by (auto simp: prod_set_defs)
  show ?case
  proof (cases "ms = []")
    case True
    with d show ?thesis by (simp add: reads_back_def json_value.simps json_object.simps put_def)
  next
    case False
    obtain k x ms' where m: "ms = (k, x) # ms'" using False by (cases ms) auto
    have "skip_ws (compact_members True ms @ 125 # r) = compact_members True ms @ 125 # r \<and>
        \<not> starts_with [125] (compact_members True ms @ 125 # r)" for r
      by (simp add: m encode_str_def)
    with d members_back [OF False ms] show ?thesis
      by (simp add: reads_back_def json_value.simps json_object.simps)
  qed
next
  case (JArray vs)
  have d: "\<not> MAX_DEPTH < Suc d" using JArray.prems by simp
  have vs: "\<forall>v \<in> set vs. json_ok (Suc d) v \<and> reads_back (Suc d) v"
    using JArray.prems JArray.IH by auto
  show ?case
  proof (cases "vs = []")
    case True
    with d show ?thesis by (simp add: reads_back_def json_value.simps json_array.simps)
  next
    case False
    then obtain v ws where v: "vs = v # ws" by (cases vs) auto
    have "value_start (compact_items True vs @ 93 # r)" for r
      using vs compact_start [of "Suc d" v "compact_items False ws @ 93 # r"] by (simp add: v)
    then have "skip_ws (compact_items True vs @ 93 # r) = compact_items True vs @ 93 # r \<and>
        \<not> starts_with [93] (compact_items True vs @ 93 # r)" for r
      using not_close by (simp add: skip_start)
    with d items_back [OF False vs] show ?thesis
      by (simp add: reads_back_def json_value.simps json_array.simps)
  qed
next
  case (JStr s)
  then show ?case using decode_text [of "[]" s] by (simp add: reads_back_def json_value.simps encode_str_def)
next
  case (JNum w)
  obtain c cs where w: "w = c # cs" "c = 45 \<or> is_ascii_digit c" using JNum number_first [of w] by auto
  then have "json_value d (w @ r) = json_number (w @ r)" for r
    by (auto simp: json_value.simps is_ascii_digit_def)
  with JNum number_reads [of w] show ?case by (simp add: reads_back_def)
next
  case (JBool b)
  then show ?case by (simp add: reads_back_def json_value.simps literal_def starts_with_def ascii_def is_ascii_digit_def)
next
  case JNull
  then show ?case by (simp add: reads_back_def json_value.simps literal_def starts_with_def ascii_def is_ascii_digit_def)
qed

lemma compact_parses:
  assumes "json_ok 0 v"
  shows "json_parse (compact v) = Inr (last_wins v)"
proof -
  have "skip_ws (compact v) = compact v" using compact_start [OF assms, of "[]"] by (simp add: skip_start)
  moreover have "json_value 0 (compact v) = Inr (last_wins v, [])"
    using value_reads_back [OF assms] unfolding reads_back_def by (metis append_Nil2 number_stops_simps(4))
  ultimately show ?thesis by (simp add: json_parse_def skip_ws_def)
qed

section \<open>What the parser returns\<close>

text \<open>Every object holds one member per key.\<close>

fun single_keys :: "json \<Rightarrow> bool" where
  "single_keys (JObject ms) \<longleftrightarrow> distinct (map fst ms) \<and> (\<forall>m \<in> set ms. single_keys (snd m))"
| "single_keys (JArray vs) \<longleftrightarrow> (\<forall>v \<in> set vs. single_keys v)"
| "single_keys _ \<longleftrightarrow> True"

lemma update_fresh: "k \<notin> fst ` set al \<Longrightarrow> AList.update k v al = al @ [(k, v)]"
  by (induction al) auto

lemma set_update_subset: "set (AList.update k v al) \<subseteq> insert (k, v) (set al)"
  by (induction al) auto

lemma put_append: "distinct (map fst (acc @ ms)) \<Longrightarrow> put ms acc = acc @ ms"
proof (induction ms arbitrary: acc)
  case (Cons m ms)
  have "AList.update (fst m) (snd m) acc = acc @ [m]"
    using Cons.prems by (auto intro!: update_fresh [of "fst m" acc "snd m", simplified])
  with Cons show ?case by (simp add: put_def)
qed (simp add: put_def)

lemma last_wins_id: "single_keys v \<Longrightarrow> last_wins v = v"
proof (induction v)
  case (JObject ms)
  then have "map (\<lambda>m. (fst m, last_wins (snd m))) ms = ms" by (auto simp: prod_set_defs intro!: map_idI)
  with JObject.prems put_append [of "[]" ms] show ?case by simp
qed (auto intro: map_idI)

definition parsed :: "nat \<Rightarrow> json \<Rightarrow> bool" where
  "parsed d v \<longleftrightarrow> json_ok d v \<and> single_keys v"

definition parsed_members :: "nat \<Rightarrow> (chars \<times> json) list \<Rightarrow> bool" where
  "parsed_members d ms \<longleftrightarrow> distinct (map fst ms) \<and> (\<forall>m \<in> set ms. parsed d (snd m))"

lemma parsed_update: "parsed_members d ms \<Longrightarrow> parsed d v \<Longrightarrow> parsed_members d (AList.update k v ms)"
  using set_update_subset [of k v ms] by (fastforce simp: parsed_members_def distinct_update)

lemma literal_parsed: "literal w v r = Inr (v', r') \<Longrightarrow> v' = v"
  by (simp add: literal_def split: if_splits)

lemma number_parsed: "json_number r = Inr (v, r') \<Longrightarrow> parsed d v"
  using number_shape by (fastforce simp: parsed_def)

lemma json_parsed:
  "\<forall>v r'. json_value d r = Inr (v, r') \<longrightarrow> parsed d v"
  "\<forall>v r'. json_object d' r = Inr (v, r') \<longrightarrow> (\<forall>d. d' = Suc d \<longrightarrow> parsed d v)"
  "\<forall>v r'. json_members d' ms r = Inr (v, r') \<longrightarrow> (\<forall>d. d' = Suc d \<longrightarrow> d < MAX_DEPTH \<longrightarrow> parsed_members d' ms \<longrightarrow> parsed d v)"
  "\<forall>v r'. json_array d' r = Inr (v, r') \<longrightarrow> (\<forall>d. d' = Suc d \<longrightarrow> parsed d v)"
  "\<forall>v r'. json_items d' vs r = Inr (v, r') \<longrightarrow> (\<forall>d. d' = Suc d \<longrightarrow> d < MAX_DEPTH \<longrightarrow> (\<forall>v \<in> set vs. parsed d' v) \<longrightarrow> parsed d v)"
proof (induction d r and d' r and d' ms r and d' r and d' vs r
    rule: json_value_json_object_json_members_json_array_json_items.induct)
  case (2 depth c cs)
  then show ?case
    using number_parsed [of "c # cs"] literal_parsed [of _ _ "c # cs"]
    by (fastforce simp: json_value.simps parsed_def split: if_splits sum.splits)
next
  case (3 depth cs)
  show ?case
  proof (intro allI impI)
    fix v r' d assume r: "json_object depth cs = Inr (v, r')" and d: "depth = Suc d"
    show "parsed d v"
    proof (cases "starts_with (ascii ''}'') (skip_ws cs)")
      case True
      with r d show ?thesis by (auto simp: json_object.simps parsed_def Let_def split: if_splits)
    next
      case False
      with r d have m: "json_members depth [] (skip_ws cs) = Inr (v, r')" "\<not> MAX_DEPTH < depth"
        by (auto simp: json_object.simps Let_def split: if_splits)
      with 3 [OF m(2) refl False] d show ?thesis by (simp add: parsed_members_def)
    qed
  qed
next
  case (4 depth members r)
  show ?case
  proof (intro allI impI)
    fix v r' d assume r: "json_members depth members r = Inr (v, r')" and d: "depth = Suc d" "d < MAX_DEPTH" "parsed_members depth members"
    obtain key r2 x r4 where k: "starts_with [dquote] (skip_ws r)" "json_string [] (tl (skip_ws r)) = Inr (key, r2)"
      and c: "starts_with (ascii '':'') (skip_ws r2)" and v: "json_value depth (skip_ws (tl (skip_ws r2))) = Inr (x, r4)"
      and e: "json_members depth (AList.update key x members) (tl (skip_ws r4)) = Inr (v, r') \<and>
          starts_with (ascii '','') (skip_ws r4) \<or> v = JObject (AList.update key x members)"
      using r by (auto simp: json_members.simps [of depth members] Let_def split: if_splits sum.splits)
    have "parsed depth x" using "4.IH"(1) [OF refl _ k(2) refl refl] k(1) c v by blast
    then have ms: "parsed_members depth (AList.update key x members)" using d(3) by (rule parsed_update [rotated])
    then have "parsed d (JObject (AList.update key x members))" using d by (auto simp: parsed_members_def parsed_def)
    then show "parsed d v" using e "4.IH"(2) [OF refl _ k(2) refl refl _ v refl refl refl] k(1) c d ms by blast
  qed
next
  case (5 depth cs)
  show ?case
  proof (intro allI impI)
    fix v r' d assume r: "json_array depth cs = Inr (v, r')" and d: "depth = Suc d"
    show "parsed d v"
    proof (cases "starts_with (ascii '']'') (skip_ws cs)")
      case True
      with r d show ?thesis by (auto simp: json_array.simps parsed_def Let_def split: if_splits)
    next
      case False
      with r d have m: "json_items depth [] (skip_ws cs) = Inr (v, r')" "\<not> MAX_DEPTH < depth"
        by (auto simp: json_array.simps Let_def split: if_splits)
      with 5 [OF m(2) refl False] d show ?thesis by simp
    qed
  qed
next
  case (6 depth items r)
  show ?case
  proof (intro allI impI)
    fix v r' d assume r: "json_items depth items r = Inr (v, r')" and d: "depth = Suc d" "d < MAX_DEPTH" "\<forall>v \<in> set items. parsed depth v"
    obtain x r1 where v: "json_value depth (skip_ws r) = Inr (x, r1)"
      and e: "json_items depth (items @ [x]) (tl (skip_ws r1)) = Inr (v, r') \<and>
          starts_with (ascii '','') (skip_ws r1) \<or> v = JArray (items @ [x])"
      using r by (auto simp: json_items.simps [of depth items] Let_def split: if_splits sum.splits)
    have x: "\<forall>v \<in> set (items @ [x]). parsed depth v" using "6.IH"(1) v d(3) by auto
    then have "parsed d (JArray (items @ [x]))" using d by (auto simp: parsed_def)
    then show "parsed d v" using e "6.IH"(2) [OF v refl refl] d x by blast
  qed
qed simp

lemma parse_parsed: "json_parse text = Inr v \<Longrightarrow> parsed 0 v"
  using json_parsed(1) [of 0 "skip_ws text"] by (auto simp: json_parse_def split: sum.splits if_splits)

section \<open>Paths\<close>

lemma split_dots_nonempty [simp]: "split_dots p \<noteq> []"
  by (cases p) (auto split: list.split)

lemma split_dots_append: "split_dots (p @ 46 # q) = split_dots p @ split_dots q"
  by (induction p) (auto split: list.split)

lemma walk_append: "walk_path v (ps @ qs) = (case walk_path v ps of Inl e \<Rightarrow> Inl e | Inr w \<Rightarrow> walk_path w qs)"
  by (induction v ps rule: walk_path.induct) (auto split: sum.split)

lemma step_parsed: "parsed d v \<Longrightarrow> step_into v p = Inr w \<Longrightarrow> parsed (Suc d) w"
  by (cases v) (auto simp: step_into_def parsed_def split: if_splits option.splits dest!: map_of_SomeD nth_mem)

lemma parsed_shallower: "parsed (Suc d) v \<Longrightarrow> parsed d v"
proof -
  have "json_ok (Suc d) v \<Longrightarrow> json_ok d v" for d by (induction v arbitrary: d) (auto simp: prod_set_defs)
  then show "parsed (Suc d) v \<Longrightarrow> parsed d v" by (simp add: parsed_def)
qed

lemma walk_parsed: "parsed 0 v \<Longrightarrow> walk_path v ps = Inr w \<Longrightarrow> parsed 0 w"
  by (induction v ps rule: walk_path.induct) (auto split: sum.splits dest: step_parsed parsed_shallower)

lemma at_parsed: "json_at text path = Inr v \<Longrightarrow> parsed 0 v"
  by (auto simp: json_at_def resolve_path_def dest: parse_parsed walk_parsed split: sum.splits if_splits)

lemma at_append: "p \<noteq> [] \<Longrightarrow> json_at text p = Inr v \<Longrightarrow> json_at text (p @ 46 # q) = walk_path v (split_dots q)"
  by (auto simp: json_at_def resolve_path_def split_dots_append walk_append split: sum.splits)

section \<open>The properties\<close>

text \<open>C19: what \<open>json_get\<close> returns for a nested container is again one JSON text with the same kind and number
  of elements, and every query into it answers as the corresponding longer path into the document
  does.\<close>
theorem rendered_container_queries:
  assumes "path \<noteq> []" and "json_get text path = Inr out" and "json_kind text path \<in> {Inr ''object'', Inr ''array''}"
  shows "json_valid out \<and> json_kind out [] = json_kind text path \<and> json_len out [] = json_len text path \<and>
    (\<forall>sub. sub \<noteq> [] \<longrightarrow> json_get out sub = json_get text (path @ ascii ''.'' @ sub) \<and>
       json_kind out sub = json_kind text (path @ ascii ''.'' @ sub) \<and>
       json_len out sub = json_len text (path @ ascii ''.'' @ sub))"
proof -
  obtain v where v: "json_at text path = Inr v" using assms(2) by (auto simp: json_get_def split: sum.splits)
  have out: "out = compact v"
    using assms by (cases v) (auto simp: json_get_def json_kind_def v)
  have "json_parse out = Inr v"
    using at_parsed [OF v] compact_parses [of v] last_wins_id [of v] by (simp add: parsed_def out)
  then have at: "json_at out p = (if p = [] then Inr v else walk_path v (split_dots p))" for p
    by (simp add: json_at_def resolve_path_def)
  have sub: "json_at text (path @ 46 # p) = json_at out p" if "p \<noteq> []" for p
    using at_append [OF assms(1) v, of p] that by (simp add: at)
  show ?thesis
    using sub \<open>json_parse out = Inr v\<close>
    by (simp add: json_valid_def json_kind_def json_len_def json_get_def at v split: sum.split)
qed

lemma map_of_put: "map_of (put ms acc) k = (case map_of (rev ms) k of Some v \<Rightarrow> Some v | None \<Rightarrow> map_of acc k)"
  by (induction ms arbitrary: acc) (auto simp: put_def AList.update_conv' map_add_def split: option.split)

lemma put_keys: "distinct (map fst acc) \<Longrightarrow> distinct (map fst (put ms acc)) \<and> fst ` set (put ms acc) = fst ` set ms \<union> fst ` set acc"
proof (induction ms arbitrary: acc)
  case (Cons m ms)
  then show ?case
    using Cons.IH [of "AList.update (fst m) (snd m) acc"] by (auto simp: put_def distinct_update dom_update)
qed (simp add: put_def)

lemma map_of_values: "map_of (map (\<lambda>m. (fst m, f (snd m))) ms) k = map_option f (map_of ms k)"
  by (induction ms) auto

lemma split_dots_plain: "46 \<notin> set p \<Longrightarrow> split_dots p = [p]"
  by (induction p) auto

text \<open>An object written with repeated keys counts each key once and answers a key with the value of its last
  occurrence.\<close>
theorem last_member_wins:
  assumes "json_ok 0 (JObject ms)"
  shows "json_len (compact (JObject ms)) [] = Inr (card (fst ` set ms)) \<and>
    (\<forall>key. key \<noteq> [] \<and> cp CHR ''.'' \<notin> set key \<longrightarrow>
       json_at (compact (JObject ms)) key =
         (case map_of (rev ms) key of None \<Rightarrow> Inl JMissing | Some v \<Rightarrow> Inr (last_wins v)))"
proof -
  define ms' where "ms' = map (\<lambda>m. (fst m, last_wins (snd m))) ms"
  have p: "json_parse (compact (JObject ms)) = Inr (JObject (put ms' []))"
    using compact_parses [OF assms] by (simp add: ms'_def)
  have k: "distinct (map fst (put ms' []))" "fst ` set (put ms' []) = fst ` set ms"
    using put_keys [of "[]" ms'] by (auto simp: ms'_def image_comp comp_def)
  then have "length (put ms' []) = card (fst ` set ms)"
    by (metis distinct_card length_map list.set_map)
  moreover have "map_of (put ms' []) key = map_option last_wins (map_of (rev ms) key)" for key
    by (simp add: map_of_put ms'_def rev_map map_of_values split: option.split)
  ultimately show ?thesis
    by (auto simp: json_len_def json_at_def p resolve_path_def split_dots_plain step_into_def simp del: compact.simps
        split: option.split)
qed

definition brackets :: "nat \<Rightarrow> chars" where
  "brackets n = replicate n (cp CHR ''['') @ replicate n (cp CHR '']'')"

lemma nested_arrays:
  "json_value d (replicate (Suc n) 91 @ replicate (Suc n) 93 @ r) \<in>
     (if d + Suc n \<le> MAX_DEPTH then {Inr (v, r) | v. True} else {Inl JParse})"
proof (induction n arbitrary: d r)
  case 0
  then show ?case by (simp add: json_value.simps json_array.simps)
next
  case (Suc n)
  have "json_value (Suc d) (replicate (Suc n) 91 @ replicate (Suc n) 93 @ 93 # r) \<in>
      (if Suc d + Suc n \<le> MAX_DEPTH then {Inr (v, 93 # r) | v. True} else {Inl JParse})"
    by (rule Suc.IH)
  moreover have "replicate n (93::nat) @ 93 # r = 93 # replicate n 93 @ r" by (rule replicate_app_Cons_same)
  ultimately have v: "json_value (Suc d) (91 # replicate n 91 @ replicate (Suc (Suc n)) 93 @ r) \<in>
      (if Suc d + Suc n \<le> MAX_DEPTH then {Inr (v, 93 # r) | v. True} else {Inl JParse})" by simp
  have "json_value d (replicate (Suc (Suc n)) 91 @ replicate (Suc (Suc n)) 93 @ r) =
    (if MAX_DEPTH < Suc d then Inl JParse else json_items (Suc d) [] (91 # replicate n 91 @ replicate (Suc (Suc n)) 93 @ r))"
    by (simp add: json_value.simps json_array.simps del: replicate_Suc) (simp add: json_value.simps json_array.simps)
  with v show ?case
    by (auto simp: json_items.simps [of "Suc d" "[]"] split: if_splits)
qed

text \<open>Arrays nested \<open>n\<close> deep are one value exactly up to the depth limit of 129.\<close>
theorem depth_limit_exact: "json_valid (brackets n) \<longleftrightarrow> 0 < n \<and> n \<le> MAX_DEPTH"
proof (cases n)
  case 0
  then show ?thesis by (simp add: json_valid_def brackets_def json_parse_def skip_ws_def)
next
  case (Suc m)
  have "skip_ws (brackets n) = brackets n" by (simp add: brackets_def Suc)
  then show ?thesis
    using nested_arrays [of 0 m "[]"] by (auto simp: json_valid_def json_parse_def brackets_def Suc skip_ws_def split: if_splits)
qed

text \<open>A \<open>\u\<close> escape takes a plus sign and three digits, which is no JSON.\<close>
theorem plus_in_unicode_escape:
  "json_get (ascii [CHR 34, CHR 92] @ ascii ''u+041'' @ ascii [CHR 34]) [] = Inr (ascii ''A'')"
  by (simp add: json_get_def json_at_def json_parse_def ascii_def json_value.simps json_escape_def unicode_escape_def
      hex4_def from_str_radix_16_def starts_with_def is_hex_def to_digit_def is_ascii_digit_def hex_value_def to_char_def from_u32_def
      resolve_path_def skip_ws_def)

section \<open>Small documents\<close>

lemmas json_eval = json_get_def json_kind_def json_at_def json_parse_def json_value.simps json_object.simps json_members.simps
  json_array.simps json_items.simps json_number_def eat_minus_def eat_int_def eat_frac_def eat_exp_def consumed_def
  resolve_path_def step_into_def skip_ws_def is_ws_def starts_with_def is_ascii_digit_def literal_def MAX_DEPTH_def

definition small_doc :: chars where
  "small_doc = [123, 34, 97, 34, 58, 91, 49, 93, 125]"

lemma small_doc_facts: "json_get small_doc [97] = Inr [91, 49, 93]" "json_kind small_doc [97] = Inr ''array''"
  by (simp_all add: small_doc_def json_eval ascii_def)

theorem rendered_container_queries_witness:
  "json_valid [91, 49, 93] \<and> json_get [91, 49, 93] [48] = json_get small_doc [97, 46, 48]"
  using rendered_container_queries [of "[97]" small_doc "[91, 49, 93]"] by (simp add: small_doc_facts)

theorem last_member_wins_witness:
  "json_len (compact (JObject [([107], JNull), ([107], JBool True)])) [] = Inr 1 \<and>
   json_at (compact (JObject [([107], JNull), ([107], JBool True)])) [107] = Inr (JBool True)"
proof -
  have ok: "json_ok 0 (JObject [([107], JNull), ([107], JBool True)])" by (simp add: MAX_DEPTH_def)
  show ?thesis using last_member_wins [OF ok] by (simp del: compact.simps)
qed

end
