(* ===== verification/Explore.thy ===== *)
theory Explore
  imports SchedState
begin

text \<open>
  The schedule explorer (\<open>explore.rs\<close>): a depth-first search over the decision streams of the sim scheduler by
  replay from the root, with the backtrack sets and sleep sets of dynamic partial-order reduction, pruning on
  state hashes and the budgets. The program under exploration is an argument: what one replay with a plan
  returns. Notes, the rendered report and its JSON are text and not modelled; the preimages of state hashes
  stay texts.
\<close>

section \<open>Runs\<close>

datatype run_outcome = OcExit nat | OcTrap trap_kind | OcUb string | OcUnsupported

type_synonym bytes = "8 word list"

record run_rec =
  rn_outcome :: run_outcome
  rn_stdout :: bytes
  rn_leaks :: nat
  rn_live_cells :: nat
  rn_host_leaks :: nat
  rn_forest_ok :: bool
  rn_decisions :: "decision list"
  rn_states :: "nat list"
  rn_ops :: "op_record list"
  rn_deadlocked :: bool
  rn_divergence :: "nat option"
  rn_preimages :: "(nat \<times> string) list"

text \<open>What the explorer hands to a replay: the plan and whether preimages are kept.\<close>

type_synonym replayer = "plan_rec \<Rightarrow> bool \<Rightarrow> run_rec"

record explore_options =
  op_max_schedules :: nat
  op_max_steps :: nat
  op_max_preemptions :: "nat option"
  op_wall :: "nat option"
  op_naive :: bool
  op_prune :: bool
  op_paranoid :: bool
  op_leak :: bool

definition default_options :: explore_options where
  "default_options = \<lparr>op_max_schedules = 10000, op_max_steps = 4096, op_max_preemptions = None, op_wall = None,
     op_naive = False, op_prune = True, op_paranoid = False, op_leak = False\<rparr>"

section \<open>Outcomes and the report\<close>

record schedule_outcome =
  so_verdict :: string
  so_stdout :: bytes
  so_leaks :: nat
  so_live_cells :: nat
  so_host_leaks :: nat
  so_forest_ok :: bool
  so_deadlocked :: bool
  so_digest :: "128 word"
  so_choices :: "nat list"
  so_seed :: "64 word option"
  so_preemptions :: nat
  so_count :: nat

datatype divergence = DvReplay nat | DvCollision nat

text \<open>An oracle failure names its outcome by its position.\<close>

record explore_report =
  rt_executions :: nat
  rt_schedules :: nat
  rt_slept :: nat
  rt_pruned :: nat
  rt_deadlocks :: nat
  rt_races :: nat
  rt_frontier_open :: bool
  rt_outcomes :: "schedule_outcome list"
  rt_divergence :: "divergence option"
  rt_oracle_failures :: "nat list"
  rt_max_depth :: nat

definition empty_report :: explore_report where
  "empty_report = \<lparr>rt_executions = 0, rt_schedules = 0, rt_slept = 0, rt_pruned = 0, rt_deadlocks = 0, rt_races = 0,
     rt_frontier_open = False, rt_outcomes = [], rt_divergence = None, rt_oracle_failures = [], rt_max_depth = 0\<rparr>"

definition report_stable :: "explore_report \<Rightarrow> bool" where
  "report_stable r \<longleftrightarrow> length (rt_outcomes r) \<le> 1 \<and> rt_divergence r = None"

definition report_green :: "explore_report \<Rightarrow> bool" where
  "report_green r \<longleftrightarrow> report_stable r \<and> rt_oracle_failures r = []"

definition fnv128 :: "bytes \<Rightarrow> 128 word" where
  "fnv128 bs = foldl (\<lambda>h b. (h XOR ucast b) * 0x0000000001000000000000000000013b) 0x6c62272e07bb014262b821756295c58d bs"

definition show_bool :: "bool \<Rightarrow> string" where
  "show_bool b = (if b then ''true'' else ''false'')"

definition verdict_of :: "run_outcome \<Rightarrow> string" where
  "verdict_of oc =
     (case oc of
        OcExit status \<Rightarrow> ''exit('' @ show_nat status @ '')''
      | OcTrap k \<Rightarrow> ''trap('' @ trap_as_str k @ '')''
      | OcUb anchor \<Rightarrow> ''ub('' @ anchor @ '')''
      | OcUnsupported \<Rightarrow> ''unsupported'')"

definition digest_text :: "run_rec \<Rightarrow> string" where
  "digest_text r =
     ''v='' @ verdict_of (rn_outcome r) @ '';leaks='' @ show_nat (rn_leaks r) @ '';cells='' @ show_nat (rn_live_cells r) @
     '';host='' @ show_nat (rn_host_leaks r) @ '';forest='' @ show_bool (rn_forest_ok r) @ '';dead='' @
     show_bool (rn_deadlocked r) @ '';out=''"

definition run_digest :: "run_rec \<Rightarrow> 128 word" where
  "run_digest r = fnv128 (map (\<lambda>c. of_char c) (digest_text r) @ rn_stdout r)"

section \<open>Nodes of the search path\<close>

text \<open>The \<open>BTreeSet\<close>s are sorted lists.\<close>

type_synonym footprint = "(obj_key \<times> bool) list"

record node =
  nd_kind :: decision_kind
  nd_candidates :: "nat list"
  nd_state :: nat
  nd_current :: nat
  nd_footprint :: footprint
  nd_done :: "nat list"
  nd_backtrack :: "nat list"
  nd_sleep :: "(nat \<times> footprint) list"
  nd_pruned :: bool

definition set_insert :: "nat \<Rightarrow> nat list \<Rightarrow> nat list" where
  "set_insert x xs = insort_insert x xs"

definition new_node :: "bool \<Rightarrow> decision \<Rightarrow> nat \<Rightarrow> node" where
  "new_node naive d state =
     (let current = de_candidates d ! de_chosen d in
      \<lparr>nd_kind = de_kind d, nd_candidates = de_candidates d, nd_state = state, nd_current = current, nd_footprint = [],
       nd_done = [current],
       nd_backtrack = (if naive \<or> de_kind d = DkArm then fold set_insert (de_candidates d) [] else [current]),
       nd_sleep = [], nd_pruned = False\<rparr>)"

text \<open>\<open>expect\<close>: the current value is always one of the candidates.\<close>

definition current_index :: "node \<Rightarrow> nat" where
  "current_index n = (case position (\<lambda>c. c = nd_current n) (nd_candidates n) of Some i \<Rightarrow> i | None \<Rightarrow> 0)"

definition ops_conflict :: "op_record \<Rightarrow> op_record \<Rightarrow> bool" where
  "ops_conflict a b \<longleftrightarrow> or_obj a = or_obj b \<and> (or_write a \<or> or_write b)"

definition footprints_conflict :: "footprint \<Rightarrow> footprint \<Rightarrow> bool" where
  "footprints_conflict a b \<longleftrightarrow> list_ex (\<lambda>(x, w). list_ex (\<lambda>(y, w'). x = y \<and> (w \<or> w')) b) a"

definition clock_of :: "op_record \<Rightarrow> nat \<Rightarrow> nat" where
  "clock_of a t = (case get_at (or_vc a) t of Some c \<Rightarrow> c | None \<Rightarrow> 0)"

definition happens_before :: "op_record \<Rightarrow> op_record \<Rightarrow> bool" where
  "happens_before a b \<longleftrightarrow> clock_of a (or_task a) \<le> clock_of b (or_task a)"

section \<open>One round\<close>

record explorer =
  ex_report :: explore_report
  ex_path :: "node list"
  ex_forced :: nat
  ex_visited :: "nat \<rightharpoonup> nat"
  ex_preimages :: "nat \<rightharpoonup> string"
  ex_depth_capped :: bool

definition new_explorer :: explorer where
  "new_explorer = \<lparr>ex_report = empty_report, ex_path = [], ex_forced = 0, ex_visited = Map.empty,
     ex_preimages = Map.empty, ex_depth_capped = False\<rparr>"

definition forced_plan :: "explore_options \<Rightarrow> explorer \<Rightarrow> plan_rec" where
  "forced_plan opts x =
     (let prefix = take (ex_forced x) (ex_path x) in
      \<lparr>pl_choices = map current_index prefix, pl_expected = map (\<lambda>n. (nd_kind n, nd_candidates n)) prefix,
       pl_leak = (op_leak opts \<and> 0 < ex_forced x)\<rparr>)"

text \<open>\<open>--paranoid\<close>: the first hash that two distinct preimages share, or the extended table.\<close>

fun check_preimages :: "(nat \<times> string) list \<Rightarrow> (nat \<rightharpoonup> string) \<Rightarrow> nat + (nat \<rightharpoonup> string)" where
  "check_preimages [] m = Inr m"
| "check_preimages ((h, p) # ps) m =
     (case m h of
        Some stored \<Rightarrow> if stored \<noteq> p then Inl h else check_preimages ps m
      | None \<Rightarrow> check_preimages ps (m(h \<mapsto> p)))"

definition upd_report :: "(explore_report \<Rightarrow> explore_report) \<Rightarrow> explorer \<Rightarrow> explorer" where
  "upd_report f x = x\<lparr>ex_report := f (ex_report x)\<rparr>"

definition cap_depth :: "explore_options \<Rightarrow> run_rec \<Rightarrow> explorer \<Rightarrow> explorer" where
  "cap_depth opts r x =
     (let n = length (rn_decisions r);
          x1 = upd_report (\<lambda>p. p\<lparr>rt_max_depth := max (rt_max_depth p) n\<rparr>) x
      in if op_max_steps opts < n \<and> \<not> ex_depth_capped x1
         then (upd_report (\<lambda>p. p\<lparr>rt_frontier_open := True\<rparr>) x1)\<lparr>ex_depth_capped := True\<rparr> else x1)"

definition fresh_nodes :: "explore_options \<Rightarrow> nat \<Rightarrow> run_rec \<Rightarrow> node list" where
  "fresh_nodes opts forced r =
     map (\<lambda>(d, h). new_node (op_naive opts) d h)
       (take (op_max_steps opts - forced) (drop forced (zip (rn_decisions r) (rn_states r))))"

definition add_footprint :: "op_record \<Rightarrow> node list \<Rightarrow> node list" where
  "add_footprint a path =
     (case or_slice a of
        None \<Rightarrow> path
      | Some i \<Rightarrow> modify_at i (\<lambda>n. n\<lparr>nd_footprint := nd_footprint n @ [(or_obj a, or_write a)]\<rparr>) path)"

definition footprints :: "op_record list \<Rightarrow> node list \<Rightarrow> node list" where
  "footprints ops path = fold add_footprint ops (map (\<lambda>n. n\<lparr>nd_footprint := []\<rparr>) path)"

definition inherit_from :: "node \<Rightarrow> node \<Rightarrow> node" where
  "inherit_from prev n =
     n\<lparr>nd_sleep := filter (\<lambda>(_, fp). \<not> footprints_conflict fp (nd_footprint prev)) (nd_sleep prev)\<rparr>"

definition inherit_sleep :: "nat \<Rightarrow> node list \<Rightarrow> node list" where
  "inherit_sleep forced path =
     fold (\<lambda>i ns. if i = 0 then ns else modify_at i (inherit_from (ns ! (i - 1))) ns) [forced..<length path] path"

definition grow_node :: "nat \<Rightarrow> node \<Rightarrow> node" where
  "grow_node t n =
     (if t \<in> set (nd_candidates n) then n\<lparr>nd_backtrack := set_insert t (nd_backtrack n)\<rparr>
      else n\<lparr>nd_backtrack := fold set_insert (nd_candidates n) (nd_backtrack n)\<rparr>)"

definition grow_pair :: "op_record \<Rightarrow> op_record \<Rightarrow> node list \<Rightarrow> node list" where
  "grow_pair b a path =
     (if or_task a = or_task b \<or> \<not> ops_conflict a b \<or> happens_before a b then path
      else case or_slice a of
             None \<Rightarrow> path
           | Some i \<Rightarrow> modify_at i (grow_node (or_task b)) path)"

definition grow_backtrack :: "op_record list \<Rightarrow> node list \<Rightarrow> node list" where
  "grow_backtrack ops path =
     fold (\<lambda>i p. fold (grow_pair (ops ! i)) (rev (take i ops)) p) [0..<length ops] path"

text \<open>A node at index \<open>i\<close> is pruned when its state was explored with at least the steps that are left.\<close>

definition prune_node :: "explore_options \<Rightarrow> (nat \<rightharpoonup> nat) \<Rightarrow> nat \<Rightarrow> node \<Rightarrow> bool" where
  "prune_node opts visited i n \<longleftrightarrow>
     nd_kind n = DkTask \<and> (case visited (nd_state n) of Some r \<Rightarrow> op_max_steps opts - i \<le> r | None \<Rightarrow> False)"

definition mark_pruned :: "explore_options \<Rightarrow> explorer \<Rightarrow> explorer" where
  "mark_pruned opts x =
     fold (\<lambda>i x. if prune_node opts (ex_visited x) i (ex_path x ! i)
                 then upd_report (\<lambda>p. p\<lparr>rt_pruned := rt_pruned p + 1\<rparr>)
                        (x\<lparr>ex_path := modify_at i (\<lambda>n. n\<lparr>nd_pruned := True\<rparr>) (ex_path x)\<rparr>)
                 else x) [ex_forced x..<length (ex_path x)] x"

definition prunes :: "explore_options \<Rightarrow> bool" where
  "prunes opts \<longleftrightarrow> op_prune opts \<and> \<not> op_naive opts"

text \<open>The path of this run: rebuilt beyond the forced prefix, with footprints, inherited sleep sets and
  grown backtrack sets.\<close>

definition rebuild_path :: "explore_options \<Rightarrow> run_rec \<Rightarrow> explorer \<Rightarrow> explorer" where
  "rebuild_path opts r x =
     (let p0 = take (ex_forced x) (ex_path x) @ fresh_nodes opts (ex_forced x) r;
          p1 = footprints (rn_ops r) p0;
          p2 = (if op_naive opts then p1 else grow_backtrack (rn_ops r) (inherit_sleep (ex_forced x) p1));
          x1 = x\<lparr>ex_path := p2\<rparr>
      in if prunes opts then mark_pruned opts x1 else x1)"

definition outcome_of :: "run_rec \<Rightarrow> schedule_outcome" where
  "outcome_of r =
     \<lparr>so_verdict = verdict_of (rn_outcome r), so_stdout = rn_stdout r, so_leaks = rn_leaks r,
      so_live_cells = rn_live_cells r, so_host_leaks = rn_host_leaks r, so_forest_ok = rn_forest_ok r,
      so_deadlocked = rn_deadlocked r, so_digest = run_digest r, so_choices = map de_chosen (rn_decisions r),
      so_seed = pack_schedule (rn_decisions r),
      so_preemptions = length (filter (\<lambda>d. de_kind d = DkTask \<and> de_chosen d \<noteq> 0) (rn_decisions r)), so_count = 0\<rparr>"

definition count_up :: "schedule_outcome \<Rightarrow> schedule_outcome" where
  "count_up oc = oc\<lparr>so_count := so_count oc + 1\<rparr>"

definition judge :: "run_rec \<Rightarrow> explore_report \<Rightarrow> explore_report" where
  "judge r p =
     (let p1 = p\<lparr>rt_schedules := rt_schedules p + 1,
                 rt_deadlocks := rt_deadlocks p + (if rn_deadlocked r then 1 else 0),
                 rt_races := rt_races p + (if rn_outcome r = OcTrap TrapRace then 1 else 0)\<rparr>;
          known = position (\<lambda>oc. so_digest oc = run_digest r) (rt_outcomes p1);
          outcomes = (case known of Some _ \<Rightarrow> rt_outcomes p1 | None \<Rightarrow> rt_outcomes p1 @ [outcome_of r]);
          index = (case known of Some i \<Rightarrow> i | None \<Rightarrow> length (rt_outcomes p1));
          outcomes' = modify_at index count_up outcomes
      in p1\<lparr>rt_outcomes := outcomes',
            rt_oracle_failures := rt_oracle_failures p1 @
              (if (rn_leaks r \<noteq> 0 \<or> \<not> rn_forest_ok r) \<and> so_count (outcomes' ! index) = 1 then [index] else [])\<rparr>)"

section \<open>Backtracking\<close>

text \<open>The alternatives of a node in order: a sleeping one counts as done, one beyond the preemption bound is
  skipped, and the first other one is picked.\<close>

fun try_candidates :: "explore_options \<Rightarrow> nat \<Rightarrow> nat list \<Rightarrow> bool \<Rightarrow> node \<Rightarrow> nat \<Rightarrow> nat option \<times> bool \<times> node \<times> nat" where
  "try_candidates opts before [] skipped n slept = (None, skipped, n, slept)"
| "try_candidates opts before (c # cs) skipped n slept =
     (if nd_kind n = DkTask \<and> \<not> op_naive opts \<and> c \<in> fst ` set (nd_sleep n)
      then try_candidates opts before cs skipped (n\<lparr>nd_done := set_insert c (nd_done n)\<rparr>) (slept + 1)
      else if nd_kind n = DkTask \<and>
        (case op_max_preemptions opts of
           Some bound \<Rightarrow> bound < before + (if c \<noteq> hd (nd_candidates n) then 1 else 0)
         | None \<Rightarrow> False)
      then try_candidates opts before cs True n slept
      else (Some c, skipped, n, slept))"

definition waiting :: "node \<Rightarrow> nat list" where
  "waiting n = filter (\<lambda>c. c \<notin> set (nd_done n)) (nd_backtrack n)"

definition preemptions_before :: "node list \<Rightarrow> nat \<Rightarrow> nat" where
  "preemptions_before path d =
     length (filter (\<lambda>n. nd_kind n = DkTask \<and> nd_current n \<noteq> hd (nd_candidates n)) (take d path))"

definition take_pick :: "explore_options \<Rightarrow> nat \<Rightarrow> node \<Rightarrow> node" where
  "take_pick opts c n =
     (let n1 = (if nd_kind n = DkTask \<and> \<not> op_naive opts
                then n\<lparr>nd_sleep := nd_sleep n @ [(nd_current n, nd_footprint n)]\<rparr> else n)
      in n1\<lparr>nd_done := set_insert c (nd_done n1), nd_current := c\<rparr>)"

definition close_state :: "explore_options \<Rightarrow> nat \<Rightarrow> bool \<Rightarrow> node \<Rightarrow> explorer \<Rightarrow> explorer" where
  "close_state opts d skipped n x =
     (if prunes opts \<and> nd_kind n = DkTask \<and> \<not> skipped \<and> waiting n = []
      then x\<lparr>ex_visited := (ex_visited x)(nd_state n \<mapsto>
               max (case ex_visited x (nd_state n) of Some r \<Rightarrow> r | None \<Rightarrow> 0) (op_max_steps opts - d))\<rparr>
      else x)"

text \<open>Depths below \<open>d\<close> are scanned downwards; nodes at or below the first pruned one are passed over.\<close>

fun scan_back :: "explore_options \<Rightarrow> nat option \<Rightarrow> nat \<Rightarrow> explorer \<Rightarrow> bool \<times> explorer" where
  "scan_back opts first_pruned 0 x = (False, x)"
| "scan_back opts first_pruned (Suc d) x =
     (if (case first_pruned of Some f \<Rightarrow> f \<le> d | None \<Rightarrow> False) then scan_back opts first_pruned d x
      else
        let (pick, skipped, n, slept) =
              try_candidates opts (preemptions_before (ex_path x) d) (waiting (ex_path x ! d)) False (ex_path x ! d)
                (rt_slept (ex_report x));
            x1 = upd_report (\<lambda>p. p\<lparr>rt_slept := slept, rt_frontier_open := (rt_frontier_open p \<or> skipped)\<rparr>)
                   (x\<lparr>ex_path := (ex_path x)[d := n]\<rparr>)
        in case pick of
             Some c \<Rightarrow> (True, x1\<lparr>ex_path := take d (ex_path x1) @ [take_pick opts c n], ex_forced := d + 1\<rparr>)
           | None \<Rightarrow> scan_back opts first_pruned d (close_state opts d skipped n x1))"

definition backtrack :: "explore_options \<Rightarrow> explorer \<Rightarrow> bool \<times> explorer" where
  "backtrack opts x =
     scan_back opts (position nd_pruned (ex_path x)) (min (length (ex_path x)) (op_max_steps opts)) x"

section \<open>The exploration\<close>

definition known_preimages :: "explore_options \<Rightarrow> run_rec \<Rightarrow> explorer \<Rightarrow> nat + (nat \<rightharpoonup> string)" where
  "known_preimages opts r x = (if op_paranoid opts then check_preimages (rn_preimages r) (ex_preimages x) else Inr (ex_preimages x))"

definition after_run :: "explore_options \<Rightarrow> run_rec \<Rightarrow> explorer \<Rightarrow> bool \<times> explorer" where
  "after_run opts r x = backtrack opts (upd_report (judge r) (rebuild_path opts r (cap_depth opts r x)))"

definition explore_round :: "explore_options \<Rightarrow> replayer \<Rightarrow> explorer \<Rightarrow> bool \<times> explorer" where
  "explore_round opts replay x =
     (let r = replay (forced_plan opts x) (op_paranoid opts);
          x1 = upd_report (\<lambda>p. p\<lparr>rt_executions := rt_executions p + 1\<rparr>) x
      in case rn_divergence r of
           Some m \<Rightarrow> (False, upd_report (\<lambda>p. p\<lparr>rt_divergence := Some (DvReplay m)\<rparr>) x1)
         | None \<Rightarrow>
             (case known_preimages opts r x1 of
                Inl h \<Rightarrow> (False, upd_report (\<lambda>p. p\<lparr>rt_divergence := Some (DvCollision h)\<rparr>) x1)
              | Inr pre \<Rightarrow> after_run opts r (x1\<lparr>ex_preimages := pre\<rparr>)))"

lemma upd_report_simps [simp]: "ex_report (upd_report f x) = f (ex_report x)" "ex_path (upd_report f x) = ex_path x"
  "ex_forced (upd_report f x) = ex_forced x"
  by (simp_all add: upd_report_def)

lemma scan_back_executions: "rt_executions (ex_report (snd (scan_back opts fp d x))) = rt_executions (ex_report x)"
  by (induction opts fp d x rule: scan_back.induct) (auto simp: Let_def close_state_def split: prod.split option.split)

lemma mark_pruned_executions: "rt_executions (ex_report (mark_pruned opts x)) = rt_executions (ex_report x)"
proof -
  have "rt_executions (ex_report (fold (\<lambda>i x. if prune_node opts (ex_visited x) i (ex_path x ! i)
                 then upd_report (\<lambda>p. p\<lparr>rt_pruned := rt_pruned p + 1\<rparr>)
                        (x\<lparr>ex_path := modify_at i (\<lambda>n. n\<lparr>nd_pruned := True\<rparr>) (ex_path x)\<rparr>)
                 else x) is x)) = rt_executions (ex_report x)" for "is"
    by (induction "is" arbitrary: x) auto
  then show ?thesis by (simp add: mark_pruned_def)
qed

lemma judge_executions: "rt_executions (judge r p) = rt_executions p"
  by (simp add: judge_def Let_def)

lemma prepare_executions:
  "rt_executions (ex_report (rebuild_path opts r x)) = rt_executions (ex_report x)"
  "rt_executions (ex_report (cap_depth opts r x)) = rt_executions (ex_report x)"
  by (simp_all add: rebuild_path_def cap_depth_def Let_def mark_pruned_executions)

lemma after_run_executions: "rt_executions (ex_report (snd (after_run opts r x))) = rt_executions (ex_report x)"
  by (simp add: after_run_def backtrack_def scan_back_executions judge_executions prepare_executions)

lemma round_executions: "rt_executions (ex_report (snd (explore_round opts replay x))) = rt_executions (ex_report x) + 1"
  by (simp add: explore_round_def Let_def after_run_executions split: option.split sum.split)

text \<open>The clock is read before each execution; \<open>elapsed k\<close> is the reading before execution \<open>k\<close>.\<close>

function explore_loop :: "explore_options \<Rightarrow> (nat \<Rightarrow> nat) \<Rightarrow> replayer \<Rightarrow> explorer \<Rightarrow> explore_report" where
  "explore_loop opts elapsed replay x =
     (if op_max_schedules opts \<le> rt_executions (ex_report x) then (ex_report x)\<lparr>rt_frontier_open := True\<rparr>
      else if (case op_wall opts of Some w \<Rightarrow> w \<le> elapsed (rt_executions (ex_report x)) | None \<Rightarrow> False)
      then (ex_report x)\<lparr>rt_frontier_open := True\<rparr>
      else case explore_round opts replay x of
             (True, x') \<Rightarrow> explore_loop opts elapsed replay x'
           | (False, x') \<Rightarrow> ex_report x')"
  by pat_completeness auto
termination
proof (relation "measure (\<lambda>(opts, _, _, x). op_max_schedules opts - rt_executions (ex_report x))", goal_cases)
  case (2 opts elapsed replay x v x')
  then show ?case using round_executions [of opts replay x] by (cases "explore_round opts replay x") auto
qed simp

declare explore_loop.simps [simp del]

definition explore :: "explore_options \<Rightarrow> (nat \<Rightarrow> nat) \<Rightarrow> replayer \<Rightarrow> explore_report" where
  "explore opts elapsed replay = explore_loop opts elapsed replay new_explorer"

end
