(* ===== verification/SchedReplay.thy ===== *)
theory SchedReplay
  imports SchedTask
begin

text \<open>
  Replay: a schedule is its decision stream. A program is a function from the decisions taken so far to
  its next decision point; driving it with any chooser records a stream, and driving it again with the
  packed seed of that stream, or with the plan made of it, takes the same decisions.
\<close>

definition sched_for_seed :: "64 word option \<Rightarrow> 'c sched" where
  "sched_for_seed seed =
     (case seed of
        Some n \<Rightarrow> if seed_is_packed n then sched_packed n else sched_new n
      | None \<Rightarrow> sched_new 0)"

fun drive :: "(decision list \<Rightarrow> decision_kind \<times> nat list) \<Rightarrow> nat \<Rightarrow> 'c sched \<Rightarrow> 'c sched" where
  "drive prog 0 s = s"
| "drive prog (Suc n) s =
     (let s' = drive prog n s; (k, cands) = prog (st_decisions s') in snd (decide k cands s'))"

definition plan_of :: "decision list \<Rightarrow> plan_rec" where
  "plan_of ds = \<lparr>pl_choices = map de_chosen ds, pl_expected = map (\<lambda>d. (de_kind d, de_candidates d)) ds,
     pl_leak = False\<rparr>"

section \<open>What a driven machine records\<close>

lemma decide_decisions:
  "st_decisions (snd (decide k cands s)) = st_decisions s @
     [\<lparr>de_kind = k, de_candidates = cands,
       de_chosen = fst (choose_index (st_chooser s) (length (st_decisions s)) (length cands))\<rparr>]"
  "st_chooser (snd (decide k cands s)) = snd (choose_index (st_chooser s) (length (st_decisions s)) (length cands))"
  by (simp_all add: decide_def Let_def split: prod.splits)

lemma choose_index_small: "n \<le> 1 \<Longrightarrow> fst (choose_index ch i n) = 0"
  by (auto simp: choose_index_def split: chooser.splits)

lemma choose_index_bound: "0 < n \<Longrightarrow> fst (choose_index ch i n) < n"
  by (auto simp: choose_index_def Let_def split: chooser.splits)

definition legal :: "decision \<Rightarrow> bool" where
  "legal d \<longleftrightarrow> (if length (de_candidates d) \<le> 1 then de_chosen d = 0 else de_chosen d < length (de_candidates d))"

text \<open>A stream the program can have recorded: every entry asks what the program asks after the entries
  before it, and answers in bounds.\<close>

definition stream_of :: "(decision list \<Rightarrow> decision_kind \<times> nat list) \<Rightarrow> decision list \<Rightarrow> bool" where
  "stream_of prog ds \<longleftrightarrow>
     (\<forall>i < length ds. (de_kind (ds ! i), de_candidates (ds ! i)) = prog (take i ds) \<and> legal (ds ! i))"

lemma stream_of_snoc:
  "stream_of prog (ds @ [d]) \<longleftrightarrow> stream_of prog ds \<and> (de_kind d, de_candidates d) = prog ds \<and> legal d"
  by (auto simp: stream_of_def nth_append less_Suc_eq)

lemma drive_stream:
  "st_decisions s = [] \<Longrightarrow> stream_of prog (st_decisions (drive prog n s)) \<and> length (st_decisions (drive prog n s)) = n"
proof (induction n)
  case 0
  then show ?case by (simp add: stream_of_def)
next
  case (Suc n)
  let ?s = "drive prog n s"
  obtain k cands where p: "prog (st_decisions ?s) = (k, cands)" by fastforce
  let ?ch = "fst (choose_index (st_chooser ?s) (length (st_decisions ?s)) (length cands))"
  have "legal \<lparr>de_kind = k, de_candidates = cands, de_chosen = ?ch\<rparr>"
  proof (cases "length cands \<le> 1")
    case True
    then show ?thesis by (simp add: legal_def choose_index_small)
  next
    case False
    then have "0 < length cands" by linarith
    with False choose_index_bound [OF this] show ?thesis by (simp add: legal_def)
  qed
  with Suc p show ?case by (simp add: decide_decisions stream_of_snoc)
qed

text \<open>Two machines that answer alike record the same stream.\<close>

lemma drive_determined:
  assumes str: "stream_of prog ds" and s0: "st_decisions s = []" and inv0: "J 0 (st_chooser s)"
    and step: "\<And>i ch. i < length ds \<Longrightarrow> J i ch \<Longrightarrow>
      fst (choose_index ch i (length (de_candidates (ds ! i)))) = de_chosen (ds ! i) \<and>
      J (Suc i) (snd (choose_index ch i (length (de_candidates (ds ! i)))))"
  shows "n \<le> length ds \<Longrightarrow> st_decisions (drive prog n s) = take n ds \<and> J n (st_chooser (drive prog n s))"
proof (induction n)
  case 0
  then show ?case by (simp add: s0 inv0)
next
  case (Suc n)
  then have ih: "st_decisions (drive prog n s) = take n ds" "J n (st_chooser (drive prog n s))" and n: "n < length ds"
    by simp_all
  from str n have p: "prog (take n ds) = (de_kind (ds ! n), de_candidates (ds ! n))" by (simp add: stream_of_def)
  from step [OF n ih(2)] ih n p show ?case
    by (simp add: decide_decisions take_Suc_conv_app_nth min_def)
qed

section \<open>Packing\<close>

fun radix_value :: "decision list \<Rightarrow> nat" where
  "radix_value [] = 0"
| "radix_value (d # ds) =
     (let n = length (de_candidates d) in
      if n \<le> 1 then radix_value ds else de_chosen d + n * radix_value ds)"

lemma digit_split: "c < n \<Longrightarrow> (c + n * x) mod n = c \<and> (c + n * x) div n = (x :: nat)"
  by simp

lemma pack_digits_value: "pack_digits ds v w = Some r \<Longrightarrow> r = v + w * radix_value ds"
  by (induction ds v w rule: pack_digits.induct) (auto simp: Let_def algebra_simps split: if_splits)

lemma radix_value_append: "\<forall>d \<in> set ys. de_chosen d = 0 \<Longrightarrow> radix_value (xs @ ys) = radix_value xs"
proof -
  assume z: "\<forall>d \<in> set ys. de_chosen d = 0"
  then have "radix_value ys = 0" by (induction ys) (auto simp: Let_def)
  then show ?thesis by (induction xs) (auto simp: Let_def)
qed

lemma up_to_last_choice_value: "radix_value (up_to_last_choice ds) = radix_value ds"
proof -
  have "ds = up_to_last_choice ds @ rev (takeWhile (\<lambda>d. de_chosen d = 0) (rev ds))"
    by (simp add: up_to_last_choice_def flip: rev_append)
  moreover have "\<forall>d \<in> set (rev (takeWhile (\<lambda>d. de_chosen d = 0) (rev ds))). de_chosen d = 0"
    by (auto dest: set_takeWhileD)
  ultimately show ?thesis using radix_value_append by metis
qed

lemma packed_seed_bits:
  assumes "v \<le> unat PACKED_SEED_MASK"
  shows "seed_is_packed (PACKED_SEED_TAG OR word_of_nat v)"
    and "unat ((PACKED_SEED_TAG OR word_of_nat v) AND PACKED_SEED_MASK) = v"
proof -
  let ?w = "word_of_nat v :: 64 word"
  have m: "PACKED_SEED_MASK = mask 62" and t: "PACKED_SEED_TAG = push_bit 62 1"
    by (simp_all add: PACKED_SEED_MASK_def PACKED_SEED_TAG_def mask_eq_exp_minus_1 push_bit_eq_mult)
  have v: "v < 2 ^ 62" using assms by (simp add: PACKED_SEED_MASK_def PACKED_SEED_TAG_def)
  then have w: "unat ?w = v" by (simp add: unat_of_nat)
  have low: "take_bit 62 ?w = ?w" using v w by (simp add: word_unat_eq_iff unsigned_take_bit_eq take_bit_nat_eq_self)
  have bw: "bit ?w i \<Longrightarrow> i < 62" for i using low by (metis bit_take_bit_iff)
  have bt: "bit (PACKED_SEED_TAG :: 64 word) i \<longleftrightarrow> i = 62" for i
    unfolding t bit_push_bit_iff by (auto simp: bit_1_iff)
  have "bit ((PACKED_SEED_TAG OR ?w) AND PACKED_SEED_TAG) 62" by (simp add: bit_and_iff bit_or_iff bt)
  then have "(PACKED_SEED_TAG OR ?w) AND PACKED_SEED_TAG \<noteq> 0" by (metis bit_0_eq bot_apply bot_bool_def)
  moreover have "\<not> bit (PACKED_SEED_TAG OR ?w) 63" using bw [of 63] by (auto simp: bit_or_iff bt)
  ultimately show "seed_is_packed (PACKED_SEED_TAG OR ?w)" by (simp add: seed_is_packed_def)
  have "(PACKED_SEED_TAG OR ?w) AND PACKED_SEED_MASK = ?w"
    by (rule bit_word_eqI) (use bw bt in \<open>auto simp: m bit_and_iff bit_or_iff bit_mask_iff\<close>)
  with w show "unat ((PACKED_SEED_TAG OR ?w) AND PACKED_SEED_MASK) = v" by simp
qed

lemma pack_schedule_seed:
  assumes "pack_schedule ds = Some seed" and "st_decisions s = []" and "stream_of prog ds"
    and "st_chooser s = st_chooser (sched_for_seed (Some seed) :: 'c sched)"
  shows "st_decisions (drive prog (length ds) s) = ds"
proof (cases "up_to_last_choice ds = []")
  case True
  then have z: "\<forall>d \<in> set ds. de_chosen d = 0" by (simp add: up_to_last_choice_def dropWhile_eq_Nil_conv)
  have "st_chooser s = Seeded 0 1"
    using assms True by (simp add: pack_schedule_def sched_for_seed_def seed_is_packed_def sched_new_def sched_with_def)
  with z drive_determined [OF assms(3,2), of "\<lambda>i ch. ch = Seeded 0 1" "length ds"] show ?thesis
    by (auto simp: choose_index_def)
next
  case False
  with assms(1) obtain v where v: "pack_digits (up_to_last_choice ds) 0 1 = Some v" "v \<le> unat PACKED_SEED_MASK"
    and seed: "seed = PACKED_SEED_TAG OR word_of_nat v"
    by (auto simp: pack_schedule_def split: option.splits if_splits)
  have vv: "v = radix_value ds" using pack_digits_value [OF v(1)] by (simp add: up_to_last_choice_value)
  let ?inv = "\<lambda>i ch. \<exists>D. ch = Packed D \<and> unat D = radix_value (drop i ds)"
  have "?inv 0 (st_chooser s)"
    using assms(4) packed_seed_bits [OF v(2)] seed vv
    by (simp add: sched_for_seed_def sched_packed_def sched_with_def)
  moreover have "fst (choose_index ch i (length (de_candidates (ds ! i)))) = de_chosen (ds ! i) \<and>
      ?inv (Suc i) (snd (choose_index ch i (length (de_candidates (ds ! i)))))"
    if i: "i < length ds" and inv: "?inv i ch" for i ch
  proof -
    from inv obtain D where D: "ch = Packed D" "unat D = radix_value (drop i ds)" by blast
    have d: "drop i ds = ds ! i # drop (Suc i) ds" using i by (simp add: Cons_nth_drop_Suc)
    have l: "legal (ds ! i)" using assms(3) i by (simp add: stream_of_def)
    let ?n = "length (de_candidates (ds ! i))"
    show ?thesis
    proof (cases "?n \<le> 1")
      case True
      with D l show ?thesis by (simp add: choose_index_def legal_def d Let_def)
    next
      case False
      with l have c: "de_chosen (ds ! i) < ?n" by (simp add: legal_def)
      have e: "unat D = de_chosen (ds ! i) + ?n * radix_value (drop (Suc i) ds)" using False D by (simp add: d Let_def)
      have "unat D mod ?n = de_chosen (ds ! i)" "unat D div ?n = radix_value (drop (Suc i) ds)"
        unfolding e using digit_split [OF c] by blast+
      moreover have "unat (word_of_nat (unat D div ?n) :: 64 word) = unat D div ?n"
      proof -
        have "unat D < 2 ^ LENGTH(64)" by (rule unsigned_less)
        with div_le_dividend [of "unat D" ?n] have "unat D div ?n < 2 ^ LENGTH(64)" by linarith
        then show ?thesis by (simp add: unat_of_nat)
      qed
      ultimately show ?thesis using False D by (simp add: choose_index_def)
    qed
  qed
  ultimately show ?thesis using drive_determined [OF assms(3,2), of ?inv "length ds"] by simp
qed

text \<open>A packed seed replays its schedule. Whatever chooser a run used, and whatever decision points the
  program asks for in reaction to the decisions taken, if the recorded stream packs into a seed then the
  scheduler that is started with that seed takes exactly the recorded decisions.\<close>

theorem packed_seed_replays:
  assumes "ds = st_decisions (drive prog n (sched_with ch :: 'c sched))" and "pack_schedule ds = Some seed"
  shows "st_decisions (drive prog n (sched_for_seed (Some seed) :: 'c sched)) = ds"
proof -
  have "st_decisions (sched_with ch' :: 'c sched) = []" for ch' by (simp add: sched_with_def)
  with drive_stream [of "sched_with ch :: 'c sched" prog n] assms(1) have s: "stream_of prog ds" "length ds = n" by simp_all
  have "st_decisions (sched_for_seed (Some seed) :: 'c sched) = []"
    by (simp add: sched_for_seed_def sched_packed_def sched_new_def sched_with_def)
  from pack_schedule_seed [OF assms(2) this s(1) refl] s(2) show ?thesis by simp
qed

definition demo_prog :: "decision list \<Rightarrow> decision_kind \<times> nat list" where
  "demo_prog ds = (if ds = [] then (DkTask, [1, 2, 3]) else (DkArm, map (\<lambda>d. de_chosen d) ds @ [7]))"

definition demo_stream :: "decision list" where
  "demo_stream =
     [\<lparr>de_kind = DkTask, de_candidates = [1, 2, 3], de_chosen = 2\<rparr>,
      \<lparr>de_kind = DkArm, de_candidates = [2, 7], de_chosen = 1\<rparr>,
      \<lparr>de_kind = DkArm, de_candidates = [2, 1, 7], de_chosen = 1\<rparr>]"

lemma demo_recorded:
  "demo_stream = st_decisions (drive demo_prog 3 (sched_with (Planned
     \<lparr>pl_choices = [2, 1, 1], pl_expected = [], pl_leak = False\<rparr>) :: unit sched))"
  by (simp add: demo_stream_def eval_nat_numeral decide_decisions demo_prog_def sched_with_def
      choose_index_def plan_choice_def get_at_def)

theorem packed_seed_replays_witness:
  "\<exists>seed. pack_schedule demo_stream = Some seed \<and>
   st_decisions (drive demo_prog 3 (sched_for_seed (Some seed) :: unit sched)) = demo_stream"
proof -
  have "pack_schedule demo_stream \<noteq> None"
    by (simp add: pack_schedule_def up_to_last_choice_def demo_stream_def PACKED_SEED_MASK_def PACKED_SEED_TAG_def Let_def)
  then obtain seed where p: "pack_schedule demo_stream = Some seed" by blast
  from packed_seed_replays [OF demo_recorded p] p show ?thesis by blast
qed

section \<open>Plans\<close>

lemma plan_step:
  assumes "stream_of prog ds" and "i < length ds" and "de_candidates (ds ! i) \<noteq> []"
  shows "\<not> plan_mismatch (plan_of ds) i (de_kind (ds ! i)) (de_candidates (ds ! i))"
    and "choose_index (Planned (plan_of ds)) i (length (de_candidates (ds ! i))) = (de_chosen (ds ! i), Planned (plan_of ds))"
proof -
  have "legal (ds ! i)" using assms(1,2) by (simp add: stream_of_def)
  then have "de_chosen (ds ! i) < length (de_candidates (ds ! i))"
    using assms(3) by (auto simp: legal_def split: if_splits)
  then show "\<not> plan_mismatch (plan_of ds) i (de_kind (ds ! i)) (de_candidates (ds ! i))"
    and "choose_index (Planned (plan_of ds)) i (length (de_candidates (ds ! i))) = (de_chosen (ds ! i), Planned (plan_of ds))"
    using assms(2) by (simp_all add: plan_mismatch_def plan_of_def plan_choice_def choose_index_def)
qed

lemma plan_drive:
  assumes str: "stream_of prog ds" and ne: "\<forall>d \<in> set ds. de_candidates d \<noteq> []"
    and s: "st_decisions s = []" "st_chooser s = Planned (plan_of ds)" "st_divergence s = None"
  shows "n \<le> length ds \<Longrightarrow> st_decisions (drive prog n s) = take n ds \<and>
     st_chooser (drive prog n s) = Planned (plan_of ds) \<and> st_divergence (drive prog n s) = None"
proof (induction n)
  case 0
  then show ?case by (simp add: s)
next
  case (Suc n)
  then have n: "n < length ds" and ih: "st_decisions (drive prog n s) = take n ds"
    "st_chooser (drive prog n s) = Planned (plan_of ds)" "st_divergence (drive prog n s) = None" by simp_all
  from str n have p: "prog (take n ds) = (de_kind (ds ! n), de_candidates (ds ! n))" by (simp add: stream_of_def)
  from ne n have "de_candidates (ds ! n) \<noteq> []" by simp
  with plan_step [OF str n] ih n p show ?case
    by (simp add: decide_def Let_def take_Suc_conv_app_nth min_def)
qed

text \<open>A plan replays its schedule without divergence. The plan made of a recorded stream (with no empty
  decision point) forces the same decisions on the same program, and the completeness assertion never
  fires.\<close>

theorem plan_replays:
  assumes "ds = st_decisions (drive prog n (sched_with ch :: 'c sched))"
    and "\<forall>d \<in> set ds. de_candidates d \<noteq> []"
  shows "st_decisions (drive prog n (sched_planned (plan_of ds) :: 'c sched)) = ds \<and>
     st_divergence (drive prog n (sched_planned (plan_of ds) :: 'c sched)) = None"
proof -
  have "st_decisions (sched_with ch :: 'c sched) = []" by (simp add: sched_with_def)
  with drive_stream [of "sched_with ch :: 'c sched" prog n] assms(1) have s: "stream_of prog ds" "length ds = n" by simp_all
  show ?thesis
    using plan_drive [OF s(1) assms(2), of "sched_planned (plan_of ds) :: 'c sched" n] s(2)
    by (simp add: sched_planned_def sched_with_def)
qed

theorem plan_replays_witness:
  "st_divergence (drive demo_prog 3 (sched_planned (plan_of demo_stream) :: unit sched)) = None"
proof -
  have "\<forall>d \<in> set demo_stream. de_candidates d \<noteq> []" by (simp add: demo_stream_def)
  from plan_replays [OF demo_recorded this] show ?thesis ..
qed

end
