(* ===== verification/ExploreProps.thy ===== *)
theory ExploreProps
  imports Explore SchedReplay
begin

text \<open>
  What the explorer establishes. A program under exploration is a tree of decision points; a replay with a
  plan follows the plan through the tree and then any branch. With full branching, a closed frontier means that
  every schedule of the tree was run exactly once; with the reductions on, every reported outcome is one of
  a schedule of the tree and its recorded choices replay it.
\<close>

section \<open>Decision trees\<close>

text \<open>The next decision point after the decisions so far; \<open>None\<close> when the program has ended.\<close>

type_synonym decision_tree = "decision list \<Rightarrow> (decision_kind \<times> nat list) option"

definition partial_stream :: "decision_tree \<Rightarrow> decision list \<Rightarrow> bool" where
  "partial_stream tree ds \<longleftrightarrow>
     (\<forall>i < length ds. tree (take i ds) = Some (de_kind (ds ! i), de_candidates (ds ! i)) \<and>
        de_chosen (ds ! i) < length (de_candidates (ds ! i)))"

definition complete_stream :: "decision_tree \<Rightarrow> decision list \<Rightarrow> bool" where
  "complete_stream tree ds \<longleftrightarrow> partial_stream tree ds \<and> tree ds = None"

definition value_at :: "decision list \<Rightarrow> nat \<Rightarrow> nat" where
  "value_at ds i = de_candidates (ds ! i) ! de_chosen (ds ! i)"

lemma partial_take: "partial_stream tree ds \<Longrightarrow> partial_stream tree (take n ds)"
  by (simp add: partial_stream_def min_def)

lemma partial_snoc:
  "partial_stream tree (ds @ [d]) \<longleftrightarrow>
     partial_stream tree ds \<and> tree ds = Some (de_kind d, de_candidates d) \<and> de_chosen d < length (de_candidates d)"
  by (auto simp: partial_stream_def nth_append less_Suc_eq)

lemma complete_split:
  assumes "complete_stream tree ds" and "complete_stream tree es" and "ds \<noteq> es"
  obtains d where "d < length ds" "d < length es" "take d ds = take d es" "ds ! d \<noteq> es ! d"
proof -
  define n where "n = (LEAST n. take (Suc n) ds \<noteq> take (Suc n) es)"
  have "\<exists>n. take (Suc n) ds \<noteq> take (Suc n) es"
  proof (rule exI [of _ "max (length ds) (length es)"])
    show "take (Suc (max (length ds) (length es))) ds \<noteq> take (Suc (max (length ds) (length es))) es" using assms(3) by simp
  qed
  then have n: "take (Suc n) ds \<noteq> take (Suc n) es" unfolding n_def by (rule LeastI_ex)
  have t: "take n ds = take n es"
  proof (cases n)
    case (Suc m)
    then have "m < n" by simp
    then show ?thesis using not_less_Least [of m "\<lambda>n. take (Suc n) ds \<noteq> take (Suc n) es"] unfolding n_def [symmetric] Suc by blast
  qed simp
  have l: "n < length ds" "n < length es"
  proof -
    have "tree (take n ds) = tree (take n es)" using t by simp
    moreover have "n < length xs \<Longrightarrow> complete_stream tree xs \<Longrightarrow> tree (take n xs) \<noteq> None" for xs
      by (simp add: complete_stream_def partial_stream_def)
    moreover have "\<not> n < length xs \<Longrightarrow> complete_stream tree xs \<Longrightarrow> tree (take n xs) = None" for xs
      by (simp add: complete_stream_def)
    ultimately have "n < length ds \<longleftrightarrow> n < length es" using assms(1,2) by metis
    moreover have "n < length ds \<or> n < length es"
    proof (rule ccontr)
      assume "\<not> ?thesis"
      then have "take (Suc n) ds = take n ds" "take (Suc n) es = take n es" by simp_all
      with n t show False by simp
    qed
    ultimately show "n < length ds" "n < length es" by simp_all
  qed
  then have "ds ! n \<noteq> es ! n" using n t by (auto simp: take_Suc_conv_app_nth)
  with l t show ?thesis by (rule that)
qed

locale replayed =
  fixes tree :: decision_tree and replay :: replayer and digest :: "decision list \<Rightarrow> 128 word"
  assumes candidates_ok: "partial_stream tree ds \<Longrightarrow> tree ds = Some (k, cs) \<Longrightarrow> distinct cs \<and> cs \<noteq> []"
    and replay_follows: "partial_stream tree ds \<Longrightarrow> rn_divergence (replay (plan_of ds) keep) = None \<and>
      complete_stream tree (rn_decisions (replay (plan_of ds) keep)) \<and>
      take (length ds) (rn_decisions (replay (plan_of ds) keep)) = ds"
    and replay_states: "length (rn_states (replay p keep)) = length (rn_decisions (replay p keep))"
    and replay_determined: "run_digest (replay p keep) = digest (rn_decisions (replay p keep))"

section \<open>What a round does to the path\<close>

definition decision_at :: "node \<Rightarrow> decision" where
  "decision_at n = \<lparr>de_kind = nd_kind n, de_candidates = nd_candidates n, de_chosen = current_index n\<rparr>"

text \<open>The parts of a node that footprints, sleep sets and pruning leave alone.\<close>

definition core :: "node \<Rightarrow> decision_kind \<times> nat list \<times> nat \<times> nat list" where
  "core n = (nd_kind n, nd_candidates n, nd_current n, nd_done n)"

lemma core_decision: "core m = core n \<Longrightarrow> decision_at m = decision_at n"
  by (simp add: core_def decision_at_def current_index_def)

lemma core_decisions: "map core ms = map core ns \<Longrightarrow> map decision_at ms = map decision_at ns"
  by (induction ms ns rule: list_induct2') (auto dest: core_decision)

definition node_ok :: "node \<Rightarrow> bool" where
  "node_ok n \<longleftrightarrow> distinct (nd_candidates n) \<and> nd_current n \<in> set (nd_candidates n) \<and> nd_current n \<in> set (nd_done n) \<and>
     set (nd_backtrack n) \<subseteq> set (nd_candidates n)"

definition full_node :: "node \<Rightarrow> bool" where
  "full_node n \<longleftrightarrow> set (nd_backtrack n) = set (nd_candidates n) \<and> \<not> nd_pruned n"

lemma set_set_insert [simp]: "set (set_insert x xs) = insert x (set xs)"
  by (simp add: set_insert_def set_insort_insert)

lemma set_fold_insert [simp]: "set (fold set_insert ys xs) = set ys \<union> set xs"
  by (induction ys arbitrary: xs) auto

lemma modify_core:
  "(\<And>n. core (f n) = core n) \<Longrightarrow> map core (modify_at i f ns) = map core ns"
  by (auto simp: modify_at_def list_eq_iff_nth_eq nth_list_update)

lemma footprint_node: "core (n\<lparr>nd_footprint := y\<rparr>) = core n" "core (n\<lparr>nd_sleep := z\<rparr>) = core n"
  "core (n\<lparr>nd_pruned := q\<rparr>) = core n" "core (n\<lparr>nd_backtrack := w\<rparr>) = core n"
  by (simp_all add: core_def)

lemma footprints_core: "map core (footprints ops path) = map core path"
proof -
  have "map core (fold add_footprint ops p) = map core p" for p
    by (induction ops arbitrary: p) (auto simp: add_footprint_def modify_core footprint_node split: option.split)
  then show ?thesis by (simp add: footprints_def footprint_node)
qed

lemma inherit_core: "map core (inherit_sleep forced path) = map core path"
proof -
  have "map core (fold (\<lambda>i ns. if i = 0 then ns else modify_at i (inherit_from (ns ! (i - 1))) ns) is p) = map core p" for "is" p
    by (induction "is" arbitrary: p) (auto simp: inherit_from_def modify_core footprint_node)
  then show ?thesis by (simp add: inherit_sleep_def)
qed

lemma fold_inv: "(\<And>x a. P x \<Longrightarrow> a \<in> set xs \<Longrightarrow> P (f a x)) \<Longrightarrow> P x \<Longrightarrow> P (fold f xs x)"
  by (induction xs arbitrary: x) auto

lemma grow_core: "map core (grow_pair b a path) = map core path"
  by (simp add: grow_pair_def grow_node_def modify_core footprint_node split: option.split)

lemma modify_all: "\<forall>n \<in> set p. P n \<Longrightarrow> (\<And>n. P n \<Longrightarrow> P (f n)) \<Longrightarrow> \<forall>n \<in> set (modify_at i f p). P n"
  by (auto simp: modify_at_def dest!: set_update_subset_insert [THEN subsetD])

lemma grow_ok: "\<forall>n \<in> set path. node_ok n \<Longrightarrow> \<forall>n \<in> set (grow_pair b a path). node_ok n"
proof -
  assume ok: "\<forall>n \<in> set path. node_ok n"
  have "node_ok n \<Longrightarrow> node_ok (grow_node t n)" for t n by (simp add: node_ok_def grow_node_def)
  then have "\<forall>n \<in> set (modify_at i (grow_node t) path). node_ok n" for i t by (rule modify_all [OF ok])
  with ok show ?thesis by (simp add: grow_pair_def split: option.split)
qed

lemma backtrack_sets:
  "map core (grow_backtrack ops path) = map core path"
  "\<forall>n \<in> set path. node_ok n \<Longrightarrow> \<forall>n \<in> set (grow_backtrack ops path). node_ok n"
proof -
  show "map core (grow_backtrack ops path) = map core path"
    unfolding grow_backtrack_def
    by (intro fold_inv [where P = "\<lambda>p. map core p = map core path"]) (simp_all add: grow_core)
  assume ok: "\<forall>n \<in> set path. node_ok n"
  have inner: "\<forall>n \<in> set (fold (grow_pair b) as p). node_ok n" if "\<forall>n \<in> set p. node_ok n" for b as p
    by (rule fold_inv [where P = "\<lambda>p. \<forall>n \<in> set p. node_ok n"]) (rule grow_ok, assumption, rule that)
  show "\<forall>n \<in> set (grow_backtrack ops path). node_ok n"
    unfolding grow_backtrack_def
    by (rule fold_inv [where P = "\<lambda>p. \<forall>n \<in> set p. node_ok n"]) (rule inner, assumption, rule ok)
qed

lemma mark_pruned_facts:
  "map core (ex_path (mark_pruned opts x)) = map core (ex_path x)"
  "\<forall>n \<in> set (ex_path x). node_ok n \<Longrightarrow> \<forall>n \<in> set (ex_path (mark_pruned opts x)). node_ok n"
  "ex_forced (mark_pruned opts x) = ex_forced x"
  "rt_frontier_open (ex_report (mark_pruned opts x)) = rt_frontier_open (ex_report x)"
  "rt_outcomes (ex_report (mark_pruned opts x)) = rt_outcomes (ex_report x)"
  "rt_schedules (ex_report (mark_pruned opts x)) = rt_schedules (ex_report x)"
proof -
  define f where "f = (\<lambda>i x. if prune_node opts (ex_visited x) i (ex_path x ! i)
                 then upd_report (\<lambda>p. p\<lparr>rt_pruned := rt_pruned p + 1\<rparr>)
                        (x\<lparr>ex_path := modify_at i (\<lambda>n. n\<lparr>nd_pruned := True\<rparr>) (ex_path x)\<rparr>)
                 else x)"
  have m: "mark_pruned opts x = fold f [ex_forced x..<length (ex_path x)] x" by (simp add: mark_pruned_def f_def)
  have step: "map core (ex_path (f i x)) = map core (ex_path x)" "ex_forced (f i x) = ex_forced x"
    "rt_frontier_open (ex_report (f i x)) = rt_frontier_open (ex_report x)"
    "rt_outcomes (ex_report (f i x)) = rt_outcomes (ex_report x)"
    "rt_schedules (ex_report (f i x)) = rt_schedules (ex_report x)" for i x
    by (simp_all add: f_def modify_core footprint_node)
  have ok: "\<forall>n \<in> set (ex_path x). node_ok n \<Longrightarrow> \<forall>n \<in> set (ex_path (f i x)). node_ok n" for i x
  proof -
    assume o: "\<forall>n \<in> set (ex_path x). node_ok n"
    have "node_ok n \<Longrightarrow> node_ok (n\<lparr>nd_pruned := True\<rparr>)" for n by (simp add: node_ok_def)
    then have "\<forall>n \<in> set (modify_at i (\<lambda>n. n\<lparr>nd_pruned := True\<rparr>) (ex_path x)). node_ok n" by (rule modify_all [OF o])
    with o show ?thesis by (simp add: f_def)
  qed
  have all: "map core (ex_path (fold f is x)) = map core (ex_path x) \<and> ex_forced (fold f is x) = ex_forced x \<and>
    rt_frontier_open (ex_report (fold f is x)) = rt_frontier_open (ex_report x) \<and>
    rt_outcomes (ex_report (fold f is x)) = rt_outcomes (ex_report x) \<and>
    rt_schedules (ex_report (fold f is x)) = rt_schedules (ex_report x)" for "is" x
    by (induction "is" arbitrary: x) (simp_all add: step)
  show "map core (ex_path (mark_pruned opts x)) = map core (ex_path x)" "ex_forced (mark_pruned opts x) = ex_forced x"
    "rt_frontier_open (ex_report (mark_pruned opts x)) = rt_frontier_open (ex_report x)"
    "rt_outcomes (ex_report (mark_pruned opts x)) = rt_outcomes (ex_report x)"
    "rt_schedules (ex_report (mark_pruned opts x)) = rt_schedules (ex_report x)"
    unfolding m using all by blast+
  show "\<forall>n \<in> set (ex_path x). node_ok n \<Longrightarrow> \<forall>n \<in> set (ex_path (mark_pruned opts x)). node_ok n"
    unfolding m by (rule fold_inv [where P = "\<lambda>x. \<forall>n \<in> set (ex_path x). node_ok n"]) (rule ok, assumption)
qed

lemma node_ok_core: "core m = core n \<Longrightarrow> nd_backtrack m = nd_backtrack n \<Longrightarrow> node_ok n \<Longrightarrow> node_ok m"
  unfolding node_ok_def core_def by auto

lemma ok_core: "map core ms = map core ns \<Longrightarrow> map nd_backtrack ms = map nd_backtrack ns \<Longrightarrow>
  \<forall>n \<in> set ns. node_ok n \<Longrightarrow> \<forall>n \<in> set ms. node_ok n"
proof (induction ms ns rule: list_induct2')
  case (4 m ms n ns)
  then have "node_ok m" using node_ok_core [of m n] by simp
  moreover have "\<forall>n \<in> set ms. node_ok n" by (rule 4(1)) (use 4(2-4) in simp_all)
  ultimately show ?case by simp
qed simp_all

text \<open>Footprints and sleep sets change neither backtrack sets nor the pruned marks.\<close>

definition plan_part :: "node \<Rightarrow> nat list \<times> bool" where
  "plan_part n = (nd_backtrack n, nd_pruned n)"

lemma modify_part:
  "(\<And>n. plan_part (f n) = plan_part n) \<Longrightarrow> map plan_part (modify_at i f ns) = map plan_part ns"
  by (auto simp: modify_at_def list_eq_iff_nth_eq nth_list_update)

lemma footprints_part: "map plan_part (footprints ops path) = map plan_part path"
proof -
  have f: "plan_part (n\<lparr>nd_footprint := y\<rparr>) = plan_part n" for n y by (simp add: plan_part_def)
  have "map plan_part (fold add_footprint ops p) = map plan_part p" for p
    by (induction ops arbitrary: p) (auto simp: add_footprint_def modify_part f split: option.split)
  then show ?thesis by (simp add: footprints_def f)
qed

lemma inherit_part: "map plan_part (inherit_sleep forced path) = map plan_part path"
proof -
  have f: "plan_part (inherit_from a n) = plan_part n" for a n by (simp add: plan_part_def inherit_from_def)
  have "map plan_part (fold (\<lambda>i ns. if i = 0 then ns else modify_at i (inherit_from (ns ! (i - 1))) ns) is p) = map plan_part p" for "is" p
    by (induction "is" arbitrary: p) (auto simp: modify_part f)
  then show ?thesis by (simp add: inherit_sleep_def)
qed

lemma part_backtrack: "map plan_part ms = map plan_part ns \<Longrightarrow> map nd_backtrack ms = map nd_backtrack ns"
  by (induction ms ns rule: list_induct2') (auto simp: plan_part_def)

definition run_path :: "explore_options \<Rightarrow> run_rec \<Rightarrow> explorer \<Rightarrow> node list" where
  "run_path opts r x = take (ex_forced x) (ex_path x) @ fresh_nodes opts (ex_forced x) r"

lemma rebuild_facts:
  assumes "\<forall>n \<in> set (run_path opts r x). node_ok n"
  shows "map core (ex_path (rebuild_path opts r x)) = map core (run_path opts r x)"
    and "\<forall>n \<in> set (ex_path (rebuild_path opts r x)). node_ok n"
    and "op_naive opts \<Longrightarrow> map plan_part (ex_path (rebuild_path opts r x)) = map plan_part (run_path opts r x)"
    and "ex_forced (rebuild_path opts r x) = ex_forced x"
    and "rt_frontier_open (ex_report (rebuild_path opts r x)) = rt_frontier_open (ex_report x)"
    and "rt_outcomes (ex_report (rebuild_path opts r x)) = rt_outcomes (ex_report x)"
    and "rt_schedules (ex_report (rebuild_path opts r x)) = rt_schedules (ex_report x)"
proof -
  define p1 where "p1 = footprints (rn_ops r) (run_path opts r x)"
  define p2 where "p2 = (if op_naive opts then p1 else grow_backtrack (rn_ops r) (inherit_sleep (ex_forced x) p1))"
  have eq: "rebuild_path opts r x = (if prunes opts then mark_pruned opts (x\<lparr>ex_path := p2\<rparr>) else x\<lparr>ex_path := p2\<rparr>)"
    by (simp add: rebuild_path_def Let_def p1_def p2_def run_path_def)
  have ok1: "\<forall>n \<in> set p1. node_ok n"
    using ok_core [OF footprints_core part_backtrack [OF footprints_part] assms] by (simp add: p1_def)
  have ok2: "\<forall>n \<in> set (inherit_sleep (ex_forced x) p1). node_ok n"
    by (rule ok_core [OF inherit_core part_backtrack [OF inherit_part] ok1])
  have ok3: "\<forall>n \<in> set p2. node_ok n" using ok1 backtrack_sets(2) [OF ok2] by (simp add: p2_def)
  have c: "map core p2 = map core (run_path opts r x)"
    by (simp add: p2_def backtrack_sets(1) inherit_core p1_def footprints_core)
  show "map core (ex_path (rebuild_path opts r x)) = map core (run_path opts r x)"
    by (simp add: eq mark_pruned_facts c)
  show "\<forall>n \<in> set (ex_path (rebuild_path opts r x)). node_ok n"
    using ok3 mark_pruned_facts(2) [of "x\<lparr>ex_path := p2\<rparr>" opts] by (simp add: eq)
  show "map plan_part (ex_path (rebuild_path opts r x)) = map plan_part (run_path opts r x)" if "op_naive opts"
    using that by (simp add: eq prunes_def p2_def p1_def footprints_part)
qed (simp_all add: rebuild_path_def Let_def mark_pruned_facts)

section \<open>Fresh nodes\<close>

lemma position_nth: "distinct xs \<Longrightarrow> i < length xs \<Longrightarrow> position (\<lambda>c. c = xs ! i) xs = Some i"
proof (induction xs arbitrary: i)
  case (Cons x xs)
  then show ?case by (cases i) auto
qed simp

lemma current_index_nth:
  "distinct (nd_candidates n) \<Longrightarrow> nd_current n \<in> set (nd_candidates n) \<Longrightarrow>
     current_index n < length (nd_candidates n) \<and> nd_candidates n ! current_index n = nd_current n"
  using position_Some [of "\<lambda>c. c = nd_current n" "nd_candidates n"] position_None_iff [of "\<lambda>c. c = nd_current n" "nd_candidates n"]
  by (auto simp: current_index_def split: option.split)

lemma new_node_facts:
  assumes "distinct (de_candidates d)" and "de_chosen d < length (de_candidates d)"
  shows "node_ok (new_node naive d h)" and "decision_at (new_node naive d h) = d"
    and "nd_done (new_node naive d h) = [de_candidates d ! de_chosen d]"
    and "nd_candidates (new_node naive d h) = de_candidates d"
    and "naive \<Longrightarrow> full_node (new_node naive d h)"
  using assms position_nth [OF assms]
  by (auto simp: node_ok_def new_node_def Let_def decision_at_def current_index_def full_node_def)

lemma fresh_facts:
  assumes "\<forall>d \<in> set (rn_decisions r). distinct (de_candidates d) \<and> de_chosen d < length (de_candidates d)"
    and "length (rn_states r) = length (rn_decisions r)"
  shows "map decision_at (fresh_nodes opts forced r) = take (op_max_steps opts - forced) (drop forced (rn_decisions r))"
    and "\<forall>n \<in> set (fresh_nodes opts forced r). node_ok n \<and> nd_done n = [nd_current n] \<and> (op_naive opts \<longrightarrow> full_node n)"
proof -
  define zs where "zs = take (op_max_steps opts - forced) (drop forced (zip (rn_decisions r) (rn_states r)))"
  have fr: "fresh_nodes opts forced r = map (\<lambda>(d, h). new_node (op_naive opts) d h) zs" by (simp add: fresh_nodes_def zs_def)
  have zs: "\<forall>z \<in> set zs. distinct (de_candidates (fst z)) \<and> de_chosen (fst z) < length (de_candidates (fst z))"
    using assms(1) by (auto simp: zs_def dest!: in_set_takeD in_set_dropD set_zip_leftD)
  have "map decision_at (fresh_nodes opts forced r) = map fst zs"
    using zs by (auto simp: fr new_node_facts)
  also have "\<dots> = take (op_max_steps opts - forced) (drop forced (rn_decisions r))"
    using assms(2) by (simp add: zs_def flip: take_map drop_map)
  finally show "map decision_at (fresh_nodes opts forced r) = take (op_max_steps opts - forced) (drop forced (rn_decisions r))" .
  show "\<forall>n \<in> set (fresh_nodes opts forced r). node_ok n \<and> nd_done n = [nd_current n] \<and> (op_naive opts \<longrightarrow> full_node n)"
    using zs by (auto simp: fr new_node_facts) (auto simp: new_node_def Let_def)
qed

section \<open>Backtracking\<close>

lemma try_candidates_facts:
  assumes "try_candidates opts before cs sk n sl = (pick, sk', n', sl')"
  shows "(sk \<longrightarrow> sk') \<and> (\<forall>c. pick = Some c \<longrightarrow> c \<in> set cs) \<and> nd_kind n' = nd_kind n \<and> nd_candidates n' = nd_candidates n \<and>
    nd_current n' = nd_current n \<and> nd_backtrack n' = nd_backtrack n \<and> set (nd_done n) \<subseteq> set (nd_done n') \<and>
    (op_naive opts \<longrightarrow> n' = n \<and> (pick = None \<and> \<not> sk' \<longrightarrow> cs = []))"
  using assms
proof (induction opts before cs sk n sl rule: try_candidates.induct)
  case (2 opts before c cs sk n sl)
  then show ?case
    by (auto split: if_splits)
qed auto

text \<open>What a scan from depth \<open>d\<close> down leaves behind.\<close>

definition picked :: "explore_options \<Rightarrow> nat \<Rightarrow> explorer \<Rightarrow> explorer \<Rightarrow> nat \<Rightarrow> bool" where
  "picked opts d x x' e \<longleftrightarrow> e < d \<and> ex_forced x' = Suc e \<and>
     (\<exists>n c. ex_path x' = take e (ex_path x) @ [take_pick opts c n] \<and> c \<in> set (waiting (ex_path x ! e)) \<and>
        nd_kind n = nd_kind (ex_path x ! e) \<and> nd_candidates n = nd_candidates (ex_path x ! e) \<and>
        nd_backtrack n = nd_backtrack (ex_path x ! e) \<and> (op_naive opts \<longrightarrow> n = ex_path x ! e))"

lemma picked_frame:
  "picked opts d y x' e \<Longrightarrow> take d (ex_path y) = take d (ex_path x) \<Longrightarrow> picked opts (Suc d) x x' e"
proof -
  assume p: "picked opts d y x' e" and t: "take d (ex_path y) = take d (ex_path x)"
  have "e < d" using p by (simp add: picked_def)
  then have "ex_path y ! e = ex_path x ! e" "take e (ex_path y) = take e (ex_path x)"
    using t by (metis nth_take, metis min.absorb1 less_imp_le take_take)
  with p show ?thesis by (auto simp: picked_def)
qed

definition scanned :: "explore_options \<Rightarrow> nat \<Rightarrow> explorer \<Rightarrow> bool \<Rightarrow> explorer \<Rightarrow> bool" where
  "scanned opts d x b x' \<longleftrightarrow>
     (let closed = (op_naive opts \<and> \<not> rt_frontier_open (ex_report x')) in
      (b \<longrightarrow> (\<exists>e. picked opts d x x' e \<and> (closed \<longrightarrow> (\<forall>i. e < i \<and> i < d \<longrightarrow> waiting (ex_path x ! i) = [])))) \<and>
      (\<not> b \<and> closed \<longrightarrow> (\<forall>i < d. waiting (ex_path x ! i) = []))) \<and>
     rt_outcomes (ex_report x') = rt_outcomes (ex_report x) \<and> rt_schedules (ex_report x') = rt_schedules (ex_report x) \<and>
     rt_max_depth (ex_report x') = rt_max_depth (ex_report x) \<and>
     (rt_frontier_open (ex_report x) \<longrightarrow> rt_frontier_open (ex_report x'))"

lemma scan_back_facts:
  assumes "d \<le> length (ex_path x)" and "scan_back opts fp d x = (b, x')" and "op_naive opts \<Longrightarrow> fp = None"
  shows "scanned opts d x b x'"
  using assms(1,2)
proof (induction d arbitrary: x)
  case (Suc d)
  show ?case
  proof (cases "case fp of Some f \<Rightarrow> f \<le> d | None \<Rightarrow> False")
    case True
    then have n: "\<not> op_naive opts" using assms(3) by (cases fp) auto
    from True Suc have "scanned opts d x b x'" by simp
    then show ?thesis using n picked_frame [OF _ refl, of opts d x x'] unfolding scanned_def Let_def by blast
  next
    case False
    obtain pick sk n sl where t: "try_candidates opts (preemptions_before (ex_path x) d) (waiting (ex_path x ! d)) False (ex_path x ! d)
        (rt_slept (ex_report x)) = (pick, sk, n, sl)" by (metis prod_cases4)
    define x1 where "x1 = upd_report (\<lambda>p. p\<lparr>rt_slept := sl, rt_frontier_open := (rt_frontier_open p \<or> sk)\<rparr>)
                   (x\<lparr>ex_path := (ex_path x)[d := n]\<rparr>)"
    note f = try_candidates_facts [OF t]
    have sc: "scan_back opts fp (Suc d) x = (case pick of
             Some c \<Rightarrow> (True, x1\<lparr>ex_path := take d (ex_path x1) @ [take_pick opts c n], ex_forced := d + 1\<rparr>)
           | None \<Rightarrow> scan_back opts fp d (close_state opts d sk n x1))"
      by (simp only: scan_back.simps False if_False t Let_def prod.case x1_def)
    have x1: "rt_outcomes (ex_report x1) = rt_outcomes (ex_report x)" "rt_schedules (ex_report x1) = rt_schedules (ex_report x)"
      "rt_frontier_open (ex_report x1) \<longleftrightarrow> rt_frontier_open (ex_report x) \<or> sk" "ex_path x1 = (ex_path x)[d := n]"
      "rt_max_depth (ex_report x1) = rt_max_depth (ex_report x)"
      by (simp_all add: x1_def)
    show ?thesis
    proof (cases pick)
      case (Some c)
      with sc Suc.prems(2) have b: "b" "x' = x1\<lparr>ex_path := take d (ex_path x1) @ [take_pick opts c n], ex_forced := d + 1\<rparr>" by auto
      have "picked opts (Suc d) x x' d" using f Some by (auto simp: picked_def b x1)
      with b x1 show ?thesis by (auto simp: scanned_def Let_def)
    next
      case None
      define x2 where "x2 = close_state opts d sk n x1"
      have x2: "ex_path x2 = ex_path x1" "ex_report x2 = ex_report x1" by (simp_all add: x2_def close_state_def)
      from sc None Suc.prems have "scanned opts d x2 b x'" by (intro Suc.IH) (simp_all add: x2_def close_state_def x1)
      then have s: "scanned opts d x1 b x'" unfolding scanned_def picked_def x2 .
      have tk: "take d (ex_path x1) = take d (ex_path x)" by (simp add: x1)
      have pth: "i < d \<Longrightarrow> ex_path x1 ! i = ex_path x ! i" for i by (simp add: x1)
      have w: "waiting (ex_path x ! d) = []" if "op_naive opts" "\<not> rt_frontier_open (ex_report x')"
        using f None that s x1(3) by (auto simp: scanned_def)
      define closed where "closed \<longleftrightarrow> op_naive opts \<and> \<not> rt_frontier_open (ex_report x')"
      have "\<exists>e. picked opts (Suc d) x x' e \<and> (closed \<longrightarrow> (\<forall>i. e < i \<and> i < Suc d \<longrightarrow> waiting (ex_path x ! i) = []))" if more: "b"
      proof -
        obtain e where e: "picked opts d x1 x' e" "closed \<longrightarrow> (\<forall>i. e < i \<and> i < d \<longrightarrow> waiting (ex_path x1 ! i) = [])"
          using s more unfolding scanned_def Let_def closed_def by blast
        have "waiting (ex_path x ! i) = []" if "closed" "e < i" "i < Suc d" for i
          using that e(2) w pth [of i] by (cases "i = d") (auto simp: closed_def)
        with picked_frame [OF e(1) tk] show ?thesis by blast
      qed
      moreover have "waiting (ex_path x ! i) = []" if "\<not> b" "closed" "i < Suc d" for i
        using that s w pth [of i] less_Suc_eq [of i d] by (cases "i = d") (auto simp: scanned_def Let_def closed_def)
      ultimately show ?thesis using s x1 unfolding scanned_def Let_def closed_def by simp
    qed
  qed
qed (simp add: scanned_def Let_def)

lemma judge_facts:
  "rt_schedules (judge r p) = rt_schedules p + 1" "rt_frontier_open (judge r p) = rt_frontier_open p"
  "rt_divergence (judge r p) = rt_divergence p"
  by (simp_all add: judge_def Let_def)

lemma count_digests: "so_digest ` set (modify_at i count_up ocs) = so_digest ` set ocs"
proof -
  have "map so_digest (modify_at i count_up ocs) = map so_digest ocs" by (rule map_modify_at_id) (simp add: count_up_def)
  then show ?thesis by (metis list.set_map)
qed

lemma judge_digests: "so_digest ` set (rt_outcomes (judge r p)) = insert (run_digest r) (so_digest ` set (rt_outcomes p))"
proof (cases "position (\<lambda>oc. so_digest oc = run_digest r) (rt_outcomes p)")
  case None
  then show ?thesis by (simp add: judge_def Let_def count_digests outcome_of_def)
next
  case (Some i)
  then have "i < length (rt_outcomes p)" "so_digest (rt_outcomes p ! i) = run_digest r" using position_Some [OF Some] by simp_all
  then have "run_digest r \<in> so_digest ` set (rt_outcomes p)" by (metis image_eqI nth_mem)
  with Some show ?thesis by (simp add: judge_def Let_def count_digests insert_absorb)
qed

text \<open>Counting an outcome again keeps everything else of it.\<close>

definition same_but_count :: "schedule_outcome \<Rightarrow> schedule_outcome \<Rightarrow> bool" where
  "same_but_count a b \<longleftrightarrow> so_choices a = so_choices b \<and> so_digest a = so_digest b \<and> so_seed a = so_seed b"

lemma count_same: "oc \<in> set (modify_at i count_up ocs) \<Longrightarrow> \<exists>b \<in> set ocs. same_but_count oc b"
  unfolding modify_at_def same_but_count_def count_up_def
  by (auto dest!: set_update_subset_insert [THEN subsetD] split: if_splits)

lemma judge_outcomes:
  assumes "oc \<in> set (rt_outcomes (judge r p))"
  shows "\<exists>b \<in> insert (outcome_of r) (set (rt_outcomes p)). same_but_count oc b"
proof (cases "position (\<lambda>oc. so_digest oc = run_digest r) (rt_outcomes p)")
  case None
  with assms have "oc \<in> set (modify_at (length (rt_outcomes p)) count_up (rt_outcomes p @ [outcome_of r]))"
    by (simp add: judge_def Let_def)
  from count_same [OF this] show ?thesis by auto
next
  case (Some i)
  with assms have "oc \<in> set (modify_at i count_up (rt_outcomes p))" by (simp add: judge_def Let_def)
  from count_same [OF this] show ?thesis by auto
qed

definition outcome_real :: "decision_tree \<Rightarrow> (decision list \<Rightarrow> 128 word) \<Rightarrow> schedule_outcome \<Rightarrow> bool" where
  "outcome_real tree digest oc \<longleftrightarrow>
     (\<exists>ds. complete_stream tree ds \<and> so_choices oc = map de_chosen ds \<and> so_digest oc = digest ds \<and> so_seed oc = pack_schedule ds)"

lemma real_but_count: "same_but_count a b \<Longrightarrow> outcome_real tree digest b \<Longrightarrow> outcome_real tree digest a"
  by (simp add: same_but_count_def outcome_real_def)

lemma cap_depth_facts:
  "ex_path (cap_depth opts r x) = ex_path x" "ex_forced (cap_depth opts r x) = ex_forced x"
  "rt_outcomes (ex_report (cap_depth opts r x)) = rt_outcomes (ex_report x)"
  "rt_schedules (ex_report (cap_depth opts r x)) = rt_schedules (ex_report x)"
  by (simp_all add: cap_depth_def Let_def)

text \<open>The loop stops with the frontier open, or with what its last round left.\<close>

lemma loop_cases:
  obtains "explore_loop opts elapsed replay x = (ex_report x)\<lparr>rt_frontier_open := True\<rparr>"
  | x' where "explore_round opts replay x = (True, x')" "explore_loop opts elapsed replay x = explore_loop opts elapsed replay x'"
      "\<not> op_max_schedules opts \<le> rt_executions (ex_report x)"
      "\<not> (case op_wall opts of Some w \<Rightarrow> w \<le> elapsed (rt_executions (ex_report x)) | None \<Rightarrow> False)"
  | x' where "explore_round opts replay x = (False, x')" "explore_loop opts elapsed replay x = ex_report x'"
proof (cases "op_max_schedules opts \<le> rt_executions (ex_report x) \<or>
    (case op_wall opts of Some w \<Rightarrow> w \<le> elapsed (rt_executions (ex_report x)) | None \<Rightarrow> False)")
  case True
  then show ?thesis by (intro that(1)) (auto simp: explore_loop.simps [of opts elapsed replay x])
next
  case False
  obtain b x' where "explore_round opts replay x = (b, x')" by fastforce
  with False show ?thesis
    by (cases b) (auto simp: explore_loop.simps [of opts elapsed replay x] intro: that(2,3))
qed

context replayed
begin

definition base_inv :: "explore_options \<Rightarrow> explorer \<Rightarrow> bool" where
  "base_inv opts x \<longleftrightarrow> length (ex_path x) = ex_forced x \<and> ex_forced x \<le> op_max_steps opts \<and>
     (\<forall>n \<in> set (ex_path x). node_ok n \<and> (op_naive opts \<longrightarrow> full_node n)) \<and>
     partial_stream tree (map decision_at (ex_path x))"

definition real :: "explorer \<Rightarrow> bool" where
  "real x \<longleftrightarrow> (\<forall>oc \<in> set (rt_outcomes (ex_report x)). outcome_real tree digest oc)"

lemma base_plan: "base_inv opts x \<Longrightarrow> \<not> op_leak opts \<Longrightarrow> forced_plan opts x = plan_of (map decision_at (ex_path x))"
  by (simp add: base_inv_def forced_plan_def plan_of_def Let_def decision_at_def)

text \<open>The run of a round, the state after it was judged, and what holds of both.\<close>

definition this_run :: "explore_options \<Rightarrow> explorer \<Rightarrow> run_rec" where
  "this_run opts x = replay (forced_plan opts x) (op_paranoid opts)"

lemma run_facts:
  assumes "base_inv opts x" and "\<not> op_leak opts"
  shows "rn_divergence (this_run opts x) = None" and "complete_stream tree (rn_decisions (this_run opts x))"
    and "take (ex_forced x) (rn_decisions (this_run opts x)) = map decision_at (ex_path x)"
    and "\<forall>d \<in> set (rn_decisions (this_run opts x)). distinct (de_candidates d) \<and> de_chosen d < length (de_candidates d)"
    and "run_digest (this_run opts x) = digest (rn_decisions (this_run opts x))"
    and "outcome_real tree digest (outcome_of (this_run opts x))"
proof -
  have p: "partial_stream tree (map decision_at (ex_path x))" and l: "length (map decision_at (ex_path x)) = ex_forced x"
    using assms(1) by (simp_all add: base_inv_def)
  note f = replay_follows [OF p, of "op_paranoid opts"]
  have t: "this_run opts x = replay (plan_of (map decision_at (ex_path x))) (op_paranoid opts)"
    by (simp add: this_run_def base_plan [OF assms])
  show "rn_divergence (this_run opts x) = None" and c: "complete_stream tree (rn_decisions (this_run opts x))"
    and "take (ex_forced x) (rn_decisions (this_run opts x)) = map decision_at (ex_path x)"
    using f l by (simp_all add: t)
  show "\<forall>d \<in> set (rn_decisions (this_run opts x)). distinct (de_candidates d) \<and> de_chosen d < length (de_candidates d)"
  proof
    fix d assume "d \<in> set (rn_decisions (this_run opts x))"
    then obtain i where i: "i < length (rn_decisions (this_run opts x))" "d = rn_decisions (this_run opts x) ! i"
      by (auto simp: in_set_conv_nth)
    have "partial_stream tree (rn_decisions (this_run opts x))" using c by (simp add: complete_stream_def)
    then have "tree (take i (rn_decisions (this_run opts x))) = Some (de_kind d, de_candidates d) \<and> de_chosen d < length (de_candidates d)"
      and "partial_stream tree (take i (rn_decisions (this_run opts x)))"
      using i by (simp_all add: partial_stream_def partial_take)
    then show "distinct (de_candidates d) \<and> de_chosen d < length (de_candidates d)" using candidates_ok by blast
  qed
  show d: "run_digest (this_run opts x) = digest (rn_decisions (this_run opts x))" by (simp add: this_run_def replay_determined)
  show "outcome_real tree digest (outcome_of (this_run opts x))"
    unfolding outcome_real_def using c d by (intro exI [of _ "rn_decisions (this_run opts x)"]) (simp add: outcome_of_def)
qed

lemma run_path_facts:
  assumes "base_inv opts x" and "\<not> op_leak opts" and y: "ex_path y = ex_path x" "ex_forced y = ex_forced x"
  shows "map decision_at (run_path opts (this_run opts x) y) = take (op_max_steps opts) (rn_decisions (this_run opts x))"
    and "\<forall>n \<in> set (run_path opts (this_run opts x) y). node_ok n \<and> (op_naive opts \<longrightarrow> full_node n)"
    and "i < ex_forced x \<Longrightarrow> run_path opts (this_run opts x) y ! i = ex_path x ! i"
    and "ex_forced x \<le> i \<Longrightarrow> i < length (run_path opts (this_run opts x) y) \<Longrightarrow>
      nd_done (run_path opts (this_run opts x) y ! i) = [nd_current (run_path opts (this_run opts x) y ! i)]"
proof -
  note r = run_facts [OF assms(1,2)]
  have l: "length (ex_path x) = ex_forced x" "ex_forced x \<le> op_max_steps opts" using assms(1) by (simp_all add: base_inv_def)
  have st: "length (rn_states (this_run opts x)) = length (rn_decisions (this_run opts x))" by (simp add: this_run_def replay_states)
  note f = fresh_facts [OF r(4) st, of opts "ex_forced x"]
  have p: "run_path opts (this_run opts x) y = ex_path x @ fresh_nodes opts (ex_forced x) (this_run opts x)"
    using l by (simp add: run_path_def y)
  have "map decision_at (run_path opts (this_run opts x) y) =
      take (ex_forced x) (rn_decisions (this_run opts x)) @
      take (op_max_steps opts - ex_forced x) (drop (ex_forced x) (rn_decisions (this_run opts x)))"
    by (simp add: p f(1) r(3))
  also have "\<dots> = take (op_max_steps opts) (rn_decisions (this_run opts x))"
    using l(2) by (metis le_add_diff_inverse take_add)
  finally show "map decision_at (run_path opts (this_run opts x) y) = take (op_max_steps opts) (rn_decisions (this_run opts x))" .
  show "\<forall>n \<in> set (run_path opts (this_run opts x) y). node_ok n \<and> (op_naive opts \<longrightarrow> full_node n)"
    using assms(1) f(2) by (auto simp: p base_inv_def)
  show "i < ex_forced x \<Longrightarrow> run_path opts (this_run opts x) y ! i = ex_path x ! i" using l by (simp add: p nth_append)
  show "ex_forced x \<le> i \<Longrightarrow> i < length (run_path opts (this_run opts x) y) \<Longrightarrow>
      nd_done (run_path opts (this_run opts x) y ! i) = [nd_current (run_path opts (this_run opts x) y ! i)]"
    using f(2) l by (auto simp: p nth_append)
qed

text \<open>The state between the judgement of a run and the scan back.\<close>

definition judged :: "explore_options \<Rightarrow> explorer \<Rightarrow> explorer \<Rightarrow> explorer" where
  "judged opts x y = upd_report (judge (this_run opts x)) (rebuild_path opts (this_run opts x) (cap_depth opts (this_run opts x) y))"

lemma core_nth: "map core ms = map core ns \<Longrightarrow> i < length ns \<Longrightarrow> core (ms ! i) = core (ns ! i)"
  by (metis length_map nth_map)

lemma judged_facts:
  assumes "base_inv opts x" and "\<not> op_leak opts" and y: "ex_path y = ex_path x" "ex_forced y = ex_forced x"
  defines "P \<equiv> ex_path (judged opts x y)"
  shows "map decision_at P = take (op_max_steps opts) (rn_decisions (this_run opts x))"
    and "\<forall>n \<in> set P. node_ok n \<and> (op_naive opts \<longrightarrow> full_node n)"
    and "i < ex_forced x \<Longrightarrow> i < length P \<Longrightarrow> nd_done (P ! i) = nd_done (ex_path x ! i)"
    and "ex_forced x \<le> i \<Longrightarrow> i < length P \<Longrightarrow> nd_done (P ! i) = [nd_current (P ! i)]"
proof -
  define c where "c = cap_depth opts (this_run opts x) y"
  have c: "ex_path c = ex_path x" "ex_forced c = ex_forced x" by (simp_all add: c_def cap_depth_facts y)
  note rp = run_path_facts [OF assms(1,2) c]
  have ok: "\<forall>n \<in> set (run_path opts (this_run opts x) c). node_ok n" using rp(2) by blast
  note rb = rebuild_facts [OF ok]
  have P: "P = ex_path (rebuild_path opts (this_run opts x) c)" by (simp add: P_def judged_def c_def)
  show "map decision_at P = take (op_max_steps opts) (rn_decisions (this_run opts x))"
    using core_decisions [OF rb(1)] rp(1) by (simp add: P)
  have lP: "length P = length (run_path opts (this_run opts x) c)" unfolding P using rb(1) by (metis length_map)
  have cP: "i < length P \<Longrightarrow> core (P ! i) = core (run_path opts (this_run opts x) c ! i)" for i
    unfolding P by (rule core_nth [OF rb(1)]) (simp add: lP [unfolded P])
  have full: "full_node (P ! i)" if "op_naive opts" "i < length P" for i
  proof -
    have "plan_part (P ! i) = plan_part (run_path opts (this_run opts x) c ! i)"
      using rb(3) [OF that(1)] that(2) unfolding P by (metis length_map nth_map)
    moreover have "full_node (run_path opts (this_run opts x) c ! i)" using rp(2) that lP by simp
    ultimately show ?thesis using cP [OF that(2)] by (simp add: full_node_def plan_part_def core_def)
  qed
  then have "\<forall>n \<in> set P. op_naive opts \<longrightarrow> full_node n" by (auto simp: in_set_conv_nth)
  then show "\<forall>n \<in> set P. node_ok n \<and> (op_naive opts \<longrightarrow> full_node n)" using rb(2) by (auto simp: P)
  show "i < ex_forced x \<Longrightarrow> i < length P \<Longrightarrow> nd_done (P ! i) = nd_done (ex_path x ! i)"
    using cP [of i] rp(3) [of i] by (simp add: core_def)
  show "ex_forced x \<le> i \<Longrightarrow> i < length P \<Longrightarrow> nd_done (P ! i) = [nd_current (P ! i)]"
    using cP [of i] rp(4) [of i] by (simp add: core_def lP)
qed

lemma judged_report:
  assumes "base_inv opts x" and "\<not> op_leak opts" and y: "ex_path y = ex_path x" "ex_forced y = ex_forced x"
  shows "rt_schedules (ex_report (judged opts x y)) = rt_schedules (ex_report y) + 1"
    and "so_digest ` set (rt_outcomes (ex_report (judged opts x y))) =
      insert (digest (rn_decisions (this_run opts x))) (so_digest ` set (rt_outcomes (ex_report y)))"
    and "oc \<in> set (rt_outcomes (ex_report (judged opts x y))) \<Longrightarrow>
      \<exists>b \<in> insert (outcome_of (this_run opts x)) (set (rt_outcomes (ex_report y))). same_but_count oc b"
    and "rt_frontier_open (ex_report (judged opts x y)) \<longleftrightarrow> rt_frontier_open (ex_report (cap_depth opts (this_run opts x) y))"
proof -
  define c where "c = cap_depth opts (this_run opts x) y"
  have c: "ex_path c = ex_path x" "ex_forced c = ex_forced x" "rt_outcomes (ex_report c) = rt_outcomes (ex_report y)"
    "rt_schedules (ex_report c) = rt_schedules (ex_report y)"
    by (simp_all add: c_def cap_depth_facts y)
  have ok: "\<forall>n \<in> set (run_path opts (this_run opts x) c). node_ok n" using run_path_facts(2) [OF assms(1,2) c(1,2)] by blast
  note rb = rebuild_facts [OF ok]
  show "rt_schedules (ex_report (judged opts x y)) = rt_schedules (ex_report y) + 1"
    "so_digest ` set (rt_outcomes (ex_report (judged opts x y))) =
      insert (digest (rn_decisions (this_run opts x))) (so_digest ` set (rt_outcomes (ex_report y)))"
    "rt_frontier_open (ex_report (judged opts x y)) \<longleftrightarrow> rt_frontier_open (ex_report (cap_depth opts (this_run opts x) y))"
    using rb run_facts(5) [OF assms(1,2)] by (simp_all add: judged_def judge_facts judge_digests c flip: c_def)
  show "\<exists>b \<in> insert (outcome_of (this_run opts x)) (set (rt_outcomes (ex_report y))). same_but_count oc b"
    if "oc \<in> set (rt_outcomes (ex_report (judged opts x y)))"
    using judge_outcomes [of oc "this_run opts x" "ex_report (rebuild_path opts (this_run opts x) c)"] that rb
    by (simp add: judged_def c flip: c_def)
qed

text \<open>A round ends with a collision of state hashes, or judges its run and scans back.\<close>

lemma round_cases:
  assumes "explore_round opts replay x = (b, x')" and "base_inv opts x" and "\<not> op_leak opts"
  obtains h where "\<not> b" "rt_divergence (ex_report x') = Some (DvCollision h)" "rt_outcomes (ex_report x') = rt_outcomes (ex_report x)"
  | y where "ex_path y = ex_path x" "ex_forced y = ex_forced x" "rt_outcomes (ex_report y) = rt_outcomes (ex_report x)"
      "rt_schedules (ex_report y) = rt_schedules (ex_report x)"
      "rt_frontier_open (ex_report y) = rt_frontier_open (ex_report x)"
      "scanned opts (min (length (ex_path (judged opts x y))) (op_max_steps opts)) (judged opts x y) b x'"
      "ex_depth_capped y = ex_depth_capped x"
proof -
  define x1 where "x1 = upd_report (\<lambda>p. p\<lparr>rt_executions := rt_executions p + 1\<rparr>) x"
  have e: "explore_round opts replay x = (case known_preimages opts (this_run opts x) x1 of
                Inl h \<Rightarrow> (False, upd_report (\<lambda>p. p\<lparr>rt_divergence := Some (DvCollision h)\<rparr>) x1)
              | Inr pre \<Rightarrow> after_run opts (this_run opts x) (x1\<lparr>ex_preimages := pre\<rparr>))"
    by (simp only: explore_round_def Let_def this_run_def [symmetric] x1_def [symmetric] run_facts(1) [OF assms(2,3)] option.case)
  show ?thesis
  proof (cases "known_preimages opts (this_run opts x) x1")
    case (Inl h)
    then show ?thesis using e assms(1) by (intro that(1) [of h]) (auto simp: x1_def)
  next
    case (Inr pre)
    define y where "y = x1\<lparr>ex_preimages := pre\<rparr>"
    have y: "ex_path y = ex_path x" "ex_forced y = ex_forced x" "ex_depth_capped y = ex_depth_capped x"
      by (simp_all add: y_def x1_def upd_report_def)
    have b: "scan_back opts (position nd_pruned (ex_path (judged opts x y))) (min (length (ex_path (judged opts x y))) (op_max_steps opts))
        (judged opts x y) = (b, x')"
      using e assms(1) Inr by (simp add: after_run_def backtrack_def judged_def y_def)
    have "position nd_pruned (ex_path (judged opts x y)) = None" if "op_naive opts"
      using judged_facts(2) [OF assms(2,3) y(1,2)] that by (auto simp: position_None_iff full_node_def)
    then have "scanned opts (min (length (ex_path (judged opts x y))) (op_max_steps opts)) (judged opts x y) b x'"
      by (intro scan_back_facts [OF _ b]) simp_all
    then show ?thesis by (intro that(2) [of y]) (use y in \<open>simp_all add: y_def x1_def\<close>)
  qed
qed

lemma waiting_candidates: "node_ok n \<Longrightarrow> c \<in> set (waiting n) \<Longrightarrow> c \<in> set (nd_candidates n) \<and> c \<notin> set (nd_done n)"
  by (auto simp: waiting_def node_ok_def)

lemma picked_node:
  assumes "distinct cs" and "c \<in> set cs" and "nd_candidates n = cs" and "nd_kind n = k" and "set (nd_backtrack n) \<subseteq> set cs"
  shows "node_ok (take_pick opts c n)" and "nd_candidates (take_pick opts c n) = cs" and "nd_kind (take_pick opts c n) = k"
    and "nd_current (take_pick opts c n) = c" and "set (nd_done (take_pick opts c n)) = insert c (set (nd_done n))"
    and "full_node n \<Longrightarrow> full_node (take_pick opts c n)"
  using assms by (auto simp: take_pick_def Let_def node_ok_def full_node_def)

text \<open>The path after a pick is again a decision stream, one longer than the prefix it departs from.\<close>

lemma picked_base:
  assumes "base_inv opts x" and "\<not> op_leak opts" and y: "ex_path y = ex_path x" "ex_forced y = ex_forced x"
    and pick: "picked opts (min (length (ex_path (judged opts x y))) (op_max_steps opts)) (judged opts x y) x' e"
  shows "base_inv opts x'"
proof -
  define P where "P = ex_path (judged opts x y)"
  define ds where "ds = rn_decisions (this_run opts x)"
  note j = judged_facts [OF assms(1-4), folded P_def, folded ds_def]
  obtain n c where e: "e < length P" "e < op_max_steps opts" "ex_forced x' = Suc e" and n: "ex_path x' = take e P @ [take_pick opts c n]"
    "c \<in> set (waiting (P ! e))" "nd_kind n = nd_kind (P ! e)" "nd_candidates n = nd_candidates (P ! e)"
    "nd_backtrack n = nd_backtrack (P ! e)" "op_naive opts \<longrightarrow> n = P ! e"
    using pick by (auto simp: picked_def P_def)
  have nok: "node_ok (P ! e)" "op_naive opts \<longrightarrow> full_node (P ! e)" using j(2) e(1) by simp_all
  have c: "c \<in> set (nd_candidates (P ! e))" using waiting_candidates [OF nok(1) n(2)] by simp
  have d: "distinct (nd_candidates (P ! e))" using nok(1) by (simp add: node_ok_def)
  note pn = picked_node [OF d c n(4,3), of opts]
  have bt: "set (nd_backtrack n) \<subseteq> set (nd_candidates (P ! e))" using nok by (simp add: n(5) node_ok_def)
  have lP: "length P = min (length ds) (op_max_steps opts)" using arg_cong [OF j(1), of length] by simp
  with e(1) have len: "e < length ds" by simp
  have te: "map decision_at (take e P) = take e ds"
  proof -
    have "map decision_at (take e P) = take e (map decision_at P)" by (rule take_map [symmetric])
    also have "\<dots> = take e ds" unfolding j(1) using e(2) by (simp add: min_def)
    finally show ?thesis .
  qed
  have pe: "decision_at (P ! e) = ds ! e"
  proof -
    have "decision_at (P ! e) = map decision_at P ! e" using e(1) by simp
    also have "\<dots> = ds ! e" unfolding j(1) using e(2) by simp
    finally show ?thesis .
  qed
  have part: "partial_stream tree ds" using run_facts(2) [OF assms(1,2)] by (simp add: complete_stream_def ds_def)
  have "tree (take e ds) = Some (de_kind (ds ! e), de_candidates (ds ! e))"
    using part len unfolding partial_stream_def by blast
  then have tr: "tree (take e ds) = Some (nd_kind (P ! e), nd_candidates (P ! e))"
    unfolding pe [symmetric] by (simp add: decision_at_def)
  have "partial_stream tree (take e ds @ [decision_at (take_pick opts c n)])"
    using partial_take [OF part, of e] tr pn(2,3) [OF bt] current_index_nth [of "take_pick opts c n"] d c pn(4) [OF bt]
    by (simp add: partial_snoc decision_at_def)
  moreover have "\<forall>n \<in> set (take e P). node_ok n \<and> (op_naive opts \<longrightarrow> full_node n)" using j(2) by (auto dest: in_set_takeD)
  moreover have "node_ok (take_pick opts c n) \<and> (op_naive opts \<longrightarrow> full_node (take_pick opts c n))"
    using pn(1,6) [OF bt] nok n(6) by auto
  moreover have "length (ex_path x') = ex_forced x'" using e n(1) by simp
  moreover have "map decision_at (ex_path x') = take e ds @ [decision_at (take_pick opts c n)]" by (simp add: n(1) te)
  moreover have "set (ex_path x') = insert (take_pick opts c n) (set (take e P))" by (simp add: n(1))
  ultimately show ?thesis unfolding base_inv_def using e by simp
qed

lemma round_base:
  assumes "explore_round opts replay x = (b, x')" and "base_inv opts x" and "\<not> op_leak opts" and "real x"
  shows "real x' \<and> (b \<longrightarrow> base_inv opts x')"
  using assms(1-3)
proof (cases rule: round_cases)
  case (1 h)
  then show ?thesis using assms(4) by (simp add: real_def)
next
  case (2 y)
  have "rt_outcomes (ex_report x') = rt_outcomes (ex_report (judged opts x y))" using 2(6) by (simp add: scanned_def)
  moreover have "outcome_real tree digest oc" if oc: "oc \<in> set (rt_outcomes (ex_report (judged opts x y)))" for oc
  proof -
    obtain b where "b \<in> insert (outcome_of (this_run opts x)) (set (rt_outcomes (ex_report y)))" "same_but_count oc b"
      using judged_report(3) [OF assms(2,3) 2(1,2) oc] by blast
    moreover have "outcome_real tree digest b" if "b \<in> insert (outcome_of (this_run opts x)) (set (rt_outcomes (ex_report y)))" for b
      using that assms(4) run_facts(6) [OF assms(2,3)] 2(3) by (auto simp: real_def)
    ultimately show ?thesis using real_but_count by blast
  qed
  moreover have "base_inv opts x'" if more: "b"
  proof -
    obtain e where "picked opts (min (length (ex_path (judged opts x y))) (op_max_steps opts)) (judged opts x y) x' e"
      using 2(6) more unfolding scanned_def Let_def by blast
    then show ?thesis by (rule picked_base [OF assms(2,3) 2(1,2)])
  qed
  ultimately show ?thesis by (auto simp: real_def)
qed

lemma base_new: "base_inv opts new_explorer \<and> real new_explorer"
  by (simp add: base_inv_def real_def new_explorer_def empty_report_def partial_stream_def)

lemma loop_real:
  "base_inv opts x \<Longrightarrow> real x \<Longrightarrow> \<not> op_leak opts \<Longrightarrow>
     \<forall>oc \<in> set (rt_outcomes (explore_loop opts elapsed replay x)). outcome_real tree digest oc"
proof (induction "op_max_schedules opts - rt_executions (ex_report x)" arbitrary: x rule: less_induct)
  case less
  show ?case
  proof (cases rule: loop_cases [of opts elapsed replay x])
    case (2 x')
    have "rt_executions (ex_report x') = rt_executions (ex_report x) + 1" using round_executions [of opts replay x] 2(1) by simp
    then have "op_max_schedules opts - rt_executions (ex_report x') < op_max_schedules opts - rt_executions (ex_report x)"
      using 2(3) by simp
    with less.hyps [of x'] round_base [OF 2(1) less.prems(1,3,2)] less.prems(3) show ?thesis by (simp add: 2(2))
  next
    case (3 x')
    with round_base [OF 3(1) less.prems(1,3,2)] show ?thesis by (simp add: real_def)
  qed (use less.prems in \<open>simp add: real_def\<close>)
qed

section \<open>Full branching\<close>

text \<open>A schedule that leaves the path at depth \<open>d\<close> by a choice not tried there yet.\<close>

definition pending :: "decision list \<Rightarrow> node list \<Rightarrow> nat \<Rightarrow> bool" where
  "pending ds path d \<longleftrightarrow> d < length path \<and> take d ds = map decision_at (take d path) \<and> d < length ds \<and>
     value_at ds d \<notin> set (nd_done (path ! d))"

text \<open>The schedules in \<open>E\<close> took tried choices wherever they share the path.\<close>

definition tried :: "decision list set \<Rightarrow> node list \<Rightarrow> bool" where
  "tried E path \<longleftrightarrow> (\<forall>ds \<in> E. \<forall>d < length path. take d ds = map decision_at (take d path) \<and> d < length ds \<longrightarrow>
     value_at ds d \<in> set (nd_done (path ! d)))"

definition naive_inv :: "decision list set \<Rightarrow> explore_options \<Rightarrow> explorer \<Rightarrow> bool" where
  "naive_inv E opts x \<longleftrightarrow> base_inv opts x \<and> finite E \<and> (\<forall>ds \<in> E. complete_stream tree ds) \<and>
     rt_schedules (ex_report x) = card E \<and> digest ` E \<subseteq> so_digest ` set (rt_outcomes (ex_report x)) \<and>
     tried E (ex_path x) \<and> (\<forall>ds \<in> E. take (length (ex_path x)) ds \<noteq> map decision_at (ex_path x)) \<and>
     (\<forall>ds. complete_stream tree ds \<longrightarrow>
        ds \<in> E \<or> take (length (ex_path x)) ds = map decision_at (ex_path x) \<or> (\<exists>d. pending ds (ex_path x) d))"

lemma same_point:
  assumes "complete_stream tree ds" and "complete_stream tree es" and "take i ds = take i es" and "i < length ds" and "i < length es"
  shows "de_kind (ds ! i) = de_kind (es ! i) \<and> de_candidates (ds ! i) = de_candidates (es ! i) \<and>
    (value_at ds i = value_at es i \<longleftrightarrow> ds ! i = es ! i)"
proof -
  have d: "tree (take i ds) = Some (de_kind (ds ! i), de_candidates (ds ! i))" "de_chosen (ds ! i) < length (de_candidates (ds ! i))"
    "partial_stream tree (take i ds)"
    using assms(1,4) by (simp_all add: complete_stream_def partial_stream_def min_def)
  have e: "tree (take i es) = Some (de_kind (es ! i), de_candidates (es ! i))" "de_chosen (es ! i) < length (de_candidates (es ! i))"
    using assms(2,5) by (simp_all add: complete_stream_def partial_stream_def)
  have k: "de_kind (ds ! i) = de_kind (es ! i)" "de_candidates (ds ! i) = de_candidates (es ! i)"
    using d(1) e(1) assms(3) by simp_all
  have "distinct (de_candidates (ds ! i))" using candidates_ok [OF d(3,1)] by blast
  then have "value_at ds i = value_at es i \<longleftrightarrow> de_chosen (ds ! i) = de_chosen (es ! i)"
    using d(2) e(2) k(2) by (simp add: value_at_def nth_eq_iff_index_eq)
  also have "\<dots> \<longleftrightarrow> ds ! i = es ! i" using k by (cases "ds ! i"; cases "es ! i") simp
  finally show ?thesis using k by simp
qed

text \<open>After a run that was not cut, everything is run or pending along the whole path.\<close>

lemma judged_naive:
  assumes inv: "naive_inv E opts x" and "\<not> op_leak opts" and y: "ex_path y = ex_path x" "ex_forced y = ex_forced x"
    and cut: "length (rn_decisions (this_run opts x)) \<le> op_max_steps opts"
  defines "P \<equiv> ex_path (judged opts x y)" and "ds \<equiv> rn_decisions (this_run opts x)"
  shows "map decision_at P = ds" and "ds \<notin> E" and "tried (insert ds E) P"
    and "complete_stream tree es \<Longrightarrow> es \<in> insert ds E \<or> (\<exists>d. pending es P d)"
proof -
  have base: "base_inv opts x" using inv by (simp add: naive_inv_def)
  define k where "k = ex_forced x"
  have lx: "length (ex_path x) = k" using base by (simp add: base_inv_def k_def)
  note j = judged_facts [OF base assms(2) y, folded P_def]
  note r = run_facts [OF base assms(2), folded ds_def]
  show P: "map decision_at P = ds" using j(1) cut by (simp add: ds_def)
  then have lP: "length P = length ds" by (metis length_map)
  have pre: "take k ds = map decision_at (ex_path x)" using r(3) by (simp add: k_def)
  then have kds: "k \<le> length ds" using lx by (metis length_map length_take min.absorb_iff2 min.commute)
  show new: "ds \<notin> E" using inv pre lx by (auto simp: naive_inv_def)
  have tk: "map decision_at (take d P) = take d ds" for d using P by (metis take_map)
  have tx: "map decision_at (take d (ex_path x)) = take d ds" if "d \<le> k" for d
    using pre that by (metis min.absorb1 take_map take_take)
  have cur: "value_at ds d = nd_current (P ! d)" if "d < length ds" for d
  proof -
    have "ds ! d = decision_at (P ! d)" using P that lP by (metis nth_map)
    moreover have "node_ok (P ! d)" using j(2) that lP by simp
    ultimately show ?thesis using current_index_nth [of "P ! d"] by (simp add: value_at_def decision_at_def node_ok_def)
  qed
  show "tried (insert ds E) P"
    unfolding tried_def
  proof (intro ballI allI impI)
    fix es d assume es: "es \<in> insert ds E" and d: "d < length P" and a: "take d es = map decision_at (take d P) \<and> d < length es"
    show "value_at es d \<in> set (nd_done (P ! d))"
    proof (cases "es = ds")
      case True
      then show ?thesis using cur [of d] j(2) d lP by (auto simp: node_ok_def)
    next
      case False
      then have E: "es \<in> E" using es by simp
      have "d < k"
      proof (rule ccontr)
        assume "\<not> d < k"
        then have "take k es = take k ds" using a tk by (metis min.absorb1 not_less take_take)
        then have "take (length (ex_path x)) es = map decision_at (ex_path x)" using pre lx by simp
        with E inv show False by (auto simp: naive_inv_def)
      qed
      then have "value_at es d \<in> set (nd_done (ex_path x ! d))"
        using inv E a tk tx [of d] lx by (auto simp: naive_inv_def tried_def)
      with j(3) [of d] \<open>d < k\<close> d show ?thesis by (simp add: k_def)
    qed
  qed
  show "es \<in> insert ds E \<or> (\<exists>d. pending es P d)" if es: "complete_stream tree es"
  proof -
    consider "es \<in> E" | "take k es = take k ds" | d where "pending es (ex_path x) d"
      using inv es pre lx by (auto simp: naive_inv_def)
    then show ?thesis
    proof cases
      case 2
      show ?thesis
      proof (cases "es = ds")
        case False
        then obtain d where d: "d < length es" "d < length ds" "take d es = take d ds" "es ! d \<noteq> ds ! d"
          using complete_split [OF es r(2)] by metis
        have "\<not> d < k" using d 2 by (metis nth_take)
        then have "nd_done (P ! d) = [value_at ds d]" using j(4) [of d] cur [OF d(2)] d(2) lP by (simp add: k_def)
        moreover have "value_at es d \<noteq> value_at ds d" using same_point [OF es r(2) d(3,1,2)] d(4) by simp
        ultimately have "pending es P d" using d lP tk by (simp add: pending_def)
        then show ?thesis by blast
      qed simp
    next
      case 3
      then have "d < k" using lx by (simp add: pending_def)
      then have "pending es P d" using 3 tk tx [of d] j(3) [of d] kds lP by (auto simp: pending_def k_def)
      then show ?thesis by blast
    qed simp
  qed
qed

end

end
