(* ===== verification/ExploreFull.thy ===== *)
theory ExploreFull
  imports ExploreProps
begin

text \<open>
  Full branching: a closed frontier means that every schedule of the program was run exactly once. The
  argument keeps the set of schedules already run, shows that every other schedule passes the end of the path
  or leaves it by an untried choice, and reads the claim off when no untried choice is left. The contract of
  \<open>replayed\<close> is discharged for programs that run on the scheduler model's own \<open>decide\<close>.
\<close>

section \<open>The frontier only opens\<close>

definition capped_open :: "explorer \<Rightarrow> bool" where
  "capped_open x \<longleftrightarrow> (ex_depth_capped x \<longrightarrow> rt_frontier_open (ex_report x))"

lemma upd_report_capped [simp]: "ex_depth_capped (upd_report f x) = ex_depth_capped x"
  by (simp add: upd_report_def)

lemma scan_back_open:
  "(rt_frontier_open (ex_report x) \<longrightarrow> rt_frontier_open (ex_report (snd (scan_back opts fp d x)))) \<and>
   ex_depth_capped (snd (scan_back opts fp d x)) = ex_depth_capped x"
  by (induction opts fp d x rule: scan_back.induct) (auto simp: Let_def close_state_def split: prod.split option.split)

lemma mark_pruned_open:
  "rt_frontier_open (ex_report (mark_pruned opts x)) = rt_frontier_open (ex_report x)"
  "ex_depth_capped (mark_pruned opts x) = ex_depth_capped x"
proof -
  show "rt_frontier_open (ex_report (mark_pruned opts x)) = rt_frontier_open (ex_report x)" by (rule mark_pruned_facts)
  have "ex_depth_capped (fold (\<lambda>i x. if prune_node opts (ex_visited x) i (ex_path x ! i)
                 then upd_report (\<lambda>p. p\<lparr>rt_pruned := rt_pruned p + 1\<rparr>)
                        (x\<lparr>ex_path := modify_at i (\<lambda>n. n\<lparr>nd_pruned := True\<rparr>) (ex_path x)\<rparr>)
                 else x) is x) = ex_depth_capped x" for "is"
    by (induction "is" arbitrary: x) auto
  then show "ex_depth_capped (mark_pruned opts x) = ex_depth_capped x" by (simp add: mark_pruned_def)
qed

lemma rebuild_open:
  "rt_frontier_open (ex_report (rebuild_path opts r x)) = rt_frontier_open (ex_report x)"
  "ex_depth_capped (rebuild_path opts r x) = ex_depth_capped x"
  by (simp_all add: rebuild_path_def Let_def mark_pruned_open)

lemma cap_depth_open:
  "rt_frontier_open (ex_report x) \<Longrightarrow> rt_frontier_open (ex_report (cap_depth opts r x))"
  "capped_open x \<Longrightarrow> capped_open (cap_depth opts r x)"
  "capped_open x \<Longrightarrow> \<not> rt_frontier_open (ex_report (cap_depth opts r x)) \<Longrightarrow> length (rn_decisions r) \<le> op_max_steps opts"
  by (auto simp: cap_depth_def Let_def capped_open_def split: if_splits)

lemma after_run_open:
  assumes "capped_open x"
  shows "capped_open (snd (after_run opts r x)) \<and>
    (rt_frontier_open (ex_report x) \<longrightarrow> rt_frontier_open (ex_report (snd (after_run opts r x))))"
proof -
  define z where "z = upd_report (judge r) (rebuild_path opts r (cap_depth opts r x))"
  have z: "capped_open z" "rt_frontier_open (ex_report x) \<longrightarrow> rt_frontier_open (ex_report z)"
    using cap_depth_open [of x opts r] assms by (auto simp: z_def capped_open_def rebuild_open judge_facts)
  have "after_run opts r x = scan_back opts (position nd_pruned (ex_path z)) (min (length (ex_path z)) (op_max_steps opts)) z"
    by (simp add: after_run_def backtrack_def z_def)
  with z scan_back_open [of z opts] show ?thesis by (auto simp: capped_open_def)
qed

lemma round_open:
  assumes "capped_open x"
  shows "capped_open (snd (explore_round opts replay x)) \<and>
    (rt_frontier_open (ex_report x) \<longrightarrow> rt_frontier_open (ex_report (snd (explore_round opts replay x))))"
proof -
  define r where "r = replay (forced_plan opts x) (op_paranoid opts)"
  define x1 where "x1 = upd_report (\<lambda>p. p\<lparr>rt_executions := rt_executions p + 1\<rparr>) x"
  have e: "explore_round opts replay x = (case rn_divergence r of
           Some m \<Rightarrow> (False, upd_report (\<lambda>p. p\<lparr>rt_divergence := Some (DvReplay m)\<rparr>) x1)
         | None \<Rightarrow>
             (case known_preimages opts r x1 of
                Inl h \<Rightarrow> (False, upd_report (\<lambda>p. p\<lparr>rt_divergence := Some (DvCollision h)\<rparr>) x1)
              | Inr pre \<Rightarrow> after_run opts r (x1\<lparr>ex_preimages := pre\<rparr>)))"
    by (simp only: explore_round_def Let_def r_def x1_def)
  have x1: "capped_open x1" "rt_frontier_open (ex_report x1) = rt_frontier_open (ex_report x)"
    "capped_open (x1\<lparr>ex_preimages := pre\<rparr>)" for pre
    using assms by (simp_all add: x1_def capped_open_def upd_report_def)
  show ?thesis
    unfolding e using x1 after_run_open [OF x1(3)] by (simp add: capped_open_def split: option.split sum.split)
qed

lemma loop_open:
  "capped_open x \<Longrightarrow> rt_frontier_open (ex_report x) \<Longrightarrow> rt_frontier_open (explore_loop opts elapsed replay x)"
proof (induction "op_max_schedules opts - rt_executions (ex_report x)" arbitrary: x rule: less_induct)
  case less
  show ?case
  proof (cases rule: loop_cases [of opts elapsed replay x])
    case (2 x')
    have "rt_executions (ex_report x') = rt_executions (ex_report x) + 1" using round_executions [of opts replay x] 2(1) by simp
    then have "op_max_schedules opts - rt_executions (ex_report x') < op_max_schedules opts - rt_executions (ex_report x)"
      using 2(3) by simp
    with less.hyps [of x'] round_open [OF less.prems(1), of opts replay] 2(1) less.prems(2) show ?thesis by (simp add: 2(2))
  next
    case (3 x')
    with round_open [OF less.prems(1), of opts replay] less.prems(2) show ?thesis by simp
  qed simp
qed

section \<open>One round with full branching\<close>

context replayed
begin

lemma open_chain:
  assumes "naive_inv E opts x" and "\<not> op_leak opts" and "capped_open x" and y: "ex_path y = ex_path x" "ex_forced y = ex_forced x"
    "rt_frontier_open (ex_report y) = rt_frontier_open (ex_report x)" "ex_depth_capped y = ex_depth_capped x"
    and "scanned opts d (judged opts x y) b x'" and "\<not> rt_frontier_open (ex_report x')"
  shows "length (rn_decisions (this_run opts x)) \<le> op_max_steps opts"
proof -
  have "base_inv opts x" using assms(1) by (simp add: naive_inv_def)
  moreover have "\<not> rt_frontier_open (ex_report (judged opts x y))" using assms(8,9) unfolding scanned_def by blast
  ultimately have "\<not> rt_frontier_open (ex_report (cap_depth opts (this_run opts x) y))"
    using judged_report(4) [OF _ assms(2) y(1,2)] by blast
  moreover have "capped_open y" using assms(3) y by (simp add: capped_open_def)
  ultimately show ?thesis using cap_depth_open(3) by blast
qed

text \<open>A node with nothing waiting has tried every candidate, so no schedule is pending there.\<close>

lemma nothing_pending:
  assumes "\<forall>n \<in> set P. node_ok n \<and> full_node n" and "map decision_at P = ds" and "complete_stream tree ds"
    and "complete_stream tree es" and "waiting (P ! d) = []"
  shows "\<not> pending es P d"
proof
  assume p: "pending es P d"
  have d: "d < length P" "d < length es" "take d es = map decision_at (take d P)" "value_at es d \<notin> set (nd_done (P ! d))"
    using p by (simp_all add: pending_def)
  have t: "take d es = take d ds" using d(3) assms(2) by (metis take_map)
  have dd: "d < length ds" using d(1) assms(2) by (metis length_map)
  have "ds ! d = decision_at (P ! d)" using d(1) assms(2) by (metis nth_map)
  then have c: "de_candidates (es ! d) = nd_candidates (P ! d)"
    using same_point [OF assms(4,3) t d(2) dd] by (simp add: decision_at_def)
  have "de_chosen (es ! d) < length (de_candidates (es ! d))"
    using assms(4) d(2) by (simp add: complete_stream_def partial_stream_def)
  then have "value_at es d \<in> set (nd_candidates (P ! d))" unfolding value_at_def c [symmetric] by (rule nth_mem)
  moreover have "set (nd_candidates (P ! d)) \<subseteq> set (nd_done (P ! d))"
    using assms(1,5) d(1) by (auto simp: waiting_def full_node_def filter_empty_conv)
  ultimately show False using d(4) by blast
qed

text \<open>Taking the pick keeps the record: what was pending elsewhere stays pending, and what leaves by the
  pick passes the end of the new path.\<close>

lemma pick_pending:
  assumes "P ! e = m" and "e < length P" and "node_ok m" and "c \<in> set (nd_candidates m)"
    and P': "P' = take e P @ [take_pick opts c m]" and "map decision_at P = ds" and "complete_stream tree ds"
    and es: "complete_stream tree es" and p: "pending es P d" and "d \<le> e" and "op_naive opts"
  shows "take (length P') es = map decision_at P' \<or> pending es P' d"
proof (cases "d < e")
  case True
  with p assms(2) have "pending es P' d" unfolding pending_def by (simp add: P' nth_append min_def)
  then show ?thesis by blast
next
  case False
  then have d: "d = e" using assms(10) by simp
  have f: "e < length es" "take e es = map decision_at (take e P)" "value_at es e \<notin> set (nd_done m)"
    using p assms(1) by (simp_all add: pending_def d)
  have tp: "nd_kind (take_pick opts c m) = nd_kind m" "nd_candidates (take_pick opts c m) = nd_candidates m"
    "nd_current (take_pick opts c m) = c" "set (nd_done (take_pick opts c m)) = insert c (set (nd_done m))"
    using assms(11) by (simp_all add: take_pick_def)
  have dist: "distinct (nd_candidates m)" using assms(3) by (simp add: node_ok_def)
  show ?thesis
  proof (cases "value_at es e = c")
    case False
    then have "pending es P' e" using f assms(2) tp unfolding pending_def by (simp add: P' nth_append min_def)
    then show ?thesis by (simp add: d)
  next
    case True
    have t: "take e es = take e ds" using f(2) assms(6) by (metis take_map)
    have l: "e < length ds" using assms(2,6) by (metis length_map)
    have "ds ! e = decision_at m" using assms(1,2,6) by (metis nth_map)
    then have k: "de_kind (es ! e) = nd_kind m" "de_candidates (es ! e) = nd_candidates m"
      using same_point [OF es assms(7) t f(1) l] by (simp_all add: decision_at_def)
    have b: "de_chosen (es ! e) < length (nd_candidates m)"
      using es f(1) k by (auto simp: complete_stream_def partial_stream_def)
    have "nd_candidates m ! de_chosen (es ! e) = c" using True k by (simp add: value_at_def)
    moreover have "current_index (take_pick opts c m) < length (nd_candidates m) \<and> nd_candidates m ! current_index (take_pick opts c m) = c"
      using current_index_nth [of "take_pick opts c m"] dist assms(4) by (simp add: tp)
    ultimately have "de_chosen (es ! e) = current_index (take_pick opts c m)" using dist b by (metis nth_eq_iff_index_eq)
    then have "es ! e = decision_at (take_pick opts c m)" using k tp by (cases "es ! e") (simp add: decision_at_def)
    then have "take (Suc e) es = map decision_at P'" using f by (simp add: P' take_Suc_conv_app_nth)
    moreover have "length P' = Suc e" using assms(2) by (simp add: P')
    ultimately show ?thesis by simp
  qed
qed

definition all_run :: "explore_report \<Rightarrow> bool" where
  "all_run p \<longleftrightarrow> finite {ds. complete_stream tree ds} \<and> rt_schedules p = card {ds. complete_stream tree ds} \<and>
     digest ` {ds. complete_stream tree ds} \<subseteq> so_digest ` set (rt_outcomes p)"

lemma naive_round:
  assumes inv: "naive_inv E opts x" and "op_naive opts" and nl: "\<not> op_leak opts" and "capped_open x"
    and rd: "explore_round opts replay x = (b, x')" and closed: "\<not> rt_frontier_open (ex_report x')"
    and nodiv: "\<not> b \<Longrightarrow> rt_divergence (ex_report x') = None"
  shows "if b then \<exists>E'. naive_inv E' opts x' else all_run (ex_report x')"
proof -
  have base: "base_inv opts x" using inv by (simp add: naive_inv_def)
  show ?thesis
    using rd base nl
  proof (cases rule: round_cases)
    case (1 h)
    with nodiv show ?thesis by simp
  next
    case (2 y)
    define P where "P = ex_path (judged opts x y)"
    define ds where "ds = rn_decisions (this_run opts x)"
    have cut: "length (rn_decisions (this_run opts x)) \<le> op_max_steps opts"
      by (rule open_chain [OF inv nl assms(4) 2(1,2,5,7,6) closed])
    note jn = judged_naive [OF inv nl 2(1,2) cut, folded P_def, folded ds_def]
    note jf = judged_facts(2) [OF base nl 2(1,2), folded P_def]
    note jr = judged_report [OF base nl 2(1,2), folded ds_def]
    have compl: "complete_stream tree ds" using run_facts(2) [OF base nl] by (simp add: ds_def)
    have full: "\<forall>n \<in> set P. node_ok n \<and> full_node n" using jf assms(2) by blast
    have lP: "min (length P) (op_max_steps opts) = length P" using jn(1) cut by (metis ds_def length_map min.absorb1)
    have sc: "scanned opts (length P) (judged opts x y) b x'" using 2(6) by (simp add: lP flip: P_def)
    have out: "rt_outcomes (ex_report x') = rt_outcomes (ex_report (judged opts x y))"
      "rt_schedules (ex_report x') = rt_schedules (ex_report (judged opts x y))"
      using sc unfolding scanned_def by blast+
    have E: "finite (insert ds E)" "\<forall>es \<in> insert ds E. complete_stream tree es" "card (insert ds E) = Suc (card E)"
      "rt_schedules (ex_report x) = card E" "digest ` E \<subseteq> so_digest ` set (rt_outcomes (ex_report x))"
      using inv jn(2) compl by (simp_all add: naive_inv_def)
    have sch: "rt_schedules (ex_report x') = card (insert ds E)" using E jr(1) 2(4) out(2) by simp
    have dig: "digest ` insert ds E \<subseteq> so_digest ` set (rt_outcomes (ex_report x'))"
      using E(5) jr(2) 2(3) out(1) by auto
    show ?thesis
    proof (cases b)
      case False
      then have w: "\<forall>i < length P. waiting (P ! i) = []"
        using sc closed assms(2) unfolding scanned_def Let_def P_def by blast
      have "{es. complete_stream tree es} = insert ds E"
      proof
        show "insert ds E \<subseteq> {es. complete_stream tree es}" using E(2) by blast
        show "{es. complete_stream tree es} \<subseteq> insert ds E"
        proof
          fix es assume "es \<in> {es. complete_stream tree es}"
          then have es: "complete_stream tree es" by simp
          have "\<not> pending es P d" for d
          proof (cases "d < length P")
            case True
            with w show ?thesis by (intro nothing_pending [OF full jn(1) compl es]) blast
          qed (simp add: pending_def)
          with jn(4) [OF es] show "es \<in> insert ds E" by blast
        qed
      qed
      then show ?thesis using False E(1) sch dig by (simp add: all_run_def)
    next
      case True
      obtain e where pk: "picked opts (length P) (judged opts x y) x' e"
        and w: "\<forall>i. e < i \<and> i < length P \<longrightarrow> waiting (P ! i) = []"
        using sc closed assms(2) True unfolding scanned_def Let_def P_def by blast
      have base': "base_inv opts x'"
        using picked_base [OF base nl 2(1,2), of x' e] pk by (simp add: lP flip: P_def)
      obtain c where e: "e < length P" and P': "ex_path x' = take e P @ [take_pick opts c (P ! e)]"
        and c: "c \<in> set (waiting (P ! e))"
        using pk assms(2) by (auto simp: picked_def P_def)
      have nok: "node_ok (P ! e)" using full e by simp
      have cc: "c \<in> set (nd_candidates (P ! e))" "c \<notin> set (nd_done (P ! e))" using waiting_candidates [OF nok c] by simp_all
      have taken: "set (nd_done (take_pick opts c (P ! e))) = insert c (set (nd_done (P ! e)))"
        using assms(2) by (simp add: take_pick_def Let_def)
      have tr: "tried (insert ds E) (ex_path x')"
        unfolding tried_def
      proof (intro ballI allI impI)
        fix es d assume es: "es \<in> insert ds E" and d: "d < length (ex_path x')"
          and a: "take d es = map decision_at (take d (ex_path x')) \<and> d < length es"
        have de: "d \<le> e" using d e by (simp add: P')
        then have "take d (ex_path x') = take d P" using e by (simp add: P' min_def)
        then have "value_at es d \<in> set (nd_done (P ! d))" using jn(3) es a de e unfolding tried_def by auto
        then show "value_at es d \<in> set (nd_done (ex_path x' ! d))" using de taken e by (cases "d = e") (simp_all add: P' nth_append)
      qed
      have beyond: "take (length (ex_path x')) es \<noteq> map decision_at (ex_path x')" if "es \<in> insert ds E" for es
      proof
        assume t: "take (length (ex_path x')) es = map decision_at (ex_path x')"
        have l: "length (ex_path x') = Suc e" using e by (simp add: P')
        then have "length (take (Suc e) es) = Suc e" using t by (metis length_map)
        then have le: "e < length es" by simp
        have "take (Suc e) es = map decision_at (take e P) @ [decision_at (take_pick opts c (P ! e))]" using t l by (simp add: P')
        then have te: "take e es = map decision_at (take e P)" and ee: "es ! e = decision_at (take_pick opts c (P ! e))"
          using le e by (simp_all add: take_Suc_conv_app_nth)
        have "value_at es e \<in> set (nd_done (P ! e))" using jn(3) that e te le unfolding tried_def by blast
        moreover have "value_at es e = c"
          using current_index_nth [of "take_pick opts c (P ! e)"] nok cc(1)
          by (simp add: value_at_def ee decision_at_def take_pick_def node_ok_def Let_def split: if_splits)
        ultimately show False using cc(2) by simp
      qed
      have cover: "es \<in> insert ds E \<or> take (length (ex_path x')) es = map decision_at (ex_path x') \<or> (\<exists>d. pending es (ex_path x') d)"
        if es: "complete_stream tree es" for es
      proof (cases "es \<in> insert ds E")
        case False
        with jn(4) [OF es] obtain d where d: "pending es P d" by blast
        have "\<not> e < d"
        proof
          assume "e < d"
          moreover have "d < length P" using d by (simp add: pending_def)
          ultimately have "waiting (P ! d) = []" using w by blast
          with nothing_pending [OF full jn(1) compl es] d show False by blast
        qed
        then have "d \<le> e" by simp
        from pick_pending [OF refl e nok cc(1) P' jn(1) compl es d this assms(2)] show ?thesis by blast
      qed blast
      have "naive_inv (insert ds E) opts x'"
        unfolding naive_inv_def using base' E(1,2) sch dig tr beyond cover by blast
      with True show ?thesis by auto
    qed
  qed
qed

text \<open>With full branching, a report with the frontier closed and no divergence covers every schedule once.\<close>

lemma loop_naive:
  "naive_inv E opts x \<Longrightarrow> capped_open x \<Longrightarrow> op_naive opts \<Longrightarrow> \<not> op_leak opts \<Longrightarrow>
     \<not> rt_frontier_open (explore_loop opts elapsed replay x) \<Longrightarrow> rt_divergence (explore_loop opts elapsed replay x) = None \<Longrightarrow>
     all_run (explore_loop opts elapsed replay x)"
proof (induction "op_max_schedules opts - rt_executions (ex_report x)" arbitrary: x E rule: less_induct)
  case less
  show ?case
  proof (cases rule: loop_cases [of opts elapsed replay x])
    case 1
    with less.prems(5) show ?thesis by simp
  next
    case (2 x')
    have m: "op_max_schedules opts - rt_executions (ex_report x') < op_max_schedules opts - rt_executions (ex_report x)"
      using 2(3) round_executions [of opts replay x] 2(1) by simp
    have c: "capped_open x'" using round_open [OF less.prems(2), of opts replay] 2(1) by simp
    have o: "\<not> rt_frontier_open (ex_report x')" using loop_open [OF c, of opts elapsed replay] less.prems(5) 2(2) by auto
    obtain E' where "naive_inv E' opts x'"
      using naive_round [OF less.prems(1,3,4,2) 2(1) o] by auto
    from less.hyps [OF m this c less.prems(3,4)] less.prems(5,6) show ?thesis by (simp add: 2(2))
  next
    case (3 x')
    with naive_round [OF less.prems(1,3,4,2) 3(1)] less.prems(5,6) show ?thesis by simp
  qed
qed

lemma naive_new: "naive_inv {} opts new_explorer \<and> capped_open new_explorer"
  using base_new [of opts]
  by (simp add: naive_inv_def capped_open_def tried_def) (simp add: new_explorer_def empty_report_def)

lemma explore_naive:
  assumes "op_naive opts" and "\<not> op_leak opts" and "\<not> rt_frontier_open (explore opts elapsed replay)"
    and "rt_divergence (explore opts elapsed replay) = None"
  shows "finite {ds. complete_stream tree ds} \<and> rt_schedules (explore opts elapsed replay) = card {ds. complete_stream tree ds} \<and>
     digest ` {ds. complete_stream tree ds} \<subseteq> so_digest ` set (rt_outcomes (explore opts elapsed replay))"
  using loop_naive [of "{}" opts new_explorer elapsed] naive_new [of opts] assms unfolding explore_def all_run_def by blast

lemma explore_real:
  "\<not> op_leak opts \<Longrightarrow> oc \<in> set (rt_outcomes (explore opts elapsed replay)) \<Longrightarrow> outcome_real tree digest oc"
  using loop_real [of opts new_explorer elapsed] base_new [of opts] unfolding explore_def by blast

end

section \<open>Programs on the scheduler\<close>

text \<open>A program that reaches at most \<open>depth\<close> decision points, each with at least one candidate and none twice.\<close>

definition explorable :: "nat \<Rightarrow> decision_tree \<Rightarrow> bool" where
  "explorable depth tree \<longleftrightarrow> (\<forall>ds k cs. tree ds = Some (k, cs) \<longrightarrow> length ds < depth \<and> cs \<noteq> [] \<and> distinct cs)"

fun walk_tree :: "decision_tree \<Rightarrow> nat \<Rightarrow> 'c sched \<Rightarrow> 'c sched" where
  "walk_tree tree 0 s = s"
| "walk_tree tree (Suc n) s =
     (case tree (st_decisions s) of
        None \<Rightarrow> s
      | Some (k, cs) \<Rightarrow> walk_tree tree n (snd (decide k cs s)))"

text \<open>One replay: the program runs on a scheduler started with the plan; what else it does is a function of
  the decisions taken.\<close>

definition machine_replay :: "decision_tree \<Rightarrow> nat \<Rightarrow> (decision list \<Rightarrow> run_rec) \<Rightarrow> (decision list \<Rightarrow> nat) \<Rightarrow> replayer" where
  "machine_replay tree depth result state_hash p keep =
     (let s = walk_tree tree depth (sched_planned p :: unit sched); ds = st_decisions s
      in (result ds)\<lparr>rn_decisions := ds, rn_states := map (\<lambda>i. state_hash (take i ds)) [0..<length ds],
            rn_divergence := st_divergence s\<rparr>)"

text \<open>Any tree, normalised to an explorable one.\<close>

definition offers :: "nat \<Rightarrow> decision_tree \<Rightarrow> decision_tree" where
  "offers depth tree ds =
     (if length ds < depth
      then (case tree ds of Some (k, cs) \<Rightarrow> if cs \<noteq> [] \<and> distinct cs then Some (k, cs) else None | None \<Rightarrow> None)
      else None)"

lemma offers_explorable: "explorable depth (offers depth tree)"
  by (auto simp: explorable_def offers_def split: option.splits if_splits)

lemma explorable_offers: "explorable depth tree \<Longrightarrow> offers depth tree = tree"
proof
  fix ds assume "explorable depth tree"
  then show "offers depth tree ds = tree ds" by (cases "tree ds") (auto simp: explorable_def offers_def)
qed

lemma decide_planned:
  assumes "st_chooser s = Planned p"
  shows "st_chooser (snd (decide k cs s)) = Planned p"
    and "st_decisions (snd (decide k cs s)) = st_decisions s @
      [\<lparr>de_kind = k, de_candidates = cs,
        de_chosen = (if plan_choice p (length (st_decisions s)) < length cs then plan_choice p (length (st_decisions s)) else 0)\<rparr>]"
    and "st_divergence s = None \<Longrightarrow> st_divergence (snd (decide k cs s)) =
      (if plan_mismatch p (length (st_decisions s)) k cs then Some (length (st_decisions s)) else None)"
  using assms by (simp_all add: decide_def choose_index_def Let_def)

lemma stays_on:
  assumes "partial_stream tree ds" and "partial_stream tree es"
    and "take (min (length ds) (length es)) es = take (length es) ds" and "tree es = None"
  shows "take (length ds) es = ds"
proof -
  have "\<not> length es < length ds"
  proof
    assume l: "length es < length ds"
    then have "take (length es) ds = es" using assms(3) by simp
    moreover have "tree (take (length es) ds) \<noteq> None" using assms(1) l by (simp add: partial_stream_def)
    ultimately show False using assms(4) by simp
  qed
  then show ?thesis using assms(3) by (simp add: min_def)
qed

lemma plan_stays:
  assumes "partial_stream tree ds" and "partial_stream tree es"
    and "take (min (length ds) (length es)) es = take (length es) ds" and "tree es = Some (k, cs)" and "cs \<noteq> []"
  defines "c \<equiv> (if plan_choice (plan_of ds) (length es) < length cs then plan_choice (plan_of ds) (length es) else 0)"
  shows "\<not> plan_mismatch (plan_of ds) (length es) k cs"
    and "take (min (length ds) (Suc (length es))) (es @ [\<lparr>de_kind = k, de_candidates = cs, de_chosen = c\<rparr>]) = take (Suc (length es)) ds"
proof -
  have m: "\<not> plan_mismatch (plan_of ds) (length es) k cs \<and>
    take (min (length ds) (Suc (length es))) (es @ [\<lparr>de_kind = k, de_candidates = cs, de_chosen = c\<rparr>]) = take (Suc (length es)) ds"
  proof (cases "length es < length ds")
    case True
    then have es: "take (length es) ds = es" using assms(3) by simp
    have d: "tree es = Some (de_kind (ds ! length es), de_candidates (ds ! length es))"
      "de_chosen (ds ! length es) < length (de_candidates (ds ! length es))"
      using assms(1) True es unfolding partial_stream_def by (metis, blast)
    then have k: "k = de_kind (ds ! length es)" "cs = de_candidates (ds ! length es)" using assms(4) by simp_all
    have pc: "plan_choice (plan_of ds) (length es) = de_chosen (ds ! length es)"
      using True by (simp add: plan_choice_def plan_of_def)
    then have "c = de_chosen (ds ! length es)" using d(2) by (simp add: c_def k)
    then have "\<lparr>de_kind = k, de_candidates = cs, de_chosen = c\<rparr> = ds ! length es" by (simp add: k)
    moreover have "take (Suc (length es)) ds = es @ [ds ! length es]" using True es by (simp add: take_Suc_conv_app_nth)
    moreover have "min (length ds) (Suc (length es)) = Suc (length es)" using True by simp
    ultimately show ?thesis using True d(2) pc by (simp add: plan_mismatch_def plan_of_def k)
  next
    case False
    then have "take (length ds) es = ds" using assms(3) by (simp add: min_def)
    with False assms(5) show ?thesis by (simp add: plan_mismatch_def plan_choice_def plan_of_def min_def)
  qed
  then show "\<not> plan_mismatch (plan_of ds) (length es) k cs"
    "take (min (length ds) (Suc (length es))) (es @ [\<lparr>de_kind = k, de_candidates = cs, de_chosen = c\<rparr>]) = take (Suc (length es)) ds"
    by blast+
qed

text \<open>A walk under the plan of a stream stays on the stream, then takes first candidates to the end.\<close>

lemma walk_follows:
  assumes "explorable depth tree" and "partial_stream tree ds"
  shows "st_chooser s = Planned (plan_of ds) \<Longrightarrow> partial_stream tree (st_decisions s) \<Longrightarrow> st_divergence s = None \<Longrightarrow>
    take (min (length ds) (length (st_decisions s))) (st_decisions s) = take (length (st_decisions s)) ds \<Longrightarrow>
    depth \<le> length (st_decisions s) + n \<Longrightarrow>
    st_divergence (walk_tree tree n s) = None \<and> complete_stream tree (st_decisions (walk_tree tree n s)) \<and>
    take (length ds) (st_decisions (walk_tree tree n s)) = ds"
proof (induction n arbitrary: s)
  case 0
  have t: "tree (st_decisions s) = None"
  proof (rule ccontr)
    assume "tree (st_decisions s) \<noteq> None"
    then have "length (st_decisions s) < depth" using assms(1) unfolding explorable_def by fast
    with 0(5) show False by simp
  qed
  then show ?case using 0 stays_on [OF assms(2) 0(2,4) t] by (simp add: complete_stream_def)
next
  case (Suc n)
  show ?case
  proof (cases "tree (st_decisions s)")
    case None
    then show ?thesis using Suc.prems stays_on [OF assms(2) Suc.prems(2,4) None] by (simp add: complete_stream_def)
  next
    case (Some kc)
    obtain k cs where t: "tree (st_decisions s) = Some (k, cs)" using Some by (cases kc) simp
    note dp = decide_planned [OF Suc.prems(1), of k cs]
    define s' where "s' = snd (decide k cs s)"
    have cs: "cs \<noteq> []" using assms(1) t by (auto simp: explorable_def)
    note st = plan_stays [OF assms(2) Suc.prems(2,4) t cs]
    have "walk_tree tree (Suc n) s = walk_tree tree n s'" by (simp add: t s'_def)
    moreover have "partial_stream tree (st_decisions s')" using Suc.prems(2) t cs by (simp add: s'_def dp(2) partial_snoc)
    moreover have "st_divergence s' = None" using dp(3) Suc.prems(3) st(1) by (simp add: s'_def)
    moreover have "take (min (length ds) (length (st_decisions s'))) (st_decisions s') = take (length (st_decisions s')) ds"
      unfolding s'_def dp(2) using st(2) by simp
    moreover have "depth \<le> length (st_decisions s') + n" using Suc.prems(5) by (simp add: s'_def dp(2))
    ultimately show ?thesis using Suc.IH [of s'] dp(1) by (simp add: s'_def)
  qed
qed

lemma machine_run:
  "rn_decisions (machine_replay tree depth result state_hash p keep) =
     st_decisions (walk_tree tree depth (sched_planned p :: unit sched))"
  "rn_divergence (machine_replay tree depth result state_hash p keep) =
     st_divergence (walk_tree tree depth (sched_planned p :: unit sched))"
  "length (rn_states (machine_replay tree depth result state_hash p keep)) =
     length (rn_decisions (machine_replay tree depth result state_hash p keep))"
  "run_digest (machine_replay tree depth result state_hash p keep) =
     run_digest (result (rn_decisions (machine_replay tree depth result state_hash p keep)))"
  by (simp_all add: machine_replay_def Let_def run_digest_def digest_text_def)

lemma machine_follows:
  assumes "explorable depth tree" and "partial_stream tree ds"
  shows "rn_divergence (machine_replay tree depth result state_hash (plan_of ds) keep) = None \<and>
    complete_stream tree (rn_decisions (machine_replay tree depth result state_hash (plan_of ds) keep)) \<and>
    take (length ds) (rn_decisions (machine_replay tree depth result state_hash (plan_of ds) keep)) = ds"
  using walk_follows [OF assms, of "sched_planned (plan_of ds) :: unit sched" depth]
  by (simp add: machine_run sched_planned_def sched_with_def partial_stream_def)

interpretation machine: replayed "offers depth tree" "machine_replay (offers depth tree) depth result state_hash"
  "\<lambda>ds. run_digest (result ds)" for depth tree result state_hash
proof (unfold_locales, goal_cases)
  case (1 ds k cs)
  then show ?case using offers_explorable [of depth tree] by (simp add: explorable_def)
next
  case (2 ds keep)
  then show ?case by (rule machine_follows [OF offers_explorable])
next
  case (3 p keep)
  show ?case by (rule machine_run)
next
  case (4 p keep)
  show ?case by (rule machine_run)
qed

lemma complete_prefix:
  assumes "complete_stream tree ds" and "complete_stream tree es" and "take (length ds) es = ds"
  shows "es = ds"
proof (rule ccontr)
  assume "es \<noteq> ds"
  then obtain d where "d < length es" "d < length ds" "take d es = take d ds" "es ! d \<noteq> ds ! d"
    using complete_split [OF assms(2,1)] by metis
  with assms(3) show False by (metis nth_take)
qed

text \<open>C17: A closed frontier is exhaustive. When the exploration with full branching of a program with finitely many
  decision points reports a closed frontier and no divergence, it has run as many schedules as the program has
  complete decision streams, and the digest of every one of them is among the reported outcomes.\<close>

theorem closed_frontier_exhaustive:
  assumes "explorable depth tree" and "op_naive opts" and "\<not> op_leak opts"
    and "report = explore opts elapsed (machine_replay tree depth result state_hash)"
    and "\<not> rt_frontier_open report" and "rt_divergence report = None"
  shows "finite {ds. complete_stream tree ds} \<and> rt_schedules report = card {ds. complete_stream tree ds} \<and>
    (\<forall>ds. complete_stream tree ds \<longrightarrow> (\<exists>oc \<in> set (rt_outcomes report). so_digest oc = run_digest (result ds)))"
proof -
  have r: "finite {ds. complete_stream tree ds} \<and> rt_schedules report = card {ds. complete_stream tree ds} \<and>
     (\<lambda>ds. run_digest (result ds)) ` {ds. complete_stream tree ds} \<subseteq> so_digest ` set (rt_outcomes report)"
    using machine.explore_naive [of opts elapsed depth tree result state_hash] assms explorable_offers [OF assms(1)] by simp
  moreover have "\<exists>oc \<in> set (rt_outcomes report). so_digest oc = run_digest (result ds)" if "complete_stream tree ds" for ds
  proof -
    have "run_digest (result ds) \<in> so_digest ` set (rt_outcomes report)" using r that by blast
    then show ?thesis by auto
  qed
  ultimately show ?thesis by blast
qed

text \<open>C18: A reported outcome replays. Whatever the reductions and budgets, every outcome that the exploration reports
  is one of a complete decision stream of the program: it carries the stream's choices, digest and packed
  seed, and a replay with the plan of the stream takes exactly these decisions and does not diverge.\<close>

theorem reported_outcomes_replay:
  assumes "explorable depth tree" and "\<not> op_leak opts"
    and "oc \<in> set (rt_outcomes (explore opts elapsed (machine_replay tree depth result state_hash)))"
  shows "\<exists>ds. complete_stream tree ds \<and> so_choices oc = map de_chosen ds \<and> so_digest oc = run_digest (result ds) \<and>
    so_seed oc = pack_schedule ds \<and> rn_decisions (machine_replay tree depth result state_hash (plan_of ds) keep) = ds \<and>
    rn_divergence (machine_replay tree depth result state_hash (plan_of ds) keep) = None"
proof -
  have "outcome_real tree (\<lambda>ds. run_digest (result ds)) oc"
    using machine.explore_real [of opts oc elapsed depth tree result state_hash] assms explorable_offers [OF assms(1)] by simp
  then obtain ds where ds: "complete_stream tree ds" "so_choices oc = map de_chosen ds" "so_digest oc = run_digest (result ds)"
    "so_seed oc = pack_schedule ds" by (auto simp: outcome_real_def)
  then have "partial_stream tree ds" by (simp add: complete_stream_def)
  note f = machine_follows [OF assms(1) this, of result state_hash keep]
  have "rn_decisions (machine_replay tree depth result state_hash (plan_of ds) keep) = ds"
    using complete_prefix [OF ds(1)] f by blast
  with ds f show ?thesis by blast
qed

section \<open>A program with two schedules\<close>

definition two_tasks :: decision_tree where
  "two_tasks ds = (if ds = [] then Some (DkTask, [1, 2]) else None)"

definition two_results :: "decision list \<Rightarrow> run_rec" where
  "two_results ds =
     \<lparr>rn_outcome = OcExit (sum_list (map de_chosen ds)), rn_stdout = [], rn_leaks = 0, rn_live_cells = 0, rn_host_leaks = 0,
      rn_forest_ok = True, rn_decisions = [], rn_states = [], rn_ops = [], rn_deadlocked = False, rn_divergence = None,
      rn_preimages = []\<rparr>"

definition full_options :: explore_options where
  "full_options = default_options\<lparr>op_naive := True\<rparr>"

lemma two_explorable: "explorable 1 two_tasks"
  by (auto simp: explorable_def two_tasks_def split: if_splits)

definition two_report :: explore_report where
  "two_report = explore full_options (\<lambda>_. 0) (machine_replay two_tasks 1 two_results (\<lambda>_. 0))"

lemma two_run:
  "machine_replay two_tasks 1 two_results h p keep =
     (let d = \<lparr>de_kind = DkTask, de_candidates = [1, 2], de_chosen = (if plan_choice p 0 < 2 then plan_choice p 0 else 0)\<rparr>
      in (two_results [d])\<lparr>rn_decisions := [d], rn_states := [h []],
           rn_divergence := (if plan_mismatch p 0 DkTask [1, 2] then Some 0 else None)\<rparr>)"
  by (simp add: machine_replay_def two_tasks_def sched_planned_def sched_with_def decide_def choose_index_def Let_def)

lemmas round_defs = explore_round_def after_run_def backtrack_def rebuild_path_def cap_depth_def known_preimages_def

lemma two_closed: "\<not> rt_frontier_open two_report" "rt_divergence two_report = None"
proof -
  define R where "R = machine_replay two_tasks 1 two_results (\<lambda>_. 0)"
  define x1 where "x1 = snd (explore_round full_options R new_explorer)"
  define n1 where "n1 = \<lparr>nd_kind = DkTask, nd_candidates = [1, 2], nd_state = 0, nd_current = 2, nd_footprint = [],
       nd_done = [1, 2], nd_backtrack = [1, 2], nd_sleep = [], nd_pruned = False\<rparr>"
  have r1: "explore_round full_options R new_explorer = (True, x1)" "ex_path x1 = [n1]" "ex_forced x1 = 1"
    "\<not> rt_frontier_open (ex_report x1)" "rt_divergence (ex_report x1) = None" "rt_executions (ex_report x1) = 1"
    by (simp_all add: x1_def n1_def round_defs R_def two_run [unfolded One_nat_def] full_options_def default_options_def new_explorer_def Let_def
        forced_plan_def plan_choice_def plan_mismatch_def prunes_def footprints_def fresh_nodes_def new_node_def set_insert_def
        insort_insert_key_def two_results_def waiting_def take_pick_def judge_facts judge_executions empty_report_def upd_report_def)
  have r2: "\<exists>x2. explore_round full_options R x1 = (False, x2) \<and> \<not> rt_frontier_open (ex_report x2) \<and> rt_divergence (ex_report x2) = None"
    using r1 by (simp add: n1_def round_defs R_def two_run [unfolded One_nat_def] full_options_def default_options_def Let_def
        forced_plan_def plan_choice_def plan_mismatch_def prunes_def footprints_def fresh_nodes_def new_node_def set_insert_def
        insort_insert_key_def two_results_def waiting_def take_pick_def judge_facts judge_executions upd_report_def current_index_def
        close_state_def)
  then obtain x2 where x2: "explore_round full_options R x1 = (False, x2)" "\<not> rt_frontier_open (ex_report x2)"
    "rt_divergence (ex_report x2) = None" by blast
  have o: "op_max_schedules full_options = 10000" "op_wall full_options = None"
    by (simp_all add: full_options_def default_options_def)
  have "rt_executions (ex_report new_explorer) = 0" by (simp add: new_explorer_def empty_report_def)
  then have "explore_loop full_options (\<lambda>_. 0) R new_explorer = ex_report x2"
    using r1(1,6) x2(1) by (simp add: explore_loop.simps [of full_options _ R] o)
  then have "two_report = ex_report x2" by (simp add: two_report_def explore_def R_def)
  with x2 show "\<not> rt_frontier_open two_report" "rt_divergence two_report = None" by simp_all
qed

definition second_stream :: "decision list" where
  "second_stream = [\<lparr>de_kind = DkTask, de_candidates = [1, 2], de_chosen = 1\<rparr>]"

lemma second_complete: "complete_stream two_tasks second_stream"
  by (simp add: complete_stream_def partial_stream_def two_tasks_def second_stream_def)

theorem closed_frontier_exhaustive_witness:
  "rt_schedules two_report = card {ds. complete_stream two_tasks ds} \<and>
   (\<exists>oc \<in> set (rt_outcomes two_report). so_digest oc = run_digest (two_results second_stream))"
proof -
  have "op_naive full_options" "\<not> op_leak full_options" by (simp_all add: full_options_def default_options_def)
  from closed_frontier_exhaustive [OF two_explorable this two_report_def two_closed] second_complete show ?thesis by blast
qed

theorem reported_outcomes_replay_witness:
  "\<exists>oc ds. oc \<in> set (rt_outcomes two_report) \<and> so_choices oc = map de_chosen ds \<and>
     rn_decisions (machine_replay two_tasks 1 two_results (\<lambda>_. 0) (plan_of ds) False) = ds"
proof -
  have l: "op_naive full_options" "\<not> op_leak full_options" by (simp_all add: full_options_def default_options_def)
  note run = machine.explore_naive [OF l, of "\<lambda>_. 0" 1 two_tasks two_results "\<lambda>_. 0",
      unfolded explorable_offers [OF two_explorable], folded two_report_def, OF two_closed]
  have "run_digest (two_results second_stream) \<in> (\<lambda>ds. run_digest (two_results ds)) ` {ds. complete_stream two_tasks ds}"
    by (rule imageI) (simp add: second_complete)
  then have "run_digest (two_results second_stream) \<in> so_digest ` set (rt_outcomes two_report)" using run by blast
  then obtain oc where "oc \<in> set (rt_outcomes two_report)" by blast
  with reported_outcomes_replay [OF two_explorable l(2), of oc "\<lambda>_. 0" two_results "\<lambda>_. 0" False] show ?thesis
    unfolding two_report_def by blast
qed

end
