(* ===== verification/Ast.thy ===== *)
theory Ast
  imports LexState
begin

text \<open>
  The syntax tree of \<open>ast.rs\<close>. A node of the tree is a kind with its span; the clause anchors of the nodes
  are text and left out. The structs and enums that only carry parts of the tree are polymorphic in these
  parts, so that the five kinds of node (expressions, types, patterns, statements, items) are the only
  mutually recursive types.
\<close>

section \<open>Names and nodes\<close>

datatype (plugins only: code) ident = Name (id_name: chars) (id_span: span)

datatype (plugins only: code) ast_path = Path (pt_segments: "ident list") (pt_span: span)

definition is_single :: "ast_path \<Rightarrow> bool" where
  "is_single p \<longleftrightarrow> length (pt_segments p) = 1"

datatype (plugins only: code) visibility = Visibility (vs_package_only: bool) (vs_span: span)

datatype (plugins only: code) 'k ast_node = Node (kind: 'k) (nspan: span)

section \<open>Literals\<close>

datatype (plugins only: code) 'e fmt_part = FmtPartText chars | FmtPartInterp 'e

datatype (plugins only: code) 'e interpolation =
  Interpolation (ip_expr: 'e) (ip_format: "'e fmt_part list option") (ip_span: span)

datatype (plugins only: code) 'e str_part = SpText chars | SpInterp "'e interpolation"

datatype (plugins only: code) 'e str_lit = StrLit (sl_kind: str_kind) (sl_parts: "'e str_part list") (sl_span: span)

fun plain_parts :: "'e str_part list \<Rightarrow> chars option" where
  "plain_parts [] = Some []"
| "plain_parts (SpText t # ps) = map_option (\<lambda>r. t @ r) (plain_parts ps)"
| "plain_parts (SpInterp _ # ps) = None"

definition as_plain_text :: "'e str_lit \<Rightarrow> chars option" where
  "as_plain_text l = plain_parts (sl_parts l)"

section \<open>Attributes\<close>

datatype (plugins only: code) 'e attr = Attr (at_path: ast_path) (at_input: "'e attr_input option") (at_span: span)
and 'e attr_input = AiArgs "'e attr_arg list" | AiLiteral 'e
and 'e attr_arg = AaNested "'e attr" | AaLiteral 'e

datatype (plugins only: code) 'e attribute = Attribute (ab_attrs: "'e attr list") (ab_span: span)

section \<open>Parts of items\<close>

datatype (plugins only: code) param_mode = PmMut | PmTake

datatype (plugins only: code) binding_kind = BkLet | BkVar | BkConst

datatype (plugins only: code) 'e fn_qual = QComptime span | QExtern (fq_abi: "'e str_lit") (fq_span: span) | QExport span

datatype (plugins only: code) bound = BoundPaths "ast_path list" | BoundTypeOfTypes span

datatype (plugins only: code) generic_param = GenericParam (gp_name: ident) (gp_bound: "bound option") (gp_span: span)

datatype (plugins only: code) 't param_kind = PkNamed ident 't | PkSelf "ident list"

datatype (plugins only: code) 't param = Param (pr_mode: "param_mode option") (pr_kind: "'t param_kind") (pr_span: span)

datatype (plugins only: code) 't row_entry = RowEntry (re_path: ast_path) (re_payload: "'t list") (re_span: span)

datatype (plugins only: code) 't error_row =
  ErrorRow (er_entries: "'t row_entry list") (er_open: bool) (er_open_at: "span option") (er_bare: bool) (er_span: span)

datatype (plugins only: code) 't ret_type = RetType (rt_ty: 't) (rt_row: "'t error_row option") (rt_span: span)

datatype (plugins only: code) ('s, 'e) block = Block (bl_stmts: "'s list") (bl_tail: "'e option") (bl_span: span)

datatype (plugins only: code) ('s, 'e, 't) fn_decl =
  FnDecl (fd_quals: "'e fn_qual list") (fd_name: ident) (fd_generics: "generic_param list") (fd_params: "'t param list")
    (fd_variadic: "span option") (fd_ret: "'t ret_type option") (fd_body: "('s, 'e) block option") (fd_span: span)

datatype (plugins only: code) ('p, 't, 'e) binding =
  Binding (bi_kind: binding_kind) (bi_pattern: 'p) (bi_ty: "'t option") (bi_value: 'e) (bi_span: span)

datatype (plugins only: code) ('t, 'e) extern_let =
  ExternLet (xl_abi: "'e str_lit") (xl_kind: binding_kind) (xl_kind_span: span) (xl_name: ident) (xl_ty: "'t option")
    (xl_value: "'e option") (xl_span: span)

datatype (plugins only: code) ('t, 'e) field =
  Field (fl_attrs: "'e attribute list") (fl_visibility: "visibility option") (fl_name: ident) (fl_ty: 't) (fl_span: span)

datatype (plugins only: code) ('t, 'e) struct_def =
  StructDef (sd_name: "ident option") (sd_generics: "generic_param list") (sd_fields: "('t, 'e) field list") (sd_span: span)

datatype (plugins only: code) 't variant = Variant (vr_name: ident) (vr_payload: "'t list") (vr_span: span)

datatype (plugins only: code) 't enum_def =
  EnumDef (ed_name: "ident option") (ed_generics: "generic_param list") (ed_variants: "'t variant list") (ed_span: span)

datatype (plugins only: code) ('t, 'e) type_def = TdStruct "('t, 'e) struct_def" | TdEnum "'t enum_def" | TdAlias 't

datatype (plugins only: code) ('t, 'e) alias_def =
  TypeAlias (ta_name: ident) (ta_generics: "generic_param list") (ta_def: "('t, 'e) type_def") (ta_span: span)

datatype (plugins only: code) 'i trait_def =
  TraitDef (td_name: ident) (td_generics: "generic_param list") (td_members: "'i list") (td_alias: "bound option") (td_span: span)

datatype (plugins only: code) ('t, 'i) impl_def =
  ImplDef (im_generics: "generic_param list") (im_first: 't) (im_subject: "'t option") (im_members: "'i list") (im_span: span)

datatype (plugins only: code) use_decl =
  UseDecl (ud_path: ast_path) (ud_list: "ident list") (ud_alias: "ident option") (ud_span: span)

datatype (plugins only: code) 't error_alias = ErrorAlias (ea_name: ident) (ea_row: "'t error_row") (ea_span: span)

section \<open>Parts of types, patterns and expressions\<close>

datatype (plugins only: code) type_prefix = PtShared | PtHandle | PtWeak | PtDistinct

datatype (plugins only: code) ('t, 'e) type_arg = TaType 't | TaExpr 'e

datatype (plugins only: code) 'p field_pat = FieldPat (fp_name: ident) (fp_pattern: "'p option") (fp_span: span)

datatype (plugins only: code) assign_op =
  AsAssign | AsAdd | AsSub | AsMul | AsDiv | AsRem | AsBitAnd | AsBitOr | AsBitXor | AsShl | AsShr

datatype (plugins only: code) un_op = UnNot | UnNeg | UnBorrow | UnBorrowMut | UnDeref | UnMove | UnCopy | UnShared

datatype (plugins only: code) binary_op =
  BMul | BDiv | BRem | BAdd | BSub | BShl | BShr | BBitAnd | BBitXor | BBitOr | BEq | BNe | BLt | BGt | BLe | BGe | BCmp | BAnd | BOr

datatype (plugins only: code) 'e arg = Arg (ar_mode: "param_mode option") (ar_expr: 'e) (ar_span: span)

datatype (plugins only: code) ('e, 't) index_arg = IaValue "'e arg" | IaType 't

datatype (plugins only: code) member = MbNamed ident | MbIndex "64 word" span

datatype (plugins only: code) 'e field_init = FieldInit (fi_name: ident) (fi_value: 'e) (fi_span: span)

datatype (plugins only: code) 't closure_param =
  ClosureParam (cl_mode: "param_mode option") (cl_name: ident) (cl_ty: "'t option") (cl_span: span)

datatype (plugins only: code) 't region_strategy = RsRc span | RsPool 't span

datatype (plugins only: code) ('p, 'e) match_arm =
  MatchArm (ma_pattern: 'p) (ma_guard: "'e option") (ma_body: 'e) (ma_block: bool) (ma_span: span)

datatype (plugins only: code) ('p, 'e) select_arm_kind = SaRecv 'p 'e | SaTimeout 'e

datatype (plugins only: code) ('p, 'e) select_arm =
  SelectArm (sa_kind: "('p, 'e) select_arm_kind") (sa_body: 'e) (sa_block: bool) (sa_span: span)

datatype (plugins only: code) asm_dir = AdIn | AdOut | AdInOut | AdLateOut

datatype (plugins only: code) 'e asm_operand =
  AsmOperand (ao_name: "ident option") (ao_direction: asm_dir) (ao_constraint: ident) (ao_value: 'e) (ao_span: span)

datatype (plugins only: code) ('s, 'e, 'p) else_handler = EhBlock "('s, 'e) block" | EhExpr 'e | EhHandler 'p 'e

datatype (plugins only: code) ('e, 'k) stmt_node = Stmt (st_attrs: "'e attribute list") (st_kind: 'k) (st_span: span)

datatype (plugins only: code) ('e, 'k) item_node =
  Item (it_attrs: "'e attribute list") (it_visibility: "visibility option") (it_kind: 'k) (it_span: span)

section \<open>The tree\<close>

datatype (plugins only: code) expr_kind =
    EInt chars
  | EFloat chars
  | EBool bool
  | EChar scalar
  | EStr "expr_kind ast_node str_lit"
  | EPath ast_path
  | EWildcard
  | EStructLit ast_path "expr_kind ast_node field_init list"
  | ETuple "expr_kind ast_node list"
  | EGroup "expr_kind ast_node"
  | EBlock "((expr_kind ast_node, stmt_kind) stmt_node, expr_kind ast_node) block"
  | EUnary un_op "expr_kind ast_node"
  | EBinary binary_op "expr_kind ast_node" "expr_kind ast_node"
  | ECast "expr_kind ast_node" "type_kind ast_node"
  | ECall "expr_kind ast_node" "expr_kind ast_node arg list"
  | EBracketApply "expr_kind ast_node" "(expr_kind ast_node, type_kind ast_node) index_arg list" nat
  | EMember "expr_kind ast_node" member
  | EModedReceiver param_mode "expr_kind ast_node"
  | ETry "expr_kind ast_node"
  | EList "expr_kind ast_node list"
  | ERange "expr_kind ast_node option" "expr_kind ast_node option" bool
  | EFromEnd "expr_kind ast_node"
  | EElseDefault "expr_kind ast_node" "((expr_kind ast_node, stmt_kind) stmt_node, expr_kind ast_node, pat_kind ast_node) else_handler"
  | EIf "expr_kind ast_node" "((expr_kind ast_node, stmt_kind) stmt_node, expr_kind ast_node) block" "expr_kind ast_node option"
  | EMatch "expr_kind ast_node" "(pat_kind ast_node, expr_kind ast_node) match_arm list"
  | EFor "pat_kind ast_node" "expr_kind ast_node" "((expr_kind ast_node, stmt_kind) stmt_node, expr_kind ast_node) block"
  | EWhile "expr_kind ast_node" "((expr_kind ast_node, stmt_kind) stmt_node, expr_kind ast_node) block"
  | ELoop "((expr_kind ast_node, stmt_kind) stmt_node, expr_kind ast_node) block"
  | EReturn "expr_kind ast_node option"
  | EBreak "expr_kind ast_node option"
  | EContinue
  | EClosure "type_kind ast_node closure_param list" "expr_kind ast_node" bool
  | ERegionSugar "ident option" "expr_kind ast_node option" "type_kind ast_node region_strategy option" "((expr_kind ast_node, stmt_kind) stmt_node, expr_kind ast_node) block"
  | ERegionValue "type_kind ast_node region_strategy option" "expr_kind ast_node option"
  | EIn "expr_kind ast_node" "((expr_kind ast_node, stmt_kind) stmt_node, expr_kind ast_node) block"
  | EFreeze "expr_kind ast_node"
  | EScope "ident option" "((expr_kind ast_node, stmt_kind) stmt_node, expr_kind ast_node) block"
  | ESpawnProc ast_path "expr_kind ast_node arg list"
  | ESelect "(pat_kind ast_node, expr_kind ast_node) select_arm list"
  | EWhen "expr_kind ast_node list" "((expr_kind ast_node, stmt_kind) stmt_node, expr_kind ast_node) block"
  | EUnsafe "((expr_kind ast_node, stmt_kind) stmt_node, expr_kind ast_node) block"
  | EUnsafeC "ident list" span
  | EAsm "expr_kind ast_node str_lit" "expr_kind ast_node asm_operand list"
  | EBorrow "expr_kind ast_node" "expr_kind ast_node"
and type_kind =
    TPath ast_path "(type_kind ast_node, expr_kind ast_node) type_arg list"
  | TErrorUnion "type_kind ast_node"
  | TFallible "type_kind ast_node" "type_kind ast_node error_row"
  | TPrefixed type_prefix "type_kind ast_node"
  | TRawPointer "type_kind ast_node"
  | TDyn ast_path
  | TTuple "type_kind ast_node list"
  | TFn "type_kind ast_node list" "type_kind ast_node ret_type option"
  | TTypeOfTypes
  | TRegion
and pat_kind =
    PWildcard
  | PLiteral "expr_kind ast_node"
  | PBinding ident
  | PPath ast_path
  | PVariant ast_path "pat_kind ast_node list"
  | PTuple "pat_kind ast_node list"
  | PStruct ast_path "pat_kind ast_node field_pat list" bool
  | PAt ident "pat_kind ast_node"
  | POr "pat_kind ast_node list"
  | PRange "expr_kind ast_node" "expr_kind ast_node" bool
and stmt_kind =
    SBinding "(pat_kind ast_node, type_kind ast_node, expr_kind ast_node) binding"
  | SAssign "expr_kind ast_node" assign_op "expr_kind ast_node" bool
  | SDefer bool "expr_kind ast_node"
  | SAssumeNoalias "expr_kind ast_node list"
  | SExpr "expr_kind ast_node"
  | SItem "(expr_kind ast_node, item_kind) item_node"
and item_kind =
    IFn "((expr_kind ast_node, stmt_kind) stmt_node, expr_kind ast_node, type_kind ast_node) fn_decl"
  | IBinding "(pat_kind ast_node, type_kind ast_node, expr_kind ast_node) binding"
  | ITypeAlias "(type_kind ast_node, expr_kind ast_node) alias_def"
  | IStruct "(type_kind ast_node, expr_kind ast_node) struct_def"
  | IEnum "type_kind ast_node enum_def"
  | ITrait "(expr_kind ast_node, item_kind) item_node trait_def"
  | IImpl "(type_kind ast_node, (expr_kind ast_node, item_kind) item_node) impl_def"
  | IUse use_decl
  | IImportC "expr_kind ast_node str_lit"
  | IErrorAlias "type_kind ast_node error_alias"
  | IExternLet "(type_kind ast_node, expr_kind ast_node) extern_let"

type_synonym expr = "expr_kind ast_node"
type_synonym ty = "type_kind ast_node"
type_synonym pattern = "pat_kind ast_node"
type_synonym stmt = "(expr, stmt_kind) stmt_node"
type_synonym item = "(expr, item_kind) item_node"
type_synonym code_block = "(stmt, expr) block"

text \<open>\<open>index_place\<close>: one plain subscript.\<close>

definition is_index_place :: "expr \<Rightarrow> bool" where
  "is_index_place e = (case kind e of EBracketApply _ [IaValue a] _ \<Rightarrow> ar_mode a = None | _ \<Rightarrow> False)"

record unit_node =
  un_inner_attrs :: "expr attribute list"
  un_items :: "item list"
  un_span :: span

end
