(* ===== verification/ParseBase.thy ===== *)
theory ParseBase
  imports Ast
begin

text \<open>
  The recursive descent of \<open>parse.rs\<close>: its state, the plumbing over the token stream, and the shape of a
  production. A production takes the state to its result and the new state, or to the one diagnostic of the
  parse. \<open>Stuck\<close> is no outcome of the source: it marks a loop or recursion of the model cut short, and
  theory ParseTotal shows that it never comes up. Productions that call back to an outer one take the record
  \<open>recs\<close> of these outer productions.
\<close>

section \<open>State and results\<close>

definition MAX_NESTING :: nat where "MAX_NESTING = 256"

record parser =
  ps_tokens :: "token list"
  ps_pos :: nat
  ps_eof :: span
  ps_no_struct_lit :: bool
  ps_in_trait_body :: bool
  ps_in_members :: bool
  ps_depth :: nat
  ps_pending_items :: "item list"
  ps_pending_stmts :: "stmt list"
  ps_origin :: nat
  ps_target :: chars

datatype parse_error = PDiag lex_diag | Stuck

type_synonym 'a parse = "parser \<Rightarrow> parse_error + 'a \<times> parser"

definition ret :: "'a \<Rightarrow> 'a parse" where
  "ret x s = Inr (x, s)"

definition bind :: "'a parse \<Rightarrow> ('a \<Rightarrow> 'b parse) \<Rightarrow> 'b parse" where
  "bind m f s = (case m s of Inl e \<Rightarrow> Inl e | Inr (x, s') \<Rightarrow> f x s')"

definition seqp :: "'a parse \<Rightarrow> 'b parse \<Rightarrow> 'b parse" where
  "seqp m k = bind m (\<lambda>_. k)"

definition fail_at :: "string \<Rightarrow> span \<Rightarrow> 'a parse" where
  "fail_at code sp s = Inl (PDiag \<lparr>ld_code = code, ld_span = sp\<rparr>)"

text \<open>A \<open>loop\<close>: its body continues with new accumulators or breaks with a result. A body that continues
  takes a token, so the tokens left bound its rounds.\<close>

datatype ('a, 'b) flow = Continue 'a | Break 'b

definition remaining :: "parser \<Rightarrow> nat" where
  "remaining s = length (ps_tokens s) - ps_pos s"

primrec rounds :: "nat \<Rightarrow> ('a \<Rightarrow> ('a, 'b) flow parse) \<Rightarrow> 'a \<Rightarrow> 'b parse" where
  "rounds 0 body x s = Inl Stuck"
| "rounds (Suc n) body x s =
     (case body x s of
        Inl e \<Rightarrow> Inl e
      | Inr (Continue y, s') \<Rightarrow> rounds n body y s'
      | Inr (Break z, s') \<Rightarrow> Inr (z, s'))"

definition repeat_p :: "('a \<Rightarrow> ('a, 'b) flow parse) \<Rightarrow> 'a \<Rightarrow> 'b parse" where
  "repeat_p body x s = rounds (Suc (remaining s)) body x s"

section \<open>Diagnostic codes\<close>

definition E_LEADING_OPERATOR :: string where "E_LEADING_OPERATOR = ''E0001''"
definition E_EMPTY_STATEMENT :: string where "E_EMPTY_STATEMENT = ''E0002''"
definition E_COMPARISON_CHAIN :: string where "E_COMPARISON_CHAIN = ''E0003''"
definition E_STRUCT_LIT_IN_COND :: string where "E_STRUCT_LIT_IN_COND = ''E0006''"
definition E_KEYWORD_AS_IDENT :: string where "E_KEYWORD_AS_IDENT = ''E0008''"
definition E_UNEXPECTED_TOKEN :: string where "E_UNEXPECTED_TOKEN = ''E0201''"
definition E_UNEXPECTED_EOF :: string where "E_UNEXPECTED_EOF = ''E0202''"
definition E_EXPECTED_DECLARATION :: string where "E_EXPECTED_DECLARATION = ''E0203''"
definition E_FN_NEEDS_BODY :: string where "E_FN_NEEDS_BODY = ''E0204''"
definition E_RANGE_CHAIN :: string where "E_RANGE_CHAIN = ''E0205''"
definition E_EXPECTED_TYPE :: string where "E_EXPECTED_TYPE = ''E0206''"
definition E_EXPECTED_PATTERN :: string where "E_EXPECTED_PATTERN = ''E0207''"
definition E_NESTING_RAIL :: string where "E_NESTING_RAIL = ''E0207''"
definition E_WHEN_ARITY :: string where "E_WHEN_ARITY = E_UNEXPECTED_TOKEN"
definition E_MODED_RECEIVER_DETACHED :: string where "E_MODED_RECEIVER_DETACHED = ''E0210''"
definition E_INNER_ATTR_MISPLACED :: string where "E_INNER_ATTR_MISPLACED = ''E0211''"
definition E_ASSUME_ARITY :: string where "E_ASSUME_ARITY = ''E0212''"

section \<open>Token plumbing\<close>

abbreviation kw :: "string \<Rightarrow> tok" where "kw w \<equiv> Kw (ascii w)"

definition tok_at :: "nat \<Rightarrow> parser \<Rightarrow> tok option" where
  "tok_at k s = map_option tk_tok (get_at (ps_tokens s) (ps_pos s + k))"

definition cur :: "parser \<Rightarrow> tok option" where
  "cur s = tok_at 0 s"

definition cur_span :: "parser \<Rightarrow> span" where
  "cur_span s = (case get_at (ps_tokens s) (ps_pos s) of Some t \<Rightarrow> tk_span t | None \<Rightarrow> ps_eof s)"

definition prev_span :: "parser \<Rightarrow> span" where
  "prev_span s = (case get_at (ps_tokens s) (ps_pos s - 1) of Some t \<Rightarrow> tk_span t | None \<Rightarrow> ps_eof s)"

definition cur_start :: "parser \<Rightarrow> nat" where
  "cur_start s = span_start (cur_span s)"

definition prev_end :: "parser \<Rightarrow> nat" where
  "prev_end s = span_end (prev_span s)"

definition bump :: "parser \<Rightarrow> parser" where
  "bump s = s\<lparr>ps_pos := ps_pos s + 1\<rparr>"

definition advance :: "span parse" where
  "advance s = Inr (cur_span s, bump s)"

definition at_tok :: "tok \<Rightarrow> parser \<Rightarrow> bool" where
  "at_tok t s \<longleftrightarrow> cur s = Some t"

abbreviation at_p :: "punct \<Rightarrow> parser \<Rightarrow> bool" where "at_p p \<equiv> at_tok (Punct p)"
abbreviation at_kw :: "string \<Rightarrow> parser \<Rightarrow> bool" where "at_kw w \<equiv> at_tok (kw w)"
abbreviation at_ctx :: "string \<Rightarrow> parser \<Rightarrow> bool" where "at_ctx w \<equiv> at_tok (Ident (ascii w))"

definition at_any_kw :: "string list \<Rightarrow> parser \<Rightarrow> bool" where
  "at_any_kw ws s \<longleftrightarrow> (case cur s of Some (Kw k) \<Rightarrow> k \<in> set (map ascii ws) | _ \<Rightarrow> False)"

definition is_ident :: "tok option \<Rightarrow> bool" where
  "is_ident t \<longleftrightarrow> (case t of Some (Ident _) \<Rightarrow> True | _ \<Rightarrow> False)"

definition is_term :: "tok option \<Rightarrow> bool" where
  "is_term t \<longleftrightarrow> (case t of Some (Term _) \<Rightarrow> True | _ \<Rightarrow> False)"

text \<open>\<open>if self.eat(t) { a } else { b }\<close>.\<close>

definition if_eat :: "tok \<Rightarrow> 'a parse \<Rightarrow> 'a parse \<Rightarrow> 'a parse" where
  "if_eat t a b s = (if at_tok t s then a (bump s) else b s)"

definition eat :: "tok \<Rightarrow> bool parse" where
  "eat t = if_eat t (ret True) (ret False)"

abbreviation eat_p :: "punct \<Rightarrow> bool parse" where "eat_p p \<equiv> eat (Punct p)"

definition error_here :: "string \<Rightarrow> 'a parse" where
  "error_here code s = fail_at code (cur_span s) s"

definition unexpected_diag :: "parser \<Rightarrow> lex_diag" where
  "unexpected_diag s =
     (case cur s of
        None \<Rightarrow> \<lparr>ld_code = E_UNEXPECTED_EOF, ld_span = ps_eof s\<rparr>
      | Some _ \<Rightarrow> \<lparr>ld_code = E_UNEXPECTED_TOKEN, ld_span = cur_span s\<rparr>)"

definition unexpected :: "'a parse" where
  "unexpected s = Inl (PDiag (unexpected_diag s))"

definition expected_pattern :: "'a parse" where
  "expected_pattern s = (case cur s of Some _ \<Rightarrow> error_here E_EXPECTED_PATTERN s | None \<Rightarrow> unexpected s)"

definition expected_type :: "'a parse" where
  "expected_type s = (case cur s of None \<Rightarrow> unexpected s | Some _ \<Rightarrow> error_here E_EXPECTED_TYPE s)"

definition expect_tok :: "tok \<Rightarrow> span parse" where
  "expect_tok t s = (if at_tok t s then advance s else unexpected s)"

abbreviation expect_p :: "punct \<Rightarrow> span parse" where "expect_p p \<equiv> expect_tok (Punct p)"
abbreviation expect_kw :: "string \<Rightarrow> span parse" where "expect_kw w \<equiv> expect_tok (kw w)"

text \<open>\<open>expect_list_close\<close> differs from \<open>expect\<close> in the wording of its diagnostic only.\<close>

definition expect_list_close :: "punct \<Rightarrow> span parse" where
  "expect_list_close p = expect_tok (Punct p)"

definition expect_ident :: "ident parse" where
  "expect_ident s =
     (case cur s of
        Some (Ident name) \<Rightarrow> Inr (Name name (cur_span s), bump s)
      | Some (Kw _) \<Rightarrow> error_here E_KEYWORD_AS_IDENT s
      | _ \<Rightarrow> unexpected s)"

fun skip_while :: "(tok \<Rightarrow> bool) \<Rightarrow> token list \<Rightarrow> nat" where
  "skip_while p [] = 0"
| "skip_while p (t # ts) = (if p (tk_tok t) then Suc (skip_while p ts) else 0)"

definition skip_inserted_terms :: "unit parse" where
  "skip_inserted_terms s =
     Inr ((), s\<lparr>ps_pos := ps_pos s + skip_while (\<lambda>t. t = Term False) (drop (ps_pos s) (ps_tokens s))\<rparr>)"

definition skip_terms :: "unit parse" where
  "skip_terms s =
     Inr ((), s\<lparr>ps_pos := ps_pos s + skip_while (\<lambda>t. is_term (Some t)) (drop (ps_pos s) (ps_tokens s))\<rparr>)"

definition expect_term :: "unit parse" where
  "expect_term s =
     (if is_term (cur s) then Inr ((), bump s)
      else if cur s = None \<or> at_p RBrace s then Inr ((), s)
      else unexpected s)"

definition eat_term :: "unit parse" where
  "eat_term s = (if is_term (cur s) then Inr ((), bump s) else Inr ((), s))"

section \<open>Scoped settings\<close>

definition with_struct_lit :: "bool \<Rightarrow> 'a parse \<Rightarrow> 'a parse" where
  "with_struct_lit allowed m s =
     (case m (s\<lparr>ps_no_struct_lit := \<not> allowed\<rparr>) of
        Inl e \<Rightarrow> Inl e
      | Inr (x, s') \<Rightarrow> Inr (x, s'\<lparr>ps_no_struct_lit := ps_no_struct_lit s\<rparr>))"

definition with_trait_body :: "bool \<Rightarrow> 'a parse \<Rightarrow> 'a parse" where
  "with_trait_body inside m s =
     (case m (s\<lparr>ps_in_trait_body := inside\<rparr>) of
        Inl e \<Rightarrow> Inl e
      | Inr (x, s') \<Rightarrow> Inr (x, s'\<lparr>ps_in_trait_body := ps_in_trait_body s\<rparr>))"

definition with_members :: "'a parse \<Rightarrow> 'a parse" where
  "with_members m s =
     (case m (s\<lparr>ps_in_members := True\<rparr>) of
        Inl e \<Rightarrow> Inl e
      | Inr (x, s') \<Rightarrow> Inr (x, s'\<lparr>ps_in_members := ps_in_members s\<rparr>))"

text \<open>The origin that the attributes of a node put in force holds for the node only.\<close>

definition with_origin :: "nat option \<Rightarrow> 'a parse \<Rightarrow> 'a parse" where
  "with_origin marker m s =
     (case m (case marker of Some i \<Rightarrow> s\<lparr>ps_origin := i\<rparr> | None \<Rightarrow> s) of
        Inl e \<Rightarrow> Inl e
      | Inr (x, s') \<Rightarrow> Inr (x, s'\<lparr>ps_origin := ps_origin s\<rparr>))"

definition nested :: "'a parse \<Rightarrow> 'a parse" where
  "nested m s =
     (if MAX_NESTING \<le> ps_depth s then error_here E_NESTING_RAIL s
      else case m (s\<lparr>ps_depth := ps_depth s + 1\<rparr>) of
             Inl e \<Rightarrow> Inl e
           | Inr (x, s') \<Rightarrow> Inr (x, s'\<lparr>ps_depth := ps_depth s' - 1\<rparr>))"

section \<open>The outer productions\<close>

record recs =
  rc_expr :: "expr parse"
  rc_else :: "expr parse"
  rc_range :: "expr parse"
  rc_prefix :: "expr parse"
  rc_if :: "expr parse"
  rc_literal :: "expr parse"
  rc_type :: "ty parse"
  rc_closed :: "pattern parse"
  rc_block :: "code_block parse"
  rc_attr :: "expr attr parse"
  rc_item :: "item parse"

text \<open>A node from \<open>start\<close> to the end of the token before.\<close>

definition mk_node :: "nat \<Rightarrow> 'k \<Rightarrow> 'k ast_node parse" where
  "mk_node start k s = Inr (Node k (mk_span start (prev_end s)), s)"

definition spanned :: "nat \<Rightarrow> (span \<Rightarrow> 'a) \<Rightarrow> 'a parse" where
  "spanned start f s = Inr (f (mk_span start (prev_end s)), s)"

text \<open>\<open>Some\<close> of what a production finds, if the token is there.\<close>

definition opt_eat :: "tok \<Rightarrow> 'a parse \<Rightarrow> 'a option parse" where
  "opt_eat t m = if_eat t (bind m (\<lambda>x. ret (Some x))) (ret None)"

text \<open>The value of the token before, when \<open>take\<close> follows; \<open>param_mode?\<close>.\<close>

definition parse_param_mode :: "param_mode option parse" where
  "parse_param_mode = if_eat (kw ''mut'') (ret (Some PmMut)) (if_eat (kw ''take'') (ret (Some PmTake)) (ret None))"

text \<open>\<open>path ::= IDENT ('.' IDENT)*\<close>.\<close>

definition parse_path :: "ast_path parse" where
  "parse_path =
     bind expect_ident (\<lambda>first.
     repeat_p (\<lambda>segments s.
       if at_p Dot s \<and> is_ident (tok_at 1 s)
       then bind advance (\<lambda>_. bind expect_ident (\<lambda>i. ret (Continue (segments @ [i])))) s
       else ret (Break (Path segments (mk_span (span_start (id_span first)) (span_end (id_span (last segments)))))) s)
     [first])"

end
