(* ===== verification/ParseType.thy ===== *)
theory ParseType
  imports ParseBase
begin

text \<open>String literals with their interpolations, types and error rows of \<open>parse.rs\<close>.\<close>

section \<open>String literals\<close>

definition fmt_parts :: "recs \<Rightarrow> expr fmt_part list parse" where
  "fmt_parts r =
     repeat_p (\<lambda>fmt s.
       case cur s of
         Some (FmtText t) \<Rightarrow> seqp advance (ret (Continue (fmt @ [FmtPartText t]))) s
       | Some InterpStart \<Rightarrow>
           seqp advance (bind (with_struct_lit True (rc_expr r)) (\<lambda>inner.
             seqp (expect_tok InterpEnd) (ret (Continue (fmt @ [FmtPartInterp inner]))))) s
       | _ \<Rightarrow> ret (Break fmt) s) []"

definition parse_interpolation :: "recs \<Rightarrow> expr interpolation parse" where
  "parse_interpolation r =
     bind (expect_tok InterpStart) (\<lambda>open.
     bind (with_struct_lit True (rc_expr r)) (\<lambda>e.
     bind (opt_eat FmtStart (fmt_parts r)) (\<lambda>fmt.
     bind (expect_tok InterpEnd) (\<lambda>close.
     ret (Interpolation e fmt (mk_span (span_start open) (span_end close)))))))"

definition parse_string_literal :: "recs \<Rightarrow> expr str_lit parse" where
  "parse_string_literal r s =
     (case cur s of
        Some (StrStart k) \<Rightarrow>
          bind advance (\<lambda>open.
          repeat_p (\<lambda>parts s.
            case cur s of
              Some (StrText t) \<Rightarrow> seqp advance (ret (Continue (parts @ [SpText t]))) s
            | Some InterpStart \<Rightarrow> bind (parse_interpolation r) (\<lambda>i. ret (Continue (parts @ [SpInterp i]))) s
            | Some StrEnd \<Rightarrow>
                bind advance (\<lambda>close. ret (Break (StrLit k parts (mk_span (span_start open) (span_end close))))) s
            | _ \<Rightarrow> unexpected s) []) s
      | _ \<Rightarrow> unexpected s)"

section \<open>Lists with commas\<close>

text \<open>\<open>loop { xs.push(m); if !eat(,) || at(closer) { break } }\<close>.\<close>

definition comma_seq :: "punct \<Rightarrow> 'a parse \<Rightarrow> 'a list parse" where
  "comma_seq closer m =
     repeat_p (\<lambda>xs. bind m (\<lambda>x.
       if_eat (Punct Comma)
         (\<lambda>s. ret (if at_p closer s then Break (xs @ [x]) else Continue (xs @ [x])) s)
         (ret (Break (xs @ [x]))))) []"

text \<open>The same between parentheses, possibly empty.\<close>

definition comma_seq_opt :: "punct \<Rightarrow> 'a parse \<Rightarrow> 'a list parse" where
  "comma_seq_opt closer m s = (if at_p closer s then ret [] s else comma_seq closer m s)"

text \<open>\<open>loop { skip terminators; if at(closer) { break }; xs.push(m); if !eat(,) { break } }\<close>, with the
  terminators after an element skipped too when \<open>after\<close> says so.\<close>

definition comma_lines :: "punct \<Rightarrow> bool \<Rightarrow> 'a parse \<Rightarrow> 'a list parse" where
  "comma_lines closer after m =
     repeat_p (\<lambda>xs. seqp skip_inserted_terms (\<lambda>s.
       if at_p closer s then ret (Break xs) s
       else bind m (\<lambda>x.
              seqp (if after then skip_inserted_terms else ret ())
                (if_eat (Punct Comma) (ret (Continue (xs @ [x]))) (ret (Break (xs @ [x]))))) s)) []"

section \<open>Error rows and result types\<close>

definition row_payload :: "recs \<Rightarrow> ty list parse" where
  "row_payload r =
     if_eat (Punct LParen)
       (bind (comma_seq RParen (rc_type r)) (\<lambda>ts. seqp (expect_p RParen) (ret ts))) (ret [])"

definition declaration_keywords :: "string list" where
  "declaration_keywords =
     [''fn'', ''let'', ''var'', ''const'', ''struct'', ''enum'', ''type'', ''trait'', ''impl'', ''use'', ''import'', ''pub'',
      ''extern'', ''export'', ''comptime'']"

definition parse_error_row :: "recs \<Rightarrow> ty error_row parse" where
  "parse_error_row r =
     bind (expect_p LBrace) (\<lambda>open.
     bind (repeat_p (\<lambda>entries. seqp skip_inserted_terms (\<lambda>s.
         if at_p RBrace s then ret (Break (entries, None)) s
         else if at_p DotDot s
         then bind advance (\<lambda>dots. seqp (eat_p Comma) (ret (Break (entries, Some dots)))) s
         else if at_any_kw declaration_keywords s
         then fail_at E_UNEXPECTED_EOF (mk_span (span_start open) (span_start open + 1)) s
         else bind parse_path (\<lambda>p.
              bind (row_payload r) (\<lambda>payload.
              bind (spanned (span_start (pt_span p)) (RowEntry p payload)) (\<lambda>e.
              if_eat (Punct Comma) (ret (Continue (entries @ [e]))) (ret (Break (entries @ [e], None)))))) s)) [])
       (\<lambda>(entries, open_at).
     seqp skip_inserted_terms
     (bind (expect_p RBrace) (\<lambda>close.
      ret (ErrorRow entries (open_at \<noteq> None) open_at False (mk_span (span_start open) (span_end close)))))))"

definition parse_row_or_bare_path :: "recs \<Rightarrow> ty error_row parse" where
  "parse_row_or_bare_path r s =
     (if at_p LBrace s then parse_error_row r s
      else if \<not> is_ident (cur s) then unexpected s
      else bind parse_path (\<lambda>p. ret (ErrorRow [RowEntry p [] (pt_span p)] False None True (pt_span p))) s)"

definition parse_ret_type :: "recs \<Rightarrow> ty ret_type parse" where
  "parse_ret_type r =
     bind (rc_type r) (\<lambda>t.
     bind (opt_eat (Punct Bang) (parse_row_or_bare_path r)) (\<lambda>row.
     spanned (span_start (nspan t)) (RetType t row)))"

section \<open>Types\<close>

definition prefix_type_kw :: "parser \<Rightarrow> type_prefix option" where
  "prefix_type_kw s =
     (if at_kw ''shared'' s then Some PtShared else if at_kw ''handle'' s then Some PtHandle
      else if at_kw ''weak'' s then Some PtWeak else if at_kw ''distinct'' s then Some PtDistinct else None)"

text \<open>Whether the type argument ahead has a binary arithmetic operator at bracket depth 0.\<close>

fun const_scan :: "int \<Rightarrow> bool \<Rightarrow> token list \<Rightarrow> bool" where
  "const_scan depth operand [] = False"
| "const_scan depth operand (t # ts) =
     (case tk_tok t of
        Punct p \<Rightarrow>
          if p = LBracket \<or> p = LParen \<or> p = LBrace then const_scan (depth + 1) False ts
          else if p = RParen \<or> p = RBrace then const_scan (depth - 1) True ts
          else if p = RBracket then (if depth = 0 then False else const_scan (depth - 1) True ts)
          else if p = Comma \<and> depth = 0 then False
          else if p = Plus \<or> p = Minus \<or> p = Star \<or> p = Slash \<or> p = Percent
          then (if depth = 0 \<and> operand then True else const_scan depth False ts)
          else const_scan depth False ts
      | Ident _ \<Rightarrow> const_scan depth True ts
      | IntLit _ \<Rightarrow> const_scan depth True ts
      | FloatLit _ \<Rightarrow> const_scan depth True ts
      | _ \<Rightarrow> const_scan depth False ts)"

definition type_arg_is_const_expr :: "parser \<Rightarrow> bool" where
  "type_arg_is_const_expr s = const_scan 0 False (drop (ps_pos s) (ps_tokens s))"

definition at_literal :: "parser \<Rightarrow> bool" where
  "at_literal s =
     (case cur s of
        Some (IntLit _) \<Rightarrow> True | Some (FloatLit _) \<Rightarrow> True | Some (CharLit _) \<Rightarrow> True | Some (StrStart _) \<Rightarrow> True
      | _ \<Rightarrow> at_any_kw [''true'', ''false''] s)"

definition parse_type_args :: "recs \<Rightarrow> (ty, expr) type_arg list parse" where
  "parse_type_args r =
     seqp (expect_p LBracket)
     (bind (with_struct_lit True (comma_lines RBracket False (\<lambda>s.
         if at_literal s \<or> type_arg_is_const_expr s
         then bind (rc_expr r) (\<lambda>e. ret (TaExpr e)) s
         else bind (rc_type r) (\<lambda>t. ret (TaType t)) s))) (\<lambda>args.
      seqp (expect_p RBracket) (ret args)))"

definition parse_fn_type :: "recs \<Rightarrow> type_kind parse" where
  "parse_fn_type r =
     seqp advance
     (seqp (expect_p LParen)
     (bind (comma_seq_opt RParen (rc_type r)) (\<lambda>params.
      seqp (expect_p RParen)
      (bind (opt_eat (Punct Arrow) (parse_ret_type r)) (\<lambda>t. ret (TFn params t))))))"

definition parse_type_kind :: "recs \<Rightarrow> type_kind parse" where
  "parse_type_kind r s =
     (if at_p Bang s then seqp advance (bind (rc_type r) (\<lambda>t. ret (TErrorUnion t))) s
      else if at_p Star s then seqp advance (bind (rc_type r) (\<lambda>t. ret (TRawPointer t))) s
      else if at_kw ''dyn'' s then seqp advance (bind parse_path (\<lambda>p. ret (TDyn p))) s
      else if at_kw ''type'' s then seqp advance (ret TTypeOfTypes) s
      else if at_kw ''region'' s then seqp advance (ret TRegion) s
      else if at_kw ''fn'' s then parse_fn_type r s
      else if at_p LParen s
      then seqp advance (bind (comma_seq_opt RParen (rc_type r)) (\<lambda>ts. seqp (expect_p RParen) (ret (TTuple ts)))) s
      else if is_ident (cur s)
      then bind parse_path (\<lambda>p.
           bind (\<lambda>s. if at_p LBracket s then parse_type_args r s else ret [] s) (\<lambda>args. ret (TPath p args))) s
      else expected_type s)"

definition parse_type_inner :: "recs \<Rightarrow> ty parse" where
  "parse_type_inner r s =
     (case prefix_type_kw s of
        Some k \<Rightarrow>
          seqp advance (bind (rc_type r) (\<lambda>t. ret (Node (TPrefixed k t) (mk_span (cur_start s) (span_end (nspan t)))))) s
      | None \<Rightarrow>
          bind (parse_type_kind r) (\<lambda>k.
          bind (mk_node (cur_start s) k)
          (repeat_p (\<lambda>t s'.
             if at_p Bang s' \<and> (tok_at 1 s' = Some (Punct LBrace) \<or> is_ident (tok_at 1 s'))
             then seqp advance (bind (parse_row_or_bare_path r) (\<lambda>row.
                  bind (mk_node (cur_start s) (TFallible t row)) (\<lambda>t'. ret (Continue t')))) s'
             else ret (Break t) s'))) s)"

definition parse_type :: "recs \<Rightarrow> ty parse" where
  "parse_type r = nested (parse_type_inner r)"

end
