(* ===== verification/ParseStmt.thy ===== *)
theory ParseStmt
  imports ParseType
begin

text \<open>
  Attributes with the origin marker and the conditional-compilation predicate of \<open>attrs.rs\<close>, patterns up to
  their closed parts, bindings, statements and blocks of \<open>parse.rs\<close>.
\<close>

section \<open>What attributes decide\<close>

definition is_named :: "string \<Rightarrow> 'e attr \<Rightarrow> bool" where
  "is_named name a \<longleftrightarrow> is_single (at_path a) \<and> id_name (hd (pt_segments (at_path a))) = ascii name"

text \<open>The origin marker, over all attributes of a node: exactly one well-formed \<open>index\<close>.\<close>

fun index_marker :: "expr attr list \<Rightarrow> nat option \<Rightarrow> nat option" where
  "index_marker [] found = found"
| "index_marker (a # as) found =
     (if \<not> is_named ''index'' a then index_marker as found
      else case at_input a of
             Some (AiArgs [AaLiteral l]) \<Rightarrow>
               (case kind l of
                  EInt t \<Rightarrow>
                    if t = ascii ''0'' \<or> t = ascii ''1''
                    then (if found \<noteq> None then None else index_marker as (Some (if t = ascii ''0'' then 0 else 1)))
                    else None
                | _ \<Rightarrow> None)
           | _ \<Rightarrow> None)"

definition index_origin_of :: "expr attribute list \<Rightarrow> nat option" where
  "index_origin_of attrs = index_marker (concat (map ab_attrs attrs)) None"

definition KNOWN_TARGETS :: "string list" where
  "KNOWN_TARGETS =
     [''x86_64-unknown-linux-gnu'', ''aarch64-unknown-linux-gnu'', ''aarch64-apple-darwin'', ''x86_64-pc-windows-msvc'',
      ''x86_64-unknown-freebsd'', ''x86_64-unknown-none'', ''x86_64'', ''aarch64'']"

datatype cfg = CfgTarget chars | CfgBad span

definition plain_string :: "expr \<Rightarrow> chars option" where
  "plain_string e = (case kind e of EStr l \<Rightarrow> as_plain_text l | _ \<Rightarrow> None)"

definition read_cfg :: "expr attr \<Rightarrow> cfg" where
  "read_cfg a =
     (case at_input a of
        Some (AiArgs [AaNested p]) \<Rightarrow>
          if \<not> is_named ''target'' p then CfgBad (at_span p)
          else (case at_input p of
                  Some (AiLiteral v) \<Rightarrow>
                    (case plain_string v of
                       Some t \<Rightarrow> if t \<in> set (map ascii KNOWN_TARGETS) then CfgTarget t else CfgBad (at_span p)
                     | None \<Rightarrow> CfgBad (at_span p))
                | _ \<Rightarrow> CfgBad (at_span p))
      | _ \<Rightarrow> CfgBad (at_span a))"

definition target_holds :: "chars \<Rightarrow> chars \<Rightarrow> bool" where
  "target_holds build target \<longleftrightarrow> target = build \<or> takeWhile (\<lambda>c. c \<noteq> cp CHR ''-'') build = target"

definition cfg_keeps :: "chars \<Rightarrow> expr attribute list \<Rightarrow> bool" where
  "cfg_keeps build attrs \<longleftrightarrow>
     list_all (\<lambda>a. case read_cfg a of CfgTarget t \<Rightarrow> target_holds build t | CfgBad _ \<Rightarrow> True)
       (filter (is_named ''cfg'') (concat (map ab_attrs attrs)))"

section \<open>Attributes\<close>

text \<open>\<open>while self.eat(sep) { xs.push(m) }\<close>.\<close>

definition more :: "punct \<Rightarrow> 'a parse \<Rightarrow> 'a list \<Rightarrow> 'a list parse" where
  "more sep m = repeat_p (\<lambda>xs. if_eat (Punct sep) (bind m (\<lambda>x. ret (Continue (xs @ [x])))) (ret (Break xs)))"

text \<open>One bracket group after its opener.\<close>

definition attr_group :: "expr attr parse \<Rightarrow> nat \<Rightarrow> expr attribute parse" where
  "attr_group m start =
     bind m (\<lambda>a.
     bind (repeat_p (\<lambda>as. if_eat (Punct Comma)
         (\<lambda>s. if at_p RBracket s then ret (Break as) s else bind m (\<lambda>a'. ret (Continue (as @ [a']))) s)
         (ret (Break as))) [a]) (\<lambda>as.
     bind (expect_p RBracket) (\<lambda>close. ret (Attribute as (mk_span start (span_end close))))))"

definition parse_attributes :: "recs \<Rightarrow> expr attribute list parse" where
  "parse_attributes r =
     repeat_p (\<lambda>out. seqp skip_inserted_terms (\<lambda>s.
       if at_p HashBracket s
       then bind advance (\<lambda>open. bind (attr_group (rc_attr r) (span_start open)) (\<lambda>g. ret (Continue (out @ [g])))) s
       else ret (Break out) s)) []"

definition parse_visibility :: "visibility option parse" where
  "parse_visibility s =
     (if \<not> at_kw ''pub'' s then ret None s
      else bind advance (\<lambda>pub.
           bind (if_eat (Punct LParen)
               (if_eat (Ident (ascii ''pkg'')) (seqp (expect_p RParen) (ret True)) unexpected) (ret False)) (\<lambda>package_only.
           spanned (span_start pub) (\<lambda>sp. Some (Visibility package_only sp)))) s)"

section \<open>Patterns\<close>

definition parse_pattern :: "recs \<Rightarrow> pattern parse" where
  "parse_pattern r =
     bind (rc_closed r) (\<lambda>first s.
       if at_p Pipe s
       then bind (more Pipe (rc_closed r) [first]) (\<lambda>alts. mk_node (span_start (nspan first)) (POr alts)) s
       else ret first s)"

section \<open>Bindings\<close>

definition binding_keyword :: "binding_kind parse" where
  "binding_keyword =
     if_eat (kw ''let'') (ret BkLet) (if_eat (kw ''var'') (ret BkVar) (seqp (expect_kw ''const'') (ret BkConst)))"

definition binder_pattern :: "recs \<Rightarrow> binding_kind \<Rightarrow> pattern parse" where
  "binder_pattern r k =
     (if k = BkConst then bind expect_ident (\<lambda>i. ret (Node (PBinding i) (id_span i))) else parse_pattern r)"

text \<open>One binder of a group, from \<open>start\<close>.\<close>

definition parse_binder :: "recs \<Rightarrow> binding_kind \<Rightarrow> nat \<Rightarrow> (pattern, ty, expr) binding parse" where
  "parse_binder r k start =
     bind (binder_pattern r k) (\<lambda>p.
     bind (opt_eat (Punct Colon) (rc_type r)) (\<lambda>t s.
       if \<not> at_p Assign s \<and> (cur s = None \<or> at_p Comma s \<or> is_term (cur s)) then error_here E_UNEXPECTED_TOKEN s
       else seqp (expect_p Assign)
            (bind (with_struct_lit True (rc_expr r)) (\<lambda>v. spanned start (Binding k p t v))) s))"

definition end_last_at :: "nat \<Rightarrow> (pattern, ty, expr) binding list \<Rightarrow> (pattern, ty, expr) binding list" where
  "end_last_at e bs =
     (if bs = [] then []
      else butlast bs @ [let b = last bs in
             Binding (bi_kind b) (bi_pattern b) (bi_ty b) (bi_value b) (mk_span (span_start (bi_span b)) e)])"

definition parse_binding_group :: "recs \<Rightarrow> (pattern, ty, expr) binding list parse" where
  "parse_binding_group r s =
     bind binding_keyword (\<lambda>k.
     bind (repeat_p (\<lambda>out s'.
         bind (parse_binder r k (if out = [] then cur_start s else cur_start s')) (\<lambda>b.
           if k = BkConst then ret (Break (out @ [b]))
           else if_eat (Punct Comma) (ret (Continue (out @ [b]))) (ret (Break (out @ [b])))) s') []) (\<lambda>out.
     seqp expect_term (\<lambda>s'. ret (end_last_at (prev_end s') out) s'))) s"

section \<open>Statements\<close>

definition at_item_start :: "parser \<Rightarrow> bool" where
  "at_item_start s \<longleftrightarrow>
     at_p HashBracket s \<or>
     at_any_kw [''pub'', ''fn'', ''let'', ''var'', ''const'', ''type'', ''struct'', ''enum'', ''trait'', ''impl'', ''use'',
       ''import'', ''comptime'', ''extern'', ''export''] s"

definition assign_op_of :: "tok option \<Rightarrow> assign_op option" where
  "assign_op_of t =
     (case t of
        Some (Punct p) \<Rightarrow>
          (case p of
             Assign \<Rightarrow> Some AsAssign | PlusEq \<Rightarrow> Some AsAdd | MinusEq \<Rightarrow> Some AsSub | StarEq \<Rightarrow> Some AsMul
           | SlashEq \<Rightarrow> Some AsDiv | PercentEq \<Rightarrow> Some AsRem | AmpEq \<Rightarrow> Some AsBitAnd | PipeEq \<Rightarrow> Some AsBitOr
           | CaretEq \<Rightarrow> Some AsBitXor | ShlEq \<Rightarrow> Some AsShl | ShrEq \<Rightarrow> Some AsShr | _ \<Rightarrow> None)
      | _ \<Rightarrow> None)"

definition parse_assume :: "recs \<Rightarrow> expr attribute list \<Rightarrow> nat \<Rightarrow> stmt parse" where
  "parse_assume r attrs start =
     seqp advance
     (if_eat (Ident (ascii ''noalias''))
       (bind (rc_expr r) (\<lambda>e.
        bind (more Comma (rc_expr r) [e]) (\<lambda>operands s.
          if length operands < 2 then fail_at E_ASSUME_ARITY (mk_span start (prev_end s)) s
          else seqp expect_term (spanned start (Stmt attrs (SAssumeNoalias operands))) s)))
       unexpected)"

definition push_pending_stmts :: "stmt list \<Rightarrow> unit parse" where
  "push_pending_stmts xs s = Inr ((), s\<lparr>ps_pending_stmts := ps_pending_stmts s @ xs\<rparr>)"

definition parse_let :: "recs \<Rightarrow> expr attribute list \<Rightarrow> stmt parse" where
  "parse_let r attrs =
     bind (parse_binding_group r) (\<lambda>bs.
     seqp (push_pending_stmts (map (\<lambda>b. Stmt attrs (SBinding b) (bi_span b)) (tl bs)))
     (ret (Stmt attrs (SBinding (hd bs)) (bi_span (hd bs)))))"

text \<open>An expression statement, or the assignment it turns out to begin.\<close>

definition parse_expr_stmt :: "recs \<Rightarrow> expr attribute list \<Rightarrow> nat \<Rightarrow> stmt parse" where
  "parse_expr_stmt r attrs start =
     bind (rc_expr r) (\<lambda>e s.
       case assign_op_of (cur s) of
         Some aop \<Rightarrow>
           seqp advance (\<lambda>s1.
             let moves = (aop = AsAssign \<and> is_index_place e \<and> at_kw ''take'' s1) in
             seqp (if moves then seqp advance (ret ()) else ret ())
             (bind (rc_expr r) (\<lambda>v. seqp expect_term (spanned start (Stmt attrs (SAssign e aop v moves))))) s1) s
       | None \<Rightarrow> seqp expect_term (spanned start (Stmt attrs (SExpr e))) s)"

definition parse_stmt_inner :: "recs \<Rightarrow> expr attribute list \<Rightarrow> stmt parse" where
  "parse_stmt_inner r attrs =
     seqp skip_inserted_terms (\<lambda>s.
       let start = cur_start s in
       if at_p HashBangBracket s then error_here E_INNER_ATTR_MISPLACED s
       else if at_kw ''assume'' s then parse_assume r attrs start s
       else if at_any_kw [''defer'', ''errdefer''] s
       then seqp advance (bind (rc_expr r) (\<lambda>e.
              seqp expect_term (spanned start (Stmt attrs (SDefer (at_kw ''errdefer'' s) e))))) s
       else if at_any_kw [''let'', ''var'', ''const''] s then parse_let r attrs s
       else if (if at_kw ''fn'' s then is_ident (tok_at 1 s) else at_item_start s)
       then bind (rc_item r) (\<lambda>i. ret (Stmt attrs (SItem i) (it_span i))) s
       else parse_expr_stmt r attrs start s)"

definition parse_stmt :: "recs \<Rightarrow> stmt parse" where
  "parse_stmt r = bind (parse_attributes r) (\<lambda>attrs. with_origin (index_origin_of attrs) (parse_stmt_inner r attrs))"

section \<open>Blocks\<close>

text \<open>The source's loop pops pending statements one at a time before it looks at the next token; here they
  are taken over at once.\<close>

definition drain_stmts :: "stmt list \<Rightarrow> stmt list parse" where
  "drain_stmts xs s = Inr (xs @ ps_pending_stmts s, s\<lparr>ps_pending_stmts := []\<rparr>)"

definition block_stmts :: "recs \<Rightarrow> stmt list parse" where
  "block_stmts r =
     repeat_p (\<lambda>stmts. bind (drain_stmts stmts) (\<lambda>stmts'. seqp skip_inserted_terms (\<lambda>s.
       case cur s of
         None \<Rightarrow> ret (Break stmts') s
       | Some t \<Rightarrow>
           if t = Punct RBrace then ret (Break stmts') s
           else if t = Term True then error_here E_EMPTY_STATEMENT s
           else if is_binary_only t then error_here E_LEADING_OPERATOR s
           else bind (parse_stmt r) (\<lambda>st. ret (Continue (stmts' @ [st]))) s))) []"

text \<open>A last expression statement without attributes is the value of the block.\<close>

definition block_tail :: "stmt list \<Rightarrow> stmt list \<times> expr option" where
  "block_tail stmts =
     (if stmts = [] then ([], None)
      else case (st_attrs (last stmts), st_kind (last stmts)) of
             ([], SExpr e) \<Rightarrow> (butlast stmts, Some e)
           | _ \<Rightarrow> (stmts, None))"

definition stmt_kept :: "chars \<Rightarrow> stmt \<Rightarrow> bool" where
  "stmt_kept build st \<longleftrightarrow>
     cfg_keeps build (st_attrs st) \<and> (case st_kind st of SItem i \<Rightarrow> cfg_keeps build (it_attrs i) | _ \<Rightarrow> True)"

definition parse_block_inner :: "recs \<Rightarrow> code_block parse" where
  "parse_block_inner r =
     bind (expect_p LBrace) (\<lambda>open.
     bind (block_stmts r) (\<lambda>all s.
       let (stmts, value) = block_tail all; kept = filter (stmt_kept (ps_target s)) stmts in
       bind (expect_p RBrace) (\<lambda>close. ret (Block kept value (mk_span (span_start open) (span_end close)))) s))"

definition parse_block :: "recs \<Rightarrow> code_block parse" where
  "parse_block r = nested (parse_block_inner r)"

end
