(* ===== verification/ParseExpr.thy ===== *)
theory ParseExpr
  imports ParseStmt
begin

text \<open>Expressions of \<open>parse.rs\<close>: primaries, the postfix chain and the climb of the operator table.\<close>

section \<open>The operator table\<close>

datatype assoc = AssocLeft | AssocRight | AssocNone

definition PRECEDENCE :: "(nat \<times> string list \<times> assoc) list" where
  "PRECEDENCE =
     [(2, [''('', ''['', ''.'', ''?''], AssocLeft), (4, [''as''], AssocLeft), (5, [''*'', ''/'', ''%''], AssocLeft),
      (6, [''+'', ''-''], AssocLeft), (7, [''<<'', ''>>''], AssocLeft), (8, [''&''], AssocLeft), (9, [''^''], AssocLeft),
      (10, [''|''], AssocLeft), (11, [''=='', ''!='', ''<'', ''>'', ''<='', ''>='', ''<=>''], AssocNone),
      (12, [''&&''], AssocLeft), (13, [''||''], AssocLeft), (14, [''..'', ''..=''], AssocNone), (15, [''else''], AssocRight)]"

definition tier_assoc :: "nat \<Rightarrow> assoc" where
  "tier_assoc tier = (case find (\<lambda>(t, _, _). t = tier) PRECEDENCE of Some (_, _, a) \<Rightarrow> a | None \<Rightarrow> AssocLeft)"

definition punct_op :: "punct \<Rightarrow> (nat \<times> binary_op) option" where
  "punct_op p =
     (case p of
        Star \<Rightarrow> Some (5, BMul) | Slash \<Rightarrow> Some (5, BDiv) | Percent \<Rightarrow> Some (5, BRem)
      | Plus \<Rightarrow> Some (6, BAdd) | Minus \<Rightarrow> Some (6, BSub) | Shl \<Rightarrow> Some (7, BShl) | Shr \<Rightarrow> Some (7, BShr)
      | Amp \<Rightarrow> Some (8, BBitAnd) | Caret \<Rightarrow> Some (9, BBitXor) | Pipe \<Rightarrow> Some (10, BBitOr)
      | EqEq \<Rightarrow> Some (11, BEq) | Ne \<Rightarrow> Some (11, BNe) | Lt \<Rightarrow> Some (11, BLt) | Gt \<Rightarrow> Some (11, BGt)
      | Le \<Rightarrow> Some (11, BLe) | Ge \<Rightarrow> Some (11, BGe) | Spaceship \<Rightarrow> Some (11, BCmp)
      | AndAnd \<Rightarrow> Some (12, BAnd) | OrOr \<Rightarrow> Some (13, BOr) | _ \<Rightarrow> None)"

definition binary_op_at_tier :: "nat \<Rightarrow> parser \<Rightarrow> binary_op option" where
  "binary_op_at_tier tier s =
     (case cur s of
        Some (Punct p) \<Rightarrow> (case punct_op p of Some (t, b) \<Rightarrow> if t = tier then Some b else None | None \<Rightarrow> None)
      | _ \<Rightarrow> None)"

section \<open>Members and arguments\<close>

definition parse_u64 :: "chars \<Rightarrow> 64 word option" where
  "parse_u64 cs =
     (if cs = [] \<or> \<not> list_all is_ascii_digit cs then None
      else let v = foldl (\<lambda>n c. 10 * n + (c - cp CHR ''0'')) 0 cs in if v < 2 ^ 64 then Some (word_of_nat v) else None)"

definition parse_member :: "member parse" where
  "parse_member s =
     (case cur s of
        Some (Ident name) \<Rightarrow> bind advance (\<lambda>sp. ret (MbNamed (Name name sp))) s
      | Some (Kw k) \<Rightarrow> bind advance (\<lambda>sp. ret (MbNamed (Name k sp))) s
      | Some (IntLit t) \<Rightarrow>
          bind advance (\<lambda>sp. ret (MbIndex
            (case parse_u64 (filter (\<lambda>c. c \<noteq> cp CHR ''_'') t) of Some v \<Rightarrow> v | None \<Rightarrow> 0) sp)) s
      | _ \<Rightarrow> unexpected s)"

definition parse_arg :: "recs \<Rightarrow> expr arg parse" where
  "parse_arg r s =
     bind parse_param_mode (\<lambda>m. bind (rc_expr r) (\<lambda>e. spanned (cur_start s) (Arg m e))) s"

definition parse_call_args :: "recs \<Rightarrow> expr arg list parse" where
  "parse_call_args r =
     bind (with_struct_lit True (comma_lines RParen True (parse_arg r))) (\<lambda>args.
     seqp skip_inserted_terms (seqp (expect_p RParen) (ret args)))"

definition parse_index_args :: "recs \<Rightarrow> (expr, ty) index_arg list parse" where
  "parse_index_args r =
     bind (with_struct_lit True (comma_lines RBracket True (\<lambda>s.
         if prefix_type_kw s \<noteq> None \<or> at_kw ''region'' s
         then bind (rc_type r) (\<lambda>t. ret (IaType t)) s
         else bind (parse_arg r) (\<lambda>a. ret (IaValue a)) s))) (\<lambda>args.
     seqp skip_inserted_terms (seqp (expect_p RBracket) (ret args)))"

section \<open>Struct literals\<close>

definition path_of :: "expr \<Rightarrow> ast_path option" where
  "path_of e = (case kind e of EPath p \<Rightarrow> Some p | _ \<Rightarrow> None)"

definition struct_lit_in_condition :: "parser \<Rightarrow> lex_diag option" where
  "struct_lit_in_condition s =
     (if is_ident (tok_at 1 s) \<and> (tok_at 2 s = Some (Punct Colon) \<or> tok_at 2 s = Some (Punct Comma))
      then Some \<lparr>ld_code = E_STRUCT_LIT_IN_COND, ld_span = cur_span s\<rparr> else None)"

definition field_value :: "recs \<Rightarrow> ident \<Rightarrow> expr parse" where
  "field_value r name =
     if_eat (Punct Colon) (rc_expr r) (ret (Node (EPath (Path [name] (id_span name))) (id_span name)))"

definition parse_field_init :: "recs \<Rightarrow> expr field_init parse" where
  "parse_field_init r =
     bind expect_ident (\<lambda>name. bind (field_value r name) (\<lambda>v. spanned (span_start (id_span name)) (FieldInit name v)))"

definition parse_struct_lit_body :: "recs \<Rightarrow> ast_path \<Rightarrow> nat \<Rightarrow> expr parse" where
  "parse_struct_lit_body r p start =
     seqp (expect_p LBrace)
     (bind (with_struct_lit True (comma_lines RBrace True (parse_field_init r))) (\<lambda>fields.
      seqp skip_inserted_terms (seqp (expect_list_close RBrace) (mk_node start (EStructLit p fields)))))"

section \<open>Lists and parentheses\<close>

definition parse_list_literal :: "recs \<Rightarrow> expr parse" where
  "parse_list_literal r =
     bind (expect_p LBracket) (\<lambda>open.
     bind (with_struct_lit True (comma_lines RBracket True (rc_expr r))) (\<lambda>items.
     seqp skip_inserted_terms (seqp (expect_p RBracket) (mk_node (span_start open) (EList items)))))"

text \<open>The comma decides: whether the last element was followed by one is part of the result.\<close>

definition paren_items :: "recs \<Rightarrow> (expr list \<times> bool) parse" where
  "paren_items r =
     repeat_p (\<lambda>(xs, comma). seqp skip_inserted_terms (\<lambda>s.
       if at_p RParen s then ret (Break (xs, comma)) s
       else bind (rc_expr r) (\<lambda>x. seqp skip_inserted_terms
              (if_eat (Punct Comma) (ret (Continue (xs @ [x], True))) (ret (Break (xs @ [x], comma))))) s)) ([], False)"

definition parse_paren_or_tuple :: "recs \<Rightarrow> expr parse" where
  "parse_paren_or_tuple r =
     bind (expect_p LParen) (\<lambda>open.
     bind (with_struct_lit True (paren_items r)) (\<lambda>(items, comma).
     seqp skip_inserted_terms
     (seqp (expect_p RParen)
       (mk_node (span_start open) (if length items = 1 \<and> \<not> comma then EGroup (hd items) else ETuple items)))))"

definition parse_moded_receiver :: "recs \<Rightarrow> expr parse" where
  "parse_moded_receiver r =
     bind (expect_p LParen) (\<lambda>open.
     bind parse_param_mode (\<lambda>m.
     bind (with_struct_lit True (rc_expr r)) (\<lambda>place.
     seqp skip_inserted_terms
     (bind (expect_p RParen) (\<lambda>close s.
       let sp = mk_span (span_start open) (span_end close) in
       if \<not> at_p Dot s then fail_at E_MODED_RECEIVER_DETACHED sp s
       else ret (Node (EModedReceiver (the m) place) sp) s)))))"

section \<open>Control flow\<close>

abbreviation block_of :: "recs \<Rightarrow> code_block parse" where
  "block_of r \<equiv> with_struct_lit True (rc_block r)"

definition at_expr_end :: "parser \<Rightarrow> bool" where
  "at_expr_end s \<longleftrightarrow>
     (case cur s of
        None \<Rightarrow> True
      | Some t \<Rightarrow> is_term (Some t) \<or> t \<in> {InterpEnd, FmtStart} \<or>
          t \<in> {Punct RBrace, Punct RParen, Punct RBracket, Punct Comma, Punct FatArrow})"

definition range_end_follows :: "parser \<Rightarrow> bool" where
  "range_end_follows s \<longleftrightarrow> \<not> at_expr_end s \<and> \<not> at_kw ''else'' s"

definition block_expr :: "recs \<Rightarrow> expr parse" where
  "block_expr r s = bind (block_of r) (\<lambda>b. mk_node (cur_start s) (EBlock b)) s"

definition parse_while :: "recs \<Rightarrow> expr parse" where
  "parse_while r =
     bind (expect_kw ''while'') (\<lambda>k.
     bind (with_struct_lit False (rc_expr r)) (\<lambda>c.
     bind (block_of r) (\<lambda>b. mk_node (span_start k) (EWhile c b))))"

definition parse_for :: "recs \<Rightarrow> expr parse" where
  "parse_for r =
     bind (expect_kw ''for'') (\<lambda>k.
     bind (parse_pattern r) (\<lambda>p.
     seqp (expect_kw ''in'')
     (bind (with_struct_lit False (rc_expr r)) (\<lambda>i.
      bind (block_of r) (\<lambda>b. mk_node (span_start k) (EFor p i b))))))"

definition parse_arm_body :: "recs \<Rightarrow> (expr \<times> bool) parse" where
  "parse_arm_body r s =
     (if at_p LBrace s then bind (block_expr r) (\<lambda>e. ret (e, True)) s
      else bind (rc_expr r) (\<lambda>e. ret (e, False)) s)"

text \<open>Whether another arm may follow. A terminator after an expression arm that another arm follows is refused
  where it stands.\<close>

definition consume_arm_separator :: "bool \<Rightarrow> bool parse" where
  "consume_arm_separator block_bodied =
     if_eat (Punct Comma) (ret True) (\<lambda>s.
       if \<not> is_term (cur s) then ret False s
       else if block_bodied then seqp skip_terms (ret True) s
       else seqp skip_terms (\<lambda>s'. if at_p RBrace s' \<or> cur s' = None then ret False s' else unexpected s) s)"

text \<open>The arms of a \<open>match\<close> or \<open>select\<close>, each followed by its separator.\<close>

definition arms_of :: "('a \<times> bool) parse \<Rightarrow> 'a list parse" where
  "arms_of m =
     repeat_p (\<lambda>arms. seqp skip_inserted_terms (\<lambda>s.
       if at_p RBrace s \<or> cur s = None then ret (Break arms) s
       else bind m (\<lambda>(a, block_bodied).
            bind (consume_arm_separator block_bodied) (\<lambda>go.
            ret (if go then Continue (arms @ [a]) else Break (arms @ [a])))) s)) []"

definition parse_match_arm :: "recs \<Rightarrow> ((pattern, expr) match_arm \<times> bool) parse" where
  "parse_match_arm r s =
     bind (parse_pattern r) (\<lambda>p.
     bind (opt_eat (kw ''if'') (with_struct_lit False (rc_expr r))) (\<lambda>guard.
     seqp (expect_p FatArrow)
     (bind (parse_arm_body r) (\<lambda>(body, blk).
      bind (spanned (cur_start s) (MatchArm p guard body blk)) (\<lambda>a. ret (a, blk)))))) s"

definition parse_match :: "recs \<Rightarrow> expr parse" where
  "parse_match r =
     bind (expect_kw ''match'') (\<lambda>k.
     bind (with_struct_lit False (rc_expr r)) (\<lambda>scrutinee.
     seqp (expect_p LBrace)
     (bind (with_struct_lit True (arms_of (parse_match_arm r))) (\<lambda>arms.
      seqp skip_inserted_terms (seqp (expect_p RBrace) (mk_node (span_start k) (EMatch scrutinee arms)))))))"

definition select_arm_head :: "recs \<Rightarrow> (pattern, expr) select_arm_kind parse" where
  "select_arm_head r s =
     (if at_ctx ''timeout'' s \<and> tok_at 1 s = Some (Punct LParen)
      then seqp advance (seqp advance (bind (rc_expr r) (\<lambda>e. seqp (expect_p RParen) (ret (SaTimeout e))))) s
      else bind (parse_pattern r) (\<lambda>p.
           if_eat (Ident (ascii ''from'')) (bind (rc_expr r) (\<lambda>c. ret (SaRecv p c))) unexpected) s)"

definition parse_select_arm :: "recs \<Rightarrow> ((pattern, expr) select_arm \<times> bool) parse" where
  "parse_select_arm r s =
     bind (select_arm_head r) (\<lambda>k.
     seqp (expect_p FatArrow)
     (bind (parse_arm_body r) (\<lambda>(body, blk).
      bind (spanned (cur_start s) (SelectArm k body blk)) (\<lambda>a. ret (a, blk))))) s"

definition parse_select :: "recs \<Rightarrow> expr parse" where
  "parse_select r =
     bind (expect_kw ''select'') (\<lambda>k.
     seqp (expect_p LBrace)
     (bind (with_struct_lit True (arms_of (parse_select_arm r))) (\<lambda>arms.
      seqp skip_inserted_terms (seqp (expect_p RBrace) (mk_node (span_start k) (ESelect arms))))))"

definition parse_when :: "recs \<Rightarrow> expr parse" where
  "parse_when r =
     bind (expect_kw ''when'') (\<lambda>k.
     seqp (expect_p LParen)
     (bind (with_struct_lit True (comma_lines RParen False (rc_expr r))) (\<lambda>operands.
      bind (expect_p RParen) (\<lambda>close.
      if length operands < 2 then fail_at E_WHEN_ARITY (mk_span (span_start k) (span_end close))
      else bind (block_of r) (\<lambda>b. mk_node (span_start k) (EWhen operands b))))))"

section \<open>Regions, unsafe code and assembly\<close>

definition at_region_cap :: "parser \<Rightarrow> bool" where
  "at_region_cap s \<longleftrightarrow> at_ctx ''cap'' s \<and> tok_at 1 s = Some (Punct Colon)"

definition parse_region_cap :: "recs \<Rightarrow> expr parse" where
  "parse_region_cap r s =
     (if \<not> at_region_cap s then unexpected s
      else seqp advance (seqp (expect_p Colon) (with_struct_lit True (rc_expr r))) s)"

definition parse_region_strategy :: "recs \<Rightarrow> ty region_strategy parse" where
  "parse_region_strategy r s =
     (if at_ctx ''rc'' s then bind advance (\<lambda>sp. ret (RsRc sp)) s
      else if at_ctx ''pool'' s
      then bind advance (\<lambda>k. seqp (expect_p LParen) (bind (rc_type r) (\<lambda>t.
             bind (expect_p RParen) (\<lambda>close. ret (RsPool t (mk_span (span_start k) (span_end close))))))) s
      else unexpected s)"

definition some_of :: "'a parse \<Rightarrow> 'a option parse" where
  "some_of m = bind m (\<lambda>x. ret (Some x))"

definition parse_region_value :: "recs \<Rightarrow> nat \<Rightarrow> expr parse" where
  "parse_region_value r start =
     seqp advance
     (bind (\<lambda>s.
         if at_p RParen s then ret (None, None) s
         else if at_region_cap s then bind (parse_region_cap r) (\<lambda>c. ret (None, Some c)) s
         else bind (parse_region_strategy r) (\<lambda>st.
              bind (opt_eat (Punct Comma) (parse_region_cap r)) (\<lambda>c. ret (Some st, c))) s) (\<lambda>(strategy, cap).
      seqp (expect_p RParen) (mk_node start (ERegionValue strategy cap))))"

definition opt_ident :: "ident option parse" where
  "opt_ident s = (if is_ident (cur s) then some_of expect_ident s else ret None s)"

definition parse_region_sugar :: "recs \<Rightarrow> nat \<Rightarrow> expr parse" where
  "parse_region_sugar r start =
     bind opt_ident (\<lambda>name.
     bind (\<lambda>s.
         if name \<noteq> None \<and> at_p LParen s
         then seqp advance (bind (parse_region_cap r) (\<lambda>c. seqp (expect_p RParen) (ret (Some c)))) s
         else ret None s) (\<lambda>cap.
     bind (opt_eat (Punct Colon) (parse_region_strategy r)) (\<lambda>strategy.
     bind (block_of r) (\<lambda>b. mk_node start (ERegionSugar name cap strategy b)))))"

definition parse_region :: "recs \<Rightarrow> expr parse" where
  "parse_region r =
     bind (expect_kw ''region'') (\<lambda>k s.
       if at_p LParen s then parse_region_value r (span_start k) s else parse_region_sugar r (span_start k) s)"

definition parse_captures :: "ident list parse" where
  "parse_captures =
     seqp advance
     (bind (repeat_p (\<lambda>names s.
         if at_p RBracket s then ret (Break names) s
         else bind expect_ident (\<lambda>n.
              if_eat (Punct Comma) (ret (Continue (names @ [n]))) (ret (Break (names @ [n])))) s) []) (\<lambda>names.
      seqp (expect_list_close RBracket) (ret names)))"

text \<open>The balanced tokens of inline C, up to the closing brace.\<close>

definition skip_braces :: "unit parse" where
  "skip_braces =
     repeat_p (\<lambda>depth s.
       if depth = 0 then ret (Break ()) s
       else case cur s of
              None \<Rightarrow> unexpected s
            | Some t \<Rightarrow>
                seqp advance (ret (Continue
                  (if t = Punct LBrace then depth + 1 else if t = Punct RBrace then depth - 1 else depth))) s) (1 :: nat)"

definition parse_unsafe :: "recs \<Rightarrow> expr parse" where
  "parse_unsafe r =
     bind (expect_kw ''unsafe'') (\<lambda>k s.
       if at_ctx ''c'' s
       then seqp advance (bind (\<lambda>s. if at_p LBracket s then parse_captures s else ret [] s) (\<lambda>captures.
              bind (expect_p LBrace) (\<lambda>open.
              seqp skip_braces (\<lambda>s'.
                mk_node (span_start k) (EUnsafeC captures (mk_span (span_end open) (span_start (prev_span s')))) s')))) s
       else bind (block_of r) (\<lambda>b. mk_node (span_start k) (EUnsafe b)) s)"

definition asm_direction :: "asm_dir parse" where
  "asm_direction =
     if_eat (kw ''in'') (ret AdIn) (if_eat (Ident (ascii ''out'')) (ret AdOut)
      (if_eat (Ident (ascii ''inout'')) (ret AdInOut) (if_eat (Ident (ascii ''lateout'')) (ret AdLateOut) unexpected)))"

definition parse_asm_operand :: "recs \<Rightarrow> expr asm_operand parse" where
  "parse_asm_operand r s =
     bind (\<lambda>s. if is_ident (cur s) \<and> tok_at 1 s = Some (Punct Assign)
              then bind expect_ident (\<lambda>i. seqp advance (ret (Some i))) s else ret None s) (\<lambda>name.
     bind asm_direction (\<lambda>d.
     seqp (expect_p LParen)
     (bind expect_ident (\<lambda>c.
      seqp (expect_p RParen)
      (bind (rc_expr r) (\<lambda>v. spanned (cur_start s) (AsmOperand name d c v))))))) s"

definition parse_asm :: "recs \<Rightarrow> expr parse" where
  "parse_asm r =
     bind (expect_kw ''asm'') (\<lambda>k.
     seqp (expect_p LBrace)
     (seqp skip_inserted_terms
     (bind (parse_string_literal r) (\<lambda>template.
      bind (repeat_p (\<lambda>ops. seqp skip_inserted_terms (if_eat (Punct Comma)
          (seqp skip_inserted_terms (\<lambda>s.
             if at_p RBrace s then ret (Break ops) s
             else bind (parse_asm_operand r) (\<lambda>x. ret (Continue (ops @ [x]))) s))
          (ret (Break ops)))) []) (\<lambda>ops.
      seqp skip_inserted_terms (seqp (expect_p RBrace) (mk_node (span_start k) (EAsm template ops))))))))"

section \<open>Closures\<close>

definition parse_closure_param :: "recs \<Rightarrow> ty closure_param parse" where
  "parse_closure_param r s =
     bind parse_param_mode (\<lambda>m.
     bind expect_ident (\<lambda>n.
     bind (opt_eat (Punct Colon) (rc_type r)) (\<lambda>t. spanned (cur_start s) (ClosureParam m n t)))) s"

definition parse_closure :: "recs \<Rightarrow> expr parse" where
  "parse_closure r =
     bind (expect_kw ''fn'') (\<lambda>k.
     seqp (expect_p LParen)
     (bind (with_struct_lit True (comma_lines RParen False (parse_closure_param r))) (\<lambda>params.
      seqp (expect_list_close RParen)
      (bind (\<lambda>s. if at_p LBrace s then bind (block_expr r) (\<lambda>e. ret (e, True)) s
               else bind (with_struct_lit True (rc_else r)) (\<lambda>e. ret (e, False)) s) (\<lambda>(body, blk).
       mk_node (span_start k) (EClosure params body blk))))))"

end
