(* ===== verification/ParsePrimary.thy ===== *)
theory ParsePrimary
  imports ParseExpr
begin

text \<open>
  The spine of expressions in \<open>parse.rs\<close>, from the primaries up to \<open>parse_expr\<close>. What a primary calls back to
  (conditions, blocks, operands) comes from \<open>recs\<close>; the tiers themselves call each other directly.
\<close>

section \<open>If\<close>

text \<open>A bare branch is a block without braces around one expression below the tier of \<open>else\<close>.\<close>

definition parse_jump_operand :: "recs \<Rightarrow> (expr option \<Rightarrow> expr_kind) \<Rightarrow> nat \<Rightarrow> expr parse" where
  "parse_jump_operand r k start =
     seqp advance
     (bind (\<lambda>s. if at_expr_end s \<or> at_kw ''else'' s then ret None s else some_of (rc_range r) s) (\<lambda>v. mk_node start (k v)))"

definition parse_bare_branch :: "recs \<Rightarrow> code_block parse" where
  "parse_bare_branch r s =
     (if at_any_kw [''let'', ''var'', ''const''] s then error_here E_UNEXPECTED_TOKEN s
      else bind (with_struct_lit True (\<lambda>s'.
             if at_kw ''return'' s' then parse_jump_operand r EReturn (cur_start s) s'
             else if at_kw ''break'' s' then parse_jump_operand r EBreak (cur_start s) s'
             else if at_kw ''continue'' s' then seqp advance (mk_node (cur_start s) EContinue) s'
             else rc_range r s')) (\<lambda>e. ret (Block [] (Some e) (nspan e))) s)"

definition bare_else :: "recs \<Rightarrow> expr option parse" where
  "bare_else r =
     if_eat (kw ''else'') (\<lambda>s.
       if at_kw ''if'' s then some_of (rc_if r) s
       else if at_p LBrace s then error_here E_UNEXPECTED_TOKEN s
       else bind (parse_bare_branch r) (\<lambda>b. ret (Some (Node (EBlock b) (bl_span b)))) s)
     (ret None)"

definition braced_else :: "recs \<Rightarrow> expr option parse" where
  "braced_else r s =
     (if at_kw ''else'' s \<and> (tok_at 1 s = Some (kw ''if'') \<or> tok_at 1 s = Some (Punct LBrace))
      then seqp advance (\<lambda>s'. if at_kw ''if'' s' then some_of (rc_if r) s' else some_of (block_expr r) s') s
      else ret None s)"

definition parse_if :: "recs \<Rightarrow> expr parse" where
  "parse_if r =
     bind (expect_kw ''if'') (\<lambda>k.
     bind (with_struct_lit False (rc_expr r)) (\<lambda>c.
     bind (eat (Ident (ascii ''then''))) (\<lambda>then_kw s.
       let bare = (\<not> at_p LBrace s) in
       bind (if \<not> bare then block_of r else if then_kw then parse_bare_branch r else unexpected) (\<lambda>t.
       bind (if bare then bare_else r else braced_else r) (\<lambda>e.
       mk_node (span_start k) (EIf c t e))) s)))"

section \<open>Primaries\<close>

definition token_expr :: "expr_kind \<Rightarrow> expr parse" where
  "token_expr k s = seqp advance (mk_node (cur_start s) k) s"

definition parse_in :: "recs \<Rightarrow> expr parse" where
  "parse_in r s =
     seqp advance (bind (with_struct_lit False (rc_expr r)) (\<lambda>e.
       bind (block_of r) (\<lambda>b. mk_node (cur_start s) (EIn e b)))) s"

definition parse_scope :: "recs \<Rightarrow> expr parse" where
  "parse_scope r s = seqp advance (bind opt_ident (\<lambda>n. bind (block_of r) (\<lambda>b. mk_node (cur_start s) (EScope n b)))) s"

definition parse_spawn :: "recs \<Rightarrow> expr parse" where
  "parse_spawn r s =
     seqp advance (seqp (expect_kw ''proc'') (bind parse_path (\<lambda>p.
       seqp (expect_p LParen) (bind (parse_call_args r) (\<lambda>args. mk_node (cur_start s) (ESpawnProc p args)))))) s"

definition parse_borrow :: "recs \<Rightarrow> expr parse" where
  "parse_borrow r s =
     seqp advance (bind (rc_prefix r) (\<lambda>place.
       if_eat (Ident (ascii ''from'')) (bind (rc_prefix r) (\<lambda>src. mk_node (cur_start s) (EBorrow place src))) unexpected)) s"

definition parse_keyword_expr :: "recs \<Rightarrow> chars \<Rightarrow> expr parse" where
  "parse_keyword_expr r k s =
     (if k = ascii ''true'' then token_expr (EBool True) s
      else if k = ascii ''false'' then token_expr (EBool False) s
      else if k = ascii ''if'' then parse_if r s
      else if k = ascii ''match'' then parse_match r s
      else if k = ascii ''for'' then parse_for r s
      else if k = ascii ''while'' then parse_while r s
      else if k = ascii ''loop'' then seqp advance (bind (block_of r) (\<lambda>b. mk_node (cur_start s) (ELoop b))) s
      else if k = ascii ''fn'' then parse_closure r s
      else if k = ascii ''region'' then parse_region r s
      else if k = ascii ''in'' then parse_in r s
      else if k = ascii ''freeze'' then seqp advance (bind (rc_prefix r) (\<lambda>e. mk_node (cur_start s) (EFreeze e))) s
      else if k = ascii ''scope'' then parse_scope r s
      else if k = ascii ''spawn'' then parse_spawn r s
      else if k = ascii ''select'' then parse_select r s
      else if k = ascii ''when'' then parse_when r s
      else if k = ascii ''unsafe'' then parse_unsafe r s
      else if k = ascii ''asm'' then parse_asm r s
      else if k = ascii ''borrow'' then parse_borrow r s
      else unexpected s)"

definition parse_primary :: "recs \<Rightarrow> expr parse" where
  "parse_primary r s =
     (case cur s of
        Some (IntLit t) \<Rightarrow> token_expr (EInt t) s
      | Some (FloatLit t) \<Rightarrow> token_expr (EFloat t) s
      | Some (CharLit c) \<Rightarrow> token_expr (EChar c) s
      | Some (StrStart _) \<Rightarrow> bind (parse_string_literal r) (\<lambda>l. mk_node (cur_start s) (EStr l)) s
      | Some Underscore \<Rightarrow> token_expr EWildcard s
      | Some (Ident _) \<Rightarrow> bind parse_path (\<lambda>p. mk_node (cur_start s) (EPath p)) s
      | Some (Kw k) \<Rightarrow> parse_keyword_expr r k s
      | Some (Punct p) \<Rightarrow>
          if p = LParen then parse_paren_or_tuple r s
          else if p = LBrace then bind (with_struct_lit True (parse_block r)) (\<lambda>b. mk_node (cur_start s) (EBlock b)) s
          else if p = LBracket then parse_list_literal r s
          else unexpected s
      | _ \<Rightarrow> unexpected s)"

section \<open>The postfix chain\<close>

definition postfix_step :: "recs \<Rightarrow> nat \<Rightarrow> expr \<Rightarrow> (expr, expr) flow parse" where
  "postfix_step r start e s =
     (if at_p LParen s
      then seqp advance (bind (parse_call_args r) (\<lambda>args. bind (mk_node start (ECall e args)) (\<lambda>x. ret (Continue x)))) s
      else if at_p LBracket s
      then seqp advance (bind (parse_index_args r) (\<lambda>args s'.
             bind (mk_node start (EBracketApply e args (ps_origin s'))) (\<lambda>x. ret (Continue x)) s')) s
      else if at_p Dot s
      then seqp advance (bind parse_member (\<lambda>m. bind (mk_node start (EMember e m)) (\<lambda>x. ret (Continue x)))) s
      else if at_p Question s
      then seqp advance (bind (mk_node start (ETry e)) (\<lambda>x. ret (Continue x))) s
      else ret (Break e) s)"

definition parse_postfix :: "recs \<Rightarrow> expr parse" where
  "parse_postfix r s =
     bind (if at_p LParen s \<and> (tok_at 1 s = Some (kw ''mut'') \<or> tok_at 1 s = Some (kw ''take''))
           then parse_moded_receiver r else parse_primary r) (\<lambda>e.
     bind (repeat_p (postfix_step r (span_start (nspan e))) e) (\<lambda>e' s'.
       case (if at_p LBrace s' then path_of e' else None) of
         Some p \<Rightarrow>
           if ps_no_struct_lit s'
           then (case struct_lit_in_condition s' of Some d \<Rightarrow> Inl (PDiag d) | None \<Rightarrow> ret e' s')
           else parse_struct_lit_body r p (span_start (nspan e)) s'
       | None \<Rightarrow> ret e' s')) s"

section \<open>Prefix operators, casts and the binary tiers\<close>

definition PREFIX_OPERATORS :: "string list" where
  "PREFIX_OPERATORS = [''!'', ''-'', ''&'', ''&mut'', ''*'', ''move'', ''copy'', ''shared'']"

definition prefix_op :: "tok option \<Rightarrow> un_op option" where
  "prefix_op t =
     (if t = Some (Punct Bang) then Some UnNot else if t = Some (Punct Minus) then Some UnNeg
      else if t = Some (Punct Star) then Some UnDeref else if t = Some (Punct Amp) then Some UnBorrow
      else if t = Some (kw ''move'') then Some UnMove else if t = Some (kw ''copy'') then Some UnCopy
      else if t = Some (kw ''shared'') then Some UnShared else None)"

text \<open>Only the recursive call counts against the nesting rail.\<close>

definition parse_prefix :: "recs \<Rightarrow> expr parse" where
  "parse_prefix r s =
     (if at_p Amp s \<and> tok_at 1 s = Some (kw ''mut'')
      then seqp advance (seqp advance (bind (nested (rc_prefix r)) (\<lambda>e. mk_node (cur_start s) (EUnary UnBorrowMut e)))) s
      else case prefix_op (cur s) of
             Some uop \<Rightarrow> seqp advance (bind (nested (rc_prefix r)) (\<lambda>e. mk_node (cur_start s) (EUnary uop e))) s
           | None \<Rightarrow> parse_postfix r s)"

definition parse_cast :: "recs \<Rightarrow> expr parse" where
  "parse_cast r =
     bind (parse_prefix r) (repeat_p (\<lambda>e.
       if_eat (kw ''as'')
         (bind (rc_type r) (\<lambda>t. bind (mk_node (span_start (nspan e)) (ECast e t)) (\<lambda>x. ret (Continue x))))
         (ret (Break e))))"

text \<open>Tiers 13 down to 5: after the first operand, operators of the tier with their right operands.\<close>

definition climb_step :: "nat \<Rightarrow> expr parse \<Rightarrow> expr \<Rightarrow> (expr, expr) flow parse" where
  "climb_step tier operand lhs s =
     (case binary_op_at_tier tier s of
        None \<Rightarrow> ret (Break lhs) s
      | Some bop \<Rightarrow>
          seqp advance (bind operand (\<lambda>rhs.
            bind (mk_node (span_start (nspan lhs)) (EBinary bop lhs rhs)) (\<lambda>e s'.
              if tier_assoc tier = AssocNone
              then (if binary_op_at_tier tier s' \<noteq> None then error_here E_COMPARISON_CHAIN s' else ret (Break e) s')
              else ret (Continue e) s'))) s)"

fun parse_binary :: "recs \<Rightarrow> nat \<Rightarrow> expr parse" where
  "parse_binary r 0 = parse_cast r"
| "parse_binary r (Suc t) =
     (if Suc t < 5 then parse_cast r
      else bind (parse_binary r t) (repeat_p (climb_step (Suc t) (parse_binary r t))))"

section \<open>Ranges and the defaulting else\<close>

definition parse_range_end :: "recs \<Rightarrow> expr parse" where
  "parse_range_end r s =
     (if at_p Caret s
      then bind advance (\<lambda>sp. bind (parse_binary r 13) (\<lambda>e. mk_node (span_start sp) (EFromEnd e))) s
      else parse_binary r 13 s)"

definition at_range_op :: "parser \<Rightarrow> bool" where
  "at_range_op s \<longleftrightarrow> at_p DotDot s \<or> at_p DotDotEq s"

definition parse_range_expr :: "recs \<Rightarrow> expr parse" where
  "parse_range_expr r s =
     (if at_range_op s
      then seqp advance (bind (parse_range_end r) (\<lambda>e. mk_node (cur_start s) (ERange None (Some e) (at_p DotDotEq s)))) s
      else bind (parse_range_end r) (\<lambda>lhs s1.
             if \<not> at_range_op s1 then ret lhs s1
             else seqp advance (bind (\<lambda>s2. if range_end_follows s2 then some_of (parse_range_end r) s2 else ret None s2) (\<lambda>e s3.
                    if at_range_op s3 then error_here E_RANGE_CHAIN s3
                    else mk_node (cur_start s) (ERange (Some lhs) e (at_p DotDotEq s1)) s3)) s1) s)"

definition handler_body :: "recs \<Rightarrow> expr parse" where
  "handler_body r s =
     (if at_p LBrace s then bind (block_of r) (\<lambda>b. ret (Node (EBlock b) (bl_span b))) s
      else with_struct_lit True (rc_expr r) s)"

definition parse_else_handler :: "recs \<Rightarrow> (stmt, expr, pattern) else_handler parse" where
  "parse_else_handler r s =
     (if at_p LBrace s then bind (block_of r) (\<lambda>b. ret (EhBlock b)) s
      else if at_p Pipe s
      then seqp advance (bind (rc_closed r) (\<lambda>p. seqp (expect_p Pipe) (bind (handler_body r) (\<lambda>e. ret (EhHandler p e))))) s
      else bind (with_struct_lit True (rc_expr r)) (\<lambda>e. ret (EhExpr e)) s)"

definition parse_else_expr :: "recs \<Rightarrow> expr parse" where
  "parse_else_expr r =
     bind (parse_range_expr r) (\<lambda>lhs.
     if_eat (kw ''else'')
       (bind (parse_else_handler r) (\<lambda>h. mk_node (span_start (nspan lhs)) (EElseDefault lhs h)))
       (ret lhs))"

section \<open>Expressions\<close>

definition parse_jump :: "recs \<Rightarrow> (expr option \<Rightarrow> expr_kind) \<Rightarrow> expr parse" where
  "parse_jump r k s =
     seqp advance (bind (\<lambda>s'. if at_expr_end s' then ret None s' else some_of (rc_expr r) s') (\<lambda>v. mk_node (cur_start s) (k v))) s"

definition parse_expr_inner :: "recs \<Rightarrow> expr parse" where
  "parse_expr_inner r s =
     (if at_kw ''return'' s then parse_jump r EReturn s
      else if at_kw ''break'' s then parse_jump r EBreak s
      else if at_kw ''continue'' s then token_expr EContinue s
      else parse_else_expr r s)"

definition parse_expr :: "recs \<Rightarrow> expr parse" where
  "parse_expr r = nested (parse_expr_inner r)"

end
