(* ===== verification/ParseItem.thy ===== *)
theory ParseItem
  imports ParsePrimary
begin

text \<open>
  Literals in attributes and patterns, patterns, attributes and items of \<open>parse.rs\<close>; the knot of the
  recursive descent and the whole parse.
\<close>

section \<open>Literals and patterns\<close>

definition parse_literal_only :: "recs \<Rightarrow> expr parse" where
  "parse_literal_only r s =
     (if at_literal s then parse_primary r s
      else if at_p Minus s
      then bind advance (\<lambda>sp. bind (rc_literal r) (\<lambda>e.
             ret (Node (EUnary UnNeg e) (mk_span (span_start sp) (span_end (nspan e)))))) s
      else unexpected s)"

definition range_literal :: "recs \<Rightarrow> expr parse" where
  "range_literal r s =
     (if at_literal s then parse_primary r s
      else if at_p Minus s then parse_literal_only r s
      else error_here E_UNEXPECTED_TOKEN s)"

definition literal_or_range :: "recs \<Rightarrow> expr \<Rightarrow> pat_kind parse" where
  "literal_or_range r lo s =
     (if \<not> at_range_op s then ret (PLiteral lo) s
      else seqp advance (bind (range_literal r) (\<lambda>hi. ret (PRange lo hi (at_p DotDotEq s)))) s)"

text \<open>The members of a tuple or variant pattern after the opening parenthesis.\<close>

definition pattern_members :: "recs \<Rightarrow> pattern list parse" where
  "pattern_members r =
     bind (comma_seq_opt RParen (parse_pattern r)) (\<lambda>ps. seqp (expect_list_close RParen) (ret ps))"

definition parse_field_pat :: "recs \<Rightarrow> pattern field_pat parse" where
  "parse_field_pat r =
     bind expect_ident (\<lambda>n.
     bind (opt_eat (Punct Colon) (parse_pattern r)) (\<lambda>p. spanned (span_start (id_span n)) (FieldPat n p)))"

definition parse_struct_pattern :: "recs \<Rightarrow> ast_path \<Rightarrow> nat \<Rightarrow> pattern parse" where
  "parse_struct_pattern r p start =
     seqp (expect_p LBrace)
     (bind (repeat_p (\<lambda>fields s.
         if at_p RBrace s then ret (Break (fields, False)) s
         else if at_p DotDot s then seqp advance (ret (Break (fields, True))) s
         else bind (parse_field_pat r) (\<lambda>f.
              if_eat (Punct Comma) (ret (Continue (fields @ [f]))) (ret (Break (fields @ [f], False)))) s) []) (\<lambda>(fields, rest).
      seqp (expect_list_close RBrace) (mk_node start (PStruct p fields rest))))"

text \<open>After a path: a struct pattern, a variant, a binding under a name, a name, or a constructor.\<close>

definition parse_path_pattern :: "recs \<Rightarrow> nat \<Rightarrow> pattern parse" where
  "parse_path_pattern r start =
     bind parse_path (\<lambda>p s.
       if at_p LBrace s then parse_struct_pattern r p start s
       else bind (\<lambda>s.
              if at_p LParen s then seqp advance (bind (pattern_members r) (\<lambda>fs. ret (PVariant p fs))) s
              else if is_single p \<and> at_p At s
              then seqp advance (bind (rc_closed r) (\<lambda>q. ret (PAt (hd (pt_segments p)) q))) s
              else ret (if is_single p then PBinding (hd (pt_segments p)) else PPath p) s) (mk_node start) s)"

definition parse_closed_pattern_inner :: "recs \<Rightarrow> pattern parse" where
  "parse_closed_pattern_inner r s =
     (if cur s = Some Underscore then seqp advance (mk_node (cur_start s) PWildcard) s
      else if at_literal s
      then bind (parse_primary r) (\<lambda>lo. bind (literal_or_range r lo) (mk_node (cur_start s))) s
      else if at_p Minus s
      then bind (parse_literal_only r) (\<lambda>lo. bind (literal_or_range r lo) (mk_node (cur_start s))) s
      else if at_range_op s then error_here E_UNEXPECTED_TOKEN s
      else if at_p LParen s
      then seqp advance (bind (pattern_members r) (\<lambda>ps. mk_node (cur_start s) (PTuple ps))) s
      else if is_ident (cur s) then parse_path_pattern r (cur_start s) s
      else expected_pattern s)"

definition parse_closed_pattern :: "recs \<Rightarrow> pattern parse" where
  "parse_closed_pattern r = nested (parse_closed_pattern_inner r)"

section \<open>Attributes\<close>

definition parse_attr_arg :: "recs \<Rightarrow> expr attr_arg parse" where
  "parse_attr_arg r s =
     (if is_ident (cur s) then bind (rc_attr r) (\<lambda>a. ret (AaNested a)) s
      else bind (rc_literal r) (\<lambda>e. ret (AaLiteral e)) s)"

definition parse_attr :: "recs \<Rightarrow> expr attr parse" where
  "parse_attr r =
     bind parse_path (\<lambda>p.
     bind (if_eat (Punct LParen)
         (bind (comma_seq_opt RParen (parse_attr_arg r)) (\<lambda>args. seqp (expect_p RParen) (ret (Some (AiArgs args)))))
         (if_eat (Punct Assign) (bind (rc_literal r) (\<lambda>e. ret (Some (AiLiteral e)))) (ret None))) (\<lambda>input.
     spanned (span_start (pt_span p)) (Attr p input)))"

text \<open>The leading \<open>#![\<dots>]\<close> group; a second one is misplaced.\<close>

definition parse_inner_attributes :: "recs \<Rightarrow> expr attribute list parse" where
  "parse_inner_attributes r =
     repeat_p (\<lambda>out. seqp skip_inserted_terms (\<lambda>s.
       if \<not> at_p HashBangBracket s then ret (Break out) s
       else if out \<noteq> [] then error_here E_INNER_ATTR_MISPLACED s
       else bind advance (\<lambda>open. bind (attr_group (rc_attr r) (span_start open)) (\<lambda>g. ret (Continue (out @ [g])))) s)) []"

section \<open>Functions\<close>

definition misplaced_ellipsis :: "'a parse" where
  "misplaced_ellipsis =
     bind advance (\<lambda>first s.
       fail_at ''E0822'' (mk_span (span_start first)
         (if at_p Dot s \<and> cur_start s = span_end first then span_end (cur_span s) else span_end first)) s)"

text \<open>The ellipsis of a variadic C function, after \<open>mode\<close> and \<open>params\<close>.\<close>

definition parse_ellipsis :: "bool \<Rightarrow> ty param list \<Rightarrow> param_mode option \<Rightarrow> span parse" where
  "parse_ellipsis membrane params mode =
     bind advance (\<lambda>dots s.
       let contiguous = (at_p Dot s \<and> cur_start s = span_end dots);
           sp = (if contiguous then mk_span (span_start dots) (span_end (cur_span s)) else dots);
           s' = (if contiguous then bump s else s)
       in if \<not> contiguous \<or> \<not> membrane \<or> params = [] \<or> mode \<noteq> None \<or> \<not> at_p RParen s' then fail_at ''E0822'' sp s'
          else ret sp s')"

definition parse_view_set :: "ident list parse" where
  "parse_view_set s =
     (if at_p Dot s \<and> tok_at 1 s = Some (Punct LBrace)
      then seqp advance (seqp advance (bind expect_ident (\<lambda>i.
             bind (more Comma expect_ident [i]) (\<lambda>is. seqp (expect_p RBrace) (ret is))))) s
      else ret [] s)"

definition parse_param_kind :: "recs \<Rightarrow> ty param_kind parse" where
  "parse_param_kind r =
     if_eat (Ident (ascii ''self'')) (bind parse_view_set (\<lambda>v. ret (PkSelf v)))
       (bind expect_ident (\<lambda>n. seqp (expect_p Colon) (\<lambda>s.
          if at_p DotDot s then misplaced_ellipsis s else bind (rc_type r) (\<lambda>t. ret (PkNamed n t)) s)))"

text \<open>One round of the parameter list: a parameter, or the ellipsis that ends it.\<close>

definition param_round :: "recs \<Rightarrow> bool \<Rightarrow> ty param list \<Rightarrow> (ty param list, ty param list \<times> span option) flow parse" where
  "param_round r membrane params =
     seqp skip_inserted_terms (\<lambda>s.
     bind parse_param_mode (\<lambda>mode s1.
       if at_p DotDot s1 then bind (parse_ellipsis membrane params mode) (\<lambda>sp. ret (Break (params, Some sp))) s1
       else bind (parse_param_kind r) (\<lambda>k.
            bind (spanned (cur_start s) (Param mode k)) (\<lambda>p.
            seqp skip_inserted_terms
            (if_eat (Punct Comma)
              (seqp skip_inserted_terms (\<lambda>s2.
                 ret (if at_p RParen s2 then Break (params @ [p], None) else Continue (params @ [p])) s2))
              (\<lambda>s2. if at_p DotDot s2 then misplaced_ellipsis s2 else ret (Break (params @ [p], None)) s2)))) s1) s)"

definition parse_params :: "recs \<Rightarrow> bool \<Rightarrow> (ty param list \<times> span option) parse" where
  "parse_params r membrane s = (if at_p RParen s then ret ([], None) s else repeat_p (param_round r membrane) [] s)"

definition parse_bound :: "bound parse" where
  "parse_bound s =
     (if at_kw ''type'' s then bind advance (\<lambda>sp. ret (BoundTypeOfTypes sp)) s
      else bind parse_path (\<lambda>p. bind (more Plus parse_path [p]) (\<lambda>ps. ret (BoundPaths ps))) s)"

definition parse_generic_param :: "generic_param parse" where
  "parse_generic_param =
     bind expect_ident (\<lambda>n.
     bind (opt_eat (Punct Colon) parse_bound) (\<lambda>b. spanned (span_start (id_span n)) (GenericParam n b)))"

definition parse_generics :: "generic_param list parse" where
  "parse_generics =
     if_eat (Punct LBracket)
       (bind (comma_lines RBracket False parse_generic_param) (\<lambda>gs. seqp (expect_p RBracket) (ret gs))) (ret [])"

definition fn_quals :: "recs \<Rightarrow> expr fn_qual list parse" where
  "fn_quals r =
     repeat_p (\<lambda>qs s.
       if at_kw ''comptime'' s then bind advance (\<lambda>sp. ret (Continue (qs @ [QComptime sp]))) s
       else if at_kw ''export'' s then bind advance (\<lambda>sp. ret (Continue (qs @ [QExport sp]))) s
       else if at_kw ''extern'' s
       then bind advance (\<lambda>sp. bind (parse_string_literal r) (\<lambda>abi.
              ret (Continue (qs @ [QExtern abi (mk_span (span_start sp) (span_end (sl_span abi)))])))) s
       else ret (Break qs) s) []"

definition is_extern_qual :: "expr fn_qual \<Rightarrow> bool" where
  "is_extern_qual q = (case q of QExtern _ _ \<Rightarrow> True | _ \<Rightarrow> False)"

definition is_membrane :: "expr fn_qual \<Rightarrow> bool" where
  "is_membrane q = (case q of QExport _ \<Rightarrow> True | QExtern abi _ \<Rightarrow> as_plain_text abi = Some (ascii ''c'') | _ \<Rightarrow> False)"

definition fn_body :: "recs \<Rightarrow> bool \<Rightarrow> code_block option parse" where
  "fn_body r is_extern s =
     (if at_p LBrace s then some_of (with_trait_body False (with_struct_lit True (rc_block r))) s
      else if \<not> is_extern \<and> \<not> ps_in_trait_body s then error_here E_FN_NEEDS_BODY s
      else seqp expect_term (ret None) s)"

definition parse_fn_decl :: "recs \<Rightarrow> (stmt, expr, ty) fn_decl parse" where
  "parse_fn_decl r s =
     bind (fn_quals r) (\<lambda>quals.
     seqp (expect_kw ''fn'')
     (bind expect_ident (\<lambda>name.
      bind parse_generics (\<lambda>generics.
      seqp (expect_p LParen)
      (bind (with_struct_lit True (parse_params r (list_ex is_membrane quals))) (\<lambda>(params, variadic).
       seqp (expect_p RParen)
       (bind (opt_eat (Punct Arrow) (parse_ret_type r)) (\<lambda>rt.
        bind (fn_body r (list_ex is_extern_qual quals)) (\<lambda>body.
        spanned (cur_start s) (FnDecl quals name generics params variadic rt body)))))))))) s"

section \<open>Declarations\<close>

text \<open>At \<open>extern\<close>: whether a binding keyword follows the ABI string; \<open>depth\<close> counts the strings open.\<close>

fun string_then_binding :: "nat \<Rightarrow> token list \<Rightarrow> bool" where
  "string_then_binding depth [] = False"
| "string_then_binding depth (t # ts) =
     (case tk_tok t of
        StrStart _ \<Rightarrow> string_then_binding (depth + 1) ts
      | StrEnd \<Rightarrow>
          if depth = 1
          then (case ts of u # _ \<Rightarrow> tk_tok u \<in> {kw ''let'', kw ''var'', kw ''const''} | [] \<Rightarrow> False)
          else string_then_binding (depth - 1) ts
      | _ \<Rightarrow> string_then_binding depth ts)"

definition extern_binding_ahead :: "parser \<Rightarrow> bool" where
  "extern_binding_ahead s \<longleftrightarrow>
     (case tok_at 1 s of
        Some (StrStart _) \<Rightarrow> string_then_binding 0 (drop (ps_pos s + 1) (ps_tokens s))
      | _ \<Rightarrow> False)"

definition parse_extern_let :: "recs \<Rightarrow> (ty, expr) extern_let parse" where
  "parse_extern_let r =
     bind (expect_kw ''extern'') (\<lambda>k.
     bind (parse_string_literal r) (\<lambda>abi s.
     bind advance (\<lambda>kind_span.
     bind expect_ident (\<lambda>name.
     bind (opt_eat (Punct Colon) (rc_type r)) (\<lambda>t.
     bind (opt_eat (Punct Assign) (with_struct_lit True (rc_expr r))) (\<lambda>v s'.
       let e = (if cur s' = Some (Term False) then cur_start s' + 1
                else if cur s' = Some (Term True) then span_end (cur_span s') else prev_end s')
       in seqp expect_term (ret (ExternLet abi
            (if at_kw ''var'' s then BkVar else if at_kw ''const'' s then BkConst else BkLet) kind_span name t v
            (mk_span (span_start k) e))) s')))) s))"

text \<open>The name and the generics of a struct or enum, unless it is anonymous.\<close>

definition def_head :: "bool \<Rightarrow> (ident option \<times> generic_param list) parse" where
  "def_head named =
     (if named then bind expect_ident (\<lambda>n. bind parse_generics (\<lambda>g. ret (Some n, g))) else ret (None, []))"

definition parse_field :: "recs \<Rightarrow> (ty, expr) field parse" where
  "parse_field r =
     bind (parse_attributes r) (\<lambda>attrs.
     seqp skip_terms (\<lambda>s.
       bind parse_visibility (\<lambda>v.
       bind expect_ident (\<lambda>n.
       seqp (expect_p Colon)
       (bind (with_struct_lit True (rc_type r)) (\<lambda>t. spanned (cur_start s) (Field attrs v n t))))) s))"

definition parse_struct_def :: "recs \<Rightarrow> bool \<Rightarrow> (ty, expr) struct_def parse" where
  "parse_struct_def r named =
     bind (expect_kw ''struct'') (\<lambda>k.
     bind (def_head named) (\<lambda>(name, generics).
     seqp (expect_p LBrace)
     (bind (repeat_p (\<lambda>fields. seqp skip_terms (\<lambda>s.
         if at_p RBrace s \<or> cur s = None then ret (Break fields) s
         else bind (parse_field r) (\<lambda>f. seqp (eat_p Comma) (ret (Continue (fields @ [f])))) s)) []) (\<lambda>fields.
      bind (expect_p RBrace) (\<lambda>close s.
      ret (StructDef name generics (filter (\<lambda>f. cfg_keeps (ps_target s) (fl_attrs f)) fields)
        (mk_span (span_start k) (span_end close))) s)))))"

definition parse_variant :: "recs \<Rightarrow> ty variant parse" where
  "parse_variant r =
     bind expect_ident (\<lambda>n.
     bind (if_eat (Punct LParen)
         (bind (comma_seq RParen (with_struct_lit True (rc_type r))) (\<lambda>ts. seqp (expect_p RParen) (ret ts))) (ret [])) (\<lambda>ts.
     spanned (span_start (id_span n)) (Variant n ts)))"

definition parse_enum_def :: "recs \<Rightarrow> bool \<Rightarrow> ty enum_def parse" where
  "parse_enum_def r named =
     bind (expect_kw ''enum'') (\<lambda>k.
     bind (def_head named) (\<lambda>(name, generics).
     seqp (expect_p LBrace)
     (bind (repeat_p (\<lambda>vs. seqp skip_terms (\<lambda>s.
         if at_p RBrace s \<or> cur s = None then ret (Break vs) s
         else bind (parse_variant r) (\<lambda>v. seqp skip_terms
                (if_eat (Punct Comma) (ret (Continue (vs @ [v]))) (ret (Break (vs @ [v]))))) s)) []) (\<lambda>vs.
      seqp skip_terms
      (bind (expect_p RBrace) (\<lambda>close. ret (EnumDef name generics vs (mk_span (span_start k) (span_end close)))))))))"

definition parse_type_alias :: "recs \<Rightarrow> (ty, expr) alias_def parse" where
  "parse_type_alias r =
     bind (expect_kw ''type'') (\<lambda>k.
     bind expect_ident (\<lambda>name.
     bind parse_generics (\<lambda>generics.
     seqp (expect_p Assign)
     (bind (\<lambda>s.
         if at_kw ''struct'' s then bind (parse_struct_def r False) (\<lambda>d. ret (TdStruct d)) s
         else if at_kw ''enum'' s then bind (parse_enum_def r False) (\<lambda>d. ret (TdEnum d)) s
         else bind (rc_type r) (\<lambda>t. ret (TdAlias t)) s) (\<lambda>def.
      seqp eat_term (spanned (span_start k) (TypeAlias name generics def)))))))"

definition parse_error_alias :: "recs \<Rightarrow> ty error_alias parse" where
  "parse_error_alias r s =
     if_eat (Ident (ascii ''error''))
       (bind expect_ident (\<lambda>name.
        seqp (expect_p Assign)
        (bind (parse_error_row r) (\<lambda>row.
         case er_open_at row of
           Some sp \<Rightarrow> fail_at E_UNEXPECTED_TOKEN sp
         | None \<Rightarrow> seqp eat_term (spanned (cur_start s) (ErrorAlias name row))))))
       unexpected s"

definition parse_use_segments :: "ident list \<Rightarrow> (ident list \<times> ident list) parse" where
  "parse_use_segments =
     repeat_p (\<lambda>segments s.
       if \<not> at_p Dot s then ret (Break (segments, [])) s
       else if tok_at 1 s = Some (Punct LBrace)
       then seqp advance (seqp advance (bind (repeat_p (\<lambda>xs.
                seqp skip_inserted_terms (bind expect_ident (\<lambda>i.
                  if_eat (Punct Comma)
                    (seqp skip_inserted_terms (\<lambda>s'. ret (if at_p RBrace s' then Break (xs @ [i]) else Continue (xs @ [i])) s'))
                    (ret (Break (xs @ [i])))))) []) (\<lambda>xs.
              seqp (expect_p RBrace) (ret (Break (segments, xs)))))) s
       else seqp advance (bind expect_ident (\<lambda>i. ret (Continue (segments @ [i])))) s)"

definition parse_use_decl :: "recs \<Rightarrow> use_decl parse" where
  "parse_use_decl r =
     bind (expect_kw ''use'') (\<lambda>k.
     bind expect_ident (\<lambda>first.
     bind (parse_use_segments [first]) (\<lambda>(segments, xs).
     bind (opt_eat (kw ''as'') expect_ident) (\<lambda>alias.
     seqp expect_term
     (spanned (span_start k) (UseDecl
        (Path segments (mk_span (span_start (id_span first)) (span_end (id_span (last segments))))) xs alias))))))"

section \<open>Items\<close>

definition drain_items :: "item list \<Rightarrow> item list parse" where
  "drain_items xs s = Inr (xs @ ps_pending_items s, s\<lparr>ps_pending_items := []\<rparr>)"

definition parse_members :: "recs \<Rightarrow> item list parse" where
  "parse_members r =
     with_members (bind (repeat_p (\<lambda>ms. bind (drain_items ms) (\<lambda>ms'. seqp skip_terms (\<lambda>s.
         if at_p RBrace s \<or> cur s = None then ret (Break ms') s
         else bind (rc_item r) (\<lambda>i. ret (Continue (ms' @ [i]))) s))) [])
       (\<lambda>ms s. ret (filter (\<lambda>i. cfg_keeps (ps_target s) (it_attrs i)) ms) s))"

definition parse_trait_def :: "recs \<Rightarrow> item trait_def parse" where
  "parse_trait_def r =
     bind (expect_kw ''trait'') (\<lambda>k.
     bind expect_ident (\<lambda>name.
     bind parse_generics (\<lambda>generics.
     if_eat (Punct Assign)
       (bind parse_path (\<lambda>p. bind (more Plus parse_path [p]) (\<lambda>ps s.
          seqp eat_term (ret (TraitDef name generics [] (Some (BoundPaths ps)) (mk_span (span_start k) (prev_end s)))) s)))
       (seqp (expect_p LBrace)
        (bind (with_trait_body True (parse_members r)) (\<lambda>ms.
         bind (expect_p RBrace) (\<lambda>close.
         ret (TraitDef name generics ms None (mk_span (span_start k) (span_end close))))))))))"

definition parse_impl_def :: "recs \<Rightarrow> (ty, item) impl_def parse" where
  "parse_impl_def r =
     bind (expect_kw ''impl'') (\<lambda>k.
     bind parse_generics (\<lambda>generics.
     bind (with_struct_lit False (rc_type r)) (\<lambda>first.
     bind (opt_eat (kw ''for'') (with_struct_lit False (rc_type r))) (\<lambda>subject.
     seqp (expect_p LBrace)
     (bind (with_trait_body False (parse_members r)) (\<lambda>ms.
      bind (expect_p RBrace) (\<lambda>close.
      ret (ImplDef generics first subject ms (mk_span (span_start k) (span_end close))))))))))"

definition push_pending_items :: "item list \<Rightarrow> unit parse" where
  "push_pending_items xs s = Inr ((), s\<lparr>ps_pending_items := ps_pending_items s @ xs\<rparr>)"

definition item_binding :: "recs \<Rightarrow> expr attribute list \<Rightarrow> visibility option \<Rightarrow> item_kind parse" where
  "item_binding r attrs v =
     bind (parse_binding_group r) (\<lambda>bs.
     seqp (push_pending_items (map (\<lambda>b. Item attrs v (IBinding b) (bi_span b)) (tl bs))) (ret (IBinding (hd bs))))"

definition parse_import_c :: "recs \<Rightarrow> item_kind parse" where
  "parse_import_c r =
     seqp advance (if_eat (Ident (ascii ''c''))
       (bind (parse_string_literal r) (\<lambda>l. seqp expect_term (ret (IImportC l)))) unexpected)"

definition not_an_item :: "'a parse" where
  "not_an_item s =
     (if \<not> ps_in_members s \<and> cur s \<noteq> None
      then Inl (PDiag ((unexpected_diag s)\<lparr>ld_code := E_EXPECTED_DECLARATION\<rparr>)) else unexpected s)"

definition parse_item_kind :: "recs \<Rightarrow> expr attribute list \<Rightarrow> visibility option \<Rightarrow> item_kind parse" where
  "parse_item_kind r attrs v s =
     (if at_kw ''extern'' s \<and> extern_binding_ahead s then bind (parse_extern_let r) (\<lambda>x. ret (IExternLet x)) s
      else if at_any_kw [''comptime'', ''extern'', ''export'', ''fn''] s then bind (parse_fn_decl r) (\<lambda>x. ret (IFn x)) s
      else if at_any_kw [''let'', ''var'', ''const''] s then item_binding r attrs v s
      else if at_kw ''type'' s then bind (parse_type_alias r) (\<lambda>x. ret (ITypeAlias x)) s
      else if at_kw ''struct'' s then bind (parse_struct_def r True) (\<lambda>x. ret (IStruct x)) s
      else if at_kw ''enum'' s then bind (parse_enum_def r True) (\<lambda>x. ret (IEnum x)) s
      else if at_kw ''trait'' s then bind (parse_trait_def r) (\<lambda>x. ret (ITrait x)) s
      else if at_kw ''impl'' s then bind (parse_impl_def r) (\<lambda>x. ret (IImpl x)) s
      else if at_kw ''use'' s then bind (parse_use_decl r) (\<lambda>x. ret (IUse x)) s
      else if at_kw ''import'' s then parse_import_c r s
      else if at_ctx ''error'' s \<and> is_ident (tok_at 1 s) \<and> tok_at 2 s = Some (Punct Assign)
      then bind (parse_error_alias r) (\<lambda>x. ret (IErrorAlias x)) s
      else not_an_item s)"

definition parse_item_inner :: "recs \<Rightarrow> expr attribute list \<Rightarrow> item parse" where
  "parse_item_inner r attrs =
     seqp skip_inserted_terms (\<lambda>s.
     bind parse_visibility (\<lambda>v s1.
       if at_p HashBangBracket s1 then error_here E_INNER_ATTR_MISPLACED s1
       else bind (parse_item_kind r attrs v) (\<lambda>k. spanned (cur_start s) (Item attrs v k)) s1) s)"

definition parse_item :: "recs \<Rightarrow> item parse" where
  "parse_item r = bind (parse_attributes r) (\<lambda>attrs. with_origin (index_origin_of attrs) (parse_item_inner r attrs))"

section \<open>The knot\<close>

text \<open>Every call back to an outer production comes after a token was taken, so as many levels as there are
  tokens, and one more, are enough.\<close>

primrec recs_at :: "nat \<Rightarrow> recs" where
  "recs_at 0 =
     \<lparr>rc_expr = \<lambda>_. Inl Stuck, rc_else = \<lambda>_. Inl Stuck, rc_range = \<lambda>_. Inl Stuck, rc_prefix = \<lambda>_. Inl Stuck,
      rc_if = \<lambda>_. Inl Stuck, rc_literal = \<lambda>_. Inl Stuck, rc_type = \<lambda>_. Inl Stuck, rc_closed = \<lambda>_. Inl Stuck,
      rc_block = \<lambda>_. Inl Stuck, rc_attr = \<lambda>_. Inl Stuck, rc_item = \<lambda>_. Inl Stuck\<rparr>"
| "recs_at (Suc n) =
     (let r = recs_at n in
      \<lparr>rc_expr = parse_expr r, rc_else = parse_else_expr r, rc_range = parse_range_expr r, rc_prefix = parse_prefix r,
       rc_if = parse_if r, rc_literal = parse_literal_only r, rc_type = parse_type r, rc_closed = parse_closed_pattern r,
       rc_block = parse_block r, rc_attr = parse_attr r, rc_item = parse_item r\<rparr>)"

section \<open>Units\<close>

definition unit_items :: "recs \<Rightarrow> item list parse" where
  "unit_items r =
     repeat_p (\<lambda>is. bind (drain_items is) (\<lambda>is'. seqp skip_inserted_terms (\<lambda>s.
       case cur s of
         None \<Rightarrow> ret (Break is') s
       | Some t \<Rightarrow>
           if t = Term True then error_here E_EMPTY_STATEMENT s
           else if is_binary_only t then error_here E_LEADING_OPERATOR s
           else bind (rc_item r) (\<lambda>i. ret (Continue (is' @ [i]))) s))) []"

definition set_origin :: "nat option \<Rightarrow> unit parse" where
  "set_origin marker s = Inr ((), case marker of Some i \<Rightarrow> s\<lparr>ps_origin := i\<rparr> | None \<Rightarrow> s)"

definition parse_unit :: "recs \<Rightarrow> unit_node parse" where
  "parse_unit r s =
     bind (parse_inner_attributes r) (\<lambda>inner.
     seqp (set_origin (index_origin_of inner))
     (bind (unit_items r) (\<lambda>is s'.
        ret \<lparr>un_inner_attrs = inner, un_items = filter (\<lambda>i. cfg_keeps (ps_target s') (it_attrs i)) is,
             un_span = mk_span (cur_start s) (max (prev_end s') (cur_start s))\<rparr> s'))) s"

definition new_parser :: "chars \<Rightarrow> token list \<Rightarrow> parser" where
  "new_parser target tokens =
     \<lparr>ps_tokens = tokens, ps_pos = 0,
      ps_eof = (if tokens = [] then empty_span 0 else empty_span (span_end (tk_span (last tokens)))),
      ps_no_struct_lit = False, ps_in_trait_body = False, ps_in_members = False, ps_depth = 0,
      ps_pending_items = [], ps_pending_stmts = [], ps_origin = 0, ps_target = target\<rparr>"

definition parse_tokens :: "chars \<Rightarrow> token list \<Rightarrow> parse_error + unit_node" where
  "parse_tokens target tokens =
     (case parse_unit (recs_at (Suc (length tokens))) (new_parser target tokens) of
        Inl e \<Rightarrow> Inl e
      | Inr (u, _) \<Rightarrow> Inr u)"

end
