(* ===== verification/ParseLogic.thy ===== *)
theory ParseLogic
  imports ParseItem
begin

text \<open>
  A weakest-precondition calculus for the productions of theory ParseBase: what a production yields, how it
  may change the parser state, and one rule per combinator. A production that returns leaves the settings
  (the tokens, the flags of the scoped settings, the depth, the origin and the target) as it found them and
  never goes back in the tokens; one that takes a token makes \<open>remaining\<close> smaller.
\<close>

named_theorems production

definition yields :: "parse_error + 'a \<times> parser \<Rightarrow> ('a \<Rightarrow> parser \<Rightarrow> bool) \<Rightarrow> bool" where
  "yields res Q \<longleftrightarrow> (case res of Inl e \<Rightarrow> e \<noteq> Stuck | Inr (x, s) \<Rightarrow> Q x s)"

definition settings :: "parser \<Rightarrow> token list \<times> span \<times> bool \<times> bool \<times> bool \<times> nat \<times> nat \<times> chars" where
  "settings s =
     (ps_tokens s, ps_eof s, ps_no_struct_lit s, ps_in_trait_body s, ps_in_members s, ps_depth s, ps_origin s,
      ps_target s)"

abbreviation stays :: "parser \<Rightarrow> parser \<Rightarrow> bool" where
  "stays s s' \<equiv> settings s' = settings s \<and> remaining s' \<le> remaining s"

abbreviation later :: "parser \<Rightarrow> parser \<Rightarrow> bool" where
  "later s s' \<equiv> settings s' = settings s \<and> remaining s' < remaining s"

section \<open>The state\<close>

lemma remaining_updates [simp]:
  "remaining (s\<lparr>ps_no_struct_lit := b\<rparr>) = remaining s" "remaining (s\<lparr>ps_in_trait_body := b\<rparr>) = remaining s"
  "remaining (s\<lparr>ps_in_members := b\<rparr>) = remaining s" "remaining (s\<lparr>ps_depth := d\<rparr>) = remaining s"
  "remaining (s\<lparr>ps_origin := d\<rparr>) = remaining s" "remaining (s\<lparr>ps_pending_items := is\<rparr>) = remaining s"
  "remaining (s\<lparr>ps_pending_stmts := ss\<rparr>) = remaining s" "remaining (bump s) = remaining s - 1"
  "remaining (s\<lparr>ps_pos := ps_pos s + k\<rparr>) = remaining s - k"
  by (simp_all add: remaining_def bump_def)

lemma settings_updates [simp]:
  "settings (s\<lparr>ps_pending_items := is\<rparr>) = settings s" "settings (s\<lparr>ps_pending_stmts := ss\<rparr>) = settings s"
  "settings (s\<lparr>ps_pos := p\<rparr>) = settings s" "settings (bump s) = settings s"
  by (simp_all add: settings_def bump_def)

lemma at_tok_updates [simp]:
  "at_tok t (s\<lparr>ps_no_struct_lit := b\<rparr>) = at_tok t s" "at_tok t (s\<lparr>ps_in_trait_body := b\<rparr>) = at_tok t s"
  "at_tok t (s\<lparr>ps_in_members := b\<rparr>) = at_tok t s" "at_tok t (s\<lparr>ps_depth := d\<rparr>) = at_tok t s"
  "at_tok t (s\<lparr>ps_origin := d\<rparr>) = at_tok t s"
  by (simp_all add: at_tok_def cur_def tok_at_def)

lemma settings_back:
  "settings s' = settings (s\<lparr>ps_no_struct_lit := b\<rparr>) \<Longrightarrow> settings (s'\<lparr>ps_no_struct_lit := ps_no_struct_lit s\<rparr>) = settings s"
  "settings s' = settings (s\<lparr>ps_in_trait_body := b\<rparr>) \<Longrightarrow> settings (s'\<lparr>ps_in_trait_body := ps_in_trait_body s\<rparr>) = settings s"
  "settings s' = settings (s\<lparr>ps_in_members := b\<rparr>) \<Longrightarrow> settings (s'\<lparr>ps_in_members := ps_in_members s\<rparr>) = settings s"
  "settings s' = settings (s\<lparr>ps_depth := ps_depth s + 1\<rparr>) \<Longrightarrow> settings (s'\<lparr>ps_depth := ps_depth s' - 1\<rparr>) = settings s"
  by (simp_all add: settings_def)

lemma tokens_left: "tok_at k s = Some t \<Longrightarrow> k < remaining s"
  by (auto simp: tok_at_def get_at_def remaining_def split: if_splits)

lemma token_ahead:
  "cur s = Some t \<Longrightarrow> 0 < remaining s" "at_tok t s \<Longrightarrow> 0 < remaining s" "is_ident (cur s) \<Longrightarrow> 0 < remaining s"
  "is_term (cur s) \<Longrightarrow> 0 < remaining s" "at_any_kw ws s \<Longrightarrow> 0 < remaining s" "cur s \<noteq> None \<Longrightarrow> 0 < remaining s"
  "at_literal s \<Longrightarrow> 0 < remaining s" "prefix_type_kw s = Some k \<Longrightarrow> 0 < remaining s"
  "prefix_op (cur s) = Some u \<Longrightarrow> 0 < remaining s" "binary_op_at_tier tier s = Some b \<Longrightarrow> 0 < remaining s"
  "assign_op_of (cur s) = Some a \<Longrightarrow> 0 < remaining s" "at_range_op s \<Longrightarrow> 0 < remaining s"
  "at_region_cap s \<Longrightarrow> 0 < remaining s" "tok_at 1 s = Some t' \<Longrightarrow> Suc 0 < remaining s"
  "tok_at (Suc 0) s = Some t' \<Longrightarrow> Suc 0 < remaining s" "at_tok t (bump s) \<Longrightarrow> Suc 0 < remaining s"
  using tokens_left [of 0 s] tokens_left [of 1 s] tokens_left [of 0 "bump s"]
  by (auto simp: cur_def at_tok_def is_ident_def is_term_def at_any_kw_def at_literal_def prefix_type_kw_def
      prefix_op_def binary_op_at_tier_def assign_op_of_def at_range_op_def at_region_cap_def split: option.splits if_splits)

section \<open>Rules\<close>

lemma yields_mono: "yields res P \<Longrightarrow> (\<And>x s. P x s \<Longrightarrow> Q x s) \<Longrightarrow> yields res Q"
  by (auto simp: yields_def split: sum.splits)

lemma yields_ret [production]: "Q x s \<Longrightarrow> yields (ret x s) Q"
  by (simp add: yields_def ret_def)

lemma yields_Inr [production]: "Q x s \<Longrightarrow> yields (Inr (x, s)) Q"
  by (simp add: yields_def)

lemma yields_fail [production]:
  "yields (fail_at c sp s) Q" "yields (error_here c s) Q" "yields (unexpected s) Q" "yields (Inl (PDiag d)) Q"
  "yields (expected_pattern s) Q" "yields (expected_type s) Q"
  by (simp_all add: yields_def fail_at_def error_here_def unexpected_def expected_pattern_def expected_type_def
      split: option.split)

lemma yields_bind [production]: "yields (m s) (\<lambda>x s'. yields (f x s') Q) \<Longrightarrow> yields (bind m f s) Q"
  by (auto simp: yields_def bind_def split: sum.splits)

lemma yields_seqp [production]: "yields (m s) (\<lambda>_ s'. yields (k s') Q) \<Longrightarrow> yields (seqp m k s) Q"
  by (simp add: seqp_def yields_bind)

lemma yields_if [production]:
  "(c \<Longrightarrow> yields a Q) \<Longrightarrow> (\<not> c \<Longrightarrow> yields b Q) \<Longrightarrow> yields (if c then a else b) Q"
  by simp

lemma yields_if_fun [production]:
  "(c \<Longrightarrow> yields (a s) Q) \<Longrightarrow> (\<not> c \<Longrightarrow> yields (b s) Q) \<Longrightarrow> yields ((if c then a else b) s) Q"
  by simp

lemma yields_option [production]:
  "(v = None \<Longrightarrow> yields a Q) \<Longrightarrow> (\<And>x. v = Some x \<Longrightarrow> yields (f x) Q) \<Longrightarrow>
   yields (case v of None \<Rightarrow> a | Some x \<Rightarrow> f x) Q"
  by (cases v) simp_all

lemma yields_option_fun [production]:
  "(v = None \<Longrightarrow> yields (a s) Q) \<Longrightarrow> (\<And>x. v = Some x \<Longrightarrow> yields (f x s) Q) \<Longrightarrow>
   yields ((case v of None \<Rightarrow> a | Some x \<Rightarrow> f x) s) Q"
  by (cases v) simp_all

lemma yields_prod [production]:
  "(\<And>a b. p = (a, b) \<Longrightarrow> yields (f a b s) Q) \<Longrightarrow> yields ((case p of (a, b) \<Rightarrow> f a b) s) Q"
  by (cases p) simp

lemma yields_prod_in [production]:
  "(\<And>a b. p = (a, b) \<Longrightarrow> yields (f a b) Q) \<Longrightarrow> yields (case p of (a, b) \<Rightarrow> f a b) Q"
  by (cases p) simp

lemma yields_advance [production]:
  "0 < remaining s \<Longrightarrow> (0 < remaining s \<Longrightarrow> Q (cur_span s) (bump s)) \<Longrightarrow> yields (advance s) Q"
  by (simp add: yields_def advance_def)

lemma yields_advance_any: "Q (cur_span s) (bump s) \<Longrightarrow> yields (advance s) Q"
  by (simp add: yields_def advance_def)

lemma yields_if_eat [production]:
  "(at_tok t s \<Longrightarrow> 0 < remaining s \<Longrightarrow> yields (a (bump s)) Q) \<Longrightarrow> yields (b s) Q \<Longrightarrow> yields (if_eat t a b s) Q"
  by (simp add: if_eat_def token_ahead)

lemma yields_eat [production]: "(\<And>x s'. stays s s' \<Longrightarrow> Q x s') \<Longrightarrow> yields (eat t s) Q"
  unfolding eat_def by (intro production) auto

lemma yields_opt_eat [production]:
  "(at_tok t s \<Longrightarrow> 0 < remaining s \<Longrightarrow> yields (m (bump s)) (\<lambda>x s'. Q (Some x) s')) \<Longrightarrow> Q None s \<Longrightarrow>
   yields (opt_eat t m s) Q"
  unfolding opt_eat_def by (intro production) (auto intro!: production elim: yields_mono)

lemma yields_some_of [production]: "yields (m s) (\<lambda>x s'. Q (Some x) s') \<Longrightarrow> yields (some_of m s) Q"
  unfolding some_of_def by (intro production) (auto intro!: production elim: yields_mono)

lemma yields_expect_tok [production]: "(\<And>x s'. later s s' \<Longrightarrow> Q x s') \<Longrightarrow> yields (expect_tok t s) Q"
  unfolding expect_tok_def by (intro production) (auto simp: token_ahead)

lemma yields_expect_list_close [production]: "(\<And>x s'. later s s' \<Longrightarrow> Q x s') \<Longrightarrow> yields (expect_list_close p s) Q"
  unfolding expect_list_close_def by (intro production) auto

lemma yields_expect_ident [production]: "(\<And>x s'. later s s' \<Longrightarrow> Q x s') \<Longrightarrow> yields (expect_ident s) Q"
  using token_ahead(1) [of s]
  by (auto simp: expect_ident_def split: option.split tok.split intro!: production)

lemma yields_skips [production]:
  "(\<And>s'. stays s s' \<Longrightarrow> Q () s') \<Longrightarrow> yields (skip_inserted_terms s) Q"
  "(\<And>s'. stays s s' \<Longrightarrow> Q () s') \<Longrightarrow> yields (skip_terms s) Q"
  "(\<And>s'. stays s s' \<Longrightarrow> Q () s') \<Longrightarrow> yields (expect_term s) Q"
  "(\<And>s'. stays s s' \<Longrightarrow> Q () s') \<Longrightarrow> yields (eat_term s) Q"
  by (auto simp: skip_inserted_terms_def skip_terms_def expect_term_def eat_term_def intro!: production)

lemma yields_mk_node [production]: "(\<And>x. Q x s) \<Longrightarrow> yields (mk_node start k s) Q"
  by (auto simp: mk_node_def intro!: production)

lemma yields_spanned [production]: "(\<And>x. Q x s) \<Longrightarrow> yields (spanned start f s) Q"
  by (auto simp: spanned_def intro!: production)

text \<open>A scoped setting holds for the production inside only.\<close>

lemma yields_scoped [production]:
  "yields (m (s\<lparr>ps_no_struct_lit := \<not> allowed\<rparr>)) (\<lambda>x s'. settings s' = settings (s\<lparr>ps_no_struct_lit := \<not> allowed\<rparr>) \<and>
      (\<forall>s''. settings s'' = settings s \<longrightarrow> remaining s'' = remaining s' \<longrightarrow> Q x s'')) \<Longrightarrow>
   yields (with_struct_lit allowed m s) Q"
  "yields (m (s\<lparr>ps_in_trait_body := inside\<rparr>)) (\<lambda>x s'. settings s' = settings (s\<lparr>ps_in_trait_body := inside\<rparr>) \<and>
      (\<forall>s''. settings s'' = settings s \<longrightarrow> remaining s'' = remaining s' \<longrightarrow> Q x s'')) \<Longrightarrow>
   yields (with_trait_body inside m s) Q"
  "yields (m (s\<lparr>ps_in_members := True\<rparr>)) (\<lambda>x s'. settings s' = settings (s\<lparr>ps_in_members := True\<rparr>) \<and>
      (\<forall>s''. settings s'' = settings s \<longrightarrow> remaining s'' = remaining s' \<longrightarrow> Q x s'')) \<Longrightarrow>
   yields (with_members m s) Q"
  "yields (m (s\<lparr>ps_depth := ps_depth s + 1\<rparr>)) (\<lambda>x s'. settings s' = settings (s\<lparr>ps_depth := ps_depth s + 1\<rparr>) \<and>
      (\<forall>s''. settings s'' = settings s \<longrightarrow> remaining s'' = remaining s' \<longrightarrow> Q x s'')) \<Longrightarrow>
   yields (nested m s) Q"
  by (auto simp: yields_def with_struct_lit_def with_trait_body_def with_members_def nested_def error_here_def
      fail_at_def settings_back settings_back [unfolded One_nat_def] split: sum.splits)

lemma yields_with_origin [production]:
  assumes "\<And>i. yields (m (s\<lparr>ps_origin := i\<rparr>)) (\<lambda>x s'. settings s' = settings (s\<lparr>ps_origin := i\<rparr>) \<and>
      (\<forall>s''. settings s'' = settings s \<longrightarrow> remaining s'' = remaining s' \<longrightarrow> Q x s''))"
  shows "yields (with_origin marker m s) Q"
proof -
  define i where "i = (case marker of Some i \<Rightarrow> i | None \<Rightarrow> ps_origin s)"
  have "with_origin marker m s =
      (case m (s\<lparr>ps_origin := i\<rparr>) of Inl e \<Rightarrow> Inl e | Inr (x, s') \<Rightarrow> Inr (x, s'\<lparr>ps_origin := ps_origin s\<rparr>))"
    by (simp add: with_origin_def i_def split: option.split)
  moreover have "settings s' = settings (s\<lparr>ps_origin := i\<rparr>) \<Longrightarrow> settings (s'\<lparr>ps_origin := ps_origin s\<rparr>) = settings s" for s'
    by (simp add: settings_def)
  ultimately show ?thesis
    using assms [of i] by (auto simp: yields_def split: sum.splits)
qed

section \<open>Loops\<close>

fun flows :: "parser \<Rightarrow> ('a, 'b) flow \<Rightarrow> parser \<Rightarrow> bool" where
  "flows s (Continue _) s' \<longleftrightarrow> later s s'"
| "flows s (Break _) s' \<longleftrightarrow> stays s s'"

text \<open>A loop whose body takes a token each time it continues comes to an end before its fuel does.\<close>

lemma yields_rounds:
  assumes body: "\<And>y s1. stays s0 s1 \<Longrightarrow> yields (body y s1) (flows s1)"
  shows "stays s0 s \<Longrightarrow> remaining s < n \<Longrightarrow> yields (rounds n body x s) (\<lambda>_ s'. stays s s')"
proof (induction n arbitrary: x s)
  case (Suc n)
  from body [OF Suc.prems(1), of x] show ?case
  proof (cases "body x s")
    case (Inr res)
    obtain fl s1 where res: "res = (fl, s1)" by fastforce
    show ?thesis
    proof (cases fl)
      case (Continue y)
      with body [OF Suc.prems(1), of x] Inr res have "later s s1"
        by (simp add: yields_def)
      then have "yields (rounds n body y s1) (\<lambda>_ s'. stays s1 s')"
        using Suc.IH [of s1 y] Suc.prems by simp
      then show ?thesis
        using Inr res Continue \<open>later s s1\<close> by (auto elim!: yields_mono)
    qed (use body [OF Suc.prems(1), of x] Inr res in \<open>simp add: yields_def\<close>)
  qed (simp add: yields_def)
qed simp

lemma yields_repeat [production]:
  assumes "\<And>y s1. stays s s1 \<Longrightarrow> yields (body y s1) (flows s1)" "\<And>y s'. stays s s' \<Longrightarrow> Q y s'"
  shows "yields (repeat_p body x s) Q"
  unfolding repeat_p_def using yields_rounds [of s body s "Suc (remaining s)" x] assms
  by (auto elim!: yields_mono)

section \<open>Paths and lists\<close>

lemma yields_parse_path [production]: "(\<And>x s'. later s s' \<Longrightarrow> Q x s') \<Longrightarrow> yields (parse_path s) Q"
  unfolding parse_path_def by (auto intro!: production simp: token_ahead)

lemma yields_parse_param_mode [production]: "(\<And>x s'. stays s s' \<Longrightarrow> Q x s') \<Longrightarrow> yields (parse_param_mode s) Q"
  unfolding parse_param_mode_def by (auto intro!: production)

lemma yields_comma_seq [production]:
  assumes "\<And>P s1. stays s s1 \<Longrightarrow> (\<And>x s2. stays s1 s2 \<Longrightarrow> P x s2) \<Longrightarrow> yields (m s1) P"
    and "\<And>x s'. stays s s' \<Longrightarrow> Q x s'"
  shows "yields (comma_seq closer m s) Q"
  unfolding comma_seq_def by (auto intro!: production assms)

lemma yields_comma_seq_opt [production]:
  assumes "\<And>P s1. stays s s1 \<Longrightarrow> (\<And>x s2. stays s1 s2 \<Longrightarrow> P x s2) \<Longrightarrow> yields (m s1) P"
    and "\<And>x s'. stays s s' \<Longrightarrow> Q x s'"
  shows "yields (comma_seq_opt closer m s) Q"
  unfolding comma_seq_opt_def by (auto intro!: production assms)

lemma yields_comma_lines [production]:
  assumes "\<And>P s1. stays s s1 \<Longrightarrow> (\<And>x s2. stays s1 s2 \<Longrightarrow> P x s2) \<Longrightarrow> yields (m s1) P"
    and "\<And>x s'. stays s s' \<Longrightarrow> Q x s'"
  shows "yields (comma_lines closer after m s) Q"
  unfolding comma_lines_def by (auto intro!: production assms)

lemma yields_more [production]:
  assumes "\<And>P s1. later s s1 \<Longrightarrow> (\<And>x s2. stays s1 s2 \<Longrightarrow> P x s2) \<Longrightarrow> yields (m s1) P"
    and "\<And>x s'. stays s s' \<Longrightarrow> Q x s'"
  shows "yields (more sep m xs s) Q"
  unfolding more_def by (auto intro!: production assms)

lemma yields_arms_of [production]:
  assumes "\<And>P s1. stays s s1 \<Longrightarrow> (\<And>x s2. later s1 s2 \<Longrightarrow> P x s2) \<Longrightarrow> yields (m s1) P"
    and "\<And>x s'. stays s s' \<Longrightarrow> Q x s'"
  shows "yields (arms_of m s) Q"
  unfolding arms_of_def consume_arm_separator_def by (auto intro!: production assms)

lemma yields_attr_group [production]:
  assumes "\<And>P s1. stays s s1 \<Longrightarrow> (\<And>x s2. stays s1 s2 \<Longrightarrow> P x s2) \<Longrightarrow> yields (m s1) P"
    and "\<And>x s'. later s s' \<Longrightarrow> Q x s'"
  shows "yields (attr_group m start s) Q"
  unfolding attr_group_def by (auto intro!: production assms)

end
