(* ===== verification/ParseTotal.thy ===== *)
theory ParseTotal
  imports ParseLogic
begin

text \<open>
  The recursive descent returns on every token list: the locale \<open>descent\<close> states what the outer productions
  give when fewer than \<open>n\<close> tokens are left, each production of \<open>parse.rs\<close> then returns with up to \<open>n\<close> of them
  left, and the levels of \<open>recs_at\<close> interpret it.
\<close>

definition answers :: "nat \<Rightarrow> 'a parse \<Rightarrow> bool" where
  "answers n m \<longleftrightarrow> (\<forall>s. remaining s < n \<longrightarrow> yields (m s) (\<lambda>_ s'. later s s'))"

lemma answersD:
  "answers n m \<Longrightarrow> remaining s < n \<Longrightarrow> (\<And>x s'. later s s' \<Longrightarrow> Q x s') \<Longrightarrow> yields (m s) Q"
  by (rule yields_mono [of "m s" "\<lambda>_ s'. later s s'"]) (simp_all add: answers_def)

lemma answersI:
  "(\<And>Q s. remaining s \<le> n \<Longrightarrow> (\<And>x s'. later s s' \<Longrightarrow> Q x s') \<Longrightarrow> yields (m s) Q) \<Longrightarrow> answers (Suc n) m"
  by (auto simp: answers_def)

locale descent =
  fixes n :: nat and r :: recs
  assumes outer_expr: "answers n (rc_expr r)"
    and outer_else: "answers n (rc_else r)"
    and outer_range: "answers n (rc_range r)"
    and outer_prefix: "answers n (rc_prefix r)"
    and outer_if: "answers n (rc_if r)"
    and outer_literal: "answers n (rc_literal r)"
    and outer_type: "answers n (rc_type r)"
    and outer_closed: "answers n (rc_closed r)"
    and outer_block: "answers n (rc_block r)"
    and outer_attr: "answers n (rc_attr r)"
    and outer_item: "answers n (rc_item r)"
begin

lemmas outer [production] =
  outer_expr [THEN answersD] outer_else [THEN answersD] outer_range [THEN answersD] outer_prefix [THEN answersD]
  outer_if [THEN answersD] outer_literal [THEN answersD] outer_type [THEN answersD] outer_closed [THEN answersD]
  outer_block [THEN answersD] outer_attr [THEN answersD] outer_item [THEN answersD]

section \<open>Strings and types\<close>

lemma fmt_parts [production]:
  "remaining s < n \<Longrightarrow> (\<And>x s'. stays s s' \<Longrightarrow> Q x s') \<Longrightarrow> yields (fmt_parts r s) Q"
  unfolding fmt_parts_def by (auto intro!: production dest: token_ahead(1) split: option.split tok.split)

lemma parse_interpolation [production]:
  "remaining s \<le> n \<Longrightarrow> (\<And>x s'. later s s' \<Longrightarrow> Q x s') \<Longrightarrow> yields (parse_interpolation r s) Q"
  unfolding parse_interpolation_def by (intro production conjI allI impI; auto intro: token_ahead)

lemma parse_string_literal [production]:
  "remaining s \<le> n \<Longrightarrow> (\<And>x s'. later s s' \<Longrightarrow> Q x s') \<Longrightarrow> yields (parse_string_literal r s) Q"
  unfolding parse_string_literal_def
  by (auto intro!: production dest: token_ahead(1) split: option.split tok.split)

lemma row_payload [production]:
  "remaining s \<le> n \<Longrightarrow> (\<And>x s'. stays s s' \<Longrightarrow> Q x s') \<Longrightarrow> yields (row_payload r s) Q"
  unfolding row_payload_def by (intro production conjI allI impI; auto intro: token_ahead)

lemma parse_error_row [production]:
  "remaining s \<le> n \<Longrightarrow> (\<And>x s'. later s s' \<Longrightarrow> Q x s') \<Longrightarrow> yields (parse_error_row r s) Q"
  unfolding parse_error_row_def by (intro production conjI allI impI; auto intro: token_ahead)

lemma parse_row_or_bare_path [production]:
  "remaining s \<le> n \<Longrightarrow> (\<And>x s'. later s s' \<Longrightarrow> Q x s') \<Longrightarrow> yields (parse_row_or_bare_path r s) Q"
  unfolding parse_row_or_bare_path_def by (intro production conjI allI impI; auto intro: token_ahead)

lemma parse_ret_type [production]:
  "remaining s < n \<Longrightarrow> (\<And>x s'. later s s' \<Longrightarrow> Q x s') \<Longrightarrow> yields (parse_ret_type r s) Q"
  unfolding parse_ret_type_def by (intro production conjI allI impI; auto intro: token_ahead)

lemma parse_type_args [production]:
  "remaining s \<le> n \<Longrightarrow> (\<And>x s'. later s s' \<Longrightarrow> Q x s') \<Longrightarrow> yields (parse_type_args r s) Q"
  unfolding parse_type_args_def by (intro production conjI allI impI; auto intro: token_ahead)

lemma parse_fn_type [production]:
  "0 < remaining s \<Longrightarrow> remaining s \<le> n \<Longrightarrow> (\<And>x s'. later s s' \<Longrightarrow> Q x s') \<Longrightarrow> yields (parse_fn_type r s) Q"
  unfolding parse_fn_type_def by (intro production conjI allI impI; auto intro: token_ahead)

lemma parse_type_kind [production]:
  "remaining s \<le> n \<Longrightarrow> (\<And>x s'. later s s' \<Longrightarrow> Q x s') \<Longrightarrow> yields (parse_type_kind r s) Q"
  unfolding parse_type_kind_def by (intro production conjI allI impI; auto intro: token_ahead)

lemma parse_type_inner [production]:
  "remaining s \<le> n \<Longrightarrow> (\<And>x s'. later s s' \<Longrightarrow> Q x s') \<Longrightarrow> yields (parse_type_inner r s) Q"
  unfolding parse_type_inner_def by (intro production conjI allI impI; auto intro: token_ahead)

lemma parse_type [production]:
  "remaining s \<le> n \<Longrightarrow> (\<And>x s'. later s s' \<Longrightarrow> Q x s') \<Longrightarrow> yields (parse_type r s) Q"
  unfolding parse_type_def by (intro production conjI allI impI; auto intro: token_ahead)

section \<open>Attributes, patterns and bindings\<close>

lemma parse_attributes [production]:
  "remaining s \<le> n \<Longrightarrow> (\<And>x s'. stays s s' \<Longrightarrow> Q x s') \<Longrightarrow> yields (parse_attributes r s) Q"
  unfolding parse_attributes_def Let_def by (intro production conjI allI impI; auto intro: token_ahead)

lemma parse_visibility [production]:
  "(\<And>x s'. stays s s' \<Longrightarrow> Q x s') \<Longrightarrow> yields (parse_visibility s) Q"
  unfolding parse_visibility_def Let_def by (intro production conjI allI impI; auto intro: token_ahead)

lemma parse_pattern [production]:
  "remaining s < n \<Longrightarrow> (\<And>x s'. later s s' \<Longrightarrow> Q x s') \<Longrightarrow> yields (parse_pattern r s) Q"
  unfolding parse_pattern_def Let_def by (intro production conjI allI impI; auto intro: token_ahead)

lemma binding_keyword [production]:
  "(\<And>x s'. later s s' \<Longrightarrow> Q x s') \<Longrightarrow> yields (binding_keyword s) Q"
  unfolding binding_keyword_def Let_def by (intro production conjI allI impI; auto intro: token_ahead)

lemma binder_pattern [production]:
  "remaining s < n \<Longrightarrow> (\<And>x s'. later s s' \<Longrightarrow> Q x s') \<Longrightarrow> yields (binder_pattern r k s) Q"
  unfolding binder_pattern_def Let_def by (intro production conjI allI impI; auto intro: token_ahead)

lemma parse_binder [production]:
  "remaining s < n \<Longrightarrow> (\<And>x s'. later s s' \<Longrightarrow> Q x s') \<Longrightarrow> yields (parse_binder r k start s) Q"
  unfolding parse_binder_def Let_def by (intro production conjI allI impI; auto intro: token_ahead)

lemma parse_binding_group [production]:
  "remaining s \<le> n \<Longrightarrow> (\<And>x s'. later s s' \<Longrightarrow> Q x s') \<Longrightarrow> yields (parse_binding_group r s) Q"
  unfolding parse_binding_group_def Let_def by (intro production conjI allI impI; auto intro: token_ahead)


section \<open>Expressions\<close>

lemma parse_member [production]:
  "(\<And>x s'. later s s' \<Longrightarrow> Q x s') \<Longrightarrow> yields (parse_member s) Q"
  unfolding parse_member_def
  by (auto intro!: production dest: token_ahead(1) split: option.split tok.split)

lemma parse_arg [production]:
  "remaining s < n \<Longrightarrow> (\<And>x s'. later s s' \<Longrightarrow> Q x s') \<Longrightarrow> yields (parse_arg r s) Q"
  unfolding parse_arg_def Let_def by (intro production conjI allI impI; auto intro: token_ahead)

lemma parse_call_args [production]:
  "remaining s < n \<Longrightarrow> (\<And>x s'. later s s' \<Longrightarrow> Q x s') \<Longrightarrow> yields (parse_call_args r s) Q"
  unfolding parse_call_args_def Let_def by (intro production conjI allI impI; auto intro: token_ahead)

lemma parse_index_args [production]:
  "remaining s < n \<Longrightarrow> (\<And>x s'. later s s' \<Longrightarrow> Q x s') \<Longrightarrow> yields (parse_index_args r s) Q"
  unfolding parse_index_args_def Let_def by (intro production conjI allI impI; auto intro: token_ahead)

lemma field_value [production]:
  "remaining s \<le> n \<Longrightarrow> (\<And>x s'. stays s s' \<Longrightarrow> Q x s') \<Longrightarrow> yields (field_value r name s) Q"
  unfolding field_value_def Let_def by (intro production conjI allI impI; auto intro: token_ahead)

lemma parse_field_init [production]:
  "remaining s \<le> n \<Longrightarrow> (\<And>x s'. later s s' \<Longrightarrow> Q x s') \<Longrightarrow> yields (parse_field_init r s) Q"
  unfolding parse_field_init_def Let_def by (intro production conjI allI impI; auto intro: token_ahead)

lemma parse_struct_lit_body [production]:
  "remaining s \<le> n \<Longrightarrow> (\<And>x s'. later s s' \<Longrightarrow> Q x s') \<Longrightarrow> yields (parse_struct_lit_body r p start s) Q"
  unfolding parse_struct_lit_body_def Let_def by (intro production conjI allI impI; auto intro: token_ahead)

lemma parse_list_literal [production]:
  "remaining s \<le> n \<Longrightarrow> (\<And>x s'. later s s' \<Longrightarrow> Q x s') \<Longrightarrow> yields (parse_list_literal r s) Q"
  unfolding parse_list_literal_def Let_def by (intro production conjI allI impI; auto intro: token_ahead)

lemma paren_items [production]:
  "remaining s < n \<Longrightarrow> (\<And>x s'. stays s s' \<Longrightarrow> Q x s') \<Longrightarrow> yields (paren_items r s) Q"
  unfolding paren_items_def Let_def by (intro production conjI allI impI; auto intro: token_ahead)

lemma parse_paren_or_tuple [production]:
  "remaining s \<le> n \<Longrightarrow> (\<And>x s'. later s s' \<Longrightarrow> Q x s') \<Longrightarrow> yields (parse_paren_or_tuple r s) Q"
  unfolding parse_paren_or_tuple_def Let_def by (intro production conjI allI impI; auto intro: token_ahead)

lemma parse_moded_receiver [production]:
  "remaining s \<le> n \<Longrightarrow> (\<And>x s'. later s s' \<Longrightarrow> Q x s') \<Longrightarrow> yields (parse_moded_receiver r s) Q"
  unfolding parse_moded_receiver_def Let_def by (intro production conjI allI impI; auto intro: token_ahead)

lemma block_expr [production]:
  "remaining s < n \<Longrightarrow> (\<And>x s'. later s s' \<Longrightarrow> Q x s') \<Longrightarrow> yields (block_expr r s) Q"
  unfolding block_expr_def Let_def by (intro production conjI allI impI; auto intro: token_ahead)

lemma parse_while [production]:
  "remaining s \<le> n \<Longrightarrow> (\<And>x s'. later s s' \<Longrightarrow> Q x s') \<Longrightarrow> yields (parse_while r s) Q"
  unfolding parse_while_def Let_def by (intro production conjI allI impI; auto intro: token_ahead)

lemma parse_for [production]:
  "remaining s \<le> n \<Longrightarrow> (\<And>x s'. later s s' \<Longrightarrow> Q x s') \<Longrightarrow> yields (parse_for r s) Q"
  unfolding parse_for_def Let_def by (intro production conjI allI impI; auto intro: token_ahead)

lemma parse_arm_body [production]:
  "remaining s < n \<Longrightarrow> (\<And>x s'. later s s' \<Longrightarrow> Q x s') \<Longrightarrow> yields (parse_arm_body r s) Q"
  unfolding parse_arm_body_def Let_def by (intro production conjI allI impI; auto intro: token_ahead)

lemma parse_match_arm [production]:
  "remaining s < n \<Longrightarrow> (\<And>x s'. later s s' \<Longrightarrow> Q x s') \<Longrightarrow> yields (parse_match_arm r s) Q"
  unfolding parse_match_arm_def Let_def by (intro production conjI allI impI; auto intro: token_ahead)

lemma parse_match [production]:
  "remaining s \<le> n \<Longrightarrow> (\<And>x s'. later s s' \<Longrightarrow> Q x s') \<Longrightarrow> yields (parse_match r s) Q"
  unfolding parse_match_def Let_def by (intro production conjI allI impI; auto intro: token_ahead)

lemma select_arm_head [production]:
  "remaining s < n \<Longrightarrow> (\<And>x s'. later s s' \<Longrightarrow> Q x s') \<Longrightarrow> yields (select_arm_head r s) Q"
  unfolding select_arm_head_def Let_def by (intro production conjI allI impI; auto intro: token_ahead)

lemma parse_select_arm [production]:
  "remaining s < n \<Longrightarrow> (\<And>x s'. later s s' \<Longrightarrow> Q x s') \<Longrightarrow> yields (parse_select_arm r s) Q"
  unfolding parse_select_arm_def Let_def by (intro production conjI allI impI; auto intro: token_ahead)

lemma parse_select [production]:
  "remaining s \<le> n \<Longrightarrow> (\<And>x s'. later s s' \<Longrightarrow> Q x s') \<Longrightarrow> yields (parse_select r s) Q"
  unfolding parse_select_def Let_def by (intro production conjI allI impI; auto intro: token_ahead)

lemma parse_when [production]:
  "remaining s \<le> n \<Longrightarrow> (\<And>x s'. later s s' \<Longrightarrow> Q x s') \<Longrightarrow> yields (parse_when r s) Q"
  unfolding parse_when_def Let_def by (intro production conjI allI impI; auto intro: token_ahead)

lemma parse_region_cap [production]:
  "remaining s \<le> n \<Longrightarrow> (\<And>x s'. later s s' \<Longrightarrow> Q x s') \<Longrightarrow> yields (parse_region_cap r s) Q"
  unfolding parse_region_cap_def Let_def by (intro production conjI allI impI; auto intro: token_ahead)

lemma parse_region_strategy [production]:
  "remaining s \<le> n \<Longrightarrow> (\<And>x s'. later s s' \<Longrightarrow> Q x s') \<Longrightarrow> yields (parse_region_strategy r s) Q"
  unfolding parse_region_strategy_def Let_def by (intro production conjI allI impI; auto intro: token_ahead)

lemma parse_region_value [production]:
  "0 < remaining s \<Longrightarrow> remaining s \<le> n \<Longrightarrow> (\<And>x s'. later s s' \<Longrightarrow> Q x s') \<Longrightarrow> yields (parse_region_value r start s) Q"
  unfolding parse_region_value_def Let_def by (intro production conjI allI impI; auto intro: token_ahead)

lemma opt_ident [production]:
  "(\<And>x s'. stays s s' \<Longrightarrow> Q x s') \<Longrightarrow> yields (opt_ident s) Q"
  unfolding opt_ident_def Let_def by (intro production conjI allI impI; auto intro: token_ahead)

lemma parse_region_sugar [production]:
  "remaining s < n \<Longrightarrow> (\<And>x s'. later s s' \<Longrightarrow> Q x s') \<Longrightarrow> yields (parse_region_sugar r start s) Q"
  unfolding parse_region_sugar_def Let_def by (intro production conjI allI impI; auto intro: token_ahead)

lemma parse_region [production]:
  "remaining s \<le> n \<Longrightarrow> (\<And>x s'. later s s' \<Longrightarrow> Q x s') \<Longrightarrow> yields (parse_region r s) Q"
  unfolding parse_region_def Let_def by (intro production conjI allI impI; auto intro: token_ahead)

lemma parse_captures [production]:
  "0 < remaining s \<Longrightarrow> (\<And>x s'. later s s' \<Longrightarrow> Q x s') \<Longrightarrow> yields (parse_captures s) Q"
  unfolding parse_captures_def Let_def by (intro production conjI allI impI; auto intro: token_ahead)

lemma skip_braces [production]:
  "(\<And>x s'. stays s s' \<Longrightarrow> Q x s') \<Longrightarrow> yields (skip_braces s) Q"
  unfolding skip_braces_def Let_def by (intro production conjI allI impI; auto intro: token_ahead)

lemma parse_unsafe [production]:
  "remaining s \<le> n \<Longrightarrow> (\<And>x s'. later s s' \<Longrightarrow> Q x s') \<Longrightarrow> yields (parse_unsafe r s) Q"
  unfolding parse_unsafe_def Let_def by (intro production conjI allI impI; auto intro: token_ahead)

lemma asm_direction [production]:
  "(\<And>x s'. stays s s' \<Longrightarrow> Q x s') \<Longrightarrow> yields (asm_direction s) Q"
  unfolding asm_direction_def Let_def by (intro production conjI allI impI; auto intro: token_ahead)

lemma parse_asm_operand [production]:
  "remaining s \<le> n \<Longrightarrow> (\<And>x s'. later s s' \<Longrightarrow> Q x s') \<Longrightarrow> yields (parse_asm_operand r s) Q"
  unfolding parse_asm_operand_def by (intro yields_advance_any production conjI allI impI; auto intro: token_ahead)

lemma parse_asm [production]:
  "remaining s \<le> n \<Longrightarrow> (\<And>x s'. later s s' \<Longrightarrow> Q x s') \<Longrightarrow> yields (parse_asm r s) Q"
  unfolding parse_asm_def Let_def by (intro production conjI allI impI; auto intro: token_ahead)

lemma parse_closure_param [production]:
  "remaining s \<le> n \<Longrightarrow> (\<And>x s'. later s s' \<Longrightarrow> Q x s') \<Longrightarrow> yields (parse_closure_param r s) Q"
  unfolding parse_closure_param_def Let_def by (intro production conjI allI impI; auto intro: token_ahead)

lemma parse_closure [production]:
  "remaining s \<le> n \<Longrightarrow> (\<And>x s'. later s s' \<Longrightarrow> Q x s') \<Longrightarrow> yields (parse_closure r s) Q"
  unfolding parse_closure_def Let_def by (intro production conjI allI impI; auto intro: token_ahead)


section \<open>Statements and blocks\<close>

lemma parse_assume [production]:
  "0 < remaining s \<Longrightarrow> remaining s \<le> n \<Longrightarrow> (\<And>x s'. later s s' \<Longrightarrow> Q x s') \<Longrightarrow> yields (parse_assume r attrs start s) Q"
  unfolding parse_assume_def Let_def by (intro production conjI allI impI; auto intro: token_ahead)

lemma push_pending_stmts [production]:
  "(\<And>x s'. stays s s' \<Longrightarrow> Q x s') \<Longrightarrow> yields (push_pending_stmts xs s) Q"
  unfolding push_pending_stmts_def Let_def by (intro production conjI allI impI; auto intro: token_ahead)

lemma parse_let [production]:
  "remaining s \<le> n \<Longrightarrow> (\<And>x s'. later s s' \<Longrightarrow> Q x s') \<Longrightarrow> yields (parse_let r attrs s) Q"
  unfolding parse_let_def Let_def by (intro production conjI allI impI; auto intro: token_ahead)

lemma parse_expr_stmt [production]:
  "remaining s < n \<Longrightarrow> (\<And>x s'. later s s' \<Longrightarrow> Q x s') \<Longrightarrow> yields (parse_expr_stmt r attrs start s) Q"
  unfolding parse_expr_stmt_def Let_def by (intro production conjI allI impI; auto intro: token_ahead)

lemma parse_stmt_inner [production]:
  "remaining s < n \<Longrightarrow> (\<And>x s'. later s s' \<Longrightarrow> Q x s') \<Longrightarrow> yields (parse_stmt_inner r attrs s) Q"
  unfolding parse_stmt_inner_def Let_def by (intro production conjI allI impI; auto intro: token_ahead)

lemma parse_stmt [production]:
  "remaining s < n \<Longrightarrow> (\<And>x s'. later s s' \<Longrightarrow> Q x s') \<Longrightarrow> yields (parse_stmt r s) Q"
  unfolding parse_stmt_def Let_def by (intro production conjI allI impI; auto intro: token_ahead)

lemma drain_stmts [production]:
  "(\<And>x s'. stays s s' \<Longrightarrow> Q x s') \<Longrightarrow> yields (drain_stmts xs s) Q"
  unfolding drain_stmts_def Let_def by (intro production conjI allI impI; auto intro: token_ahead)

lemma block_stmts [production]:
  "remaining s < n \<Longrightarrow> (\<And>x s'. stays s s' \<Longrightarrow> Q x s') \<Longrightarrow> yields (block_stmts r s) Q"
  unfolding block_stmts_def Let_def by (intro production conjI allI impI; auto intro: token_ahead)

lemma parse_block_inner [production]:
  "remaining s \<le> n \<Longrightarrow> (\<And>x s'. later s s' \<Longrightarrow> Q x s') \<Longrightarrow> yields (parse_block_inner r s) Q"
  unfolding parse_block_inner_def Let_def by (intro production conjI allI impI; auto intro: token_ahead)

lemma parse_block [production]:
  "remaining s \<le> n \<Longrightarrow> (\<And>x s'. later s s' \<Longrightarrow> Q x s') \<Longrightarrow> yields (parse_block r s) Q"
  unfolding parse_block_def Let_def by (intro production conjI allI impI; auto intro: token_ahead)


section \<open>The spine of expressions\<close>

lemma parse_jump_operand [production]:
  "0 < remaining s \<Longrightarrow> remaining s \<le> n \<Longrightarrow> (\<And>x s'. later s s' \<Longrightarrow> Q x s') \<Longrightarrow> yields (parse_jump_operand r k start s) Q"
  unfolding parse_jump_operand_def Let_def by (intro production conjI allI impI; auto intro: token_ahead)

lemma parse_bare_branch [production]:
  "remaining s < n \<Longrightarrow> (\<And>x s'. later s s' \<Longrightarrow> Q x s') \<Longrightarrow> yields (parse_bare_branch r s) Q"
  unfolding parse_bare_branch_def Let_def by (intro production conjI allI impI; auto intro: token_ahead)

lemma bare_else [production]:
  "remaining s \<le> n \<Longrightarrow> (\<And>x s'. stays s s' \<Longrightarrow> Q x s') \<Longrightarrow> yields (bare_else r s) Q"
  unfolding bare_else_def Let_def by (intro production conjI allI impI; auto intro: token_ahead)

lemma braced_else [production]:
  "remaining s \<le> n \<Longrightarrow> (\<And>x s'. stays s s' \<Longrightarrow> Q x s') \<Longrightarrow> yields (braced_else r s) Q"
  unfolding braced_else_def Let_def by (intro production conjI allI impI; auto intro: token_ahead)

lemma parse_if [production]:
  "remaining s \<le> n \<Longrightarrow> (\<And>x s'. later s s' \<Longrightarrow> Q x s') \<Longrightarrow> yields (parse_if r s) Q"
  unfolding parse_if_def Let_def by (intro production conjI allI impI; auto intro: token_ahead)

lemma token_expr [production]:
  "0 < remaining s \<Longrightarrow> (\<And>x s'. later s s' \<Longrightarrow> Q x s') \<Longrightarrow> yields (token_expr k s) Q"
  unfolding token_expr_def Let_def by (intro production conjI allI impI; auto intro: token_ahead)

lemma parse_in [production]:
  "0 < remaining s \<Longrightarrow> remaining s \<le> n \<Longrightarrow> (\<And>x s'. later s s' \<Longrightarrow> Q x s') \<Longrightarrow> yields (parse_in r s) Q"
  unfolding parse_in_def Let_def by (intro production conjI allI impI; auto intro: token_ahead)

lemma parse_scope [production]:
  "0 < remaining s \<Longrightarrow> remaining s \<le> n \<Longrightarrow> (\<And>x s'. later s s' \<Longrightarrow> Q x s') \<Longrightarrow> yields (parse_scope r s) Q"
  unfolding parse_scope_def Let_def by (intro production conjI allI impI; auto intro: token_ahead)

lemma parse_spawn [production]:
  "0 < remaining s \<Longrightarrow> remaining s \<le> n \<Longrightarrow> (\<And>x s'. later s s' \<Longrightarrow> Q x s') \<Longrightarrow> yields (parse_spawn r s) Q"
  unfolding parse_spawn_def Let_def by (intro production conjI allI impI; auto intro: token_ahead)

lemma parse_borrow [production]:
  "0 < remaining s \<Longrightarrow> remaining s \<le> n \<Longrightarrow> (\<And>x s'. later s s' \<Longrightarrow> Q x s') \<Longrightarrow> yields (parse_borrow r s) Q"
  unfolding parse_borrow_def Let_def by (intro production conjI allI impI; auto intro: token_ahead)

lemma parse_keyword_expr [production]:
  "0 < remaining s \<Longrightarrow> remaining s \<le> n \<Longrightarrow> (\<And>x s'. later s s' \<Longrightarrow> Q x s') \<Longrightarrow> yields (parse_keyword_expr r k s) Q"
  unfolding parse_keyword_expr_def Let_def by (intro production conjI allI impI; auto intro: token_ahead)

lemma parse_primary [production]:
  "remaining s \<le> n \<Longrightarrow> (\<And>x s'. later s s' \<Longrightarrow> Q x s') \<Longrightarrow> yields (parse_primary r s) Q"
  unfolding parse_primary_def
  by (auto intro!: production dest: token_ahead(1) split: option.split tok.split)

lemma postfix_step [production]:
  "remaining s < n \<Longrightarrow> yields (postfix_step r start e s) (flows s)"
  unfolding postfix_step_def Let_def by (intro production conjI allI impI; auto intro: token_ahead)

lemma parse_postfix [production]:
  "remaining s \<le> n \<Longrightarrow> (\<And>x s'. later s s' \<Longrightarrow> Q x s') \<Longrightarrow> yields (parse_postfix r s) Q"
  unfolding parse_postfix_def Let_def by (intro production conjI allI impI; auto intro: token_ahead)

lemma parse_prefix [production]:
  "remaining s \<le> n \<Longrightarrow> (\<And>x s'. later s s' \<Longrightarrow> Q x s') \<Longrightarrow> yields (parse_prefix r s) Q"
  unfolding parse_prefix_def Let_def by (intro production conjI allI impI; auto intro: token_ahead)

lemma parse_cast [production]:
  "remaining s \<le> n \<Longrightarrow> (\<And>x s'. later s s' \<Longrightarrow> Q x s') \<Longrightarrow> yields (parse_cast r s) Q"
  unfolding parse_cast_def Let_def by (intro production conjI allI impI; auto intro: token_ahead)


lemma parse_binary [production]:
  "remaining s \<le> n \<Longrightarrow> (\<And>x s'. later s s' \<Longrightarrow> Q x s') \<Longrightarrow> yields (parse_binary r t s) Q"
proof (induction t arbitrary: s Q)
  case (Suc t)
  show ?case
    using Suc.prems(1) unfolding parse_binary.simps climb_step_def
    by (intro production conjI allI impI Suc.IH; auto intro: token_ahead Suc.prems)
qed (simp add: parse_cast)

lemma parse_range_end [production]:
  "remaining s \<le> n \<Longrightarrow> (\<And>x s'. later s s' \<Longrightarrow> Q x s') \<Longrightarrow> yields (parse_range_end r s) Q"
  unfolding parse_range_end_def Let_def by (intro production conjI allI impI; auto intro: token_ahead)

lemma parse_range_expr [production]:
  "remaining s \<le> n \<Longrightarrow> (\<And>x s'. later s s' \<Longrightarrow> Q x s') \<Longrightarrow> yields (parse_range_expr r s) Q"
  unfolding parse_range_expr_def Let_def by (intro production conjI allI impI; auto intro: token_ahead)

lemma handler_body [production]:
  "remaining s < n \<Longrightarrow> (\<And>x s'. later s s' \<Longrightarrow> Q x s') \<Longrightarrow> yields (handler_body r s) Q"
  unfolding handler_body_def Let_def by (intro production conjI allI impI; auto intro: token_ahead)

lemma parse_else_handler [production]:
  "remaining s < n \<Longrightarrow> (\<And>x s'. later s s' \<Longrightarrow> Q x s') \<Longrightarrow> yields (parse_else_handler r s) Q"
  unfolding parse_else_handler_def Let_def by (intro production conjI allI impI; auto intro: token_ahead)

lemma parse_else_expr [production]:
  "remaining s \<le> n \<Longrightarrow> (\<And>x s'. later s s' \<Longrightarrow> Q x s') \<Longrightarrow> yields (parse_else_expr r s) Q"
  unfolding parse_else_expr_def Let_def by (intro production conjI allI impI; auto intro: token_ahead)

lemma parse_jump [production]:
  "0 < remaining s \<Longrightarrow> remaining s \<le> n \<Longrightarrow> (\<And>x s'. later s s' \<Longrightarrow> Q x s') \<Longrightarrow> yields (parse_jump r k s) Q"
  unfolding parse_jump_def Let_def by (intro production conjI allI impI; auto intro: token_ahead)

lemma parse_expr_inner [production]:
  "remaining s \<le> n \<Longrightarrow> (\<And>x s'. later s s' \<Longrightarrow> Q x s') \<Longrightarrow> yields (parse_expr_inner r s) Q"
  unfolding parse_expr_inner_def Let_def by (intro production conjI allI impI; auto intro: token_ahead)

lemma parse_expr [production]:
  "remaining s \<le> n \<Longrightarrow> (\<And>x s'. later s s' \<Longrightarrow> Q x s') \<Longrightarrow> yields (parse_expr r s) Q"
  unfolding parse_expr_def Let_def by (intro production conjI allI impI; auto intro: token_ahead)


section \<open>Literals, patterns and attributes\<close>

lemma parse_literal_only [production]:
  "remaining s \<le> n \<Longrightarrow> (\<And>x s'. later s s' \<Longrightarrow> Q x s') \<Longrightarrow> yields (parse_literal_only r s) Q"
  unfolding parse_literal_only_def Let_def by (intro production conjI allI impI; auto intro: token_ahead)

lemma range_literal [production]:
  "remaining s \<le> n \<Longrightarrow> (\<And>x s'. later s s' \<Longrightarrow> Q x s') \<Longrightarrow> yields (range_literal r s) Q"
  unfolding range_literal_def Let_def by (intro production conjI allI impI; auto intro: token_ahead)

lemma literal_or_range [production]:
  "remaining s \<le> n \<Longrightarrow> (\<And>x s'. stays s s' \<Longrightarrow> Q x s') \<Longrightarrow> yields (literal_or_range r lo s) Q"
  unfolding literal_or_range_def Let_def by (intro production conjI allI impI; auto intro: token_ahead)

lemma pattern_members [production]:
  "remaining s < n \<Longrightarrow> (\<And>x s'. later s s' \<Longrightarrow> Q x s') \<Longrightarrow> yields (pattern_members r s) Q"
  unfolding pattern_members_def Let_def by (intro production conjI allI impI; auto intro: token_ahead)

lemma parse_field_pat [production]:
  "remaining s \<le> n \<Longrightarrow> (\<And>x s'. later s s' \<Longrightarrow> Q x s') \<Longrightarrow> yields (parse_field_pat r s) Q"
  unfolding parse_field_pat_def Let_def by (intro production conjI allI impI; auto intro: token_ahead)

lemma parse_struct_pattern [production]:
  "remaining s \<le> n \<Longrightarrow> (\<And>x s'. later s s' \<Longrightarrow> Q x s') \<Longrightarrow> yields (parse_struct_pattern r p start s) Q"
  unfolding parse_struct_pattern_def Let_def by (intro production conjI allI impI; auto intro: token_ahead)

lemma parse_path_pattern [production]:
  "remaining s \<le> n \<Longrightarrow> (\<And>x s'. later s s' \<Longrightarrow> Q x s') \<Longrightarrow> yields (parse_path_pattern r start s) Q"
  unfolding parse_path_pattern_def Let_def by (intro production conjI allI impI; auto intro: token_ahead)

lemma parse_closed_pattern_inner [production]:
  "remaining s \<le> n \<Longrightarrow> (\<And>x s'. later s s' \<Longrightarrow> Q x s') \<Longrightarrow> yields (parse_closed_pattern_inner r s) Q"
  unfolding parse_closed_pattern_inner_def Let_def by (intro production conjI allI impI; auto intro: token_ahead)

lemma parse_closed_pattern [production]:
  "remaining s \<le> n \<Longrightarrow> (\<And>x s'. later s s' \<Longrightarrow> Q x s') \<Longrightarrow> yields (parse_closed_pattern r s) Q"
  unfolding parse_closed_pattern_def Let_def by (intro production conjI allI impI; auto intro: token_ahead)

lemma parse_attr_arg [production]:
  "remaining s < n \<Longrightarrow> (\<And>x s'. later s s' \<Longrightarrow> Q x s') \<Longrightarrow> yields (parse_attr_arg r s) Q"
  unfolding parse_attr_arg_def Let_def by (intro production conjI allI impI; auto intro: token_ahead)

lemma parse_attr [production]:
  "remaining s \<le> n \<Longrightarrow> (\<And>x s'. later s s' \<Longrightarrow> Q x s') \<Longrightarrow> yields (parse_attr r s) Q"
  unfolding parse_attr_def Let_def by (intro production conjI allI impI; auto intro: token_ahead)

lemma parse_inner_attributes [production]:
  "remaining s \<le> n \<Longrightarrow> (\<And>x s'. stays s s' \<Longrightarrow> Q x s') \<Longrightarrow> yields (parse_inner_attributes r s) Q"
  unfolding parse_inner_attributes_def Let_def by (intro production conjI allI impI; auto intro: token_ahead)


section \<open>Functions and declarations\<close>

lemma misplaced_ellipsis [production]: "0 < remaining s \<Longrightarrow> yields (misplaced_ellipsis s) Q"
  unfolding misplaced_ellipsis_def by (intro production)

lemma parse_ellipsis [production]:
  "0 < remaining s \<Longrightarrow> (\<And>x s'. later s s' \<Longrightarrow> Q x s') \<Longrightarrow> yields (parse_ellipsis membrane params mode s) Q"
  unfolding parse_ellipsis_def Let_def by (intro production conjI allI impI; auto intro: token_ahead)

lemma parse_view_set [production]:
  "(\<And>x s'. stays s s' \<Longrightarrow> Q x s') \<Longrightarrow> yields (parse_view_set s) Q"
  unfolding parse_view_set_def Let_def by (intro production conjI allI impI; auto intro: token_ahead)

lemma parse_param_kind [production]:
  "remaining s \<le> n \<Longrightarrow> (\<And>x s'. later s s' \<Longrightarrow> Q x s') \<Longrightarrow> yields (parse_param_kind r s) Q"
  unfolding parse_param_kind_def Let_def by (intro production conjI allI impI; auto intro: token_ahead)

lemma param_round [production]:
  "remaining s \<le> n \<Longrightarrow> yields (param_round r membrane params s) (flows s)"
  unfolding param_round_def Let_def by (intro production conjI allI impI; auto intro: token_ahead)

lemma parse_params [production]:
  "remaining s \<le> n \<Longrightarrow> (\<And>x s'. stays s s' \<Longrightarrow> Q x s') \<Longrightarrow> yields (parse_params r membrane s) Q"
  unfolding parse_params_def Let_def by (intro production conjI allI impI; auto intro: token_ahead)

lemma parse_bound [production]:
  "(\<And>x s'. later s s' \<Longrightarrow> Q x s') \<Longrightarrow> yields (parse_bound s) Q"
  unfolding parse_bound_def Let_def by (intro production conjI allI impI; auto intro: token_ahead)

lemma parse_generic_param [production]:
  "(\<And>x s'. later s s' \<Longrightarrow> Q x s') \<Longrightarrow> yields (parse_generic_param s) Q"
  unfolding parse_generic_param_def Let_def by (intro production conjI allI impI; auto intro: token_ahead)

lemma parse_generics [production]:
  "(\<And>x s'. stays s s' \<Longrightarrow> Q x s') \<Longrightarrow> yields (parse_generics s) Q"
  unfolding parse_generics_def Let_def by (intro production conjI allI impI; auto intro: token_ahead)

lemma fn_quals [production]:
  "remaining s \<le> n \<Longrightarrow> (\<And>x s'. stays s s' \<Longrightarrow> Q x s') \<Longrightarrow> yields (fn_quals r s) Q"
  unfolding fn_quals_def Let_def by (intro production conjI allI impI; auto intro: token_ahead)

lemma fn_body [production]:
  "remaining s < n \<Longrightarrow> (\<And>x s'. stays s s' \<Longrightarrow> Q x s') \<Longrightarrow> yields (fn_body r is_extern s) Q"
  unfolding fn_body_def Let_def by (intro production conjI allI impI; auto intro: token_ahead)

lemma parse_fn_decl [production]:
  "remaining s \<le> n \<Longrightarrow> (\<And>x s'. later s s' \<Longrightarrow> Q x s') \<Longrightarrow> yields (parse_fn_decl r s) Q"
  unfolding parse_fn_decl_def Let_def by (intro production conjI allI impI; auto intro: token_ahead)

lemma parse_extern_let [production]:
  "remaining s \<le> n \<Longrightarrow> (\<And>x s'. later s s' \<Longrightarrow> Q x s') \<Longrightarrow> yields (parse_extern_let r s) Q"
  unfolding parse_extern_let_def Let_def by (intro yields_advance_any production conjI allI impI; auto intro: token_ahead)

lemma def_head [production]:
  "(\<And>x s'. stays s s' \<Longrightarrow> Q x s') \<Longrightarrow> yields (def_head named s) Q"
  unfolding def_head_def Let_def by (intro production conjI allI impI; auto intro: token_ahead)

lemma parse_field [production]:
  "remaining s \<le> n \<Longrightarrow> (\<And>x s'. later s s' \<Longrightarrow> Q x s') \<Longrightarrow> yields (parse_field r s) Q"
  unfolding parse_field_def Let_def by (intro production conjI allI impI; auto intro: token_ahead)

lemma parse_struct_def [production]:
  "remaining s \<le> n \<Longrightarrow> (\<And>x s'. later s s' \<Longrightarrow> Q x s') \<Longrightarrow> yields (parse_struct_def r named s) Q"
  unfolding parse_struct_def_def Let_def by (intro production conjI allI impI; auto intro: token_ahead)

lemma parse_variant [production]:
  "remaining s \<le> n \<Longrightarrow> (\<And>x s'. later s s' \<Longrightarrow> Q x s') \<Longrightarrow> yields (parse_variant r s) Q"
  unfolding parse_variant_def Let_def by (intro production conjI allI impI; auto intro: token_ahead)

lemma parse_enum_def [production]:
  "remaining s \<le> n \<Longrightarrow> (\<And>x s'. later s s' \<Longrightarrow> Q x s') \<Longrightarrow> yields (parse_enum_def r named s) Q"
  unfolding parse_enum_def_def Let_def by (intro production conjI allI impI; auto intro: token_ahead)

lemma parse_type_alias [production]:
  "remaining s \<le> n \<Longrightarrow> (\<And>x s'. later s s' \<Longrightarrow> Q x s') \<Longrightarrow> yields (parse_type_alias r s) Q"
  unfolding parse_type_alias_def Let_def by (intro production conjI allI impI; auto intro: token_ahead)

lemma parse_error_alias [production]:
  "remaining s \<le> n \<Longrightarrow> (\<And>x s'. later s s' \<Longrightarrow> Q x s') \<Longrightarrow> yields (parse_error_alias r s) Q"
  unfolding parse_error_alias_def Let_def by (intro production conjI allI impI; auto intro: token_ahead)

lemma parse_use_segments [production]:
  "(\<And>x s'. stays s s' \<Longrightarrow> Q x s') \<Longrightarrow> yields (parse_use_segments segments s) Q"
  unfolding parse_use_segments_def Let_def by (intro production conjI allI impI; auto intro: token_ahead)

lemma parse_use_decl [production]:
  "(\<And>x s'. later s s' \<Longrightarrow> Q x s') \<Longrightarrow> yields (parse_use_decl r s) Q"
  unfolding parse_use_decl_def Let_def by (intro production conjI allI impI; auto intro: token_ahead)

lemma drain_items [production]:
  "(\<And>x s'. stays s s' \<Longrightarrow> Q x s') \<Longrightarrow> yields (drain_items xs s) Q"
  unfolding drain_items_def Let_def by (intro production conjI allI impI; auto intro: token_ahead)

lemma parse_members [production]:
  "remaining s < n \<Longrightarrow> (\<And>x s'. stays s s' \<Longrightarrow> Q x s') \<Longrightarrow> yields (parse_members r s) Q"
  unfolding parse_members_def Let_def by (intro production conjI allI impI; auto intro: token_ahead)

lemma parse_trait_def [production]:
  "remaining s \<le> n \<Longrightarrow> (\<And>x s'. later s s' \<Longrightarrow> Q x s') \<Longrightarrow> yields (parse_trait_def r s) Q"
  unfolding parse_trait_def_def Let_def by (intro production conjI allI impI; auto intro: token_ahead)

lemma parse_impl_def [production]:
  "remaining s \<le> n \<Longrightarrow> (\<And>x s'. later s s' \<Longrightarrow> Q x s') \<Longrightarrow> yields (parse_impl_def r s) Q"
  unfolding parse_impl_def_def Let_def by (intro production conjI allI impI; auto intro: token_ahead)

lemma push_pending_items [production]:
  "(\<And>x s'. stays s s' \<Longrightarrow> Q x s') \<Longrightarrow> yields (push_pending_items xs s) Q"
  unfolding push_pending_items_def Let_def by (intro production conjI allI impI; auto intro: token_ahead)

lemma item_binding [production]:
  "remaining s \<le> n \<Longrightarrow> (\<And>x s'. later s s' \<Longrightarrow> Q x s') \<Longrightarrow> yields (item_binding r attrs v s) Q"
  unfolding item_binding_def Let_def by (intro production conjI allI impI; auto intro: token_ahead)

lemma parse_import_c [production]:
  "0 < remaining s \<Longrightarrow> remaining s \<le> n \<Longrightarrow> (\<And>x s'. later s s' \<Longrightarrow> Q x s') \<Longrightarrow> yields (parse_import_c r s) Q"
  unfolding parse_import_c_def Let_def by (intro production conjI allI impI; auto intro: token_ahead)

lemma not_an_item [production]: "yields (not_an_item s) Q"
  unfolding not_an_item_def by (intro production)

lemma parse_item_kind [production]:
  "remaining s \<le> n \<Longrightarrow> (\<And>x s'. later s s' \<Longrightarrow> Q x s') \<Longrightarrow> yields (parse_item_kind r attrs v s) Q"
  unfolding parse_item_kind_def Let_def by (intro production conjI allI impI; auto intro: token_ahead)

lemma parse_item_inner [production]:
  "remaining s \<le> n \<Longrightarrow> (\<And>x s'. later s s' \<Longrightarrow> Q x s') \<Longrightarrow> yields (parse_item_inner r attrs s) Q"
  unfolding parse_item_inner_def Let_def by (intro production conjI allI impI; auto intro: token_ahead)

lemma parse_item [production]:
  "remaining s \<le> n \<Longrightarrow> (\<And>x s'. later s s' \<Longrightarrow> Q x s') \<Longrightarrow> yields (parse_item r s) Q"
  unfolding parse_item_def Let_def by (intro production conjI allI impI; auto intro: token_ahead)


section \<open>One level of the knot\<close>

lemma next_level:
  "descent (Suc n) \<lparr>rc_expr = parse_expr r, rc_else = parse_else_expr r, rc_range = parse_range_expr r,
     rc_prefix = parse_prefix r, rc_if = parse_if r, rc_literal = parse_literal_only r, rc_type = parse_type r,
     rc_closed = parse_closed_pattern r, rc_block = parse_block r, rc_attr = parse_attr r, rc_item = parse_item r\<rparr>"
  by (rule descent.intro; simp only: recs.select_convs; rule answersI; rule production; simp)

section \<open>Units\<close>

lemma unit_items [production]:
  "remaining s < n \<Longrightarrow> (\<And>x s'. stays s s' \<Longrightarrow> Q x s') \<Longrightarrow> yields (unit_items r s) Q"
  unfolding unit_items_def by (intro production conjI allI impI; auto intro: token_ahead)

lemma set_origin [production]: "(\<And>s'. remaining s' = remaining s \<Longrightarrow> Q () s') \<Longrightarrow> yields (set_origin marker s) Q"
  by (auto simp: yields_def set_origin_def split: option.split)

lemma parse_unit:
  "remaining s < n \<Longrightarrow> (\<And>x s'. remaining s' \<le> remaining s \<Longrightarrow> Q x s') \<Longrightarrow> yields (parse_unit r s) Q"
  unfolding parse_unit_def by (intro production conjI allI impI; auto)

end

lemma descent_levels: "descent n (recs_at n)"
proof (induction n)
  case 0
  show ?case by unfold_locales (simp_all add: answers_def)
next
  case (Suc n)
  then show ?case by (simp add: Let_def descent.next_level)
qed

interpretation knot: descent n "recs_at n" for n
  by (rule descent_levels)

lemma parse_not_stuck: "parse_tokens target tokens \<noteq> Inl Stuck"
proof -
  have "yields (parse_unit (recs_at (Suc (length tokens))) (new_parser target tokens)) (\<lambda>_ _. True)"
    by (rule knot.parse_unit) (simp_all add: remaining_def new_parser_def)
  then show ?thesis
    by (auto simp: parse_tokens_def yields_def split: sum.splits)
qed

text \<open>C8: the parser returns on every token list, with the tree of the unit or with the one diagnostic of the
  parse: no loop of the recursive descent runs out of rounds and no recursion goes on without taking tokens.\<close>

lemma parse_total: "(\<exists>u. parse_tokens target tokens = Inr u) \<or> (\<exists>d. parse_tokens target tokens = Inl (PDiag d))"
  using parse_not_stuck [of target tokens] by (metis parse_error.exhaust sum.exhaust)

end
