(* ===== verification/ParseFirst.thy ===== *)
theory ParseFirst
  imports ParseTotal Lexer
begin

text \<open>
  The first diagnostic of the frontend (\<open>first_of\<close>) and the scan for delimiters that are never closed. The
  delimiter kinds are the opening punctuation; the innermost group is the last of the stack, as in the source.
\<close>

section \<open>Searching\<close>

text \<open>The first element with the least key; the last index with a property.\<close>

fun min_by_key :: "('a \<Rightarrow> nat) \<Rightarrow> 'a list \<Rightarrow> 'a option" where
  "min_by_key k [] = None"
| "min_by_key k (x # xs) = (case min_by_key k xs of Some y \<Rightarrow> Some (if k x \<le> k y then x else y) | None \<Rightarrow> Some x)"

fun rposition :: "('a \<Rightarrow> bool) \<Rightarrow> 'a list \<Rightarrow> nat option" where
  "rposition P [] = None"
| "rposition P (x # xs) =
     (case rposition P xs of Some i \<Rightarrow> Some (Suc i) | None \<Rightarrow> if P x then Some 0 else None)"

definition diag_start :: "lex_diag \<Rightarrow> nat" where
  "diag_start d = span_start (ld_span d)"

lemma min_by_key_None [simp]: "min_by_key k xs = None \<longleftrightarrow> xs = []"
  by (cases xs) (auto split: option.split)

lemma min_by_key_Some: "min_by_key k xs = Some m \<Longrightarrow> m \<in> set xs \<and> (\<forall>x\<in>set xs. k m \<le> k x)"
  by (induction xs arbitrary: m) (auto split: option.splits if_splits)

lemma rposition_None: "rposition P xs = None \<longleftrightarrow> (\<forall>x\<in>set xs. \<not> P x)"
  by (induction xs) (auto split: option.splits)

lemma rposition_append:
  "rposition P (xs @ ys) = (case rposition P ys of Some i \<Rightarrow> Some (length xs + i) | None \<Rightarrow> rposition P xs)"
  by (induction xs) (auto split: option.splits)

section \<open>The delimiter scan\<close>

definition WRECK_KEYWORDS :: "string list" where
  "WRECK_KEYWORDS = [''let'', ''var'', ''const'', ''struct'', ''enum'', ''trait'', ''impl'', ''use'', ''import'']"

datatype group = GOpen punct span | GInterp

record delim_scan =
  ds_stack :: "group list"
  ds_wrecks :: "span list"

definition is_interp :: "group \<Rightarrow> bool" where
  "is_interp g \<longleftrightarrow> (case g of GInterp \<Rightarrow> True | GOpen _ _ \<Rightarrow> False)"

definition is_call_group :: "group \<Rightarrow> bool" where
  "is_call_group g \<longleftrightarrow> (case g of GOpen k _ \<Rightarrow> k = LParen \<or> k = LBracket | GInterp \<Rightarrow> False)"

definition opens_with :: "punct \<Rightarrow> group \<Rightarrow> bool" where
  "opens_with k g \<longleftrightarrow> (case g of GOpen k' _ \<Rightarrow> k' = k | GInterp \<Rightarrow> False)"

definition after_last :: "('a \<Rightarrow> bool) \<Rightarrow> 'a list \<Rightarrow> nat" where
  "after_last P xs = (case rposition P xs of Some i \<Rightarrow> Suc i | None \<Rightarrow> 0)"

definition wreck :: "group list \<Rightarrow> delim_scan \<Rightarrow> delim_scan" where
  "wreck left ds =
     (let spans = concat (map (\<lambda>g. case g of GOpen _ sp \<Rightarrow> [sp] | GInterp \<Rightarrow> []) left) in
      if spans = [] then ds else ds\<lparr>ds_wrecks := ds_wrecks ds @ [last spans]\<rparr>)"

definition innermost :: "delim_scan \<Rightarrow> (punct \<times> span) option" where
  "innermost ds =
     (if ds_stack ds = [] then None else case last (ds_stack ds) of GOpen k sp \<Rightarrow> Some (k, sp) | GInterp \<Rightarrow> None)"

text \<open>\<open>stack.drain(at..)\<close>, of which all but the first \<open>n\<close> are left open.\<close>

definition drain_wreck :: "nat \<Rightarrow> nat \<Rightarrow> delim_scan \<Rightarrow> delim_scan" where
  "drain_wreck at n ds = wreck (drop (at + n) (ds_stack ds)) (ds\<lparr>ds_stack := take at (ds_stack ds)\<rparr>)"

definition push_group :: "group \<Rightarrow> delim_scan \<Rightarrow> delim_scan" where
  "push_group g ds = ds\<lparr>ds_stack := ds_stack ds @ [g]\<rparr>"

definition opener_of :: "tok \<Rightarrow> punct option" where
  "opener_of t =
     (if t = Punct LParen then Some LParen
      else if t = Punct LBracket \<or> t = Punct HashBracket \<or> t = Punct HashBangBracket then Some LBracket
      else if t = Punct LBrace then Some LBrace else None)"

definition closer_of :: "tok \<Rightarrow> punct option" where
  "closer_of t =
     (if t = Punct RParen then Some LParen else if t = Punct RBracket then Some LBracket
      else if t = Punct RBrace then Some LBrace else None)"

definition is_wreck_keyword :: "tok \<Rightarrow> bool" where
  "is_wreck_keyword t \<longleftrightarrow> (case t of Kw w \<Rightarrow> w \<in> set (map ascii WRECK_KEYWORDS) | _ \<Rightarrow> False)"

text \<open>A closer looks no further out than its own interpolation.\<close>

definition close_group :: "punct \<Rightarrow> delim_scan \<Rightarrow> delim_scan" where
  "close_group k ds =
     (let floor = after_last is_interp (ds_stack ds) in
      case rposition (opens_with k) (drop floor (ds_stack ds)) of
        None \<Rightarrow> ds
      | Some i \<Rightarrow> drain_wreck (i + floor) 1 ds)"

definition delim_step :: "token \<Rightarrow> delim_scan \<Rightarrow> delim_scan" where
  "delim_step t ds =
     (case opener_of (tk_tok t) of
        Some k \<Rightarrow> push_group (GOpen k (tk_span t)) ds
      | None \<Rightarrow>
          if tk_tok t = InterpStart then push_group GInterp ds
          else if tk_tok t = InterpEnd
          then (case rposition is_interp (ds_stack ds) of Some i \<Rightarrow> drain_wreck i 1 ds | None \<Rightarrow> ds)
          else if is_wreck_keyword (tk_tok t)
          then (let keep = after_last (\<lambda>g. \<not> is_call_group g) (ds_stack ds) in
                if keep < length (ds_stack ds) then drain_wreck keep 0 ds else ds)
          else (case closer_of (tk_tok t) of Some k \<Rightarrow> close_group k ds | None \<Rightarrow> ds))"

definition finish :: "delim_scan \<Rightarrow> delim_scan" where
  "finish ds = wreck (ds_stack ds) (ds\<lparr>ds_stack := []\<rparr>)"

section \<open>The group of a parse error\<close>

fun group_closes :: "punct \<Rightarrow> punct option list \<Rightarrow> token list \<Rightarrow> bool" where
  "group_closes want local [] = False"
| "group_closes want local (t # ts) =
     (case opener_of (tk_tok t) of
        Some k \<Rightarrow> group_closes want (local @ [Some k]) ts
      | None \<Rightarrow>
          if tk_tok t = InterpStart then group_closes want (local @ [None]) ts
          else if tk_tok t = InterpEnd
          then (case rposition (\<lambda>g. g = None) local of
                  Some i \<Rightarrow> group_closes want (take i local) ts
                | None \<Rightarrow> False)
          else if is_wreck_keyword (tk_tok t)
          then (if local = [] \<or> last local = Some LParen \<or> last local = Some LBracket then False
                else group_closes want local ts)
          else (case closer_of (tk_tok t) of
                  None \<Rightarrow> group_closes want local ts
                | Some k \<Rightarrow>
                    if local = [] then k = want
                    else if last local = Some k then group_closes want (butlast local) ts
                    else False))"

text \<open>One token of the scan: the group that the first token at the error sits in is noted, \<open>None\<close> for no group.\<close>

type_synonym at_error = "((punct \<times> span) option \<times> nat) option"

definition scan_delim :: "nat option \<Rightarrow> nat \<times> token \<Rightarrow> delim_scan \<times> at_error \<Rightarrow> delim_scan \<times> at_error" where
  "scan_delim error_at it st =
     (let (i, t) = it; (ds, found) = st in
      (delim_step t ds,
       case (found, error_at) of
         (None, Some e) \<Rightarrow> if e \<le> span_start (tk_span t) then Some (innermost ds, i) else None
       | _ \<Rightarrow> found))"

definition scan_delims :: "token list \<Rightarrow> nat option \<Rightarrow> delim_scan \<times> at_error" where
  "scan_delims tokens error_at =
     fold (scan_delim error_at) (enumerate 0 tokens) (\<lparr>ds_stack = [], ds_wrecks = []\<rparr>, None)"

definition error_group_report :: "token list \<Rightarrow> at_error \<Rightarrow> span list" where
  "error_group_report tokens found =
     (case found of
        Some (Some (k, sp), i) \<Rightarrow>
          if (k = LParen \<or> k = LBracket) \<and> \<not> group_closes k [] (drop i tokens) then [sp] else []
      | _ \<Rightarrow> [])"

definition unclosed_delimiter :: "token list \<Rightarrow> nat option \<Rightarrow> lex_diag option" where
  "unclosed_delimiter tokens error_at =
     (let (ds, found) = scan_delims tokens error_at;
          reports = ds_wrecks (finish ds) @ error_group_report tokens found in
      map_option (\<lambda>sp. \<lparr>ld_code = E_UNEXPECTED_EOF, ld_span = mk_span (span_start sp) (span_start sp + 1)\<rparr>)
        (min_by_key span_start reports))"

section \<open>The first diagnostic\<close>

datatype tier = LexTier | ParseTier

datatype refusal = Refused lex_diag tier | Unanswered

definition first_error :: "lexer \<Rightarrow> lex_diag option" where
  "first_error lx = min_by_key diag_start (lx_errors lx)"

definition at_recovery :: "lexer \<Rightarrow> lex_diag \<Rightarrow> bool" where
  "at_recovery lx e \<longleftrightarrow> list_ex (\<lambda>t. tk_tok t = ErrorTok \<and> span_start (tk_span t) = diag_start e) (lx_tokens lx)"

definition parse_tier :: "lexer \<Rightarrow> parse_error + unit_node \<Rightarrow> lex_diag list" where
  "parse_tier lx parsed =
     lx_deferred lx @
     (case parsed of
        Inl (PDiag e) \<Rightarrow>
          (case unclosed_delimiter (lx_tokens lx) (Some (diag_start e)) of Some d \<Rightarrow> [d] | None \<Rightarrow> []) @
          (if at_recovery lx e then [] else [e])
      | _ \<Rightarrow> [])"

definition first_of :: "chars \<Rightarrow> lexer \<Rightarrow> refusal + unit_node \<times> lex_diag list" where
  "first_of target lx =
     (let parsed = parse_tokens target (lx_tokens lx) in
      case (first_error lx, min_by_key diag_start (parse_tier lx parsed)) of
        (Some l, Some p) \<Rightarrow> Inl (if diag_start p < diag_start l then Refused p ParseTier else Refused l LexTier)
      | (Some l, None) \<Rightarrow> Inl (Refused l LexTier)
      | (None, Some p) \<Rightarrow> Inl (Refused p ParseTier)
      | (None, None) \<Rightarrow>
          (case parsed of
             Inr u \<Rightarrow> Inr (u, lx_deferred lx)
           | Inl (PDiag e) \<Rightarrow> Inl (Refused e ParseTier)
           | Inl Stuck \<Rightarrow> Inl Unanswered))"

definition parse_source :: "unicode \<Rightarrow> chars \<Rightarrow> chars \<Rightarrow> refusal + unit_node \<times> lex_diag list" where
  "parse_source u target src = first_of target (lex u src)"

section \<open>What comes first\<close>

text \<open>Everything that the frontend found wrong with a file.\<close>

definition candidates :: "chars \<Rightarrow> lexer \<Rightarrow> lex_diag list" where
  "candidates target lx = lx_errors lx @ parse_tier lx (parse_tokens target (lx_tokens lx))"

lemma candidates_split:
  "first_error lx = Some l \<Longrightarrow> l \<in> set (lx_errors lx) \<and> (\<forall>c\<in>set (lx_errors lx). diag_start l \<le> diag_start c)"
  "first_error lx = None \<Longrightarrow> lx_errors lx = []"
  by (auto simp: first_error_def dest: min_by_key_Some)

text \<open>C20: the frontend refuses a file with a diagnostic that starts no later than any lex error, deferred finding,
  unclosed delimiter or parse error of the file, one of these when there is any; it accepts a file exactly when
  there is none and the parser returned its tree; and it always answers.\<close>

lemma first_of_earliest:
  "case first_of target lx of
     Inl (Refused d t) \<Rightarrow>
       (\<forall>c\<in>set (candidates target lx). diag_start d \<le> diag_start c) \<and>
       (d \<in> set (candidates target lx) \<or> parse_tokens target (lx_tokens lx) = Inl (PDiag d))
   | Inl Unanswered \<Rightarrow> False
   | Inr (u, deferred) \<Rightarrow>
       candidates target lx = [] \<and> deferred = [] \<and> parse_tokens target (lx_tokens lx) = Inr u"
proof -
  let ?parsed = "parse_tokens target (lx_tokens lx)"
  show ?thesis
  proof (cases "first_error lx")
    case None
    then have "lx_errors lx = []"
      by (rule candidates_split)
    show ?thesis
    proof (cases "min_by_key diag_start (parse_tier lx ?parsed)")
      case None
      then have "parse_tier lx ?parsed = []"
        by simp
      moreover from this have "lx_deferred lx = []"
        by (simp add: parse_tier_def)
      ultimately show ?thesis
        using \<open>lx_errors lx = []\<close> \<open>first_error lx = None\<close> parse_not_stuck [of target "lx_tokens lx"]
        by (auto simp: first_of_def candidates_def split: sum.split parse_error.split)
    next
      case (Some p)
      with min_by_key_Some [OF Some] \<open>lx_errors lx = []\<close> \<open>first_error lx = None\<close> show ?thesis
        by (simp add: first_of_def candidates_def)
    qed
  next
    case (Some l)
    note l = candidates_split(1) [OF Some]
    show ?thesis
    proof (cases "min_by_key diag_start (parse_tier lx ?parsed)")
      case None
      then show ?thesis
        using l Some by (auto simp: first_of_def candidates_def)
    next
      case (Some p)
      with l \<open>first_error lx = Some l\<close> show ?thesis
        using min_by_key_Some [OF Some] by (fastforce simp: first_of_def candidates_def Let_def)
    qed
  qed
qed

definition two_errors :: lexer where
  "two_errors = (new_lexer [])\<lparr>lx_errors := [\<lparr>ld_code = ''E0101'', ld_span = mk_span 7 8\<rparr>, \<lparr>ld_code = ''E0103'', ld_span = mk_span 3 4\<rparr>]\<rparr>"

lemma first_of_earliest_witness:
  "\<exists>d t. first_of [] two_errors = Inl (Refused d t) \<and> diag_start d \<le> 3"
  using first_of_earliest [of "[]" two_errors]
  by (auto simp: candidates_def two_errors_def diag_start_def mk_span_def split: sum.splits refusal.splits)

end
