(* ===== verification/ParseOps.thy ===== *)
theory ParseOps
  imports ParseTotal
begin

text \<open>
  The climb of the operator table reads_back back what its precedences and associativities print: an operator tree
  written without any parentheses but its own is parsed to that tree.
\<close>

lemma outer_productions [simp]:
  "rc_expr (recs_at (Suc n)) = parse_expr (recs_at n)" "rc_else (recs_at (Suc n)) = parse_else_expr (recs_at n)"
  "rc_range (recs_at (Suc n)) = parse_range_expr (recs_at n)" "rc_prefix (recs_at (Suc n)) = parse_prefix (recs_at n)"
  "rc_if (recs_at (Suc n)) = parse_if (recs_at n)" "rc_literal (recs_at (Suc n)) = parse_literal_only (recs_at n)"
  "rc_type (recs_at (Suc n)) = parse_type (recs_at n)" "rc_closed (recs_at (Suc n)) = parse_closed_pattern (recs_at n)"
  "rc_block (recs_at (Suc n)) = parse_block (recs_at n)" "rc_attr (recs_at (Suc n)) = parse_attr (recs_at n)"
  "rc_item (recs_at (Suc n)) = parse_item (recs_at n)"
  by (simp_all add: Let_def)

declare recs_at.simps(2) [simp del]

section \<open>The tokens ahead\<close>

definition upcoming :: "parser \<Rightarrow> tok list" where
  "upcoming s = map tk_tok (drop (ps_pos s) (ps_tokens s))"

definition jump :: "nat \<Rightarrow> parser \<Rightarrow> parser" where
  "jump k s = s\<lparr>ps_pos := ps_pos s + k\<rparr>"

lemma tok_at_upcoming: "tok_at k s = (if k < length (upcoming s) then Some (upcoming s ! k) else None)"
  by (auto simp: tok_at_def upcoming_def get_at_def)

lemma cur_upcoming: "cur s = (case upcoming s of [] \<Rightarrow> None | t # _ \<Rightarrow> Some t)"
  by (auto simp: cur_def tok_at_upcoming split: list.split)

lemma at_tok_upcoming: "at_tok t s \<longleftrightarrow> (\<exists>ts. upcoming s = t # ts)"
  by (auto simp: at_tok_def cur_upcoming split: list.split)

lemma remaining_upcoming: "remaining s = length (upcoming s)"
  by (simp add: remaining_def upcoming_def)

lemma bump_jump: "bump s = jump (Suc 0) s"
  by (simp add: bump_def jump_def)

lemma jump_simps [simp]:
  "jump i (jump k s) = jump (k + i) s" "upcoming (jump k s) = drop k (upcoming s)" "ps_depth (jump k s) = ps_depth s"
  "ps_no_struct_lit (jump k s) = ps_no_struct_lit s"
  "jump k (s\<lparr>ps_no_struct_lit := b\<rparr>) = (jump k s)\<lparr>ps_no_struct_lit := b\<rparr>"
  "jump k (s\<lparr>ps_depth := d\<rparr>) = (jump k s)\<lparr>ps_depth := d\<rparr>"
  "(jump k s)\<lparr>ps_no_struct_lit := ps_no_struct_lit s\<rparr> = jump k s" "(jump k s)\<lparr>ps_depth := ps_depth s\<rparr> = jump k s"
  by (simp_all add: jump_def upcoming_def drop_map add_ac)

lemma upcoming_updates [simp]:
  "upcoming (s\<lparr>ps_no_struct_lit := b\<rparr>) = upcoming s" "upcoming (s\<lparr>ps_depth := d\<rparr>) = upcoming s"
  by (simp_all add: upcoming_def)

lemma skip_inserted_terms_none: "cur s \<noteq> Some (Term False) \<Longrightarrow> skip_inserted_terms s = Inr ((), s)"
  by (cases "drop (ps_pos s) (ps_tokens s)")
    (auto simp: skip_inserted_terms_def cur_upcoming upcoming_def)

lemma skip_terms_none: "\<not> is_term (cur s) \<Longrightarrow> skip_terms s = Inr ((), s)"
  by (cases "drop (ps_pos s) (ps_tokens s)") (auto simp: skip_terms_def cur_upcoming upcoming_def)

text \<open>Tokens at consecutive columns.\<close>

definition at_columns :: "tok list \<Rightarrow> token list" where
  "at_columns ts = map (\<lambda>i. \<lparr>tk_tok = ts ! i, tk_span = mk_span i (i + 1)\<rparr>) [0..<length ts]"

lemma upcoming_at_columns: "upcoming (new_parser target (at_columns ts)) = ts"
  by (simp add: upcoming_def new_parser_def at_columns_def comp_def map_nth)

lemma depth_new_parser: "ps_depth (new_parser target ts) = 0" "ps_pending_stmts (new_parser target ts) = []"
  by (simp_all add: new_parser_def)

section \<open>Running productions\<close>

lemmas run = bind_def seqp_def ret_def if_eat_def advance_def mk_node_def spanned_def eat_def opt_eat_def
  expect_tok_def bump_jump at_tok_upcoming tok_at_upcoming

lemma repeat_break: "body x s = Inr (Break y, s') \<Longrightarrow> repeat_p body x s = Inr (y, s')"
  by (simp add: repeat_p_def)

text \<open>Enough fuel is as good as any other fuel.\<close>

lemma rounds_fuel:
  assumes body: "\<And>y s1. stays s0 s1 \<Longrightarrow> yields (body y s1) (flows s1)"
  shows "stays s0 s \<Longrightarrow> remaining s < m \<Longrightarrow> remaining s < k \<Longrightarrow> rounds m body x s = rounds k body x s"
proof (induction m arbitrary: k x s)
  case (Suc m)
  then obtain k' where k: "k = Suc k'" by (cases k) auto
  show ?case
  proof (cases "body x s")
    case (Inr res)
    obtain fl s1 where res: "res = (fl, s1)" by fastforce
    show ?thesis
    proof (cases fl)
      case (Continue y)
      with body [OF Suc.prems(1), of x] Inr res have "later s s1"
        by (simp add: yields_def)
      with Suc.IH [of s1 k' y] Suc.prems show ?thesis
        using Inr res Continue by (simp add: k)
    qed (simp add: k Inr res)
  qed (simp add: k)
qed simp

lemma repeat_continue:
  assumes body: "\<And>y s1. stays s s1 \<Longrightarrow> yields (body y s1) (flows s1)"
    and step: "body x s = Inr (Continue y, s')"
  shows "repeat_p body x s = repeat_p body y s'"
proof -
  have "later s s'"
    using body [of s x] step by (simp add: yields_def)
  then show ?thesis
    unfolding repeat_p_def using rounds_fuel [of s body s' "remaining s" "Suc (remaining s')" y] body step
    by simp
qed

section \<open>Operator trees\<close>

datatype sketch = SkName chars | SkInt chars | SkParen sketch | SkBin binary_op sketch sketch

definition op_punct :: "binary_op \<Rightarrow> punct" where
  "op_punct b =
     (case b of
        BMul \<Rightarrow> Star | BDiv \<Rightarrow> Slash | BRem \<Rightarrow> Percent | BAdd \<Rightarrow> Plus | BSub \<Rightarrow> Minus | BShl \<Rightarrow> Shl | BShr \<Rightarrow> Shr
      | BBitAnd \<Rightarrow> Amp | BBitXor \<Rightarrow> Caret | BBitOr \<Rightarrow> Pipe | BEq \<Rightarrow> EqEq | BNe \<Rightarrow> Ne | BLt \<Rightarrow> Lt | BGt \<Rightarrow> Gt
      | BLe \<Rightarrow> Le | BGe \<Rightarrow> Ge | BCmp \<Rightarrow> Spaceship | BAnd \<Rightarrow> AndAnd | BOr \<Rightarrow> OrOr)"

definition op_tier :: "binary_op \<Rightarrow> nat" where
  "op_tier b = (case punct_op (op_punct b) of Some (t, _) \<Rightarrow> t | None \<Rightarrow> 0)"

fun render :: "sketch \<Rightarrow> tok list" where
  "render (SkName x) = [Ident x]"
| "render (SkInt t) = [IntLit t]"
| "render (SkParen e) = Punct LParen # render e @ [Punct RParen]"
| "render (SkBin b x y) = render x @ Punct (op_punct b) # render y"

text \<open>Trees the tiers up to \<open>t\<close> may print: left operands at the operator's own tier unless it does not
  associate, right operands below it.\<close>

fun prints_at :: "nat \<Rightarrow> sketch \<Rightarrow> bool" where
  "prints_at t (SkParen e) \<longleftrightarrow> prints_at 13 e"
| "prints_at t (SkBin b x y) \<longleftrightarrow>
     op_tier b \<le> t \<and> prints_at (if tier_assoc (op_tier b) = AssocNone then op_tier b - 1 else op_tier b) x \<and>
     prints_at (op_tier b - 1) y"
| "prints_at t e \<longleftrightarrow> True"

fun parens :: "sketch \<Rightarrow> nat" where
  "parens (SkParen e) = Suc (parens e)"
| "parens (SkBin b x y) = max (parens x) (parens y)"
| "parens e = 0"

text \<open>The expression that a tree stands for, whatever its spans.\<close>

inductive depicts :: "sketch \<Rightarrow> expr \<Rightarrow> bool" where
  "depicts (SkName x) (Node (EPath (Path [Name x sp1] sp2)) sp3)"
| "depicts (SkInt t) (Node (EInt t) sp)"
| "depicts x e \<Longrightarrow> depicts (SkParen x) (Node (EGroup e) sp)"
| "depicts x e \<Longrightarrow> depicts y f \<Longrightarrow> depicts (SkBin b x y) (Node (EBinary b e f) sp)"

text \<open>What may follow an operand of tier \<open>k\<close>: no operator that tier or a lower one would take.\<close>

definition stops :: "nat \<Rightarrow> tok list \<Rightarrow> bool" where
  "stops k rest \<longleftrightarrow>
     (case rest of
        [] \<Rightarrow> True
      | t # _ \<Rightarrow>
          t \<notin> set (kw ''as'' # kw ''else'' # map Punct [LParen, LBracket, Dot, Question, LBrace, DotDot, DotDotEq]) \<and>
          (case t of
             Punct p \<Rightarrow> (case punct_op p of Some (tier, _) \<Rightarrow> k < tier | None \<Rightarrow> True)
           | _ \<Rightarrow> True))"

lemma op_table: "punct_op (op_punct b) = Some (op_tier b, b)"
  by (cases b) (simp_all add: op_tier_def op_punct_def punct_op_def)

lemma op_tier_bounds: "5 \<le> op_tier b" "op_tier b \<le> 13"
  by (cases b; simp add: op_tier_def op_punct_def punct_op_def)+

lemma stops_mono: "stops k rest \<Longrightarrow> j \<le> k \<Longrightarrow> stops j rest"
  by (auto simp: stops_def split: list.splits tok.splits option.splits)

lemma stops_op: "k < op_tier b \<Longrightarrow> stops k (Punct (op_punct b) # rest)"
  by (simp add: stops_def op_table) (cases b; simp add: op_punct_def)

lemma stops_close: "stops k (Punct RParen # rest)"
  by (simp add: stops_def punct_op_def)

section \<open>Operands\<close>

lemma stops_not:
  assumes "stops k (upcoming s)"
  shows "\<not> at_p LParen s" "\<not> at_p LBracket s" "\<not> at_p Dot s" "\<not> at_p Question s" "\<not> at_p LBrace s"
    "\<not> at_p DotDot s" "\<not> at_p DotDotEq s" "\<not> at_kw ''as'' s" "\<not> at_kw ''else'' s"
  using assms by (auto simp: stops_def at_tok_upcoming)

lemma stops_no_op: "stops k (upcoming s) \<Longrightarrow> tier \<le> k \<Longrightarrow> binary_op_at_tier tier s = None"
  by (auto simp: stops_def binary_op_at_tier_def cur_upcoming split: list.splits tok.splits option.splits)

lemma postfix_none:
  assumes "parse_primary r s = Inr (e, s')" "stops k (upcoming s')"
    and "at_p LParen s \<Longrightarrow> tok_at 1 s \<noteq> Some (kw ''mut'') \<and> tok_at 1 s \<noteq> Some (kw ''take'')"
  shows "parse_postfix r s = Inr (e, s')"
proof -
  have "repeat_p (postfix_step r start) e s' = Inr (e, s')" for start
    using stops_not [OF assms(2)] by (intro repeat_break) (simp add: postfix_step_def ret_def)
  then show ?thesis
    using assms stops_not [OF assms(2)] by (auto simp: parse_postfix_def bind_def ret_def)
qed

lemma cast_none:
  assumes "parse_postfix r s = Inr (e, s')" "stops k (upcoming s')" "\<not> at_p Amp s" "prefix_op (cur s) = None"
  shows "parse_cast r s = Inr (e, s')"
proof -
  have "parse_prefix r s = Inr (e, s')"
    using assms by (simp add: parse_prefix_def)
  then show ?thesis
    using stops_not [OF assms(2)] unfolding parse_cast_def
    by (simp add: bind_def) (rule repeat_break, simp add: if_eat_def ret_def)
qed

lemma operand:
  assumes "parse_primary r s = Inr (e, s')" "stops k (upcoming s')"
    and "at_p LParen s \<Longrightarrow> tok_at 1 s \<noteq> Some (kw ''mut'') \<and> tok_at 1 s \<noteq> Some (kw ''take'')"
    and "\<not> at_p Amp s" "prefix_op (cur s) = None"
  shows "parse_cast r s = Inr (e, s')"
  using cast_none [OF postfix_none [OF assms(1-3)] assms(2,4,5)] .

lemma binary_below: "t < 5 \<Longrightarrow> parse_binary r t = parse_cast r"
  by (cases t) simp_all

lemma binary_tier: "5 \<le> Suc t \<Longrightarrow> parse_binary r (Suc t) = bind (parse_binary r t) (repeat_p (climb_step (Suc t) (parse_binary r t)))"
  by simp

lemma climb_flows:
  "remaining s \<le> n \<Longrightarrow> yields (climb_step k (parse_binary (recs_at n) t) e s) (flows s)"
  unfolding climb_step_def by (intro knot.parse_binary production conjI allI impI; auto intro: token_ahead)

lemma climb_none: "stops k (upcoming s) \<Longrightarrow> repeat_p (climb_step k operand) e s = Inr (e, s)"
  by (rule repeat_break) (simp add: climb_step_def stops_no_op ret_def)

section \<open>Reading trees back\<close>

definition reads_back :: "nat \<Rightarrow> nat \<Rightarrow> sketch \<Rightarrow> bool" where
  "reads_back n k x \<longleftrightarrow>
     (\<forall>s rest. upcoming s = render x @ rest \<longrightarrow> remaining s \<le> n \<longrightarrow> stops k rest \<longrightarrow> parens x + ps_depth s \<le> MAX_NESTING \<longrightarrow>
        (\<exists>e. depicts x e \<and> parse_binary (recs_at n) k s = Inr (e, jump (length (render x)) s)))"

text \<open>The tree has been read as the left operand so far, and the loop of its tier goes on after it.\<close>

definition enters :: "nat \<Rightarrow> nat \<Rightarrow> sketch \<Rightarrow> bool" where
  "enters n k x \<longleftrightarrow>
     (\<forall>s rest. upcoming s = render x @ rest \<longrightarrow> remaining s \<le> n \<longrightarrow> stops (k - 1) rest \<longrightarrow>
        parens x + ps_depth s \<le> MAX_NESTING \<longrightarrow>
        (\<exists>e. depicts x e \<and> parse_binary (recs_at n) k s =
           repeat_p (climb_step k (parse_binary (recs_at n) (k - 1))) e (jump (length (render x)) s)))"

lemma reads_back_enters:
  assumes "reads_back n (k - 1) x" "5 \<le> k"
  shows "enters n k x"
proof -
  from assms(2) obtain t where k: "k = Suc t" by (cases k) auto
  with assms(2) have tier: "parse_binary r k = bind (parse_binary r t) (repeat_p (climb_step k (parse_binary r t)))" for r
    by (simp only: binary_tier)
  show ?thesis
    using assms(1) unfolding reads_back_def enters_def tier by (fastforce simp: k bind_def)
qed

lemma enters_reads_back:
  assumes "enters n k x"
  shows "reads_back n k x"
  unfolding reads_back_def
proof (intro allI impI)
  fix s rest
  assume s: "upcoming s = render x @ rest" "remaining s \<le> n" "stops k rest" "parens x + ps_depth s \<le> MAX_NESTING"
  then obtain e where "depicts x e" "parse_binary (recs_at n) k s =
      repeat_p (climb_step k (parse_binary (recs_at n) (k - 1))) e (jump (length (render x)) s)"
    using assms stops_mono [OF s(3), of "k - 1"] by (auto simp: enters_def)
  moreover have "stops k (upcoming (jump (length (render x)) s))"
    using s by simp
  ultimately show "\<exists>e. depicts x e \<and> parse_binary (recs_at n) k s = Inr (e, jump (length (render x)) s)"
    by (auto simp: climb_none)
qed

lemma one_operator:
  assumes a: "enters n (op_tier b) x" and y: "reads_back n (op_tier b - 1) y"
    and s: "upcoming s = render (SkBin b x y) @ rest" "remaining s \<le> n" "stops (op_tier b - 1) rest"
      "parens (SkBin b x y) + ps_depth s \<le> MAX_NESTING"
  obtains e f where "depicts x e" "depicts y f"
    "parse_binary (recs_at n) (op_tier b) s =
       repeat_p (climb_step (op_tier b) (parse_binary (recs_at n) (op_tier b - 1))) e (jump (length (render x)) s)"
    "parse_binary (recs_at n) (op_tier b - 1) (jump (Suc (length (render x))) s) =
       Inr (f, jump (length (render (SkBin b x y))) s)"
    "binary_op_at_tier (op_tier b) (jump (length (render x)) s) = Some b"
proof -
  have "stops (op_tier b - 1) (Punct (op_punct b) # render y @ rest)"
    using op_tier_bounds(1) [of b] by (intro stops_op) simp
  with a s obtain e where e: "depicts x e" "parse_binary (recs_at n) (op_tier b) s =
       repeat_p (climb_step (op_tier b) (parse_binary (recs_at n) (op_tier b - 1))) e (jump (length (render x)) s)"
    by (fastforce simp: enters_def)
  have "upcoming (jump (Suc (length (render x))) s) = render y @ rest"
    using s(1) by simp
  with y s obtain f where f: "depicts y f"
    "parse_binary (recs_at n) (op_tier b - 1) (jump (Suc (length (render x))) s) =
       Inr (f, jump (length (render y)) (jump (Suc (length (render x))) s))"
    unfolding reads_back_def by (fastforce simp: remaining_upcoming)
  have "binary_op_at_tier (op_tier b) (jump (length (render x)) s) = Some b"
    using s(1) by (simp add: binary_op_at_tier_def cur_upcoming op_table)
  with e f that show thesis by (simp add: add_ac)
qed

lemma enters_operator:
  assumes x: "enters n (op_tier b) x" and y: "reads_back n (op_tier b - 1) y"
    and assoc: "tier_assoc (op_tier b) \<noteq> AssocNone"
  shows "enters n (op_tier b) (SkBin b x y)"
  unfolding enters_def
proof (intro allI impI)
  fix s rest
  let ?k = "op_tier b" and ?s1 = "jump (length (render x)) s" and ?s2 = "jump (length (render (SkBin b x y))) s"
  let ?body = "climb_step ?k (parse_binary (recs_at n) (?k - 1))"
  assume s: "upcoming s = render (SkBin b x y) @ rest" "remaining s \<le> n" "stops (?k - 1) rest"
    "parens (SkBin b x y) + ps_depth s \<le> MAX_NESTING"
  obtain e f where ef: "depicts x e" "depicts y f" "parse_binary (recs_at n) ?k s = repeat_p ?body e ?s1"
    "parse_binary (recs_at n) (?k - 1) (jump (Suc (length (render x))) s) = Inr (f, ?s2)"
    "binary_op_at_tier ?k ?s1 = Some b"
    by (rule one_operator [OF x y s])
  then have "?body e ?s1 = Inr (Continue (Node (EBinary b e f) (mk_span (span_start (nspan e)) (prev_end ?s2))), ?s2)"
    using assoc by (simp add: climb_step_def run)
  moreover have "yields (?body e' s1) (flows s1)" if "stays ?s1 s1" for e' s1
    using that s(2) by (intro climb_flows) (auto simp: remaining_upcoming)
  ultimately have "repeat_p ?body e ?s1 =
      repeat_p ?body (Node (EBinary b e f) (mk_span (span_start (nspan e)) (prev_end ?s2))) ?s2"
    by (rule repeat_continue [rotated])
  with ef show "\<exists>e. depicts (SkBin b x y) e \<and> parse_binary (recs_at n) ?k s = repeat_p ?body e ?s2"
    by (metis depicts.intros(4))
qed

lemma reads_back_comparison:
  assumes x: "enters n (op_tier b) x" and y: "reads_back n (op_tier b - 1) y"
    and assoc: "tier_assoc (op_tier b) = AssocNone"
  shows "reads_back n (op_tier b) (SkBin b x y)"
  unfolding reads_back_def
proof (intro allI impI)
  fix s rest
  let ?k = "op_tier b" and ?s1 = "jump (length (render x)) s" and ?s2 = "jump (length (render (SkBin b x y))) s"
  let ?body = "climb_step ?k (parse_binary (recs_at n) (?k - 1))"
  assume s: "upcoming s = render (SkBin b x y) @ rest" "remaining s \<le> n" "stops ?k rest"
    "parens (SkBin b x y) + ps_depth s \<le> MAX_NESTING"
  obtain e f where ef: "depicts x e" "depicts y f" "parse_binary (recs_at n) ?k s = repeat_p ?body e ?s1"
    "parse_binary (recs_at n) (?k - 1) (jump (Suc (length (render x))) s) = Inr (f, ?s2)"
    "binary_op_at_tier ?k ?s1 = Some b"
    by (rule one_operator [OF x y s(1,2) stops_mono [OF s(3)] s(4)]) simp
  moreover have "binary_op_at_tier ?k ?s2 = None"
    using s(1,3) by (intro stops_no_op [of ?k]) auto
  ultimately have "repeat_p ?body e ?s1 = Inr (Node (EBinary b e f) (mk_span (span_start (nspan e)) (prev_end ?s2)), ?s2)"
    using assoc by (intro repeat_break) (simp add: climb_step_def run)
  with ef show "\<exists>e. depicts (SkBin b x y) e \<and> parse_binary (recs_at n) ?k s = Inr (e, ?s2)"
    by (metis depicts.intros(4))
qed

lemma render_start: "\<exists>t ts. render x = t # ts \<and> ((\<exists>c. t = Ident c) \<or> (\<exists>c. t = IntLit c) \<or> t = Punct LParen)"
  by (induction x) auto

lemma operand_start:
  assumes "upcoming s = render x @ rest"
  shows "\<not> at_kw w s" "\<not> at_p Amp s" "prefix_op (cur s) = None" "\<not> at_range_op s" "\<not> at_p Caret s"
    "cur s \<noteq> Some (Term False)" "\<not> at_p RParen s"
  using render_start [of x] assms
  by (auto simp: at_tok_upcoming cur_upcoming prefix_op_def at_range_op_def)

lemma expr_reads:
  assumes x: "reads_back n 13 x" and s: "upcoming s = render x @ rest" "remaining s \<le> n" "stops 13 rest"
    "parens x + ps_depth s < MAX_NESTING"
  shows "\<exists>e. depicts x e \<and> parse_expr (recs_at n) s = Inr (e, jump (length (render x)) s)"
proof -
  let ?s = "s\<lparr>ps_depth := ps_depth s + 1\<rparr>"
  have up: "upcoming ?s = render x @ rest"
    using s(1) by simp
  obtain e where e: "depicts x e" "parse_binary (recs_at n) 13 ?s = Inr (e, jump (length (render x)) ?s)"
    using x s up unfolding reads_back_def by fastforce
  have "stops 13 (upcoming (jump (length (render x)) ?s))"
    using s up by simp
  note ends = stops_not [OF this]
  have "parse_expr_inner (recs_at n) ?s = Inr (e, jump (length (render x)) ?s)"
    using e(2) ends operand_start [OF up] unfolding parse_expr_inner_def parse_else_expr_def parse_range_expr_def parse_range_end_def
    by (simp add: bind_def ret_def if_eat_def at_range_op_def)
  then show ?thesis
    using e(1) s(4) by (auto simp: parse_expr_def nested_def)
qed

lemma reads_back_name: "reads_back n 4 (SkName x)"
  unfolding reads_back_def
proof (intro allI impI)
  fix s rest
  assume s: "upcoming s = render (SkName x) @ rest" "stops 4 rest"
  then have stop: "stops 4 (upcoming (jump 1 s))"
    by simp
  have "expect_ident s = Inr (Name x (cur_span s), jump 1 s)"
    using s(1) by (simp add: expect_ident_def cur_upcoming bump_jump)
  then obtain sp where ast_path: "parse_path s = Inr (Path [Name x (cur_span s)] sp, jump 1 s)"
    using stops_not [OF stop] by (auto simp: parse_path_def bind_def repeat_break ret_def)
  then have "parse_primary (recs_at n) s =
      Inr (Node (EPath (Path [Name x (cur_span s)] sp)) (mk_span (cur_start s) (prev_end (jump 1 s))), jump 1 s)"
    using s(1) by (simp add: parse_primary_def cur_upcoming bind_def mk_node_def)
  moreover have "\<not> at_p LParen s"
    using s(1) by (simp add: at_tok_upcoming)
  ultimately show "\<exists>e. depicts (SkName x) e \<and> parse_binary (recs_at n) 4 s = Inr (e, jump (length (render (SkName x))) s)"
    using operand [OF _ stop] operand_start [OF s(1)] by (auto simp: binary_below intro!: depicts.intros)
qed

lemma reads_back_int: "reads_back n 4 (SkInt t)"
  unfolding reads_back_def
proof (intro allI impI)
  fix s rest
  assume s: "upcoming s = render (SkInt t) @ rest" "stops 4 rest"
  then have stop: "stops 4 (upcoming (jump 1 s))" and "\<not> at_p LParen s"
    by (simp_all add: at_tok_upcoming)
  moreover have "parse_primary (recs_at n) s = Inr (Node (EInt t) (mk_span (cur_start s) (prev_end (jump 1 s))), jump 1 s)"
    using s(1) by (simp add: parse_primary_def cur_upcoming token_expr_def run)
  ultimately show "\<exists>e. depicts (SkInt t) e \<and> parse_binary (recs_at n) 4 s = Inr (e, jump (length (render (SkInt t))) s)"
    using operand [OF _ stop] operand_start [OF s(1)] by (auto simp: binary_below intro!: depicts.intros)
qed

lemma reads_back_paren:
  assumes "\<And>m. m < n \<Longrightarrow> reads_back m 13 x"
  shows "reads_back n 4 (SkParen x)"
  unfolding reads_back_def
proof (intro allI impI)
  fix s rest
  let ?s1 = "(jump 1 s)\<lparr>ps_no_struct_lit := False\<rparr>" and ?k = "length (render (SkParen x))"
  assume s: "upcoming s = render (SkParen x) @ rest" "remaining s \<le> n" "stops 4 rest"
    "parens (SkParen x) + ps_depth s \<le> MAX_NESTING"
  then obtain m where n: "n = Suc m"
    by (cases n) (auto simp: remaining_upcoming)
  have up: "upcoming ?s1 = render x @ Punct RParen # rest"
    using s(1) by simp
  obtain e where e: "depicts x e" "parse_expr (recs_at m) ?s1 = Inr (e, jump (length (render x)) ?s1)"
    using expr_reads [OF assms up] s n by (auto simp: remaining_upcoming stops_close)
  let ?s2 = "(jump (Suc (length (render x))) s)\<lparr>ps_no_struct_lit := False\<rparr>"
  have close: "skip_inserted_terms ?s2 = Inr ((), ?s2)" "\<not> at_p Comma ?s2"
    using s(1) by (simp_all add: skip_inserted_terms_none cur_upcoming at_tok_upcoming)
  have "paren_items (recs_at n) ?s1 = Inr (([e], False), ?s2)"
    unfolding paren_items_def using e(2) up operand_start [OF up] close
    by (intro repeat_break) (simp add: n Let_def bind_def seqp_def ret_def if_eat_def skip_inserted_terms_none cur_upcoming at_tok_upcoming)
  then have prim: "parse_primary (recs_at n) s =
      Inr (Node (EGroup e) (mk_span (cur_start s) (prev_end (jump ?k s))), jump ?k s)"
    using s(1) by (simp add: parse_primary_def cur_upcoming parse_paren_or_tuple_def with_struct_lit_def run
        skip_inserted_terms_none cur_start_def)
  have stop: "stops 4 (upcoming (jump ?k s))"
    using s by simp
  have inner: "tok_at 1 s \<noteq> Some (kw w)" for w
    using render_start [of x] s(1) by (auto simp: tok_at_upcoming)
  have "parse_binary (recs_at n) 4 s = Inr (Node (EGroup e) (mk_span (cur_start s) (prev_end (jump ?k s))), jump ?k s)"
    unfolding binary_below [of 4, simplified] using operand_start [OF s(1)] by (intro operand [OF prim stop]) (simp_all add: inner [unfolded One_nat_def])
  then show "\<exists>e. depicts (SkParen x) e \<and> parse_binary (recs_at n) 4 s = Inr (e, jump ?k s)"
    using depicts.intros(3) [OF e(1)] by blast
qed

section \<open>The whole table\<close>

lemma no_assoc: "tier_assoc (op_tier b) = AssocNone \<longleftrightarrow> op_tier b = 11"
  using op_tier_bounds(2) [of b] unfolding tier_assoc_def PRECEDENCE_def by simp

lemma reads_back_up: "t \<le> k \<Longrightarrow> 4 \<le> t \<Longrightarrow> reads_back n t x \<Longrightarrow> reads_back n k x"
proof (induction rule: dec_induct)
  case (step k)
  then show ?case
    using reads_back_enters [of n "Suc k" x] by (intro enters_reads_back) simp
qed

lemma enters_up: "t < k \<Longrightarrow> 4 \<le> t \<Longrightarrow> reads_back n t x \<Longrightarrow> enters n k x"
  by (rule reads_back_enters [OF reads_back_up [of t]]) auto

lemma prints_read_back:
  "prints_at k x \<Longrightarrow> 4 \<le> k \<Longrightarrow> reads_back n k x \<and> (5 \<le> k \<longrightarrow> k \<noteq> 11 \<longrightarrow> enters n k x)"
proof (induction x arbitrary: k n)
  case (SkParen x)
  then have "reads_back m 13 x" for m
    by simp
  then have "reads_back n 4 (SkParen x)"
    by (rule reads_back_paren)
  with SkParen.prems show ?case
    by (auto intro: reads_back_up [of 4] enters_up [of 4])
next
  case (SkBin b x y)
  let ?t = "op_tier b"
  have t: "5 \<le> ?t" "?t \<le> k" "prints_at (?t - 1) y"
    using SkBin.prems(1) op_tier_bounds by auto
  have y: "reads_back n (?t - 1) y"
    using SkBin.IH(2) [OF t(3)] t(1) by simp
  have x: "enters n ?t x"
    using SkBin.IH(1) [of "?t - 1" n] SkBin.IH(1) [of ?t n] SkBin.prems(1) t(1) no_assoc [of b]
    by (cases "?t = 11") (auto intro: reads_back_enters)
  have "reads_back n ?t (SkBin b x y)" and "?t \<noteq> 11 \<Longrightarrow> enters n ?t (SkBin b x y)"
    using reads_back_comparison [OF x y] enters_operator [OF x y] enters_reads_back no_assoc [of b] by blast+
  then show ?case
    using t by (cases "?t = k") (auto intro: reads_back_up [of ?t] enters_up [of ?t])
qed (auto intro: reads_back_up [of 4] enters_up [of 4] reads_back_name reads_back_int)

text \<open>C9: an operator tree that the precedences and associativities of the table can print without more
  parentheses than its own is read back by \<open>parse_expr\<close> as exactly this tree, from exactly its tokens, as long
  as its parentheses fit the nesting rail.\<close>

lemma operators_round_trip:
  assumes "upcoming s = render x @ rest" "prints_at 13 x" "stops 13 rest" "remaining s \<le> n"
    and "parens x + ps_depth s < MAX_NESTING"
  shows "\<exists>e. depicts x e \<and> parse_expr (recs_at n) s = Inr (e, jump (length (render x)) s)"
  by (rule expr_reads) (use assms prints_read_back [of 13 x] in auto)

definition sample_tree :: sketch where
  "sample_tree =
     SkBin BLt
       (SkBin BAdd (SkBin BSub (SkName [97]) (SkInt [49]))
         (SkBin BMul (SkInt [50]) (SkParen (SkBin BOr (SkName [98]) (SkBin BAnd (SkName [99]) (SkName [100]))))))
       (SkBin BShl (SkName [101]) (SkInt [51]))"

lemma operators_round_trip_witness:
  "\<exists>e. depicts sample_tree e \<and> parse_expr (recs_at 17) (new_parser [] (at_columns (render sample_tree))) =
     Inr (e, jump (length (render sample_tree)) (new_parser [] (at_columns (render sample_tree))))"
  by (rule operators_round_trip [where rest = "[]"])
    (simp_all add: upcoming_at_columns depth_new_parser remaining_upcoming stops_def MAX_NESTING_def sample_tree_def
      op_tier_def op_punct_def punct_op_def tier_assoc_def PRECEDENCE_def)

end
