(* ===== verification/ParseRail.thy ===== *)
theory ParseRail
  imports ParseOps
begin

text \<open>
  What the parser refuses and what it lets through: chains of comparisons, nesting past the rail of 256, prefix
  chains that the rail does not count, and the binders of a group that escape the block they were written in.
\<close>

lemma cur_span_updates [simp]:
  "cur_span (s\<lparr>ps_depth := d\<rparr>) = cur_span s" "cur_span (s\<lparr>ps_no_struct_lit := b\<rparr>) = cur_span s"
  by (simp_all add: cur_span_def split: option.split)

lemmas fails = error_here_def fail_at_def bind_def seqp_def

section \<open>Comparison chains\<close>

lemma below_comparisons: "parse_binary r 11 s = Inl e \<Longrightarrow> parse_binary r 13 s = Inl e"
  using binary_tier [of 12 r] binary_tier [of 11 r] by (simp add: bind_def)

lemma expr_fails:
  assumes "upcoming s = t # rest" "t = Punct LParen \<or> t = Ident c \<or> t = IntLit c" "ps_depth s < MAX_NESTING"
    and "parse_binary r 13 (s\<lparr>ps_depth := ps_depth s + 1\<rparr>) = Inl e"
  shows "parse_expr r s = Inl e"
proof -
  let ?s = "s\<lparr>ps_depth := ps_depth s + 1\<rparr>"
  have "\<not> at_kw w ?s" "\<not> at_range_op ?s" "\<not> at_p Caret ?s" for w
    using assms(1,2) by (auto simp: at_tok_upcoming at_range_op_def)
  then have "parse_expr_inner r ?s = Inl e"
    using assms(4) unfolding parse_expr_inner_def parse_else_expr_def parse_range_expr_def parse_range_end_def
    by (simp add: bind_def)
  then show ?thesis
    using assms(3) by (simp add: parse_expr_def nested_def)
qed

text \<open>A comparison between operands of lower tiers, followed by another comparison, is refused with
  E_COMPARISON_CHAIN at the second operator, whatever comes after it.\<close>

lemma comparison_chain_refused:
  assumes "op_tier b = 11" "op_tier b' = 11" "prints_at 10 x" "prints_at 10 y"
    and "upcoming s = render (SkBin b x y) @ Punct (op_punct b') # rest" "remaining s \<le> n"
    and "parens (SkBin b x y) + ps_depth s < MAX_NESTING"
  shows "parse_expr (recs_at n) s = error_here E_COMPARISON_CHAIN (jump (length (render (SkBin b x y))) s)"
proof -
  let ?s = "s\<lparr>ps_depth := ps_depth s + 1\<rparr>" and ?k = "length (render (SkBin b x y))"
  let ?rest = "Punct (op_punct b') # rest"
  have x: "enters n (op_tier b) x" and y: "reads_back n (op_tier b - 1) y"
    using prints_read_back [OF assms(3), of n] prints_read_back [OF assms(4), of n] assms(1) by (auto intro: reads_back_enters)
  have up: "upcoming ?s = render (SkBin b x y) @ ?rest"
    using assms(5) by simp
  have stop: "stops (op_tier b - 1) ?rest"
    using stops_op [of 10 b' rest] assms(1,2) by simp
  obtain e f where ef: "parse_binary (recs_at n) 11 ?s =
      repeat_p (climb_step 11 (parse_binary (recs_at n) 10)) e (jump (length (render x)) ?s)"
    "parse_binary (recs_at n) 10 (jump (Suc (length (render x))) ?s) = Inr (f, jump ?k ?s)"
    "binary_op_at_tier 11 (jump (length (render x)) ?s) = Some b"
    by (rule one_operator [OF x y up _ stop]) (use assms in auto)
  have "binary_op_at_tier 11 (jump ?k ?s) = Some b'"
    using up assms(2) op_table [of b'] by (simp add: binary_op_at_tier_def cur_upcoming)
  moreover have "tier_assoc 11 = AssocNone"
    using no_assoc [of b] assms(1) by simp
  ultimately have "parse_binary (recs_at n) 11 ?s = error_here E_COMPARISON_CHAIN (jump ?k s)"
    using ef by (simp add: repeat_p_def climb_step_def run fails)
  then have "parse_binary (recs_at n) 13 ?s =
      Inl (PDiag \<lparr>ld_code = E_COMPARISON_CHAIN, ld_span = cur_span (jump ?k s)\<rparr>)"
    by (simp add: below_comparisons fails)
  moreover obtain t ts where "upcoming s = t # ts" "t = Punct LParen \<or> (\<exists>c. t = Ident c) \<or> (\<exists>c. t = IntLit c)"
    using render_start [of "SkBin b x y"] unfolding assms(5) by (metis append_Cons)
  ultimately show ?thesis
    using expr_fails [of s t ts] assms(7) by (auto simp: fails)
qed

lemma comparison_chain_refused_witness:
  "parse_expr (recs_at 5) (new_parser [] (at_columns [Ident [97], Punct Lt, Ident [98], Punct EqEq, Ident [99]])) =
   error_here E_COMPARISON_CHAIN
     (jump 3 (new_parser [] (at_columns [Ident [97], Punct Lt, Ident [98], Punct EqEq, Ident [99]])))"
  using comparison_chain_refused [of BLt BEq "SkName [97]" "SkName [98]"
      "new_parser [] (at_columns [Ident [97], Punct Lt, Ident [98], Punct EqEq, Ident [99]])" "[Ident [99]]" 5]
  by (simp add: upcoming_at_columns remaining_upcoming op_tier_def op_punct_def punct_op_def MAX_NESTING_def
      depth_new_parser numeral_3_eq_3)

section \<open>The nesting rail\<close>

text \<open>An expression that goes as many parentheses deep as the rail of 256 leaves levels is refused with
  E_NESTING_RAIL at the next parenthesis, whatever comes after it.\<close>

lemma paren_rail:
  "upcoming s = replicate (Suc k) (Punct LParen) @ rest \<Longrightarrow> remaining s \<le> n \<Longrightarrow> ps_depth s + k = MAX_NESTING \<Longrightarrow>
   parse_expr (recs_at n) s = error_here E_NESTING_RAIL (jump k s)"
proof (induction k arbitrary: s n)
  case 0
  then show ?case by (simp add: parse_expr_def nested_def jump_def)
next
  case (Suc k)
  then obtain m where n: "n = Suc m"
    by (cases n) (auto simp: remaining_upcoming)
  let ?s = "s\<lparr>ps_depth := ps_depth s + 1\<rparr>"
  let ?s1 = "(jump 1 ?s)\<lparr>ps_no_struct_lit := False\<rparr>"
  have ups: "upcoming ?s = Punct LParen # Punct LParen # replicate k (Punct LParen) @ rest"
    "upcoming ?s1 = Punct LParen # replicate k (Punct LParen) @ rest"
    using Suc.prems(1) by simp_all
  have inner: "parse_expr (recs_at m) ?s1 = error_here E_NESTING_RAIL (jump (Suc k) s)"
    using Suc.IH [of ?s1 m] Suc.prems ups n
    by (simp add: remaining_upcoming fails)
  then have "paren_items (recs_at n) ?s1 = error_here E_NESTING_RAIL (jump (Suc k) s)"
    using ups(2) unfolding paren_items_def repeat_p_def
    by (simp add: n Let_def skip_inserted_terms_none cur_upcoming at_tok_upcoming fails)
  then have "parse_primary (recs_at n) ?s = error_here E_NESTING_RAIL (jump (Suc k) s)"
    using ups(1) by (simp add: parse_primary_def cur_upcoming parse_paren_or_tuple_def with_struct_lit_def run fails)
  then have "parse_cast (recs_at n) ?s = error_here E_NESTING_RAIL (jump (Suc k) s)"
    using ups(1) by (simp add: parse_cast_def parse_prefix_def parse_postfix_def at_tok_upcoming cur_upcoming
        tok_at_upcoming prefix_op_def fails)
  then have "parse_binary (recs_at n) t ?s = error_here E_NESTING_RAIL (jump (Suc k) s)" for t
    by (induction t) (simp_all add: fails)
  then show ?case
    using expr_fails [of s "Punct LParen"] Suc.prems ups by (simp add: fails)
qed

lemma paren_rail_witness:
  "parse_expr (recs_at 257) (new_parser [] (at_columns (replicate 257 (Punct LParen)))) =
   error_here E_NESTING_RAIL (jump 256 (new_parser [] (at_columns (replicate 257 (Punct LParen)))))"
  by (rule paren_rail [where rest = "[]"])
    (simp_all add: upcoming_at_columns remaining_upcoming MAX_NESTING_def depth_new_parser)

text \<open>Each prefix operator of a chain counts too.\<close>

lemma prefix_rail:
  "upcoming s = replicate (Suc k) (Punct Minus) @ rest \<Longrightarrow> remaining s \<le> n \<Longrightarrow> ps_depth s + k = MAX_NESTING \<Longrightarrow>
   parse_prefix (recs_at n) s = error_here E_NESTING_RAIL (jump (Suc k) s)"
proof (induction k arbitrary: s n)
  case 0
  then show ?case by (simp add: parse_prefix_def prefix_op_def at_tok_upcoming cur_upcoming run nested_def fails)
next
  case (Suc k)
  then obtain m where n: "n = Suc m"
    by (cases n) (auto simp: remaining_upcoming)
  let ?s = "(jump 1 s)\<lparr>ps_depth := ps_depth s + 1\<rparr>"
  have up: "upcoming ?s = Punct Minus # replicate k (Punct Minus) @ rest"
    using Suc.prems(1) by simp
  have "rc_prefix (recs_at n) ?s = error_here E_NESTING_RAIL (jump (Suc (Suc k)) s)"
    using Suc.IH [of ?s m] Suc.prems up n by (simp add: Let_def remaining_upcoming fails)
  then show ?case
    using Suc.prems(1,3)
    by (simp add: parse_prefix_def prefix_op_def at_tok_upcoming cur_upcoming run nested_def fails)
qed

text \<open>A chain of \<open>freeze\<close> recurs through \<open>parse_prefix\<close> as well, but uncounted.\<close>

primrec frozen :: "nat \<Rightarrow> expr \<Rightarrow> expr \<Rightarrow> bool" where
  "frozen 0 inner e \<longleftrightarrow> e = inner"
| "frozen (Suc k) inner e \<longleftrightarrow> (case kind e of EFreeze e' \<Rightarrow> frozen k inner e' | _ \<Rightarrow> False)"

text \<open>C38: any number of \<open>freeze\<close> before an integer is parsed at whatever depth the parser is, with as many levels
  of recursion through \<open>parse_prefix\<close>: the rail of 256 does not see them.\<close>

lemma freeze_unrailed:
  "upcoming s = replicate k (kw ''freeze'') @ IntLit t # rest \<Longrightarrow> stops 4 rest \<Longrightarrow> remaining s \<le> n \<Longrightarrow>
   \<exists>sp e. frozen k (Node (EInt t) sp) e \<and> parse_prefix (recs_at n) s = Inr (e, jump (Suc k) s)"
proof (induction k arbitrary: s n)
  case 0
  then have "parse_primary (recs_at n) s = Inr (Node (EInt t) (mk_span (cur_start s) (prev_end (jump 1 s))), jump 1 s)"
    by (simp add: parse_primary_def cur_upcoming token_expr_def run)
  then have "parse_postfix (recs_at n) s = Inr (Node (EInt t) (mk_span (cur_start s) (prev_end (jump 1 s))), jump 1 s)"
    using 0 by (intro postfix_none [where k = 4]) (auto simp: at_tok_upcoming)
  then show ?case
    using 0 by (auto simp: parse_prefix_def at_tok_upcoming cur_upcoming prefix_op_def)
next
  case (Suc k)
  then obtain m where n: "n = Suc m"
    by (cases n) (auto simp: remaining_upcoming)
  have "upcoming (jump 1 s) = replicate k (kw ''freeze'') @ IntLit t # rest"
    using Suc.prems(1) by simp
  then obtain sp e where e: "frozen k (Node (EInt t) sp) e" "parse_prefix (recs_at m) (jump 1 s) = Inr (e, jump (Suc (Suc k)) s)"
    using Suc.IH [of "jump 1 s" m] Suc.prems n by (auto simp: remaining_upcoming)
  let ?e = "Node (EFreeze e) (mk_span (cur_start s) (prev_end (jump (Suc (Suc k)) s)))"
  have "parse_keyword_expr (recs_at n) (ascii ''freeze'') s = Inr (?e, jump (Suc (Suc k)) s)"
    using e(2) by (simp add: parse_keyword_expr_def ascii_def n Let_def run)
  then have "parse_primary (recs_at n) s = Inr (?e, jump (Suc (Suc k)) s)"
    using Suc.prems(1) by (simp add: parse_primary_def cur_upcoming)
  then have "parse_postfix (recs_at n) s = Inr (?e, jump (Suc (Suc k)) s)"
    using Suc.prems by (intro postfix_none [where k = 4]) (auto simp: at_tok_upcoming)
  then have "parse_prefix (recs_at n) s = Inr (?e, jump (Suc (Suc k)) s)"
    using Suc.prems(1) by (simp add: parse_prefix_def at_tok_upcoming cur_upcoming prefix_op_def ascii_def)
  with e(1) show ?case
    by (intro exI [of _ sp] exI [of _ ?e]) simp
qed

lemma freeze_unrailed_witness:
  "\<exists>sp e. frozen 1000 (Node (EInt [49]) sp) e \<and>
     parse_prefix (recs_at 1001) (new_parser [] (at_columns (replicate 1000 (kw ''freeze'') @ [IntLit [49]]))) =
       Inr (e, jump 1001 (new_parser [] (at_columns (replicate 1000 (kw ''freeze'') @ [IntLit [49]]))))"
  using freeze_unrailed [of "new_parser [] (at_columns (replicate 1000 (kw ''freeze'') @ [IntLit [49]]))" 1000 "[49]" "[]" 1001]
  by (simp add: upcoming_at_columns remaining_upcoming stops_def)

end
