(* ===== verification/ParseLeak.thy ===== *)
theory ParseLeak
  imports ParseRail
begin

text \<open>
  The binders of a group that escape the block they were written in: a \<open>pub let\<close> of several binders is an item
  of its block with its first binder only, the others wait in \<open>pending_items\<close> for the item list around.
\<close>

lemma is_term_upcoming: "is_term (cur s) \<longleftrightarrow> (\<exists>b ts. upcoming s = Term b # ts)"
  by (cases "upcoming s") (auto simp: is_term_def cur_upcoming split: tok.splits)

lemma at_any_kw_upcoming: "at_any_kw ws s \<longleftrightarrow> (\<exists>w\<in>set ws. \<exists>ts. upcoming s = kw w # ts)"
  by (cases "upcoming s") (auto simp: at_any_kw_def cur_upcoming split: tok.splits)

lemma is_ident_upcoming: "is_ident (cur s) \<longleftrightarrow> (\<exists>x ts. upcoming s = Ident x # ts)"
  by (cases "upcoming s") (auto simp: is_ident_def cur_upcoming split: tok.splits)

lemma not_literal: "upcoming s = Ident x # ts \<Longrightarrow> \<not> at_literal s"
  by (simp add: at_literal_def cur_upcoming at_any_kw_def)

lemma jump_pending [simp]:
  "ps_pending_items (jump k s) = ps_pending_items s" "ps_pending_stmts (jump k s) = ps_pending_stmts s"
  "(jump k s)\<lparr>ps_pending_items := xs, ps_origin := ps_origin s\<rparr> = (jump k s)\<lparr>ps_pending_items := xs\<rparr>"
  "jump k (s\<lparr>ps_pending_items := xs\<rparr>) = (jump k s)\<lparr>ps_pending_items := xs\<rparr>"
  "(jump k s)\<lparr>ps_pending_items := xs, ps_depth := d, ps_origin := ps_origin (jump l s)\<rparr> =
     (jump k s)\<lparr>ps_pending_items := xs, ps_depth := d\<rparr>"
  "(jump k s)\<lparr>ps_pending_items := xs, ps_depth := ps_depth s\<rparr> = (jump k s)\<lparr>ps_pending_items := xs\<rparr>"
  "(s\<lparr>ps_depth := d\<rparr>)\<lparr>ps_pending_items := xs\<rparr> = (s\<lparr>ps_pending_items := xs\<rparr>)\<lparr>ps_depth := d\<rparr>"
  "upcoming (s\<lparr>ps_pending_items := xs\<rparr>) = upcoming s"
  by (simp_all add: jump_def upcoming_def)

lemma drain_none: "ps_pending_stmts s = [] \<Longrightarrow> drain_stmts xs s = Inr (xs, s)"
  by (cases s) (simp add: drain_stmts_def)

lemmas ahead = is_term_upcoming at_any_kw_upcoming is_ident_upcoming cur_upcoming at_tok_upcoming

lemma int_reads:
  assumes "upcoming s = IntLit t # rest" "stops 13 rest" "remaining s \<le> n" "ps_depth s < MAX_NESTING"
  obtains e where "depicts (SkInt t) e" "parse_expr (recs_at n) s = Inr (e, jump 1 s)"
  using expr_reads [of n "SkInt t" s rest] prints_read_back [of 13 "SkInt t" n] assms by auto

text \<open>\<open>x = t\<close>, before a comma or the end of the line.\<close>

lemma binder_reads:
  assumes up: "upcoming s = Ident x # Punct Assign # IntLit t # tk # rest" and tk: "tk = Punct Comma \<or> tk = Term False"
    and n: "remaining s \<le> Suc n" and d: "ps_depth s < MAX_NESTING"
  obtains b where "\<exists>sp sp'. bi_pattern b = Node (PBinding (Name x sp)) sp'" "depicts (SkInt t) (bi_value b)"
    "parse_binder (recs_at (Suc n)) BkLet start s = Inr (b, jump 3 s)"
proof -
  let ?d = "s\<lparr>ps_depth := ps_depth s + 1\<rparr>" and ?s1 = "(jump 2 s)\<lparr>ps_no_struct_lit := False\<rparr>"
  have updated: "upcoming ?d = Ident x # Punct Assign # IntLit t # tk # rest"
    using up by simp
  have "expect_ident ?d = Inr (Name x (cur_span s), jump 1 ?d)"
    using updated by (simp add: expect_ident_def cur_upcoming bump_jump)
  then obtain sp where "parse_path ?d = Inr (Path [Name x (cur_span s)] sp, jump 1 ?d)"
    using updated by (auto simp: parse_path_def bind_def repeat_break ret_def at_tok_upcoming)
  then have "parse_closed_pattern_inner r ?d =
      Inr (Node (PBinding (Name x (cur_span s))) (mk_span (cur_start ?d) (prev_end (jump 1 ?d))), jump 1 ?d)" for r
    using updated not_literal [OF updated]
    by (simp add: parse_closed_pattern_inner_def parse_path_pattern_def ahead at_range_op_def run is_single_def is_ident_def)
  then obtain p where p: "\<exists>sp'. p = Node (PBinding (Name x (cur_span s))) sp'"
    "parse_pattern (recs_at (Suc n)) s = Inr (p, jump 1 s)"
    using d up by (auto simp: parse_pattern_def parse_closed_pattern_def nested_def bind_def ret_def at_tok_upcoming)
  have "stops 13 (tk # rest)"
    using tk by (auto simp: stops_def punct_op_def)
  then obtain e where e: "depicts (SkInt t) e" "parse_expr (recs_at n) ?s1 = Inr (e, jump 1 ?s1)"
    using int_reads [of ?s1 t "tk # rest" n] up n d by (auto simp: remaining_upcoming)
  have "parse_binder (recs_at (Suc n)) BkLet start s =
      Inr (Binding BkLet p None e (mk_span start (prev_end (jump 3 s))), jump 3 s)"
    using p(2) e(2) [unfolded numeral_2_eq_2] up
    by (simp add: parse_binder_def binder_pattern_def run ahead with_struct_lit_def error_here_def fail_at_def numeral_2_eq_2
        numeral_3_eq_3)
  with p(1) e(1) that show thesis
    by fastforce
qed

text \<open>\<open>let x = i, y = j\<close> on a line of its own.\<close>

definition names :: "chars \<Rightarrow> chars \<Rightarrow> (pattern, ty, expr) binding \<Rightarrow> bool" where
  "names x t b \<longleftrightarrow>
     (case kind (bi_pattern b) of PBinding n \<Rightarrow> id_name n = x | _ \<Rightarrow> False) \<and>
     (case kind (bi_value b) of EInt i \<Rightarrow> i = t | _ \<Rightarrow> False)"

lemma namesI: "\<exists>sp sp'. bi_pattern b = Node (PBinding (Name x sp)) sp' \<Longrightarrow> depicts (SkInt t) (bi_value b) \<Longrightarrow> names x t b"
  by (auto simp: names_def elim: depicts.cases)

lemma two_binders_read:
  assumes up: "upcoming s = kw ''let'' # Ident x # Punct Assign # IntLit i # Punct Comma # Ident y # Punct Assign #
      IntLit j # Term False # rest"
    and n: "remaining s \<le> Suc n" and d: "ps_depth s < MAX_NESTING"
  obtains a b where "names x i a" "names y j b" "parse_binding_group (recs_at (Suc n)) s = Inr ([a, b], jump 9 s)"
proof -
  obtain a where a: "names x i a" "parse_binder (recs_at (Suc n)) BkLet (cur_start s) (jump 1 s) = Inr (a, jump 4 s)"
    by (rule binder_reads [of "jump 1 s" x i "Punct Comma" "Ident y # Punct Assign # IntLit j # Term False # rest" n "cur_start s"])
      (use up n d in \<open>auto simp: remaining_upcoming intro: namesI\<close>)
  obtain b where b: "names y j b" "parse_binder (recs_at (Suc n)) BkLet (cur_start (jump 5 s)) (jump 5 s) = Inr (b, jump 8 s)"
    by (rule binder_reads [of "jump 5 s" y j "Term False" rest n "cur_start (jump 5 s)"])
      (use up n d in \<open>auto simp: remaining_upcoming intro: namesI\<close>)
  let ?b = "Binding (bi_kind b) (bi_pattern b) (bi_ty b) (bi_value b) (mk_span (span_start (bi_span b)) (prev_end (jump 9 s)))"
  have "parse_binding_group (recs_at (Suc n)) s = Inr ([a, ?b], jump 9 s)"
    using a(2) b(2) up
    by (simp add: parse_binding_group_def binding_keyword_def repeat_p_def run ahead remaining_upcoming expect_term_def
        end_last_at_def Let_def is_term_def)
  with a(1) b(1) that show thesis
    by (auto simp: names_def)
qed

lemma pub_item_reads:
  assumes up: "upcoming s = kw ''pub'' # kw ''let'' # Ident x # Punct Assign # IntLit i # Punct Comma # Ident y #
      Punct Assign # IntLit j # Term False # rest"
    and n: "remaining s \<le> Suc n" and d: "ps_depth s < MAX_NESTING"
  obtains v sp a b where "names x i a" "names y j b"
    "parse_item (recs_at (Suc n)) s = Inr (Item [] (Some v) (IBinding a) sp,
       (jump 10 s)\<lparr>ps_pending_items := ps_pending_items s @ [Item [] (Some v) (IBinding b) (bi_span b)]\<rparr>)"
proof -
  obtain a b where ab: "names x i a" "names y j b"
    "parse_binding_group (recs_at (Suc n)) (jump 1 s) = Inr ([a, b], jump 10 s)"
    by (rule two_binders_read [of "jump 1 s" x i y j rest n]) (use up n d in \<open>auto simp: remaining_upcoming\<close>)
  have quiet: "skip_inserted_terms s = Inr ((), s)"
    using up by (simp add: skip_inserted_terms_none cur_upcoming)
  have "parse_attributes (recs_at (Suc n)) s = Inr ([], s)"
    using up quiet by (auto simp: parse_attributes_def run intro: repeat_break)
  moreover obtain v where "parse_visibility s = Inr (Some v, jump 1 s)"
    using up by (auto simp: parse_visibility_def run ascii_def)
  ultimately have "\<exists>sp. parse_item (recs_at (Suc n)) s = Inr (Item [] (Some v) (IBinding a) sp,
       (jump 10 s)\<lparr>ps_pending_items := ps_pending_items s @ [Item [] (Some v) (IBinding b) (bi_span b)]\<rparr>)"
    using up quiet ab(3)
    by (simp add: parse_item_def with_origin_def index_origin_of_def parse_item_inner_def parse_item_kind_def
        item_binding_def push_pending_items_def run ahead ascii_def)
  with ab(1,2) that show thesis
    by blast
qed

section \<open>Settings\<close>

text \<open>C22: an item that was parsed leaves every scoped setting of the parser as it was (the flags for struct
  literals, trait bodies and members, the nesting depth, the origin in force) and has taken at least one token.\<close>

lemma item_restores_settings:
  assumes "parse_item (recs_at n) s = Inr (i, s')" "remaining s \<le> n"
  shows "settings s' = settings s \<and> remaining s' < remaining s"
  using knot.parse_item [OF assms(2), of "\<lambda>_ s'. later s s'"] assms(1) by (simp add: yields_def)

definition sample_item :: "tok list" where
  "sample_item =
     [kw ''pub'', kw ''let'', Ident [97], Punct Assign, IntLit [49], Punct Comma, Ident [98], Punct Assign,
      IntLit [50], Term False]"

lemma item_restores_settings_witness:
  "\<exists>i s'. parse_item (recs_at 10) (new_parser [] (at_columns sample_item)) = Inr (i, s') \<and>
     settings s' = settings (new_parser [] (at_columns sample_item)) \<and>
     remaining s' < remaining (new_parser [] (at_columns sample_item))"
proof -
  let ?s = "new_parser [] (at_columns sample_item)"
  have up: "upcoming ?s = kw ''pub'' # kw ''let'' # Ident [97] # Punct Assign # IntLit [49] # Punct Comma # Ident [98] #
      Punct Assign # IntLit [50] # Term False # []"
    by (simp add: upcoming_at_columns sample_item_def)
  obtain i s' where "parse_item (recs_at (Suc 9)) ?s = Inr (i, s')"
    by (rule pub_item_reads [OF up, of 9]) (simp_all add: remaining_upcoming up depth_new_parser MAX_NESTING_def)
  with item_restores_settings [of "Suc 9" ?s i s'] show ?thesis
    by (auto simp: remaining_upcoming up)
qed

section \<open>Blocks\<close>

text \<open>C39: a block with the one line \<open>pub let x = i, y = j\<close> comes back with the item that binds \<open>x\<close> only; the item
  that binds \<open>y\<close> is left pending for the list of items around the block.\<close>

lemma pub_group_escapes_block:
  assumes up: "upcoming s = Punct LBrace # kw ''pub'' # kw ''let'' # Ident x # Punct Assign # IntLit i # Punct Comma #
      Ident y # Punct Assign # IntLit j # Term False # Punct RBrace # rest"
    and n: "remaining s \<le> n" and d: "Suc (ps_depth s) < MAX_NESTING" and pending: "ps_pending_stmts s = []"
  shows "\<exists>v sp sp' a b. names x i a \<and> names y j b \<and> parse_block (recs_at n) s =
     Inr (Block [Stmt [] (SItem (Item [] (Some v) (IBinding a) sp)) sp] None sp',
       (jump 12 s)\<lparr>ps_pending_items := ps_pending_items s @ [Item [] (Some v) (IBinding b) (bi_span b)]\<rparr>)"
proof -
  obtain m where m: "n = Suc (Suc m)"
    using n up by (cases n; cases "n - 1") (auto simp: remaining_upcoming)
  let ?d = "s\<lparr>ps_depth := ps_depth s + 1\<rparr>"
  let ?s1 = "(jump 1 s)\<lparr>ps_depth := ps_depth s + 1\<rparr>"
  obtain v sp a b where ab: "names x i a" "names y j b"
    "parse_item (recs_at (Suc m)) ?s1 = Inr (Item [] (Some v) (IBinding a) sp,
       (jump 10 ?s1)\<lparr>ps_pending_items := ps_pending_items ?s1 @ [Item [] (Some v) (IBinding b) (bi_span b)]\<rparr>)"
    by (rule pub_item_reads [of ?s1 x i y j "Punct RBrace # rest" m]) (use up n d m in \<open>auto simp: remaining_upcoming\<close>)
  let ?i = "Item [] (Some v) (IBinding a) sp" and ?j = "Item [] (Some v) (IBinding b) (bi_span b)"
  let ?s2 = "(jump 11 s)\<lparr>ps_depth := ps_depth s + 1, ps_pending_items := ps_pending_items s @ [?j]\<rparr>"
  have item: "parse_item (recs_at (Suc m)) ?s1 = Inr (?i, ?s2)"
    using ab(3) by simp
  have quiet: "skip_inserted_terms ?s1 = Inr ((), ?s1)"
    using up by (simp add: skip_inserted_terms_none cur_upcoming)
  have "parse_attributes (recs_at n) ?s1 = Inr ([], ?s1)"
    using up quiet by (auto simp: parse_attributes_def run intro: repeat_break)
  then have "parse_stmt (recs_at n) ?s1 = Inr (Stmt [] (SItem ?i) sp, ?s2)"
    using up quiet item
    by (simp add: parse_stmt_def with_origin_def index_origin_of_def parse_stmt_inner_def run ahead ascii_def m
        at_item_start_def Let_def)
  then have "block_stmts (recs_at n) ?s1 = Inr ([Stmt [] (SItem ?i) sp], ?s2)"
    using up quiet pending
    by (simp add: block_stmts_def repeat_p_def drain_none run ahead is_binary_only_def skip_inserted_terms_none
        remaining_upcoming ascii_def)
  then have "parse_block_inner (recs_at n) ?d = Inr (Block [Stmt [] (SItem ?i) sp] None
      (mk_span (cur_start s) (span_end (cur_span ?s2))), jump 1 ?s2)"
    using up by (simp add: parse_block_inner_def run block_tail_def stmt_kept_def cfg_keeps_def Let_def cur_start_def)
  with ab(1,2) d show ?thesis
    by (fastforce simp: parse_block_def nested_def)
qed

definition sample_block :: "tok list" where
  "sample_block =
     [Punct LBrace, kw ''pub'', kw ''let'', Ident [97], Punct Assign, IntLit [49], Punct Comma, Ident [98], Punct Assign,
      IntLit [50], Term False, Punct RBrace]"

lemma pub_group_escapes_block_witness:
  "\<exists>v sp sp' a b. names [97] [49] a \<and> names [98] [50] b \<and> parse_block (recs_at 12) (new_parser [] (at_columns sample_block)) =
     Inr (Block [Stmt [] (SItem (Item [] (Some v) (IBinding a) sp)) sp] None sp',
       (jump 12 (new_parser [] (at_columns sample_block)))\<lparr>ps_pending_items :=
          ps_pending_items (new_parser [] (at_columns sample_block)) @ [Item [] (Some v) (IBinding b) (bi_span b)]\<rparr>)"
  by (rule pub_group_escapes_block [where rest = "[]"])
    (simp_all add: upcoming_at_columns depth_new_parser remaining_upcoming MAX_NESTING_def sample_block_def)

end
