(* ===== verification/Layout.thy ===== *)
theory Layout
  imports ParseStmt
begin

text \<open>
  The C layout of \<open>layout.rs\<close>: representations as attributes spell them, the layout of a scalar or of a
  \<open>repr(c)\<close> struct as numbers, field paths through structs, and the answers of the three layout queries.
  Sizes are \<open>u64\<close> values, kept as naturals; an addition or a rounding that leaves the width is \<open>Overflow\<close>, where a
  checked build panics. A module shows its units and what its item table says of a name: the table is
  filled by \<open>sema.rs\<close> and is an argument here. The static walks over whole bodies are not modelled.
\<close>

section \<open>Representations\<close>

definition MAX_ALIGN :: nat where "MAX_ALIGN = 2 ^ 28"

record repr =
  rp_c :: bool
  rp_packed :: bool
  rp_align :: "nat option"

definition native_repr :: repr where
  "native_repr = \<lparr>rp_c = False, rp_packed = False, rp_align = None\<rparr>"

text \<open>\<open>u64::from_str_radix\<close>: an optional plus sign and at least one digit, within the width.\<close>

fun digits_u64 :: "nat \<Rightarrow> chars \<Rightarrow> nat \<Rightarrow> nat option" where
  "digits_u64 radix [] n = Some n"
| "digits_u64 radix (c # cs) n =
     (case to_digit radix c of
        None \<Rightarrow> None
      | Some d \<Rightarrow> if n * radix + d \<le> u64_max then digits_u64 radix cs (n * radix + d) else None)"

definition from_str_radix :: "nat \<Rightarrow> chars \<Rightarrow> nat option" where
  "from_str_radix radix cs =
     (let body = (case cs of c # rest \<Rightarrow> if c = cp CHR ''+'' then rest else cs | [] \<Rightarrow> []) in
      if body = [] then None else digits_u64 radix body 0)"

definition int_literal :: "expr \<Rightarrow> nat option" where
  "int_literal e =
     (case kind e of
        EInt t \<Rightarrow>
          (let digits = filter (\<lambda>c. c \<noteq> cp CHR ''_'') t in
           if starts_with (ascii ''0x'') digits then from_str_radix 16 (drop 2 digits)
           else if starts_with (ascii ''0o'') digits then from_str_radix 8 (drop 2 digits)
           else if starts_with (ascii ''0b'') digits then from_str_radix 2 (drop 2 digits)
           else from_str_radix 10 digits)
      | _ \<Rightarrow> None)"

definition align_value :: "expr attr_input option \<Rightarrow> nat option" where
  "align_value i = (case i of Some (AiArgs [AaLiteral l]) \<Rightarrow> int_literal l | _ \<Rightarrow> None)"

text \<open>The powers of two of a \<open>u64\<close>.\<close>

definition is_power_of_two :: "nat \<Rightarrow> bool" where
  "is_power_of_two n \<longleftrightarrow> n \<in> set (map (\<lambda>k. 2 ^ k) [0..<64])"

definition admissible_align :: "nat \<Rightarrow> bool" where
  "admissible_align n \<longleftrightarrow> is_power_of_two n \<and> n \<le> MAX_ALIGN"

text \<open>One argument of a \<open>repr\<close> list, and all of them over the attributes of a node.\<close>

definition repr_item :: "expr attr_arg \<Rightarrow> repr \<Rightarrow> repr" where
  "repr_item arg r =
     (case arg of
        AaNested a \<Rightarrow>
          if is_named ''c'' a \<and> at_input a = None then r\<lparr>rp_c := True\<rparr>
          else if is_named ''packed'' a \<and> at_input a = None then r\<lparr>rp_packed := True\<rparr>
          else if is_named ''align'' a then
            (case align_value (at_input a) of
               Some n \<Rightarrow> if admissible_align n then r\<lparr>rp_align := Some n\<rparr> else r
             | None \<Rightarrow> r)
          else r
      | AaLiteral _ \<Rightarrow> r)"

definition repr_args :: "expr attribute list \<Rightarrow> expr attr_arg list" where
  "repr_args attrs =
     concat (map (\<lambda>a. case at_input a of Some (AiArgs args) \<Rightarrow> args | _ \<Rightarrow> [])
       (filter (is_named ''repr'') (concat (map ab_attrs attrs))))"

definition repr_of :: "expr attribute list \<Rightarrow> repr" where
  "repr_of attrs = fold repr_item (repr_args attrs) native_repr"

section \<open>Modules and their structs\<close>

text \<open>What the item table of a module says a name is; the declarations it points to are not read here.\<close>

datatype module_def = DefFn | DefStruct | DefBinding | DefOpaque string | DefAmbiguous

record module_view =
  mo_units :: "unit_node list"
  mo_items :: "chars \<Rightarrow> module_def option"

record struct_decl =
  sdl_def :: "(ty, expr) struct_def"
  sdl_repr :: repr

type_synonym decls = "chars \<Rightarrow> struct_decl option"

fun enter_structs :: "item list \<Rightarrow> decls \<Rightarrow> decls" where
  "enter_structs [] out = out"
| "enter_structs (i # is) out =
     enter_structs is
       (case it_kind i of
          IStruct d \<Rightarrow>
            (case sd_name d of
               Some n \<Rightarrow>
                 if out (id_name n) = None
                 then out(id_name n \<mapsto> \<lparr>sdl_def = d, sdl_repr = repr_of (it_attrs i)\<rparr>) else out
             | None \<Rightarrow> out)
        | _ \<Rightarrow> out)"

definition structs :: "module_view \<Rightarrow> decls" where
  "structs m = enter_structs (concat (map un_items (mo_units m))) Map.empty"

section \<open>Layouts\<close>

definition scalar_bytes :: "chars \<Rightarrow> nat option" where
  "scalar_bytes name =
     (if name \<in> set (map ascii [''i8'', ''u8'', ''byte'', ''bool'']) then Some 1
      else if name \<in> set (map ascii [''i16'', ''u16'']) then Some 2
      else if name \<in> set (map ascii [''i32'', ''u32'', ''f32'', ''char'']) then Some 4
      else if name \<in> set (map ascii [''i64'', ''u64'', ''int'', ''uint'', ''f64'']) then Some 8
      else None)"

record layout =
  lo_size :: nat
  lo_align :: nat
  lo_fields :: "(chars \<times> nat) list"

datatype no_layout = Native | Unknown

datatype layout_stop = NoLayout no_layout | Overflow

type_synonym layout_result = "layout_stop + layout"

definition va_list_name :: chars where "va_list_name = ascii ''VaList''"

definition va_list_layout :: layout where
  "va_list_layout =
     \<lparr>lo_size = 24, lo_align = 8,
      lo_fields = [(ascii ''gp_offset'', 0), (ascii ''fp_offset'', 4), (ascii ''overflow_arg_area'', 8), (ascii ''reg_save_area'', 16)]\<rparr>"

definition round_up :: "nat \<Rightarrow> nat \<Rightarrow> nat option" where
  "round_up n a = (let r = (if n mod a = 0 then n div a else n div a + 1) * a in if r \<le> u64_max then Some r else None)"

definition add_u64 :: "nat \<Rightarrow> nat \<Rightarrow> nat option" where
  "add_u64 a b = (if a + b \<le> u64_max then Some (a + b) else None)"

text \<open>The layout of a field, and of the fields in order; \<open>named\<close> is the layout of a named type one level down.\<close>

definition field_layout :: "(chars \<Rightarrow> layout_result) \<Rightarrow> ty \<Rightarrow> layout_result" where
  "field_layout named t =
     (case kind t of
        TRawPointer _ \<Rightarrow> Inr \<lparr>lo_size = 8, lo_align = 8, lo_fields = []\<rparr>
      | TPath p args \<Rightarrow>
          if is_single p \<and> args = [] then
            (case named (id_name (hd (pt_segments p))) of
               Inr l \<Rightarrow> Inr l
             | Inl Overflow \<Rightarrow> Inl Overflow
             | Inl (NoLayout _) \<Rightarrow> Inl (NoLayout Native))
          else Inl (NoLayout Native)
      | _ \<Rightarrow> Inl (NoLayout Native))"

fun place_fields ::
  "(chars \<Rightarrow> layout_result) \<Rightarrow> bool \<Rightarrow> (ty, expr) field list \<Rightarrow> nat \<Rightarrow> nat \<Rightarrow> (chars \<times> nat) list
   \<Rightarrow> layout_stop + nat \<times> nat \<times> (chars \<times> nat) list" where
  "place_fields named packed [] off strictest placed = Inr (off, strictest, placed)"
| "place_fields named packed (f # fs) off strictest placed =
     (case field_layout named (fl_ty f) of
        Inl e \<Rightarrow> Inl e
      | Inr inner \<Rightarrow>
          let a = (if packed then 1 else lo_align inner) in
          case round_up off a of
            None \<Rightarrow> Inl Overflow
          | Some at \<Rightarrow>
              (case add_u64 at (lo_size inner) of
                 None \<Rightarrow> Inl Overflow
               | Some stop \<Rightarrow>
                   place_fields named packed fs stop (max strictest a) (placed @ [(id_name (fl_name f), at)])))"

definition struct_layout :: "(chars \<Rightarrow> layout_result) \<Rightarrow> struct_decl \<Rightarrow> layout_result" where
  "struct_layout named d =
     (case place_fields named (rp_packed (sdl_repr d)) (sd_fields (sdl_def d)) 0 1 [] of
        Inl e \<Rightarrow> Inl e
      | Inr (off, strictest, placed) \<Rightarrow>
          let a = (case rp_align (sdl_repr d) of None \<Rightarrow> strictest | Some n \<Rightarrow> max strictest n) in
          case round_up off a of
            None \<Rightarrow> Inl Overflow
          | Some rounded \<Rightarrow> Inr \<lparr>lo_size = rounded, lo_align = a, lo_fields = placed\<rparr>)"

function layout_named :: "module_view \<Rightarrow> decls \<Rightarrow> chars \<Rightarrow> nat \<Rightarrow> layout_result" where
  "layout_named m decls name depth =
     (case scalar_bytes name of
        Some n \<Rightarrow> Inr \<lparr>lo_size = n, lo_align = n, lo_fields = []\<rparr>
      | None \<Rightarrow>
          if name = va_list_name \<and> mo_items m name = None then Inr va_list_layout
          else if name = ascii ''str'' then Inl (NoLayout Native)
          else case decls name of
            Some d \<Rightarrow>
              if \<not> rp_c (sdl_repr d) \<or> sd_generics (sdl_def d) \<noteq> [] \<or> 64 < depth then Inl (NoLayout Native)
              else struct_layout (\<lambda>n. layout_named m decls n (depth + 1)) d
          | None \<Rightarrow>
              (case mo_items m name of
                 Some DefStruct \<Rightarrow> Inl (NoLayout Native)
               | Some (DefOpaque what) \<Rightarrow> Inl (NoLayout (if what = ''enum'' then Native else Unknown))
               | _ \<Rightarrow> Inl (NoLayout Unknown)))"
  by pat_completeness auto
termination by (relation "measure (\<lambda>(m, decls, name, depth). 65 - depth)") auto

declare layout_named.simps [simp del]

definition layout_of_name :: "module_view \<Rightarrow> chars \<Rightarrow> layout_result" where
  "layout_of_name m name = layout_named m (structs m) name 0"

section \<open>Field paths\<close>

record field_at =
  fa_offset :: nat
  fa_size :: nat
  fa_signed :: bool
  fa_struct_align :: nat

text \<open>Why a path is refused, and where the code would panic: the overflow of a layout or of an offset,
  and the field of a layout that its declaration lacks.\<close>

datatype path_refusal =
  NoCLayout chars | NotAStruct chars | NoSuchField chars chars | NotAnInteger chars | EmptyPath

datatype path_stop = PathRefused path_refusal | PathOverflow | PathExpect

definition single_type :: "ty \<Rightarrow> chars option" where
  "single_type t =
     (case kind t of TPath p args \<Rightarrow> if args \<noteq> [] \<or> \<not> is_single p then None else Some (id_name (hd (pt_segments p))) | _ \<Rightarrow> None)"

definition checked_layout :: "module_view \<Rightarrow> chars \<Rightarrow> path_stop + layout" where
  "checked_layout m name =
     (case layout_of_name m name of
        Inr l \<Rightarrow> Inr l
      | Inl Overflow \<Rightarrow> Inl PathOverflow
      | Inl (NoLayout _) \<Rightarrow> Inl (PathRefused (NoCLayout name)))"

definition is_signed_name :: "chars \<Rightarrow> bool" where
  "is_signed_name t \<longleftrightarrow> t \<in> set (map ascii [''i8'', ''i16'', ''i32'', ''i64'', ''int''])"

definition is_unsigned_name :: "chars \<Rightarrow> bool" where
  "is_unsigned_name t \<longleftrightarrow> t \<in> set (map ascii [''u8'', ''u16'', ''u32'', ''u64'', ''uint''])"

fun walk_fields :: "module_view \<Rightarrow> nat \<Rightarrow> chars \<Rightarrow> nat \<Rightarrow> chars list \<Rightarrow> path_stop + field_at" where
  "walk_fields m top_align current off [] = Inl (PathRefused EmptyPath)"
| "walk_fields m top_align current off (field # rest) =
     (case structs m current of
        None \<Rightarrow> Inl (PathRefused (NotAStruct current))
      | Some d \<Rightarrow>
          case checked_layout m current of
            Inl e \<Rightarrow> Inl e
          | Inr l \<Rightarrow>
              case map_of (lo_fields l) field of
                None \<Rightarrow> Inl (PathRefused (NoSuchField current field))
              | Some at \<Rightarrow>
                  case add_u64 off at of
                    None \<Rightarrow> Inl PathOverflow
                  | Some off' \<Rightarrow>
                      case find (\<lambda>f. id_name (fl_name f) = field) (sd_fields (sdl_def d)) of
                        None \<Rightarrow> Inl PathExpect
                      | Some f \<Rightarrow>
                          case single_type (fl_ty f) of
                            None \<Rightarrow> Inl (PathRefused (NotAnInteger field))
                          | Some tname \<Rightarrow>
                              if rest \<noteq> [] then walk_fields m top_align tname off' rest
                              else
                                let signed = is_signed_name tname; integer = (signed \<or> is_unsigned_name tname) in
                                if \<not> integer then Inl (PathRefused (NotAnInteger field))
                                else case scalar_bytes tname of
                                  None \<Rightarrow> Inl PathExpect
                                | Some n \<Rightarrow>
                                    Inr \<lparr>fa_offset = off', fa_size = n, fa_signed = signed, fa_struct_align = top_align\<rparr>)"

definition field_path :: "module_view \<Rightarrow> chars \<Rightarrow> chars list \<Rightarrow> path_stop + field_at" where
  "field_path m name path =
     (case checked_layout m name of Inl e \<Rightarrow> Inl e | Inr l \<Rightarrow> walk_fields m (lo_align l) name 0 path)"

section \<open>Aligned structs held by value\<close>

function holds_aligned :: "decls \<Rightarrow> ty \<Rightarrow> nat \<Rightarrow> bool" where
  "holds_aligned decls t depth =
     (case kind t of
        TPath p args \<Rightarrow>
          if \<not> is_single p \<or> args \<noteq> [] \<or> 64 < depth then False
          else (case decls (id_name (hd (pt_segments p))) of
                  None \<Rightarrow> False
                | Some d \<Rightarrow>
                    rp_align (sdl_repr d) \<noteq> None
                    \<or> list_ex (\<lambda>f. holds_aligned decls (fl_ty f) (depth + 1)) (sd_fields (sdl_def d)))
      | _ \<Rightarrow> False)"
  by pat_completeness auto
termination by (relation "measure (\<lambda>(decls, t, depth). 65 - depth)") auto

declare holds_aligned.simps [simp del]

section \<open>The queries\<close>

datatype query = QSize | QAlign | QOffset

definition query_named :: "chars \<Rightarrow> query option" where
  "query_named name =
     (if name = ascii ''size_of'' then Some QSize else if name = ascii ''align_of'' then Some QAlign
      else if name = ascii ''offset_of'' then Some QOffset else None)"

fun query_arity :: "query \<Rightarrow> nat" where
  "query_arity QSize = 1" | "query_arity QAlign = 1" | "query_arity QOffset = 2"

definition as_query :: "module_view \<Rightarrow> expr \<Rightarrow> expr arg list \<Rightarrow> (query \<times> expr arg list) option" where
  "as_query m callee args =
     (case kind callee of
        EPath p \<Rightarrow>
          if \<not> is_single p then None
          else
            let name = id_name (hd (pt_segments p)) in
            (case query_named name of
               None \<Rightarrow> None
             | Some q \<Rightarrow> if mo_items m name \<noteq> None \<or> length args \<noteq> query_arity q then None else Some (q, args))
      | _ \<Rightarrow> None)"

definition single_name :: "expr \<Rightarrow> chars option" where
  "single_name e = (case kind e of EPath p \<Rightarrow> if is_single p then Some (id_name (hd (pt_segments p))) else None | _ \<Rightarrow> None)"

text \<open>A refusal with its code and span, a shape declined by name, or the overflow of a layout.\<close>

datatype answer_stop = Refused lex_diag | Declined | AnswerOverflow

definition answer :: "module_view \<Rightarrow> query \<Rightarrow> expr arg list \<Rightarrow> span \<Rightarrow> answer_stop + nat" where
  "answer m q args call_span =
     (case single_name (ar_expr (args ! 0)) of
        None \<Rightarrow> Inl Declined
      | Some t \<Rightarrow>
          case layout_of_name m t of
            Inl (NoLayout Native) \<Rightarrow> Inl (Refused \<lparr>ld_code = ''E0708'', ld_span = call_span\<rparr>)
          | Inl (NoLayout Unknown) \<Rightarrow> Inl Declined
          | Inl Overflow \<Rightarrow> Inl AnswerOverflow
          | Inr l \<Rightarrow>
              case q of
                QSize \<Rightarrow> Inr (lo_size l)
              | QAlign \<Rightarrow> Inr (lo_align l)
              | QOffset \<Rightarrow>
                  let field_arg = ar_expr (args ! 1) in
                  case single_name field_arg of
                    None \<Rightarrow>
                      (case kind field_arg of
                         EPath _ \<Rightarrow> Inl Declined
                       | _ \<Rightarrow> Inl (Refused \<lparr>ld_code = ''E0403'', ld_span = nspan field_arg\<rparr>))
                  | Some field \<Rightarrow>
                      (case map_of (lo_fields l) field of
                         Some at \<Rightarrow> Inr at
                       | None \<Rightarrow> Inl (Refused \<lparr>ld_code = ''E0403'', ld_span = call_span\<rparr>)))"

end
