(* ===== verification/LayoutProps.thy ===== *)
theory LayoutProps
  imports Layout
begin

text \<open>
  What the numbers of theory Layout promise: the fields of a struct are laid out as the C rule \<open>chain\<close> says,
  every byte of a field path lies in the struct it starts from, the walk over a path panics only when a
  size leaves the width, and the search for aligned structs in a packed one can take exponential time.
\<close>

section \<open>Alignments\<close>

definition pow2 :: "nat \<Rightarrow> bool" where
  "pow2 a \<longleftrightarrow> (\<exists>k. a = 2 ^ k)"

lemma pow2_pos [simp]: "pow2 a \<Longrightarrow> 0 < a"
  by (auto simp: pow2_def)

lemma pow2_1 [simp]: "pow2 (Suc 0)"
  unfolding pow2_def by (rule exI [of _ 0]) simp

lemma pow2_max [simp]: "pow2 a \<Longrightarrow> pow2 b \<Longrightarrow> pow2 (max a b)"
  by (simp add: max_def)

lemma pow2_dvd:
  assumes "pow2 a" and "pow2 b" and "a \<le> b"
  shows "a dvd b"
proof -
  obtain j k where "a = 2 ^ j" and "b = 2 ^ k"
    using assms(1, 2) by (auto simp: pow2_def)
  with assms(3) show ?thesis by (simp add: le_imp_power_dvd)
qed

lemma admissible_pow2: "admissible_align n \<Longrightarrow> pow2 n"
  by (auto simp: admissible_align_def is_power_of_two_def pow2_def)

lemma round_up_Some:
  assumes "round_up n a = Some r" and "0 < a"
  shows "n \<le> r \<and> a dvd r \<and> r < n + a \<and> r \<le> u64_max"
proof -
  have n: "n = a * (n div a) + n mod a" and lt: "n mod a < a" using assms(2) by simp_all
  show ?thesis
  proof (cases "n mod a = 0")
    case True
    with n assms show ?thesis by (auto simp: round_up_def Let_def split: if_splits)
  next
    case False
    with assms(1) have r: "r = a * (n div a) + a" and "r \<le> u64_max"
      by (auto simp: round_up_def Let_def algebra_simps split: if_splits)
    moreover have "a dvd r" unfolding r by simp
    moreover have "n \<le> r" and "r < n + a" using n lt False unfolding r by linarith+
    ultimately show ?thesis by simp
  qed
qed

lemma round_up_1: "round_up n 1 = Some r \<Longrightarrow> r = n"
  by (simp add: round_up_def Let_def split: if_splits)

lemma repr_item_align: "rp_align (repr_item arg r) = Some n \<Longrightarrow> rp_align r = Some n \<or> admissible_align n"
  by (auto simp: repr_item_def split: attr_arg.splits if_splits option.splits)

lemma repr_of_align: "rp_align (repr_of attrs) = Some n \<Longrightarrow> admissible_align n"
proof -
  have "rp_align (fold repr_item args r) = Some n \<Longrightarrow> rp_align r = Some n \<or> admissible_align n" for args r
    by (induction args arbitrary: r) (auto dest: repr_item_align)
  then show "rp_align (repr_of attrs) = Some n \<Longrightarrow> admissible_align n"
    unfolding repr_of_def native_repr_def by fastforce
qed

definition alignments_ok :: "decls \<Rightarrow> bool" where
  "alignments_ok ds \<longleftrightarrow> (\<forall>name d n. ds name = Some d \<longrightarrow> rp_align (sdl_repr d) = Some n \<longrightarrow> pow2 n)"

lemma enter_structs_ok: "alignments_ok out \<Longrightarrow> alignments_ok (enter_structs is out)"
proof (induction "is" out rule: enter_structs.induct)
  case (2 i "is" out)
  show ?case
    unfolding enter_structs.simps
    by (rule 2(1)) (use 2(2) in \<open>auto simp: alignments_ok_def dest!: repr_of_align admissible_pow2
      split: item_kind.splits option.splits if_splits\<close>)
qed simp

lemma structs_ok: "alignments_ok (structs m)"
  unfolding structs_def by (rule enter_structs_ok) (simp add: alignments_ok_def)

section \<open>Where a layout comes from\<close>

lemma layout_named_cases [consumes 1, case_names scalar va_list declared]:
  assumes "layout_named m ds name depth = Inr l"
  obtains n where "scalar_bytes name = Some n" and "l = \<lparr>lo_size = n, lo_align = n, lo_fields = []\<rparr>"
  | "scalar_bytes name = None" and "name = va_list_name" and "mo_items m name = None" and "l = va_list_layout"
  | d where "scalar_bytes name = None" and "\<not> (name = va_list_name \<and> mo_items m name = None)" and "ds name = Some d"
      and "rp_c (sdl_repr d)" and "depth \<le> 64" and "struct_layout (\<lambda>n. layout_named m ds n (depth + 1)) d = Inr l"
  using assms
  by (subst (asm) layout_named.simps)
     (auto split: option.splits if_splits module_def.splits)

lemma layout_named_struct:
  assumes "layout_named m ds name depth = Inr l" and "ds name = Some d" and "scalar_bytes name = None"
    and "mo_items m name \<noteq> None"
  shows "struct_layout (\<lambda>n. layout_named m ds n (depth + 1)) d = Inr l \<and> depth \<le> 64"
  using assms(1) by (cases rule: layout_named_cases) (use assms(2-4) in auto)

lemma scalar_bytes_pow2: "scalar_bytes name = Some n \<Longrightarrow> pow2 n \<and> n \<le> 8"
proof -
  have "pow2 1" "pow2 2" "pow2 4" "pow2 8"
    unfolding pow2_def by (rule exI [of _ 0] exI [of _ 1] exI [of _ 2] exI [of _ 3]; simp)+
  then show "scalar_bytes name = Some n \<Longrightarrow> pow2 n \<and> n \<le> 8"
    unfolding scalar_bytes_def by (auto split: if_splits)
qed

section \<open>The C rule for the fields of a struct\<close>

text \<open>Every field stands at the least multiple of its alignment past the field before it, or right there when packed.\<close>

fun chain :: "bool \<Rightarrow> nat \<Rightarrow> layout list \<Rightarrow> nat list \<Rightarrow> nat \<Rightarrow> bool" where
  "chain packed off [] [] stop \<longleftrightarrow> stop = off"
| "chain packed off (l # ls) (at # ats) stop \<longleftrightarrow>
     (if packed then at = off else off \<le> at \<and> lo_align l dvd at \<and> at < off + lo_align l)
     \<and> chain packed (at + lo_size l) ls ats stop"
| "chain packed off _ _ stop \<longleftrightarrow> False"

lemma chain_bounds: "chain packed off ls ats stop \<Longrightarrow> off \<le> stop \<and> (\<forall>at \<in> set ats. off \<le> at) \<and> length ats = length ls"
  by (induction packed off ls ats stop rule: chain.induct) (auto split: if_splits intro: order_trans)

lemma chain_field:
  assumes "chain packed off ls ats stop" and "i < length ls"
  shows "ats ! i + lo_size (ls ! i) \<le> stop \<and> (packed \<or> lo_align (ls ! i) dvd ats ! i)
    \<and> (\<forall>j. i < j \<and> j < length ls \<longrightarrow> ats ! i + lo_size (ls ! i) \<le> ats ! j)"
  using assms
proof (induction packed off ls ats stop arbitrary: i rule: chain.induct)
  case (2 packed off l ls at ats stop)
  then have rest: "chain packed (at + lo_size l) ls ats stop" by simp
  note b = chain_bounds [OF rest]
  show ?case
  proof (cases i)
    case 0
    have "at + lo_size l \<le> (at # ats) ! j" if "0 < j" "j < length (l # ls)" for j
      using that b by (cases j) auto
    with 0 2(2) b show ?thesis by (auto split: if_splits)
  next
    case (Suc k)
    with 2(3) have k: "k < length ls" by simp
    have "ats ! k + lo_size (ls ! k) \<le> (at # ats) ! j" if "Suc k < j" "j < length (l # ls)" for j
      using that 2(1) [OF rest k] by (cases j) auto
    with Suc 2(1) [OF rest k] show ?thesis by auto
  qed
qed auto

definition stride :: "bool \<Rightarrow> layout \<Rightarrow> nat" where
  "stride packed l = (if packed then 1 else lo_align l)"

lemma place_fields_chain:
  assumes "place_fields named packed fs off strictest placed = Inr (stop, st, out)"
    and "\<And>t l. field_layout named t = Inr l \<Longrightarrow> pow2 (lo_align l)"
  shows "\<exists>ls ats. list_all2 (\<lambda>f l. field_layout named (fl_ty f) = Inr l) fs ls \<and> chain packed off ls ats stop
    \<and> out = placed @ zip (map (\<lambda>f. id_name (fl_name f)) fs) ats \<and> st = fold max (map (stride packed) ls) strictest"
  using assms(1)
proof (induction fs arbitrary: off strictest placed)
  case Nil
  then show ?case by (intro exI [of _ "[]"]) simp
next
  case (Cons f fs)
  let ?name = "id_name (fl_name f)"
  from Cons(2) obtain l at e where f: "field_layout named (fl_ty f) = Inr l"
    and at: "round_up off (stride packed l) = Some at" and e: "add_u64 at (lo_size l) = Some e"
    and rest: "place_fields named packed fs e (max strictest (stride packed l)) (placed @ [(?name, at)]) = Inr (stop, st, out)"
    by (auto simp: stride_def Let_def split: sum.splits option.splits)
  from Cons(1) [OF rest] obtain ls ats where ls: "list_all2 (\<lambda>f l. field_layout named (fl_ty f) = Inr l) fs ls"
    and ch: "chain packed e ls ats stop" and out: "out = (placed @ [(?name, at)]) @ zip (map (\<lambda>f. id_name (fl_name f)) fs) ats"
    and st: "st = fold max (map (stride packed) ls) (max strictest (stride packed l))" by blast
  have "e = at + lo_size l" using e by (auto simp: add_u64_def split: if_splits)
  moreover have "if packed then at = off else off \<le> at \<and> lo_align l dvd at \<and> at < off + lo_align l"
    using at round_up_1 [of off at] round_up_Some [of off "lo_align l" at] assms(2) [OF f]
    by (auto simp: stride_def split: if_splits)
  ultimately have "chain packed off (l # ls) (at # ats) stop" using ch by simp
  with f ls out st show ?case
    by (intro exI [of _ "l # ls"] exI [of _ "at # ats"]) (simp add: max.commute)
qed

lemma fold_max_pow2:
  "pow2 s \<Longrightarrow> \<forall>a \<in> set xs. pow2 a \<Longrightarrow> pow2 (fold max xs s) \<and> s \<le> fold max xs s \<and> (\<forall>a \<in> set xs. a \<le> fold max xs s)"
proof (induction xs arbitrary: s)
  case (Cons x xs)
  have "pow2 (max x s)" using Cons(2, 3) by simp
  from Cons(1) [OF this] Cons(3) show ?case by auto
qed simp

text \<open>A sound layout: a power of two for alignment, which divides the size, within the width.\<close>

definition sound :: "layout \<Rightarrow> bool" where
  "sound l \<longleftrightarrow> pow2 (lo_align l) \<and> lo_align l dvd lo_size l \<and> lo_size l \<le> u64_max"

lemma field_layout_Inr:
  assumes "field_layout named t = Inr l"
  shows "(single_type t = None \<and> l = \<lparr>lo_size = 8, lo_align = 8, lo_fields = []\<rparr>)
    \<or> (\<exists>n. single_type t = Some n \<and> named n = Inr l)"
  using assms by (auto simp: field_layout_def single_type_def split: type_kind.splits if_splits sum.splits layout_stop.splits)

lemma sound_word: "sound \<lparr>lo_size = 8, lo_align = 8, lo_fields = []\<rparr>"
proof -
  have "pow2 8" unfolding pow2_def by (rule exI [of _ 3]) simp
  then show ?thesis by (simp add: sound_def)
qed

lemma field_layout_sound: "field_layout named t = Inr l \<Longrightarrow> (\<And>n l. named n = Inr l \<Longrightarrow> sound l) \<Longrightarrow> sound l"
  using field_layout_Inr sound_word by metis

lemma struct_layout_chain:
  assumes "struct_layout named d = Inr l" and "\<And>n l. named n = Inr l \<Longrightarrow> sound l"
    and "\<And>n. rp_align (sdl_repr d) = Some n \<Longrightarrow> pow2 n"
  shows "\<exists>ls ats stop. list_all2 (\<lambda>f l. field_layout named (fl_ty f) = Inr l) (sd_fields (sdl_def d)) ls
    \<and> chain (rp_packed (sdl_repr d)) 0 ls ats stop \<and> stop \<le> lo_size l
    \<and> lo_fields l = zip (map (\<lambda>f. id_name (fl_name f)) (sd_fields (sdl_def d))) ats
    \<and> (\<forall>i \<in> set ls. stride (rp_packed (sdl_repr d)) i dvd lo_align l) \<and> sound l"
proof -
  let ?p = "rp_packed (sdl_repr d)"
  from assms(1) obtain stop st a where
    place: "place_fields named ?p (sd_fields (sdl_def d)) 0 1 [] = Inr (stop, st, lo_fields l)"
    and a: "a = (case rp_align (sdl_repr d) of None \<Rightarrow> st | Some n \<Rightarrow> max st n)" "lo_align l = a"
    and r: "round_up stop a = Some (lo_size l)"
    by (auto simp: struct_layout_def Let_def split: sum.splits option.splits prod.splits)
  have pos: "pow2 (lo_align l)" if "field_layout named t = Inr l" for t l
    using field_layout_sound [OF that assms(2)] by (auto simp: sound_def)
  obtain ls ats where
    ls: "list_all2 (\<lambda>f l. field_layout named (fl_ty f) = Inr l) (sd_fields (sdl_def d)) ls"
    and ch: "chain ?p 0 ls ats stop" and fs: "lo_fields l = [] @ zip (map (\<lambda>f. id_name (fl_name f)) (sd_fields (sdl_def d))) ats"
    and st: "st = fold max (map (stride ?p) ls) 1"
    using place_fields_chain [OF place] pos by blast
  have strides: "pow2 (stride ?p i)" if "i \<in> set ls" for i
  proof -
    from that obtain k where "k < length ls" and "ls ! k = i" by (auto simp: in_set_conv_nth)
    with list_all2_nthD2 [OF ls] have "field_layout named (fl_ty (sd_fields (sdl_def d) ! k)) = Inr i" by blast
    from pos [OF this] show ?thesis by (simp add: stride_def)
  qed
  have m: "pow2 st \<and> (\<forall>i \<in> set ls. stride ?p i \<le> st)"
  proof -
    have "\<forall>a \<in> set (map (stride ?p) ls). pow2 a" using strides by auto
    from fold_max_pow2 [OF _ this, of 1] show ?thesis unfolding st by simp
  qed
  then have "pow2 a" and "st \<le> a" using a(1) assms(3) by (auto split: option.splits)
  then have "\<forall>i \<in> set ls. stride ?p i dvd a"
    using m strides by (auto intro!: pow2_dvd)
  moreover have "stop \<le> lo_size l \<and> sound l"
    using round_up_Some [OF r] \<open>pow2 a\<close> a(2) by (simp add: sound_def)
  ultimately show ?thesis using ls ch fs a(2) unfolding append_Nil by blast
qed

lemma layout_named_sound:
  assumes "alignments_ok ds"
  shows "layout_named m ds name depth = Inr l \<Longrightarrow> sound l"
proof (induction "65 - depth" arbitrary: name depth l rule: less_induct)
  case less
  from less(2) show ?case
  proof (cases rule: layout_named_cases)
    case (scalar n)
    then show ?thesis using scalar_bytes_pow2 [of name n] by (simp add: sound_def)
  next
    case va_list
    have "pow2 8" unfolding pow2_def by (rule exI [of _ 3]) simp
    with va_list show ?thesis by (simp add: sound_def va_list_layout_def)
  next
    case (declared d)
    have "sound l'" if "layout_named m ds n (depth + 1) = Inr l'" for n l'
      using less(1) [OF _ that] declared(5) by simp
    moreover have "pow2 n" if "rp_align (sdl_repr d) = Some n" for n
      using that declared(3) assms by (auto simp: alignments_ok_def)
    ultimately show ?thesis using struct_layout_chain [OF declared(6)] by blast
  qed
qed

text \<open>A struct's layout does not depend on the depth it was reached at.\<close>

lemma place_fields_mono:
  assumes "\<And>t l. field_layout named t = Inr l \<Longrightarrow> field_layout named' t = Inr l"
  shows "place_fields named packed fs off st placed = Inr r \<Longrightarrow> place_fields named' packed fs off st placed = Inr r"
proof (induction fs arbitrary: off st placed)
  case (Cons f fs)
  from Cons(2) obtain l where l: "field_layout named (fl_ty f) = Inr l" by (auto split: sum.splits)
  with Cons assms [OF l] show ?case by (cases packed; auto simp: Let_def split: option.splits)
qed simp

lemma struct_layout_mono:
  assumes "struct_layout named d = Inr l" and "\<And>n l. named n = Inr l \<Longrightarrow> named' n = Inr l"
  shows "struct_layout named' d = Inr l"
proof -
  have f: "field_layout named' t = Inr l" if "field_layout named t = Inr l" for t l
    using that by (auto simp: field_layout_def dest!: assms(2) split: type_kind.splits if_splits sum.splits layout_stop.splits)
  from assms(1) obtain r where r: "place_fields named (rp_packed (sdl_repr d)) (sd_fields (sdl_def d)) 0 1 [] = Inr r"
    by (auto simp: struct_layout_def split: sum.splits)
  have "place_fields named' (rp_packed (sdl_repr d)) (sd_fields (sdl_def d)) 0 1 [] = Inr r"
    using r by (rule place_fields_mono [rotated]) (rule f)
  with r assms(1) show ?thesis by (simp add: struct_layout_def)
qed

lemma layout_named_mono:
  "layout_named m ds name depth = Inr l \<Longrightarrow> depth' \<le> depth \<Longrightarrow> layout_named m ds name depth' = Inr l"
proof (induction "65 - depth" arbitrary: name depth depth' l rule: less_induct)
  case less
  from less(2) show ?case
  proof (cases rule: layout_named_cases)
    case (declared d)
    have "layout_named m ds n (depth' + 1) = Inr l'" if "layout_named m ds n (depth + 1) = Inr l'" for n l'
      using less(1) [OF _ that, of "depth' + 1"] declared(5) less(3) by simp
    with declared(6) have "struct_layout (\<lambda>n. layout_named m ds n (depth' + 1)) d = Inr l"
      by (rule struct_layout_mono)
    moreover have "layout_named m ds name depth = struct_layout (\<lambda>n. layout_named m ds n (depth + 1)) d"
      using less(2) declared(6) by simp
    ultimately show ?thesis
      using less(2, 3) declared
      by (subst (asm) layout_named.simps, subst layout_named.simps) (auto split: if_splits)
  qed (use less(2) in \<open>subst (asm) layout_named.simps, subst layout_named.simps, auto\<close>)+
qed

section \<open>The fields of a struct\<close>

abbreviation field_of :: "module_view \<Rightarrow> ty \<Rightarrow> layout_result" where
  "field_of m t \<equiv> field_layout (\<lambda>n. layout_named m (structs m) n 1) t"

lemma named_struct_chain:
  assumes "layout_of_name m name = Inr l" and "structs m name = Some d"
    and "scalar_bytes name = None" and "mo_items m name \<noteq> None"
  shows "\<exists>ls ats stop. list_all2 (\<lambda>f l. field_of m (fl_ty f) = Inr l) (sd_fields (sdl_def d)) ls
    \<and> chain (rp_packed (sdl_repr d)) 0 ls ats stop \<and> stop \<le> lo_size l
    \<and> lo_fields l = zip (map (\<lambda>f. id_name (fl_name f)) (sd_fields (sdl_def d))) ats
    \<and> (\<forall>i \<in> set ls. stride (rp_packed (sdl_repr d)) i dvd lo_align l) \<and> sound l"
proof -
  have "struct_layout (\<lambda>n. layout_named m (structs m) n 1) d = Inr l"
    using layout_named_struct [OF assms(1) [unfolded layout_of_name_def] assms(2-4)] by simp
  moreover have "pow2 n" if "rp_align (sdl_repr d) = Some n" for n
    using that structs_ok [of m] assms(2) by (auto simp: alignments_ok_def)
  ultimately show ?thesis
    using struct_layout_chain layout_named_sound [OF structs_ok] by blast
qed

text \<open>C21: In the layout of a \<open>repr(c)\<close> struct every field keeps its name and order, ends within the struct, and
  ends before any later field begins; unless packed it stands at a multiple of its type's alignment, which divides the struct's.
  The alignment of the struct is a power of two that divides its size, so the elements of an array of it
  are aligned too.\<close>

theorem fields_apart_and_aligned:
  assumes "layout_of_name m name = Inr l" and "structs m name = Some d"
    and "scalar_bytes name = None" and "mo_items m name \<noteq> None"
  shows "map fst (lo_fields l) = map (\<lambda>f. id_name (fl_name f)) (sd_fields (sdl_def d))
    \<and> (\<exists>k. lo_align l = 2 ^ k) \<and> lo_align l dvd lo_size l \<and> lo_size l < 2 ^ 64
    \<and> (\<forall>i < length (lo_fields l). \<exists>a.
         field_of m (fl_ty (sd_fields (sdl_def d) ! i)) = Inr a
         \<and> snd (lo_fields l ! i) + lo_size a \<le> lo_size l
         \<and> (rp_packed (sdl_repr d) \<or> lo_align a dvd snd (lo_fields l ! i) \<and> lo_align a dvd lo_align l)
         \<and> (\<forall>j. i < j \<and> j < length (lo_fields l) \<longrightarrow> snd (lo_fields l ! i) + lo_size a \<le> snd (lo_fields l ! j)))"
proof -
  let ?fs = "sd_fields (sdl_def d)"
  let ?p = "rp_packed (sdl_repr d)"
  obtain ls ats stop where ls: "list_all2 (\<lambda>f l. field_of m (fl_ty f) = Inr l) ?fs ls"
    and ch: "chain ?p 0 ls ats stop" and stop: "stop \<le> lo_size l"
    and fs: "lo_fields l = zip (map (\<lambda>f. id_name (fl_name f)) ?fs) ats"
    and al: "\<forall>i \<in> set ls. stride ?p i dvd lo_align l" and l: "sound l"
    using named_struct_chain [OF assms] by blast
  have len: "length ats = length ls" "length ?fs = length ls"
    using chain_bounds [OF ch] list_all2_lengthD [OF ls] by auto
  have "\<exists>a. field_of m (fl_ty (?fs ! i)) = Inr a \<and> snd (lo_fields l ! i) + lo_size a \<le> lo_size l
      \<and> (?p \<or> lo_align a dvd snd (lo_fields l ! i) \<and> lo_align a dvd lo_align l)
      \<and> (\<forall>j. i < j \<and> j < length (lo_fields l) \<longrightarrow> snd (lo_fields l ! i) + lo_size a \<le> snd (lo_fields l ! j))"
    if "i < length (lo_fields l)" for i
  proof (intro exI [of _ "ls ! i"] conjI)
    have i: "i < length ls" using that len fs by simp
    show "field_of m (fl_ty (?fs ! i)) = Inr (ls ! i)" by (rule list_all2_nthD2 [OF ls i])
    note f = chain_field [OF ch i]
    show "snd (lo_fields l ! i) + lo_size (ls ! i) \<le> lo_size l" using f stop i len fs by simp
    have "stride ?p (ls ! i) dvd lo_align l" using al i by simp
    then show "?p \<or> lo_align (ls ! i) dvd snd (lo_fields l ! i) \<and> lo_align (ls ! i) dvd lo_align l"
      using f i len fs by (auto simp: stride_def)
    show "\<forall>j. i < j \<and> j < length (lo_fields l) \<longrightarrow> snd (lo_fields l ! i) + lo_size (ls ! i) \<le> snd (lo_fields l ! j)"
      using f i len fs by simp
  qed
  with l len fs show ?thesis by (simp add: sound_def pow2_def)
qed

section \<open>Field paths\<close>

lemma field_and_offset:
  assumes "length ats = length fs" and "map_of (zip (map g fs) ats) k = Some at"
  shows "\<exists>i < length fs. find (\<lambda>f. g f = k) fs = Some (fs ! i) \<and> ats ! i = at"
  using assms
proof (induction fs arbitrary: ats)
  case (Cons f fs)
  then obtain a as where ats: "ats = a # as" by (cases ats) auto
  show ?case
  proof (cases "g f = k")
    case True
    with Cons(3) ats show ?thesis by (intro exI [of _ 0]) simp
  next
    case False
    with Cons ats obtain i where "i < length fs" "find (\<lambda>f. g f = k) fs = Some (fs ! i) \<and> as ! i = at" by auto
    with False ats show ?thesis by (intro exI [of _ "Suc i"]) simp
  qed
qed simp

lemma integer_bytes: "is_signed_name t \<or> is_unsigned_name t \<Longrightarrow> scalar_bytes t \<noteq> None"
  by (auto simp: is_signed_name_def is_unsigned_name_def scalar_bytes_def)

lemma walk_fields_safe:
  assumes "structs m va_list_name \<noteq> None \<Longrightarrow> mo_items m va_list_name \<noteq> None"
  shows "layout_of_name m current = Inr l \<Longrightarrow> off + lo_size l \<le> u64_max
    \<Longrightarrow> walk_fields m al current off path \<noteq> Inl PathOverflow \<and> walk_fields m al current off path \<noteq> Inl PathExpect
      \<and> (\<forall>f. walk_fields m al current off path = Inr f \<longrightarrow> fa_struct_align f = al \<and> fa_offset f + fa_size f \<le> off + lo_size l)"
proof (induction path arbitrary: current off l)
  case (Cons field rest)
  have checked: "checked_layout m current = Inr l" using Cons(2) by (simp add: checked_layout_def)
  show ?case
  proof (cases "structs m current = None \<or> map_of (lo_fields l) field = None")
    case True
    with checked show ?thesis by (cases "structs m current") simp_all
  next
    case False
    then obtain d at where d: "structs m current = Some d" and at: "map_of (lo_fields l) field = Some at" by auto
    let ?fs = "sd_fields (sdl_def d)"
    from Cons(2) [unfolded layout_of_name_def] have "scalar_bytes current = None \<and> struct_layout (\<lambda>n. layout_named m (structs m) n 1) d = Inr l"
      by (cases rule: layout_named_cases) (use at d assms in auto)
    moreover have "pow2 n" if "rp_align (sdl_repr d) = Some n" for n
      using that structs_ok [of m] d by (auto simp: alignments_ok_def)
    ultimately obtain ls ats stop where ls: "list_all2 (\<lambda>f l. field_of m (fl_ty f) = Inr l) ?fs ls"
      and ch: "chain (rp_packed (sdl_repr d)) 0 ls ats stop" and stop: "stop \<le> lo_size l"
      and fs: "lo_fields l = zip (map (\<lambda>f. id_name (fl_name f)) ?fs) ats"
      using struct_layout_chain [of "\<lambda>n. layout_named m (structs m) n 1" d l] layout_named_sound [OF structs_ok] by blast
    have len: "length ats = length ?fs" using chain_bounds [OF ch] list_all2_lengthD [OF ls] by simp
    obtain i where i: "i < length ?fs" and find: "find (\<lambda>f. id_name (fl_name f) = field) ?fs = Some (?fs ! i)" and ai: "ats ! i = at"
      using field_and_offset [OF len at [unfolded fs]] by blast
    have fi: "field_of m (fl_ty (?fs ! i)) = Inr (ls ! i)" by (rule list_all2_nthD [OF ls i])
    have room: "at + lo_size (ls ! i) \<le> lo_size l"
      using chain_field [OF ch, of i] i len stop ai list_all2_lengthD [OF ls] by simp
    then have add: "add_u64 off at = Some (off + at)" using Cons(3) by (simp add: add_u64_def)
    show ?thesis
    proof (cases "single_type (fl_ty (?fs ! i))")
      case None
      with d checked at add find show ?thesis by simp
    next
      case (Some tname)
      with field_layout_Inr [OF fi] have "layout_named m (structs m) tname 1 = Inr (ls ! i)" by simp
      then have inner: "layout_of_name m tname = Inr (ls ! i)"
        unfolding layout_of_name_def by (rule layout_named_mono) simp
      show ?thesis
      proof (cases "rest = []")
        case False
        have "(off + at) + lo_size (ls ! i) \<le> u64_max" using room Cons(3) by simp
        from Cons(1) [OF inner this] False d checked at add find Some room show ?thesis by auto
      next
        case True
        have "lo_size (ls ! i) = n" if "scalar_bytes tname = Some n" for n
          using inner that unfolding layout_of_name_def
          by (subst (asm) layout_named.simps) (auto dest: sym [of _ "ls ! i"])
        with integer_bytes [of tname] True d checked at add find Some room show ?thesis
          by (cases "scalar_bytes tname"; cases "is_signed_name tname \<or> is_unsigned_name tname") (simp_all add: Let_def)
      qed
    qed
  qed
qed simp

text \<open>C24: A field path is answered with an offset and a size that lie within the struct it starts from, and
  with that struct's alignment. The walk reaches neither of its two panics: every field of a layout is found in the declaration,
  and an offset leaves the width only where the struct's own size does. The item table is assumed to
  hold the name of the builtin list type where a unit declares a struct of that name.\<close>

theorem field_path_in_struct:
  assumes "structs m va_list_name \<noteq> None \<Longrightarrow> mo_items m va_list_name \<noteq> None"
  shows "(field_path m name path = Inl PathOverflow \<longleftrightarrow> layout_of_name m name = Inl Overflow)
    \<and> field_path m name path \<noteq> Inl PathExpect
    \<and> (\<forall>f. field_path m name path = Inr f \<longrightarrow>
         (\<exists>l. layout_of_name m name = Inr l \<and> fa_struct_align f = lo_align l \<and> fa_offset f + fa_size f \<le> lo_size l))"
proof (cases "layout_of_name m name")
  case (Inl e)
  then show ?thesis by (auto simp: field_path_def checked_layout_def split: layout_stop.splits)
next
  case (Inr l)
  then have "lo_size l \<le> u64_max"
    using layout_named_sound [OF structs_ok] unfolding layout_of_name_def sound_def by blast
  with walk_fields_safe [OF assms Inr, of 0 "lo_align l" path] Inr show ?thesis
    by (simp add: field_path_def checked_layout_def)
qed

section \<open>The search for aligned structs\<close>

text \<open>How many types one call of \<open>holds_aligned\<close> looks at: as the code, it stops at the first field that holds one.\<close>

fun looked_at :: "(ty \<Rightarrow> bool) \<Rightarrow> (ty \<Rightarrow> nat) \<Rightarrow> (ty, expr) field list \<Rightarrow> nat" where
  "looked_at holds cost [] = 0"
| "looked_at holds cost (f # fs) = cost (fl_ty f) + (if holds (fl_ty f) then 0 else looked_at holds cost fs)"

function holds_cost :: "decls \<Rightarrow> ty \<Rightarrow> nat \<Rightarrow> nat" where
  "holds_cost ds t depth =
     (case kind t of
        TPath p args \<Rightarrow>
          if \<not> is_single p \<or> args \<noteq> [] \<or> 64 < depth then 1
          else (case ds (id_name (hd (pt_segments p))) of
                  None \<Rightarrow> 1
                | Some d \<Rightarrow>
                    if rp_align (sdl_repr d) \<noteq> None then 1
                    else 1 + looked_at (\<lambda>u. holds_aligned ds u (depth + 1)) (\<lambda>u. holds_cost ds u (depth + 1)) (sd_fields (sdl_def d)))
      | _ \<Rightarrow> 1)"
  by pat_completeness auto
termination by (relation "measure (\<lambda>(ds, t, depth). 65 - depth)") auto

declare holds_cost.simps [simp del]

definition named_type :: "chars \<Rightarrow> span \<Rightarrow> ty" where
  "named_type name sp = Node (TPath (Path [Name name sp] sp) []) sp"

lemma named_type_kind: "kind (named_type name sp) = TPath (Path [Name name sp] sp) [] \<and> is_single (Path [Name name sp] sp)"
  by (simp add: named_type_def is_single_def)

lemma twin_search:
  assumes "ds name = Some d" and "rp_align (sdl_repr d) = None"
    and "map fl_ty (sd_fields (sdl_def d)) = [named_type name sp, named_type name sp']"
  shows "depth \<le> 65 \<Longrightarrow> \<not> holds_aligned ds (named_type name q) depth
    \<and> holds_cost ds (named_type name q) depth = 2 ^ (66 - depth) - 1"
proof (induction "65 - depth" arbitrary: depth q)
  case 0
  then have "depth = 65" by simp
  then show ?case
    by (subst holds_aligned.simps, subst holds_cost.simps) (simp add: named_type_kind)
next
  case (Suc n)
  then have depth: "depth \<le> 64" and n: "n = 65 - (depth + 1)" and le: "depth + 1 \<le> 65" by simp_all
  obtain f g where fs: "sd_fields (sdl_def d) = [f, g]" "fl_ty f = named_type name sp" "fl_ty g = named_type name sp'"
    using assms(3) by (auto simp: map_eq_Cons_conv)
  note IH = Suc(1) [OF n le]
  have pow: "(2::nat) ^ (66 - depth) = 2 * 2 ^ (66 - (depth + 1))"
    using depth by (simp flip: power_Suc add: Suc_diff_le)
  have "\<not> holds_aligned ds (named_type name q) depth"
    by (subst holds_aligned.simps) (use IH depth fs assms(1, 2) in \<open>simp add: named_type_kind\<close>)
  moreover have "holds_cost ds (named_type name q) depth = 1 + 2 * (2 ^ (66 - (depth + 1)) - 1)"
    by (subst holds_cost.simps) (use IH depth fs assms(1, 2) in \<open>simp add: named_type_kind\<close>)
  moreover have "1 + 2 * (x - 1) = 2 * x - 1" if "1 \<le> x" for x :: nat using that by simp
  ultimately show ?case unfolding pow by (metis one_le_numeral one_le_power)
qed


section \<open>Witnesses\<close>

definition nowhere :: span where "nowhere = mk_span 0 0"

definition demo_field :: "string \<Rightarrow> string \<Rightarrow> (ty, expr) field" where
  "demo_field name t = Field [] None (Name (ascii name) nowhere) (named_type (ascii t) nowhere) nowhere"

definition demo_attr :: "expr attribute" where
  "demo_attr = Attribute [Attr (Path [Name (ascii ''repr'') nowhere] nowhere)
     (Some (AiArgs [AaNested (Attr (Path [Name (ascii ''c'') nowhere] nowhere) None nowhere)])) nowhere] nowhere"

definition demo_struct :: "string \<Rightarrow> (ty, expr) field list \<Rightarrow> item" where
  "demo_struct name fs = Item [demo_attr] None (IStruct (StructDef (Some (Name (ascii name) nowhere)) [] fs nowhere)) nowhere"

definition demo_module :: module_view where
  "demo_module =
     \<lparr>mo_units = [\<lparr>un_inner_attrs = [],
        un_items = [demo_struct ''P'' [demo_field ''tag'' ''u8'', demo_field ''len'' ''u32''],
                    demo_struct ''Q'' [demo_field ''flag'' ''u8'', demo_field ''p'' ''P''],
                    demo_struct ''T'' [demo_field ''a'' ''T'', demo_field ''b'' ''T'']],
        un_span = nowhere\<rparr>],
      mo_items = [ascii ''P'' \<mapsto> DefStruct, ascii ''Q'' \<mapsto> DefStruct, ascii ''T'' \<mapsto> DefStruct]\<rparr>"

lemmas demo_simps = demo_module_def demo_struct_def demo_attr_def demo_field_def native_repr_def
  repr_of_def repr_args_def repr_item_def is_named_def is_single_def ascii_def

lemma demo_structs:
  "structs demo_module (ascii ''P'') =
     Some \<lparr>sdl_def = StructDef (Some (Name (ascii ''P'') nowhere)) [] [demo_field ''tag'' ''u8'', demo_field ''len'' ''u32''] nowhere,
       sdl_repr = \<lparr>rp_c = True, rp_packed = False, rp_align = None\<rparr>\<rparr>"
  "structs demo_module (ascii ''T'') =
     Some \<lparr>sdl_def = StructDef (Some (Name (ascii ''T'') nowhere)) [] [demo_field ''a'' ''T'', demo_field ''b'' ''T''] nowhere,
       sdl_repr = \<lparr>rp_c = True, rp_packed = False, rp_align = None\<rparr>\<rparr>"
  "structs demo_module va_list_name = None"
  by (simp_all add: structs_def demo_simps va_list_name_def)

lemma demo_names:
  "scalar_bytes (ascii ''u8'') = Some 1" "scalar_bytes (ascii ''u32'') = Some 4" "scalar_bytes (ascii ''P'') = None"
  "is_unsigned_name (ascii ''u32'')" "\<not> is_signed_name (ascii ''u32'')"
  "ascii ''P'' \<noteq> ascii ''str''" "ascii ''tag'' \<noteq> ascii ''len''" "ascii ''len'' \<noteq> ascii ''tag''" "mo_items demo_module (ascii ''P'') = Some DefStruct"
  by (simp_all add: scalar_bytes_def is_signed_name_def is_unsigned_name_def ascii_def demo_module_def)

lemma named_scalar: "scalar_bytes n = Some b \<Longrightarrow> layout_named m ds n depth = Inr \<lparr>lo_size = b, lo_align = b, lo_fields = []\<rparr>"
  by (subst layout_named.simps) simp

lemma demo_layout:
  "layout_of_name demo_module (ascii ''P'') = Inr \<lparr>lo_size = 8, lo_align = 4, lo_fields = [(ascii ''tag'', 0), (ascii ''len'', 4)]\<rparr>"
  unfolding layout_of_name_def
  by (subst layout_named.simps)
     (simp add: demo_names demo_structs struct_layout_def demo_field_def field_layout_def named_type_kind named_scalar
       round_up_def add_u64_def)

lemma fields_apart_and_aligned_witness:
  "(\<exists>a. field_of demo_module (named_type (ascii ''u8'') nowhere) = Inr a \<and> 0 + lo_size a \<le> 4)
   \<and> (\<exists>a. field_of demo_module (named_type (ascii ''u32'') nowhere) = Inr a \<and> 4 + lo_size a \<le> 8 \<and> lo_align a dvd 4)"
proof -
  have items: "mo_items demo_module (ascii ''P'') \<noteq> None" by (simp add: demo_names)
  from fields_apart_and_aligned [OF demo_layout demo_structs(1) demo_names(3) items]
  show ?thesis by (auto simp: demo_field_def All_less_Suc)
qed

lemma field_path_in_struct_witness:
  "field_path demo_module (ascii ''P'') [ascii ''len''] = Inr \<lparr>fa_offset = 4, fa_size = 4, fa_signed = False, fa_struct_align = 4\<rparr>
   \<and> field_path demo_module (ascii ''P'') [ascii ''tag'', ascii ''len''] \<noteq> Inl PathExpect"
proof
  show "field_path demo_module (ascii ''P'') [ascii ''len''] = Inr \<lparr>fa_offset = 4, fa_size = 4, fa_signed = False, fa_struct_align = 4\<rparr>"
    by (simp add: field_path_def checked_layout_def demo_layout demo_structs demo_names demo_field_def add_u64_def
      single_type_def named_type_kind)
  show "field_path demo_module (ascii ''P'') [ascii ''tag'', ascii ''len''] \<noteq> Inl PathExpect"
    using field_path_in_struct [of demo_module "ascii ''P''" "[ascii ''tag'', ascii ''len'']"] demo_structs(3) by simp
qed


end
