(* ===== verification/Attrs.thy ===== *)
theory Attrs
  imports LayoutProps
begin

text \<open>
  The closed attribute set of \<open>attrs.rs\<close>: which attributes mean something where, which representations can be
  laid out, and the one ABI string. A refusal is its code and span. The walk that visits every node of a
  program is not modelled; the rules it applies at a node are. What the accepted representations guarantee
  of theory Layout's numbers closes the theory.
\<close>

section \<open>Where an attribute is written\<close>

datatype attr_position = OnFn | OnStruct | OnState | OnOtherItem | OnStmt | OnField

definition position_of :: "item \<Rightarrow> attr_position" where
  "position_of i =
     (case it_kind i of
        IFn _ \<Rightarrow> OnFn
      | IStruct _ \<Rightarrow> OnStruct
      | IBinding b \<Rightarrow> if bi_kind b \<noteq> BkConst then OnState else OnOtherItem
      | _ \<Rightarrow> OnOtherItem)"

fun dotted :: "ident list \<Rightarrow> chars" where
  "dotted [] = []"
| "dotted [i] = id_name i"
| "dotted (i # is) = id_name i @ cp CHR ''.'' # dotted is"

definition attr_name :: "'e attr \<Rightarrow> chars" where
  "attr_name a = dotted (pt_segments (at_path a))"

definition e0817 :: "span \<Rightarrow> lex_diag" where "e0817 sp = \<lparr>ld_code = ''E0817'', ld_span = sp\<rparr>"
definition e0820 :: "span \<Rightarrow> lex_diag" where "e0820 sp = \<lparr>ld_code = ''E0820'', ld_span = sp\<rparr>"

section \<open>The closed set\<close>

definition implemented_repr :: "expr attr_arg \<Rightarrow> bool" where
  "implemented_repr arg =
     (case arg of
        AaNested a \<Rightarrow> (is_named ''c'' a \<or> is_named ''packed'' a) \<and> at_input a = None \<or> is_named ''align'' a
      | AaLiteral _ \<Rightarrow> False)"

text \<open>\<open>u8::is_ascii_graphic\<close> over the bytes of a name: a character past ASCII has no graphic byte.\<close>

definition section_name :: "expr attr \<Rightarrow> chars option" where
  "section_name a =
     (case at_input a of
        Some (AiArgs [AaLiteral l]) \<Rightarrow>
          (case plain_string l of
             Some t \<Rightarrow>
               if t \<noteq> [] \<and> list_all (\<lambda>c. 33 \<le> c \<and> c \<le> 126 \<and> c \<noteq> dquote \<and> c \<noteq> cp CHR '','') t then Some t else None
           | None \<Rightarrow> None)
      | _ \<Rightarrow> None)"

definition arg_span :: "expr attr_arg \<Rightarrow> span" where
  "arg_span arg = (case arg of AaNested a \<Rightarrow> at_span a | AaLiteral l \<Rightarrow> nspan l)"

text \<open>What one attribute earns, in the order the names are told apart.\<close>

definition judge_attr :: "attr_position \<Rightarrow> expr attr \<Rightarrow> lex_diag list" where
  "judge_attr at a =
     (let name = attr_name a; refuse = [e0817 (at_span a)] in
      if name \<in> {ascii ''allow'', ascii ''index''} then []
      else if name \<in> {ascii ''trusted'', ascii ''consttime''} then (if at \<noteq> OnFn then refuse else [])
      else if name = ascii ''budget'' then (if at = OnField then refuse else [])
      else if name = ascii ''cfg'' then (case read_cfg a of CfgBad sp \<Rightarrow> [e0817 sp] | CfgTarget _ \<Rightarrow> [])
      else if name = ascii ''repr'' then
        (if at \<noteq> OnStruct then refuse
         else case at_input a of
           Some (AiArgs args) \<Rightarrow> map (\<lambda>arg. e0817 (arg_span arg)) (filter (\<lambda>arg. \<not> implemented_repr arg) args)
         | _ \<Rightarrow> refuse)
      else if name = ascii ''section'' then
        (if at \<noteq> OnFn \<and> at \<noteq> OnState then refuse else if section_name a = None then refuse else [])
      else refuse)"

definition judge_attrs :: "expr attribute list \<Rightarrow> attr_position \<Rightarrow> lex_diag list" where
  "judge_attrs attrs at = concat (map (judge_attr at) (concat (map ab_attrs attrs)))"

section \<open>Representations that can be laid out\<close>

definition nested_named :: "string \<Rightarrow> expr attr_arg list \<Rightarrow> expr attr list" where
  "nested_named name items =
     concat (map (\<lambda>arg. case arg of AaNested a \<Rightarrow> if is_named name a then [a] else [] | AaLiteral _ \<Rightarrow> []) items)"

definition fine_align :: "expr attr \<Rightarrow> bool" where
  "fine_align a = (case align_value (at_input a) of Some n \<Rightarrow> admissible_align n | None \<Rightarrow> False)"

text \<open>The reasons a representation is refused at its first item.\<close>

definition cannot_lay_out :: "(ty, expr) struct_def \<Rightarrow> expr attr_arg list \<Rightarrow> bool" where
  "cannot_lay_out def items =
     (let cs = nested_named ''c'' items; packs = nested_named ''packed'' items; aligns = nested_named ''align'' items;
          modified = (packs \<noteq> [] \<or> aligns \<noteq> []) in
      modified \<and> sd_generics def \<noteq> []
      \<or> 1 < length cs \<or> 1 < length packs \<or> 1 < length aligns
      \<or> packs \<noteq> [] \<and> aligns \<noteq> []
      \<or> modified \<and> cs = [])"

definition judge_layout :: "expr attribute list \<Rightarrow> (ty, expr) struct_def \<Rightarrow> decls \<Rightarrow> lex_diag list" where
  "judge_layout attrs def ds =
     (case repr_args attrs of
        [] \<Rightarrow> []
      | first # rest \<Rightarrow>
          let items = first # rest in
          if \<not> list_all implemented_repr items then []
          else case find (\<lambda>a. \<not> fine_align a) (nested_named ''align'' items) of
            Some a \<Rightarrow> [e0820 (at_span a)]
          | None \<Rightarrow>
              if cannot_lay_out def items then [e0820 (arg_span first)]
              else if nested_named ''packed'' items \<noteq> [] then
                (case find (\<lambda>f. holds_aligned ds (fl_ty f) 0) (sd_fields def) of
                   Some f \<Rightarrow> [e0820 (id_span (fl_name f))]
                 | None \<Rightarrow> [])
              else [])"

section \<open>The ABI string\<close>

definition judge_extern_abi :: "expr str_lit \<Rightarrow> lex_diag list" where
  "judge_extern_abi abi =
     (let t = (case as_plain_text abi of Some t \<Rightarrow> t | None \<Rightarrow> []) in
      if t \<noteq> ascii ''c'' then [\<lparr>ld_code = ''E0818'', ld_span = sl_span abi\<rparr>] else [])"

text \<open>\<open>variadic::supported_target\<close> and \<open>target_diag\<close>: the targets with unnamed C arguments.\<close>

definition supported_target :: "chars \<Rightarrow> bool" where
  "supported_target build \<longleftrightarrow> build \<in> set (map ascii [''x86_64-unknown-linux-gnu'', ''x86_64-unknown-none''])"

definition judge_abi :: "chars \<Rightarrow> ('s, expr, 't) fn_decl \<Rightarrow> lex_diag list" where
  "judge_abi build d =
     (if fd_variadic d \<noteq> None \<and> \<not> supported_target build then [\<lparr>ld_code = ''E0826'', ld_span = fd_span d\<rparr>] else [])
     @ concat (map (\<lambda>q. case q of QExtern abi _ \<Rightarrow> judge_extern_abi abi | _ \<Rightarrow> []) (fd_quals d))"

section \<open>What acceptance says of a representation\<close>

lemma names_apart:
  "is_named ''c'' a \<Longrightarrow> \<not> is_named ''packed'' a \<and> \<not> is_named ''align'' a"
  "is_named ''packed'' a \<Longrightarrow> \<not> is_named ''c'' a \<and> \<not> is_named ''align'' a"
  by (auto simp: is_named_def ascii_def)

lemma attr_name_named: "is_named name a \<Longrightarrow> attr_name a = ascii name"
  by (auto simp: is_named_def attr_name_def is_single_def length_Suc_conv)

lemma nested_named_iff: "a \<in> set (nested_named name items) \<longleftrightarrow> AaNested a \<in> set items \<and> is_named name a"
  by (auto simp: nested_named_def split: attr_arg.splits if_splits)

lemma fold_repr_c:
  "rp_c (fold repr_item args r) \<longleftrightarrow> rp_c r \<or> (\<exists>a. AaNested a \<in> set args \<and> is_named ''c'' a \<and> at_input a = None)"
  by (induction args arbitrary: r) (auto simp: repr_item_def split: attr_arg.splits option.splits dest: names_apart)

lemma fold_repr_packed:
  "rp_packed (fold repr_item args r) \<longleftrightarrow> rp_packed r \<or> (\<exists>a. AaNested a \<in> set args \<and> is_named ''packed'' a \<and> at_input a = None)"
  by (induction args arbitrary: r) (auto simp: repr_item_def split: attr_arg.splits option.splits dest: names_apart)

lemma fold_repr_align:
  "rp_align (fold repr_item args r) \<noteq> None \<Longrightarrow> rp_align r \<noteq> None \<or> (\<exists>a. AaNested a \<in> set args \<and> is_named ''align'' a)"
proof (induction args arbitrary: r)
  case (Cons arg args)
  have "rp_align (repr_item arg r) \<noteq> None \<Longrightarrow> rp_align r \<noteq> None \<or> (\<exists>a. arg = AaNested a \<and> is_named ''align'' a)"
    by (auto simp: repr_item_def split: attr_arg.splits if_splits option.splits)
  with Cons(1) [of "repr_item arg r"] Cons(2) show ?case by auto
qed simp

lemma judged_items:
  assumes "judge_attrs attrs OnStruct = []" and "arg \<in> set (repr_args attrs)"
  shows "implemented_repr arg"
proof -
  from assms(2) obtain a where a: "a \<in> set (concat (map ab_attrs attrs))" "is_named ''repr'' a"
    and listed: "arg \<in> set (case at_input a of Some (AiArgs args) \<Rightarrow> args | _ \<Rightarrow> [])"
    by (auto simp: repr_args_def)
  from listed obtain args where i: "at_input a = Some (AiArgs args)" and arg: "arg \<in> set args"
    by (cases "at_input a") (auto split: attr_input.splits)
  from assms(1) a(1) have "judge_attr OnStruct a = []" by (auto simp: judge_attrs_def)
  with attr_name_named [OF a(2)] i have "filter (\<lambda>arg. \<not> implemented_repr arg) args = []"
    by (simp add: judge_attr_def ascii_def)
  with arg show ?thesis by (auto simp: filter_empty_conv)
qed


text \<open>Accepted attributes on a packed struct are read as packed, \<open>c\<close> and not aligned.\<close>

lemma accepted_packed:
  assumes "judge_attrs attrs OnStruct = []" and "judge_layout attrs def ds = []" and "rp_packed (repr_of attrs)"
  shows "rp_c (repr_of attrs) \<and> rp_align (repr_of attrs) = None \<and> sd_generics def = []
    \<and> (\<forall>f \<in> set (sd_fields def). \<not> holds_aligned ds (fl_ty f) 0)"
proof -
  let ?items = "repr_args attrs"
  have imp: "list_all implemented_repr ?items"
    using judged_items [OF assms(1)] by (simp add: list_all_iff)
  from assms(3) obtain a where a: "AaNested a \<in> set ?items" "is_named ''packed'' a"
    unfolding repr_of_def fold_repr_packed by (auto simp: native_repr_def)
  then have packs: "nested_named ''packed'' ?items \<noteq> []"
    using nested_named_iff [of a "''packed''" ?items] by auto
  from a(1) obtain first rest where items: "?items = first # rest" by (cases ?items) auto
  have none: "find (\<lambda>a. \<not> fine_align a) (nested_named ''align'' ?items) = None" and lay: "\<not> cannot_lay_out def ?items"
    and held: "find (\<lambda>f. holds_aligned ds (fl_ty f) 0) (sd_fields def) = None"
    using assms(2) imp packs items by (auto simp: judge_layout_def Let_def split: option.splits if_splits)
  from lay packs have cs: "nested_named ''c'' ?items \<noteq> []" and no_align: "nested_named ''align'' ?items = []" and "sd_generics def = []"
    by (auto simp: cannot_lay_out_def Let_def)
  from cs obtain c where c: "AaNested c \<in> set ?items" "is_named ''c'' c"
    using nested_named_iff [of _ "''c''" ?items] by (meson last_in_set)
  with imp have "implemented_repr (AaNested c)" by (auto simp: list_all_iff)
  with names_apart(1) [OF c(2)] have "at_input c = None" by (simp add: implemented_repr_def)
  with c have "rp_c (repr_of attrs)" unfolding repr_of_def fold_repr_c by blast
  moreover have "rp_align (repr_of attrs) = None"
  proof (rule ccontr)
    assume "rp_align (repr_of attrs) \<noteq> None"
    then obtain b where "AaNested b \<in> set ?items" "is_named ''align'' b"
      unfolding repr_of_def using fold_repr_align [of ?items native_repr] by (auto simp: native_repr_def)
    with no_align nested_named_iff [of b "''align''" ?items] show False by simp
  qed
  moreover have "\<forall>f \<in> set (sd_fields def). \<not> holds_aligned ds (fl_ty f) 0"
    using held by (simp add: find_None_iff)
  ultimately show ?thesis using \<open>sd_generics def = []\<close> by blast
qed

lemma packed_chain:
  "chain True off ls ats stop \<Longrightarrow> stop = off + sum_list (map lo_size ls) \<and> length ats = length ls
    \<and> (\<forall>i < length ls. ats ! i = off + sum_list (map lo_size (take i ls)))"
proof (induction ls arbitrary: off ats)
  case Nil
  then show ?case by (cases ats) auto
next
  case (Cons l ls)
  then obtain as where ats: "ats = off # as" and rest: "chain True (off + lo_size l) ls as stop" by (cases ats) auto
  from Cons(1) [OF rest] show ?case by (auto simp: ats nth_Cons split: nat.split)
qed

lemma packed_struct:
  assumes "struct_layout named d = Inr l" and "\<And>n l. named n = Inr l \<Longrightarrow> sound l"
    and "rp_packed (sdl_repr d)" and "rp_align (sdl_repr d) = None"
  shows "\<exists>ls ats. list_all2 (\<lambda>f l. field_layout named (fl_ty f) = Inr l) (sd_fields (sdl_def d)) ls
    \<and> chain True 0 ls ats (lo_size l) \<and> lo_align l = 1
    \<and> lo_fields l = zip (map (\<lambda>f. id_name (fl_name f)) (sd_fields (sdl_def d))) ats"
proof -
  from assms obtain stop st where
    place: "place_fields named True (sd_fields (sdl_def d)) 0 1 [] = Inr (stop, st, lo_fields l)"
    and a: "lo_align l = st" and r: "round_up stop st = Some (lo_size l)"
    by (auto simp: struct_layout_def Let_def split: sum.splits option.splits prod.splits)
  have pos: "pow2 (lo_align l)" if "field_layout named t = Inr l" for t l
    using field_layout_sound [OF that assms(2)] by (auto simp: sound_def)
  obtain ls ats where ls: "list_all2 (\<lambda>f l. field_layout named (fl_ty f) = Inr l) (sd_fields (sdl_def d)) ls"
    and ch: "chain True 0 ls ats stop" and fs: "lo_fields l = [] @ zip (map (\<lambda>f. id_name (fl_name f)) (sd_fields (sdl_def d))) ats"
    and st: "st = fold max (map (stride True) ls) 1"
    using place_fields_chain [OF place] pos by blast
  have "fold max (map (stride True) xs) (1::nat) = 1" for xs by (induction xs) (simp_all add: stride_def)
  with st a r round_up_1 have "lo_align l = 1" and "lo_size l = stop" by auto
  with ls ch fs show ?thesis by auto
qed

text \<open>C25: A packed struct that the rules for attributes accept has no padding: its fields follow one another, each at
  the sum of the sizes before it, its size is the sum of all, and its alignment is \<open>1\<close>.\<close>

theorem accepted_packed_has_no_padding:
  assumes "judge_attrs attrs OnStruct = []" and "judge_layout attrs def ds = []" and "rp_packed (repr_of attrs)"
    and "structs m name = Some \<lparr>sdl_def = def, sdl_repr = repr_of attrs\<rparr>"
    and "scalar_bytes name = None" and "mo_items m name \<noteq> None" and "layout_of_name m name = Inr l"
  shows "\<exists>ls. list_all2 (\<lambda>f l. field_of m (fl_ty f) = Inr l) (sd_fields def) ls
    \<and> map fst (lo_fields l) = map (\<lambda>f. id_name (fl_name f)) (sd_fields def)
    \<and> (\<forall>i < length ls. snd (lo_fields l ! i) = sum_list (map lo_size (take i ls)))
    \<and> lo_size l = sum_list (map lo_size ls) \<and> lo_align l = 1"
proof -
  let ?d = "\<lparr>sdl_def = def, sdl_repr = repr_of attrs\<rparr>"
  have "struct_layout (\<lambda>n. layout_named m (structs m) n 1) ?d = Inr l"
    using layout_named_struct [OF assms(7) [unfolded layout_of_name_def] assms(4-6)] by simp
  moreover have "rp_packed (sdl_repr ?d)" "rp_align (sdl_repr ?d) = None"
    using accepted_packed [OF assms(1-3)] assms(3) by simp_all
  ultimately obtain ls ats where ls: "list_all2 (\<lambda>f l. field_of m (fl_ty f) = Inr l) (sd_fields def) ls"
    and ch: "chain True 0 ls ats (lo_size l)" and a: "lo_align l = 1"
    and fs: "lo_fields l = zip (map (\<lambda>f. id_name (fl_name f)) (sd_fields def)) ats"
    using packed_struct [of "\<lambda>n. layout_named m (structs m) n 1" ?d l] layout_named_sound [OF structs_ok]
    by (auto simp del: One_nat_def)
  from packed_chain [OF ch] list_all2_lengthD [OF ls] ls a fs show ?thesis
    by (intro exI [of _ ls]) auto
qed

definition packed_attr :: "expr attribute" where
  "packed_attr = Attribute [Attr (Path [Name (ascii ''repr'') nowhere] nowhere)
     (Some (AiArgs [AaNested (Attr (Path [Name (ascii ''c'') nowhere] nowhere) None nowhere),
                    AaNested (Attr (Path [Name (ascii ''packed'') nowhere] nowhere) None nowhere)])) nowhere] nowhere"

definition packed_def :: "(ty, expr) struct_def" where
  "packed_def = StructDef (Some (Name (ascii ''K'') nowhere)) [] [demo_field ''tag'' ''u8'', demo_field ''len'' ''u32''] nowhere"

definition packed_module :: module_view where
  "packed_module =
     \<lparr>mo_units = [\<lparr>un_inner_attrs = [], un_items = [Item [packed_attr] None (IStruct packed_def) nowhere], un_span = nowhere\<rparr>],
      mo_items = [ascii ''K'' \<mapsto> DefStruct]\<rparr>"

lemma packed_repr: "repr_of [packed_attr] = \<lparr>rp_c = True, rp_packed = True, rp_align = None\<rparr>"
  by (simp add: packed_attr_def demo_simps)

lemma packed_structs: "structs packed_module = [ascii ''K'' \<mapsto> \<lparr>sdl_def = packed_def, sdl_repr = repr_of [packed_attr]\<rparr>]"
  by (simp add: structs_def packed_module_def packed_def_def)

lemma packed_names: "scalar_bytes (ascii ''K'') = None" "ascii ''K'' \<noteq> ascii ''str''" "mo_items packed_module (ascii ''K'') = Some DefStruct"
  by (simp_all add: scalar_bytes_def ascii_def packed_module_def)

lemma packed_layout:
  "layout_of_name packed_module (ascii ''K'') = Inr \<lparr>lo_size = 5, lo_align = 1, lo_fields = [(ascii ''tag'', 0), (ascii ''len'', 1)]\<rparr>"
  unfolding layout_of_name_def
  by (subst layout_named.simps)
     (simp add: packed_names demo_names packed_structs packed_repr packed_def_def struct_layout_def demo_field_def field_layout_def
       named_type_kind named_scalar round_up_def add_u64_def)

lemma packed_accepted: "judge_attrs [packed_attr] OnStruct = []" "judge_layout [packed_attr] packed_def (structs packed_module) = []"
proof -
  show "judge_attrs [packed_attr] OnStruct = []"
    by (simp add: judge_attrs_def judge_attr_def packed_attr_def attr_name_def implemented_repr_def is_named_def is_single_def ascii_def)
  have "\<not> holds_aligned (structs packed_module) (named_type (ascii ''u8'') nowhere) 0"
    "\<not> holds_aligned (structs packed_module) (named_type (ascii ''u32'') nowhere) 0"
    by (subst holds_aligned.simps, simp add: named_type_kind packed_structs ascii_def)+
  then show "judge_layout [packed_attr] packed_def (structs packed_module) = []"
    by (simp add: judge_layout_def packed_attr_def repr_args_def implemented_repr_def nested_named_def cannot_lay_out_def
      is_named_def is_single_def ascii_def packed_def_def demo_field_def)
qed

lemma accepted_packed_has_no_padding_witness:
  "\<exists>ls. list_all2 (\<lambda>f l. field_of packed_module (fl_ty f) = Inr l) (sd_fields packed_def) ls
    \<and> sum_list (map lo_size ls) = 5 \<and> snd (lo_fields (\<lparr>lo_size = 5, lo_align = 1, lo_fields = [(ascii ''tag'', 0), (ascii ''len'', 1)]\<rparr>) ! 1) = sum_list (map lo_size (take 1 ls))"
proof -
  have "structs packed_module (ascii ''K'') = Some \<lparr>sdl_def = packed_def, sdl_repr = repr_of [packed_attr]\<rparr>"
    by (simp add: packed_structs)
  from accepted_packed_has_no_padding [OF packed_accepted _ this packed_names(1) _ packed_layout] packed_names(3)
  obtain ls where ls: "list_all2 (\<lambda>f l. field_of packed_module (fl_ty f) = Inr l) (sd_fields packed_def) ls"
    and at: "\<forall>i < length ls. snd ([(ascii ''tag'', 0), (ascii ''len'', 1)] ! i) = sum_list (map lo_size (take i ls))"
    and total: "sum_list (map lo_size ls) = 5"
    by (auto simp: packed_repr)
  from list_all2_lengthD [OF ls] have "1 < length ls" by (simp add: packed_def_def)
  with at have "snd ([(ascii ''tag'', 0), (ascii ''len'', 1)] ! 1) = sum_list (map lo_size (take 1 ls))" by blast
  with ls total show ?thesis by (intro exI [of _ ls]) simp
qed

end
